(* ===== verification/CF_Prelude.thy ===== *)
theory CF_Prelude
  imports Main "HOL-Library.Word" "HOL-Library.Monad_Syntax"
begin

unbundle bit_operations_syntax

text \<open>
  Shared vocabulary of the development: the machine integers of the C code, the result
  codes and byte views of \<^verbatim>\<open>include/cf_core.h\<close>, the memory operations every component
  uses to read and write caller-owned buffers, and the generic lemmas on lists, buffers and
  words that the component theories rely on.

  \<^bold>\<open>Memory.\<close> A C object is the list of its bytes. Every access is bounds-checked by the
  model: an operation of type \<open>'a option\<close> that yields \<open>None\<close> has left the bounds of an
  object, dereferenced NULL or entered a loop that makes no progress, that is, the C program
  has no defined result. A lemma saying that an operation yields \<open>Some\<close> is therefore a
  memory-safety and termination statement, not a convention of the model.

  \<^bold>\<open>Sizes.\<close> A \<open>size_t\<close> is a \<open>nat\<close>; it has 32 bits on the ESP32 targets, so objects
  are shorter than \<open>2 ^ 32\<close> bytes (\<open>SIZE_MAX\<close>). Where the C arithmetic on sizes could wrap,
  the model writes the wrap-around out. Fixed-width integers are words.
\<close>

section \<open>Types\<close>

type_synonym u8 = "8 word"
type_synonym u16 = "16 word"
type_synonym u32 = "32 word"
type_synonym u64 = "64 word"

datatype cf_result =
    CF_OK | CF_ERR_ARGUMENT | CF_ERR_FORMAT | CF_ERR_LIMIT
  | CF_ERR_UNSUPPORTED | CF_ERR_STATE | CF_ERR_MEMORY | CF_ERR_TRUNCATED

text \<open>
  A \<open>cf_bytes\<close> is a pointer and a length. Either the pointer is NULL (with some length),
  or it points to exactly \<open>len\<close> readable bytes.
\<close>

datatype cf_bytes = Null_Bytes nat | Bytes "u8 list"

primrec bytes_len :: "cf_bytes \<Rightarrow> nat" where
  "bytes_len (Null_Bytes n) = n"
| "bytes_len (Bytes xs) = length xs"

primrec bytes_null :: "cf_bytes \<Rightarrow> bool" where
  "bytes_null (Null_Bytes n) = True"
| "bytes_null (Bytes xs) = False"

primrec bytes_list :: "cf_bytes \<Rightarrow> u8 list" where
  "bytes_list (Null_Bytes n) = []"
| "bytes_list (Bytes xs) = xs"

text \<open>The recurring argument check \<open>!b.ptr && b.len\<close>.\<close>

definition bytes_bad :: "cf_bytes \<Rightarrow> bool" where
  "bytes_bad b \<longleftrightarrow> bytes_null b \<and> bytes_len b \<noteq> 0"

lemma bytes_bad_simps [simp]:
  "bytes_bad (Bytes xs) = False"
  "bytes_bad (Null_Bytes n) = (n \<noteq> 0)"
  by (simp_all add: bytes_bad_def)

lemma bytes_list_len: "\<not> bytes_bad b \<Longrightarrow> length (bytes_list b) = bytes_len b"
  by (cases b) auto

abbreviation ch :: "char \<Rightarrow> u8" where
  "ch c \<equiv> of_char c"

text \<open>A C string literal as bytes, without its terminating NUL.\<close>

definition str :: "string \<Rightarrow> u8 list" where
  "str s = map of_char s"

definition SIZE_MAX :: nat where
  "SIZE_MAX = 2 ^ 32 - 1"

text \<open>The value of a \<open>size_t\<close> expression: wrap-around at 32 bits.\<close>

definition size_wrap :: "nat \<Rightarrow> nat" where
  "size_wrap n = n mod 2 ^ 32"

lemma size_wrap_id [simp]: "n \<le> SIZE_MAX \<Longrightarrow> size_wrap n = n"
  by (simp add: size_wrap_def SIZE_MAX_def)

text \<open>\<open>a - b\<close> on \<open>size_t\<close>.\<close>

definition size_sub :: "nat \<Rightarrow> nat \<Rightarrow> nat" where
  "size_sub a b = (if b \<le> a then a - b else SIZE_MAX - (b - a) + 1)"

section \<open>Bounds-checked memory\<close>

type_synonym mem = "u8 list"

text \<open>A pointer into an object: \<open>None\<close> is NULL, \<open>Some (m, p)\<close> is offset \<open>p\<close> of \<open>m\<close>.\<close>

type_synonym ptr = "(mem \<times> nat) option"

definition load :: "'a list \<Rightarrow> nat \<Rightarrow> 'a option" where
  "load m i = (if i < length m then Some (m ! i) else None)"

definition store :: "'a list \<Rightarrow> nat \<Rightarrow> 'a \<Rightarrow> 'a list option" where
  "store m i v = (if i < length m then Some (m[i := v]) else None)"

definition load_n :: "'a list \<Rightarrow> nat \<Rightarrow> nat \<Rightarrow> 'a list option" where
  "load_n m i n = (if i + n \<le> length m then Some (take n (drop i m)) else None)"

definition splice :: "'a list \<Rightarrow> nat \<Rightarrow> 'a list \<Rightarrow> 'a list" where
  "splice m i xs = take i m @ xs @ drop (i + length xs) m"

text \<open>\<open>memcpy\<close>/\<open>memset\<close> of a block.\<close>

definition store_n :: "'a list \<Rightarrow> nat \<Rightarrow> 'a list \<Rightarrow> 'a list option" where
  "store_n m i xs = (if i + length xs \<le> length m then Some (splice m i xs) else None)"

fun ptr_store :: "ptr \<Rightarrow> nat \<Rightarrow> u8 \<Rightarrow> ptr option" where
  "ptr_store None i v = None"
| "ptr_store (Some (m, p)) i v =
     (case store m (p + i) v of None \<Rightarrow> None | Some m' \<Rightarrow> Some (Some (m', p)))"

text \<open>A pointer that may be advanced by \<open>n\<close> bytes and then has \<open>cap\<close> bytes left.\<close>

fun ptr_room :: "ptr \<Rightarrow> nat \<Rightarrow> bool" where
  "ptr_room None cap = (cap = 0)"
| "ptr_room (Some (m, p)) cap = (p + cap \<le> length m)"

fun ptr_splice :: "ptr \<Rightarrow> u8 list \<Rightarrow> ptr" where
  "ptr_splice None xs = None"
| "ptr_splice (Some (m, p)) xs = Some (splice m p xs, p)"

lemma ptr_room_null: "ptr_room p cap \<Longrightarrow> \<not> (p = None \<and> cap \<noteq> 0)"
  by (cases p) auto

lemma ptr_splice_Nil [simp]: "ptr_splice p [] = p"
  by (cases p) (auto simp: splice_def)

named_theorems mem_simps \<open>rewriting of bounds-checked accesses that succeed\<close>

lemma load_Some [mem_simps]: "i < length m \<Longrightarrow> load m i = Some (m ! i)"
  by (simp add: load_def)

lemma store_Some [mem_simps]: "i < length m \<Longrightarrow> store m i v = Some (m[i := v])"
  by (simp add: store_def)

lemma load_n_Some [mem_simps]: "i + n \<le> length m \<Longrightarrow> load_n m i n = Some (take n (drop i m))"
  by (simp add: load_n_def)

lemma store_n_Some [mem_simps]: "i + length xs \<le> length m \<Longrightarrow> store_n m i xs = Some (splice m i xs)"
  by (simp add: store_n_def)

lemma length_splice [simp]: "i + length xs \<le> length m \<Longrightarrow> length (splice m i xs) = length m"
  by (simp add: splice_def)

lemma splice_Nil [simp]: "splice m i [] = m"
  by (simp add: splice_def)

lemma splice_snoc:
  assumes "i + length xs < length m"
  shows "(splice m i xs)[i + length xs := v] = splice m i (xs @ [v])"
proof -
  have "drop (i + length xs) m = m ! (i + length xs) # drop (i + length xs + 1) m"
    using assms by (simp add: Cons_nth_drop_Suc)
  then show ?thesis
    using assms by (simp add: splice_def list_update_append)
qed

lemma splice_splice:
  assumes "i + length xs + length ys \<le> length m"
  shows "splice (splice m i xs) (i + length xs) ys = splice m i (xs @ ys)"
proof -
  have "min i (length m) = i" using assms by simp
  then show ?thesis using assms by (simp add: splice_def ac_simps)
qed

lemma take_splice: "j \<le> i \<Longrightarrow> i \<le> length m \<Longrightarrow> take j (splice m i xs) = take j m"
  by (simp add: splice_def min_def)

lemma drop_splice:
  "i + length xs \<le> j \<Longrightarrow> i + length xs \<le> length m \<Longrightarrow> drop j (splice m i xs) = drop j m"
  by (simp add: splice_def min_def)

lemma read_splice [simp]:
  "i + length xs \<le> length m \<Longrightarrow> take (length xs) (drop i (splice m i xs)) = xs"
  by (simp add: splice_def)

lemma ptr_store_splice:
  assumes "ptr_room q cap" "length xs < cap"
  shows "ptr_store (ptr_splice q xs) (length xs) v = Some (ptr_splice q (xs @ [v]))"
  using assms
  by (cases q) (auto simp: store_Some splice_snoc)

lemma ptr_room_splice [simp]:
  "ptr_room q cap \<Longrightarrow> length xs \<le> cap \<Longrightarrow> ptr_room (ptr_splice q xs) cap"
  by (cases q) auto

lemma ptr_store_at:
  assumes "ptr_room q cap" "n = length xs" "n < cap"
  shows "ptr_store (ptr_splice q xs) n v = Some (ptr_splice q (xs @ [v]))"
  using assms ptr_store_splice by blast

section \<open>Total correctness\<close>

text \<open>A computation has a result that satisfies \<open>Q\<close>.\<close>

definition yields :: "'a option \<Rightarrow> ('a \<Rightarrow> bool) \<Rightarrow> bool" where
  "yields m Q \<longleftrightarrow> (\<exists>x. m = Some x \<and> Q x)"

lemma yields_Some: "Q x \<Longrightarrow> yields (Some x) Q"
  by (simp add: yields_def)

lemma yields_if: "(c \<Longrightarrow> yields m Q) \<Longrightarrow> (\<not> c \<Longrightarrow> yields m' Q) \<Longrightarrow> yields (if c then m else m') Q"
  by simp

lemma yields_bind: "yields m P \<Longrightarrow> (\<And>x. P x \<Longrightarrow> yields (f x) Q) \<Longrightarrow> yields (m \<bind> f) Q"
  by (auto simp: yields_def)

lemma yields_weaken: "yields m P \<Longrightarrow> (\<And>x. P x \<Longrightarrow> Q x) \<Longrightarrow> yields m Q"
  by (auto simp: yields_def)

lemma yields_case_prod:
  "(case x of (a, b) \<Rightarrow> P a b) \<Longrightarrow> (\<And>a b. P a b \<Longrightarrow> yields (f a b) Q) \<Longrightarrow> yields (case x of (a, b) \<Rightarrow> f a b) Q"
  by (cases x) simp

section \<open>Words as numbers\<close>

lemma u8_less: "unat (a :: u8) < 256"
  using unsigned_less [of a] by simp

lemma u16_less: "unat (a :: u16) < 65536"
  using unsigned_less [of a] by simp

lemma u32_less: "unat (a :: u32) < 4294967296"
  using unsigned_less [of a] by simp

lemma u64_less: "unat (a :: u64) < 18446744073709551616"
  using unsigned_less [of a] by simp

lemma unat_max: "unat (- 1 :: u64) = 2 ^ 64 - 1" "unat (- 1 :: u32) = 2 ^ 32 - 1"
  by (simp_all add: unsigned_minus_1_eq_mask mask_eq_exp_minus_1)

lemma unat_inverse: "word_of_nat (unat w) = w"
  by simp


lemma nat_push_or: "b < 2 ^ n \<Longrightarrow> push_bit n a OR b = a * 2 ^ n + (b :: nat)"
proof (induction n arbitrary: a b)
  case 0
  then show ?case by simp
next
  case (Suc n)
  have "b div 2 < 2 ^ n"
    using Suc.prems by simp
  then have IH: "push_bit n a OR b div 2 = a * 2 ^ n + b div 2"
    by (rule Suc.IH)
  have "push_bit (Suc n) a OR b
      = of_bool (odd b) + 2 * (push_bit n a OR b div 2)"
    by (subst or_nat_rec) (simp add: push_bit_eq_mult)
  also have "\<dots> = a * 2 ^ Suc n + b"
    using IH by (simp add: algebra_simps)
  finally show ?case .
qed

lemma nat_or_push: "b < 2 ^ n \<Longrightarrow> b OR push_bit n a = a * 2 ^ n + (b :: nat)"
  using nat_push_or [of b n a] by (simp add: or.commute [of b])

lemma unat_push_u32:
  fixes x :: u32
  assumes "unat x * 2 ^ n < 2 ^ 32"
  shows "unat (push_bit n x) = push_bit n (unat x)"
proof -
  have "unat (push_bit n x) = take_bit 32 (push_bit n (unat x))"
    by (simp only: unsigned_push_bit_eq) simp
  then show ?thesis using assms by (simp add: push_bit_eq_mult take_bit_nat_eq_self)
qed

section \<open>Reducers\<close>

text \<open>A reducer whose invariant holds at the start and is kept by every step.\<close>

locale reducer =
  fixes start :: "'s \<Rightarrow> bool" and step :: "'op \<Rightarrow> 's \<Rightarrow> 's" and inv :: "'s \<Rightarrow> bool"
  assumes inv_start: "start s \<Longrightarrow> inv s"
    and inv_step: "inv s \<Longrightarrow> inv (step oper s)"
begin

lemma inv_fold: "inv s \<Longrightarrow> inv (fold step ops s)"
  by (induction ops arbitrary: s) (auto intro: inv_step)

end

end
