(* ===== verification/CF_Base64.thy ===== *)
theory CF_Base64
  imports CF_Prelude
begin

unbundle bit_operations_syntax

text \<open>
  The strict standard-alphabet Base64 codec and the secure wipe of
  \<^verbatim>\<open>src/protocol/cf_base64.c\<close>. The first section translates the C functions, the second
  states a reference codec by groups of three bytes (RFC 4648), the third relates the two:
  the C functions never leave the caller's buffer, the encoder computes the reference
  encoding, and the decoder accepts exactly the reference encodings.
\<close>

section \<open>The C functions\<close>

text \<open>The loop \<open>while (len--) *p++ = 0\<close>.\<close>

fun secure_zero_loop :: "ptr \<Rightarrow> nat \<Rightarrow> nat \<Rightarrow> ptr option" where
  "secure_zero_loop p i 0 = Some p"
| "secure_zero_loop p i (Suc len) =
     (case ptr_store p i 0 of None \<Rightarrow> None | Some p' \<Rightarrow> secure_zero_loop p' (Suc i) len)"

definition cf_secure_zero :: "ptr \<Rightarrow> nat \<Rightarrow> ptr option" where
  "cf_secure_zero p len = secure_zero_loop p 0 len"

definition digit :: "u8 \<Rightarrow> int" where
  "digit c =
     (if ch CHR ''A'' \<le> c \<and> c \<le> ch CHR ''Z'' then uint c - 65
      else if ch CHR ''a'' \<le> c \<and> c \<le> ch CHR ''z'' then uint c - 97 + 26
      else if ch CHR ''0'' \<le> c \<and> c \<le> ch CHR ''9'' then uint c - 48 + 52
      else if c = ch CHR ''+'' then 62
      else if c = ch CHR ''/'' then 63
      else - 1)"

text \<open>
  The decoding loop over the \<open>n\<close> significant characters. \<open>Inl\<close> is the early
  \<open>return CF_ERR_FORMAT\<close>; \<open>Inr (bits, pending, pos)\<close> is the state after the loop.
\<close>

fun decode_loop :: "u8 list \<Rightarrow> u32 \<Rightarrow> nat \<Rightarrow> nat \<Rightarrow> ptr
    \<Rightarrow> ((cf_result + u32 \<times> nat \<times> nat) \<times> ptr) option" where
  "decode_loop [] bits pending pos out = Some (Inr (bits, pending, pos), out)"
| "decode_loop (c # cs) bits pending pos out =
     (let d = digit c in
      if d < 0 then Some (Inl CF_ERR_FORMAT, out)
      else
        let bits' = push_bit 6 bits OR word_of_int d; pending' = pending + 6 in
        if pending' \<ge> 8 then
          let q = pending' - 8 in
          (case ptr_store out pos (ucast (drop_bit q bits')) of
             None \<Rightarrow> None
           | Some out' \<Rightarrow> decode_loop cs bits' q (pos + 1) out')
        else decode_loop cs bits' pending' pos out)"

text \<open>The number of significant characters: \<open>in.len\<close> less at most two \<open>=\<close> signs.\<close>

definition strip_padding :: "u8 list \<Rightarrow> nat" where
  "strip_padding xs =
     (let n = length xs;
          n = (if n \<noteq> 0 \<and> xs ! (n - 1) = ch CHR ''='' then n - 1 else n);
          n = (if n \<noteq> 0 \<and> xs ! (n - 1) = ch CHR ''='' then n - 1 else n)
      in n)"

text \<open>
  \<open>written\<close> is the pointee of the \<open>size_t *written\<close> argument, \<open>None\<close> for NULL. The
  result is the return code, the buffer and \<open>*written\<close> afterwards.
\<close>

definition cf_base64_decode :: "cf_bytes \<Rightarrow> bool \<Rightarrow> ptr \<Rightarrow> nat \<Rightarrow> nat option
    \<Rightarrow> (cf_result \<times> ptr \<times> nat option) option" where
  "cf_base64_decode inp padded out cap written =
     (let xs = bytes_list inp in
      if written = None then Some (CF_ERR_ARGUMENT, out, written)
      else if bytes_bad inp \<or> (out = None \<and> cap \<noteq> 0) then Some (CF_ERR_ARGUMENT, out, Some 0)
      else if padded \<and> bytes_len inp mod 4 \<noteq> 0 then Some (CF_ERR_FORMAT, out, Some 0)
      else
        let n = (if padded then strip_padding xs else bytes_len inp) in
        if n mod 4 = 1 then Some (CF_ERR_FORMAT, out, Some 0)
        else
          let count = (n div 4) * 3 + (if n mod 4 \<noteq> 0 then n mod 4 - 1 else 0) in
          if count > cap then Some (CF_ERR_LIMIT, out, Some 0)
          else
            (case decode_loop (take n xs) 0 0 0 out of
               None \<Rightarrow> None
             | Some (Inl rc, out') \<Rightarrow> Some (rc, out', Some 0)
             | Some (Inr (bits, pending, pos), out') \<Rightarrow>
                 if pending \<noteq> 0 \<and> bits AND (push_bit pending 1 - 1) \<noteq> 0
                 then Some (CF_ERR_FORMAT, out', Some 0)
                 else Some (CF_OK, out', Some pos)))"

definition alphabet :: "u8 list" where
  "alphabet = str ''ABCDEFGHIJKLMNOPQRSTUVWXYZabcdefghijklmnopqrstuvwxyz0123456789+/''"

text \<open>\<open>alphabet[i]\<close> for an index that was masked with 63.\<close>

definition alphabet_at :: "u32 \<Rightarrow> u8" where
  "alphabet_at i = alphabet ! unat (i AND 63)"

text \<open>The encoding loop; each round consumes one, two or three bytes.\<close>

fun encode_loop :: "bool \<Rightarrow> u8 list \<Rightarrow> nat \<Rightarrow> ptr \<Rightarrow> (nat \<times> ptr) option" where
  "encode_loop padded [] pos out = Some (pos, out)"
| "encode_loop padded (a # xs) pos out =
     (let left = length (a # xs);
          word = push_bit 16 (ucast a :: u32);
          word = (if left > 1 then word OR push_bit 8 (ucast (xs ! 0)) else word);
          word = (if left > 2 then word OR ucast (xs ! 1) else word)
      in do {
        out \<leftarrow> ptr_store out pos (alphabet_at (drop_bit 18 word));
        out \<leftarrow> ptr_store out (pos + 1) (alphabet_at (drop_bit 12 word));
        (pos, out) \<leftarrow>
          (if left > 1 then do { out \<leftarrow> ptr_store out (pos + 2) (alphabet_at (drop_bit 6 word)); Some (pos + 3, out) }
           else if padded then do { out \<leftarrow> ptr_store out (pos + 2) (ch CHR ''=''); Some (pos + 3, out) }
           else Some (pos + 2, out));
        (pos, out) \<leftarrow>
          (if left > 2 then do { out \<leftarrow> ptr_store out pos (alphabet_at word); Some (pos + 1, out) }
           else if padded then do { out \<leftarrow> ptr_store out pos (ch CHR ''=''); Some (pos + 1, out) }
           else Some (pos, out));
        encode_loop padded (drop 2 xs) pos out
      })"

definition cf_base64_encode :: "cf_bytes \<Rightarrow> bool \<Rightarrow> ptr \<Rightarrow> nat \<Rightarrow> nat option
    \<Rightarrow> (cf_result \<times> ptr \<times> nat option) option" where
  "cf_base64_encode inp padded out cap written =
     (let len = bytes_len inp; rem = len mod 3 in
      if written = None then Some (CF_ERR_ARGUMENT, out, written)
      else if bytes_bad inp \<or> (out = None \<and> cap \<noteq> 0) then Some (CF_ERR_ARGUMENT, out, Some 0)
      else if len div 3 > (SIZE_MAX - 4) div 4 then Some (CF_ERR_LIMIT, out, Some 0)
      else
        let need = size_wrap (size_wrap ((len div 3) * 4) +
                     (if rem \<noteq> 0 then (if padded then 4 else rem + 1) else 0)) in
        if need > cap then Some (CF_ERR_LIMIT, out, Some 0)
        else
          (case encode_loop padded (bytes_list inp) 0 out of
             None \<Rightarrow> None
           | Some (pos, out') \<Rightarrow> Some (CF_OK, out', Some pos)))"

section \<open>The reference codec\<close>

text \<open>
  RFC 4648: three bytes are four six-bit digits, a final group of one or two bytes is two or
  three digits, and the padded form fills the last group with \<open>=\<close>.
\<close>

fun b64_digits :: "u8 list \<Rightarrow> nat list" where
  "b64_digits [] = []"
| "b64_digits [a] = [unat a div 4, unat a mod 4 * 16]"
| "b64_digits [a, b] = [unat a div 4, unat a mod 4 * 16 + unat b div 16, unat b mod 16 * 4]"
| "b64_digits (a # b # c # xs) =
     [unat a div 4, unat a mod 4 * 16 + unat b div 16, unat b mod 16 * 4 + unat c div 64, unat c mod 64]
     @ b64_digits xs"

definition b64_raw :: "u8 list \<Rightarrow> u8 list" where
  "b64_raw xs = map (\<lambda>d. alphabet ! d) (b64_digits xs)"

definition b64_text :: "bool \<Rightarrow> u8 list \<Rightarrow> u8 list" where
  "b64_text padded xs =
     b64_raw xs @ (if padded then replicate ((3 - length xs mod 3) mod 3) (ch CHR ''='') else [])"

text \<open>The number of bytes that \<open>n\<close> significant characters stand for.\<close>

definition dec_len :: "nat \<Rightarrow> nat" where
  "dec_len n = (n div 4) * 3 + (if n mod 4 \<noteq> 0 then n mod 4 - 1 else 0)"

text \<open>
  The decoder as arithmetic: \<open>v\<close> is the value of the \<open>p\<close> bits read but not yet written.
  \<open>quads\<close> only names the induction over groups of four digits.
\<close>

fun dec_bits :: "nat list \<Rightarrow> nat \<Rightarrow> nat \<Rightarrow> nat list \<times> nat \<times> nat" where
  "dec_bits [] v p = ([], v, p)"
| "dec_bits (d # ds) v p =
     (let v' = v * 64 + d; p' = p + 6 in
      if p' \<ge> 8 then (let q = p' - 8; (out, r) = dec_bits ds (v' mod 2 ^ q) q in (v' div 2 ^ q # out, r))
      else dec_bits ds v' p')"

fun quads :: "'a list \<Rightarrow> nat" where
  "quads (a # b # c # d # xs) = Suc (quads xs)"
| "quads [] = 0" | "quads [a] = 0" | "quads [a, b] = 0" | "quads [a, b, c] = 0"

section \<open>Correctness\<close>


lemma unat_shift_or:
  fixes bits :: u32
  assumes "d < 64" "p \<le> 26"
  shows "unat (push_bit 6 bits OR word_of_nat d) mod 2 ^ (p + 6) = (unat bits mod 2 ^ p) * 64 + d"
proof -
  have d: "unat (word_of_nat d :: u32) = d"
    using assms by (simp add: unat_of_nat)
  have "unat (push_bit 6 bits OR word_of_nat d) = push_bit 6 (take_bit 26 (unat bits)) OR d"
    by (simp add: unsigned_or_eq unsigned_push_bit_eq d take_bit_push_bit)
  also have "\<dots> = (unat bits mod 2 ^ 26) * 64 + d"
    using assms by (simp add: nat_push_or [where n = 6, simplified] take_bit_eq_mod)
  finally have *: "unat (push_bit 6 bits OR word_of_nat d) = (unat bits mod 2 ^ 26) * 64 + d" .
  have "((unat bits mod 2 ^ 26) * 64 + d) mod (64 * 2 ^ p) = 64 * ((unat bits mod 2 ^ 26) mod 2 ^ p) + d"
    using assms by (simp add: mod_mult2_eq)
  also have "(unat bits mod 2 ^ 26) mod 2 ^ p = unat bits mod 2 ^ p"
    using assms(2) by (simp add: mod_mod_cancel le_imp_power_dvd del: power_numeral)
  finally show ?thesis
    unfolding * by (simp add: power_add mult.commute)
qed

lemma mask_word: "unat (bits AND (push_bit p 1 - 1) :: u32) = unat bits mod 2 ^ p"
proof -
  have "bits AND (push_bit p 1 - 1) = take_bit p bits"
    by (simp only: take_bit_eq_mask mask_eq_exp_minus_1 push_bit_eq_mult mult_1)
  then show ?thesis by (simp only: unsigned_take_bit_eq) (simp only: take_bit_eq_mod)
qed

lemma mask_zero: "bits AND (2 ^ p - 1) = (0 :: u32) \<longleftrightarrow> unat bits mod 2 ^ p = 0"
  using mask_word [of bits p] by (simp add: word_unat_eq_iff)

lemma alphabet_nth:
  "n < 64 \<Longrightarrow> alphabet ! n =
     (if n < 26 then word_of_nat (65 + n) else if n < 52 then word_of_nat (71 + n)
      else if n < 62 then word_of_nat (n - 4) else if n = 62 then 43 else 47)"
proof -
  assume "n < 64"
  have "list_all (\<lambda>n. alphabet ! n =
     (if n < 26 then word_of_nat (65 + n) else if n < 52 then word_of_nat (71 + n)
      else if n < 62 then word_of_nat (n - 4) else if n = 62 then 43 else 47)) [0..<64]" by code_simp
  with \<open>n < 64\<close> show ?thesis unfolding list_all_iff by simp
qed

lemma digit_alphabet: "n < 64 \<Longrightarrow> digit (alphabet ! n) = int n"
proof -
  assume "n < 64"
  have "list_all (\<lambda>n. digit (alphabet ! n) = int n) [0..<64]" by code_simp
  with \<open>n < 64\<close> show ?thesis by (simp add: list_all_iff)
qed

lemma digit_of_nat:
  assumes "n < 256"
  shows "digit (word_of_nat n) =
     (if 65 \<le> n \<and> n \<le> 90 then int n - 65
      else if 97 \<le> n \<and> n \<le> 122 then int n - 97 + 26
      else if 48 \<le> n \<and> n \<le> 57 then int n - 48 + 52
      else if n = 43 then 62 else if n = 47 then 63 else - 1)"
proof -
  have "unat (word_of_nat n :: u8) = n" using assms by (simp add: unat_of_nat)
  then have "uint (word_of_nat n :: u8) = int n" by (metis uint_nat)
  moreover have "(word_of_nat n :: u8) = 43 \<longleftrightarrow> n = 43" "(word_of_nat n :: u8) = 47 \<longleftrightarrow> n = 47"
    using \<open>unat _ = n\<close> by (auto simp: word_unat_eq_iff)
  ultimately show ?thesis
    using \<open>unat _ = n\<close> unfolding digit_def word_le_nat_alt by simp
qed

lemma digit_range:
  assumes "0 \<le> digit c"
  shows "digit c < 64 \<and> c = alphabet ! nat (digit c)"
proof -
  have "unat c < 256" using unsigned_less [of c] by simp
  define n where "n = unat c"
  have n: "c = word_of_nat n" by (simp add: n_def)
  have "n < 256" using \<open>unat c < 256\<close> by (simp add: n_def)
  then show ?thesis
    using assms unfolding n digit_of_nat [OF \<open>n < 256\<close>]
    by (auto simp: alphabet_nth nat_diff_distrib' nat_add_distrib split: if_splits)
qed


lemma unat_top_byte:
  fixes w :: u32
  shows "unat (ucast (drop_bit q w) :: u8) = unat w mod 2 ^ (q + 8) div 2 ^ q"
  by (simp add: unsigned_ucast_eq unat_drop_bit_eq  flip: take_bit_eq_mod drop_bit_eq_div)
   (simp add: drop_bit_take_bit)

lemma length_dec_bits: "p < 8 \<Longrightarrow> length (fst (dec_bits ds v p)) = (p + 6 * length ds) div 8"
proof (induction ds arbitrary: v p)
  case (Cons d ds)
  show ?case
  proof (cases "p + 6 \<ge> 8")
    case True
    then have "p + 6 - 8 < 8" using Cons.prems by simp
    from Cons.IH [OF this] have "length (fst (dec_bits (d # ds) v p)) = Suc ((p + 6 - 8 + 6 * length ds) div 8)"
      using True by (simp add: Let_def case_prod_beta)
    also have "\<dots> = (p + 6 * length (d # ds)) div 8"
      using True by simp
    finally show ?thesis .
  next
    case False
    then show ?thesis using Cons.IH [of "p + 6"] by (simp add: Let_def algebra_simps)
  qed
qed simp

lemma decode_loop_bits:
  assumes "\<forall>c \<in> set cs. 0 \<le> digit c"
    and "p \<le> 6" "even p" "unat bits mod 2 ^ p = v"
    and "ptr_room q cap" "length acc + (p + 6 * length cs) div 8 \<le> cap"
    and "dec_bits (map (\<lambda>c. nat (digit c)) cs) v p = (out, v', p')"
  shows "\<exists>bits'. decode_loop cs bits p (length acc) (ptr_splice q acc) =
           Some (Inr (bits', p', length acc + length out), ptr_splice q (acc @ map word_of_nat out))
         \<and> unat bits' mod 2 ^ p' = v' \<and> p' \<le> 6"
  using assms
proof (induction cs arbitrary: bits p v acc out)
  case Nil
  then show ?case by auto
next
  case (Cons c cs)
  define d where "d = nat (digit c)"
  have d: "digit c = int d" "d < 64" using Cons.prems(1) digit_range [of c] by (auto simp: d_def)
  define b1 where "b1 = push_bit 6 bits OR word_of_nat d"
  have b1: "unat b1 mod 2 ^ (p + 6) = v * 64 + d"
    unfolding b1_def using unat_shift_or [of d p bits] d Cons.prems(2,4) by simp
  show ?case
  proof (cases "p + 6 \<ge> 8")
    case True
    define r where "r = p + 6 - 8"
    have r: "r \<le> 6" "p + 6 = r + 8" "even r" using True Cons.prems(2,3) by (auto simp: r_def)
    have byte: "ucast (drop_bit r b1) = (word_of_nat ((v * 64 + d) div 2 ^ r) :: u8)"
      using unat_top_byte [of r b1] b1 r by (metis unat_inverse)
    obtain out1 where o1: "dec_bits (map (\<lambda>c. nat (digit c)) cs) ((v * 64 + d) mod 2 ^ r) r = (out1, v', p')"
      and o2: "out = (v * 64 + d) div 2 ^ r # out1"
      using Cons.prems(7) True d by (auto simp: Let_def r_def split: prod.splits)
    have vr: "unat b1 mod 2 ^ r = (v * 64 + d) mod 2 ^ r"
      by (metis b1 r(2) mod_mod_cancel le_imp_power_dvd le_add1)
    let ?acc = "acc @ [word_of_nat ((v * 64 + d) div 2 ^ r)]"
    have room: "length ?acc + (r + 6 * length cs) div 8 \<le> cap"
      using Cons.prems(6) r by simp
    have st: "ptr_store (ptr_splice q acc) (length acc) (ucast (drop_bit r b1)) = Some (ptr_splice q ?acc)"
      unfolding byte using Cons.prems(5) room by (intro ptr_store_splice) auto
    have "decode_loop (c # cs) bits p (length acc) (ptr_splice q acc)
        = decode_loop cs b1 r (length ?acc) (ptr_splice q ?acc)"
      using d True st by (simp add: Let_def b1_def r_def)
    moreover have "\<exists>bits'. decode_loop cs b1 r (length ?acc) (ptr_splice q ?acc) =
           Some (Inr (bits', p', length ?acc + length out1), ptr_splice q (?acc @ map word_of_nat out1))
         \<and> unat bits' mod 2 ^ p' = v' \<and> p' \<le> 6"
      using Cons.prems r vr room o1 by (intro Cons.IH [where v = "(v * 64 + d) mod 2 ^ r"]) auto
    ultimately show ?thesis by (simp add: o2)
  next
    case False
    then have "p = 0" using Cons.prems(3) by presburger
    have "decode_loop (c # cs) bits p (length acc) (ptr_splice q acc)
        = decode_loop cs b1 (p + 6) (length acc) (ptr_splice q acc)"
      using d False by (simp add: Let_def b1_def)
    moreover have "\<exists>bits'. decode_loop cs b1 (p + 6) (length acc) (ptr_splice q acc) =
           Some (Inr (bits', p', length acc + length out), ptr_splice q (acc @ map word_of_nat out))
         \<and> unat bits' mod 2 ^ p' = v' \<and> p' \<le> 6"
      using Cons.prems False b1 d \<open>p = 0\<close>
      by (intro Cons.IH [where v = "v * 64 + d"]) (auto simp: Let_def algebra_simps)
    ultimately show ?thesis by simp
  qed
qed


lemma group_split:
  fixes a b c :: nat
  assumes b: "b < 256" and c: "c < 256"
  shows "(a div 4 * 64 + (a mod 4 * 16 + b div 16)) div 16 = a"
    and "(a div 4 * 64 + (a mod 4 * 16 + b div 16)) mod 16 = b div 16"
    and "(b div 16 * 64 + (b mod 16 * 4 + c div 64)) div 4 = b"
    and "(b div 16 * 64 + (b mod 16 * 4 + c div 64)) mod 4 = c div 64"
    and "c div 64 * 64 + c mod 64 = c"
proof -
  have a: "a div 4 * 64 + (a mod 4 * 16 + b div 16) = a * 16 + b div 16"
    using div_mult_mod_eq [of a 4] by linarith
  have "b div 16 < 16" using b by simp
  then show "(a div 4 * 64 + (a mod 4 * 16 + b div 16)) div 16 = a"
    and "(a div 4 * 64 + (a mod 4 * 16 + b div 16)) mod 16 = b div 16" unfolding a by simp_all
  have b': "b div 16 * 64 + (b mod 16 * 4 + c div 64) = b * 4 + c div 64"
    using div_mult_mod_eq [of b 16] by linarith
  have "c div 64 < 4" using c by simp
  then show "(b div 16 * 64 + (b mod 16 * 4 + c div 64)) div 4 = b"
    and "(b div 16 * 64 + (b mod 16 * 4 + c div 64)) mod 4 = c div 64" unfolding b' by simp_all
  show "c div 64 * 64 + c mod 64 = c" by simp
qed

lemma group_join:
  fixes d1 d2 d3 d4 :: nat
  assumes "d1 < 64" "d2 < 64" "d3 < 64" "d4 < 64"
  shows "(d1 * 64 + d2) div 16 div 4 = d1"
    and "(d1 * 64 + d2) div 16 mod 4 * 16 + ((d1 * 64 + d2) mod 16 * 64 + d3) div 4 div 16 = d2"
    and "((d1 * 64 + d2) mod 16 * 64 + d3) div 4 mod 16 * 4
         + (((d1 * 64 + d2) mod 16 * 64 + d3) mod 4 * 64 + d4) div 64 = d3"
    and "(((d1 * 64 + d2) mod 16 * 64 + d3) mod 4 * 64 + d4) mod 64 = d4"
    and "(d1 * 64 + d2) div 16 < 256"
    and "((d1 * 64 + d2) mod 16 * 64 + d3) div 4 < 256"
    and "((d1 * 64 + d2) mod 16 * 64 + d3) mod 4 * 64 + d4 < 256"
proof -
  have "d1 * 64 + d2 = d2 + 16 * (d1 * 4)" by simp
  then have x: "(d1 * 64 + d2) div 16 = d1 * 4 + d2 div 16" "(d1 * 64 + d2) mod 16 = d2 mod 16"
    by (simp_all only: div_mult_self2 mod_mult_self2)
  have "d2 mod 16 * 64 + d3 = d3 + 4 * (d2 mod 16 * 16)" by simp
  then have y: "(d2 mod 16 * 64 + d3) div 4 = d2 mod 16 * 16 + d3 div 4" "(d2 mod 16 * 64 + d3) mod 4 = d3 mod 4"
    by (simp_all only: div_mult_self2 mod_mult_self2)
  have z: "(d3 mod 4 * 64 + d4) div 64 = d3 mod 4" "(d3 mod 4 * 64 + d4) mod 64 = d4" using assms by simp_all
  have s: "d2 div 16 < 4" "d3 div 4 < 16" "d2 mod 16 < 16" "d3 mod 4 < 4" using assms by simp_all
  show "(d1 * 64 + d2) div 16 div 4 = d1" unfolding x using s by simp
  show "(d1 * 64 + d2) div 16 mod 4 * 16 + ((d1 * 64 + d2) mod 16 * 64 + d3) div 4 div 16 = d2"
    unfolding x y using s by simp
  show "((d1 * 64 + d2) mod 16 * 64 + d3) div 4 mod 16 * 4
         + (((d1 * 64 + d2) mod 16 * 64 + d3) mod 4 * 64 + d4) div 64 = d3"
    unfolding x y z using s by simp
  show "(((d1 * 64 + d2) mod 16 * 64 + d3) mod 4 * 64 + d4) mod 64 = d4" unfolding x y z by simp
  show "(d1 * 64 + d2) div 16 < 256" unfolding x using s assms by linarith
  show "((d1 * 64 + d2) mod 16 * 64 + d3) div 4 < 256" unfolding x y using s by linarith
  show "((d1 * 64 + d2) mod 16 * 64 + d3) mod 4 * 64 + d4 < 256" unfolding x y using s assms by linarith
qed

lemma dec_bits_digits:
  "dec_bits (b64_digits xs) 0 0 = (map unat xs, 0, (if length xs mod 3 = 0 then 0 else if length xs mod 3 = 1 then 4 else 2))"
proof (induction xs rule: b64_digits.induct)
  case (4 a b c xs)
  then show ?case
    by (simp add: Let_def group_split [OF u8_less u8_less])
next
  case (3 a b)
  then show ?case
    using group_split(1,2) [OF u8_less [of b] u8_less [of b], of "unat a"] by (simp add: Let_def)
qed (simp_all add: Let_def)

lemma digits_of_dec_bits:
  assumes "\<forall>d \<in> set ds. d < 64" "length ds mod 4 \<noteq> 1" "dec_bits ds 0 0 = (out, 0, p)"
  shows "ds = b64_digits (map word_of_nat out) \<and> (\<forall>b \<in> set out. b < 256)"
  using assms
proof (induction ds arbitrary: out rule: quads.induct)
  case (1 d1 d2 d3 d4 ds)
  let ?r = "dec_bits ds 0 0"
  have small: "d1 < 64" "d2 < 64" "d3 < 64" "d4 < 64" using 1 by auto
  obtain out' where o: "?r = (out', 0, p)" and
    out: "out = [(d1 * 64 + d2) div 16, ((d1 * 64 + d2) mod 16 * 64 + d3) div 4,
                 ((d1 * 64 + d2) mod 16 * 64 + d3) mod 4 * 64 + d4] @ out'"
    using "1.prems"(3) by (auto simp: Let_def split: prod.splits)
  have "ds = b64_digits (map word_of_nat out') \<and> (\<forall>b \<in> set out'. b < 256)"
    using "1.IH" [OF _ _ o] "1.prems" by simp
  then show ?case
    using group_join(3) [OF small] small by (simp add: out unat_of_nat group_join [OF small] del: of_nat_add of_nat_mult)
next
  case (4 a b)
  have small: "a < 64" "b < 64" using 4 by auto
  have out: "out = [(a * 64 + b) div 16]" and z: "(a * 64 + b) mod 16 = 0"
    using "4.prems"(3) by (simp_all add: Let_def)
  show ?case
    using group_join(1,2,5) [OF small, of 0 0] unfolding z by (simp add: out unat_of_nat)
next
  case (5 a b c)
  have small: "a < 64" "b < 64" "c < 64" using 5 by auto
  have out: "out = [(a * 64 + b) div 16, ((a * 64 + b) mod 16 * 64 + c) div 4]"
    and z: "((a * 64 + b) mod 16 * 64 + c) mod 4 = 0"
    using "5.prems"(3) by (simp_all add: Let_def)
  show ?case
    using group_join(1,2,3,5,6) [OF small, of 0] unfolding z by (simp add: out unat_of_nat)
qed auto

lemma digit_bounds:
  fixes a b c :: u8
  shows "unat a div 4 < 64" "unat a mod 4 * 16 + unat b div 16 < 64"
    "unat b mod 16 * 4 + unat c div 64 < 64" "unat a mod 4 * 16 < 64" "unat b mod 16 * 4 < 64"
  using u8_less [of a] u8_less [of b] u8_less [of c] by arith+

lemma b64_digits_bound: "\<forall>d \<in> set (b64_digits xs). d < 64"
  by (induction xs rule: b64_digits.induct) (auto simp: digit_bounds)


lemma unat_and_63: "unat (x AND 63 :: u32) = unat x mod 64"
proof -
  have "unat x AND 63 = unat x mod 64"
    using take_bit_eq_mask [of 6 "unat x"] by (simp add: mask_eq_exp_minus_1 take_bit_eq_mod)
  then show ?thesis by (simp add: unsigned_and_eq)
qed

lemma unat_group3:
  fixes a b c :: u8
  shows "unat ((push_bit 16 (ucast a) OR push_bit 8 (ucast b)) OR ucast c :: u32)
           = unat a * 65536 + unat b * 256 + unat c"
proof -
  have u: "unat (ucast x :: u32) = unat x" for x :: u8
    using u8_less [of x] by (simp add: unsigned_ucast_eq take_bit_nat_eq_self)
  have "unat ((push_bit 16 (ucast a) OR push_bit 8 (ucast b)) OR ucast c :: u32)
      = (push_bit 16 (unat a) OR push_bit 8 (unat b)) OR unat c"
    using u8_less [of a] u8_less [of b] by (simp only: unsigned_or_eq u unat_push_u32) (simp add: u unat_push_u32)
  also have "push_bit 16 (unat a) OR push_bit 8 (unat b) = unat a * 65536 + unat b * 256"
    using u8_less [of b] nat_push_or [of "push_bit 8 (unat b)" 16 "unat a"] by (simp add: push_bit_eq_mult)
  also have "\<dots> = push_bit 8 (unat a * 256 + unat b)"
    by (simp add: push_bit_eq_mult)
  also have "\<dots> OR unat c = unat a * 65536 + unat b * 256 + unat c"
    using u8_less [of c] nat_push_or [of "unat c" 8 "unat a * 256 + unat b"] by simp
  finally show ?thesis .
qed

lemma alphabet_at_nat: "alphabet_at (drop_bit k w) = alphabet ! (unat w div 2 ^ k mod 64)"
  by (simp only: alphabet_at_def unat_and_63 unat_drop_bit_eq) (simp only: drop_bit_eq_div)

lemma group_digits:
  fixes a b c :: nat
  assumes "a < 256" "b < 256" "c < 256"
  shows "(a * 65536 + b * 256 + c) div 262144 mod 64 = a div 4"
    and "(a * 65536 + b * 256 + c) div 4096 mod 64 = a mod 4 * 16 + b div 16"
    and "(a * 65536 + b * 256 + c) div 64 mod 64 = b mod 16 * 4 + c div 64"
    and "(a * 65536 + b * 256 + c) mod 64 = c mod 64"
proof -
  have "(a * 65536 + b * 256 + c) div 65536 = a" using assms by simp
  then have "(a * 65536 + b * 256 + c) div 262144 = a div 4"
    using div_mult2_eq [of "a * 65536 + b * 256 + c" 65536 4] by simp
  then show "(a * 65536 + b * 256 + c) div 262144 mod 64 = a div 4" using assms by simp
  have "(a * 65536 + b * 256 + c) div 256 = a * 256 + b" using assms by simp
  then have "(a * 65536 + b * 256 + c) div 4096 = (a * 256 + b) div 16"
    using div_mult2_eq [of "a * 65536 + b * 256 + c" 256 16] by simp
  also have "\<dots> = a * 16 + b div 16" using div_mult_self2 [of 16 b "a * 16"] by simp
  also have "\<dots> mod 64 = a mod 4 * 16 + b div 16"
    using assms by (simp add: mod_mult2_eq [of _ 16 4, simplified])
  finally show "(a * 65536 + b * 256 + c) div 4096 mod 64 = a mod 4 * 16 + b div 16" .
  have "(a * 65536 + b * 256 + c) div 64 = a * 1024 + b * 4 + c div 64"
    using div_mult_self2 [of 64 c "a * 1024 + b * 4"] by simp
  also have "\<dots> mod 64 = (b * 4 + c div 64) mod 64"
    using mod_mult_self2 [of "b * 4 + c div 64" 64 "a * 16"] by (simp add: algebra_simps)
  also have "\<dots> = b mod 16 * 4 + c div 64"
    using assms by (simp add: mod_mult2_eq [of _ 4 16, simplified])
  finally show "(a * 65536 + b * 256 + c) div 64 mod 64 = b mod 16 * 4 + c div 64" .
  show "(a * 65536 + b * 256 + c) mod 64 = c mod 64"
    using mod_mult_self2 [of c 64 "a * 1024 + b * 4"] by (simp add: ac_simps)
qed

lemma group3_alphabet:
  fixes a b c :: u8
  defines "w \<equiv> (push_bit 16 (ucast a) OR push_bit 8 (ucast b)) OR ucast c :: u32"
  shows "alphabet_at (drop_bit 18 w) = alphabet ! (unat a div 4)"
    and "alphabet_at (drop_bit 12 w) = alphabet ! (unat a mod 4 * 16 + unat b div 16)"
    and "alphabet_at (drop_bit 6 w) = alphabet ! (unat b mod 16 * 4 + unat c div 64)"
    and "alphabet_at w = alphabet ! (unat c mod 64)"
  using group_digits [OF u8_less u8_less u8_less, of a b c]
  unfolding w_def alphabet_at_nat unat_group3 by (simp_all add: alphabet_at_def unat_and_63 unat_group3)

lemma group2_alphabet:
  fixes a b :: u8
  defines "w \<equiv> push_bit 16 (ucast a) OR push_bit 8 (ucast b) :: u32"
  shows "alphabet_at (drop_bit 18 w) = alphabet ! (unat a div 4)"
    and "alphabet_at (drop_bit 12 w) = alphabet ! (unat a mod 4 * 16 + unat b div 16)"
    and "alphabet_at (drop_bit 6 w) = alphabet ! (unat b mod 16 * 4)"
  using group3_alphabet [of a b 0] by (simp_all add: w_def)

lemma group1_alphabet:
  fixes a :: u8
  defines "w \<equiv> push_bit 16 (ucast a) :: u32"
  shows "alphabet_at (drop_bit 18 w) = alphabet ! (unat a div 4)"
    and "alphabet_at (drop_bit 12 w) = alphabet ! (unat a mod 4 * 16)"
  using group2_alphabet [of a 0] by (simp_all add: w_def)

lemmas group_alphabet = group1_alphabet group2_alphabet group3_alphabet

lemma encode_loop_text:
  assumes room: "ptr_room q cap" and "length acc + length (b64_text padded xs) \<le> cap"
  shows "encode_loop padded xs (length acc) (ptr_splice q acc) =
    Some (length acc + length (b64_text padded xs), ptr_splice q (acc @ b64_text padded xs))"
  using assms(2)
proof (induction xs arbitrary: acc rule: b64_digits.induct)
  case 1
  then show ?case by (simp add: b64_text_def b64_raw_def)
next
  case (2 a)
  then show ?case
    by (simp add: b64_text_def b64_raw_def group_alphabet ptr_store_at [OF room] numeral_2_eq_2 split: if_splits del: drop_bit_or)
next
  case (3 a b)
  then show ?case
    by (simp add: b64_text_def b64_raw_def group_alphabet ptr_store_at [OF room] numeral_2_eq_2 split: if_splits del: drop_bit_or)
next
  case (4 a b c xs)
  have len: "length (b64_text padded (a # b # c # xs)) = 4 + length (b64_text padded xs)"
    by (simp add: b64_text_def b64_raw_def)
  let ?four = "[alphabet ! (unat a div 4), alphabet ! (unat a mod 4 * 16 + unat b div 16),
      alphabet ! (unat b mod 16 * 4 + unat c div 64), alphabet ! (unat c mod 64)]"
  have IH: "encode_loop padded xs (length (acc @ ?four)) (ptr_splice q (acc @ ?four)) =
    Some (length (acc @ ?four) + length (b64_text padded xs), ptr_splice q ((acc @ ?four) @ b64_text padded xs))"
    using "4.prems" len by (intro "4.IH") simp
  have tx: "b64_text padded (a # b # c # xs) = ?four @ b64_text padded xs"
    by (simp add: b64_text_def b64_raw_def)
  show ?case
    using "4.prems" IH by (simp add: tx group_alphabet ptr_store_at [OF room] numeral_2_eq_2 numeral_3_eq_3 del: drop_bit_or)
qed

lemma length_b64_raw: "length (b64_raw xs) = (4 * length xs + 2) div 3"
  unfolding b64_raw_def by (induction xs rule: b64_digits.induct) simp_all

lemma decode_loop_Inl: "decode_loop cs bits p pos out = Some (Inl rc, out') \<Longrightarrow> rc = CF_ERR_FORMAT"
  by (induction cs bits p pos out rule: decode_loop.induct)
    (auto simp: Let_def split: if_splits option.splits)

lemma decode_loop_safe:
  assumes "p \<le> 6" "even p" "ptr_room q cap" "length acc + (p + 6 * length cs) div 8 \<le> cap"
  shows "\<exists>r ys. decode_loop cs bits p (length acc) (ptr_splice q acc) = Some (r, ptr_splice q ys)
           \<and> length ys \<le> cap \<and> (\<not> (\<forall>c \<in> set cs. 0 \<le> digit c) \<longrightarrow> r = Inl CF_ERR_FORMAT)"
  using assms
proof (induction cs arbitrary: bits p acc)
  case Nil
  then show ?case by auto
next
  case (Cons c cs)
  let ?bits = "push_bit 6 bits OR word_of_int (digit c)"
  consider "digit c < 0" | "0 \<le> digit c" "p = 0" | "0 \<le> digit c" "2 \<le> p"
    using Cons.prems(2) by (metis One_nat_def less_2_cases linorder_not_le odd_one)
  then show ?case
  proof cases
    case 1
    then show ?thesis using Cons.prems by auto
  next
    case 2
    then show ?thesis using Cons.IH [of 6 acc ?bits] Cons.prems by (simp add: Let_def)
  next
    case 3
    let ?acc = "acc @ [ucast (drop_bit (p - 2) ?bits)]"
    have room: "length ?acc + (p - 2 + 6 * length cs) div 8 \<le> cap" using Cons.prems 3 by simp
    have "decode_loop (c # cs) bits p (length acc) (ptr_splice q acc)
        = decode_loop cs ?bits (p - 2) (length ?acc) (ptr_splice q ?acc)"
      using 3 room Cons.prems(3) by (simp add: Let_def ptr_store_at)
    moreover have "\<exists>r ys. decode_loop cs ?bits (p - 2) (length ?acc) (ptr_splice q ?acc) = Some (r, ptr_splice q ys)
           \<and> length ys \<le> cap \<and> (\<not> (\<forall>c \<in> set cs. 0 \<le> digit c) \<longrightarrow> r = Inl CF_ERR_FORMAT)"
      using Cons.prems 3 room by (intro Cons.IH) auto
    ultimately show ?thesis using 3(1) by (metis set_ConsD)
  qed
qed

lemma alphabet_valid: "d < 64 \<Longrightarrow> 0 \<le> digit (alphabet ! d)"
  by (simp add: digit_alphabet)

lemma digits_of_raw: "map (\<lambda>c. nat (digit c)) (b64_raw xs) = b64_digits xs"
  using b64_digits_bound [of xs] by (simp add: b64_raw_def digit_alphabet cong: map_cong)

lemma raw_of_digits:
  assumes "\<forall>c \<in> set cs. 0 \<le> digit c" "map (\<lambda>c. nat (digit c)) cs = b64_digits xs"
  shows "cs = b64_raw xs"
proof -
  have "b64_raw xs = map (\<lambda>c. alphabet ! nat (digit c)) cs"
    by (simp add: b64_raw_def flip: assms(2))
  also have "\<dots> = cs"
    using assms(1) digit_range by (intro map_idI) metis
  finally show ?thesis by simp
qed

lemma dec_len_bits:
  assumes "n mod 4 \<noteq> 1"
  shows "dec_len n = 6 * n div 8"
proof -
  have "6 * n = 6 * (n mod 4) + 8 * (3 * (n div 4))"
    using mult_div_mod_eq [of 4 n] by linarith
  then have *: "6 * n div 8 = 3 * (n div 4) + 6 * (n mod 4) div 8"
    by (simp only: div_mult_self2)
  consider "n mod 4 = 0" | "n mod 4 = 2" | "n mod 4 = 3"
    using assms mod_less_divisor [of 4 n] by linarith
  then show ?thesis unfolding dec_len_def * by cases simp_all
qed

lemma dec_len_4: "dec_len (4 + n) = 3 + dec_len n"
  by (simp add: dec_len_def div_add_self1)

lemma dec_len_raw: "dec_len (length (b64_raw xs)) = length xs"
proof (induction xs rule: b64_digits.induct)
  case (4 a b c xs)
  have "length (b64_raw (a # b # c # xs)) = 4 + length (b64_raw xs)" by (simp add: b64_raw_def)
  then show ?case using 4 by (simp only: dec_len_4) simp
qed (simp_all add: b64_raw_def dec_len_def)

lemma raw_mod4: "length (b64_raw xs) mod 4 = (if length xs mod 3 = 0 then 0 else length xs mod 3 + 1)"
  unfolding b64_raw_def by (induction xs rule: b64_digits.induct) simp_all

lemma strip_padding_cases:
  shows "take (strip_padding xs) xs @ replicate (length xs - strip_padding xs) (ch CHR ''='') = xs"
    and "strip_padding xs \<le> length xs" and "length xs \<le> strip_padding xs + 2"
proof -
  show "strip_padding xs \<le> length xs" "length xs \<le> strip_padding xs + 2"
    by (auto simp: strip_padding_def Let_def)
  show "take (strip_padding xs) xs @ replicate (length xs - strip_padding xs) (ch CHR ''='') = xs"
  proof (cases xs rule: rev_cases)
    case (snoc ys y)
    show ?thesis
    proof (cases ys rule: rev_cases)
      case (snoc zs z)
      then show ?thesis using \<open>xs = ys @ [y]\<close> by (auto simp: strip_padding_def Let_def nth_append numeral_2_eq_2)
    qed (use snoc in \<open>auto simp: strip_padding_def Let_def\<close>)
  qed (simp add: strip_padding_def)
qed

lemma raw_no_pad: "ch CHR ''='' \<notin> set (b64_raw xs)"
proof
  assume "ch CHR ''='' \<in> set (b64_raw xs)"
  then obtain d where "d < 64" "ch CHR ''='' = alphabet ! d"
    using b64_digits_bound [of xs] by (auto simp: b64_raw_def)
  then have "0 \<le> digit (ch CHR ''='')" using alphabet_valid [of d] by simp
  then show False by (simp add: digit_def)
qed

lemma strip_padding_raw:
  assumes "k \<le> 2"
  shows "strip_padding (b64_raw xs @ replicate k (ch CHR ''='')) = length (b64_raw xs)"
proof -
  have last: "b64_raw xs ! (length (b64_raw xs) - 1) \<noteq> ch CHR ''=''" if "b64_raw xs \<noteq> []"
    using raw_no_pad [of xs] that by (metis last_conv_nth last_in_set)
  have k: "k = 0 \<or> k = Suc 0 \<or> k = Suc (Suc 0)" using assms by linarith
  show ?thesis
  proof (cases "b64_raw xs = []")
    case False
    then have "length (b64_raw xs) - 1 < length (b64_raw xs)" by simp
    then show ?thesis using k last [OF False] by (auto simp: strip_padding_def Let_def nth_append)
  qed (use k in \<open>auto simp: strip_padding_def Let_def\<close>)
qed

lemma text_mod4: "length (b64_text True xs) mod 4 = 0"
proof -
  have "length (b64_text True xs) mod 4 = (length (b64_raw xs) mod 4 + (3 - length xs mod 3) mod 3) mod 4"
    by (simp add: b64_text_def mod_add_left_eq)
  moreover consider "length xs mod 3 = 0" | "length xs mod 3 = 1" | "length xs mod 3 = 2"
    using mod_less_divisor [of 3 "length xs"] by linarith
  ultimately show ?thesis by cases (simp_all add: raw_mod4)
qed

lemma text_decodes:
  assumes "bytes_list inp = b64_text padded xs" "\<not> bytes_bad inp" "ptr_room out cap" "length xs \<le> cap"
  shows "cf_base64_decode inp padded out cap (Some w) = Some (CF_OK, ptr_splice out xs, Some (length xs))"
proof -
  let ?raw = "b64_raw xs"
  define n where "n = (if padded then strip_padding (bytes_list inp) else bytes_len inp)"
  have len: "bytes_len inp = length (b64_text padded xs)"
    using assms(1,2) bytes_list_len by metis
  have "(3 - length xs mod 3) mod 3 \<le> 2"
    using mod_less_divisor [of 3 "3 - length xs mod 3"] by linarith
  then have n: "n = length ?raw"
    using strip_padding_raw [of "(3 - length xs mod 3) mod 3" xs] assms(1) len
    by (auto simp: n_def b64_text_def)
  have take: "take n (bytes_list inp) = ?raw"
    using assms(1) by (simp add: n b64_text_def)
  have mod4: "padded \<longrightarrow> bytes_len inp mod 4 = 0"
    using text_mod4 [of xs] by (simp add: len)
  have valid: "\<forall>c \<in> set ?raw. 0 \<le> digit c"
    using b64_digits_bound alphabet_valid by (auto simp: b64_raw_def)
  have n1: "n mod 4 \<noteq> 1" using raw_mod4 [of xs] by (simp add: n)
  have count: "(n div 4) * 3 + (if n mod 4 \<noteq> 0 then n mod 4 - 1 else 0) = length xs"
    using dec_len_raw [of xs] unfolding dec_len_def n .
  have room: "(6 * length ?raw) div 8 \<le> cap"
    using assms(4) dec_len_bits [OF n1] dec_len_raw [of xs] unfolding n by simp
  obtain p where "dec_bits (map (\<lambda>c. nat (digit c)) ?raw) 0 0 = (map unat xs, 0, p)"
    using dec_bits_digits [of xs] unfolding digits_of_raw by blast
  from decode_loop_bits [OF valid _ _ _ assms(3) _ this, of 0 "[]"]
  obtain bits where loop: "decode_loop ?raw 0 0 0 out = Some (Inr (bits, p, length xs), ptr_splice out xs)"
    and z: "unat bits mod 2 ^ p = 0"
    using room by (auto simp: comp_def)
  show ?thesis
    using assms(2-4) ptr_room_null [OF assms(3)] mod4 n1 count take loop z
    by (auto simp: cf_base64_decode_def Let_def n_def [symmetric] mask_zero)
qed

lemma pad_unique:
  fixes m k :: nat
  assumes "((if m = 0 then 0 else m + 1) + k) mod 4 = 0" "k \<le> 2" "m < 3"
  shows "k = (3 - m) mod 3"
proof -
  have "m = 0 \<or> m = 1 \<or> m = 2" "k = 0 \<or> k = 1 \<or> k = 2" using assms(2,3) by linarith+
  then show ?thesis using assms(1) by (elim disjE) simp_all
qed

lemma decoded_text:
  assumes "cf_base64_decode inp padded out cap (Some w) = Some (CF_OK, out', m)"
    and "\<not> bytes_bad inp" "ptr_room out cap"
  shows "\<exists>xs. bytes_list inp = b64_text padded xs \<and> length xs \<le> cap"
proof -
  let ?s = "bytes_list inp"
  define n where "n = (if padded then strip_padding ?s else bytes_len inp)"
  have len: "length ?s = bytes_len inp" using assms(2) by (rule bytes_list_len)
  have n: "n \<le> length ?s" "length (take n ?s) = n"
    using strip_padding_cases(2) [of ?s] by (auto simp: n_def len)
  have mod4: "padded \<longrightarrow> length ?s mod 4 = 0" and n1: "n mod 4 \<noteq> 1" and cap: "dec_len n \<le> cap"
    and loop: "\<exists>bits p pos. decode_loop (take n ?s) 0 0 0 out = Some (Inr (bits, p, pos), out')
                \<and> unat bits mod 2 ^ p = 0"
    using assms(1) unfolding cf_base64_decode_def Let_def n_def [symmetric] dec_len_def [symmetric]
    by (auto simp: len mask_zero dest: decode_loop_Inl split: if_splits option.splits sum.splits prod.splits)
  have room: "6 * length (take n ?s) div 8 \<le> cap" using cap dec_len_bits [OF n1] n(2) by simp
  have valid: "\<forall>c \<in> set (take n ?s). 0 \<le> digit c"
    using decode_loop_safe [of 0 out cap "[]" "take n ?s" 0] room assms(3) loop by auto
  obtain ys v p where d: "dec_bits (map (\<lambda>c. nat (digit c)) (take n ?s)) 0 0 = (ys, v, p)"
    by (metis prod_cases3)
  have "v = 0"
    using decode_loop_bits [OF valid, of 0 0 0 out cap "[]" ys v p] room assms(3) loop d by auto
  moreover have "\<forall>d \<in> set (map (\<lambda>c. nat (digit c)) (take n ?s)). d < 64"
    using valid digit_range by fastforce
  ultimately have "map (\<lambda>c. nat (digit c)) (take n ?s) = b64_digits (map word_of_nat ys)"
    using digits_of_dec_bits [of _ ys p] d n1 n(2) by simp
  then have raw: "take n ?s = b64_raw (map word_of_nat ys)"
    using valid raw_of_digits by blast
  let ?xs = "map word_of_nat ys :: u8 list"
  have "length ?xs = dec_len n" using dec_len_raw [of ?xs] n(2) by (simp add: raw)
  moreover have "?s = b64_text padded ?xs"
  proof (cases padded)
    case False
    then show ?thesis using raw len by (simp add: n_def b64_text_def)
  next
    case True
    have s: "?s = b64_raw ?xs @ replicate (length ?s - n) (ch CHR ''='')"
      using strip_padding_cases(1) [of ?s] raw True by (simp add: n_def)
    have k: "length ?s - n \<le> 2" using strip_padding_cases(3) [of ?s] True by (simp add: n_def)
    have "length ?s = length (b64_raw ?xs) + (length ?s - n)" using n raw by simp
    then have "(length (b64_raw ?xs) mod 4 + (length ?s - n)) mod 4 = 0"
      using mod4 True by (metis mod_add_left_eq)
    then have "length ?s - n = (3 - length ?xs mod 3) mod 3"
      unfolding raw_mod4 using k by (rule pad_unique) simp
    then show ?thesis using s True by (simp add: b64_text_def)
  qed
  ultimately show ?thesis using cap by (intro exI [of _ ?xs]) simp
qed

lemma decode_safe:
  assumes "ptr_room out cap"
  shows "\<exists>rc ys n. cf_base64_decode inp padded out cap w = Some (rc, ptr_splice out ys, n)
     \<and> length ys \<le> cap \<and> (w \<noteq> None \<and> rc \<noteq> CF_OK \<longrightarrow> n = Some 0)"
proof -
  define n where "n = (if padded then strip_padding (bytes_list inp) else bytes_len inp)"
  have self: "ptr_splice out [] = out" for out by (cases out) auto
  show ?thesis
  proof (cases "w = None \<or> bytes_bad inp \<or> (out = None \<and> cap \<noteq> 0) \<or> (padded \<and> bytes_len inp mod 4 \<noteq> 0)
      \<or> n mod 4 = 1 \<or> dec_len n > cap")
    case True
    then show ?thesis
      unfolding cf_base64_decode_def Let_def n_def [symmetric] dec_len_def [symmetric]
      by (intro exI [of _ "if w = None \<or> bytes_bad inp \<or> (out = None \<and> cap \<noteq> 0) then CF_ERR_ARGUMENT
            else if (padded \<and> bytes_len inp mod 4 \<noteq> 0) \<or> n mod 4 = 1 then CF_ERR_FORMAT else CF_ERR_LIMIT"]
          exI [of _ "[]"] exI [of _ "if w = None then None else Some 0"]) (auto simp: self)
  next
    case False
    then have "length (take n (bytes_list inp)) = n"
      using bytes_list_len [of inp] strip_padding_cases(2) [of "bytes_list inp"] by (auto simp: n_def)
    then obtain r ys where "decode_loop (take n (bytes_list inp)) 0 0 0 out = Some (r, ptr_splice out ys)" "length ys \<le> cap"
      using decode_loop_safe [of 0 out cap "[]" "take n (bytes_list inp)" 0] dec_len_bits [of n] False assms
      by (auto simp: self)
    then show ?thesis
      using False unfolding cf_base64_decode_def Let_def n_def [symmetric] dec_len_def [symmetric]
      by (auto split: sum.splits)
  qed
qed

lemma length_b64_text: "length (b64_text padded xs) =
   (length xs div 3) * 4 + (if length xs mod 3 \<noteq> 0 then (if padded then 4 else length xs mod 3 + 1) else 0)"
proof (induction xs rule: b64_digits.induct)
  case (4 a b c xs)
  have "length (b64_text padded (a # b # c # xs)) = 4 + length (b64_text padded xs)"
    by (simp add: b64_text_def b64_raw_def)
  moreover have "length (a # b # c # xs) = 3 + length xs" by simp
  ultimately show ?case unfolding 4 by (simp only: div_add_self1 mod_add_self1) simp
qed (auto simp: b64_text_def b64_raw_def)

lemma encode_eq:
  assumes "\<not> bytes_bad inp" "ptr_room out cap" "cap \<le> SIZE_MAX" "bytes_len inp \<le> SIZE_MAX"
  shows "cf_base64_encode inp padded out cap (Some w) =
    (if length (b64_text padded (bytes_list inp)) \<le> cap \<and> bytes_len inp div 3 \<le> (SIZE_MAX - 4) div 4
     then Some (CF_OK, ptr_splice out (b64_text padded (bytes_list inp)), Some (length (b64_text padded (bytes_list inp))))
     else Some (CF_ERR_LIMIT, out, Some 0))"
proof -
  let ?t = "b64_text padded (bytes_list inp)"
  have len: "length (bytes_list inp) = bytes_len inp" using assms(1) by (rule bytes_list_len)
  have out: "\<not> (out = None \<and> cap \<noteq> 0)" using assms(2) by (rule ptr_room_null)
  have self: "ptr_splice out [] = out" by (cases out) auto
  have need: "size_wrap (size_wrap (bytes_len inp div 3 * 4) + (if bytes_len inp mod 3 \<noteq> 0
      then if padded then 4 else bytes_len inp mod 3 + 1 else 0)) = length ?t"
    if "bytes_len inp div 3 \<le> (SIZE_MAX - 4) div 4"
  proof -
    have "bytes_len inp div 3 * 4 + 4 \<le> SIZE_MAX" using that by (simp add: SIZE_MAX_def)
    moreover have "bytes_len inp mod 3 + 1 \<le> 4" by simp
    ultimately show ?thesis unfolding length_b64_text len by simp
  qed
  show ?thesis
    using assms out need encode_loop_text [OF assms(2), of "[]" padded "bytes_list inp"]
    by (auto simp: cf_base64_encode_def Let_def self)
qed

section \<open>The codec as an interface\<close>

text \<open>
  What a client of a Base64 codec relies on: a reference text for every byte string, a decoder
  that accepts exactly these texts, stays inside the buffer and reports nothing on failure,
  and an encoder that writes the text when it fits.
\<close>

locale text_codec =
  fixes text_of :: "u8 list \<Rightarrow> u8 list"
    and encode :: "cf_bytes \<Rightarrow> ptr \<Rightarrow> nat \<Rightarrow> nat option \<Rightarrow> (cf_result \<times> ptr \<times> nat option) option"
    and decode :: "cf_bytes \<Rightarrow> ptr \<Rightarrow> nat \<Rightarrow> nat option \<Rightarrow> (cf_result \<times> ptr \<times> nat option) option"
  assumes decode_text: "\<not> bytes_bad i \<Longrightarrow> bytes_list i = text_of xs \<Longrightarrow> ptr_room p cap \<Longrightarrow> length xs \<le> cap
      \<Longrightarrow> decode i p cap (Some w) = Some (CF_OK, ptr_splice p xs, Some (length xs))"
    and text_decode: "\<not> bytes_bad i \<Longrightarrow> ptr_room p cap \<Longrightarrow> decode i p cap (Some w) = Some (CF_OK, p', m)
      \<Longrightarrow> \<exists>xs. bytes_list i = text_of xs \<and> length xs \<le> cap"
    and decode_total: "ptr_room p cap \<Longrightarrow>
      \<exists>rc ys n. decode i p cap v = Some (rc, ptr_splice p ys, n) \<and> length ys \<le> cap
        \<and> (v \<noteq> None \<and> rc \<noteq> CF_OK \<longrightarrow> n = Some 0)"
    and encode_text: "\<not> bytes_bad i \<Longrightarrow> ptr_room p cap \<Longrightarrow> length (text_of (bytes_list i)) \<le> cap
      \<Longrightarrow> cap \<le> SIZE_MAX \<Longrightarrow> bytes_len i \<le> 2 ^ 31
      \<Longrightarrow> encode i p cap (Some w) =
            Some (CF_OK, ptr_splice p (text_of (bytes_list i)), Some (length (text_of (bytes_list i))))"
begin

lemma text_of_inject:
  assumes "text_of xs = text_of ys"
  shows "xs = ys"
proof -
  let ?n = "max (length xs) (length ys)"
  let ?p = "Some (replicate ?n 0, 0) :: ptr"
  have room: "ptr_room ?p ?n" by simp
  have "decode (Bytes (text_of xs)) ?p ?n (Some 0) = Some (CF_OK, ptr_splice ?p xs, Some (length xs))"
    by (rule decode_text) (simp_all add: room)
  moreover have "decode (Bytes (text_of xs)) ?p ?n (Some 0) = Some (CF_OK, ptr_splice ?p ys, Some (length ys))"
    by (rule decode_text) (simp_all add: assms)
  ultimately show ?thesis by (auto simp: splice_def)
qed

lemma decode_iff:
  assumes "\<not> bytes_bad i" "ptr_room p cap"
  shows "decode i p cap (Some w) = Some (CF_OK, p', m) \<longleftrightarrow>
    (\<exists>xs. bytes_list i = text_of xs \<and> length xs \<le> cap \<and> p' = ptr_splice p xs \<and> m = Some (length xs))"
proof
  assume dec: "decode i p cap (Some w) = Some (CF_OK, p', m)"
  then obtain xs where "bytes_list i = text_of xs" "length xs \<le> cap"
    using text_decode assms by blast
  with dec assms show "\<exists>xs. bytes_list i = text_of xs \<and> length xs \<le> cap \<and> p' = ptr_splice p xs \<and> m = Some (length xs)"
    using decode_text by fastforce
qed (use assms decode_text in blast)

lemma decode_cases:
  assumes "\<not> bytes_bad i" "ptr_room p cap"
  obtains (ok) xs where "bytes_list i = text_of xs" "length xs \<le> cap"
      "decode i p cap (Some w) = Some (CF_OK, ptr_splice p xs, Some (length xs))"
    | (err) rc ys where "rc \<noteq> CF_OK" "length ys \<le> cap" "decode i p cap (Some w) = Some (rc, ptr_splice p ys, Some 0)"
      "\<not> (\<exists>xs. bytes_list i = text_of xs \<and> length xs \<le> cap)"
proof -
  obtain rc ys n where d: "decode i p cap (Some w) = Some (rc, ptr_splice p ys, n)" "length ys \<le> cap"
    and n: "rc \<noteq> CF_OK \<longrightarrow> n = Some 0"
    using decode_total [OF assms(2), of i "Some w"] by auto
  show thesis
  proof (cases "rc = CF_OK")
    case True
    then show ?thesis using d(1) decode_iff [OF assms, of w] that(1) by auto
  next
    case False
    moreover have "\<not> (\<exists>xs. bytes_list i = text_of xs \<and> length xs \<le> cap)"
      using False d(1) decode_text [OF assms(1) _ assms(2), of _ w] by auto
    ultimately show ?thesis using d n that(2) by auto
  qed
qed

end

lemma encode_small:
  assumes "\<not> bytes_bad i" "ptr_room p cap" "length (b64_text padded (bytes_list i)) \<le> cap"
    "cap \<le> SIZE_MAX" "bytes_len i \<le> 2 ^ 31"
  shows "cf_base64_encode i padded p cap (Some w) =
    Some (CF_OK, ptr_splice p (b64_text padded (bytes_list i)), Some (length (b64_text padded (bytes_list i))))"
proof -
  have "bytes_len i div 3 \<le> (SIZE_MAX - 4) div 4" using assms(5) by (simp add: SIZE_MAX_def)
  moreover have "cap \<le> SIZE_MAX" "bytes_len i \<le> SIZE_MAX" using assms(4,5) by (simp_all add: SIZE_MAX_def)
  ultimately show ?thesis using assms encode_eq by simp
qed

interpretation raw64: text_codec "b64_text False"
    "\<lambda>i. cf_base64_encode i False" "\<lambda>i. cf_base64_decode i False"
  by unfold_locales (blast intro: text_decodes decoded_text encode_small dest: decode_safe)+

interpretation padded64: text_codec "b64_text True"
    "\<lambda>i. cf_base64_encode i True" "\<lambda>i. cf_base64_decode i True"
  by unfold_locales (blast intro: text_decodes decoded_text encode_small dest: decode_safe)+

section \<open>Properties\<close>

lemma secure_zero_loop_splice:
  assumes "ptr_room q cap" "length acc + len \<le> cap"
  shows "secure_zero_loop (ptr_splice q acc) (length acc) len = Some (ptr_splice q (acc @ replicate len 0))"
  using assms(2)
proof (induction len arbitrary: acc)
  case (Suc len)
  then show ?case
    using Suc.IH [of "acc @ [0]"] by (simp add: ptr_store_at [OF assms(1)])
qed simp

lemma secure_zero_eq: "ptr_room p len \<Longrightarrow> cf_secure_zero p len = Some (ptr_splice p (replicate len 0))"
  using secure_zero_loop_splice [of p len "[]" len] by (simp add: cf_secure_zero_def)

text \<open>
  The decoder accepts a text exactly when it is the Base64 text (padded or raw, standard
  alphabet, zero trailing bits) of some byte string that fits the buffer, and then it writes
  that byte string and its length. Every byte string therefore has one accepted spelling.
\<close>

theorem base64_decode_accepts_exactly:
  assumes "\<not> bytes_bad inp" "ptr_room out cap"
  shows "cf_base64_decode inp padded out cap (Some w) = Some (CF_OK, out', m) \<longleftrightarrow>
    (\<exists>xs. bytes_list inp = b64_text padded xs \<and> length xs \<le> cap
         \<and> out' = ptr_splice out xs \<and> m = Some (length xs))"
proof (cases padded)
  case True
  then show ?thesis using padded64.decode_iff [OF assms, of w] by simp
next
  case False
  then show ?thesis using raw64.decode_iff [OF assms, of w] by simp
qed

theorem base64_decode_accepts_exactly_witness:
  "cf_base64_decode (Bytes (str ''QUI='')) True (Some ([0, 0, 0], 0)) 3 (Some 7)
     = Some (CF_OK, Some ([65, 66, 0], 0), Some 2)"
  by (subst base64_decode_accepts_exactly)
    (auto simp: splice_def str_def b64_text_def b64_raw_def alphabet_def intro!: exI [of _ "[65, 66]"])

text \<open>
  Whatever the input, the decoder terminates without leaving the \<open>cap\<close> bytes of its
  output buffer, changes nothing outside them, and reports a length of zero on every failure.
\<close>

theorem base64_decode_memory_safe:
  assumes "ptr_room out cap"
  shows "\<exists>rc ys n. cf_base64_decode inp padded out cap w = Some (rc, ptr_splice out ys, n)
     \<and> length ys \<le> cap \<and> (w \<noteq> None \<and> rc \<noteq> CF_OK \<longrightarrow> n = Some 0)"
  using assms by (rule decode_safe)

theorem base64_decode_memory_safe_witness:
  "\<exists>rc ys n. cf_base64_decode (Bytes (str ''QQ=A'')) True (Some ([1, 2, 3], 1)) 2 (Some 9)
      = Some (rc, ptr_splice (Some ([1, 2, 3], 1)) ys, n) \<and> length ys \<le> 2"
  using base64_decode_memory_safe [of "Some ([1, 2, 3], 1)" 2 "Bytes (str ''QQ=A'')" True "Some 9"] by auto

text \<open>
  The encoder writes the reference text and its exact length when it fits the buffer, and
  otherwise returns \<open>CF_ERR_LIMIT\<close> with nothing written. The guard on \<open>SIZE_MAX\<close> is what
  keeps the 32-bit computation of the needed size from wrapping.
\<close>

theorem base64_encode_exact:
  assumes "\<not> bytes_bad inp" "ptr_room out cap" "cap \<le> SIZE_MAX" "bytes_len inp \<le> SIZE_MAX"
  shows "cf_base64_encode inp padded out cap (Some w) =
    (let t = b64_text padded (bytes_list inp) in
     if length t \<le> cap \<and> bytes_len inp div 3 \<le> (SIZE_MAX - 4) div 4
     then Some (CF_OK, ptr_splice out t, Some (length t))
     else Some (CF_ERR_LIMIT, out, Some 0))"
  using encode_eq [OF assms] by (simp add: Let_def)

theorem base64_encode_exact_witness:
  "cf_base64_encode (Bytes [77, 97]) True (Some ([0, 0, 0, 0, 0], 0)) 5 (Some 0)
     = Some (CF_OK, Some (str ''TWE='' @ [0], 0), Some 4)"
  by (subst base64_encode_exact)
    (simp_all add: Let_def SIZE_MAX_def splice_def str_def b64_text_def b64_raw_def alphabet_def)

text \<open>
  C35. Round trip through memory: decoding the bytes that the encoder left in its buffer gives
  back the original bytes, padded or raw.
\<close>

theorem base64_round_trip:
  assumes "cf_base64_encode (Bytes xs) padded (Some (m, p)) cap (Some w) = Some (CF_OK, Some (m', p'), Some n)"
    and "p + cap \<le> length m" "cap \<le> SIZE_MAX" "length xs \<le> SIZE_MAX"
    and "ptr_room out (length xs)"
  shows "cf_base64_decode (Bytes (take n (drop p m'))) padded out (length xs) (Some v)
      = Some (CF_OK, ptr_splice out xs, Some (length xs))"
proof -
  have "m' = splice m p (b64_text padded xs)" "n = length (b64_text padded xs)" "n \<le> cap"
    using assms(1-4) encode_eq [of "Bytes xs" "Some (m, p)" cap padded w] by (auto split: if_splits)
  then show ?thesis using assms(2,5) by (intro text_decodes) simp_all
qed

theorem base64_round_trip_witness:
  "cf_base64_decode (Bytes (take 4 (drop 1 (0 # str ''TWE='')))) True (Some ([0, 0], 0)) 2 (Some 0)
     = Some (CF_OK, Some ([77, 97], 0), Some 2)"
proof -
  have "cf_base64_encode (Bytes [77, 97]) True (Some ([0, 0, 0, 0, 0], 1)) 4 (Some 0)
      = Some (CF_OK, Some (0 # str ''TWE='', 1), Some 4)"
    by (subst encode_eq)
      (simp_all add: SIZE_MAX_def splice_def str_def b64_text_def b64_raw_def alphabet_def)
  from base64_round_trip [OF this, of "Some ([0, 0], 0)" 0] show ?thesis
    by (simp add: SIZE_MAX_def splice_def) (simp add: numeral_2_eq_2)
qed

text \<open>
  \<open>cf_secure_zero\<close> clears exactly the \<open>len\<close> bytes it is given and no others.
\<close>

theorem secure_zero_clears:
  assumes "p + len \<le> length m"
  shows "cf_secure_zero (Some (m, p)) len =
    Some (Some (take p m @ replicate len 0 @ drop (p + len) m, p))"
  using secure_zero_eq [of "Some (m, p)" len] assms by (simp add: splice_def)

theorem secure_zero_clears_witness:
  "cf_secure_zero (Some ([9, 8, 7, 6], 1)) 2 = Some (Some ([9, 0, 0, 6], 1))"
  using secure_zero_clears [of 1 2 "[9, 8, 7, 6]"] by (simp add: numeral_2_eq_2)

end
