(* ===== verification/CF_Headers.thy ===== *)
theory CF_Headers
  imports CF_Base64
begin

text \<open>
  The serialized-header codec of \<^verbatim>\<open>src/protocol/cf_headers.c\<close>: header pairs
  \<open>RawStdBase64(name):RawStdBase64(value)\<close> separated by semicolons. Decoded entries are
  spans of the caller's arena, as in the C code, so the development also shows that later
  writes to the arena never disturb the entries already handed out.
\<close>

section \<open>The C functions\<close>

definition CF_HEADER_COUNT_MAX :: nat where "CF_HEADER_COUNT_MAX = 32"
definition CF_HEADER_DECODED_MAX :: nat where "CF_HEADER_DECODED_MAX = 4096"
definition CF_HEADER_WIRE_MAX :: nat where "CF_HEADER_WIRE_MAX = 6144"

text \<open>One byte of an HTTP field name.\<close>

definition field_name_char :: "u8 \<Rightarrow> bool" where
  "field_name_char c \<longleftrightarrow>
     (ch CHR ''a'' \<le> c \<and> c \<le> ch CHR ''z'') \<or> (ch CHR ''A'' \<le> c \<and> c \<le> ch CHR ''Z'') \<or>
     (ch CHR ''0'' \<le> c \<and> c \<le> ch CHR ''9'') \<or>
     (c \<noteq> 0 \<and> c < 128 \<and> c \<in> set (str ''!#$%&'' @ [39] @ str ''*+-.^_`|~''))"

definition valid_name :: "cf_bytes \<Rightarrow> bool" where
  "valid_name s \<longleftrightarrow> \<not> (bytes_null s \<or> bytes_len s = 0) \<and> list_all field_name_char (bytes_list s)"

definition valid_value :: "cf_bytes \<Rightarrow> bool" where
  "valid_value s \<longleftrightarrow> \<not> bytes_bad s \<and>
     list_all (\<lambda>c. \<not> ((c < 32 \<and> c \<noteq> 9) \<or> c = 127)) (bytes_list s)"

definition ascii_lower :: "u8 \<Rightarrow> u8" where
  "ascii_lower c = (if ch CHR ''A'' \<le> c \<and> c \<le> ch CHR ''Z'' then c + 32 else c)"

definition has_prefix :: "cf_bytes \<Rightarrow> u8 list \<Rightarrow> bool" where
  "has_prefix s p \<longleftrightarrow> \<not> (length p > bytes_len s \<or> bytes_null s) \<and>
     list_all2 (\<lambda>c d. ascii_lower c = d) (take (length p) (bytes_list s)) p"

definition cf_header_is_control :: "cf_bytes \<Rightarrow> bool" where
  "cf_header_is_control name \<longleftrightarrow> has_prefix name (str '':'') \<or> has_prefix name (str ''cf-int-'') \<or>
     has_prefix name (str ''cf-cloudflared-'') \<or> has_prefix name (str ''cf-proxy-'')"

text \<open>The caller's header array: NULL with a count, or exactly \<open>count\<close> entries.\<close>

record cf_header =
  hname :: cf_bytes
  hvalue :: cf_bytes

datatype cf_headers = Null_Headers nat | Headers "cf_header list"

primrec headers_count :: "cf_headers \<Rightarrow> nat" where
  "headers_count (Null_Headers n) = n"
| "headers_count (Headers hs) = length hs"

primrec headers_list :: "cf_headers \<Rightarrow> cf_header list" where
  "headers_list (Null_Headers n) = []"
| "headers_list (Headers hs) = hs"

text \<open>A decoded header: two spans (offset, length) of the arena.\<close>

record header_span =
  sname :: "nat \<times> nat"
  svalue :: "nat \<times> nat"

text \<open>\<open>while (i < lim && wire.ptr[i] != c) ++i;\<close>\<close>

function scan :: "u8 list \<Rightarrow> u8 \<Rightarrow> nat \<Rightarrow> nat \<Rightarrow> nat" where
  "scan xs c i lim = (if i < lim \<and> xs ! i \<noteq> c then scan xs c (i + 1) lim else i)"
  by pat_completeness auto
termination
  by (relation "measure (\<lambda>(xs, c, i, lim). lim - i)") auto

declare scan.simps [simp del]

lemma scan_bounds: "i \<le> lim \<Longrightarrow> i \<le> scan xs c i lim \<and> scan xs c i lim \<le> lim"
proof (induction xs c i lim rule: scan.induct)
  case (1 xs c i lim)
  then show ?case by (subst (1 2) scan.simps) auto
qed

text \<open>The view of a span: the bytes now at that place of the arena.\<close>

definition view :: "mem \<Rightarrow> nat \<times> nat \<Rightarrow> cf_bytes option" where
  "view m s = (case load_n m (fst s) (snd s) of None \<Rightarrow> None | Some xs \<Rightarrow> Some (Bytes xs))"

text \<open>
  The body of the decoding loop for one nonempty item \<open>wire[start..stop)\<close> with a colon:
  both halves are decoded into the arena and validated there.
\<close>

definition headers_entry :: "u8 list \<Rightarrow> nat \<Rightarrow> nat \<Rightarrow> nat \<Rightarrow> nat \<Rightarrow> nat \<Rightarrow> mem
    \<Rightarrow> ((cf_result + header_span \<times> nat) \<times> mem) option" where
  "headers_entry wire start colon stop cap used arena = do {
     (rc, p, w) \<leftarrow> cf_base64_decode (Bytes (take (colon - start) (drop start wire))) False
                     (Some (arena, used)) (cap - used) (Some 0);
     (arena, _) \<leftarrow> p;
     n \<leftarrow> w;
     if rc \<noteq> CF_OK then Some (Inl rc, arena)
     else do {
       let name = (used, n);
       let used = used + n;
       (rc, p, w) \<leftarrow> cf_base64_decode (Bytes (take (stop - colon - 1) (drop (colon + 1) wire))) False
                       (Some (arena, used)) (cap - used) (Some 0);
       (arena, _) \<leftarrow> p;
       n \<leftarrow> w;
       if rc \<noteq> CF_OK then Some (Inl rc, arena)
       else do {
         let value = (used, n);
         vn \<leftarrow> view arena name;
         vv \<leftarrow> view arena value;
         if \<not> valid_name vn \<or> \<not> valid_value vv then Some (Inl CF_ERR_FORMAT, arena)
         else Some (Inr (\<lparr>sname = name, svalue = value\<rparr>, used + n), arena)
       }
     }
   }"

text \<open>
  One iteration of the decoding loop: \<open>Inl\<close> is a \<open>return\<close> of the C function with its code,
  \<open>Inr\<close> the values of \<open>start\<close>, \<open>used\<close> and \<open>num\<close> for the next iteration; both carry the
  two caller-owned objects.
\<close>

definition headers_body :: "u8 list \<Rightarrow> nat \<Rightarrow> nat \<Rightarrow> nat \<Rightarrow> nat \<Rightarrow> nat \<Rightarrow> mem \<Rightarrow> header_span list
    \<Rightarrow> ((cf_result + nat \<times> nat \<times> nat) \<times> mem \<times> header_span list) option" where
  "headers_body wire slots cap start used num arena entries =
     (let stop = scan wire (ch CHR '';'') start (length wire) in
      if stop = start then Some (Inr (stop + 1, used, num), arena, entries)
      else if num = slots then Some (Inl CF_ERR_LIMIT, arena, entries)
      else
        let colon = scan wire (ch CHR '':'') start stop in
        if colon = stop then Some (Inl CF_ERR_FORMAT, arena, entries)
        else do {
          (r, arena) \<leftarrow> headers_entry wire start colon stop cap used arena;
          (case r of
             Inl rc \<Rightarrow> Some (Inl rc, arena, entries)
           | Inr (h, used) \<Rightarrow> do {
               entries \<leftarrow> store entries num h;
               Some (Inr (stop + 1, used, num + 1), arena, entries) })
        })"

lemma headers_body_start:
  assumes "headers_body wire slots cap start used num arena entries = Some (Inr (start', used', num'), arena', entries')"
    and "start < length wire"
  shows "start < start'"
  using assms scan_bounds [of start "length wire" wire "ch CHR '';''"]
  by (auto simp: headers_body_def Let_def split: if_splits sum.splits Option.bind_splits)

text \<open>
  The decoding loop. The result is the return code, \<open>*count\<close> and the two caller-owned
  objects after the call.
\<close>

function headers_loop :: "u8 list \<Rightarrow> nat \<Rightarrow> nat \<Rightarrow> nat \<Rightarrow> nat \<Rightarrow> nat \<Rightarrow> mem \<Rightarrow> header_span list
    \<Rightarrow> (cf_result \<times> nat \<times> mem \<times> header_span list) option" where
  "headers_loop wire slots cap start used num arena entries =
     (if start < length wire then
        (case headers_body wire slots cap start used num arena entries of
           None \<Rightarrow> None
         | Some (Inl rc, arena', entries') \<Rightarrow> Some (rc, 0, arena', entries')
         | Some (Inr (start', used', num'), arena', entries') \<Rightarrow>
             headers_loop wire slots cap start' used' num' arena' entries')
      else Some (CF_OK, num, arena, entries))"
  by pat_completeness auto
termination
  by (relation "measure (\<lambda>(wire, slots, cap, start, used, num, arena, entries). length wire - start)")
    (auto dest!: headers_body_start)

declare headers_loop.simps [simp del]

definition cf_headers_decode :: "cf_bytes \<Rightarrow> header_span list option \<Rightarrow> nat \<Rightarrow> mem option \<Rightarrow> nat \<Rightarrow> nat option
    \<Rightarrow> (cf_result \<times> nat option \<times> mem option \<times> header_span list option) option" where
  "cf_headers_decode wire entries slots arena cap count =
     (if count = None then Some (CF_ERR_ARGUMENT, None, arena, entries)
      else if bytes_bad wire then Some (CF_ERR_ARGUMENT, Some 0, arena, entries)
      else
        (case (entries, arena) of
           (Some es, Some m) \<Rightarrow>
             if bytes_len wire > CF_HEADER_WIRE_MAX then Some (CF_ERR_LIMIT, Some 0, arena, entries)
             else
               (case headers_loop (bytes_list wire) (min slots CF_HEADER_COUNT_MAX)
                       (min cap CF_HEADER_DECODED_MAX) 0 0 0 m es of
                  None \<Rightarrow> None
                | Some (rc, num, m', es') \<Rightarrow> Some (rc, Some num, Some m', Some es'))
         | _ \<Rightarrow> Some (CF_ERR_ARGUMENT, Some 0, arena, entries)))"

text \<open>
  The first loop of the encoder: limits, validation and the size of the text. \<open>i\<close> is the
  index of the next entry. \<open>Inr need\<close> is the fall-through.
\<close>

fun encode_check :: "cf_header list \<Rightarrow> nat \<Rightarrow> nat \<Rightarrow> nat \<Rightarrow> cf_result + nat" where
  "encode_check [] i decoded need = Inr need"
| "encode_check (h # hs) i decoded need =
     (let a = bytes_len (hname h); b = bytes_len (hvalue h) in
      if a > CF_HEADER_DECODED_MAX - decoded then Inl CF_ERR_LIMIT
      else let decoded = decoded + a in
      if b > CF_HEADER_DECODED_MAX - decoded then Inl CF_ERR_LIMIT
      else let decoded = decoded + b in
      if \<not> valid_name (hname h) \<or> \<not> valid_value (hvalue h) then Inl CF_ERR_FORMAT
      else
        let need = need + ((a div 3) * 4 + (if a mod 3 \<noteq> 0 then a mod 3 + 1 else 0));
            need = need + ((b div 3) * 4 + (if b mod 3 \<noteq> 0 then b mod 3 + 1 else 0) + 1 + (if i \<noteq> 0 then 1 else 0))
        in encode_check hs (i + 1) decoded need)"

text \<open>
  The second loop: the text is written. The return codes of \<open>cf_base64_encode\<close> are ignored,
  as in the C code.
\<close>

fun encode_write :: "cf_header list \<Rightarrow> nat \<Rightarrow> nat \<Rightarrow> nat \<Rightarrow> mem option \<Rightarrow> (nat \<times> mem option) option" where
  "encode_write [] i used cap wire = Some (used, wire)"
| "encode_write (h # hs) i used cap wire = do {
     m \<leftarrow> wire;
     (m, used) \<leftarrow> (if i \<noteq> 0 then do { m \<leftarrow> store m used (ch CHR '';''); Some (m, used + 1) } else Some (m, used));
     (_, p, w) \<leftarrow> cf_base64_encode (hname h) False (Some (m, used)) (cap - used) (Some 0);
     (m, _) \<leftarrow> p;
     n \<leftarrow> w;
     let used = used + n;
     m \<leftarrow> store m used (ch CHR '':'');
     let used = used + 1;
     (_, p, w) \<leftarrow> cf_base64_encode (hvalue h) False (Some (m, used)) (cap - used) (Some 0);
     (m, _) \<leftarrow> p;
     n \<leftarrow> w;
     encode_write hs (i + 1) (used + n) cap (Some m)
   }"

definition cf_headers_encode :: "cf_headers \<Rightarrow> mem option \<Rightarrow> nat \<Rightarrow> nat option
    \<Rightarrow> (cf_result \<times> mem option \<times> nat option) option" where
  "cf_headers_encode entries wire cap written =
     (if written = None then Some (CF_ERR_ARGUMENT, wire, None)
      else if (case entries of Null_Headers n \<Rightarrow> n \<noteq> 0 | _ \<Rightarrow> False) \<or> (wire = None \<and> cap \<noteq> 0)
      then Some (CF_ERR_ARGUMENT, wire, Some 0)
      else if headers_count entries > CF_HEADER_COUNT_MAX then Some (CF_ERR_LIMIT, wire, Some 0)
      else
        (case encode_check (headers_list entries) 0 0 0 of
           Inl rc \<Rightarrow> Some (rc, wire, Some 0)
         | Inr need \<Rightarrow>
             if need > cap \<or> need > CF_HEADER_WIRE_MAX then Some (CF_ERR_LIMIT, wire, Some 0)
             else
               (case encode_write (headers_list entries) 0 0 cap wire of
                  None \<Rightarrow> None
                | Some (used, wire') \<Rightarrow> Some (CF_OK, wire', Some used))))"

section \<open>The reference form of a header block\<close>

text \<open>
  Splitting at a separator, the nonempty pieces of a wire, and the text of a header pair. A
  header here is a pair of byte strings.
\<close>

fun split_on :: "u8 \<Rightarrow> u8 list \<Rightarrow> u8 list list" where
  "split_on c [] = [[]]"
| "split_on c (x # xs) = (if x = c then [] # split_on c xs
     else (case split_on c xs of [] \<Rightarrow> [[x]] | p # ps \<Rightarrow> (x # p) # ps))"

definition items :: "u8 list \<Rightarrow> u8 list list" where
  "items wire = filter (\<lambda>p. p \<noteq> []) (split_on (ch CHR '';'') wire)"

type_synonym hdr = "u8 list \<times> u8 list"

definition hdr_item :: "hdr \<Rightarrow> u8 list" where
  "hdr_item h = b64_text False (fst h) @ ch CHR '':'' # b64_text False (snd h)"

definition hdr_valid :: "hdr \<Rightarrow> bool" where
  "hdr_valid h \<longleftrightarrow> valid_name (Bytes (fst h)) \<and> valid_value (Bytes (snd h))"

definition hdr_size :: "hdr list \<Rightarrow> nat" where
  "hdr_size hs = sum_list (map (\<lambda>h. length (fst h) + length (snd h)) hs)"

text \<open>The bytes a block of headers leaves in the arena, and the spans that point at them.\<close>

definition hdr_bytes :: "hdr list \<Rightarrow> u8 list" where
  "hdr_bytes hs = concat (map (\<lambda>h. fst h @ snd h) hs)"

fun hdr_spans :: "nat \<Rightarrow> hdr list \<Rightarrow> header_span list" where
  "hdr_spans used [] = []"
| "hdr_spans used (h # hs) =
     \<lparr>sname = (used, length (fst h)), svalue = (used + length (fst h), length (snd h))\<rparr>
     # hdr_spans (used + length (fst h) + length (snd h)) hs"

text \<open>A header block as text: the items joined by semicolons.\<close>

fun hdr_rest :: "hdr list \<Rightarrow> u8 list" where
  "hdr_rest [] = []"
| "hdr_rest (h # hs) = ch CHR '';'' # hdr_item h @ hdr_rest hs"

fun hdr_wire :: "hdr list \<Rightarrow> u8 list" where
  "hdr_wire [] = []"
| "hdr_wire (h # hs) = hdr_item h @ hdr_rest hs"

definition hdr_of :: "cf_header \<Rightarrow> hdr" where
  "hdr_of h = (bytes_list (hname h), bytes_list (hvalue h))"

definition hdr_ok :: "cf_header \<Rightarrow> bool" where
  "hdr_ok h \<longleftrightarrow> valid_name (hname h) \<and> valid_value (hvalue h)"

definition hdr_text :: "nat \<Rightarrow> hdr list \<Rightarrow> u8 list" where
  "hdr_text i hs = (if i = 0 then hdr_wire hs else hdr_rest hs)"

text \<open>The entries the caller sees through the spans.\<close>

definition headers_view :: "mem \<Rightarrow> header_span list \<Rightarrow> nat \<Rightarrow> (cf_bytes option \<times> cf_bytes option) list" where
  "headers_view arena es k = map (\<lambda>s. (view arena (sname s), view arena (svalue s))) (take k es)"

definition hdr_view :: "hdr \<Rightarrow> cf_bytes option \<times> cf_bytes option" where
  "hdr_view h = (Some (Bytes (fst h)), Some (Bytes (snd h)))"

definition decodes_to :: "u8 list \<Rightarrow> nat \<Rightarrow> nat \<Rightarrow> hdr list \<Rightarrow> bool" where
  "decodes_to wire slots cap hs \<longleftrightarrow> items wire = map hdr_item hs \<and> list_all hdr_valid hs
     \<and> length hs \<le> slots \<and> hdr_size hs \<le> cap"

section \<open>Splitting\<close>

lemma split_on_step:
  "split_on c xs = (if c \<in> set xs
     then takeWhile (\<lambda>x. x \<noteq> c) xs # split_on c (drop (Suc (length (takeWhile (\<lambda>x. x \<noteq> c) xs))) xs)
     else [xs])"
  by (induction xs) (auto split: list.splits)

lemma split_on_append: "c \<notin> set p \<Longrightarrow> split_on c (p @ c # xs) = p # split_on c xs"
  by (induction p) (auto split: list.splits)

lemma items_Nil [simp]: "items [] = []"
  by (simp add: items_def)

lemma items_step:
  fixes xs :: "u8 list"
  defines "p \<equiv> takeWhile (\<lambda>x. x \<noteq> ch CHR '';'') xs"
  shows "items xs = (if p = [] then [] else [p]) @ items (drop (Suc (length p)) xs)"
proof (cases "ch CHR '';'' \<in> set xs")
  case True
  then show ?thesis unfolding items_def p_def by (subst split_on_step) (simp add: Let_def)
next
  case False
  then have "p = xs" unfolding p_def by (auto simp: takeWhile_eq_all_conv)
  then show ?thesis using False unfolding items_def by (subst split_on_step) auto
qed

lemma scan_takeWhile:
  assumes "i \<le> lim" "lim \<le> length xs"
  shows "scan xs c i lim = i + length (takeWhile (\<lambda>x. x \<noteq> c) (take (lim - i) (drop i xs)))"
  using assms
proof (induction xs c i lim rule: scan.induct)
  case (1 xs c i lim)
  show ?case
  proof (cases "i < lim")
    case True
    then have "take (lim - i) (drop i xs) = xs ! i # take (lim - (i + 1)) (drop (i + 1) xs)"
      using 1(3) by (simp add: Cons_nth_drop_Suc [symmetric] take_Cons' del: drop_Suc)
    then show ?thesis using 1 True by (subst scan.simps) simp
  next
    case False
    then show ?thesis using 1 by (subst scan.simps) simp
  qed
qed

lemma takeWhile_take_length: "take (length (takeWhile P xs)) xs = takeWhile P xs"
  by (metis append_eq_conv_conj takeWhile_dropWhile_id)

lemma alphabet_no_separator: "ch CHR '':'' \<notin> set (b64_text False xs)" "ch CHR '';'' \<notin> set (b64_text False xs)"
proof -
  have "set (b64_text False xs) \<subseteq> {c. 0 \<le> digit c}"
    using b64_digits_bound [of xs] by (auto simp: b64_text_def b64_raw_def alphabet_valid)
  moreover have "digit (ch CHR '':'') < 0" "digit (ch CHR '';'') < 0" by (simp_all add: digit_def)
  ultimately show "ch CHR '':'' \<notin> set (b64_text False xs)" "ch CHR '';'' \<notin> set (b64_text False xs)" by auto
qed

lemma takeWhile_separator: "c \<notin> set xs \<Longrightarrow> takeWhile (\<lambda>x. x \<noteq> c) (xs @ c # ys) = xs"
  by (induction xs) auto

lemma item_takeWhile: "takeWhile (\<lambda>c. c \<noteq> ch CHR '':'') (hdr_item h) = b64_text False (fst h)"
  unfolding hdr_item_def by (rule takeWhile_separator) (rule alphabet_no_separator(1))

lemma hdr_item_nonempty: "hdr_item h \<noteq> []"
  by (simp add: hdr_item_def)

lemma no_semicolon_item: "ch CHR '';'' \<notin> set (hdr_item h)"
  using alphabet_no_separator(2) by (simp add: hdr_item_def)

lemma hdr_item_inject: "hdr_item h = hdr_item g \<Longrightarrow> h = g"
proof -
  assume eq: "hdr_item h = hdr_item g"
  then have "b64_text False (fst h) = b64_text False (fst g)" by (metis item_takeWhile)
  with eq show ?thesis by (auto simp: hdr_item_def prod_eq_iff dest!: raw64.text_of_inject)
qed

lemma item_of_colon:
  fixes p :: "u8 list"
  defines "k \<equiv> length (takeWhile (\<lambda>c. c \<noteq> ch CHR '':'') p)"
  assumes "k < length p"
  shows "p = hdr_item h \<longleftrightarrow> take k p = b64_text False (fst h) \<and> drop (Suc k) p = b64_text False (snd h)"
proof -
  have at: "p ! k = ch CHR '':''"
    using assms nth_length_takeWhile [of "\<lambda>c. c \<noteq> ch CHR '':''" p] by simp
  have split: "p = take k p @ ch CHR '':'' # drop (Suc k) p"
    using assms(2) at id_take_nth_drop by metis
  have k: "take k p = takeWhile (\<lambda>c. c \<noteq> ch CHR '':'') p"
    by (simp add: k_def takeWhile_take_length)
  show ?thesis
  proof
    assume p: "p = hdr_item h"
    then have "take k p = b64_text False (fst h)" using k item_takeWhile by simp
    moreover from this p split have "drop (Suc k) p = b64_text False (snd h)"
      by (metis append_eq_append_conv hdr_item_def list.inject)
    ultimately show "take k p = b64_text False (fst h) \<and> drop (Suc k) p = b64_text False (snd h)" by simp
  next
    assume "take k p = b64_text False (fst h) \<and> drop (Suc k) p = b64_text False (snd h)"
    then show "p = hdr_item h" using split by (simp add: hdr_item_def)
  qed
qed

lemma item_has_colon:
  "p = hdr_item h \<Longrightarrow> length (takeWhile (\<lambda>c. c \<noteq> ch CHR '':'') p) < length p"
proof -
  assume p: "p = hdr_item h"
  then have "ch CHR '':'' \<in> set p" by (simp add: hdr_item_def)
  then have "takeWhile (\<lambda>c. c \<noteq> ch CHR '':'') p \<noteq> p" by (auto simp: takeWhile_eq_all_conv)
  then show ?thesis using length_takeWhile_le [of "\<lambda>c. c \<noteq> ch CHR '':''" p] takeWhile_take_length
    by (metis le_neq_implies_less take_all_iff)
qed


section \<open>The decoder\<close>

lemma view_splice:
  assumes "used + length xs \<le> length m" "a + n \<le> length xs"
  shows "view (splice m used xs) (used + a, n) = Some (Bytes (take n (drop a xs)))"
proof -
  have "take n (drop (used + a) (splice m used xs)) = take n (drop a xs)"
    using assms by (simp add: splice_def min_absorb1 min_absorb2)
  then show ?thesis using assms by (simp add: view_def load_n_def)
qed

lemma headers_entry_cases:
  fixes wire start colon stop
  defines "nb \<equiv> take (colon - start) (drop start wire)"
    and "vb \<equiv> take (stop - colon - 1) (drop (colon + 1) wire)"
  assumes "used \<le> cap" "cap \<le> length arena"
  obtains (ok) h where "nb = b64_text False (fst h)" "vb = b64_text False (snd h)" "hdr_valid h" "hdr_size [h] \<le> cap - used"
      "headers_entry wire start colon stop cap used arena
        = Some (Inr (hd (hdr_spans used [h]), used + hdr_size [h]), splice arena used (hdr_bytes [h]))"
    | (err) rc ys where "rc \<noteq> CF_OK" "length ys \<le> cap - used"
      "headers_entry wire start colon stop cap used arena = Some (Inl rc, splice arena used ys)"
      "\<And>h. nb = b64_text False (fst h) \<Longrightarrow> vb = b64_text False (snd h) \<Longrightarrow> hdr_valid h \<Longrightarrow> hdr_size [h] \<le> cap - used \<Longrightarrow> False"
proof -
  have room: "ptr_room (Some (arena, used)) (cap - used)" using assms by simp
  note E = headers_entry_def [of wire start colon stop cap used arena, folded nb_def vb_def]
  consider (n) n where "nb = b64_text False n" "length n \<le> cap - used"
      "cf_base64_decode (Bytes nb) False (Some (arena, used)) (cap - used) (Some 0) = Some (CF_OK, Some (splice arena used n, used), Some (length n))"
    | (no) rc ys where "rc \<noteq> CF_OK" "length ys \<le> cap - used"
      "cf_base64_decode (Bytes nb) False (Some (arena, used)) (cap - used) (Some 0) = Some (rc, Some (splice arena used ys, used), Some 0)"
      "\<not> (\<exists>xs. nb = b64_text False xs \<and> length xs \<le> cap - used)"
    by (rule raw64.decode_cases [OF _ room, of "Bytes nb" 0]) auto
  then show thesis
  proof cases
    case no
    have "headers_entry wire start colon stop cap used arena = Some (Inl rc, splice arena used ys)"
      unfolding E no by (simp add: no)
    then show ?thesis using no by (intro err [of rc ys]) (auto simp: hdr_size_def)
  next
    case n
    let ?m = "splice arena used n" and ?u = "used + length n"
    have room2: "ptr_room (Some (?m, ?u)) (cap - ?u)" using assms n by simp
    have unique: "fst h = n" if "nb = b64_text False (fst h)" for h
      using that n raw64.text_of_inject by auto
    consider (v) v where "vb = b64_text False v" "length v \<le> cap - ?u"
        "cf_base64_decode (Bytes vb) False (Some (?m, ?u)) (cap - ?u) (Some 0) = Some (CF_OK, Some (splice ?m ?u v, ?u), Some (length v))"
      | (nov) rc ys where "rc \<noteq> CF_OK" "length ys \<le> cap - ?u"
        "cf_base64_decode (Bytes vb) False (Some (?m, ?u)) (cap - ?u) (Some 0) = Some (rc, Some (splice ?m ?u ys, ?u), Some 0)"
        "\<not> (\<exists>xs. vb = b64_text False xs \<and> length xs \<le> cap - ?u)"
      by (rule raw64.decode_cases [OF _ room2, of "Bytes vb" 0]) auto
    then show ?thesis
    proof cases
      case nov
      have "headers_entry wire start colon stop cap used arena = Some (Inl rc, splice arena used (n @ ys))"
        unfolding E using nov(1,2) assms(3,4) n(2) by (simp add: n(3) nov(3) Let_def splice_splice)
      moreover have False if "nb = b64_text False (fst h)" "vb = b64_text False (snd h)" "hdr_size [h] \<le> cap - used" for h
      proof -
        have "length (snd h) \<le> cap - ?u" using that(3) unique [OF that(1)] by (simp add: hdr_size_def)
        then show False using nov(4) that(2) by blast
      qed
      moreover have "length (n @ ys) \<le> cap - used" using nov n by simp
      ultimately show ?thesis using nov(1) by (intro err [of rc "n @ ys"]) blast+
    next
      case v
      let ?h = "(n, v)"
      have m: "splice ?m ?u v = splice arena used (n @ v)" using assms n v by (simp add: splice_splice)
      have views: "view (splice arena used (n @ v)) (used, length n) = Some (Bytes n)"
        "view (splice arena used (n @ v)) (?u, length v) = Some (Bytes v)"
        using view_splice [of used "n @ v" arena 0 "length n"] view_splice [of used "n @ v" arena "length n" "length v"] assms n v
        by simp_all
      have res: "headers_entry wire start colon stop cap used arena =
        (if hdr_valid ?h then Some (Inr (hd (hdr_spans used [?h]), used + hdr_size [?h]), splice arena used (hdr_bytes [?h]))
         else Some (Inl CF_ERR_FORMAT, splice arena used (n @ v)))"
        unfolding E by (simp add: n(3) v(3) m views Let_def hdr_valid_def hdr_size_def hdr_bytes_def)
      have uniq: "h = ?h" if "nb = b64_text False (fst h)" "vb = b64_text False (snd h)" for h
        using that unique v raw64.text_of_inject by (metis prod.collapse)
      show ?thesis
      proof (cases "hdr_valid ?h")
        case True
        then show ?thesis using res n v by (intro ok [of ?h]) (auto simp: hdr_size_def)
      next
        case False
        then have bad: "\<not> hdr_valid h" if "nb = b64_text False (fst h)" "vb = b64_text False (snd h)" for h
          using uniq [OF that] by simp
        show ?thesis using False res bad n(2) v(2) by (intro err [of CF_ERR_FORMAT "n @ v"]) (blast | simp)+
      qed
    qed
  qed
qed


lemma headers_body_cases:
  fixes wire :: "u8 list" and start :: nat
  defines "p \<equiv> takeWhile (\<lambda>x. x \<noteq> ch CHR '';'') (drop start wire)"
  assumes "used \<le> cap" "cap \<le> length arena" "num \<le> slots" "slots \<le> length entries" "start < length wire"
  obtains (skip) "p = []" "headers_body wire slots cap start used num arena entries
        = Some (Inr (Suc start, used, num), arena, entries)"
    | (ok) h where "p = hdr_item h" "num < slots" "hdr_valid h" "hdr_size [h] \<le> cap - used"
      "headers_body wire slots cap start used num arena entries
        = Some (Inr (Suc (start + length p), used + hdr_size [h], Suc num), splice arena used (hdr_bytes [h]),
            splice entries num (hdr_spans used [h]))"
    | (err) rc ys where "p \<noteq> []" "rc \<noteq> CF_OK" "length ys \<le> cap - used"
      "headers_body wire slots cap start used num arena entries = Some (Inl rc, splice arena used ys, entries)"
      "num < slots \<Longrightarrow> (\<And>h. p = hdr_item h \<Longrightarrow> hdr_valid h \<Longrightarrow> hdr_size [h] \<le> cap - used \<Longrightarrow> False)"
proof -
  have stop: "scan wire (ch CHR '';'') start (length wire) = start + length p"
    using scan_takeWhile [of start "length wire" wire "ch CHR '';''"] assms(6) by (simp add: p_def)
  have bound: "start + length p \<le> length wire"
    using assms(6) length_takeWhile_le [of "\<lambda>x. x \<noteq> ch CHR '';''" "drop start wire"] by (simp add: p_def)
  have piece: "take (length p) (drop start wire) = p"
    by (simp add: p_def takeWhile_take_length)
  let ?k = "length (takeWhile (\<lambda>c. c \<noteq> ch CHR '':'') p)"
  have colon: "scan wire (ch CHR '':'') start (start + length p) = start + ?k"
    using scan_takeWhile [of start "start + length p" wire "ch CHR '':''"] bound by (simp add: piece)
  note B = headers_body_def [of wire slots cap start used num arena entries, unfolded Let_def stop colon]
  show thesis
  proof (cases "p = []")
    case True
    then show ?thesis by (intro skip) (simp_all add: B)
  next
    case p: False
    show ?thesis
    proof (cases "num = slots \<or> ?k = length p")
      case True
      have "headers_body wire slots cap start used num arena entries
          = Some (Inl (if num = slots then CF_ERR_LIMIT else CF_ERR_FORMAT), splice arena used [], entries)"
        using p True by (auto simp: B)
      moreover have False if "num < slots" "p = hdr_item h" for h
        using True that item_has_colon [OF that(2)] by simp
      ultimately show ?thesis using p
        by (intro err [of "if num = slots then CF_ERR_LIMIT else CF_ERR_FORMAT" "[]"]) (blast | simp)+
    next
      case False
      then have k: "?k < length p" using length_takeWhile_le [of "\<lambda>c. c \<noteq> ch CHR '':''" p] by simp
      have nb: "take (start + ?k - start) (drop start wire) = take ?k p"
      proof -
        have "take ?k (take (length p) (drop start wire)) = take ?k (drop start wire)"
          using k by (simp only: take_take min_absorb1 less_imp_le)
        then show ?thesis by (simp only: piece add_diff_cancel_left')
      qed
      have vb: "take (start + length p - (start + ?k) - 1) (drop (start + ?k + 1) wire) = drop (Suc ?k) p"
      proof -
        have "drop (Suc ?k) (take (length p) (drop start wire)) = take (length p - Suc ?k) (drop (Suc ?k + start) wire)"
          by (simp only: drop_take drop_drop)
        then show ?thesis by (simp add: piece ac_simps)
      qed
      show ?thesis
      proof (rule headers_entry_cases [where used = used and cap = cap and arena = arena and wire = wire
            and start = start and colon = "start + ?k" and stop = "start + length p", unfolded nb vb])
        fix h
        assume h: "take ?k p = b64_text False (fst h)" "drop (Suc ?k) p = b64_text False (snd h)"
          "hdr_valid h" "hdr_size [h] \<le> cap - used"
          "headers_entry wire start (start + ?k) (start + length p) cap used arena
            = Some (Inr (hd (hdr_spans used [h]), used + hdr_size [h]), splice arena used (hdr_bytes [h]))"
        have "p = hdr_item h" using item_of_colon k h by blast
        moreover have "entries[num := e] = splice entries num [e]" for e
          using splice_snoc [of num "[]" entries] False assms(4,5) by simp
        ultimately show ?thesis using h False k p assms(4,5)
          by (intro ok [of h]) (simp_all add: B store_Some)
      next
        fix rc ys
        assume e: "rc \<noteq> CF_OK" "length ys \<le> cap - used"
          "headers_entry wire start (start + ?k) (start + length p) cap used arena = Some (Inl rc, splice arena used ys)"
          "\<And>h. take ?k p = b64_text False (fst h) \<Longrightarrow> drop (Suc ?k) p = b64_text False (snd h) \<Longrightarrow> hdr_valid h
             \<Longrightarrow> hdr_size [h] \<le> cap - used \<Longrightarrow> False"
        have "headers_body wire slots cap start used num arena entries = Some (Inl rc, splice arena used ys, entries)"
          using e(3) False k p by (simp add: B)
        moreover have False if "p = hdr_item h" "hdr_valid h" "hdr_size [h] \<le> cap - used" for h
          using e(4) [of h] that item_of_colon k by blast
        ultimately show ?thesis using e p by (intro err [of rc ys]) blast+
      qed (use assms in auto)
    qed
  qed
qed


lemma length_hdr_bytes [simp]: "length (hdr_bytes hs) = hdr_size hs"
  by (induction hs) (auto simp: hdr_bytes_def hdr_size_def)

lemma length_hdr_spans [simp]: "length (hdr_spans used hs) = length hs"
  by (induction hs arbitrary: used) auto

lemma hdr_size_simps [simp]: "hdr_size [] = 0" "hdr_size (h # hs) = length (fst h) + length (snd h) + hdr_size hs"
  by (simp_all add: hdr_size_def)

lemma hdr_bytes_Cons: "hdr_bytes (h # hs) = hdr_bytes [h] @ hdr_bytes hs"
  by (simp add: hdr_bytes_def)

lemma hdr_spans_Cons: "hdr_spans used (h # hs) = hdr_spans used [h] @ hdr_spans (used + hdr_size [h]) hs"
  by (simp add: ac_simps)

lemma decodes_to_Nil: "decodes_to [] slots cap hs \<longleftrightarrow> hs = []"
  by (auto simp: decodes_to_def)

lemma decodes_to_skip:
  "takeWhile (\<lambda>x. x \<noteq> ch CHR '';'') xs = [] \<Longrightarrow> decodes_to xs slots cap hs \<longleftrightarrow> decodes_to (drop 1 xs) slots cap hs"
  using items_step [of xs] by (simp add: decodes_to_def)

lemma decodes_to_step:
  assumes "takeWhile (\<lambda>x. x \<noteq> ch CHR '';'') xs = p" "p \<noteq> []"
  shows "decodes_to xs slots cap hs \<longleftrightarrow> (\<exists>h hs'. hs = h # hs' \<and> p = hdr_item h \<and> hdr_valid h \<and> 0 < slots
    \<and> hdr_size [h] \<le> cap \<and> decodes_to (drop (Suc (length p)) xs) (slots - 1) (cap - hdr_size [h]) hs')"
proof (cases hs)
  case Nil
  then show ?thesis using items_step [of xs] assms by (simp add: decodes_to_def)
next
  case (Cons h hs')
  show ?thesis using items_step [of xs] assms unfolding Cons by (auto simp: decodes_to_def)
qed

lemma headers_loop_spec:
  assumes "used \<le> cap" "cap \<le> length arena" "num \<le> slots" "slots \<le> length entries"
  shows "\<exists>rc ys zs. headers_loop wire slots cap start used num arena entries
      = Some (rc, if rc = CF_OK then num + length zs else 0, splice arena used ys, splice entries num zs)
    \<and> length ys \<le> cap - used \<and> length zs \<le> slots - num
    \<and> (if rc = CF_OK then \<exists>hs. decodes_to (drop start wire) (slots - num) (cap - used) hs \<and> ys = hdr_bytes hs \<and> zs = hdr_spans used hs
       else \<nexists>hs. decodes_to (drop start wire) (slots - num) (cap - used) hs)"
  using assms
proof (induction wire slots cap start used num arena entries rule: headers_loop.induct)
  case (1 wire slots cap start used num arena entries)
  note prems = 1(2-5)
  note L = headers_loop.simps [of wire slots cap start used num arena entries]
  let ?p = "takeWhile (\<lambda>x. x \<noteq> ch CHR '';'') (drop start wire)"
  show ?case
  proof (cases "start < length wire")
    case False
    then show ?thesis unfolding L
      by (intro exI [of _ CF_OK] exI [of _ "[]"]) (auto simp: decodes_to_Nil hdr_bytes_def)
  next
    case True
    show ?thesis
    proof (rule headers_body_cases [OF prems True])
      assume skip: "?p = []" "headers_body wire slots cap start used num arena entries
        = Some (Inr (Suc start, used, num), arena, entries)"
      have "headers_loop wire slots cap start used num arena entries
          = headers_loop wire slots cap (Suc start) used num arena entries"
        by (simp add: L True skip(2))
      moreover have "decodes_to (drop start wire) = decodes_to (drop (Suc start) wire)"
        by (intro ext) (simp add: decodes_to_skip [OF skip(1)])
      ultimately show ?thesis
        using 1(1) [OF True skip(2) refl refl refl refl refl prems] by (simp only:)
    next
      fix rc ys
      assume err: "?p \<noteq> []" "rc \<noteq> CF_OK" "length ys \<le> cap - used"
        "headers_body wire slots cap start used num arena entries = Some (Inl rc, splice arena used ys, entries)"
        "num < slots \<Longrightarrow> (\<And>h. ?p = hdr_item h \<Longrightarrow> hdr_valid h \<Longrightarrow> hdr_size [h] \<le> cap - used \<Longrightarrow> False)"
      have "\<nexists>hs. decodes_to (drop start wire) (slots - num) (cap - used) hs"
        unfolding decodes_to_step [OF refl err(1)] zero_less_diff using err(5) by blast
      then show ?thesis using err(2-4) True
        by (intro exI [of _ rc] exI [of _ ys] exI [of _ "[]"]) (auto simp: L)
    next
      fix h
      assume ok: "?p = hdr_item h" "num < slots" "hdr_valid h" "hdr_size [h] \<le> cap - used"
        "headers_body wire slots cap start used num arena entries
          = Some (Inr (Suc (start + length ?p), used + hdr_size [h], Suc num), splice arena used (hdr_bytes [h]),
              splice entries num (hdr_spans used [h]))"
      let ?rest = "drop (Suc (start + length ?p)) wire"
      have pn: "?p \<noteq> []" unfolding ok(1) by (simp add: hdr_item_def)
      have caps: "used + hdr_size [h] \<le> cap" "cap \<le> length (splice arena used (hdr_bytes [h]))" "Suc num \<le> slots"
        "slots \<le> length (splice entries num (hdr_spans used [h]))"
        using prems ok by (simp_all del: hdr_size_simps)
      from 1(1) [OF True ok(5) refl refl refl refl refl caps] obtain rc ys zs where IH:
        "headers_loop wire slots cap (Suc (start + length ?p)) (used + hdr_size [h]) (Suc num)
            (splice arena used (hdr_bytes [h])) (splice entries num (hdr_spans used [h]))
          = Some (rc, if rc = CF_OK then Suc num + length zs else 0,
              splice (splice arena used (hdr_bytes [h])) (used + hdr_size [h]) ys,
              splice (splice entries num (hdr_spans used [h])) (Suc num) zs)"
        "length ys \<le> cap - (used + hdr_size [h])" "length zs \<le> slots - Suc num"
        "if rc = CF_OK then \<exists>hs. decodes_to ?rest (slots - Suc num) (cap - (used + hdr_size [h])) hs
            \<and> ys = hdr_bytes hs \<and> zs = hdr_spans (used + hdr_size [h]) hs
          else \<nexists>hs. decodes_to ?rest (slots - Suc num) (cap - (used + hdr_size [h])) hs"
        by blast
      have mem: "splice (splice arena used (hdr_bytes [h])) (used + hdr_size [h]) ys = splice arena used (hdr_bytes [h] @ ys)"
        using splice_splice [of used "hdr_bytes [h]" ys arena] prems ok(4) IH(2) by (simp del: hdr_size_simps)
      have ent: "splice (splice entries num (hdr_spans used [h])) (Suc num) zs = splice entries num (hdr_spans used [h] @ zs)"
        using splice_splice [of num "hdr_spans used [h]" zs entries] prems ok(2) IH(3) by simp
      have dec: "decodes_to (drop start wire) (slots - num) (cap - used) hs \<longleftrightarrow>
          (\<exists>hs'. hs = h # hs' \<and> decodes_to ?rest (slots - Suc num) (cap - (used + hdr_size [h])) hs')" for hs
        unfolding decodes_to_step [OF refl pn] using ok
        by (auto simp: ac_simps diff_diff_left dest: hdr_item_inject simp del: hdr_size_simps split_paired_Ex)
      have loop: "headers_loop wire slots cap start used num arena entries
          = Some (rc, if rc = CF_OK then num + length (hdr_spans used [h] @ zs) else 0,
              splice arena used (hdr_bytes [h] @ ys), splice entries num (hdr_spans used [h] @ zs))"
        using L True ok(5) IH(1) mem ent by simp
      have "if rc = CF_OK then \<exists>hs. decodes_to (drop start wire) (slots - num) (cap - used) hs
            \<and> hdr_bytes [h] @ ys = hdr_bytes hs \<and> hdr_spans used [h] @ zs = hdr_spans used hs
          else \<nexists>hs. decodes_to (drop start wire) (slots - num) (cap - used) hs"
        using IH(4) unfolding dec by (metis hdr_bytes_Cons hdr_spans_Cons)
      moreover have "length (hdr_bytes [h] @ ys) \<le> cap - used" "length (hdr_spans used [h] @ zs) \<le> slots - num"
        using IH(2,3) ok(2,4) by (simp_all del: hdr_size_simps)
      ultimately show ?thesis using loop by blast
    qed
  qed
qed


lemma span_views:
  assumes "used + hdr_size hs \<le> length arena"
  shows "map (\<lambda>s. (view (splice arena used (hdr_bytes hs)) (sname s), view (splice arena used (hdr_bytes hs)) (svalue s)))
      (hdr_spans used hs) = map hdr_view hs"
  using assms
proof (induction hs arbitrary: used arena)
  case (Cons h hs)
  let ?b = "hdr_bytes [h]" and ?m = "splice arena used (hdr_bytes (h # hs))"
  have m: "?m = splice (splice arena used ?b) (used + hdr_size [h]) (hdr_bytes hs)"
    using splice_splice [of used ?b "hdr_bytes hs" arena] Cons.prems by (simp add: hdr_bytes_Cons [of h hs])
  have bytes: "hdr_bytes (h # hs) = fst h @ snd h @ hdr_bytes hs" by (simp add: hdr_bytes_def)
  have room: "used + length (hdr_bytes (h # hs)) \<le> length arena"
    using Cons.prems by simp
  have "view ?m (used, length (fst h)) = Some (Bytes (fst h))"
    using view_splice [OF room, of 0 "length (fst h)"] by (simp add: bytes)
  moreover have "view ?m (used + length (fst h), length (snd h)) = Some (Bytes (snd h))"
    using view_splice [OF room, of "length (fst h)" "length (snd h)"] by (simp add: bytes)
  moreover have "map (\<lambda>s. (view ?m (sname s), view ?m (svalue s))) (hdr_spans (used + hdr_size [h]) hs) = map hdr_view hs"
    unfolding m using Cons.prems by (intro Cons.IH) simp
  ultimately show ?case unfolding hdr_spans_Cons [of used h hs] by (simp add: hdr_view_def)
qed simp

lemma headers_view_decoded:
  assumes "hdr_size hs \<le> length arena" "length hs \<le> length es"
  shows "headers_view (splice arena 0 (hdr_bytes hs)) (splice es 0 (hdr_spans 0 hs)) (length hs) = map hdr_view hs"
  using span_views [of 0 hs arena] assms by (simp add: headers_view_def splice_def)

lemma map_hdr_view_inject: "map hdr_view hs = map hdr_view gs \<Longrightarrow> hs = gs"
  by (rule map_injective) (auto simp: hdr_view_def inj_def prod_eq_iff)

lemma headers_decode_cases:
  assumes "\<not> bytes_bad wire" "cap \<le> length arena" "slots \<le> length es"
  obtains (ok) hs where "bytes_len wire \<le> CF_HEADER_WIRE_MAX"
      "decodes_to (bytes_list wire) (min slots CF_HEADER_COUNT_MAX) (min cap CF_HEADER_DECODED_MAX) hs"
      "cf_headers_decode wire (Some es) slots (Some arena) cap (Some k)
        = Some (CF_OK, Some (length hs), Some (splice arena 0 (hdr_bytes hs)), Some (splice es 0 (hdr_spans 0 hs)))"
    | (err) rc ys zs where "rc \<noteq> CF_OK" "length ys \<le> min cap CF_HEADER_DECODED_MAX" "length zs \<le> min slots CF_HEADER_COUNT_MAX"
      "\<And>hs. bytes_len wire \<le> CF_HEADER_WIRE_MAX \<Longrightarrow>
         \<not> decodes_to (bytes_list wire) (min slots CF_HEADER_COUNT_MAX) (min cap CF_HEADER_DECODED_MAX) hs"
      "cf_headers_decode wire (Some es) slots (Some arena) cap (Some k)
        = Some (rc, Some 0, Some (splice arena 0 ys), Some (splice es 0 zs))"
proof (cases "bytes_len wire \<le> CF_HEADER_WIRE_MAX")
  case False
  then show thesis using assms by (intro err [of CF_ERR_LIMIT "[]" "[]"]) (auto simp: cf_headers_decode_def)
next
  case True
  let ?s = "min slots CF_HEADER_COUNT_MAX" and ?c = "min cap CF_HEADER_DECODED_MAX"
  obtain rc ys zs where L: "headers_loop (bytes_list wire) ?s ?c 0 0 0 arena es
      = Some (rc, if rc = CF_OK then length zs else 0, splice arena 0 ys, splice es 0 zs)"
    "length ys \<le> ?c" "length zs \<le> ?s"
    "if rc = CF_OK then \<exists>hs. decodes_to (bytes_list wire) ?s ?c hs \<and> ys = hdr_bytes hs \<and> zs = hdr_spans 0 hs
     else \<nexists>hs. decodes_to (bytes_list wire) ?s ?c hs"
  proof -
    have "?c \<le> length arena" "?s \<le> length es" using assms by simp_all
    from headers_loop_spec [OF le0 this(1) le0 this(2), of "bytes_list wire" 0] show ?thesis
      unfolding add_0 drop_0 diff_zero using that by blast
  qed
  have D: "cf_headers_decode wire (Some es) slots (Some arena) cap (Some k)
      = Some (rc, Some (if rc = CF_OK then length zs else 0), Some (splice arena 0 ys), Some (splice es 0 zs))"
    using True assms(1) L(1) by (simp add: cf_headers_decode_def)
  show thesis
  proof (cases "rc = CF_OK")
    case True
    then obtain hs where "decodes_to (bytes_list wire) ?s ?c hs" "ys = hdr_bytes hs" "zs = hdr_spans 0 hs"
      using L(4) by auto
    then show ?thesis using D True \<open>bytes_len wire \<le> CF_HEADER_WIRE_MAX\<close> by (intro ok [of hs]) simp_all
  next
    case False
    then show ?thesis using D L by (intro err [of rc ys zs]) auto
  qed
qed

lemma decodes_to_unique: "decodes_to wire s c hs \<Longrightarrow> decodes_to wire s' c' gs \<Longrightarrow> hs = gs"
  unfolding decodes_to_def by (rule map_injective [of hdr_item]) (auto simp: inj_def dest: hdr_item_inject)

section \<open>The encoder\<close>

lemma hdr_ok_lens:
  assumes "hdr_ok h"
  shows "bytes_len (hname h) = length (fst (hdr_of h))" "bytes_len (hvalue h) = length (snd (hdr_of h))"
    "\<not> bytes_bad (hname h)" "\<not> bytes_bad (hvalue h)"
  using assms bytes_list_len [of "hvalue h"]
  by (cases "hname h"; simp add: hdr_ok_def hdr_of_def valid_name_def valid_value_def)+

lemma hdr_text_simps [simp]:
  "hdr_text i [] = []"
  "hdr_text i (h # hs) = (if i = 0 then [] else [ch CHR '';'']) @ hdr_item h @ hdr_text (Suc i) hs"
  by (simp_all add: hdr_text_def)

lemma length_hdr_item:
  "length (hdr_item h) = length (b64_text False (fst h)) + length (b64_text False (snd h)) + 1"
  by (simp add: hdr_item_def)

lemma encode_check_Cons:
  assumes "hdr_ok h" "decoded \<le> CF_HEADER_DECODED_MAX"
  shows "encode_check (h # hs) i decoded need =
    (if decoded + hdr_size [hdr_of h] \<le> CF_HEADER_DECODED_MAX
     then encode_check hs (Suc i) (decoded + hdr_size [hdr_of h])
       (need + length ((if i = 0 then [] else [ch CHR '';'']) @ hdr_item (hdr_of h)))
     else Inl CF_ERR_LIMIT)"
proof -
  have "valid_name (hname h)" "valid_value (hvalue h)" using assms by (simp_all add: hdr_ok_def)
  note lens = this hdr_ok_lens [OF assms(1)]
  let ?a = "length (fst (hdr_of h))" and ?b = "length (snd (hdr_of h))"
  show ?thesis
  proof (cases "decoded + (?a + ?b) \<le> CF_HEADER_DECODED_MAX")
    case True
    then have "\<not> CF_HEADER_DECODED_MAX - decoded < ?a" "\<not> CF_HEADER_DECODED_MAX - (decoded + ?a) < ?b"
      by simp_all
    then show ?thesis using True by (simp add: lens Let_def length_hdr_item length_b64_text add.assoc)
  next
    case False
    then have "CF_HEADER_DECODED_MAX - decoded < ?a \<or> CF_HEADER_DECODED_MAX - (decoded + ?a) < ?b"
      using assms(2) by linarith
    then show ?thesis using False by (elim disjE) (simp_all add: lens Let_def)
  qed
qed

lemma encode_check_bad: "\<not> hdr_ok h \<Longrightarrow> encode_check (h # hs) i decoded need \<in> {Inl CF_ERR_LIMIT, Inl CF_ERR_FORMAT}"
  by (auto simp: Let_def hdr_ok_def)

lemma encode_check_Inr:
  assumes "list_all hdr_ok hs" "decoded + hdr_size (map hdr_of hs) \<le> CF_HEADER_DECODED_MAX"
  shows "encode_check hs i decoded need = Inr (need + length (hdr_text i (map hdr_of hs)))"
  using assms
proof (induction hs arbitrary: i decoded need)
  case (Cons h hs)
  then show ?case by (subst encode_check_Cons) (simp_all add: add.assoc)
qed simp

lemma encode_check_Inl:
  assumes "\<not> (list_all hdr_ok hs \<and> decoded + hdr_size (map hdr_of hs) \<le> CF_HEADER_DECODED_MAX)"
    "decoded \<le> CF_HEADER_DECODED_MAX"
  shows "encode_check hs i decoded need \<in> {Inl CF_ERR_LIMIT, Inl CF_ERR_FORMAT}"
  using assms
proof (induction hs arbitrary: i decoded need)
  case (Cons h hs)
  show ?case
  proof (cases "hdr_ok h")
    case True
    show ?thesis
      unfolding encode_check_Cons [OF True Cons.prems(2)]
      using Cons.IH [of "decoded + hdr_size [hdr_of h]"] Cons.prems(1) True by (simp add: add.assoc)
  qed (rule encode_check_bad)
qed simp

lemma encode_write_text:
  assumes "list_all hdr_ok hs" "used + length (hdr_text i (map hdr_of hs)) \<le> cap" "cap \<le> length m" "cap \<le> SIZE_MAX"
    "hdr_size (map hdr_of hs) \<le> CF_HEADER_DECODED_MAX"
  shows "encode_write hs i used cap (Some m)
    = Some (used + length (hdr_text i (map hdr_of hs)), Some (splice m used (hdr_text i (map hdr_of hs))))"
  using assms
proof (induction hs arbitrary: i used m)
  case (Cons h hs)
  let ?sep = "if i = 0 then [] else [ch CHR '';'']" and ?n = "b64_text False (fst (hdr_of h))"
    and ?v = "b64_text False (snd (hdr_of h))" and ?t = "hdr_text (Suc i) (map hdr_of hs)"
  let ?u1 = "used + length ?sep" and ?m1 = "splice m used ?sep"
  have ok: "hdr_ok h" using Cons.prems by simp
  note lens = hdr_ok_lens [OF ok]
  have names: "bytes_list (hname h) = fst (hdr_of h)" "bytes_list (hvalue h) = snd (hdr_of h)"
    by (simp_all add: hdr_of_def)
  have fits: "used + length (?sep @ ?n @ [ch CHR '':''] @ ?v) + length ?t \<le> cap"
    using Cons.prems(2) by (simp add: hdr_item_def)
  have room: "used + length (?sep @ ?n @ [ch CHR '':''] @ ?v) + length ?t \<le> length m"
    using fits Cons.prems(3) by simp
  have small: "bytes_len (hname h) \<le> 2 ^ 31" "bytes_len (hvalue h) \<le> 2 ^ 31"
    using Cons.prems(5) by (simp_all add: lens CF_HEADER_DECODED_MAX_def)
  have sep: "(if i \<noteq> 0 then do { m \<leftarrow> store m used (ch CHR '';''); Some (m, used + 1) } else Some (m, used)) = Some (?m1, ?u1)"
    using room splice_snoc [of used "[]" m] by (simp add: store_Some)
  let ?m2 = "splice m used (?sep @ ?n)" and ?u2 = "used + length (?sep @ ?n)"
  have e1: "cf_base64_encode (hname h) False (Some (?m1, ?u1)) (cap - ?u1) (Some 0)
      = Some (CF_OK, Some (?m2, ?u1), Some (length ?n))"
    using raw64.encode_text [of "hname h" "Some (?m1, ?u1)" "cap - ?u1" 0] fits room small lens Cons.prems(3,4)
      splice_splice [of used ?sep ?n m] by (simp add: names)
  let ?m3 = "splice m used (?sep @ ?n @ [ch CHR '':''])" and ?u3 = "used + length (?sep @ ?n @ [ch CHR '':''])"
  have c: "store ?m2 ?u2 (ch CHR '':'') = Some ?m3"
    using room splice_snoc [of used "?sep @ ?n" m] by (simp add: store_Some)
  let ?m4 = "splice m used (?sep @ hdr_item (hdr_of h))"
  have e2: "cf_base64_encode (hvalue h) False (Some (?m3, ?u3)) (cap - ?u3) (Some 0)
      = Some (CF_OK, Some (?m4, ?u3), Some (length ?v))"
    using raw64.encode_text [of "hvalue h" "Some (?m3, ?u3)" "cap - ?u3" 0] fits room small lens Cons.prems(3,4)
      splice_splice [of used "?sep @ ?n @ [ch CHR '':'']" ?v m] by (simp add: names hdr_item_def)
  have step: "encode_write (h # hs) i used cap (Some m) = encode_write hs (i + 1) (?u3 + length ?v) cap (Some ?m4)"
    using sep e1 c e2 by (simp add: Let_def ac_simps)
  have "encode_write hs (i + 1) (?u3 + length ?v) cap (Some ?m4)
      = Some (?u3 + length ?v + length ?t, Some (splice ?m4 (?u3 + length ?v) ?t))"
    using Cons.IH [of "?u3 + length ?v" "i + 1" ?m4] Cons.prems fits room by (simp add: hdr_item_def)
  moreover have "splice ?m4 (?u3 + length ?v) ?t = splice m used ((?sep @ hdr_item (hdr_of h)) @ ?t)"
    using splice_splice [of used "?sep @ hdr_item (hdr_of h)" ?t m] room by (simp add: hdr_item_def ac_simps)
  ultimately show ?case unfolding step by (simp add: hdr_item_def)
qed simp


lemma headers_encode_eq:
  assumes "\<not> (wire = None \<and> cap \<noteq> 0)" "cap \<le> SIZE_MAX" "\<And>m. wire = Some m \<Longrightarrow> cap \<le> length m"
    "entries = Headers hs"
  shows "if length hs \<le> CF_HEADER_COUNT_MAX \<and> list_all hdr_ok hs \<and> hdr_size (map hdr_of hs) \<le> CF_HEADER_DECODED_MAX
       \<and> length (hdr_wire (map hdr_of hs)) \<le> min cap CF_HEADER_WIRE_MAX
     then cf_headers_encode entries wire cap (Some w)
       = Some (CF_OK, map_option (\<lambda>m. splice m 0 (hdr_wire (map hdr_of hs))) wire, Some (length (hdr_wire (map hdr_of hs))))
     else \<exists>rc \<in> {CF_ERR_LIMIT, CF_ERR_FORMAT}. cf_headers_encode entries wire cap (Some w) = Some (rc, wire, Some 0)"
proof -
  let ?hs = "map hdr_of hs"
  have t: "hdr_text 0 ?hs = hdr_wire ?hs" by (simp add: hdr_text_def)
  consider (check) "\<not> (list_all hdr_ok hs \<and> hdr_size ?hs \<le> CF_HEADER_DECODED_MAX)"
    | (long) "list_all hdr_ok hs \<and> hdr_size ?hs \<le> CF_HEADER_DECODED_MAX" "\<not> length (hdr_wire ?hs) \<le> min cap CF_HEADER_WIRE_MAX"
    | (ok) "list_all hdr_ok hs \<and> hdr_size ?hs \<le> CF_HEADER_DECODED_MAX" "length (hdr_wire ?hs) \<le> min cap CF_HEADER_WIRE_MAX"
    by blast
  then show ?thesis
  proof cases
    case check
    then show ?thesis using encode_check_Inl [of hs 0 0 0] assms by (auto simp: cf_headers_encode_def)
  next
    case long
    then show ?thesis using encode_check_Inr [of hs 0 0 0] assms
      by (auto simp: cf_headers_encode_def t not_le)
  next
    case ok
    show ?thesis
    proof (cases wire)
      case None
      then have "hs = []" using ok(2) assms(1) by (cases hs) (simp_all add: hdr_item_def)
      then show ?thesis using None assms by (simp add: cf_headers_encode_def)
    next
      case (Some m)
      then show ?thesis using ok assms encode_check_Inr [of hs 0 0 0] encode_write_text [of hs 0 0 cap m]
        by (auto simp: cf_headers_encode_def t not_le)
    qed
  qed
qed

lemma items_rest: "items (hdr_item h @ hdr_rest hs) = map hdr_item (h # hs)"
proof (induction hs arbitrary: h)
  case Nil
  have "items (hdr_item h) = [hdr_item h]"
    unfolding items_def using no_semicolon_item [of h] by (subst split_on_step) (simp only: if_False filter.simps hdr_item_nonempty, simp)
  then show ?case by simp
next
  case (Cons g hs)
  have "items (hdr_item h @ ch CHR '';'' # hdr_item g @ hdr_rest hs) = hdr_item h # items (hdr_item g @ hdr_rest hs)"
    unfolding items_def split_on_append [OF no_semicolon_item] by (simp add: hdr_item_def)
  then show ?case using Cons.IH by simp
qed

lemma items_wire: "items (hdr_wire hs) = map hdr_item hs"
  by (cases hs) (simp_all add: items_rest)

lemma hdr_ok_valid: "hdr_ok h \<Longrightarrow> hdr_valid (hdr_of h)"
  by (cases "hvalue h"; cases "hname h") (auto simp: hdr_ok_def hdr_valid_def hdr_of_def valid_name_def valid_value_def)


section \<open>Properties\<close>

text \<open>
  C33. The decoder accepts a wire, and shows the caller the headers \<open>hs\<close>, exactly when the wire
  is at most 6144 bytes long, its nonempty semicolon-separated items are the raw-Base64 texts
  of the pairs \<open>hs\<close>, every name is a token, no value has a control byte, there are at most
  \<open>min slots 32\<close> pairs and their bytes fit \<open>min cap 4096\<close>. The entries are read back through
  the spans after the whole loop, so no later item overwrites an earlier one.
\<close>

theorem headers_decode_accepts_exactly:
  assumes "\<not> bytes_bad wire" "cap \<le> length arena" "slots \<le> length es"
  shows "(\<exists>k arena' es'. cf_headers_decode wire (Some es) slots (Some arena) cap (Some n)
            = Some (CF_OK, Some k, Some arena', Some es') \<and> headers_view arena' es' k = map hdr_view hs)
    \<longleftrightarrow> bytes_len wire \<le> CF_HEADER_WIRE_MAX
        \<and> decodes_to (bytes_list wire) (min slots CF_HEADER_COUNT_MAX) (min cap CF_HEADER_DECODED_MAX) hs"
    (is "?lhs \<longleftrightarrow> ?rhs")
  using assms
proof (cases rule: headers_decode_cases [where k = n])
  case (ok gs)
  have "headers_view (splice arena 0 (hdr_bytes gs)) (splice es 0 (hdr_spans 0 gs)) (length gs) = map hdr_view gs"
    using ok(2) assms by (intro headers_view_decoded) (simp_all add: decodes_to_def)
  then have "?lhs \<longleftrightarrow> map hdr_view gs = map hdr_view hs" by (simp add: ok(3))
  also have "\<dots> \<longleftrightarrow> gs = hs" using map_hdr_view_inject by blast
  also have "\<dots> \<longleftrightarrow> ?rhs" using ok(1,2) decodes_to_unique by blast
  finally show ?thesis .
next
  case (err rc ys zs)
  then show ?thesis by auto
qed

lemma decodes_to_example:
  "decodes_to (str '';QQ:Qg;'') 1 3 [([65], [66])]"
proof -
  have "items (str '';QQ:Qg;'') = map hdr_item [([65], [66])]"
    by (simp add: items_def hdr_item_def str_def b64_text_def b64_raw_def alphabet_def)
  moreover have "list_all hdr_valid [([65], [66])]"
    by (simp add: hdr_valid_def valid_name_def valid_value_def field_name_char_def)
  ultimately show ?thesis by (simp add: decodes_to_def)
qed

theorem headers_decode_accepts_exactly_witness:
  "\<exists>k arena' es'. cf_headers_decode (Bytes (str '';QQ:Qg;'')) (Some [\<lparr>sname = (0, 0), svalue = (0, 0)\<rparr>]) 1
       (Some [0, 0, 0]) 3 (Some 5) = Some (CF_OK, Some k, Some arena', Some es')
     \<and> headers_view arena' es' k = map hdr_view [([65], [66])]"
  by (rule headers_decode_accepts_exactly [THEN iffD2])
    (use decodes_to_example in \<open>simp_all add: str_def CF_HEADER_WIRE_MAX_def CF_HEADER_COUNT_MAX_def CF_HEADER_DECODED_MAX_def\<close>)

text \<open>
  Whatever the wire, the decoder terminates, writes only into the first \<open>min cap 4096\<close>
  bytes of the arena and the first \<open>min slots 32\<close> entries, and reports no entries on failure.
\<close>

theorem headers_decode_memory_safe:
  assumes "\<not> bytes_bad wire" "cap \<le> length arena" "slots \<le> length es"
  shows "\<exists>rc k ys zs. cf_headers_decode wire (Some es) slots (Some arena) cap (Some n)
       = Some (rc, Some k, Some (splice arena 0 ys), Some (splice es 0 zs))
     \<and> length ys \<le> min cap CF_HEADER_DECODED_MAX \<and> length zs \<le> min slots CF_HEADER_COUNT_MAX
     \<and> k \<le> length zs \<and> (rc \<noteq> CF_OK \<longrightarrow> k = 0)"
  using assms
proof (cases rule: headers_decode_cases [where k = n])
  case (ok gs)
  then show ?thesis by (fastforce simp: decodes_to_def)
next
  case (err rc ys zs)
  then show ?thesis by fastforce
qed

theorem headers_decode_memory_safe_witness:
  "\<exists>rc k ys zs. cf_headers_decode (Bytes (str ''QQ:Qg;Q'')) (Some [\<lparr>sname = (0, 0), svalue = (0, 0)\<rparr>]) 1
       (Some [0, 0, 0]) 2 (Some 5)
     = Some (rc, Some k, Some (splice [0, 0, 0] 0 ys), Some (splice [\<lparr>sname = (0, 0), svalue = (0, 0)\<rparr>] 0 zs))"
  using headers_decode_memory_safe [of "Bytes (str ''QQ:Qg;Q'')" 2 "[0, 0, 0]" 1 "[\<lparr>sname = (0, 0), svalue = (0, 0)\<rparr>]" 5]
  by auto

text \<open>
  The encoder writes exactly the joined items, and its length, when there are at most 32
  valid headers of at most 4096 bytes whose text fits both the buffer and 6144 bytes; otherwise
  it fails with nothing written. In particular the inner Base64 calls, whose return codes
  the C code discards, never fail.
\<close>

theorem headers_encode_exact:
  assumes "cap \<le> SIZE_MAX" "cap \<le> length m"
  shows "cf_headers_encode (Headers hs) (Some m) cap (Some w) \<noteq> None
    \<and> (cf_headers_encode (Headers hs) (Some m) cap (Some w) = Some (CF_OK, m', k) \<longleftrightarrow>
    (let t = hdr_wire (map hdr_of hs) in
     length hs \<le> CF_HEADER_COUNT_MAX \<and> list_all hdr_ok hs \<and> hdr_size (map hdr_of hs) \<le> CF_HEADER_DECODED_MAX
     \<and> length t \<le> min cap CF_HEADER_WIRE_MAX \<and> m' = Some (splice m 0 t) \<and> k = Some (length t)))"
  using headers_encode_eq [of "Some m" cap "Headers hs" hs w] assms by (auto simp: Let_def split: if_splits)

theorem headers_encode_exact_witness:
  "cf_headers_encode (Headers [\<lparr>hname = Bytes [65], hvalue = Bytes [66]\<rparr>]) (Some [0, 0, 0, 0, 0, 0]) 6 (Some 0)
     = Some (CF_OK, Some (str ''QQ:Qg'' @ [0]), Some 5)"
  by (rule headers_encode_exact [THEN conjunct2, THEN iffD2])
    (simp_all add: SIZE_MAX_def CF_HEADER_WIRE_MAX_def CF_HEADER_COUNT_MAX_def CF_HEADER_DECODED_MAX_def hdr_ok_def
      valid_name_def valid_value_def field_name_char_def hdr_item_def hdr_of_def Let_def splice_def str_def
      b64_text_def b64_raw_def alphabet_def)

text \<open>
  C34. Round trip: what the encoder accepts and writes, the decoder accepts, and the caller then
  sees the same headers in the same order.
\<close>

theorem headers_round_trip:
  assumes "cf_headers_encode (Headers hs) (Some m) cap (Some w) = Some (CF_OK, Some m', Some k)"
    and "cap \<le> length m" "cap \<le> SIZE_MAX"
    and "hdr_size (map hdr_of hs) \<le> acap" "acap \<le> length arena" "length hs \<le> slots" "slots \<le> length es"
  shows "\<exists>arena' es'. cf_headers_decode (Bytes (take k m')) (Some es) slots (Some arena) acap (Some n)
      = Some (CF_OK, Some (length hs), Some arena', Some es')
    \<and> headers_view arena' es' (length hs) = map (hdr_view \<circ> hdr_of) hs"
proof -
  let ?hs = "map hdr_of hs" let ?t = "hdr_wire ?hs"
  have e: "length hs \<le> CF_HEADER_COUNT_MAX" "list_all hdr_ok hs" "hdr_size ?hs \<le> CF_HEADER_DECODED_MAX"
    "length ?t \<le> min cap CF_HEADER_WIRE_MAX" "m' = splice m 0 ?t" "k = length ?t"
    using headers_encode_eq [of "Some m" cap "Headers hs" hs w] assms(1-3) by (auto split: if_splits)
  have w: "take k m' = ?t" using e assms(2) by (simp add: splice_def)
  have "list_all hdr_valid ?hs" using e(2) by (auto simp: list_all_iff intro: hdr_ok_valid)
  then have "decodes_to ?t (min slots CF_HEADER_COUNT_MAX) (min acap CF_HEADER_DECODED_MAX) ?hs"
    using e assms(4,6) by (simp add: decodes_to_def items_wire)
  moreover have "headers_view (splice arena 0 (hdr_bytes ?hs)) (splice es 0 (hdr_spans 0 ?hs)) (length hs) = map hdr_view ?hs"
    using headers_view_decoded [of ?hs arena es] assms(4-7) by simp
  moreover have "\<not> bytes_bad (Bytes ?t)" by simp
  ultimately show ?thesis
    using e(4) unfolding w by (cases rule: headers_decode_cases [OF _ assms(5,7), of "Bytes ?t" n])
      (auto dest: decodes_to_unique)
qed

theorem headers_round_trip_witness:
  "\<exists>arena' es'. cf_headers_decode (Bytes (take 5 (str ''QQ:Qg'' @ [0]))) (Some [\<lparr>sname = (0, 0), svalue = (0, 0)\<rparr>]) 1
       (Some [0, 0]) 2 (Some 0) = Some (CF_OK, Some (length [\<lparr>hname = Bytes [65], hvalue = Bytes [66]\<rparr>]), Some arena', Some es')
     \<and> headers_view arena' es' (length [\<lparr>hname = Bytes [65], hvalue = Bytes [66]\<rparr>])
         = map (hdr_view \<circ> hdr_of) [\<lparr>hname = Bytes [65], hvalue = Bytes [66]\<rparr>]"
proof (rule headers_round_trip)
  show "cf_headers_encode (Headers [\<lparr>hname = Bytes [65], hvalue = Bytes [66]\<rparr>]) (Some [0, 0, 0, 0, 0, 0]) 6 (Some 0)
      = Some (CF_OK, Some (str ''QQ:Qg'' @ [0]), Some 5)"
    using headers_encode_eq [of "Some [0, 0, 0, 0, 0, 0]" 6 _ "[\<lparr>hname = Bytes [65], hvalue = Bytes [66]\<rparr>]" 0, OF _ _ _ refl]
    by (simp add: SIZE_MAX_def CF_HEADER_WIRE_MAX_def CF_HEADER_COUNT_MAX_def CF_HEADER_DECODED_MAX_def hdr_ok_def
      valid_name_def valid_value_def field_name_char_def hdr_item_def hdr_of_def splice_def str_def
      b64_text_def b64_raw_def alphabet_def)
qed (simp_all add: hdr_of_def SIZE_MAX_def)

end
