(* ===== verification/CF_Lifecycle.thy ===== *)
theory CF_Lifecycle
  imports CF_Prelude
begin

text \<open>
  The connection lifecycle of \<^verbatim>\<open>src/cf_lifecycle.c\<close>: a pure reducer over the state of
  one tunnel. The theory has the reducer's operations, the labelled transition system of all
  sequences of calls, the state invariant, and the properties a supervisor relies on: what
  being online means, the back-off discipline, the terminal states and recovery.
\<close>

section \<open>State and operations\<close>

datatype cf_state =
    CF_STOPPED | CF_WAIT_NETWORK | CF_WAIT_TIME | CF_DISCOVERY | CF_CONNECT
  | CF_TLS | CF_HTTP2 | CF_REGISTERING | CF_WAIT_CONFIG | CF_ONLINE
  | CF_BACKOFF | CF_AUTH_FAILED | CF_CONFIG_FAILED | CF_STOPPING

text \<open>\<open>CF_EVENT_INVALID\<close> stands for every integer that is not an enumerator.\<close>

datatype cf_lifecycle_event =
    CF_EVENT_DISCOVERED | CF_EVENT_CONNECTED | CF_EVENT_TLS_READY
  | CF_EVENT_HTTP2_READY | CF_EVENT_REGISTERED | CF_EVENT_CONFIG_APPLIED
  | CF_EVENT_AUTH_REJECTED | CF_EVENT_CONFIG_REJECTED | CF_EVENT_INVALID

record cf_lifecycle =
  state :: cf_state
  network_ready :: bool
  time_ready :: bool
  registered :: bool
  configured :: bool
  failures :: u32
  retry_at_ms :: u64

definition waiting :: "cf_lifecycle \<Rightarrow> cf_state" where
  "waiting l = (if \<not> network_ready l then CF_WAIT_NETWORK
                else if \<not> time_ready l then CF_WAIT_TIME else CF_DISCOVERY)"

definition terminal :: "cf_state \<Rightarrow> bool" where
  "terminal s \<longleftrightarrow> s = CF_STOPPED \<or> s = CF_STOPPING \<or> s = CF_AUTH_FAILED"

text \<open>Every operation takes a pointer, here an option, and returns the object after the call.\<close>

definition zeroed :: cf_lifecycle where
  "zeroed = \<lparr>state = CF_STOPPED, network_ready = False, time_ready = False, registered = False,
     configured = False, failures = 0, retry_at_ms = 0\<rparr>"

definition cf_lifecycle_init :: "cf_lifecycle option \<Rightarrow> cf_lifecycle option" where
  "cf_lifecycle_init lp = (case lp of None \<Rightarrow> None | Some l \<Rightarrow> Some (zeroed\<lparr>state := CF_STOPPED\<rparr>))"

definition cf_lifecycle_start :: "cf_lifecycle option \<Rightarrow> cf_result \<times> cf_lifecycle option" where
  "cf_lifecycle_start lp = (case lp of None \<Rightarrow> (CF_ERR_ARGUMENT, None) | Some l \<Rightarrow>
     if state l \<noteq> CF_STOPPED then (CF_ERR_STATE, Some l)
     else let l = l\<lparr>registered := False, configured := False, failures := 0, retry_at_ms := 0\<rparr>
          in (CF_OK, Some (l\<lparr>state := waiting l\<rparr>)))"

definition cf_lifecycle_environment :: "cf_lifecycle option \<Rightarrow> bool \<Rightarrow> bool \<Rightarrow> cf_lifecycle option" where
  "cf_lifecycle_environment lp network time_valid = (case lp of None \<Rightarrow> None | Some l \<Rightarrow>
     let l = l\<lparr>network_ready := network, time_ready := time_valid\<rparr> in
     if terminal (state l) then Some l
     else if \<not> network \<or> \<not> time_valid then
       let l = l\<lparr>registered := False, configured := False\<rparr> in
       if state l \<noteq> CF_BACKOFF then Some (l\<lparr>state := waiting l\<rparr>) else Some l
     else if state l = CF_WAIT_NETWORK \<or> state l = CF_WAIT_TIME then Some (l\<lparr>state := CF_DISCOVERY\<rparr>)
     else Some l)"

text \<open>The states in which the edge may still report on the registration or the configuration.\<close>

definition in_session :: "cf_state \<Rightarrow> bool" where
  "in_session s \<longleftrightarrow> \<not> (s \<noteq> CF_REGISTERING \<and> s \<noteq> CF_WAIT_CONFIG \<and> s \<noteq> CF_ONLINE \<and> s \<noteq> CF_CONFIG_FAILED)"

definition cf_lifecycle_advance :: "cf_lifecycle option \<Rightarrow> cf_lifecycle_event \<Rightarrow> cf_result \<times> cf_lifecycle option" where
  "cf_lifecycle_advance lp event = (case lp of None \<Rightarrow> (CF_ERR_ARGUMENT, None) | Some l \<Rightarrow>
     if terminal (state l) \<or> \<not> network_ready l \<or> \<not> time_ready l then (CF_ERR_STATE, Some l)
     else (case event of
       CF_EVENT_DISCOVERED \<Rightarrow>
         if state l \<noteq> CF_DISCOVERY then (CF_ERR_STATE, Some l) else (CF_OK, Some (l\<lparr>state := CF_CONNECT\<rparr>))
     | CF_EVENT_CONNECTED \<Rightarrow>
         if state l \<noteq> CF_CONNECT then (CF_ERR_STATE, Some l) else (CF_OK, Some (l\<lparr>state := CF_TLS\<rparr>))
     | CF_EVENT_TLS_READY \<Rightarrow>
         if state l \<noteq> CF_TLS then (CF_ERR_STATE, Some l) else (CF_OK, Some (l\<lparr>state := CF_HTTP2\<rparr>))
     | CF_EVENT_HTTP2_READY \<Rightarrow>
         if state l \<noteq> CF_HTTP2 then (CF_ERR_STATE, Some l) else (CF_OK, Some (l\<lparr>state := CF_REGISTERING\<rparr>))
     | CF_EVENT_REGISTERED \<Rightarrow>
         if state l \<noteq> CF_REGISTERING \<and> state l \<noteq> CF_CONFIG_FAILED then (CF_ERR_STATE, Some l)
         else let l = l\<lparr>registered := True\<rparr> in
           (CF_OK, Some (l\<lparr>state := if configured l then CF_ONLINE
              else if state l = CF_CONFIG_FAILED then CF_CONFIG_FAILED else CF_WAIT_CONFIG\<rparr>))
     | CF_EVENT_CONFIG_APPLIED \<Rightarrow>
         if \<not> in_session (state l) then (CF_ERR_STATE, Some l)
         else let l = l\<lparr>configured := True\<rparr> in
           (CF_OK, Some (l\<lparr>state := if registered l then CF_ONLINE else CF_REGISTERING\<rparr>))
     | CF_EVENT_AUTH_REJECTED \<Rightarrow>
         if \<not> in_session (state l) then (CF_ERR_STATE, Some l)
         else (CF_OK, Some (l\<lparr>registered := False, configured := False, state := CF_AUTH_FAILED\<rparr>))
     | CF_EVENT_CONFIG_REJECTED \<Rightarrow>
         if \<not> in_session (state l) then (CF_ERR_STATE, Some l)
         else (CF_OK, Some (if \<not> configured l then l\<lparr>state := CF_CONFIG_FAILED\<rparr> else l))
     | CF_EVENT_INVALID \<Rightarrow> (CF_ERR_ARGUMENT, Some l)))"

text \<open>The 32-bit back-off computation: the ceiling, then equal jitter and the server's hint.\<close>

definition ceiling_of :: "u32 \<Rightarrow> u32" where
  "ceiling_of f = (let shift = (if f < 6 then f else 6); c = push_bit (unat shift) 1000
                   in if c > 60000 then 60000 else c)"

definition delay_of :: "u32 \<Rightarrow> u32 \<Rightarrow> u32 \<Rightarrow> u32" where
  "delay_of f hint random = (let c = ceiling_of f; delay = c div 2 + random mod (c div 2 + 1)
                             in if delay < hint then hint else delay)"

definition cf_lifecycle_retry :: "cf_lifecycle option \<Rightarrow> u64 \<Rightarrow> u32 \<Rightarrow> u32 \<Rightarrow> cf_result \<times> cf_lifecycle option" where
  "cf_lifecycle_retry lp now hint random = (case lp of None \<Rightarrow> (CF_ERR_ARGUMENT, None) | Some l \<Rightarrow>
     if terminal (state l) \<or> state l = CF_BACKOFF \<or> state l = CF_WAIT_NETWORK \<or> state l = CF_WAIT_TIME
     then (CF_ERR_STATE, Some l)
     else let delay = delay_of (failures l) hint random in
       (CF_OK, Some (l\<lparr>
          retry_at_ms := if now > - 1 - ucast delay then - 1 else now + ucast delay,
          failures := if failures l < - 1 then failures l + 1 else failures l,
          registered := False, configured := False, state := CF_BACKOFF\<rparr>)))"

definition cf_lifecycle_tick :: "cf_lifecycle option \<Rightarrow> u64 \<Rightarrow> cf_lifecycle option" where
  "cf_lifecycle_tick lp now = (case lp of None \<Rightarrow> None | Some l \<Rightarrow>
     if state l = CF_BACKOFF \<and> now \<ge> retry_at_ms l then Some (l\<lparr>state := waiting l\<rparr>) else Some l)"

definition cf_lifecycle_stop :: "cf_lifecycle option \<Rightarrow> cf_lifecycle option" where
  "cf_lifecycle_stop lp = (case lp of None \<Rightarrow> None | Some l \<Rightarrow>
     Some (l\<lparr>registered := False, configured := False, state := CF_STOPPED, retry_at_ms := 0\<rparr>))"

section \<open>Sequences of calls\<close>

text \<open>
  The calls a supervisor may make, their effect on a valid object, and the inductive relation
  between a sequence of calls and the object it leaves, starting with \<open>cf_lifecycle_init\<close>.
\<close>

datatype life_op = Start | Env bool bool | Advance cf_lifecycle_event | Retry u64 u32 u32 | Tick u64 | Stop

primrec exec_op :: "life_op \<Rightarrow> cf_lifecycle \<Rightarrow> cf_lifecycle" where
  "exec_op Start l = the (snd (cf_lifecycle_start (Some l)))"
| "exec_op (Env n t) l = the (cf_lifecycle_environment (Some l) n t)"
| "exec_op (Advance e) l = the (snd (cf_lifecycle_advance (Some l) e))"
| "exec_op (Retry now hint random) l = the (snd (cf_lifecycle_retry (Some l) now hint random))"
| "exec_op (Tick now) l = the (cf_lifecycle_tick (Some l) now)"
| "exec_op Stop l = the (cf_lifecycle_stop (Some l))"

definition run :: "life_op list \<Rightarrow> cf_lifecycle \<Rightarrow> cf_lifecycle" where
  "run ops l = fold exec_op ops l"

inductive trace :: "life_op list \<Rightarrow> cf_lifecycle \<Rightarrow> bool" where
  trace_init: "cf_lifecycle_init (Some l0) = Some l \<Longrightarrow> trace [] l"
| trace_step: "trace ops l \<Longrightarrow> trace (ops @ [oper]) (exec_op oper l)"

text \<open>The states of an attempt in progress; they require network and time.\<close>

definition active :: "cf_state \<Rightarrow> bool" where
  "active s \<longleftrightarrow> s \<in> {CF_DISCOVERY, CF_CONNECT, CF_TLS, CF_HTTP2, CF_REGISTERING, CF_WAIT_CONFIG, CF_ONLINE, CF_CONFIG_FAILED}"

definition life_inv :: "cf_lifecycle \<Rightarrow> bool" where
  "life_inv l \<longleftrightarrow>
     (active (state l) \<longrightarrow> network_ready l \<and> time_ready l) \<and>
     (state l = CF_WAIT_NETWORK \<longrightarrow> \<not> network_ready l) \<and>
     (state l = CF_WAIT_TIME \<longrightarrow> network_ready l \<and> \<not> time_ready l) \<and>
     (registered l \<longrightarrow> state l \<in> {CF_WAIT_CONFIG, CF_ONLINE, CF_CONFIG_FAILED}) \<and>
     (configured l \<longrightarrow> state l \<in> {CF_REGISTERING, CF_ONLINE}) \<and>
     (state l = CF_ONLINE \<longrightarrow> registered l \<and> configured l) \<and>
     (state l = CF_WAIT_CONFIG \<longrightarrow> registered l) \<and>
     state l \<noteq> CF_STOPPING"

text \<open>Calls after which an earlier registration or configuration is still current.\<close>

fun quiet :: "life_op \<Rightarrow> bool" where
  "quiet Stop = False"
| "quiet (Retry now hint random) = False"
| "quiet (Env n t) = (n \<and> t)"
| "quiet (Advance e) = (e \<noteq> CF_EVENT_AUTH_REJECTED)"
| "quiet Start = True"
| "quiet (Tick now) = True"

definition current :: "cf_lifecycle_event \<Rightarrow> life_op list \<Rightarrow> bool" where
  "current e ops \<longleftrightarrow> (\<exists>pre post. ops = pre @ Advance e # post \<and> list_all quiet post)"

text \<open>The only calls that can end a back-off: a stop, or a tick at or after the deadline.\<close>

definition before :: "u64 \<Rightarrow> life_op \<Rightarrow> bool" where
  "before deadline oper \<longleftrightarrow> oper \<noteq> Stop \<and> (\<forall>now. oper = Tick now \<longrightarrow> now < deadline)"

abbreviation climb :: "life_op list" where
  "climb \<equiv> map Advance [CF_EVENT_DISCOVERED, CF_EVENT_CONNECTED, CF_EVENT_TLS_READY, CF_EVENT_HTTP2_READY,
     CF_EVENT_REGISTERED, CF_EVENT_CONFIG_APPLIED]"

text \<open>
  One recovery plan for every state that is not terminal: the environment is ready, give up the
  attempt if there is one, wait out the deadline, connect.
\<close>

definition recover :: "life_op list" where
  "recover = [Env True True, Retry 0 0 0, Tick (- 1)] @ climb"

section \<open>The invariant\<close>

lemmas life_defs = cf_lifecycle_start_def cf_lifecycle_environment_def cf_lifecycle_advance_def
  cf_lifecycle_retry_def cf_lifecycle_tick_def cf_lifecycle_stop_def waiting_def terminal_def in_session_def Let_def

lemma init_inv: "cf_lifecycle_init (Some l0) = Some l \<Longrightarrow> life_inv l"
  by (auto simp: cf_lifecycle_init_def zeroed_def life_inv_def active_def)

lemma advance_inv: "life_inv l \<Longrightarrow> life_inv (exec_op (Advance e) l)"
  by (cases e; cases "state l") (auto simp: life_defs life_inv_def active_def)

lemma env_inv: "life_inv l \<Longrightarrow> life_inv (exec_op (Env n t) l)"
  by (cases "state l"; cases n; cases t) (simp_all add: life_defs life_inv_def active_def)

lemma retry_inv: "life_inv l \<Longrightarrow> life_inv (exec_op (Retry now hint random) l)"
  by (cases "state l") (simp_all add: life_defs life_inv_def active_def)

lemma tick_inv: "life_inv l \<Longrightarrow> life_inv (exec_op (Tick now) l)"
  by (cases "state l") (auto simp: life_defs life_inv_def active_def)

lemma exec_op_inv: "life_inv l \<Longrightarrow> life_inv (exec_op oper l)"
proof (cases oper)
  case Start
  then show "life_inv l \<Longrightarrow> ?thesis" by (cases "state l") (auto simp: life_defs life_inv_def active_def)
next
  case Stop
  then show ?thesis by (simp add: life_defs life_inv_def active_def)
qed (simp_all only: advance_inv env_inv retry_inv tick_inv)

interpretation life: reducer "\<lambda>l. \<exists>l0. cf_lifecycle_init (Some l0) = Some l" exec_op life_inv
  by unfold_locales (auto intro: init_inv exec_op_inv)

lemma trace_inv: "trace ops l \<Longrightarrow> life_inv l"
  by (induction rule: trace.induct) (auto intro: life.inv_start life.inv_step)


lemma run_Nil [simp]: "run [] l = l" and run_Cons [simp]: "run (oper # ops) l = run ops (exec_op oper l)"
  by (simp_all add: run_def)

lemma trace_run: "trace ops l \<Longrightarrow> \<exists>l0. cf_lifecycle_init (Some l0) = Some l0 \<and> run ops l0 = l"
proof (induction rule: trace.induct)
  case (trace_init l0 l)
  then show ?case by (auto simp: cf_lifecycle_init_def)
qed (auto simp: run_def)

lemma run_trace: "trace (pre :: life_op list) l \<Longrightarrow> trace (pre @ ops) (run ops l)"
proof (induction ops arbitrary: pre l)
  case (Cons oper ops)
  then show ?case using Cons.IH [OF trace_step [OF Cons.prems, of oper]] by simp
qed simp

section \<open>What being online means\<close>

lemma current_new: "current e (ops @ [Advance e])"
  unfolding current_def by (intro exI [of _ ops] exI [of _ "[]"]) simp

lemma current_quiet: "current e ops \<Longrightarrow> quiet oper \<Longrightarrow> current e (ops @ [oper])"
proof -
  assume "current e ops" "quiet oper"
  then obtain pre post where "ops = pre @ Advance e # post" "list_all quiet post"
    by (auto simp: current_def)
  with \<open>quiet oper\<close> show ?thesis
    unfolding current_def by (intro exI [of _ pre] exI [of _ "post @ [oper]"]) simp
qed

text \<open>A flag that is set after a call was set by it, or was set before a quiet call.\<close>

lemma registered_step:
  "life_inv l \<Longrightarrow> registered (exec_op oper l) \<Longrightarrow> oper = Advance CF_EVENT_REGISTERED \<or> (registered l \<and> quiet oper)"
  by (cases oper; cases "state l") (auto simp: life_defs life_inv_def active_def split: if_splits cf_lifecycle_event.splits)

lemma configured_step:
  "life_inv l \<Longrightarrow> configured (exec_op oper l) \<Longrightarrow> oper = Advance CF_EVENT_CONFIG_APPLIED \<or> (configured l \<and> quiet oper)"
  by (cases oper; cases "state l") (auto simp: life_defs life_inv_def active_def split: if_splits cf_lifecycle_event.splits)

lemma flags_current:
  "trace ops l \<Longrightarrow> (registered l \<longrightarrow> current CF_EVENT_REGISTERED ops) \<and> (configured l \<longrightarrow> current CF_EVENT_CONFIG_APPLIED ops)"
proof (induction rule: trace.induct)
  case (trace_init l0 l)
  then show ?case by (auto simp: cf_lifecycle_init_def zeroed_def)
next
  case (trace_step ops l oper)
  from trace_step.hyps have "life_inv l" by (rule trace_inv)
  with trace_step.IH show ?case
    by (blast dest: registered_step configured_step intro: current_new current_quiet)
qed

section \<open>Back-off\<close>

lemma ceiling_cases: "unat (ceiling_of f) \<in> {1000, 2000, 4000, 8000, 16000, 32000, 60000}"
  and ceiling_value: "unat (ceiling_of f) = min 60000 (1000 * 2 ^ min (unat f) 6)"
proof -
  have *: "unat (ceiling_of f) = min 60000 (1000 * 2 ^ min (unat f) 6) \<and> unat (ceiling_of f) \<in> {1000, 2000, 4000, 8000, 16000, 32000, 60000}"
  proof (cases "f < 6")
    case True
    then have "unat f < 6" by (simp add: word_less_nat_alt)
    then consider "unat f = 0" | "unat f = 1" | "unat f = 2" | "unat f = 3" | "unat f = 4" | "unat f = 5" by linarith
    then show ?thesis using True by cases (simp_all add: ceiling_of_def push_bit_eq_mult)
  next
    case False
    then have "\<not> unat f < 6" by (simp add: word_less_nat_alt)
    then show ?thesis using False by (simp add: ceiling_of_def push_bit_eq_mult min_def)
  qed
  from * show "unat (ceiling_of f) \<in> {1000, 2000, 4000, 8000, 16000, 32000, 60000}" by (rule conjunct2)
  from * show "unat (ceiling_of f) = min 60000 (1000 * 2 ^ min (unat f) 6)" by (rule conjunct1)
qed

lemma delay_bounds:
  fixes f hint random :: u32
  defines "c \<equiv> unat (ceiling_of f)"
  shows "max (unat hint) (c div 2) \<le> unat (delay_of f hint random)" "unat (delay_of f hint random) \<le> max (unat hint) c"
proof -
  let ?h = "ceiling_of f div 2" let ?d = "?h + random mod (?h + 1)"
  have c: "c \<in> {1000, 2000, 4000, 8000, 16000, 32000, 60000}" unfolding c_def by (rule ceiling_cases)
  then have even: "2 * (c div 2) = c" and small: "c \<le> 60000" and pos: "0 < c div 2" by auto
  have h: "unat ?h = c div 2" by (simp add: c_def unat_div)
  have h1: "unat (?h + 1) = c div 2 + 1"
    using small by (subst unat_word_ariths) (simp add: h)
  have m: "unat (random mod (?h + 1)) \<le> c div 2"
    by (simp add: unat_mod h1)
  have "unat ?d = c div 2 + unat (random mod (?h + 1))"
    using small m by (subst unat_word_ariths) (simp add: h)
  then have d: "c div 2 \<le> unat ?d" "unat ?d \<le> c" using m even by linarith+
  show "max (unat hint) (c div 2) \<le> unat (delay_of f hint random)" "unat (delay_of f hint random) \<le> max (unat hint) c"
    using d by (auto simp: delay_of_def Let_def word_less_nat_alt)
qed


lemma deadline_saturates:
  fixes now :: u64 and d :: u32
  shows "unat (if now > - 1 - ucast d then - 1 else now + ucast d) = min (2 ^ 64 - 1) (unat now + unat d)"
proof -
  have d: "unat (ucast d :: u64) = unat d" using u32_less [of d] by (simp add: unsigned_ucast_eq take_bit_nat_eq_self)
  have top: "unat (- 1 - ucast d :: u64) = 2 ^ 64 - 1 - unat d"
    by (subst unat_sub) (simp_all add: d unat_max)
  have n: "unat now < 2 ^ 64" using u64_less [of now] by simp
  show ?thesis
  proof (cases "now > - 1 - ucast d")
    case True
    then have "2 ^ 64 - 1 - unat d < unat now" by (simp add: word_less_nat_alt top)
    then show ?thesis using True by (simp add: unat_max)
  next
    case False
    then have le: "unat now \<le> 2 ^ 64 - 1 - unat d" by (simp add: word_less_nat_alt top)
    have "unat d < 2 ^ 32" using u32_less [of d] by simp
    with le have "unat now + unat d < 2 ^ 64" by simp
    then have "unat (now + ucast d) = unat now + unat d" by (subst unat_word_ariths) (simp add: d)
    then show ?thesis using False le \<open>unat now + unat d < 2 ^ 64\<close> by simp
  qed
qed

lemma retry_deadline:
  assumes "active (state l)" "exec_op (Retry now hint random) l = l'"
  shows "state l' = CF_BACKOFF" "\<not> registered l'" "\<not> configured l'"
    "unat (retry_at_ms l') = min (2 ^ 64 - 1) (unat now + unat (delay_of (failures l) hint random))"
    "unat (failures l') = min (2 ^ 32 - 1) (unat (failures l) + 1)"
proof -
  have ok: "\<not> (terminal (state l) \<or> state l = CF_BACKOFF \<or> state l = CF_WAIT_NETWORK \<or> state l = CF_WAIT_TIME)"
    using assms(1) by (auto simp: active_def terminal_def)
  have l': "l' = l\<lparr>retry_at_ms := if now > - 1 - ucast (delay_of (failures l) hint random) then - 1
        else now + ucast (delay_of (failures l) hint random),
      failures := if failures l < - 1 then failures l + 1 else failures l,
      registered := False, configured := False, state := CF_BACKOFF\<rparr>"
    using assms(2) ok by (simp add: cf_lifecycle_retry_def Let_def)
  show "state l' = CF_BACKOFF" "\<not> registered l'" "\<not> configured l'" by (simp_all add: l')
  show "unat (retry_at_ms l') = min (2 ^ 64 - 1) (unat now + unat (delay_of (failures l) hint random))"
    using deadline_saturates by (simp add: l')
  show "unat (failures l') = min (2 ^ 32 - 1) (unat (failures l) + 1)"
  proof (cases "failures l < - 1")
    case True
    then have "unat (failures l) < 2 ^ 32 - 1" by (simp add: word_less_nat_alt unat_max)
    then show ?thesis using True by (simp add: l' unat_word_ariths)
  next
    case False
    then have "unat (failures l) = 2 ^ 32 - 1"
      using u32_less [of "failures l"] by (simp add: word_less_nat_alt unat_max)
    then show ?thesis using False by (simp add: l')
  qed
qed

lemma backoff_step:
  "state l = CF_BACKOFF \<Longrightarrow> before (retry_at_ms l) oper \<Longrightarrow>
     state (exec_op oper l) = CF_BACKOFF \<and> retry_at_ms (exec_op oper l) = retry_at_ms l \<and> failures (exec_op oper l) = failures l"
  by (cases oper) (auto simp: life_defs before_def split: cf_lifecycle_event.splits)

lemma backoff_run:
  "state l = CF_BACKOFF \<Longrightarrow> list_all (before (retry_at_ms l)) ops \<Longrightarrow>
     state (run ops l) = CF_BACKOFF \<and> retry_at_ms (run ops l) = retry_at_ms l \<and> failures (run ops l) = failures l"
proof (induction ops arbitrary: l)
  case (Cons oper ops)
  then show ?case using backoff_step [of l oper] Cons.IH [of "exec_op oper l"] by simp
qed simp

lemma auth_failed_step: "state l = CF_AUTH_FAILED \<Longrightarrow> oper \<noteq> Stop \<Longrightarrow> state (exec_op oper l) = CF_AUTH_FAILED"
  by (cases oper) (auto simp: life_defs)

section \<open>Recovery\<close>

lemma climb_online:
  "state l = CF_DISCOVERY \<Longrightarrow> network_ready l \<Longrightarrow> time_ready l \<Longrightarrow> state (run climb l) = CF_ONLINE"
  by (simp add: life_defs)

lemma recover_online:
  assumes "\<not> terminal (state l)"
  shows "state (run recover l) = CF_ONLINE"
proof -
  let ?l1 = "exec_op (Env True True) l" let ?l2 = "exec_op (Retry 0 0 0) ?l1" let ?l3 = "exec_op (Tick (- 1)) ?l2"
  have r1: "network_ready ?l1 \<and> time_ready ?l1 \<and> (state ?l1 = CF_BACKOFF \<or> active (state ?l1))"
    using assms by (cases "state l") (auto simp: life_defs active_def)
  then have r2: "network_ready ?l2 \<and> time_ready ?l2 \<and> state ?l2 = CF_BACKOFF"
    by (auto simp: cf_lifecycle_retry_def terminal_def active_def Let_def)
  then have "state ?l3 = CF_DISCOVERY" "network_ready ?l3" "time_ready ?l3"
    by (auto simp: cf_lifecycle_tick_def waiting_def word_order.extremum)
  then have "state (run climb ?l3) = CF_ONLINE" by (rule climb_online)
  then show ?thesis by (simp add: recover_def)
qed


section \<open>Properties\<close>

lemma trace_example:
  "trace ([Start, Env True True] @ climb) (run ([Start, Env True True] @ climb) zeroed)"
  "state (run ([Start, Env True True] @ climb) zeroed) = CF_ONLINE"
proof -
  have "trace [] zeroed" by (rule trace_init [of zeroed]) (simp add: cf_lifecycle_init_def zeroed_def)
  then show "trace ([Start, Env True True] @ climb) (run ([Start, Env True True] @ climb) zeroed)"
    using run_trace [of "[]" zeroed "[Start, Env True True] @ climb"] by (simp only: append_Nil)
  show "state (run ([Start, Env True True] @ climb) zeroed) = CF_ONLINE"
    by (simp add: life_defs zeroed_def)
qed

text \<open>
  C32. The object is online only when the network and the clock are ready and both a
  registration and a configuration were reported in the current session: since each of the two
  reports there was no stop, no retry, no authentication failure and no loss of network or
  time. A TLS handshake alone never makes it online.
\<close>

theorem lifecycle_online_is_current:
  assumes "trace ops l" "state l = CF_ONLINE"
  shows "network_ready l \<and> time_ready l \<and> current CF_EVENT_REGISTERED ops \<and> current CF_EVENT_CONFIG_APPLIED ops"
  using trace_inv [OF assms(1)] flags_current [OF assms(1)] assms(2) by (simp add: life_inv_def active_def)

theorem lifecycle_online_is_current_witness:
  "current CF_EVENT_REGISTERED ([Start, Env True True] @ climb)"
  using lifecycle_online_is_current [OF trace_example] by blast

text \<open>
  The state invariant holds after every sequence of calls: the stored state agrees with the
  four flags, so that for instance the object is online exactly when it is registered and
  configured, and \<open>CF_STOPPING\<close> is never entered.
\<close>

theorem lifecycle_invariant:
  assumes "trace ops l"
  shows "life_inv l \<and> (state l = CF_ONLINE \<longleftrightarrow> registered l \<and> configured l)"
  using trace_inv [OF assms] by (auto simp: life_inv_def)

theorem lifecycle_invariant_witness:
  "life_inv (run ([Start, Env True True] @ climb) zeroed)"
  using lifecycle_invariant [OF trace_example(1)] by blast

text \<open>
  A retry during an attempt starts a back-off whose deadline lies, saturating at the end of
  the 64-bit clock, between half the ceiling and the ceiling from now, or at the server's hint
  if that is later; the ceiling is \<open>min 60 s (1 s * 2 ^ min failures 6)\<close>. The failure counter
  saturates instead of wrapping.
\<close>

theorem lifecycle_retry_bounds:
  assumes "active (state l)" "cf_lifecycle_retry (Some l) now hint random = (rc, Some l')"
  defines "c \<equiv> min 60000 (1000 * 2 ^ min (unat (failures l)) 6)"
  shows "rc = CF_OK \<and> state l' = CF_BACKOFF
    \<and> unat (retry_at_ms l') \<ge> min (2 ^ 64 - 1) (unat now + max (unat hint) (c div 2))
    \<and> unat (retry_at_ms l') \<le> min (2 ^ 64 - 1) (unat now + max (unat hint) c)
    \<and> unat (failures l') = min (2 ^ 32 - 1) (unat (failures l) + 1)"
proof -
  have l': "exec_op (Retry now hint random) l = l'" using assms(2) by simp
  have "rc = CF_OK" using assms(1,2) by (auto simp: cf_lifecycle_retry_def Let_def terminal_def active_def split: if_splits)
  moreover note D = retry_deadline [OF assms(1) l']
  moreover have d: "max (unat hint) (c div 2) \<le> unat (delay_of (failures l) hint random)"
    "unat (delay_of (failures l) hint random) \<le> max (unat hint) c"
    using delay_bounds [where hint = hint and f = "failures l" and random = random] unfolding ceiling_value c_def by blast+
  moreover have "min (2 ^ 64 - 1) (unat now + max (unat hint) (c div 2)) \<le> unat (retry_at_ms l')"
    "unat (retry_at_ms l') \<le> min (2 ^ 64 - 1) (unat now + max (unat hint) c)"
    unfolding D(4) by (rule min.mono add_left_mono order_refl d)+
  ultimately show ?thesis by blast
qed

theorem lifecycle_retry_bounds_witness:
  "unat (retry_at_ms (the (snd (cf_lifecycle_retry (Some (zeroed\<lparr>state := CF_TLS, failures := 3\<rparr>)) 100 9000 77)))) = 9100"
proof -
  let ?l = "zeroed\<lparr>state := CF_TLS, failures := 3\<rparr>"
  have "cf_lifecycle_retry (Some ?l) 100 9000 77
      = (CF_OK, Some (the (snd (cf_lifecycle_retry (Some ?l) 100 9000 77))))"
    by (simp add: cf_lifecycle_retry_def Let_def terminal_def)
  from lifecycle_retry_bounds [OF _ this] show ?thesis by (simp add: active_def)
qed

text \<open>
  A back-off ends only by a stop or by a tick at or after its deadline: every other sequence
  of calls, network flaps and further retries included, leaves the state, the deadline and the
  failure count as they are.
\<close>

theorem lifecycle_backoff_holds:
  assumes "state l = CF_BACKOFF" "list_all (before (retry_at_ms l)) ops"
  shows "state (run ops l) = CF_BACKOFF \<and> retry_at_ms (run ops l) = retry_at_ms l \<and> failures (run ops l) = failures l"
  using assms by (rule backoff_run)

theorem lifecycle_backoff_holds_witness:
  "state (run [Env False True, Tick 41, Retry 1 2 3, Env True True, Advance CF_EVENT_DISCOVERED]
     (zeroed\<lparr>state := CF_BACKOFF, retry_at_ms := 42\<rparr>)) = CF_BACKOFF"
  using lifecycle_backoff_holds [of "zeroed\<lparr>state := CF_BACKOFF, retry_at_ms := 42\<rparr>"
      "[Env False True, Tick 41, Retry 1 2 3, Env True True, Advance CF_EVENT_DISCOVERED]"]
  by (simp add: before_def)

text \<open>
  An authentication failure is final: no call but a stop leaves \<open>CF_AUTH_FAILED\<close>.
\<close>

theorem lifecycle_auth_failure_is_final:
  assumes "state l = CF_AUTH_FAILED" "Stop \<notin> set ops"
  shows "state (run ops l) = CF_AUTH_FAILED"
  using assms by (induction ops arbitrary: l) (auto simp: auth_failed_step)

theorem lifecycle_auth_failure_is_final_witness:
  "state (run [Start, Env True True, Tick 9] (zeroed\<lparr>state := CF_AUTH_FAILED\<rparr>)) = CF_AUTH_FAILED"
  using lifecycle_auth_failure_is_final [of "zeroed\<lparr>state := CF_AUTH_FAILED\<rparr>" "[Start, Env True True, Tick 9]"] by simp

text \<open>
  C36. From every state that is not terminal the object can reach \<open>CF_ONLINE\<close> again without
  being stopped: no sequence of failures leaves it stuck.
\<close>

theorem lifecycle_can_recover:
  assumes "\<not> terminal (state l)"
  shows "\<exists>ops. Stop \<notin> set ops \<and> Start \<notin> set ops \<and> state (run ops l) = CF_ONLINE"
  using recover_online [OF assms] by (intro exI [of _ recover]) (simp add: recover_def)

theorem lifecycle_can_recover_witness:
  "\<exists>ops. Stop \<notin> set ops \<and> state (run ops (zeroed\<lparr>state := CF_CONFIG_FAILED\<rparr>)) = CF_ONLINE"
  using lifecycle_can_recover [of "zeroed\<lparr>state := CF_CONFIG_FAILED\<rparr>"] by (auto simp: terminal_def)

text \<open>
  A rejected configuration update does not change an online object: it stays online with
  the configuration applied before. Only an object without a configuration is moved to
  \<open>CF_CONFIG_FAILED\<close>.
\<close>

theorem lifecycle_rejected_update_keeps_online:
  assumes "trace ops l" "in_session (state l)"
  shows "cf_lifecycle_advance (Some l) CF_EVENT_CONFIG_REJECTED =
    (CF_OK, Some (if configured l then l else l\<lparr>state := CF_CONFIG_FAILED\<rparr>))"
proof -
  have "active (state l)" "\<not> terminal (state l)"
    using assms(2) by (cases "state l"; simp add: in_session_def active_def terminal_def)+
  moreover from this have "network_ready l" "time_ready l"
    using trace_inv [OF assms(1)] by (simp_all add: life_inv_def)
  ultimately show ?thesis using assms(2) by (simp add: cf_lifecycle_advance_def)
qed

theorem lifecycle_rejected_update_keeps_online_witness:
  "cf_lifecycle_advance (Some (run ([Start, Env True True] @ climb) zeroed)) CF_EVENT_CONFIG_REJECTED =
     (CF_OK, Some (run ([Start, Env True True] @ climb) zeroed))"
proof -
  have "configured (run ([Start, Env True True] @ climb) zeroed)"
    using trace_inv [OF trace_example(1), unfolded life_inv_def] trace_example(2) by blast
  then show ?thesis
    using lifecycle_rejected_update_keeps_online [OF trace_example(1), unfolded trace_example(2)]
    by (simp only: in_session_def if_True simp_thms)
qed

end
