(* ===== verification/CF_Bytes.thy ===== *)
theory CF_Bytes
  imports CF_Prelude
begin

text \<open>
  Little-endian integers in memory. The C code has three readers and writers of them, the
  static functions \<open>u32\<close> of \<^verbatim>\<open>src/protocol/cf_capnp_framing.c\<close> and \<open>le\<close> and \<open>put\<close> of
  \<^verbatim>\<open>src/protocol/cf_capnp.c\<close>; the theory models them and relates them to one reference
  pair of functions between numbers and byte strings.
\<close>

section \<open>The C functions\<close>

text \<open>\<open>u32(p)\<close>: four bytes joined by shifts.\<close>

definition u32_at :: "mem \<Rightarrow> nat \<Rightarrow> u32 option" where
  "u32_at m p = do {
     b0 \<leftarrow> load m p;
     b1 \<leftarrow> load m (p + 1);
     b2 \<leftarrow> load m (p + 2);
     b3 \<leftarrow> load m (p + 3);
     Some (ucast b0 OR push_bit 8 (ucast b1) OR push_bit 16 (ucast b2) OR push_bit 24 (ucast b3))
   }"

text \<open>\<open>le(p, n)\<close>: the loop \<open>v |= (uint64_t)p[i] << (8u * i)\<close>; \<open>k\<close> iterations are left.\<close>

fun le_loop :: "mem \<Rightarrow> nat \<Rightarrow> nat \<Rightarrow> nat \<Rightarrow> u64 \<Rightarrow> u64 option" where
  "le_loop m p i 0 v = Some v"
| "le_loop m p i (Suc k) v = do {
     b \<leftarrow> load m (p + i);
     le_loop m p (i + 1) k (v OR push_bit (8 * i) (ucast b))
   }"

definition le :: "mem \<Rightarrow> nat \<Rightarrow> nat \<Rightarrow> u64 option" where
  "le m p n = le_loop m p 0 n 0"

text \<open>\<open>put(p, n, v)\<close>: the loop \<open>p[i] = (uint8_t)(v >> (8u * i))\<close>.\<close>

fun put_loop :: "mem \<Rightarrow> nat \<Rightarrow> nat \<Rightarrow> nat \<Rightarrow> u64 \<Rightarrow> mem option" where
  "put_loop m p i 0 v = Some m"
| "put_loop m p i (Suc k) v = do {
     m \<leftarrow> store m (p + i) (ucast (drop_bit (8 * i) v));
     put_loop m p (i + 1) k v
   }"

definition put :: "mem \<Rightarrow> nat \<Rightarrow> nat \<Rightarrow> u64 \<Rightarrow> mem option" where
  "put m p n v = put_loop m p 0 n v"

section \<open>Reference codec\<close>

primrec le_val :: "u8 list \<Rightarrow> nat" where
  "le_val [] = 0"
| "le_val (b # bs) = unat b + 256 * le_val bs"

primrec le_bytes :: "nat \<Rightarrow> nat \<Rightarrow> u8 list" where
  "le_bytes 0 v = []"
| "le_bytes (Suc k) v = word_of_nat v # le_bytes k (v div 256)"

lemma length_le_bytes [simp]: "length (le_bytes k v) = k"
  by (induction k arbitrary: v) auto

lemma unat_of_nat_u8: "unat (word_of_nat v :: u8) = v mod 256"
  by (simp add: unsigned_of_nat take_bit_eq_mod)

lemma le_val_bytes: "le_val (le_bytes k v) = v mod 256 ^ k"
proof (induction k arbitrary: v)
  case (Suc k)
  have "v mod (256 * 256 ^ k) = 256 * (v div 256 mod 256 ^ k) + v mod 256" by (rule mod_mult2_eq)
  then show ?case by (simp add: Suc unat_of_nat_u8)
qed simp

lemma le_val_less: "le_val bs < 256 ^ length bs"
proof (induction bs)
  case (Cons b bs)
  have "unat b + 256 * le_val bs < 256 * (le_val bs + 1)" using u8_less [of b] by simp
  also have "\<dots> \<le> 256 * 256 ^ length bs" using Cons.IH by (intro mult_le_mono2) simp
  finally show ?case by simp
qed simp

lemma le_val_append: "le_val (xs @ ys) = le_val xs + 256 ^ length xs * le_val ys"
  by (induction xs) (simp_all add: algebra_simps)

lemma le_bytes_val: "le_bytes (length bs) (le_val bs) = bs"
proof (induction bs)
  case (Cons b bs)
  have "unat (word_of_nat (unat b + 256 * le_val bs) :: u8) = unat b"
    unfolding unat_of_nat_u8 using u8_less [of b] by simp
  then have "word_of_nat (unat b + 256 * le_val bs) = b" by (rule word_unat_eq_iff [THEN iffD2])
  moreover have "(unat b + 256 * le_val bs) div 256 = le_val bs" using u8_less [of b] by simp
  ultimately show ?case using Cons.IH by simp
qed simp

lemma le_bytes_append: "le_bytes (j + k) v = le_bytes j v @ le_bytes k (v div 256 ^ j)"
  by (induction j arbitrary: v) (simp_all add: div_mult2_eq)

lemma le_bytes_mod: "k \<le> j \<Longrightarrow> le_bytes k (v mod 256 ^ j) = le_bytes k v"
proof -
  assume "k \<le> j"
  have "le_val (le_bytes k (v mod 256 ^ j)) = le_val (le_bytes k v)"
    using \<open>k \<le> j\<close> by (simp add: le_val_bytes mod_mod_cancel le_imp_power_dvd)
  then show ?thesis by (metis le_bytes_val length_le_bytes)
qed

lemma le_val_inject: "length xs = length ys \<Longrightarrow> le_val xs = le_val ys \<Longrightarrow> xs = ys"
  by (metis le_bytes_val)

section \<open>The C functions compute the codec\<close>

lemma unat_or_push_u64:
  fixes v :: u64 and b :: u8
  assumes "unat v < 2 ^ (8 * i)" "i < 8"
  shows "unat (v OR push_bit (8 * i) (ucast b)) = unat v + 256 ^ i * unat b"
proof -
  have b: "unat (ucast b :: u64) = unat b"
    using u8_less [of b] by (simp add: unsigned_ucast_eq take_bit_nat_eq_self)
  have "unat b * 2 ^ (8 * i) < 2 ^ 8 * 2 ^ (8 * i)" using u8_less [of b] by simp
  also have "\<dots> = (2::nat) ^ (8 + 8 * i)" by (simp only: power_add)
  also have "\<dots> \<le> 2 ^ 64" using assms(2) by (intro power_increasing) simp_all
  finally have "unat b * 2 ^ (8 * i) < 2 ^ 64" .
  then have "unat (push_bit (8 * i) (ucast b :: u64)) = push_bit (8 * i) (unat b)"
    by (simp only: unsigned_push_bit_eq b) (simp add: push_bit_eq_mult take_bit_nat_eq_self)
  then have "unat (v OR push_bit (8 * i) (ucast b)) = unat v OR push_bit (8 * i) (unat b)"
    by (simp only: unsigned_or_eq)
  moreover have "(256::nat) ^ i = 2 ^ (8 * i)" by (simp add: power_mult)
  ultimately show ?thesis using nat_or_push [OF assms(1), of "unat b"] by (simp only: mult.commute add.commute)
qed

lemma le_loop_val:
  assumes "i + k \<le> 8" "p + i + k \<le> length m" "unat v = le_val (take i (drop p m))"
  shows "\<exists>w. le_loop m p i k v = Some w \<and> unat w = le_val (take (i + k) (drop p m))"
  using assms
proof (induction k arbitrary: i v)
  case (Suc k)
  let ?b = "m ! (p + i)"
  have "length (take i (drop p m)) = i" using Suc.prems(2) by simp
  then have v: "unat v < 2 ^ (8 * i)"
    using le_val_less [of "take i (drop p m)"] Suc.prems(3) by (simp add: power_mult)
  have snoc: "take (Suc i) (drop p m) = take i (drop p m) @ [?b]"
    using Suc.prems(2) by (simp add: take_Suc_conv_app_nth)
  have "unat (v OR push_bit (8 * i) (ucast ?b)) = le_val (take (Suc i) (drop p m))"
    using unat_or_push_u64 [OF v] Suc.prems by (simp add: snoc le_val_append)
  from Suc.IH [OF _ _ this] Suc.prems show ?case by (simp add: load_Some)
qed simp

lemma le_Some:
  assumes "n \<le> 8" "p + n \<le> length m"
  shows "le m p n = Some (word_of_nat (le_val (take n (drop p m))))"
proof -
  obtain w where "le_loop m p 0 n 0 = Some w" "unat w = le_val (take n (drop p m))"
    using le_loop_val [of 0 n p m 0] assms by auto
  then show ?thesis by (metis le_def unat_inverse)
qed

lemma le_unat:
  assumes "le m p n = Some w" "n \<le> 8" "p + n \<le> length m"
  shows "unat w = le_val (take n (drop p m))"
  using le_loop_val [of 0 n p m 0] assms by (auto simp: le_def)

lemma join_u32:
  fixes a b c d :: u8
  shows "ucast ((((ucast a OR push_bit 8 (ucast b)) OR push_bit 16 (ucast c)) OR push_bit 24 (ucast d)) :: u64)
    = (ucast a OR push_bit 8 (ucast b) OR push_bit 16 (ucast c) OR push_bit 24 (ucast d) :: u32)"
  by (rule bit_word_eqI) (auto simp: bit_simps)

lemma u32_at_le: "p + 4 \<le> length m \<Longrightarrow> u32_at m p = map_option ucast (le m p 4)"
  using join_u32 [of "m ! p" "m ! (p + 1)" "m ! (p + 2)" "m ! (p + 3)"]
  by (simp add: u32_at_def le_def numeral_eq_Suc load_Some)

lemma u32_at_Some:
  assumes "p + 4 \<le> length m"
  shows "\<exists>w. u32_at m p = Some w \<and> unat w = le_val (take 4 (drop p m))"
proof -
  obtain v where v: "le m p 4 = Some v" "unat v = le_val (take 4 (drop p m))"
    using le_loop_val [of 0 4 p m 0] assms by (auto simp: le_def)
  have "le_val (take 4 (drop p m)) < 256 ^ length (take 4 (drop p m))" by (rule le_val_less)
  then have "unat v < 2 ^ 32" using v(2) assms by simp
  then have "unat (ucast v :: u32) = unat v"
    by (simp add: unsigned_ucast_eq take_bit_nat_eq_self)
  then show ?thesis using u32_at_le [OF assms] v by simp
qed

lemma u32_at_val: "u32_at m p = Some w \<Longrightarrow> unat w = le_val (take 4 (drop p m))"
proof -
  assume w: "u32_at m p = Some w"
  then have "p + 4 \<le> length m" by (auto simp: u32_at_def load_def split: Option.bind_splits if_splits)
  then show ?thesis using u32_at_Some [of p m] w by auto
qed

lemma put_loop_bytes:
  assumes "p + i + k \<le> length m" "i + k \<le> 8" "m = splice m0 p (le_bytes i (unat v))" "p + i \<le> length m0"
  shows "put_loop m p i k v = Some (splice m0 p (le_bytes (i + k) (unat v)))"
  using assms
proof (induction k arbitrary: i m)
  case (Suc k)
  have len: "length m = length m0" using Suc.prems by simp
  have byte: "ucast (drop_bit (8 * i) v) = (word_of_nat (unat v div 256 ^ i) :: u8)"
  proof -
    have "unat (drop_bit (8 * i) v) = unat v div 256 ^ i"
      unfolding unat_drop_bit_eq by (simp add: drop_bit_eq_div power_mult)
    then show ?thesis by (metis of_nat_unat ucast_eq)
  qed
  have "le_bytes (Suc i) (unat v) = le_bytes i (unat v) @ [word_of_nat (unat v div 256 ^ i)]"
    using le_bytes_append [of i 1 "unat v"] by simp
  then have "m[p + i := ucast (drop_bit (8 * i) v)] = splice m0 p (le_bytes (Suc i) (unat v))"
    using splice_snoc [of p "le_bytes i (unat v)" m0] Suc.prems len by (simp add: byte)
  then show ?case using Suc.IH [of "Suc i" "m[p + i := ucast (drop_bit (8 * i) v)]"] Suc.prems len
    by (simp add: store_Some)
qed simp

lemma put_Some:
  assumes "p + n \<le> length m" "n \<le> 8"
  shows "put m p n v = Some (splice m p (le_bytes n (unat v)))"
  using put_loop_bytes [of p 0 n m m v] assms by (simp add: put_def)

end
