(* ===== verification/CF_Framing.thy ===== *)
theory CF_Framing
  imports CF_Bytes
begin

text \<open>
  The Cap'n Proto stream framing of \<^verbatim>\<open>src/protocol/cf_capnp_framing.c\<close>: a push parser
  that collects one frame at a time in a caller-owned buffer and hands each complete frame to a
  callback, and the validation of a frame's segment table.

  The callback is a parameter: from a context and a frame it gives a result code and the next
  context, or \<open>None\<close> when it has no defined result on that frame.
\<close>

section \<open>The C functions\<close>

definition CF_CAPNP_MAX_SEGMENTS :: nat where "CF_CAPNP_MAX_SEGMENTS = 8"
definition CF_CAPNP_MESSAGE_MAX :: nat where "CF_CAPNP_MESSAGE_MAX = 16384"

record cf_capnp_framer =
  fr_buffer :: "mem option"
  fr_capacity :: nat
  fr_used :: nat
  fr_target :: nat
  fr_segments :: u32
  fr_phase :: nat
  fr_error :: cf_result

type_synonym 'c message_fn = "'c \<Rightarrow> cf_bytes \<Rightarrow> (cf_result \<times> 'c) option"

definition table_size :: "u32 \<Rightarrow> nat" where
  "table_size n = size_wrap (size_wrap (unat n + 2) div 2 * 8)"

text \<open>The loop over the segment table: \<open>k\<close> entries from \<open>i\<close> on are left.\<close>

fun total_loop :: "mem \<Rightarrow> nat \<Rightarrow> nat \<Rightarrow> nat \<Rightarrow> nat \<Rightarrow> (cf_result + nat) option" where
  "total_loop p cap i 0 tot = Some (Inr tot)"
| "total_loop p cap i (Suc k) tot = do {
     words \<leftarrow> u32_at p (4 + i * 4);
     if unat words > (cap - tot) div 8 then Some (Inl CF_ERR_LIMIT)
     else total_loop p cap (i + 1) k (tot + unat words * 8)
   }"

text \<open>\<open>Inr tot\<close> is \<open>CF_OK\<close> with \<open>*out = tot\<close>; \<open>*out\<close> is not written on an error.\<close>

definition total_size :: "mem \<Rightarrow> u32 \<Rightarrow> nat \<Rightarrow> (cf_result + nat) option" where
  "total_size p n cap = (let tot = table_size n in
     if tot > cap then Some (Inl CF_ERR_LIMIT)
     else do {
       first \<leftarrow> u32_at p 4;
       if first = 0 then Some (Inl CF_ERR_FORMAT)
       else total_loop p cap 0 (unat n) tot
     })"

definition framer_reset :: "cf_capnp_framer \<Rightarrow> cf_capnp_framer" where
  "framer_reset f = f\<lparr>fr_used := 0, fr_target := 4, fr_segments := 0, fr_phase := 0, fr_error := CF_OK\<rparr>"

definition cf_capnp_framer_reset :: "cf_capnp_framer option \<Rightarrow> cf_capnp_framer option" where
  "cf_capnp_framer_reset fp = map_option framer_reset fp"

definition cf_capnp_framer_init :: "cf_capnp_framer option \<Rightarrow> mem option \<Rightarrow> nat \<Rightarrow> cf_result \<times> cf_capnp_framer option" where
  "cf_capnp_framer_init fp buffer cap =
     (if fp = None \<or> buffer = None \<or> cap < 16 \<or> cap > CF_CAPNP_MESSAGE_MAX then (CF_ERR_ARGUMENT, fp)
      else (CF_OK, Some (framer_reset \<lparr>fr_buffer = buffer, fr_capacity = cap, fr_used = 0, fr_target = 0,
              fr_segments = 0, fr_phase = 0, fr_error = CF_OK\<rparr>)))"

text \<open>
  What happens when the buffer has reached its target: the segment count, the table or the
  whole frame is complete. \<open>Some rc\<close> is a \<open>return\<close>, \<open>None\<close> the next iteration.
\<close>

definition feed_complete :: "'c message_fn \<Rightarrow> mem \<Rightarrow> cf_capnp_framer \<Rightarrow> 'c \<Rightarrow> (cf_result option \<times> cf_capnp_framer \<times> 'c) option" where
  "feed_complete callback m f ctx =
     (if fr_phase f = 0 then do {
        minus_one \<leftarrow> u32_at m 0;
        if unat minus_one \<ge> CF_CAPNP_MAX_SEGMENTS then Some (Some CF_ERR_LIMIT, f\<lparr>fr_error := CF_ERR_LIMIT\<rparr>, ctx)
        else
          let f = f\<lparr>fr_segments := minus_one + 1\<rparr>;
              f = f\<lparr>fr_target := table_size (fr_segments f)\<rparr> in
          if fr_target f > fr_capacity f then Some (Some CF_ERR_LIMIT, f\<lparr>fr_error := CF_ERR_LIMIT\<rparr>, ctx)
          else Some (None, f\<lparr>fr_phase := 1\<rparr>, ctx)
      }
      else if fr_phase f = 1 then do {
        r \<leftarrow> total_size m (fr_segments f) (fr_capacity f);
        (case r of
           Inl rc \<Rightarrow> Some (Some rc, f\<lparr>fr_error := rc\<rparr>, ctx)
         | Inr tot \<Rightarrow> Some (None, f\<lparr>fr_target := tot, fr_phase := 2\<rparr>, ctx))
      }
      else do {
        frame \<leftarrow> load_n m 0 (fr_used f);
        (rc, ctx) \<leftarrow> callback ctx (Bytes frame);
        if rc \<noteq> CF_OK then Some (Some rc, f\<lparr>fr_error := rc\<rparr>, ctx)
        else Some (None, framer_reset f, ctx)
      })"

text \<open>One iteration of the loop: copy as much as the target and the input allow.\<close>

definition feed_body :: "'c message_fn \<Rightarrow> u8 list \<Rightarrow> cf_capnp_framer \<Rightarrow> nat \<Rightarrow> 'c
    \<Rightarrow> (cf_result option \<times> cf_capnp_framer \<times> nat \<times> 'c) option" where
  "feed_body callback xs f consumed ctx = do {
     m \<leftarrow> fr_buffer f;
     let n = size_sub (fr_target f) (fr_used f);
     let n = (if n > length xs - consumed then length xs - consumed else n);
     chunk \<leftarrow> load_n xs consumed n;
     m \<leftarrow> store_n m (fr_used f) chunk;
     let f = f\<lparr>fr_buffer := Some m, fr_used := fr_used f + n\<rparr>;
     if fr_used f \<noteq> fr_target f then Some (None, f, consumed + n, ctx)
     else do {
       (r, f, ctx) \<leftarrow> feed_complete callback m f ctx;
       Some (r, f, consumed + n, ctx)
     }
   }"

definition feed_rank :: "cf_capnp_framer \<Rightarrow> nat" where
  "feed_rank f = (if fr_used f = fr_target f then 3 - min (fr_phase f) 2 else 0)"

lemma feed_complete_rank:
  "feed_complete cb m f ctx = Some (None, f', ctx') \<Longrightarrow> fr_used f = fr_target f \<Longrightarrow> feed_rank f' < feed_rank f"
  by (auto simp: feed_complete_def feed_rank_def framer_reset_def Let_def split: if_splits Option.bind_splits sum.splits)

lemma feed_body_progress:
  assumes "feed_body cb xs f c ctx = Some (None, f', c', ctx')" "c < length xs"
  shows "length xs - c' < length xs - c \<or> (c' = c \<and> feed_rank f' < feed_rank f)"
proof (cases "size_sub (fr_target f) (fr_used f) = 0")
  case False
  then show ?thesis using assms by (auto simp: feed_body_def Let_def split: if_splits Option.bind_splits)
next
  case True
  then have "fr_used f = fr_target f" by (auto simp: size_sub_def split: if_splits)
  with True assms show ?thesis
    by (auto simp: feed_body_def Let_def feed_rank_def dest!: feed_complete_rank split: if_splits Option.bind_splits)
qed

function feed_loop :: "'c message_fn \<Rightarrow> u8 list \<Rightarrow> cf_capnp_framer \<Rightarrow> nat \<Rightarrow> 'c
    \<Rightarrow> (cf_result \<times> cf_capnp_framer \<times> nat \<times> 'c) option" where
  "feed_loop callback xs f consumed ctx =
     (if consumed < length xs then
        (case feed_body callback xs f consumed ctx of
           None \<Rightarrow> None
         | Some (Some rc, f', consumed', ctx') \<Rightarrow> Some (rc, f', consumed', ctx')
         | Some (None, f', consumed', ctx') \<Rightarrow> feed_loop callback xs f' consumed' ctx')
      else Some (CF_OK, f, consumed, ctx))"
  by pat_completeness auto
termination
  by (relation "(\<lambda>(cb, xs, f, c, ctx). length xs - c) <*mlex*> measure (\<lambda>(cb, xs, f, c, ctx). feed_rank f)")
    (auto intro: wf_mlex simp: mlex_iff dest!: feed_body_progress)

declare feed_loop.simps [simp del]

definition cf_capnp_feed :: "cf_capnp_framer option \<Rightarrow> cf_bytes \<Rightarrow> nat option \<Rightarrow> 'c message_fn option \<Rightarrow> 'c
    \<Rightarrow> (cf_result \<times> cf_capnp_framer option \<times> nat option \<times> 'c) option" where
  "cf_capnp_feed fp inp consumed callback ctx =
     (if consumed = None then Some (CF_ERR_ARGUMENT, fp, None, ctx)
      else
        (case (fp, callback) of
           (Some f, Some cb) \<Rightarrow>
             if fr_buffer f = None \<or> bytes_bad inp then Some (CF_ERR_ARGUMENT, fp, Some 0, ctx)
             else if fr_error f \<noteq> CF_OK then Some (fr_error f, fp, Some 0, ctx)
             else do {
               (rc, f, n, ctx) \<leftarrow> feed_loop cb (bytes_list inp) f 0 ctx;
               Some (rc, Some f, Some n, ctx)
             }
         | _ \<Rightarrow> Some (CF_ERR_ARGUMENT, fp, Some 0, ctx)))"

definition cf_capnp_eof :: "cf_capnp_framer option \<Rightarrow> cf_result" where
  "cf_capnp_eof fp = (case fp of None \<Rightarrow> CF_ERR_ARGUMENT | Some f \<Rightarrow>
     if fr_error f \<noteq> CF_OK then fr_error f else if fr_used f \<noteq> 0 then CF_ERR_TRUNCATED else CF_OK)"

text \<open>The offset loop of \<open>cf_capnp_segment\<close>.\<close>

fun segment_offset :: "mem \<Rightarrow> nat \<Rightarrow> nat \<Rightarrow> nat \<Rightarrow> nat option" where
  "segment_offset p i 0 offset = Some offset"
| "segment_offset p i (Suc k) offset = do {
     w \<leftarrow> u32_at p (4 + i * 4);
     segment_offset p (i + 1) k (offset + unat w * 8)
   }"

text \<open>A view of a part of a frame; the pointer arithmetic must stay inside it.\<close>

definition cf_capnp_segment :: "cf_bytes \<Rightarrow> u32 \<Rightarrow> cf_bytes option \<Rightarrow> (cf_result \<times> cf_bytes option) option" where
  "cf_capnp_segment frame index out =
     (if out = None \<or> bytes_bad frame then Some (CF_ERR_ARGUMENT, out)
      else let none = Some (Null_Bytes 0); xs = bytes_list frame in
      if bytes_len frame < 8 then Some (CF_ERR_TRUNCATED, none)
      else do {
        n \<leftarrow> u32_at xs 0;
        if unat n \<ge> CF_CAPNP_MAX_SEGMENTS then Some (CF_ERR_LIMIT, none)
        else
          let n = n + 1 in
          if index \<ge> n then Some (CF_ERR_ARGUMENT, none)
          else if table_size n > bytes_len frame then Some (CF_ERR_TRUNCATED, none)
          else do {
            r \<leftarrow> total_size xs n CF_CAPNP_MESSAGE_MAX;
            (case r of
               Inl rc \<Rightarrow> Some (rc, none)
             | Inr tot \<Rightarrow>
                 if tot \<noteq> bytes_len frame
                 then Some (if tot > bytes_len frame then CF_ERR_TRUNCATED else CF_ERR_FORMAT, none)
                 else do {
                   offset \<leftarrow> segment_offset xs 0 (unat index) (table_size n);
                   w \<leftarrow> u32_at xs (4 + unat index * 4);
                   seg \<leftarrow> load_n xs offset (unat w * 8);
                   Some (CF_OK, Some (Bytes seg))
                 })
          }
      })"

section \<open>Well-formed frames\<close>

definition table :: "nat \<Rightarrow> nat" where
  "table n = (n + 2) div 2 * 8"

definition frame_count :: "u8 list \<Rightarrow> nat" where
  "frame_count xs = le_val (take 4 xs) + 1"

definition seg_word :: "u8 list \<Rightarrow> nat \<Rightarrow> nat" where
  "seg_word xs i = le_val (take 4 (drop (4 + i * 4) xs))"

definition seg_words :: "u8 list \<Rightarrow> nat \<Rightarrow> nat" where
  "seg_words xs n = sum_list (map (seg_word xs) [0..<n])"

text \<open>
  A frame: at most eight segments, a nonempty first one, a table that fits, and exactly the
  announced number of bytes.
\<close>

definition frame_ok :: "nat \<Rightarrow> u8 list \<Rightarrow> bool" where
  "frame_ok cap xs \<longleftrightarrow> 8 \<le> length xs \<and> frame_count xs \<le> CF_CAPNP_MAX_SEGMENTS \<and> table (frame_count xs) \<le> length xs
     \<and> seg_word xs 0 \<noteq> 0 \<and> table (frame_count xs) + 8 * seg_words xs (frame_count xs) = length xs \<and> length xs \<le> cap"

definition frame_segment :: "u8 list \<Rightarrow> nat \<Rightarrow> u8 list" where
  "frame_segment xs i = take (8 * seg_word xs i) (drop (table (frame_count xs) + 8 * seg_words xs i) xs)"

text \<open>The parser's invariant, in terms of the bytes collected so far.\<close>

definition partial_ok :: "nat \<Rightarrow> cf_capnp_framer \<Rightarrow> u8 list \<Rightarrow> bool" where
  "partial_ok cap f p \<longleftrightarrow>
     (if fr_phase f = 0 then fr_target f = 4
      else 4 \<le> length p \<and> unat (fr_segments f) = frame_count p \<and> frame_count p \<le> CF_CAPNP_MAX_SEGMENTS \<and>
        (if fr_phase f = 1 then fr_target f = table (frame_count p)
         else table (frame_count p) \<le> length p \<and> seg_word p 0 \<noteq> 0
           \<and> fr_target f = table (frame_count p) + 8 * seg_words p (frame_count p)))"

definition framer_mem :: "cf_capnp_framer \<Rightarrow> mem \<Rightarrow> bool" where
  "framer_mem f m \<longleftrightarrow> fr_buffer f = Some m \<and> 16 \<le> fr_capacity f \<and> fr_capacity f \<le> CF_CAPNP_MESSAGE_MAX \<and> fr_capacity f \<le> length m"

definition framer_live :: "cf_capnp_framer \<Rightarrow> mem \<Rightarrow> bool" where
  "framer_live f m \<longleftrightarrow> fr_error f = CF_OK \<and> fr_used f \<le> fr_target f \<and> fr_target f \<le> fr_capacity f
     \<and> partial_ok (fr_capacity f) f (take (fr_used f) m)"

definition framer_inv :: "cf_capnp_framer \<Rightarrow> bool" where
  "framer_inv f \<longleftrightarrow> (\<exists>m. framer_mem f m \<and> (fr_error f = CF_OK \<longrightarrow> framer_live f m \<and> fr_used f < fr_target f))"

text \<open>
  The two ways an iteration ends: the framer waits for more bytes, or an error is stored in it.
\<close>

definition framer_stopped :: "cf_capnp_framer \<Rightarrow> mem \<Rightarrow> cf_result \<Rightarrow> bool" where
  "framer_stopped f m rc \<longleftrightarrow> framer_mem f m \<and> fr_error f = rc \<and> rc \<noteq> CF_OK"

definition framer_waits :: "cf_capnp_framer \<Rightarrow> mem \<Rightarrow> bool" where
  "framer_waits f m \<longleftrightarrow> framer_mem f m \<and> framer_live f m \<and> fr_used f < fr_target f"

text \<open>The framer with nothing collected, as after initialisation and after each frame.\<close>

definition framer_fresh :: "cf_capnp_framer \<Rightarrow> nat \<Rightarrow> bool" where
  "framer_fresh f cap \<longleftrightarrow> (\<exists>m. framer_waits f m) \<and> fr_used f = 0 \<and> fr_phase f = 0 \<and> fr_capacity f = cap"

text \<open>Feeding a stream in pieces until one of the calls fails.\<close>

fun feed_chunks :: "'c message_fn \<Rightarrow> cf_capnp_framer \<Rightarrow> u8 list list \<Rightarrow> 'c \<Rightarrow> (cf_result \<times> cf_capnp_framer option \<times> 'c) option" where
  "feed_chunks cb f [] ctx = Some (CF_OK, Some f, ctx)"
| "feed_chunks cb f (xs # xss) ctx = do {
     (rc, fp, n, ctx) \<leftarrow> cf_capnp_feed (Some f) (Bytes xs) (Some 0) (Some cb) ctx;
     f \<leftarrow> fp;
     if rc = CF_OK then feed_chunks cb f xss ctx else Some (rc, Some f, ctx)
   }"

section \<open>The segment table\<close>

lemma table_bounds: "8 \<le> table n" "4 + 4 * n \<le> table n" "n \<le> 8 \<Longrightarrow> table n \<le> 40"
  by (auto simp: table_def)

lemma table_size_table: "unat n \<le> 8 \<Longrightarrow> table_size n = table (unat n)"
  using table_bounds(3) [of "unat n"] by (simp add: table_size_def table_def SIZE_MAX_def)

lemma seg_words_0 [simp]: "seg_words p 0 = 0" and seg_words_Suc: "seg_words p (Suc n) = seg_words p n + seg_word p n"
  by (simp_all add: seg_words_def)

lemma seg_words_mono: "i \<le> n \<Longrightarrow> seg_words p i \<le> seg_words p n"
  by (rule lift_Suc_mono_le [of "seg_words p"]) (simp_all add: seg_words_Suc)

lemma u32_seg_word:
  assumes "4 + i * 4 + 4 \<le> length p"
  obtains w where "u32_at p (4 + i * 4) = Some w" "unat w = seg_word p i"
  using u32_at_Some [OF assms] by (auto simp: seg_word_def)

lemma total_loop_eq:
  assumes "4 + (i + k) * 4 \<le> length p" "tot \<le> cap" "tot = base + 8 * seg_words p i"
  shows "total_loop p cap i k tot = Some (if base + 8 * seg_words p (i + k) \<le> cap
     then Inr (base + 8 * seg_words p (i + k)) else Inl CF_ERR_LIMIT)"
  using assms
proof (induction k arbitrary: i tot)
  case (Suc k)
  obtain w where w: "u32_at p (4 + i * 4) = Some w" "unat w = seg_word p i"
    using Suc.prems(1) u32_seg_word [of i p] by auto
  have more: "seg_words p (Suc i) \<le> seg_words p (i + Suc k)" by (rule seg_words_mono) simp
  show ?case
  proof (cases "unat w > (cap - tot) div 8")
    case True
    then have "base + 8 * seg_words p (Suc i) > cap" using Suc.prems w by (simp add: seg_words_Suc)
    then show ?thesis using w True more by simp
  next
    case False
    then have "tot + unat w * 8 \<le> cap" using Suc.prems(2) by simp
    moreover have "tot + unat w * 8 = base + 8 * seg_words p (i + 1)" using Suc.prems(3) w by (simp add: seg_words_Suc)
    ultimately show ?thesis using Suc.IH [of "i + 1" "tot + unat w * 8"] Suc.prems(1) w False by simp
  qed
qed simp

lemma total_size_eq:
  assumes "1 \<le> unat n" "unat n \<le> 8" "table (unat n) \<le> length p"
  shows "total_size p n cap = Some (
    if table (unat n) > cap then Inl CF_ERR_LIMIT
    else if seg_word p 0 = 0 then Inl CF_ERR_FORMAT
    else if table (unat n) + 8 * seg_words p (unat n) \<le> cap then Inr (table (unat n) + 8 * seg_words p (unat n))
    else Inl CF_ERR_LIMIT)"
proof -
  have len: "4 + (0 + unat n) * 4 \<le> length p" "4 + 0 * 4 + 4 \<le> length p"
    using table_bounds(1,2) [of "unat n"] assms by simp_all
  obtain w where w: "u32_at p (4 + 0 * 4) = Some w" "unat w = seg_word p 0" using u32_seg_word [OF len(2)] .
  have "w = 0 \<longleftrightarrow> seg_word p 0 = 0" using w(2) by (metis unat_eq_zero)
  then show ?thesis using w(1) total_loop_eq [OF len(1), of "table (unat n)" cap "table (unat n)"]
    by (auto simp: total_size_def Let_def table_size_table [OF assms(2)])
qed

lemma take_take_drop: "i + n \<le> length xs \<Longrightarrow> take n (drop i (xs @ ys)) = take n (drop i xs)"
  by simp

lemma partial_mono:
  assumes "4 \<le> length p"
  shows "frame_count (p @ ys) = frame_count p"
    and "table (frame_count p) \<le> length p \<Longrightarrow> i < frame_count p \<Longrightarrow> seg_word (p @ ys) i = seg_word p i"
    and "table (frame_count p) \<le> length p \<Longrightarrow> i \<le> frame_count p \<Longrightarrow> seg_words (p @ ys) i = seg_words p i"
proof -
  show "frame_count (p @ ys) = frame_count p" using assms by (simp add: frame_count_def)
  show w: "seg_word (p @ ys) i = seg_word p i" if "table (frame_count p) \<le> length p" "i < frame_count p" for i
    using that table_bounds(2) [of "frame_count p"] take_take_drop [of "4 + i * 4" 4 p ys] by (simp add: seg_word_def)
  show "seg_words (p @ ys) i = seg_words p i" if "table (frame_count p) \<le> length p" "i \<le> frame_count p"
    using that w unfolding seg_words_def by (intro arg_cong [where f = sum_list] map_cong) simp_all
qed

lemma partial_extend:
  assumes "partial_ok cap f p"
  shows "partial_ok cap (f\<lparr>fr_buffer := b, fr_used := u\<rparr>) (p @ ys)"
proof (cases "fr_phase f = 0")
  case False
  then have "4 \<le> length p" using assms by (simp add: partial_ok_def)
  note mono = partial_mono [OF this, where ys = ys]
  have "0 < frame_count p" by (simp add: frame_count_def)
  then show ?thesis using assms False mono by (auto simp: partial_ok_def)
qed (use assms in \<open>simp add: partial_ok_def\<close>)


section \<open>One iteration of the parser\<close>

text \<open>The framer after copying \<open>ys\<close> behind the bytes it has.\<close>

abbreviation framer_copy :: "cf_capnp_framer \<Rightarrow> mem \<Rightarrow> u8 list \<Rightarrow> cf_capnp_framer" where
  "framer_copy f m ys \<equiv> f\<lparr>fr_buffer := Some (splice m (fr_used f) ys), fr_used := fr_used f + length ys\<rparr>"

lemma framer_copy_live:
  assumes "framer_mem f m" "framer_live f m" "fr_used f + length ys \<le> fr_target f"
  shows "framer_mem (framer_copy f m ys) (splice m (fr_used f) ys)" "framer_live (framer_copy f m ys) (splice m (fr_used f) ys)"
proof -
  have fits: "fr_used f + length ys \<le> length m" using assms by (simp add: framer_mem_def framer_live_def)
  then show "framer_mem (framer_copy f m ys) (splice m (fr_used f) ys)"
    using assms(1) by (simp add: framer_mem_def)
  have "take (fr_used f + length ys) (splice m (fr_used f) ys) = take (fr_used f) m @ ys"
    using fits by (simp add: splice_def)
  then show "framer_live (framer_copy f m ys) (splice m (fr_used f) ys)"
    using assms(2,3) partial_extend [of "fr_capacity f" f "take (fr_used f) m" _ _ ys] by (simp add: framer_live_def)
qed

lemma feed_body_eq:
  assumes "framer_mem f m" "framer_live f m" "c < length xs"
  defines "n \<equiv> min (fr_target f - fr_used f) (length xs - c)"
  defines "f' \<equiv> framer_copy f m (take n (drop c xs))"
  shows "feed_body cb xs f c ctx =
    (if fr_used f + n = fr_target f
     then map_option (\<lambda>(r, f, ctx). (r, f, c + n, ctx)) (feed_complete cb (splice m (fr_used f) (take n (drop c xs))) f' ctx)
     else Some (None, f', c + n, ctx))"
proof -
  have n: "length (take n (drop c xs)) = n" "c + n \<le> length xs" using assms(3) by (auto simp: n_def)
  have le: "fr_used f \<le> fr_target f" "fr_used f + n \<le> length m"
    using assms(1,2) by (auto simp: framer_live_def framer_mem_def n_def)
  have sub: "(if size_sub (fr_target f) (fr_used f) > length xs - c then length xs - c
      else size_sub (fr_target f) (fr_used f)) = n"
    using le by (simp add: size_sub_def n_def)
  have buf: "fr_buffer f = Some m" using assms(1) by (simp add: framer_mem_def)
  have cp: "load_n xs c n = Some (take n (drop c xs))" using n(2) by (simp add: load_n_def)
  have st: "store_n m (fr_used f) (take n (drop c xs)) = Some (splice m (fr_used f) (take n (drop c xs)))"
    using le(2) n(1) by (simp add: store_n_def)
  have f': "f' = f\<lparr>fr_buffer := Some (splice m (fr_used f) (take n (drop c xs))), fr_used := fr_used f + n\<rparr>"
    unfolding f'_def n(1) ..
  have "feed_body cb xs f c ctx = (if fr_used f' \<noteq> fr_target f' then Some (None, f', c + n, ctx)
      else do { (r, f, ctx) \<leftarrow> feed_complete cb (splice m (fr_used f) (take n (drop c xs))) f' ctx; Some (r, f, c + n, ctx) })"
    unfolding feed_body_def Let_def sub by (simp add: buf cp st f')
  then show ?thesis
    by (cases "feed_complete cb (splice m (fr_used f) (take n (drop c xs))) f' ctx") (auto simp: f')
qed

lemma complete_count:
  assumes "framer_mem f m" "framer_live f m" "fr_used f = fr_target f" "fr_phase f = 0"
  shows "\<exists>r f'. feed_complete cb m f ctx = Some (r, f', ctx) \<and>
    (case r of None \<Rightarrow> framer_waits f' m \<and> f' = f\<lparr>fr_segments := word_of_nat (frame_count m), fr_target := table (frame_count m), fr_phase := 1\<rparr>
               | Some rc \<Rightarrow> framer_stopped f' m rc \<and> \<not> (frame_count m \<le> CF_CAPNP_MAX_SEGMENTS \<and> table (frame_count m) \<le> fr_capacity f))"
proof -
  have four: "fr_used f = 4" "fr_target f = 4" using assms(2-4) by (simp_all add: framer_live_def partial_ok_def)
  have "0 + 4 \<le> length m" using assms(1) by (simp add: framer_mem_def)
  then obtain w where w: "u32_at m 0 = Some w" "unat w + 1 = frame_count m"
    using u32_at_Some [of 0 m] by (auto simp: frame_count_def)
  show ?thesis
  proof (cases "unat w < 8")
    case True
    then have w1: "unat (w + 1) = frame_count m" using w(2) by (simp add: unat_word_ariths)
    then have t: "table_size (w + 1) = table (frame_count m)"
      using table_size_table [of "w + 1"] True w(2) by simp
    have fc: "frame_count (take 4 m) = frame_count m" by (simp add: frame_count_def)
    have w2: "w + 1 = word_of_nat (frame_count m)" using w1 by (metis unat_inverse)
    let ?f = "f\<lparr>fr_segments := w + 1, fr_target := table (frame_count m)\<rparr>"
    show ?thesis
    proof (cases "table (frame_count m) \<le> fr_capacity f")
      case fits: True
      have "feed_complete cb m f ctx = Some (None, ?f\<lparr>fr_phase := 1\<rparr>, ctx)"
        using w True fits assms(4) t by (simp add: feed_complete_def Let_def CF_CAPNP_MAX_SEGMENTS_def)
      moreover have "framer_waits (?f\<lparr>fr_phase := 1\<rparr>) m"
        using assms(1,2) four fits w1 fc True w(2) table_bounds(1) [of "frame_count m"]
        by (auto simp: framer_waits_def framer_mem_def framer_live_def partial_ok_def CF_CAPNP_MAX_SEGMENTS_def)
      ultimately show ?thesis by (simp add: w2)
    next
      case False
      then show ?thesis using w True assms(1,4) t
        by (auto simp: feed_complete_def Let_def CF_CAPNP_MAX_SEGMENTS_def framer_stopped_def framer_mem_def)
    qed
  next
    case False
    then show ?thesis using w assms(1,4)
      by (auto simp: feed_complete_def CF_CAPNP_MAX_SEGMENTS_def framer_stopped_def framer_mem_def)
  qed
qed

lemma complete_table:
  assumes "framer_mem f m" "framer_live f m" "fr_used f = fr_target f" "fr_phase f = 1"
  shows "\<exists>r f'. feed_complete cb m f ctx = Some (r, f', ctx) \<and>
    (case r of None \<Rightarrow> framer_waits f' m \<and> f' = f\<lparr>fr_target := table (frame_count m) + 8 * seg_words m (frame_count m), fr_phase := 2\<rparr>
             | Some rc \<Rightarrow> framer_stopped f' m rc \<and>
                 \<not> (seg_word m 0 \<noteq> 0 \<and> table (frame_count m) + 8 * seg_words m (frame_count m) \<le> fr_capacity f))"
proof -
  let ?p = "take (fr_used f) m" let ?n = "frame_count m"
  have len: "length ?p = fr_used f" using assms(1,2) by (simp add: framer_mem_def framer_live_def)
  have p: "4 \<le> length ?p" "unat (fr_segments f) = frame_count ?p" "frame_count ?p \<le> 8" "fr_target f = table (frame_count ?p)"
    using assms(2,4) by (auto simp: framer_live_def partial_ok_def CF_CAPNP_MAX_SEGMENTS_def)
  have m: "m = ?p @ drop (fr_used f) m" by simp
  have tl: "table (frame_count ?p) \<le> length ?p" using p(4) assms(3) len by simp
  have fc: "frame_count ?p = ?n" using partial_mono(1) [OF p(1), of "drop (fr_used f) m"] by simp
  have sw: "seg_word ?p 0 = seg_word m 0" "seg_words ?p ?n = seg_words m ?n"
    using partial_mono(2,3) [OF p(1), where ys = "drop (fr_used f) m"] tl fc by (simp_all add: frame_count_def)
  have ts: "total_size m (fr_segments f) (fr_capacity f) = Some (
      if table ?n > fr_capacity f then Inl CF_ERR_LIMIT else if seg_word m 0 = 0 then Inl CF_ERR_FORMAT
      else if table ?n + 8 * seg_words m ?n \<le> fr_capacity f then Inr (table ?n + 8 * seg_words m ?n) else Inl CF_ERR_LIMIT)"
  proof -
    have n: "unat (fr_segments f) = ?n" using p(2) fc by simp
    have "1 \<le> ?n" "?n \<le> 8" using p(3) fc by (simp_all add: frame_count_def [of m])
    moreover have "table ?n \<le> length m" using tl fc len by (simp add: min_def split: if_splits)
    ultimately show ?thesis using total_size_eq [of "fr_segments f" m "fr_capacity f"] unfolding n by blast
  qed
  have cap: "table ?n \<le> fr_capacity f" using assms(2) p(4) fc by (simp add: framer_live_def)
  show ?thesis
  proof (cases "seg_word m 0 \<noteq> 0 \<and> table ?n + 8 * seg_words m ?n \<le> fr_capacity f")
    case True
    let ?f = "f\<lparr>fr_target := table ?n + 8 * seg_words m ?n, fr_phase := 2\<rparr>"
    have "seg_word m 0 \<le> seg_words m ?n"
      using seg_words_mono [of 1 ?n m] by (simp add: seg_words_Suc frame_count_def)
    then have grows: "fr_used f < table ?n + 8 * seg_words m ?n" using True p(4) fc assms(3) by simp
    have "partial_ok (fr_capacity f) ?f ?p"
      using p(1-3) True tl unfolding partial_ok_def by (simp add: fc sw CF_CAPNP_MAX_SEGMENTS_def)
    then have "framer_waits ?f m"
      using assms(1,2) grows True by (simp add: framer_waits_def framer_mem_def framer_live_def)
    moreover have "feed_complete cb m f ctx = Some (None, ?f, ctx)"
      using ts True cap assms(4) by (simp add: feed_complete_def)
    ultimately show ?thesis by simp
  next
    case False
    then show ?thesis using ts cap assms(1,4) by (auto simp: feed_complete_def framer_stopped_def framer_mem_def)
  qed
qed

lemma complete_frame:
  assumes "framer_mem f m" "framer_live f m" "fr_used f = fr_target f" "fr_phase f \<noteq> 0" "fr_phase f \<noteq> 1"
  shows "frame_ok (fr_capacity f) (take (fr_used f) m)"
    and "feed_complete cb m f ctx = (case cb ctx (Bytes (take (fr_used f) m)) of None \<Rightarrow> None
      | Some (rc, ctx') \<Rightarrow> Some (if rc = CF_OK then (None, framer_reset f, ctx') else (Some rc, f\<lparr>fr_error := rc\<rparr>, ctx')))"
    and "framer_waits (framer_reset f) m" and "rc \<noteq> CF_OK \<Longrightarrow> framer_stopped (f\<lparr>fr_error := rc\<rparr>) m rc"
proof -
  let ?p = "take (fr_used f) m"
  have len: "length ?p = fr_used f" using assms(1,2) by (simp add: framer_mem_def framer_live_def)
  show "frame_ok (fr_capacity f) ?p"
    using assms len table_bounds(1) [of "frame_count ?p"] by (auto simp: frame_ok_def framer_live_def partial_ok_def)
  show "feed_complete cb m f ctx = (case cb ctx (Bytes ?p) of None \<Rightarrow> None
      | Some (rc, ctx') \<Rightarrow> Some (if rc = CF_OK then (None, framer_reset f, ctx') else (Some rc, f\<lparr>fr_error := rc\<rparr>, ctx')))"
    using assms len by (auto simp: feed_complete_def load_n_def split: option.splits)
  show "framer_waits (framer_reset f) m" "rc \<noteq> CF_OK \<Longrightarrow> framer_stopped (f\<lparr>fr_error := rc\<rparr>) m rc"
    using assms(1) by (auto simp: framer_waits_def framer_stopped_def framer_reset_def framer_mem_def framer_live_def partial_ok_def)
qed


text \<open>The callback's context changes only by a call on a well-formed frame that fits the buffer.\<close>

definition delivered :: "'c message_fn \<Rightarrow> nat \<Rightarrow> 'c \<Rightarrow> 'c \<Rightarrow> bool" where
  "delivered cb cap ctx ctx' \<longleftrightarrow> ctx' = ctx \<or> (\<exists>fr rc. frame_ok cap fr \<and> cb ctx (Bytes fr) = Some (rc, ctx'))"

lemma feed_complete_outcome:
  assumes "framer_mem f m" "framer_live f m" "fr_used f = fr_target f"
  shows "case feed_complete cb m f ctx of
      None \<Rightarrow> \<exists>fr. frame_ok (fr_capacity f) fr \<and> cb ctx (Bytes fr) = None
    | Some (None, f', ctx') \<Rightarrow> framer_waits f' m \<and> fr_capacity f' = fr_capacity f \<and> delivered cb (fr_capacity f) ctx ctx'
    | Some (Some rc, f', ctx') \<Rightarrow> framer_stopped f' m rc \<and> delivered cb (fr_capacity f) ctx ctx'"
proof -
  consider "fr_phase f = 0" | "fr_phase f = 1" | "fr_phase f \<noteq> 0" "fr_phase f \<noteq> 1" by blast
  then show ?thesis
  proof cases
    case 1
    then obtain r f' where "feed_complete cb m f ctx = Some (r, f', ctx)"
      "case r of None \<Rightarrow> framer_waits f' m \<and> f' = f\<lparr>fr_segments := word_of_nat (frame_count m), fr_target := table (frame_count m), fr_phase := 1\<rparr>
        | Some rc \<Rightarrow> framer_stopped f' m rc"
      using complete_count [OF assms 1, of cb ctx] by (auto split: option.splits)
    then show ?thesis by (cases r) (auto simp: delivered_def)
  next
    case 2
    then show ?thesis using complete_table [OF assms 2, of cb ctx] by (auto simp: delivered_def split: option.splits)
  next
    case 3
    show ?thesis
      unfolding complete_frame(2) [OF assms 3, of cb ctx]
      using complete_frame(1,3,4) [OF assms 3] by (auto simp: framer_reset_def delivered_def split: option.splits)
  qed
qed


lemma feed_body_outcome:
  assumes "framer_waits f m" "c < length xs"
  shows "case feed_body cb xs f c ctx of
      None \<Rightarrow> \<exists>fr. frame_ok (fr_capacity f) fr \<and> cb ctx (Bytes fr) = None
    | Some (None, f', c', ctx') \<Rightarrow> (\<exists>m'. framer_waits f' m') \<and> fr_capacity f' = fr_capacity f \<and> c < c' \<and> c' \<le> length xs
        \<and> delivered cb (fr_capacity f) ctx ctx'
    | Some (Some rc, f', c', ctx') \<Rightarrow> (\<exists>m'. framer_stopped f' m' rc) \<and> c < c' \<and> c' \<le> length xs \<and> delivered cb (fr_capacity f) ctx ctx'"
proof -
  let ?n = "min (fr_target f - fr_used f) (length xs - c)"
  let ?ys = "take ?n (drop c xs)"
  let ?f = "framer_copy f m ?ys" and ?m = "splice m (fr_used f) ?ys"
  have fm: "framer_mem f m" "framer_live f m" "fr_used f < fr_target f" using assms(1) by (simp_all add: framer_waits_def)
  have n: "length ?ys = ?n" "0 < ?n" "c + ?n \<le> length xs" using assms(2) fm(3) by auto
  have up: "fr_used f + length ?ys \<le> fr_target f" using n(1) fm(3) by simp
  note copy = framer_copy_live [OF fm(1,2) up]
  show ?thesis
  proof (cases "fr_used f + ?n = fr_target f")
    case True
    have full: "fr_used ?f = fr_target ?f" using True n(1) by simp
    show ?thesis
      using feed_complete_outcome [OF copy full, of cb ctx] feed_body_eq [OF fm(1,2) assms(2), of cb ctx] True n(2,3)
      by (auto split: option.splits)
  next
    case False
    have "framer_waits ?f ?m" using copy False up n(1) by (simp add: framer_waits_def)
    then show ?thesis
      using feed_body_eq [OF fm(1,2) assms(2), of cb ctx] False n(2,3) by (auto simp: delivered_def)
  qed
qed

text \<open>
  The contract between the framer and its consumer: as long as the consumer's state satisfies
  \<open>ok\<close>, it has a defined result on every well-formed frame that fits the buffer and keeps \<open>ok\<close>.
  Under it, feeding never fails to return.
\<close>

locale frame_sink =
  fixes cb :: "'c message_fn" and cap :: nat and ok :: "'c \<Rightarrow> bool"
  assumes sink_total: "ok ctx \<Longrightarrow> frame_ok cap fr \<Longrightarrow> \<exists>rc ctx'. cb ctx (Bytes fr) = Some (rc, ctx') \<and> ok ctx'"
begin

lemma delivered_ok: "delivered cb cap ctx ctx' \<Longrightarrow> ok ctx \<Longrightarrow> ok ctx'"
  using sink_total by (fastforce simp: delivered_def)

lemma feed_loop_safe:
  assumes "framer_waits f m" "fr_capacity f = cap" "c \<le> length xs" "ok ctx"
  shows "\<exists>rc f' c' ctx' m'. feed_loop cb xs f c ctx = Some (rc, f', c', ctx') \<and> c \<le> c' \<and> c' \<le> length xs \<and> ok ctx' \<and>
    (if rc = CF_OK then c' = length xs \<and> framer_waits f' m' \<and> fr_capacity f' = cap else framer_stopped f' m' rc)"
  using assms sink_total delivered_ok
proof (induction cb xs f c ctx arbitrary: m rule: feed_loop.induct)
  case (1 callback xs f c ctx)
  note L = feed_loop.simps [of callback xs f c ctx]
  show ?case
  proof (cases "c < length xs")
    case False
    then show ?thesis using 1(2-5) L by auto
  next
    case True
    note out = feed_body_outcome [OF 1(2) True, of callback ctx]
    show ?thesis
    proof (cases "feed_body callback xs f c ctx")
      case None
      then obtain fr where "frame_ok cap fr" "callback ctx (Bytes fr) = None" using out 1(3) by auto
      then show ?thesis using 1(6) [OF 1(5)] by fastforce
    next
      case (Some r)
      obtain q f' c' ctx' where r: "r = (q, f', c', ctx')" by (metis prod_cases4)
      have ctx': "ok ctx'"
      proof (rule 1(7))
        show "delivered callback cap ctx ctx'" using out Some r 1(3) by (auto split: option.splits)
      qed (rule 1(5))
      show ?thesis
      proof (cases q)
        case None
        then obtain m' where "framer_waits f' m'" "fr_capacity f' = cap" "c < c'" "c' \<le> length xs"
          using out Some r 1(3) by auto
        moreover from this 1(1) [OF True Some] None r 1(6,7) ctx'
        have "\<exists>rc g d ctx'' m''. feed_loop callback xs f' c' ctx' = Some (rc, g, d, ctx'') \<and> c' \<le> d \<and> d \<le> length xs \<and> ok ctx'' \<and>
            (if rc = CF_OK then d = length xs \<and> framer_waits g m'' \<and> fr_capacity g = cap else framer_stopped g m'' rc)"
          by blast
        ultimately show ?thesis using L True Some r None by fastforce
      next
        case (Some rc)
        then show ?thesis using out ctx' \<open>feed_body callback xs f c ctx = Some r\<close> r L True
          by (fastforce simp: framer_stopped_def)
      qed
    qed
  qed
qed

end


section \<open>The stream does not depend on its chunks\<close>

lemma feed_body_split:
  assumes "framer_waits f m" "c + a < length xs" "fr_used f + a < fr_target f"
  shows "feed_body cb xs (framer_copy f m (take a (drop c xs))) (c + a) ctx = feed_body cb xs f c ctx"
proof -
  let ?a = "take a (drop c xs)" let ?f = "framer_copy f m ?a" and ?m = "splice m (fr_used f) ?a"
  have a: "length ?a = a" using assms(2) by simp
  have fm: "framer_mem f m" "framer_live f m" using assms(1) by (simp_all add: framer_waits_def)
  have copy: "framer_mem ?f ?m" "framer_live ?f ?m"
    using framer_copy_live [OF fm, of ?a] a assms(3) by simp_all
  define n where "n = min (fr_target f - fr_used f) (length xs - c)"
  have n': "min (fr_target ?f - fr_used ?f) (length xs - (c + a)) = n - a"
    using a by (simp add: n_def min_def)
  have an: "a \<le> n" using assms(2,3) by (simp add: n_def, linarith)
  have t: "?a @ take (n - a) (drop (c + a) xs) = take n (drop c xs)"
    using take_add [of a "n - a" "drop c xs"] an by (simp add: add.commute)
  have room: "fr_used f + n \<le> length m"
    using fm by (auto simp: framer_mem_def framer_live_def n_def min_def)
  have l2: "length (take (n - a) (drop (c + a) xs)) = n - a" using assms(2) by (auto simp: n_def)
  have "splice ?m (fr_used f + length ?a) (take (n - a) (drop (c + a) xs)) = splice m (fr_used f) (take n (drop c xs))"
    using splice_splice [of "fr_used f" ?a "take (n - a) (drop (c + a) xs)" m] room an a l2 t by simp
  then have m: "splice ?m (fr_used ?f) (take (n - a) (drop (c + a) xs)) = splice m (fr_used f) (take n (drop c xs))" by simp
  have ln: "length (take n (drop c xs)) = n" by (simp add: n_def)
  have f: "framer_copy ?f ?m (take (n - a) (drop (c + a) xs)) = framer_copy f m (take n (drop c xs))"
    using m a l2 ln an by simp
  have c: "c + a + (n - a) = c + n" and u: "fr_used ?f + (n - a) = fr_used f + n" using an a by simp_all
  have "c < length xs" using assms(2) by simp
  show ?thesis
    unfolding feed_body_eq [OF copy assms(2), of cb ctx, unfolded n'] feed_body_eq [OF fm \<open>c < length xs\<close>, of cb ctx, folded n_def]
    unfolding f unfolding m c u by simp
qed

lemma feed_body_prefix:
  assumes "framer_waits f m" "c + (fr_target f - fr_used f) \<le> length xs"
  shows "feed_body cb (xs @ ys) f c ctx = feed_body cb xs f c ctx"
proof -
  have fm: "framer_mem f m" "framer_live f m" "fr_used f < fr_target f" using assms(1) by (simp_all add: framer_waits_def)
  have c: "c < length xs" "c < length (xs @ ys)" using assms(2) fm(3) by simp_all
  have n: "min (fr_target f - fr_used f) (length (xs @ ys) - c) = fr_target f - fr_used f"
    "min (fr_target f - fr_used f) (length xs - c) = fr_target f - fr_used f" using assms(2) by simp_all
  have "take (fr_target f - fr_used f) (drop c (xs @ ys)) = take (fr_target f - fr_used f) (drop c xs)"
    using assms(2) by simp
  then show ?thesis
    unfolding feed_body_eq [OF fm(1,2) c(1), of cb ctx, unfolded n] feed_body_eq [OF fm(1,2) c(2), of cb ctx, unfolded n]
    by (simp only:)
qed

lemma feed_body_short:
  assumes "framer_waits f m" "c < length xs" "length xs < c + (fr_target f - fr_used f)"
  shows "feed_body cb xs f c ctx = Some (None, framer_copy f m (drop c xs), length xs, ctx)"
proof -
  have fm: "framer_mem f m" "framer_live f m" "fr_used f < fr_target f" using assms(1) by (simp_all add: framer_waits_def)
  have n: "min (fr_target f - fr_used f) (length xs - c) = length xs - c" using assms(3) by simp
  show ?thesis
    using feed_body_eq [OF fm(1,2) assms(2), of cb ctx] assms(2,3) unfolding n by simp
qed

lemma feed_loop_append:
  assumes "framer_waits f m" "c \<le> length xs"
  shows "feed_loop cb (xs @ ys) f c ctx = (case feed_loop cb xs f c ctx of None \<Rightarrow> None
    | Some (rc, f', c', ctx') \<Rightarrow> if rc = CF_OK then feed_loop cb (xs @ ys) f' (length xs) ctx' else Some (rc, f', c', ctx'))"
  using assms
proof (induction cb xs f c ctx arbitrary: m rule: feed_loop.induct)
  case (1 callback xs f c ctx)
  note L = feed_loop.simps [of callback xs f c ctx]
  show ?case
  proof (cases "c < length xs")
    case False
    then show ?thesis using 1(3) L by simp
  next
    case True
    note L' = feed_loop.simps [of callback "xs @ ys" f c ctx]
    show ?thesis
    proof (cases "c + (fr_target f - fr_used f) \<le> length xs")
      case full: True
      note B = feed_body_prefix [OF 1(2) full, of callback ys ctx]
      note out = feed_body_outcome [OF 1(2) True, of callback ctx]
      show ?thesis
      proof (cases "feed_body callback xs f c ctx")
        case None
        then show ?thesis using L L' True B by simp
      next
        case (Some r)
        obtain q f' c' ctx' where r: "r = (q, f', c', ctx')" by (metis prod_cases4)
        show ?thesis
        proof (cases q)
          case None
          then obtain m' where "framer_waits f' m'" "c' \<le> length xs" using out Some r by auto
          with 1(1) [OF True Some] None r L L' True B Some show ?thesis by simp
        next
          case (Some rc)
          then show ?thesis using out \<open>feed_body callback xs f c ctx = Some r\<close> r L L' True B
            by (auto simp: framer_stopped_def)
        qed
      qed
    next
      case short: False
      let ?a = "length xs - c"
      have B: "feed_body callback xs f c ctx = Some (None, framer_copy f m (drop c xs), length xs, ctx)"
        using feed_body_short [OF 1(2) True] short by simp
      have "feed_loop callback xs f c ctx = Some (CF_OK, framer_copy f m (drop c xs), length xs, ctx)"
        using L True B by (simp add: feed_loop.simps [of callback xs _ "length xs"])
      moreover have "feed_loop callback (xs @ ys) f c ctx = feed_loop callback (xs @ ys) (framer_copy f m (drop c xs)) (length xs) ctx"
      proof (cases "ys = []")
        case True
        then show ?thesis using L \<open>c < length xs\<close> B by simp
      next
        case False
        have "feed_body callback (xs @ ys) (framer_copy f m (take ?a (drop c (xs @ ys)))) (c + ?a) ctx = feed_body callback (xs @ ys) f c ctx"
          using False short True by (intro feed_body_split [OF 1(2)]) simp_all
        then show ?thesis using L' True False
          by (simp add: feed_loop.simps [of callback "xs @ ys" _ "length xs"])
      qed
      ultimately show ?thesis by simp
    qed
  qed
qed

lemma feed_body_shift:
  "feed_body cb (xs @ ys) f (length xs + c) ctx
    = map_option (\<lambda>(r, f, d, ctx). (r, f, length xs + d, ctx)) (feed_body cb ys f c ctx)"
proof -
  have "load_n (xs @ ys) (length xs + c) n = load_n ys c n" for n by (simp add: load_n_def)
  then show ?thesis
    by (simp add: feed_body_def Let_def map_option_bind o_def split_def if_distrib [where f = "map_option _"] ac_simps
        cong: if_cong Option.bind_cong)
qed

lemma feed_loop_shift:
  "feed_loop cb (xs @ ys) f (length xs + c) ctx
    = map_option (\<lambda>(rc, f, d, ctx). (rc, f, length xs + d, ctx)) (feed_loop cb ys f c ctx)"
proof (induction cb ys f c ctx rule: feed_loop.induct)
  case (1 cb ys f c ctx)
  show ?case
    using 1 by (subst (1 2) feed_loop.simps) (auto simp: feed_body_shift split: option.splits)
qed


section \<open>Every frame is delivered\<close>

lemma prefix_agree:
  assumes "4 \<le> length p"
  shows "frame_count (p @ ys) = frame_count (p @ zs)"
    and "table (frame_count (p @ zs)) \<le> length p \<Longrightarrow> seg_word (p @ ys) 0 = seg_word (p @ zs) 0"
    and "table (frame_count (p @ zs)) \<le> length p \<Longrightarrow>
      seg_words (p @ ys) (frame_count (p @ zs)) = seg_words (p @ zs) (frame_count (p @ zs))"
proof -
  have n: "frame_count (p @ ys) = frame_count p" for ys by (rule partial_mono(1) [OF assms])
  then show "frame_count (p @ ys) = frame_count (p @ zs)" by simp
  have pos: "0 < frame_count p" by (simp add: frame_count_def)
  show "table (frame_count (p @ zs)) \<le> length p \<Longrightarrow> seg_word (p @ ys) 0 = seg_word (p @ zs) 0"
    "table (frame_count (p @ zs)) \<le> length p \<Longrightarrow>
      seg_words (p @ ys) (frame_count (p @ zs)) = seg_words (p @ zs) (frame_count (p @ zs))"
    unfolding n using partial_mono(2,3) [OF assms] pos by simp_all
qed

lemma frame_target:
  assumes "frame_ok cap (p @ q)" "partial_ok cap f p"
  shows "fr_target f \<le> length (p @ q)" "fr_phase f \<noteq> 0 \<Longrightarrow> fr_phase f \<noteq> 1 \<Longrightarrow> fr_target f = length (p @ q)"
proof -
  have *: "fr_target f \<le> length (p @ q) \<and> (fr_phase f \<noteq> 0 \<longrightarrow> fr_phase f \<noteq> 1 \<longrightarrow> fr_target f = length (p @ q))"
  proof (cases "fr_phase f = 0")
    case True
    then show ?thesis using assms by (simp add: partial_ok_def frame_ok_def)
  next
    case False
    then have p: "4 \<le> length p" using assms(2) by (simp add: partial_ok_def)
    show ?thesis
      using prefix_agree [OF p, of q "[]"] assms False
      by (cases "fr_phase f = 1") (simp_all add: partial_ok_def frame_ok_def)
  qed
  then show "fr_target f \<le> length (p @ q)" "fr_phase f \<noteq> 0 \<Longrightarrow> fr_phase f \<noteq> 1 \<Longrightarrow> fr_target f = length (p @ q)"
    by blast+
qed

lemma complete_next:
  assumes "framer_mem f m" "framer_live f m" "fr_used f = fr_target f" "fr_phase f = 0 \<or> fr_phase f = 1"
    and fr: "frame_ok (fr_capacity f) (take (fr_used f) m @ q)"
  shows "\<exists>f'. feed_complete cb m f ctx = Some (None, f', ctx) \<and> framer_waits f' m \<and> fr_used f' = fr_used f
    \<and> fr_capacity f' = fr_capacity f"
proof -
  let ?p = "take (fr_used f) m"
  have len: "length ?p = fr_used f" using assms(1,2) by (simp add: framer_mem_def framer_live_def)
  have four: "4 \<le> length ?p" using assms(2-4) len by (auto simp: framer_live_def partial_ok_def)
  have m: "m = ?p @ drop (fr_used f) m" by simp
  have count: "frame_count m = frame_count (?p @ q)"
    by (subst m) (rule prefix_agree(1) [OF four])
  show ?thesis
  proof (cases "fr_phase f = 0")
    case True
    have "frame_count m \<le> CF_CAPNP_MAX_SEGMENTS" "table (frame_count m) \<le> fr_capacity f"
      using fr unfolding count by (auto simp: frame_ok_def)
    then show ?thesis using complete_count [OF assms(1-3) True, of cb ctx] by (auto split: option.splits)
  next
    case False
    then have one: "fr_phase f = 1" using assms(4) by simp
    have "table (frame_count m) \<le> length ?p"
      using assms(2,3) one len partial_mono(1) [OF four, of "drop (fr_used f) m"]
      by (simp add: framer_live_def partial_ok_def)
    then have t: "table (frame_count (?p @ q)) \<le> length ?p" using count by simp
    have "seg_word m 0 = seg_word (?p @ q) 0"
      by (subst m) (rule prefix_agree(2) [OF four t])
    moreover have "seg_words m (frame_count m) = seg_words (?p @ q) (frame_count (?p @ q))"
      unfolding count by (subst m) (rule prefix_agree(3) [OF four t])
    ultimately have "seg_word m 0 \<noteq> 0" "table (frame_count m) + 8 * seg_words m (frame_count m) \<le> fr_capacity f"
      using fr unfolding count by (simp_all add: frame_ok_def)
    then show ?thesis using complete_table [OF assms(1-3) one, of cb ctx] by (auto split: option.splits)
  qed
qed

lemma feed_loop_frame:
  assumes "framer_waits f m" "c \<le> length xs" "take (fr_used f) m @ drop c xs = fr"
    "frame_ok (fr_capacity f) fr" "cb ctx (Bytes fr) = Some (CF_OK, ctx')"
  shows "\<exists>f'. feed_loop cb xs f c ctx = Some (CF_OK, f', length xs, ctx') \<and> framer_fresh f' (fr_capacity f)"
  using assms
proof (induction cb xs f c ctx arbitrary: m rule: feed_loop.induct)
  case (1 cb xs f c ctx)
  let ?p = "take (fr_used f) m" let ?T = "fr_target f - fr_used f"
  have fm: "framer_mem f m" "framer_live f m" "fr_used f < fr_target f" using 1(2) by (simp_all add: framer_waits_def)
  have len: "length ?p = fr_used f" using fm by (simp add: framer_mem_def framer_live_def)
  have part: "partial_ok (fr_capacity f) f ?p" using fm(2) by (simp add: framer_live_def)
  note target = frame_target [OF _ part, of "drop c xs", unfolded 1(4), OF 1(5)]
  have flen: "length fr = fr_used f + (length xs - c)" using 1(4) len by (metis length_append length_drop)
  have c: "c < length xs" and T: "?T \<le> length xs - c" using target(1) fm(3) flen 1(3) by linarith+
  let ?ys = "take ?T (drop c xs)" let ?f = "framer_copy f m ?ys" and ?m = "splice m (fr_used f) ?ys"
  have ys: "length ?ys = ?T" "fr_used f + length ?ys \<le> fr_target f" using T fm(3) by simp_all
  note copy = framer_copy_live [OF fm(1,2) ys(2)]
  have full: "fr_used ?f = fr_target ?f" using ys(1) fm(3) by simp
  have body: "feed_body cb xs f c ctx = map_option (\<lambda>(r, g, ctx). (r, g, c + ?T, ctx)) (feed_complete cb ?m ?f ctx)"
    using feed_body_eq [OF fm(1,2) c, of cb ctx] T fm(3) by (simp add: min_absorb1)
  have room: "fr_used f + length ?ys \<le> length m" using ys(1) fm by (auto simp: framer_mem_def framer_live_def)
  have "take (fr_used ?f) ?m = ?p @ ?ys" using room T by (simp add: splice_def min_absorb2)
  then have fr: "take (fr_used ?f) ?m @ drop (c + ?T) xs = fr"
    using 1(4) T by (metis append.assoc append_take_drop_id drop_drop add.commute)
  note L = feed_loop.simps [of cb xs f c ctx]
  show ?case
  proof (cases "fr_phase f = 0 \<or> fr_phase f = 1")
    case True
    then obtain g where g: "feed_complete cb ?m ?f ctx = Some (None, g, ctx)" "framer_waits g ?m"
      "fr_used g = fr_used ?f" "fr_capacity g = fr_capacity f"
      using complete_next [OF copy full, of "drop (c + ?T) xs" cb ctx] 1(5) fr by auto
    have B: "feed_body cb xs f c ctx = Some (None, g, c + ?T, ctx)" using body g(1) by simp
    have le: "c + ?T \<le> length xs" using T c by linarith
    have "take (fr_used g) ?m @ drop (c + ?T) xs = fr" using fr g(3) by simp
    from 1(1) [OF c B refl refl refl refl g(2) le this] 1(5,6) g(4) show ?thesis
      using L c B by simp
  next
    case False
    then have phase: "fr_phase ?f \<noteq> 0" "fr_phase ?f \<noteq> 1" by simp_all
    have all: "c + ?T = length xs" using target(2) False flen fm(3) c by simp
    then have "take (fr_used ?f) ?m = fr" using fr by simp
    then have "feed_complete cb ?m ?f ctx = Some (None, framer_reset ?f, ctx')"
      using complete_frame(2) [OF copy full phase, of cb ctx] 1(6) by simp
    then have B: "feed_body cb xs f c ctx = Some (None, framer_reset ?f, length xs, ctx')" using body all by simp
    have "framer_fresh (framer_reset ?f) (fr_capacity f)"
      using complete_frame(3) [OF copy full phase] by (auto simp: framer_fresh_def framer_reset_def)
    then show ?thesis using L c B by (simp add: feed_loop.simps [of cb xs _ "length xs"])
  qed
qed


lemma feed_loop_frames:
  assumes "framer_fresh f cap" "list_all (frame_ok cap) frames"
  shows "\<exists>f'. feed_loop (\<lambda>ctx b. Some (CF_OK, upd ctx b)) (concat frames) f 0 ctx
      = Some (CF_OK, f', length (concat frames), fold (\<lambda>fr ctx. upd ctx (Bytes fr)) frames ctx) \<and> framer_fresh f' cap"
  using assms
proof (induction frames arbitrary: f ctx)
  case Nil
  then show ?case by (simp add: feed_loop.simps)
next
  case (Cons fr frames)
  let ?cb = "\<lambda>ctx b. Some (CF_OK, upd ctx b)"
  obtain m where m: "framer_waits f m" "fr_used f = 0" "fr_capacity f = cap" using Cons.prems(1) by (auto simp: framer_fresh_def)
  then obtain g where g: "feed_loop ?cb fr f 0 ctx = Some (CF_OK, g, length fr, upd ctx (Bytes fr))" "framer_fresh g cap"
    using feed_loop_frame [of f m 0 fr fr ?cb ctx "upd ctx (Bytes fr)"] Cons.prems(2) by auto
  have "feed_loop ?cb (fr @ concat frames) f 0 ctx = feed_loop ?cb (fr @ concat frames) g (length fr + 0) (upd ctx (Bytes fr))"
    using feed_loop_append [OF m(1), of 0 fr ?cb "concat frames" ctx] g(1) by simp
  also have "\<dots> = map_option (\<lambda>(rc, f, d, ctx). (rc, f, length fr + d, ctx)) (feed_loop ?cb (concat frames) g 0 (upd ctx (Bytes fr)))"
    by (rule feed_loop_shift)
  finally show ?case using Cons.IH [OF g(2)] Cons.prems(2) by force
qed

context frame_sink
begin

lemma feed_chunks_concat:
  assumes "framer_waits f m" "fr_capacity f = cap" "ok ctx"
  shows "feed_chunks cb f chunks ctx
    = map_option (\<lambda>(rc, f, n, ctx). (rc, Some f, ctx)) (feed_loop cb (concat chunks) f 0 ctx)"
  using assms
proof (induction chunks arbitrary: f m ctx)
  case Nil
  then show ?case by (simp add: feed_loop.simps)
next
  case (Cons xs chunks)
  obtain rc g n ctx' m' where g: "feed_loop cb xs f 0 ctx = Some (rc, g, n, ctx')"
    "if rc = CF_OK then n = length xs \<and> framer_waits g m' \<and> fr_capacity g = cap else framer_stopped g m' rc" "ok ctx'"
    using feed_loop_safe [OF Cons.prems(1,2) _ Cons.prems(3), of 0 xs] by auto
  have live: "fr_error f = CF_OK" "fr_buffer f \<noteq> None"
    using Cons.prems(1) by (auto simp: framer_waits_def framer_live_def framer_mem_def)
  have feed: "cf_capnp_feed (Some f) (Bytes xs) (Some 0) (Some cb) ctx = Some (rc, Some g, Some n, ctx')"
    using live g(1) by (auto simp: cf_capnp_feed_def)
  have app: "feed_loop cb (xs @ concat chunks) f 0 ctx =
      (if rc = CF_OK then feed_loop cb (xs @ concat chunks) g (length xs + 0) ctx' else Some (rc, g, n, ctx'))"
    using feed_loop_append [OF Cons.prems(1), of 0 xs cb "concat chunks" ctx] g(1) by simp
  show ?case
  proof (cases "rc = CF_OK")
    case True
    then have "framer_waits g m'" "fr_capacity g = cap" "ok ctx'" using g(2,3) by simp_all
    then have "feed_chunks cb g chunks ctx' = map_option (\<lambda>(rc, f, n, ctx). (rc, Some f, ctx)) (feed_loop cb (concat chunks) g 0 ctx')"
      by (rule Cons.IH)
    then show ?thesis using True feed app feed_loop_shift [of cb xs "concat chunks" g 0 ctx']
      by (cases "feed_loop cb (concat chunks) g 0 ctx'") (auto)
  next
    case False
    then show ?thesis using feed app by simp
  qed
qed

end

section \<open>Segments\<close>

lemma segment_offset_eq:
  assumes "4 + (i + k) * 4 \<le> length p"
  shows "segment_offset p i k (base + 8 * seg_words p i) = Some (base + 8 * seg_words p (i + k))"
  using assms
proof (induction k arbitrary: i)
  case (Suc k)
  obtain w where w: "u32_at p (4 + i * 4) = Some w" "unat w = seg_word p i"
    using Suc.prems u32_seg_word [of i p] by auto
  have "base + 8 * seg_words p i + unat w * 8 = base + 8 * seg_words p (i + 1)" using w(2) by (simp add: seg_words_Suc)
  then have "segment_offset p i (Suc k) (base + 8 * seg_words p i) = segment_offset p (i + 1) k (base + 8 * seg_words p (i + 1))"
    using w(1) by (simp only: segment_offset.simps bind.bind_lunit)
  then show ?case using Suc.IH [of "i + 1"] Suc.prems by simp
qed simp

lemma segment_cases:
  "\<exists>rc s. cf_capnp_segment (Bytes xs) i (Some s0) = Some (rc, s) \<and>
    (if frame_ok CF_CAPNP_MESSAGE_MAX xs \<and> unat i < frame_count xs
     then rc = CF_OK \<and> s = Some (Bytes (frame_segment xs (unat i)))
     else rc \<noteq> CF_OK \<and> s = Some (Null_Bytes 0))"
proof (cases "length xs < 8")
  case True
  then show ?thesis by (auto simp: cf_capnp_segment_def frame_ok_def)
next
  case False
  then obtain w where w: "u32_at xs 0 = Some w" "unat w + 1 = frame_count xs"
    using u32_at_Some [of 0 xs] by (auto simp: frame_count_def)
  show ?thesis
  proof (cases "unat w < 8 \<and> unat i < frame_count xs \<and> table (frame_count xs) \<le> length xs")
    case True
    then have w1: "unat (w + 1) = frame_count xs" using w(2) by (simp add: unat_word_ariths)
    then have t: "table_size (w + 1) = table (frame_count xs)" using table_size_table [of "w + 1"] True w(2) by simp
    have lt: "\<not> w + 1 \<le> i" using True w1 by (simp add: word_le_nat_alt)
    have ts: "total_size xs (w + 1) CF_CAPNP_MESSAGE_MAX = Some (
        if seg_word xs 0 = 0 then Inl CF_ERR_FORMAT
        else if table (frame_count xs) + 8 * seg_words xs (frame_count xs) \<le> CF_CAPNP_MESSAGE_MAX
        then Inr (table (frame_count xs) + 8 * seg_words xs (frame_count xs)) else Inl CF_ERR_LIMIT)"
      using total_size_eq [of "w + 1" xs CF_CAPNP_MESSAGE_MAX] w1 True w(2) table_bounds(3) [of "frame_count xs"]
      by (simp add: CF_CAPNP_MESSAGE_MAX_def)
    have ix: "4 + (0 + unat i) * 4 + 4 \<le> length xs"
      using True table_bounds(2) [of "frame_count xs"] by auto
    obtain v where v: "u32_at xs (4 + unat i * 4) = Some v" "unat v = seg_word xs (unat i)"
      using u32_seg_word [of "unat i" xs] ix by auto
    have off: "segment_offset xs 0 (unat i) (table (frame_count xs)) = Some (table (frame_count xs) + 8 * seg_words xs (unat i))"
      using segment_offset_eq [of 0 "unat i" xs "table (frame_count xs)"] ix by simp
    show ?thesis
    proof (cases "seg_word xs 0 \<noteq> 0 \<and> table (frame_count xs) + 8 * seg_words xs (frame_count xs) = length xs \<and> length xs \<le> CF_CAPNP_MESSAGE_MAX")
      case ok: True
      then have "frame_ok CF_CAPNP_MESSAGE_MAX xs"
        using False True w(2) by (simp add: frame_ok_def CF_CAPNP_MAX_SEGMENTS_def)
      moreover have "seg_words xs (Suc (unat i)) \<le> seg_words xs (frame_count xs)"
        using True by (intro seg_words_mono) simp
      then have "table (frame_count xs) + 8 * seg_words xs (unat i) + seg_word xs (unat i) * 8 \<le> length xs"
        using ok by (simp add: seg_words_Suc)
      ultimately show ?thesis using False True w(1) lt t ts ok off v
        by (simp add: cf_capnp_segment_def Let_def CF_CAPNP_MAX_SEGMENTS_def load_n_def frame_segment_def mult.commute)
    next
      case bad: False
      then have "\<not> frame_ok CF_CAPNP_MESSAGE_MAX xs" by (auto simp: frame_ok_def)
      then show ?thesis using False True w(1) lt t ts bad
        by (auto simp: cf_capnp_segment_def Let_def CF_CAPNP_MAX_SEGMENTS_def)
    qed
  next
    case bad: False
    have t: "unat w < 8 \<Longrightarrow> table_size (w + 1) = table (frame_count xs) \<and> unat (w + 1) = frame_count xs"
      using table_size_table [of "w + 1"] w(2) by (simp add: unat_word_ariths)
    have "\<not> (frame_ok CF_CAPNP_MESSAGE_MAX xs \<and> unat i < frame_count xs)"
      using bad w(2) by (auto simp: frame_ok_def CF_CAPNP_MAX_SEGMENTS_def)
    moreover have "w + 1 \<le> i \<longleftrightarrow> \<not> unat i < frame_count xs" if "unat w < 8"
      using t [OF that] by (simp add: word_le_nat_alt not_less)
    ultimately show ?thesis using False w(1) bad t
      by (auto simp: cf_capnp_segment_def Let_def CF_CAPNP_MAX_SEGMENTS_def)
  qed
qed

lemma segments_concat:
  assumes "frame_ok cap xs" "n \<le> frame_count xs"
  shows "concat (map (frame_segment xs) [0..<n]) = take (8 * seg_words xs n) (drop (table (frame_count xs)) xs)"
  using assms(2)
proof (induction n)
  case (Suc n)
  have "frame_segment xs n = take (8 * seg_word xs n) (drop (8 * seg_words xs n) (drop (table (frame_count xs)) xs))"
    by (simp add: frame_segment_def add.commute)
  then show ?case using Suc by (simp add: seg_words_Suc take_add distrib_left)
qed simp


section \<open>Properties\<close>

lemma init_fresh:
  assumes "cf_capnp_framer_init fp (Some m) cap = (CF_OK, Some f)" "cap \<le> length m"
  shows "framer_fresh f cap"
proof -
  let ?f = "framer_reset \<lparr>fr_buffer = Some m, fr_capacity = cap, fr_used = 0, fr_target = 0, fr_segments = 0, fr_phase = 0, fr_error = CF_OK\<rparr>"
  have f: "f = ?f" "16 \<le> cap" "cap \<le> CF_CAPNP_MESSAGE_MAX"
    using assms(1) by (auto simp: cf_capnp_framer_init_def split: if_splits)
  then have "framer_waits f m"
    using assms(2) by (simp add: framer_waits_def framer_mem_def framer_live_def partial_ok_def framer_reset_def)
  then show ?thesis using f by (auto simp: framer_fresh_def framer_reset_def)
qed

lemma framer_inv_cases:
  "framer_inv f \<longleftrightarrow> (\<exists>m. if fr_error f = CF_OK then framer_waits f m else framer_stopped f m (fr_error f))"
  by (auto simp: framer_inv_def framer_waits_def framer_stopped_def)

text \<open>A one-segment frame with one word, used in the examples.\<close>

definition tiny_frame :: "u8 list" where
  "tiny_frame = [0, 0, 0, 0, 1, 0, 0, 0, 9, 9, 9, 9, 9, 9, 9, 9]"

lemma tiny_frame_ok: "frame_ok 16 tiny_frame" "frame_ok 16384 tiny_frame"
  by (simp_all add: frame_ok_def tiny_frame_def frame_count_def table_def seg_word_def seg_words_def CF_CAPNP_MAX_SEGMENTS_def)

definition blank_framer :: cf_capnp_framer where
  "blank_framer = \<lparr>fr_buffer = None, fr_capacity = 0, fr_used = 0, fr_target = 0, fr_segments = 0, fr_phase = 0,
     fr_error = CF_OK\<rparr>"

definition tiny_framer :: cf_capnp_framer where
  "tiny_framer = the (snd (cf_capnp_framer_init (Some blank_framer) (Some (replicate 16 0)) 16))"

lemma tiny_framer_init:
  "cf_capnp_framer_init (Some blank_framer) (Some (replicate 16 0)) 16 = (CF_OK, Some tiny_framer)"
  by (simp add: tiny_framer_def cf_capnp_framer_init_def CF_CAPNP_MESSAGE_MAX_def)

text \<open>
  Feeding any bytes to a framer in a reachable state returns and keeps the invariant: the
  buffer is never left, the loop always makes progress, either all bytes are consumed with
  \<open>CF_OK\<close> or the error is stored. It is enough that the callback has a result on well-formed
  frames, so the callback is never called with anything else.
\<close>

theorem framer_feed_safe:
  assumes "framer_inv f" "\<And>fr ctx. frame_ok (fr_capacity f) fr \<Longrightarrow> cb ctx (Bytes fr) \<noteq> None"
  shows "\<exists>rc f' n ctx'. cf_capnp_feed (Some f) (Bytes xs) (Some k) (Some cb) ctx = Some (rc, Some f', Some n, ctx')
    \<and> framer_inv f' \<and> n \<le> length xs \<and> fr_error f' = rc \<and> (rc = CF_OK \<longrightarrow> n = length xs)"
proof (cases "fr_error f = CF_OK")
  case False
  then show ?thesis using assms(1) by (auto simp: cf_capnp_feed_def framer_inv_def framer_mem_def)
next
  case True
  then obtain m where m: "framer_waits f m" using assms(1) by (auto simp: framer_inv_cases)
  have sink: "frame_sink cb (fr_capacity f) (\<lambda>_. True)" using assms(2) by (intro frame_sink.intro) fastforce
  obtain rc f' n ctx' m' where g: "feed_loop cb xs f 0 ctx = Some (rc, f', n, ctx')" "n \<le> length xs"
    "if rc = CF_OK then n = length xs \<and> framer_waits f' m' \<and> fr_capacity f' = fr_capacity f else framer_stopped f' m' rc"
    using frame_sink.feed_loop_safe [OF sink m refl, of 0 xs ctx] by auto
  then have "framer_inv f' \<and> fr_error f' = rc"
    by (auto simp: framer_inv_cases framer_waits_def framer_live_def framer_stopped_def split: if_splits)
  moreover have "fr_buffer f \<noteq> None" using m by (simp add: framer_waits_def framer_mem_def)
  ultimately show ?thesis using g True by (auto simp: cf_capnp_feed_def split: if_splits)
qed

theorem framer_feed_safe_witness:
  "\<exists>rc f' n ctx'. cf_capnp_feed (Some tiny_framer) (Bytes [7, 1, 2, 3]) (Some 0) (Some (\<lambda>l b. Some (CF_OK, b # l))) []
     = Some (rc, Some f', Some n, ctx') \<and> framer_inv f'"
proof -
  have "framer_inv tiny_framer"
    using init_fresh [OF tiny_framer_init] by (auto simp: framer_fresh_def framer_inv_cases framer_waits_def framer_live_def)
  from framer_feed_safe [OF this, of "\<lambda>l b. Some (CF_OK, b # l)" "[7, 1, 2, 3]" 0 "[]"] show ?thesis by blast
qed

text \<open>
  The framer is insensitive to how the transport splits the stream: two sequences of chunks
  with the same bytes give the same result code, the same framer and the same callback context.
\<close>

theorem framer_chunk_independent:
  assumes "framer_inv f" "fr_error f = CF_OK" "concat chunks = concat chunks'"
    and "\<And>fr ctx. frame_ok (fr_capacity f) fr \<Longrightarrow> cb ctx (Bytes fr) \<noteq> None"
  shows "feed_chunks cb f chunks ctx = feed_chunks cb f chunks' ctx"
proof -
  obtain m where m: "framer_waits f m" using assms(1,2) by (auto simp: framer_inv_cases)
  have sink: "frame_sink cb (fr_capacity f) (\<lambda>_. True)" using assms(4) by (intro frame_sink.intro) fastforce
  show ?thesis using frame_sink.feed_chunks_concat [OF sink m refl] assms(3) by simp
qed

theorem framer_chunk_independent_witness:
  "feed_chunks (\<lambda>l b. Some (CF_OK, l @ [b])) tiny_framer [[0, 0], [0], [], [0, 1]] []
     = feed_chunks (\<lambda>l b. Some (CF_OK, l @ [b])) tiny_framer [[0, 0, 0, 0, 1]] []"
proof -
  have "framer_inv tiny_framer \<and> fr_error tiny_framer = CF_OK"
    using init_fresh [OF tiny_framer_init] by (auto simp: framer_fresh_def framer_inv_cases framer_waits_def framer_live_def)
  then show ?thesis
    by (intro framer_chunk_independent [of tiny_framer "[[0, 0], [0], [], [0, 1]]" "[[0, 0, 0, 0, 1]]" "\<lambda>l b. Some (CF_OK, l @ [b])"])
      simp_all
qed

text \<open>
  C30. However a sequence of well-formed frames is cut into chunks, the callback receives
  exactly these frames in this order, and the framer ends between frames: \<open>cf_capnp_eof\<close> then
  reports a clean end of stream.
\<close>

theorem framer_delivers_frames:
  assumes "cf_capnp_framer_init fp (Some m) cap = (CF_OK, Some f)" "cap \<le> length m"
    and "list_all (frame_ok cap) frames" "concat chunks = concat frames"
  shows "\<exists>f'. feed_chunks (\<lambda>ctx b. Some (CF_OK, upd ctx b)) f chunks ctx
      = Some (CF_OK, Some f', fold (\<lambda>fr ctx. upd ctx (Bytes fr)) frames ctx)
    \<and> cf_capnp_eof (Some f') = CF_OK"
proof -
  have fresh: "framer_fresh f cap" using assms(1,2) by (rule init_fresh)
  then obtain m' where m': "framer_waits f m'" "fr_capacity f = cap" by (auto simp: framer_fresh_def)
  have sink: "frame_sink (\<lambda>ctx b. Some (CF_OK, upd ctx b)) cap (\<lambda>_. True)" by (rule frame_sink.intro) simp
  obtain f' where f': "feed_loop (\<lambda>ctx b. Some (CF_OK, upd ctx b)) (concat frames) f 0 ctx
      = Some (CF_OK, f', length (concat frames), fold (\<lambda>fr ctx. upd ctx (Bytes fr)) frames ctx)" "framer_fresh f' cap"
    using feed_loop_frames [OF fresh assms(3), where upd = upd and ctx = ctx] by (elim exE conjE)
  have "feed_chunks (\<lambda>ctx b. Some (CF_OK, upd ctx b)) f chunks ctx
      = Some (CF_OK, Some f', fold (\<lambda>fr ctx. upd ctx (Bytes fr)) frames ctx)"
    unfolding frame_sink.feed_chunks_concat [OF sink m' TrueI, of chunks ctx] assms(4) f'(1) by simp
  moreover have "cf_capnp_eof (Some f') = CF_OK"
  proof -
    have "fr_used f' = 0" "fr_error f' = CF_OK"
      using f'(2) unfolding framer_fresh_def framer_waits_def framer_live_def by blast+
    then show ?thesis by (simp add: cf_capnp_eof_def)
  qed
  ultimately show ?thesis by blast
qed

theorem framer_delivers_frames_witness:
  "\<exists>f'. feed_chunks (\<lambda>l b. Some (CF_OK, l @ [b])) tiny_framer [take 5 tiny_frame, drop 5 tiny_frame @ take 3 tiny_frame, drop 3 tiny_frame] []
      = Some (CF_OK, Some f', [Bytes tiny_frame, Bytes tiny_frame])"
proof -
  let ?chunks = "[take 5 tiny_frame, drop 5 tiny_frame @ take 3 tiny_frame, drop 3 tiny_frame]"
  have "concat ?chunks = concat [tiny_frame, tiny_frame]" by (simp add: tiny_frame_def)
  from framer_delivers_frames [OF tiny_framer_init _ _ this, of "\<lambda>l b. l @ [b]" "[]"] show ?thesis
    using tiny_frame_ok(1)
    by (simp only: length_replicate list.pred_inject fold.simps o_def id_def append_Nil append_Cons simp_thms order_refl) blast
qed

text \<open>
  \<open>cf_capnp_segment\<close> accepts exactly the well-formed frames of at most 16384 bytes and the
  indices of their segments; the views it returns lie inside the frame, and together they are
  all the bytes after the table.
\<close>

theorem segment_exact:
  "\<exists>rc s. cf_capnp_segment (Bytes xs) i (Some s0) = Some (rc, s)
    \<and> (rc = CF_OK \<longleftrightarrow> frame_ok CF_CAPNP_MESSAGE_MAX xs \<and> unat i < frame_count xs)
    \<and> s = Some (if rc = CF_OK then Bytes (frame_segment xs (unat i)) else Null_Bytes 0)
    \<and> (rc = CF_OK \<longrightarrow> concat (map (frame_segment xs) [0..<frame_count xs]) = drop (table (frame_count xs)) xs)"
proof -
  have "concat (map (frame_segment xs) [0..<frame_count xs]) = drop (table (frame_count xs)) xs" if "frame_ok CF_CAPNP_MESSAGE_MAX xs"
    using segments_concat [OF that order_refl] that by (auto simp: frame_ok_def)
  then show ?thesis using segment_cases [of xs i s0] by (auto split: if_splits)
qed

theorem segment_exact_witness:
  "cf_capnp_segment (Bytes tiny_frame) 0 (Some (Null_Bytes 0)) = Some (CF_OK, Some (Bytes [9, 9, 9, 9, 9, 9, 9, 9]))"
  using segment_exact [of tiny_frame 0 "Null_Bytes 0"] tiny_frame_ok(2)
  by (auto simp: CF_CAPNP_MESSAGE_MAX_def tiny_frame_def frame_segment_def frame_count_def seg_word_def seg_words_def table_def)

end
