(* ===== verification/CF_Capnp.thy ===== *)
theory CF_Capnp
  imports CF_Framing
begin

text \<open>
  The Cap'n Proto reader of \<^verbatim>\<open>src/protocol/cf_capnp.c\<close>: it follows
  struct, list, far and capability pointers through views of a frame's segments, with a
  traversal budget and a depth limit. The builder of the same file is in theory \<open>CF_Build\<close>.

  Every operation takes the reader and returns it updated. Word counts that the C
  code keeps in a \<open>uint64_t\<close> are \<open>nat\<close>: they are computed from fields of at most 30 bits and
  factors of at most 17 bits and cannot wrap there.
\<close>

section \<open>The reader\<close>

definition CF_CAPNP_DEPTH_MAX :: u8 where "CF_CAPNP_DEPTH_MAX = 32"
definition CF_CAPNP_TRAVERSAL_WORDS :: u32 where "CF_CAPNP_TRAVERSAL_WORDS = 4096"

datatype cf_cp_kind = CF_CP_NULL | CF_CP_STRUCT | CF_CP_LIST | CF_CP_CAP

record cf_cp_value =
  cv_kind :: cf_cp_kind
  cv_segment :: u32
  cv_word :: u32
  cv_count :: u32
  cv_cap :: u32
  cv_data_words :: u16
  cv_pointers :: u16
  cv_element_size :: u8
  cv_depth :: u8

record cf_cp_reader =
  rd_segments :: "cf_bytes list"
  rd_segment_count :: u32
  rd_budget :: u32
  rd_error :: cf_result

definition zero_value :: cf_cp_value where
  "zero_value = \<lparr>cv_kind = CF_CP_NULL, cv_segment = 0, cv_word = 0, cv_count = 0, cv_cap = 0,
     cv_data_words = 0, cv_pointers = 0, cv_element_size = 0, cv_depth = 0\<rparr>"

definition cp_range :: "cf_cp_reader \<Rightarrow> u32 \<Rightarrow> u32 \<Rightarrow> nat \<Rightarrow> (bool \<times> cf_cp_reader) option" where
  "cp_range r seg word words =
     (if rd_error r \<noteq> CF_OK then Some (False, r)
      else if seg \<ge> rd_segment_count r then Some (False, r\<lparr>rd_error := CF_ERR_FORMAT\<rparr>)
      else do {
        s \<leftarrow> load (rd_segments r) (unat seg);
        if unat word > bytes_len s div 8 \<or> words > bytes_len s div 8 - unat word
        then Some (False, r\<lparr>rd_error := CF_ERR_FORMAT\<rparr>)
        else Some (True, r)
      })"

definition charge :: "cf_cp_reader \<Rightarrow> nat \<Rightarrow> bool \<times> cf_cp_reader" where
  "charge r words = (let words = (if words = 0 then 1 else words) in
     if words > unat (rd_budget r) then (False, r\<lparr>rd_error := CF_ERR_LIMIT\<rparr>)
     else (True, r\<lparr>rd_budget := rd_budget r - word_of_nat words\<rparr>))"

definition word_at :: "cf_cp_reader \<Rightarrow> u32 \<Rightarrow> u32 \<Rightarrow> (u64 \<times> cf_cp_reader) option" where
  "word_at r seg word = do {
     (ok, r) \<leftarrow> cp_range r seg word 1;
     if \<not> ok then Some (0, r)
     else do {
       s \<leftarrow> load (rd_segments r) (unat seg);
       v \<leftarrow> le (bytes_list s) (unat word * 8) 8;
       Some (v, r)
     }
   }"

text \<open>The loop over the remaining segments; \<open>k\<close> of them are left.\<close>

fun read_init_loop :: "cf_bytes \<Rightarrow> nat \<Rightarrow> nat \<Rightarrow> cf_cp_reader \<Rightarrow> (cf_result \<times> cf_cp_reader) option" where
  "read_init_loop frame i 0 r = Some (CF_OK, r)"
| "read_init_loop frame i (Suc k) r = do {
     old \<leftarrow> load (rd_segments r) i;
     (rc, s) \<leftarrow> cf_capnp_segment frame (word_of_nat i) (Some old);
     s \<leftarrow> s;
     segs \<leftarrow> store (rd_segments r) i s;
     let r = r\<lparr>rd_segments := segs, rd_error := rc\<rparr>;
     if rc \<noteq> CF_OK then Some (rc, r) else read_init_loop frame (i + 1) k r
   }"

definition cf_cp_read_init :: "cf_cp_reader option \<Rightarrow> cf_bytes \<Rightarrow> (cf_result \<times> cf_cp_reader option) option" where
  "cf_cp_read_init rp frame = (case rp of None \<Rightarrow> Some (CF_ERR_ARGUMENT, None) | Some _ \<Rightarrow> do {
     let r = \<lparr>rd_segments = replicate CF_CAPNP_MAX_SEGMENTS (Null_Bytes 0), rd_segment_count = 0,
        rd_budget = CF_CAPNP_TRAVERSAL_WORDS, rd_error = CF_OK\<rparr>;
     old \<leftarrow> load (rd_segments r) 0;
     (rc, s) \<leftarrow> cf_capnp_segment frame 0 (Some old);
     s \<leftarrow> s;
     segs \<leftarrow> store (rd_segments r) 0 s;
     let r = r\<lparr>rd_segments := segs, rd_error := rc\<rparr>;
     if rc \<noteq> CF_OK then Some (rc, Some r)
     else do {
       n \<leftarrow> le (bytes_list frame) 0 4;
       let r = r\<lparr>rd_segment_count := ucast n + 1\<rparr>;
       (rc, r) \<leftarrow> read_init_loop frame 1 (unat (rd_segment_count r) - 1) r;
       Some (rc, Some r)
     }
   })"

text \<open>
  The far-pointer part of \<open>follow\<close>: exactly one landing pad is resolved. The result is the
  segment, the slot, the pointer word and \<open>direct_target\<close>, or \<open>None\<close> when the C function has
  returned the null value.
\<close>

definition follow_far :: "cf_cp_reader \<Rightarrow> u32 \<Rightarrow> u32 \<Rightarrow> u64 \<Rightarrow> ((u32 \<times> u32 \<times> u64 \<times> bool) option \<times> cf_cp_reader) option" where
  "follow_far r seg slot p =
     (if p AND 3 = 2 then do {
        let two = (p AND 4 \<noteq> 0);
        let slot = drop_bit 3 (ucast p :: u32);
        let seg = ucast (drop_bit 32 p);
        (ok, r) \<leftarrow> cp_range r seg slot (if two then 2 else 1);
        if \<not> ok then Some (None, r)
        else let (ok, r) = charge r (if two then 2 else 1) in
        if \<not> ok then Some (None, r)
        else do {
          (p, r) \<leftarrow> word_at r seg slot;
          if two then do {
            (tag, r) \<leftarrow> word_at r seg (slot + 1);
            if p AND 7 \<noteq> 2 \<or> drop_bit 2 (ucast tag :: u32) \<noteq> 0 \<or> tag AND 3 > 1
            then Some (None, r\<lparr>rd_error := CF_ERR_FORMAT\<rparr>)
            else Some (Some (ucast (drop_bit 32 p), drop_bit 3 (ucast p :: u32), tag, True), r)
          }
          else if p AND 3 > 1 \<or> p = 0 then Some (None, r\<lparr>rd_error := CF_ERR_FORMAT\<rparr>)
          else Some (Some (seg, slot, p, False), r)
        }
      }
      else Some (Some (seg, slot, p, False), r))"

text \<open>The target word of a pointer: a signed 30-bit offset from the word after it.\<close>

definition pointer_target :: "u64 \<Rightarrow> u32 \<Rightarrow> bool \<Rightarrow> int" where
  "pointer_target p slot direct_target =
     (let offset = uint (drop_bit 2 (ucast p :: u32));
          offset = (if offset AND 0x20000000 \<noteq> 0 then offset - 0x40000000 else offset)
      in if direct_target then uint slot else uint slot + 1 + offset)"

definition list_bits :: "nat list" where
  "list_bits = [0, 1, 8, 16, 32, 64, 64]"

text \<open>The last step of \<open>follow\<close>: the whole object must lie in the segment and be paid for.\<close>

definition follow_finish :: "cf_cp_reader \<Rightarrow> u32 \<Rightarrow> cf_cp_value \<Rightarrow> nat \<Rightarrow> (cf_cp_value \<times> cf_cp_reader) option" where
  "follow_finish r seg v words = do {
     (ok, r) \<leftarrow> cp_range r seg (cv_word v) words;
     if \<not> ok then Some (zero_value, r)
     else let (ok, r) = charge r words in
     if \<not> ok then Some (zero_value, r) else Some (v, r)
   }"

text \<open>The list part of \<open>follow\<close>; \<open>v\<close> has its segment, word and depth.\<close>

definition follow_list :: "cf_cp_reader \<Rightarrow> u32 \<Rightarrow> cf_cp_value \<Rightarrow> u64 \<Rightarrow> (cf_cp_value \<times> cf_cp_reader) option" where
  "follow_list r seg v p =
     (let v = v\<lparr>cv_kind := CF_CP_LIST, cv_element_size := ucast (drop_bit 32 p AND 7), cv_count := ucast (drop_bit 35 p)\<rparr> in
      if cv_element_size v = 7 then do {
        let words = unat (cv_count v) + 1;
        (ok, r) \<leftarrow> cp_range r seg (cv_word v) words;
        if \<not> ok then Some (zero_value, r)
        else do {
          (tag, r) \<leftarrow> word_at r seg (cv_word v);
          let v = v\<lparr>cv_word := cv_word v + 1\<rparr>;
          if tag AND 3 \<noteq> 0 then Some (zero_value, r\<lparr>rd_error := CF_ERR_FORMAT\<rparr>)
          else
            let v = v\<lparr>cv_count := drop_bit 2 (ucast tag), cv_data_words := ucast (drop_bit 32 tag),
                      cv_pointers := ucast (drop_bit 48 tag)\<rparr> in
            if unat (cv_count v) * (unat (cv_data_words v) + unat (cv_pointers v)) > words - 1
            then Some (zero_value, r\<lparr>rd_error := CF_ERR_FORMAT\<rparr>)
            else let (ok, r) = charge r words in
            if \<not> ok then Some (zero_value, r) else Some (v, r)
        }
      }
      else do {
        bits \<leftarrow> load list_bits (unat (cv_element_size v));
        follow_finish r seg v ((unat (cv_count v) * bits + 63) div 64)
      })"

text \<open>What \<open>follow\<close> does with a pointer word that is not far any more.\<close>

definition follow_pointer :: "cf_cp_reader \<Rightarrow> u8 \<Rightarrow> u32 \<Rightarrow> u32 \<Rightarrow> u64 \<Rightarrow> bool \<Rightarrow> (cf_cp_value \<times> cf_cp_reader) option" where
  "follow_pointer r depth seg slot p direct_target =
     (if p AND 3 = 3 then
        if (ucast p :: u32) \<noteq> 3 then Some (zero_value, r\<lparr>rd_error := CF_ERR_UNSUPPORTED\<rparr>)
        else Some (zero_value\<lparr>cv_kind := CF_CP_CAP, cv_cap := ucast (drop_bit 32 p), cv_depth := depth\<rparr>, r)
      else
        let target = pointer_target p slot direct_target in
        if target < 0 \<or> target > 0xFFFFFFFF then Some (zero_value, r\<lparr>rd_error := CF_ERR_FORMAT\<rparr>)
        else
          let v = zero_value\<lparr>cv_segment := seg, cv_word := word_of_int target, cv_depth := depth\<rparr> in
          if p AND 3 = 0 then
            let v = v\<lparr>cv_kind := CF_CP_STRUCT, cv_data_words := ucast (drop_bit 32 p),
                      cv_pointers := ucast (drop_bit 48 p)\<rparr> in
            follow_finish r seg v (unat (cv_data_words v) + unat (cv_pointers v))
          else if p AND 3 = 1 then follow_list r seg v p
          else Some (zero_value, r\<lparr>rd_error := CF_ERR_FORMAT\<rparr>))"

definition follow :: "cf_cp_reader \<Rightarrow> u32 \<Rightarrow> u32 \<Rightarrow> u8 \<Rightarrow> (cf_cp_value \<times> cf_cp_reader) option" where
  "follow r seg slot depth =
     (if rd_error r \<noteq> CF_OK then Some (zero_value, r)
      else if depth > CF_CAPNP_DEPTH_MAX then Some (zero_value, r\<lparr>rd_error := CF_ERR_LIMIT\<rparr>)
      else do {
        (p, r) \<leftarrow> word_at r seg slot;
        if rd_error r \<noteq> CF_OK then Some (zero_value, r)
        else let (ok, r) = charge r 1 in
        if \<not> ok \<or> p = 0 then Some (zero_value, r)
        else do {
          (res, r) \<leftarrow> follow_far r seg slot p;
          (case res of
             None \<Rightarrow> Some (zero_value, r)
           | Some (seg, slot, p, direct_target) \<Rightarrow>
               follow_pointer r depth seg slot p direct_target)
        }
      })"

definition cf_cp_root :: "cf_cp_reader \<Rightarrow> (cf_cp_value \<times> cf_cp_reader) option" where
  "cf_cp_root r = follow r 0 0 1"

definition cf_cp_field :: "cf_cp_reader \<Rightarrow> cf_cp_value \<Rightarrow> u16 \<Rightarrow> (cf_cp_value \<times> cf_cp_reader) option" where
  "cf_cp_field r s index =
     (if rd_error r \<noteq> CF_OK \<or> cv_kind s = CF_CP_NULL then Some (zero_value, r)
      else if cv_kind s \<noteq> CF_CP_STRUCT then Some (zero_value, r\<lparr>rd_error := CF_ERR_FORMAT\<rparr>)
      else if index \<ge> cv_pointers s then Some (zero_value, r)
      else follow r (cv_segment s) (cv_word s + ucast (cv_data_words s) + ucast index) (cv_depth s + 1))"

definition cf_cp_at :: "cf_cp_reader \<Rightarrow> cf_cp_value \<Rightarrow> u32 \<Rightarrow> (cf_cp_value \<times> cf_cp_reader) option" where
  "cf_cp_at r lst index =
     (if rd_error r \<noteq> CF_OK then Some (zero_value, r)
      else if cv_kind lst \<noteq> CF_CP_LIST \<or> index \<ge> cv_count lst then Some (zero_value, r\<lparr>rd_error := CF_ERR_FORMAT\<rparr>)
      else if cv_element_size lst = 6 then follow r (cv_segment lst) (cv_word lst + index) (cv_depth lst + 1)
      else if cv_element_size lst \<noteq> 7 then Some (zero_value, r\<lparr>rd_error := CF_ERR_UNSUPPORTED\<rparr>)
      else if cv_depth lst \<ge> CF_CAPNP_DEPTH_MAX then Some (zero_value, r\<lparr>rd_error := CF_ERR_LIMIT\<rparr>)
      else let (ok, r) = charge r 1 in
      if \<not> ok then Some (zero_value, r\<lparr>rd_error := CF_ERR_LIMIT\<rparr>)
      else Some (lst\<lparr>cv_kind := CF_CP_STRUCT,
                  cv_word := cv_word lst + index * (ucast (cv_data_words lst) + ucast (cv_pointers lst)),
                  cv_depth := cv_depth lst + 1\<rparr>, r))"

definition cf_cp_uint :: "cf_cp_reader \<Rightarrow> cf_cp_value \<Rightarrow> u16 \<Rightarrow> u8 \<Rightarrow> (u64 \<times> cf_cp_reader) option" where
  "cf_cp_uint r s byte width =
     (if rd_error r \<noteq> CF_OK \<or> cv_kind s = CF_CP_NULL then Some (0, r)
      else if cv_kind s \<noteq> CF_CP_STRUCT \<or> (width \<noteq> 1 \<and> width \<noteq> 2 \<and> width \<noteq> 4 \<and> width \<noteq> 8)
      then Some (0, r\<lparr>rd_error := CF_ERR_FORMAT\<rparr>)
      else if unat byte + unat width > unat (cv_data_words s) * 8 then Some (0, r)
      else do {
        (ok, r) \<leftarrow> cp_range r (cv_segment s) (cv_word s) (unat (cv_data_words s));
        if \<not> ok then Some (0, r)
        else let (ok, r) = charge r 1 in
        if \<not> ok then Some (0, r)
        else do {
          seg \<leftarrow> load (rd_segments r) (unat (cv_segment s));
          v \<leftarrow> le (bytes_list seg) (unat (cv_word s) * 8 + unat byte) (unat width);
          Some (v, r)
        }
      })"

definition cf_cp_data :: "cf_cp_reader \<Rightarrow> cf_cp_value \<Rightarrow> bool \<Rightarrow> (cf_bytes \<times> cf_cp_reader) option" where
  "cf_cp_data r v is_text =
     (if rd_error r \<noteq> CF_OK \<or> cv_kind v = CF_CP_NULL then Some (Null_Bytes 0, r)
      else if cv_kind v \<noteq> CF_CP_LIST \<or> cv_element_size v \<noteq> 2 then Some (Null_Bytes 0, r\<lparr>rd_error := CF_ERR_FORMAT\<rparr>)
      else do {
        (ok, r) \<leftarrow> cp_range r (cv_segment v) (cv_word v) ((unat (cv_count v) + 7) div 8);
        if \<not> ok then Some (Null_Bytes 0, r)
        else do {
          seg \<leftarrow> load (rd_segments r) (unat (cv_segment v));
          b \<leftarrow> load_n (bytes_list seg) (unat (cv_word v) * 8) (unat (cv_count v));
          if is_text then
            if b = [] \<or> last b \<noteq> 0 then Some (Null_Bytes 0, r\<lparr>rd_error := CF_ERR_FORMAT\<rparr>)
            else Some (Bytes (butlast b), r)
          else Some (Bytes b, r)
        }
      })"

section \<open>Sequences of reader calls\<close>

text \<open>
  The calls a client can make on an open reader, with arbitrary arguments; the flag says that
  an object was obtained.
\<close>

datatype cp_read =
    R_Root | R_Field cf_cp_value u16 | R_At cf_cp_value u32 | R_Uint cf_cp_value u16 u8 | R_Data cf_cp_value bool

primrec cp_exec :: "cp_read \<Rightarrow> cf_cp_reader \<Rightarrow> (bool \<times> cf_cp_reader) option" where
  "cp_exec R_Root r = map_option (\<lambda>(v, r). (cv_kind v \<noteq> CF_CP_NULL, r)) (cf_cp_root r)"
| "cp_exec (R_Field v i) r = map_option (\<lambda>(v, r). (cv_kind v \<noteq> CF_CP_NULL, r)) (cf_cp_field r v i)"
| "cp_exec (R_At v i) r = map_option (\<lambda>(v, r). (cv_kind v \<noteq> CF_CP_NULL, r)) (cf_cp_at r v i)"
| "cp_exec (R_Uint v b w) r = map_option (\<lambda>(v, r). (False, r)) (cf_cp_uint r v b w)"
| "cp_exec (R_Data v t) r = map_option (\<lambda>(v, r). (False, r)) (cf_cp_data r v t)"

fun run_reads :: "cp_read list \<Rightarrow> cf_cp_reader \<Rightarrow> (nat \<times> cf_cp_reader) option" where
  "run_reads [] r = Some (0, r)"
| "run_reads (c # cs) r = do {
     (obj, r) \<leftarrow> cp_exec c r;
     (n, r) \<leftarrow> run_reads cs r;
     Some (n + (if obj then 1 else 0), r)
   }"

section \<open>Reader invariant\<close>

definition seg_len :: "cf_cp_reader \<Rightarrow> u32 \<Rightarrow> nat" where
  "seg_len r seg = bytes_len (rd_segments r ! unat seg) div 8"

definition in_seg :: "cf_cp_reader \<Rightarrow> u32 \<Rightarrow> nat \<Rightarrow> nat \<Rightarrow> bool" where
  "in_seg r seg word words \<longleftrightarrow> seg < rd_segment_count r \<and> word + words \<le> seg_len r seg"

definition reader_inv :: "cf_cp_reader \<Rightarrow> bool" where
  "reader_inv r \<longleftrightarrow> length (rd_segments r) = CF_CAPNP_MAX_SEGMENTS \<and> unat (rd_segment_count r) \<le> CF_CAPNP_MAX_SEGMENTS
     \<and> (\<forall>i < unat (rd_segment_count r). \<not> bytes_null (rd_segments r ! i) \<and> bytes_len (rd_segments r ! i) \<le> CF_CAPNP_MESSAGE_MAX)"

text \<open>
  What every reader operation does to the reader: the segments stay, the budget does not grow,
  and an error is never forgotten.
\<close>

definition rd_step :: "cf_cp_reader \<Rightarrow> cf_cp_reader \<Rightarrow> bool" where
  "rd_step r r' \<longleftrightarrow> rd_segments r' = rd_segments r \<and> rd_segment_count r' = rd_segment_count r
     \<and> unat (rd_budget r') \<le> unat (rd_budget r) \<and> (rd_error r \<noteq> CF_OK \<longrightarrow> rd_error r' \<noteq> CF_OK)"

text \<open>A value that the reader hands out: it lies inside its segment and is not too deep.\<close>

definition value_ok :: "cf_cp_reader \<Rightarrow> cf_cp_value \<Rightarrow> bool" where
  "value_ok r v \<longleftrightarrow> cv_depth v \<le> CF_CAPNP_DEPTH_MAX \<and>
     (case cv_kind v of
        CF_CP_NULL \<Rightarrow> v = zero_value
      | CF_CP_CAP \<Rightarrow> True
      | CF_CP_STRUCT \<Rightarrow> in_seg r (cv_segment v) (unat (cv_word v)) (unat (cv_data_words v) + unat (cv_pointers v))
      | CF_CP_LIST \<Rightarrow> (if cv_element_size v = 7
          then in_seg r (cv_segment v) (unat (cv_word v)) (unat (cv_count v) * (unat (cv_data_words v) + unat (cv_pointers v)))
          else \<exists>bits. load list_bits (unat (cv_element_size v)) = Some bits
            \<and> in_seg r (cv_segment v) (unat (cv_word v)) ((unat (cv_count v) * bits + 63) div 64)))"

text \<open>
  Total correctness of a piece of reader code started in \<open>r\<close>: it has a result, and \<open>Q\<close> holds of
  the result and the reader afterwards.
\<close>

definition rd_ok :: "cf_cp_reader \<Rightarrow> ('a \<times> cf_cp_reader) option \<Rightarrow> ('a \<Rightarrow> cf_cp_reader \<Rightarrow> bool) \<Rightarrow> bool" where
  "rd_ok r m Q \<longleftrightarrow> (\<exists>x r'. m = Some (x, r') \<and> rd_step r r' \<and> Q x r')"

text \<open>
  The contract of an operation that returns an object: the object is well-formed, and one that
  is not null comes without an error and was paid for.
\<close>

definition gives_value :: "cf_cp_reader \<Rightarrow> cf_cp_value \<Rightarrow> cf_cp_reader \<Rightarrow> bool" where
  "gives_value r v r' \<longleftrightarrow> value_ok r' v
     \<and> (cv_kind v \<noteq> CF_CP_NULL \<longrightarrow> rd_error r' = CF_OK \<and> unat (rd_budget r') < unat (rd_budget r))"

lemma rd_step_refl [simp, intro]: "rd_step r r"
  by (simp add: rd_step_def)

lemma rd_step_trans [trans]: "rd_step r r' \<Longrightarrow> rd_step r' r'' \<Longrightarrow> rd_step r r''"
  by (auto simp: rd_step_def)

lemma rd_step_inv: "rd_step r r' \<Longrightarrow> reader_inv r \<Longrightarrow> reader_inv r'"
  by (simp add: rd_step_def reader_inv_def)

lemma rd_step_in_seg: "rd_step r r' \<Longrightarrow> in_seg r' = in_seg r"
  by (simp add: rd_step_def in_seg_def seg_len_def fun_eq_iff)

lemma rd_step_error [simp, intro]: "e \<noteq> CF_OK \<Longrightarrow> rd_step r (r\<lparr>rd_error := e\<rparr>)"
  by (simp add: rd_step_def)

lemma segment_Bytes:
  assumes "reader_inv r" "seg < rd_segment_count r"
  obtains xs where "load (rd_segments r) (unat seg) = Some (Bytes xs)" "seg_len r seg = length xs div 8"
proof -
  have lt: "unat seg < unat (rd_segment_count r)" using assms(2) by (simp add: word_less_nat_alt)
  then have len: "unat seg < length (rd_segments r)" using assms(1) by (simp add: reader_inv_def)
  have "\<not> bytes_null (rd_segments r ! unat seg)" using assms(1) lt by (simp add: reader_inv_def)
  then obtain xs where "rd_segments r ! unat seg = Bytes xs" by (cases "rd_segments r ! unat seg") auto
  then show thesis using len that by (auto simp: load_def seg_len_def)
qed

lemma range_cases:
  assumes "reader_inv r"
  obtains (ok) "cp_range r seg word words = Some (True, r)" "rd_error r = CF_OK" "in_seg r seg (unat word) words"
    | (err) r' where "cp_range r seg word words = Some (False, r')" "rd_step r r'" "rd_error r' \<noteq> CF_OK"
      "rd_error r = CF_OK \<Longrightarrow> \<not> in_seg r seg (unat word) words"
proof (cases "rd_error r = CF_OK \<and> seg < rd_segment_count r")
  case True
  then obtain xs where xs: "load (rd_segments r) (unat seg) = Some (Bytes xs)" "seg_len r seg = length xs div 8"
    using segment_Bytes [OF assms] by blast
  show thesis
  proof (cases "unat word + words \<le> seg_len r seg")
    case in_range: True
    then have "cp_range r seg word words = Some (True, r)"
      using True xs by (simp add: cp_range_def not_le [symmetric])
    then show ?thesis using in_range True ok by (simp add: in_seg_def)
  next
    case False
    then have "unat word > length xs div 8 \<or> words > length xs div 8 - unat word" using xs(2) by linarith
    then have "cp_range r seg word words = Some (False, r\<lparr>rd_error := CF_ERR_FORMAT\<rparr>)"
      using True xs by (auto simp: cp_range_def not_le [symmetric])
    then show ?thesis using True False err [of "r\<lparr>rd_error := CF_ERR_FORMAT\<rparr>"] by (simp add: in_seg_def)
  qed
next
  case False
  show thesis
  proof (cases "rd_error r = CF_OK")
    case True
    then show ?thesis using False err [of "r\<lparr>rd_error := CF_ERR_FORMAT\<rparr>"] by (simp add: cp_range_def in_seg_def not_less)
  next
    case bad: False
    then show ?thesis using err [of r] by (simp add: cp_range_def)
  qed
qed

lemma charge_cases:
  obtains (ok) r' where "charge r words = (True, r')" "rd_step r r'" "rd_error r' = rd_error r"
      "unat (rd_budget r') = unat (rd_budget r) - max 1 words" "max 1 words \<le> unat (rd_budget r)"
    | (err) "charge r words = (False, r\<lparr>rd_error := CF_ERR_LIMIT\<rparr>)" "unat (rd_budget r) < max 1 words"
proof -
  let ?w = "if words = 0 then 1 else words"
  have w: "?w = max 1 words" by auto
  show thesis
  proof (cases "?w > unat (rd_budget r)")
    case True
    then show ?thesis using err w by (simp add: charge_def Let_def)
  next
    case False
    then have le: "max 1 words \<le> unat (rd_budget r)" by (auto split: if_splits)
    then have u: "unat (word_of_nat (max 1 words) :: u32) = max 1 words"
      using u32_less [of "rd_budget r"] by (simp add: unsigned_of_nat take_bit_nat_eq_self)
    have "unat (rd_budget r - word_of_nat (max 1 words)) = unat (rd_budget r) - max 1 words"
      using le u by (subst unat_sub) (simp_all add: word_le_nat_alt)
    then show ?thesis
      using False le ok [of "r\<lparr>rd_budget := rd_budget r - word_of_nat (max 1 words)\<rparr>"] w
      by (simp add: charge_def Let_def rd_step_def)
  qed
qed

lemma le_in_seg:
  assumes "seg_len r seg = length xs div 8" "in_seg r seg word words" "8 * word + k + n \<le> 8 * (word + words)" "n \<le> 8"
  shows "\<exists>v. le xs (word * 8 + k) n = Some v"
proof -
  have "word * 8 + k + n \<le> length xs"
  proof -
    have "8 * (word + words) \<le> 8 * (length xs div 8)" using assms(1,2) by (intro mult_le_mono2) (simp add: in_seg_def)
    moreover have "8 * (length xs div 8) \<le> length xs" by simp
    ultimately show ?thesis using assms(3) by linarith
  qed
  then show ?thesis using le_Some [OF assms(4)] by blast
qed


lemma word_at_cases:
  assumes "reader_inv r"
  obtains (ok) p where "word_at r seg word = Some (p, r)" "rd_error r = CF_OK" "in_seg r seg (unat word) 1"
    | (err) r' where "word_at r seg word = Some (0, r')" "rd_step r r'" "rd_error r' \<noteq> CF_OK"
      "rd_error r = CF_OK \<Longrightarrow> \<not> in_seg r seg (unat word) 1"
proof (rule range_cases [OF assms, of seg word 1])
  assume ok': "cp_range r seg word 1 = Some (True, r)" "rd_error r = CF_OK" "in_seg r seg (unat word) 1"
  then obtain xs where xs: "load (rd_segments r) (unat seg) = Some (Bytes xs)" "seg_len r seg = length xs div 8"
    using segment_Bytes [OF assms] by (auto simp: in_seg_def)
  obtain v where "le xs (unat word * 8 + 0) 8 = Some v"
    using le_in_seg [OF xs(2) ok'(3), of 0 8] by auto
  then show thesis using ok [of v] ok' xs(1) by (simp add: word_at_def)
next
  fix r' assume "cp_range r seg word 1 = Some (False, r')" "rd_step r r'" "rd_error r' \<noteq> CF_OK"
    "rd_error r = CF_OK \<Longrightarrow> \<not> in_seg r seg (unat word) 1"
  then show thesis using err [of r'] by (simp add: word_at_def)
qed

named_theorems rd_rules \<open>introduction rules for reader code\<close>

lemma rd_ok_step: "rd_step r r' \<Longrightarrow> rd_ok r' m Q \<Longrightarrow> rd_ok r m Q"
  unfolding rd_ok_def using rd_step_trans by blast

lemma rd_ok_weaken: "rd_ok r m P \<Longrightarrow> (\<And>x r'. rd_step r r' \<Longrightarrow> P x r' \<Longrightarrow> Q x r') \<Longrightarrow> rd_ok r m Q"
  unfolding rd_ok_def by blast

lemma rd_ok_Some: "Q x r \<Longrightarrow> rd_ok r (Some (x, r)) Q"
  by (auto simp: rd_ok_def)

lemma rd_ok_error [rd_rules]: "e \<noteq> CF_OK \<Longrightarrow> Q x (r\<lparr>rd_error := e\<rparr>) \<Longrightarrow> rd_ok r (Some (x, r\<lparr>rd_error := e\<rparr>)) Q"
  by (auto simp: rd_ok_def)

lemma rd_ok_if [rd_rules]: "(b \<Longrightarrow> rd_ok r m Q) \<Longrightarrow> (\<not> b \<Longrightarrow> rd_ok r m' Q) \<Longrightarrow> rd_ok r (if b then m else m') Q"
  by simp

lemma rd_ok_bind:
  assumes "rd_ok r m P" "\<And>x r'. rd_step r r' \<Longrightarrow> P x r' \<Longrightarrow> rd_ok r' (f x r') Q"
  shows "rd_ok r (m \<bind> (\<lambda>(x, r). f x r)) Q"
proof -
  obtain x r' where "m = Some (x, r')" "rd_step r r'" "P x r'" using assms(1) by (auto simp: rd_ok_def)
  then show ?thesis using assms(2) [of r' x] rd_ok_step by simp
qed

lemma rd_ok_range [rd_rules]:
  assumes "reader_inv r"
    and "rd_error r = CF_OK \<Longrightarrow> in_seg r seg (unat word) words \<Longrightarrow> rd_ok r (f True r) Q"
    and "\<And>r'. rd_step r r' \<Longrightarrow> rd_error r' \<noteq> CF_OK \<Longrightarrow> rd_ok r' (f False r') Q"
  shows "rd_ok r (cp_range r seg word words \<bind> (\<lambda>(ok, r). f ok r)) Q"
  using assms(1)
proof (cases rule: range_cases [where seg = seg and word = word and words = words])
  case ok
  then show ?thesis using assms(2) by simp
next
  case (err r')
  then show ?thesis using assms(3) [of r'] rd_ok_step by simp
qed

lemma rd_ok_word_at [rd_rules]:
  assumes "reader_inv r"
    and "\<And>p. rd_error r = CF_OK \<Longrightarrow> in_seg r seg (unat word) 1 \<Longrightarrow> rd_ok r (f p r) Q"
    and "\<And>r'. rd_step r r' \<Longrightarrow> rd_error r' \<noteq> CF_OK \<Longrightarrow> \<not> (rd_error r = CF_OK \<and> in_seg r seg (unat word) 1) \<Longrightarrow> rd_ok r' (f 0 r') Q"
  shows "rd_ok r (word_at r seg word \<bind> (\<lambda>(p, r). f p r)) Q"
  using assms(1)
proof (cases rule: word_at_cases [where seg = seg and word = word])
  case (ok p)
  then show ?thesis using assms(2) by simp
next
  case (err r')
  then show ?thesis using assms(3) [of r'] rd_ok_step by simp
qed

lemma rd_ok_charge [rd_rules]:
  assumes "\<And>r'. rd_step r r' \<Longrightarrow> rd_error r' = rd_error r \<Longrightarrow> unat (rd_budget r') < unat (rd_budget r) \<Longrightarrow> rd_ok r' (f True r') Q"
    and "\<And>r'. rd_step r r' \<Longrightarrow> rd_error r' \<noteq> CF_OK \<Longrightarrow> rd_ok r' (f False r') Q"
  shows "rd_ok r (case charge r words of (ok, r) \<Rightarrow> f ok r) Q"
proof (cases rule: charge_cases [where r = r and words = words])
  case (ok r')
  then have "unat (rd_budget r') < unat (rd_budget r)" by linarith
  then show ?thesis using ok assms(1) [of r'] rd_ok_step by simp
next
  case err
  then show ?thesis using assms(2) [of "r\<lparr>rd_error := CF_ERR_LIMIT\<rparr>"] rd_ok_step [of r "r\<lparr>rd_error := CF_ERR_LIMIT\<rparr>"] by simp
qed

lemma follow_far_ok:
  assumes "reader_inv r" "rd_error r = CF_OK"
  shows "rd_ok r (follow_far r seg slot p)
    (\<lambda>res r'. case res of None \<Rightarrow> True | Some (seg, slot, q, d) \<Rightarrow> rd_error r' = CF_OK \<or> q AND 3 \<le> 1)"
  unfolding follow_far_def Let_def
  by (intro rd_rules rd_ok_Some; use assms in \<open>simp add: rd_step_inv not_less\<close>)

lemma zero_value_ok [simp]: "value_ok r zero_value" "cv_kind zero_value = CF_CP_NULL" "gives_value r zero_value r'"
  by (simp_all add: value_ok_def gives_value_def zero_value_def)

lemma gives_valueI [intro]:
  "value_ok r' v \<Longrightarrow> rd_error r' = CF_OK \<Longrightarrow> unat (rd_budget r') < unat (rd_budget r) \<Longrightarrow> gives_value r v r'"
  by (simp add: gives_value_def)

lemma value_ok_composite:
  "cv_kind v = CF_CP_LIST \<Longrightarrow> cv_element_size v = 7 \<Longrightarrow> cv_depth v \<le> CF_CAPNP_DEPTH_MAX \<Longrightarrow>
   in_seg r (cv_segment v) (unat (cv_word v)) (unat (cv_count v) * (unat (cv_data_words v) + unat (cv_pointers v))) \<Longrightarrow> value_ok r v"
  by (simp add: value_ok_def)

lemma follow_finish_ok:
  assumes "reader_inv r" "\<And>r'. rd_step r r' \<Longrightarrow> in_seg r seg (unat (cv_word v)) words \<Longrightarrow> value_ok r' v"
    "unat (rd_budget r) \<le> unat (rd_budget r0)"
  shows "rd_ok r (follow_finish r seg v words) (gives_value r0)"
  unfolding follow_finish_def Let_def
  by (intro rd_rules rd_ok_Some; use assms in \<open>auto simp: rd_step_inv gives_value_def\<close>)

lemma seg_len_bound: "reader_inv r \<Longrightarrow> seg < rd_segment_count r \<Longrightarrow> seg_len r seg \<le> 2048"
proof -
  assume "reader_inv r" "seg < rd_segment_count r"
  then have "bytes_len (rd_segments r ! unat seg) \<le> CF_CAPNP_MESSAGE_MAX"
    by (simp add: reader_inv_def word_less_nat_alt)
  then show ?thesis by (simp add: seg_len_def CF_CAPNP_MESSAGE_MAX_def)
qed

lemma element_size_bound: "unat (ucast (x AND 7 :: u64) :: u8) < 8"
proof -
  have "unat x AND 7 = unat x mod 8"
    using take_bit_eq_mask [of 3 "unat x"] by (simp add: mask_eq_exp_minus_1 take_bit_eq_mod)
  then have "unat (x AND 7) = unat x mod 8" by (simp add: unsigned_and_eq)
  then have "unat (x AND 7) < 8" by simp
  then show ?thesis by (simp add: unsigned_ucast_eq take_bit_nat_eq_self)
qed

lemma list_bits_total: "unat w < 8 \<Longrightarrow> (w :: u8) \<noteq> 7 \<Longrightarrow> \<exists>bits. load list_bits (unat w) = Some bits"
proof -
  assume "unat w < 8" "w \<noteq> 7"
  then have "unat w \<noteq> 7" by (metis unat_inverse of_nat_numeral)
  then show ?thesis using \<open>unat w < 8\<close> by (auto simp: load_def list_bits_def)
qed

lemma follow_list_ok:
  assumes "reader_inv r" "unat (rd_budget r) \<le> unat (rd_budget r0)" "cv_segment v = seg" "cv_depth v \<le> CF_CAPNP_DEPTH_MAX"
  shows "rd_ok r (follow_list r seg v p) (gives_value r0)"
proof -
  let ?v = "v\<lparr>cv_kind := CF_CP_LIST, cv_element_size := ucast (drop_bit 32 p AND 7), cv_count := ucast (drop_bit 35 p)\<rparr>"
  have small: "unat (cv_element_size ?v) < 8" using element_size_bound [of "drop_bit 32 p"] by simp
  show ?thesis
  proof (cases "cv_element_size ?v = 7")
    case True
    have fits: "in_seg r' seg (unat (cv_word v + 1)) k"
      if "in_seg r seg (unat (cv_word v)) (unat (cv_count ?v) + 1)" "rd_step r r'" "\<not> unat (cv_count ?v) + 1 - 1 < k" for k r'
    proof -
      have "unat (cv_word v) < 2048"
        using that(1) seg_len_bound [OF assms(1), of seg] by (simp add: in_seg_def)
      then have "unat (cv_word v + 1) = unat (cv_word v) + 1" by (simp add: unat_word_ariths)
      then show ?thesis using that rd_step_in_seg [OF that(2)] by (simp add: in_seg_def)
    qed
    have in_seg_less: "in_seg r seg w (n + 1) \<Longrightarrow> in_seg r seg w 1" for w n by (simp add: in_seg_def)
    show ?thesis
      unfolding follow_list_def Let_def if_P [OF True]
      by (intro rd_rules rd_ok_Some; use assms fits True in_seg_less in \<open>auto simp: rd_step_inv intro!: gives_valueI value_ok_composite\<close>)
  next
    case False
    then obtain bits where bits: "load list_bits (unat (cv_element_size ?v)) = Some bits"
      using list_bits_total [OF small] by blast
    have "follow_list r seg v p = follow_finish r seg ?v ((unat (cv_count ?v) * bits + 63) div 64)"
      unfolding follow_list_def Let_def if_not_P [OF False] bits by simp
    moreover have "rd_ok r (follow_finish r seg ?v ((unat (cv_count ?v) * bits + 63) div 64)) (gives_value r0)"
      using assms False bits by (intro follow_finish_ok) (auto simp: value_ok_def dest: rd_step_in_seg)
    ultimately show ?thesis by simp
  qed
qed


lemma rd_ok_far [rd_rules]:
  assumes "reader_inv r" "rd_error r = CF_OK"
    and "\<And>r'. rd_step r r' \<Longrightarrow> rd_ok r' (f None r') Q"
    and "\<And>seg slot q d r'. rd_step r r' \<Longrightarrow> rd_error r' = CF_OK \<or> q AND 3 \<le> 1 \<Longrightarrow> rd_ok r' (f (Some (seg, slot, q, d)) r') Q"
  shows "rd_ok r (follow_far r seg slot p \<bind> (\<lambda>(res, r). f res r)) Q"
proof (rule rd_ok_bind [OF follow_far_ok [OF assms(1,2)]])
  fix x :: "(u32 \<times> u32 \<times> u64 \<times> bool) option" and r'
  assume "rd_step r r'" "case x of None \<Rightarrow> True | Some (seg, slot, q, d) \<Rightarrow> rd_error r' = CF_OK \<or> q AND 3 \<le> 1"
  then show "rd_ok r' (f x r') Q"
    using assms(3,4) by (cases x) auto
qed

lemma value_ok_cap: "depth \<le> CF_CAPNP_DEPTH_MAX \<Longrightarrow> value_ok r (zero_value\<lparr>cv_kind := CF_CP_CAP, cv_cap := c, cv_depth := depth\<rparr>)"
  by (simp add: value_ok_def)

lemma rd_ok_case_res:
  assumes "\<And>x. res = None \<Longrightarrow> rd_ok r m Q" "\<And>a b c d. res = Some (a, b, c, d) \<Longrightarrow> rd_ok r (f a b c d) Q"
  shows "rd_ok r (case res of None \<Rightarrow> m | Some (a, b, c, d) \<Rightarrow> f a b c d) Q"
  using assms by (cases res) auto

lemma follow_pointer_ok:
  assumes "reader_inv r" "unat (rd_budget r) < unat (rd_budget r0)" "depth \<le> CF_CAPNP_DEPTH_MAX"
    "rd_error r = CF_OK \<or> p AND 3 \<le> 1"
  shows "rd_ok r (follow_pointer r depth seg slot p d) (gives_value r0)"
proof -
  have "\<not> (3 :: u64) \<le> 1" by (simp add: word_le_nat_alt)
  then have cap: "p AND 3 = 3 \<Longrightarrow> rd_error r = CF_OK" using assms(4) by auto
  show ?thesis
    unfolding follow_pointer_def Let_def
    by (intro rd_rules rd_ok_Some follow_finish_ok follow_list_ok; use assms cap in
      \<open>auto simp: value_ok_def dest: rd_step_in_seg intro!: gives_valueI\<close>)
qed

lemma follow_ok:
  assumes "reader_inv r"
  shows "rd_ok r (follow r seg slot depth) (gives_value r)"
  unfolding follow_def Let_def
  by (intro rd_rules rd_ok_Some rd_ok_case_res follow_pointer_ok;
    use assms in \<open>auto simp: rd_step_inv not_less rd_step_def reader_inv_def\<close>)

lemma root_ok: "reader_inv r \<Longrightarrow> rd_ok r (cf_cp_root r) (gives_value r)"
  unfolding cf_cp_root_def by (rule follow_ok)

lemma field_ok: "reader_inv r \<Longrightarrow> rd_ok r (cf_cp_field r s index) (gives_value r)"
  unfolding cf_cp_field_def by (intro rd_rules rd_ok_Some follow_ok) simp_all

text \<open>The element of a composite list that the reader handed out is again well-formed.\<close>

lemma at_element:
  assumes "reader_inv r" "value_ok r lst" "cv_kind lst = CF_CP_LIST" "index < cv_count lst" "cv_element_size lst = 7"
    "\<not> CF_CAPNP_DEPTH_MAX \<le> cv_depth lst"
  shows "value_ok r (lst\<lparr>cv_kind := CF_CP_STRUCT,
       cv_word := cv_word lst + index * (ucast (cv_data_words lst) + ucast (cv_pointers lst)), cv_depth := cv_depth lst + 1\<rparr>)"
proof -
  let ?w = "unat (cv_data_words lst) + unat (cv_pointers lst)"
  have seg: "in_seg r (cv_segment lst) (unat (cv_word lst)) (unat (cv_count lst) * ?w)"
    using assms(2,3,5) by (simp add: value_ok_def)
  then have small: "unat (cv_word lst) + unat (cv_count lst) * ?w \<le> 2048"
    using seg_len_bound [OF assms(1), of "cv_segment lst"] by (simp add: in_seg_def)
  have i: "unat index < unat (cv_count lst)" using assms(4) by (simp add: word_less_nat_alt)
  have e: "unat index * ?w + ?w \<le> unat (cv_count lst) * ?w"
    using mult_le_mono1 [of "Suc (unat index)" "unat (cv_count lst)" ?w] i by simp
  have u: "unat (ucast x :: u32) = unat x" for x :: u16
    using u16_less [of x] by (simp add: unsigned_ucast_eq take_bit_nat_eq_self)
  have w: "unat (ucast (cv_data_words lst) + ucast (cv_pointers lst) :: u32) = ?w"
    using u16_less [of "cv_data_words lst"] u16_less [of "cv_pointers lst"] by (subst unat_word_ariths) (simp add: u)
  have m: "unat (index * (ucast (cv_data_words lst) + ucast (cv_pointers lst))) = unat index * ?w"
    using e small by (subst unat_word_ariths) (simp add: w)
  have a: "unat (cv_word lst + index * (ucast (cv_data_words lst) + ucast (cv_pointers lst))) = unat (cv_word lst) + unat index * ?w"
    using e small by (subst unat_word_ariths) (simp add: m)
  have "unat (cv_depth lst) < 32" using assms(6) by (simp add: CF_CAPNP_DEPTH_MAX_def word_le_nat_alt not_le)
  then have "cv_depth lst + 1 \<le> CF_CAPNP_DEPTH_MAX"
    by (simp add: CF_CAPNP_DEPTH_MAX_def word_le_nat_alt unat_word_ariths)
  moreover have "in_seg r (cv_segment lst) (unat (cv_word lst) + unat index * ?w) ?w"
    using seg e by (simp add: in_seg_def)
  ultimately show ?thesis by (simp add: value_ok_def a)
qed

lemma value_ok_step: "rd_step r r' \<Longrightarrow> value_ok r' v = value_ok r v"
  by (simp add: value_ok_def rd_step_in_seg cong: cf_cp_kind.case_cong)

text \<open>An operation that is given a well-formed value returns one; it is safe on any value.\<close>

definition gives_safe :: "cf_cp_reader \<Rightarrow> cf_cp_value \<Rightarrow> cf_cp_value \<Rightarrow> cf_cp_reader \<Rightarrow> bool" where
  "gives_safe r lst v r' \<longleftrightarrow> (value_ok r lst \<longrightarrow> value_ok r' v)
     \<and> (cv_kind v \<noteq> CF_CP_NULL \<longrightarrow> rd_error r' = CF_OK \<and> unat (rd_budget r') < unat (rd_budget r))"

lemma at_ok:
  assumes "reader_inv r"
  shows "rd_ok r (cf_cp_at r lst index) (gives_safe r lst)"
proof -
  have F: "rd_ok r (follow r seg slot depth) (gives_safe r lst)" for seg slot depth
    using follow_ok [OF assms, of seg slot depth] by (rule rd_ok_weaken) (simp add: gives_safe_def gives_value_def)
  have Z: "gives_safe r lst zero_value r'" for r' by (simp add: gives_safe_def)
  show ?thesis
    unfolding cf_cp_at_def Let_def
    by (intro rd_rules rd_ok_Some F Z; use assms at_element in \<open>auto simp: gives_safe_def value_ok_step not_le\<close>)
qed

lemma rd_ok_load_le:
  assumes "reader_inv r" "in_seg r seg word words" "8 * word + k + n \<le> 8 * (word + words)" "n \<le> 8" "\<And>v. Q v r"
  shows "rd_ok r (do { s \<leftarrow> load (rd_segments r) (unat seg); v \<leftarrow> le (bytes_list s) (word * 8 + k) n; Some (v, r) }) Q"
proof -
  obtain xs where xs: "load (rd_segments r) (unat seg) = Some (Bytes xs)" "seg_len r seg = length xs div 8"
    using segment_Bytes [OF assms(1)] assms(2) by (auto simp: in_seg_def)
  obtain v where "le xs (word * 8 + k) n = Some v" using le_in_seg [OF xs(2) assms(2-4)] by blast
  then show ?thesis using xs(1) assms(5) by (simp add: rd_ok_Some)
qed

lemma uint_ok:
  assumes "reader_inv r"
  shows "rd_ok r (cf_cp_uint r s byte width) (\<lambda>_ _. True)"
  unfolding cf_cp_uint_def Let_def
  by (intro rd_rules rd_ok_Some rd_ok_load_le [where words = "unat (cv_data_words s)"];
    use assms in \<open>auto simp: rd_step_inv rd_step_in_seg not_less\<close>)


lemma bytes_in_seg:
  assumes "reader_inv r" "in_seg r seg word ((n + 7) div 8)"
  obtains xs where "load (rd_segments r) (unat seg) = Some (Bytes xs)" "word * 8 + n \<le> length xs"
proof -
  obtain xs where xs: "load (rd_segments r) (unat seg) = Some (Bytes xs)" "seg_len r seg = length xs div 8"
    using segment_Bytes [OF assms(1)] assms(2) by (auto simp: in_seg_def)
  define q l where "q = (n + 7) div 8" and "l = length xs div 8"
  have "word + q \<le> l" using assms(2) xs(2) by (simp add: in_seg_def q_def l_def)
  moreover have "8 * l \<le> length xs" "n \<le> 8 * q" by (simp_all add: q_def l_def)
  ultimately have "word * 8 + n \<le> length xs" by linarith
  then show thesis using that xs(1) by blast
qed

lemma data_ok:
  assumes "reader_inv r"
  shows "rd_ok r (cf_cp_data r v t) (\<lambda>b r'. \<not> bytes_bad b)"
proof -
  let ?n = "unat (cv_count v)"
  have L: "rd_ok r (do {
      seg \<leftarrow> load (rd_segments r) (unat (cv_segment v));
      b \<leftarrow> load_n (bytes_list seg) (unat (cv_word v) * 8) ?n;
      if t then if b = [] \<or> last b \<noteq> 0 then Some (Null_Bytes 0, r\<lparr>rd_error := CF_ERR_FORMAT\<rparr>) else Some (Bytes (butlast b), r)
      else Some (Bytes b, r) }) (\<lambda>b r'. \<not> bytes_bad b)"
    if seg: "in_seg r (cv_segment v) (unat (cv_word v)) ((?n + 7) div 8)"
  proof -
    obtain xs where "load (rd_segments r) (unat (cv_segment v)) = Some (Bytes xs)" "unat (cv_word v) * 8 + ?n \<le> length xs"
      using bytes_in_seg [OF assms seg] .
    then show ?thesis by (simp only: bind.bind_lunit bytes_list.simps load_n_Some) (intro rd_rules rd_ok_Some; simp)
  qed
  show ?thesis
    unfolding cf_cp_data_def by (intro rd_rules rd_ok_Some L; use assms in simp)
qed

section \<open>Opening a frame\<close>

definition frame_reader :: "u8 list \<Rightarrow> cf_cp_reader" where
  "frame_reader xs = \<lparr>rd_segments = map (\<lambda>i. Bytes (frame_segment xs i)) [0..<frame_count xs]
        @ replicate (CF_CAPNP_MAX_SEGMENTS - frame_count xs) (Null_Bytes 0),
     rd_segment_count = word_of_nat (frame_count xs), rd_budget = CF_CAPNP_TRAVERSAL_WORDS, rd_error = CF_OK\<rparr>"

lemma read_init_loop_eq:
  assumes "frame_ok CF_CAPNP_MESSAGE_MAX xs" "i + k = frame_count xs" "rd_error r = CF_OK"
    "rd_segments r = map (\<lambda>i. Bytes (frame_segment xs i)) [0..<i] @ replicate (CF_CAPNP_MAX_SEGMENTS - i) (Null_Bytes 0)"
  shows "read_init_loop (Bytes xs) i k r = Some (CF_OK, r\<lparr>rd_segments :=
    map (\<lambda>i. Bytes (frame_segment xs i)) [0..<frame_count xs] @ replicate (CF_CAPNP_MAX_SEGMENTS - frame_count xs) (Null_Bytes 0)\<rparr>)"
  using assms(2-4)
proof (induction k arbitrary: i r)
  case 0
  then show ?case by (simp flip: 0(3))
next
  case (Suc k)
  have n: "frame_count xs \<le> 8" using assms(1) by (simp add: frame_ok_def CF_CAPNP_MAX_SEGMENTS_def)
  then have i: "i < 8" "i < frame_count xs" using Suc.prems(1) by simp_all
  then have "unat (word_of_nat i :: u32) = i" by (simp add: unsigned_of_nat take_bit_nat_eq_self)
  then have seg: "cf_capnp_segment (Bytes xs) (word_of_nat i) (Some old) = Some (CF_OK, Some (Bytes (frame_segment xs i)))" for old
    using segment_cases [of xs "word_of_nat i" old] assms(1) i by simp
  let ?segs = "map (\<lambda>i. Bytes (frame_segment xs i)) [0..<Suc i] @ replicate (CF_CAPNP_MAX_SEGMENTS - Suc i) (Null_Bytes 0)"
  have len: "length (rd_segments r) = 8" using Suc.prems(3) i by (simp add: CF_CAPNP_MAX_SEGMENTS_def)
  have rep: "replicate (CF_CAPNP_MAX_SEGMENTS - i) (Null_Bytes 0) = Null_Bytes 0 # replicate (CF_CAPNP_MAX_SEGMENTS - Suc i) (Null_Bytes 0)"
    using i by (simp add: CF_CAPNP_MAX_SEGMENTS_def flip: replicate_Suc)
  have upd: "(rd_segments r)[i := Bytes (frame_segment xs i)] = ?segs"
    unfolding Suc.prems(3) rep by (simp add: list_update_append)
  have "read_init_loop (Bytes xs) i (Suc k) r = read_init_loop (Bytes xs) (i + 1) k (r\<lparr>rd_segments := ?segs, rd_error := CF_OK\<rparr>)"
    using i len upd by (simp add: load_Some store_Some seg)
  also have "r\<lparr>rd_segments := ?segs, rd_error := CF_OK\<rparr> = r\<lparr>rd_segments := ?segs\<rparr>" using Suc.prems(2) by simp
  finally show ?case using Suc.IH [of "i + 1" "r\<lparr>rd_segments := ?segs\<rparr>"] Suc.prems by simp
qed

lemma read_init_ok:
  assumes "frame_ok CF_CAPNP_MESSAGE_MAX xs"
  shows "cf_cp_read_init (Some r0) (Bytes xs) = Some (CF_OK, Some (frame_reader xs))"
proof -
  have n: "frame_count xs \<le> 8" "8 \<le> length xs" "0 < frame_count xs"
    using assms by (simp_all add: frame_ok_def CF_CAPNP_MAX_SEGMENTS_def frame_count_def)
  have seg: "cf_capnp_segment (Bytes xs) 0 (Some old) = Some (CF_OK, Some (Bytes (frame_segment xs 0)))" for old
    using segment_cases [of xs 0 old] assms n by simp
  obtain w where w: "le xs 0 4 = Some w" "unat w + 1 = frame_count xs"
    using le_Some [of 4 0 xs] le_unat [of xs 0 4] n(2) by (auto simp: frame_count_def)
  have "unat (ucast w :: u32) = unat w"
    using w(2) n(1) by (simp add: unsigned_ucast_eq take_bit_nat_eq_self)
  then have c: "unat (ucast w + 1 :: u32) = frame_count xs" using w(2) n(1) by (simp add: unat_word_ariths)
  then have cw: "(ucast w + 1 :: u32) = word_of_nat (frame_count xs)" by (metis unat_inverse)
  have one: "1 + (frame_count xs - 1) = frame_count xs" using n(3) by simp
  let ?r = "\<lparr>rd_segments = Bytes (frame_segment xs 0) # replicate 7 (Null_Bytes 0), rd_segment_count = word_of_nat (frame_count xs),
    rd_budget = CF_CAPNP_TRAVERSAL_WORDS, rd_error = CF_OK\<rparr>"
  have "read_init_loop (Bytes xs) 1 (frame_count xs - 1) ?r = Some (CF_OK, frame_reader xs)"
    using read_init_loop_eq [OF assms one, of ?r] by (simp add: frame_reader_def CF_CAPNP_MAX_SEGMENTS_def)
  moreover have "replicate 8 (Null_Bytes 0) = Null_Bytes 0 # replicate 7 (Null_Bytes 0)" by (simp add: numeral_eq_Suc)
  ultimately show ?thesis
    using c cw by (simp add: cf_cp_read_init_def Let_def load_def store_def CF_CAPNP_MAX_SEGMENTS_def seg w(1))
qed

lemma read_init_err:
  assumes "\<not> frame_ok CF_CAPNP_MESSAGE_MAX xs"
  shows "\<exists>rc r. cf_cp_read_init (Some r0) (Bytes xs) = Some (rc, Some r) \<and> rc \<noteq> CF_OK"
proof -
  obtain rc s where "cf_capnp_segment (Bytes xs) 0 (Some (Null_Bytes 0)) = Some (rc, Some s)" "rc \<noteq> CF_OK"
    using segment_cases [of xs 0 "Null_Bytes 0"] assms by auto
  then show ?thesis
    by (simp add: cf_cp_read_init_def Let_def load_def store_def CF_CAPNP_MAX_SEGMENTS_def)
qed

lemma frame_reader_inv:
  assumes "frame_ok CF_CAPNP_MESSAGE_MAX xs"
  shows "reader_inv (frame_reader xs)"
proof -
  have n: "frame_count xs \<le> 8" using assms by (simp add: frame_ok_def CF_CAPNP_MAX_SEGMENTS_def)
  then have c: "unat (word_of_nat (frame_count xs) :: u32) = frame_count xs"
    by (simp add: unsigned_of_nat take_bit_nat_eq_self)
  have len: "length xs \<le> CF_CAPNP_MESSAGE_MAX" using assms by (simp add: frame_ok_def)
  have "length (frame_segment xs i) \<le> length xs" for i by (simp add: frame_segment_def)
  then have "length (frame_segment xs i) \<le> CF_CAPNP_MESSAGE_MAX" for i using len le_trans by blast
  then show ?thesis using n c by (auto simp: reader_inv_def frame_reader_def CF_CAPNP_MAX_SEGMENTS_def nth_append)
qed


section \<open>Clients of the reader\<close>

lemma rd_ok_map: "rd_ok r m P \<Longrightarrow> (\<And>x r'. P x r' \<Longrightarrow> Q (f x) r') \<Longrightarrow> rd_ok r (map_option (\<lambda>(x, r). (f x, r)) m) Q"
  by (auto simp: rd_ok_def)

lemma cp_exec_ok:
  assumes "reader_inv r"
  shows "rd_ok r (cp_exec c r) (\<lambda>obj r'. obj \<longrightarrow> unat (rd_budget r') < unat (rd_budget r))"
proof (cases c)
  case R_Root
  show ?thesis unfolding R_Root cp_exec.simps by (rule rd_ok_map [OF root_ok [OF assms]]) (simp add: gives_value_def)
next
  case (R_Field v i)
  show ?thesis unfolding R_Field cp_exec.simps by (rule rd_ok_map [OF field_ok [OF assms]]) (simp add: gives_value_def)
next
  case (R_At v i)
  show ?thesis unfolding R_At cp_exec.simps by (rule rd_ok_map [OF at_ok [OF assms]]) (simp add: gives_safe_def)
next
  case (R_Uint v b w)
  show ?thesis unfolding R_Uint cp_exec.simps by (rule rd_ok_map [OF uint_ok [OF assms]]) simp
next
  case (R_Data v t)
  show ?thesis unfolding R_Data cp_exec.simps by (rule rd_ok_map [OF data_ok [OF assms]]) simp
qed

lemma run_reads_ok:
  "reader_inv r \<Longrightarrow> rd_ok r (run_reads cs r) (\<lambda>n r'. n + unat (rd_budget r') \<le> unat (rd_budget r))"
proof (induction cs arbitrary: r)
  case Nil
  then show ?case by (simp add: rd_ok_Some)
next
  case (Cons c cs)
  have step: "rd_ok r1 (run_reads cs r1 \<bind> (\<lambda>(n, r). Some (n + (if obj then 1 else 0), r)))
      (\<lambda>n r'. n + unat (rd_budget r') \<le> unat (rd_budget r))"
    if "rd_step r r1" "obj \<longrightarrow> unat (rd_budget r1) < unat (rd_budget r)" for obj r1
    using Cons.IH [OF rd_step_inv [OF that(1) Cons.prems]]
    by (rule rd_ok_bind) (use that in \<open>auto simp: rd_step_def intro!: rd_ok_Some\<close>)
  show ?case
    unfolding run_reads.simps by (rule rd_ok_bind [OF cp_exec_ok [OF Cons.prems]]) (rule step)
qed


section \<open>Properties\<close>

text \<open>
  C29. Reading an arbitrary frame is safe: opening it succeeds exactly for a well-formed frame, and
  whatever calls are then made on the reader, with whatever arguments, each of them returns
  without leaving a segment, and at most 4096 objects are ever handed out. A hostile message
  cannot make the parser read out of bounds or do unbounded work.
\<close>

theorem reader_safe:
  "\<exists>rc r. cf_cp_read_init (Some r0) (Bytes xs) = Some (rc, Some r)
    \<and> (rc = CF_OK \<longleftrightarrow> frame_ok CF_CAPNP_MESSAGE_MAX xs)
    \<and> (rc = CF_OK \<longrightarrow> (\<exists>n r'. run_reads cs r = Some (n, r') \<and> n \<le> 4096 \<and> rd_segments r' = rd_segments r))"
proof (cases "frame_ok CF_CAPNP_MESSAGE_MAX xs")
  case True
  have "unat (rd_budget (frame_reader xs)) = 4096"
    by (simp add: frame_reader_def CF_CAPNP_TRAVERSAL_WORDS_def)
  then show ?thesis
    using read_init_ok [OF True, of r0] run_reads_ok [OF frame_reader_inv [OF True], of cs] True
    by (auto simp: rd_ok_def rd_step_def)
next
  case False
  then show ?thesis using read_init_err [OF False, of r0] by auto
qed

theorem reader_safe_witness:
  "\<exists>r n r'. cf_cp_read_init (Some (frame_reader [])) (Bytes tiny_frame) = Some (CF_OK, Some r)
     \<and> run_reads [R_Root, R_Uint zero_value 0 8] r = Some (n, r') \<and> n \<le> 4096"
  using reader_safe [of "frame_reader []" tiny_frame "[R_Root, R_Uint zero_value 0 8]"] tiny_frame_ok(2)
  by (auto simp: CF_CAPNP_MESSAGE_MAX_def)

text \<open>
  Every object that the reader hands out lies inside the segment it points into, is nested at
  most 32 levels deep, and, unless it is null, was obtained without an error and strictly
  lowered the traversal budget.
\<close>

theorem reader_objects_valid:
  assumes "reader_inv r" "value_ok r v"
    and "cf_cp_root r = Some (w, r') \<or> cf_cp_field r v i = Some (w, r') \<or> cf_cp_at r v j = Some (w, r')"
  shows "reader_inv r' \<and> value_ok r' w
    \<and> (cv_kind w \<noteq> CF_CP_NULL \<longrightarrow> rd_error r' = CF_OK \<and> unat (rd_budget r') < unat (rd_budget r))"
  using assms root_ok [OF assms(1)] field_ok [OF assms(1), of v i] at_ok [OF assms(1), of v j]
  by (auto simp: rd_ok_def gives_value_def gives_safe_def intro: rd_step_inv)

theorem reader_objects_valid_witness:
  "\<exists>w r'. cf_cp_root (frame_reader tiny_frame) = Some (w, r') \<and> value_ok r' w"
proof -
  have inv: "reader_inv (frame_reader tiny_frame)"
    using frame_reader_inv tiny_frame_ok(2) by (simp add: CF_CAPNP_MESSAGE_MAX_def)
  obtain w r' where "cf_cp_root (frame_reader tiny_frame) = Some (w, r')"
    using root_ok [OF inv] by (auto simp: rd_ok_def)
  with reader_objects_valid [OF inv zero_value_ok(1), of w r' 0 0] show ?thesis by blast
qed

end
