(* ===== verification/CF_Build.thy ===== *)
theory CF_Build
  imports CF_Capnp
begin

text \<open>
  The Cap'n Proto builder of \<^verbatim>\<open>src/protocol/cf_capnp.c\<close>: a bounded single-segment encoder
  with sticky errors. The theory shows that the builder stays inside its buffer whatever it is
  asked for, that its output is a well-formed frame, and that the reader of theory
  \<open>CF_Capnp\<close> finds in it the structs, integers and byte strings that were put there.
\<close>

section \<open>The builder\<close>

record cf_cp_builder =
  bl_buffer :: "mem option"
  bl_capacity :: nat
  bl_words :: u32
  bl_error :: cf_result

definition alloc_words :: "cf_cp_builder \<Rightarrow> u32 \<Rightarrow> (u32 \<times> cf_cp_builder) option" where
  "alloc_words b n =
     (let at = bl_words b in
      if bl_error b \<noteq> CF_OK then Some (0, b)
      else if unat n > size_sub (size_sub (bl_capacity b) 8 div 8) (unat (bl_words b))
      then Some (0, b\<lparr>bl_error := CF_ERR_LIMIT\<rparr>)
      else do {
        m \<leftarrow> bl_buffer b;
        m \<leftarrow> store_n m (8 + unat at * 8) (replicate (unat n * 8) 0);
        Some (at, b\<lparr>bl_buffer := Some m, bl_words := bl_words b + n\<rparr>)
      })"

definition set_word :: "cf_cp_builder \<Rightarrow> u32 \<Rightarrow> u64 \<Rightarrow> cf_cp_builder option" where
  "set_word b slot v =
     (if bl_error b \<noteq> CF_OK then Some b
      else if slot \<ge> bl_words b then Some (b\<lparr>bl_error := CF_ERR_ARGUMENT\<rparr>)
      else do {
        m \<leftarrow> bl_buffer b;
        m \<leftarrow> put m (8 + unat slot * 8) 8 v;
        Some (b\<lparr>bl_buffer := Some m\<rparr>)
      })"

definition cf_cp_build_init :: "cf_cp_builder option \<Rightarrow> mem option \<Rightarrow> nat \<Rightarrow> (cf_result \<times> cf_cp_builder option) option" where
  "cf_cp_build_init bp out capacity = (case bp of None \<Rightarrow> Some (CF_ERR_ARGUMENT, None) | Some _ \<Rightarrow>
     let b = \<lparr>bl_buffer = None, bl_capacity = 0, bl_words = 0, bl_error = CF_OK\<rparr> in
     if out = None \<or> capacity < 16 \<or> capacity > CF_CAPNP_MESSAGE_MAX
     then Some (CF_ERR_ARGUMENT, Some (b\<lparr>bl_error := CF_ERR_ARGUMENT\<rparr>))
     else do {
       m \<leftarrow> out;
       m \<leftarrow> store_n m 0 (replicate 8 0);
       (_, b) \<leftarrow> alloc_words (b\<lparr>bl_buffer := Some m, bl_capacity := capacity\<rparr>) 1;
       Some (CF_OK, Some b)
     })"

definition cf_cp_struct :: "cf_cp_builder \<Rightarrow> u32 \<Rightarrow> u16 \<Rightarrow> u16 \<Rightarrow> (u32 \<times> cf_cp_builder) option" where
  "cf_cp_struct b slot data_words pointers = do {
     (at, b) \<leftarrow> alloc_words b (ucast data_words + ucast pointers);
     let delta = uint at - uint slot - 1;
     let delta = (if data_words = 0 \<and> pointers = 0 then - 1 else delta);
     b \<leftarrow> set_word b slot (push_bit 2 (word_of_int (delta AND 0x3fffffff)) OR push_bit 32 (ucast data_words)
            OR push_bit 48 (ucast pointers));
     Some (at, b)
   }"

definition cf_cp_set_uint :: "cf_cp_builder \<Rightarrow> u32 \<Rightarrow> u16 \<Rightarrow> u8 \<Rightarrow> u64 \<Rightarrow> cf_cp_builder option" where
  "cf_cp_set_uint b object byte width v =
     (let offset = size_wrap (size_wrap (unat object * 8) + unat byte) in
      if bl_error b \<noteq> CF_OK then Some b
      else if (width \<noteq> 1 \<and> width \<noteq> 2 \<and> width \<noteq> 4 \<and> width \<noteq> 8) \<or> offset > unat (bl_words b) * 8
        \<or> unat width > unat (bl_words b) * 8 - offset
      then Some (b\<lparr>bl_error := CF_ERR_ARGUMENT\<rparr>)
      else do {
        m \<leftarrow> bl_buffer b;
        m \<leftarrow> put m (8 + offset) (unat width) v;
        Some (b\<lparr>bl_buffer := Some m\<rparr>)
      })"

definition cf_cp_pointer_list :: "cf_cp_builder \<Rightarrow> u32 \<Rightarrow> u32 \<Rightarrow> (u32 \<times> cf_cp_builder) option" where
  "cf_cp_pointer_list b slot count = do {
     (at, b) \<leftarrow> alloc_words b count;
     b \<leftarrow> set_word b slot (push_bit 2 (ucast (at - slot - 1)) OR 1 OR push_bit 32 6 OR push_bit 35 (ucast count));
     Some (at, b)
   }"

definition cf_cp_blob :: "cf_cp_builder \<Rightarrow> u32 \<Rightarrow> cf_bytes \<Rightarrow> bool \<Rightarrow> cf_cp_builder option" where
  "cf_cp_blob b slot val is_text =
     (if bl_error b \<noteq> CF_OK then Some b
      else if bytes_bad val \<or> bytes_len val > CF_CAPNP_MESSAGE_MAX - 1 then Some (b\<lparr>bl_error := CF_ERR_ARGUMENT\<rparr>)
      else do {
        let n = (word_of_nat (bytes_len val) + (if is_text then 1 else 0) :: u32);
        (at, b) \<leftarrow> alloc_words b ((n + 7) div 8);
        b \<leftarrow> set_word b slot (push_bit 2 (ucast (at - slot - 1)) OR 1 OR push_bit 32 2 OR push_bit 35 (ucast n));
        if bl_error b = CF_OK \<and> bytes_len val \<noteq> 0 then do {
          m \<leftarrow> bl_buffer b;
          m \<leftarrow> store_n m (8 + unat at * 8) (bytes_list val);
          Some (b\<lparr>bl_buffer := Some m\<rparr>)
        }
        else Some b
      })"

definition cf_cp_build_end :: "cf_cp_builder option \<Rightarrow> nat option \<Rightarrow> (cf_result \<times> cf_cp_builder option \<times> nat option) option" where
  "cf_cp_build_end bp written =
     (case (bp, written) of
        (Some b, Some _) \<Rightarrow>
          if bl_error b \<noteq> CF_OK then Some (bl_error b, Some b, Some 0)
          else do {
            m \<leftarrow> bl_buffer b;
            m \<leftarrow> put m 4 4 (ucast (bl_words b));
            Some (CF_OK, Some (b\<lparr>bl_buffer := Some m\<rparr>), Some (8 + unat (bl_words b) * 8))
          }
      | _ \<Rightarrow> Some (CF_ERR_ARGUMENT, bp, written))"


section \<open>The abstract segment\<close>

text \<open>
  A builder without an error represents the bytes \<open>s\<close> of its segment; \<open>rest\<close> are the bytes of
  the caller's object behind the given capacity, which the builder must not touch.
\<close>

definition bl_rep :: "cf_cp_builder \<Rightarrow> u8 list \<Rightarrow> u8 list \<Rightarrow> bool" where
  "bl_rep b rest s \<longleftrightarrow> bl_error b = CF_OK \<and> (\<exists>m. bl_buffer b = Some m \<and> 16 \<le> bl_capacity b
     \<and> bl_capacity b \<le> CF_CAPNP_MESSAGE_MAX \<and> bl_capacity b \<le> length m \<and> drop (bl_capacity b) m = rest
     \<and> take 4 m = replicate 4 0 \<and> length s = 8 * unat (bl_words b) \<and> 1 \<le> unat (bl_words b)
     \<and> 8 + length s \<le> bl_capacity b \<and> take (length s) (drop 8 m) = s)"

text \<open>A builder that has failed keeps the error and the bytes behind the capacity.\<close>

definition bl_failed :: "cf_cp_builder \<Rightarrow> u8 list \<Rightarrow> bool" where
  "bl_failed b rest \<longleftrightarrow> bl_error b \<noteq> CF_OK \<and> (\<exists>m. bl_buffer b = Some m \<and> bl_capacity b \<le> length m \<and> drop (bl_capacity b) m = rest)"

definition bl_inv :: "cf_cp_builder \<Rightarrow> u8 list \<Rightarrow> bool" where
  "bl_inv b rest \<longleftrightarrow> bl_failed b rest \<or> (\<exists>s. bl_rep b rest s)"

text \<open>The builder calls with arbitrary arguments.\<close>

datatype bl_op = B_Struct u32 u16 u16 | B_List u32 u32 | B_Uint u32 u16 u8 u64 | B_Blob u32 cf_bytes bool

primrec bl_exec :: "bl_op \<Rightarrow> cf_cp_builder \<Rightarrow> cf_cp_builder option" where
  "bl_exec (B_Struct slot dw pc) b = map_option snd (cf_cp_struct b slot dw pc)"
| "bl_exec (B_List slot n) b = map_option snd (cf_cp_pointer_list b slot n)"
| "bl_exec (B_Uint obj byte w v) b = cf_cp_set_uint b obj byte w v"
| "bl_exec (B_Blob slot v t) b = cf_cp_blob b slot v t"

fun bl_run :: "bl_op list \<Rightarrow> cf_cp_builder \<Rightarrow> cf_cp_builder option" where
  "bl_run [] b = Some b"
| "bl_run (c # cs) b = do { b \<leftarrow> bl_exec c b; bl_run cs b }"

text \<open>Pointer words: a struct, and a list of \<open>n\<close> elements of size code \<open>k\<close>.\<close>

definition struct_word :: "nat \<Rightarrow> nat \<Rightarrow> nat \<Rightarrow> nat" where
  "struct_word d dw pc = 4 * d + 2 ^ 32 * dw + 2 ^ 48 * pc"

definition list_word :: "nat \<Rightarrow> nat \<Rightarrow> nat \<Rightarrow> nat" where
  "list_word d k n = 1 + 4 * d + 2 ^ 32 * k + 2 ^ 35 * n"

section \<open>Refinement of the single steps\<close>

lemma drop_splice_shift: "k \<le> length m \<Longrightarrow> k + i + length xs \<le> length m \<Longrightarrow> drop k (splice m (k + i) xs) = splice (drop k m) i xs"
  by (simp add: splice_def take_drop add.commute add.left_commute)

lemma take_splice_within: "i + length xs \<le> n \<Longrightarrow> n \<le> length m \<Longrightarrow> take n (splice m i xs) = splice (take n m) i xs"
  by (simp add: splice_def min_absorb1 min_absorb2 drop_take)

lemma bl_write:
  assumes "bl_rep b rest s" "bl_buffer b = Some m" "i + length xs \<le> length s"
  shows "8 + i + length xs \<le> length m" "bl_rep (b\<lparr>bl_buffer := Some (splice m (8 + i) xs)\<rparr>) rest (splice s i xs)"
proof -
  have m: "16 \<le> bl_capacity b" "bl_capacity b \<le> CF_CAPNP_MESSAGE_MAX" "bl_capacity b \<le> length m" "drop (bl_capacity b) m = rest"
    "take 4 m = replicate 4 0" "length s = 8 * unat (bl_words b)" "1 \<le> unat (bl_words b)" "8 + length s \<le> bl_capacity b"
    "take (length s) (drop 8 m) = s" "bl_error b = CF_OK"
    using assms(1,2) by (auto simp: bl_rep_def)
  show len: "8 + i + length xs \<le> length m" using m(3,8) assms(3) by simp
  have "drop (bl_capacity b) (splice m (8 + i) xs) = rest"
    using m assms(3) by (simp add: drop_splice)
  moreover have "take 4 (splice m (8 + i) xs) = replicate 4 0"
    using m(5) len by (simp add: take_splice)
  moreover have "take (length s) (drop 8 (splice m (8 + i) xs)) = splice s i xs"
    using m(3,8,9) assms(3) len by (simp add: drop_splice_shift take_splice_within)
  ultimately show "bl_rep (b\<lparr>bl_buffer := Some (splice m (8 + i) xs)\<rparr>) rest (splice s i xs)"
    using m len assms(3) by (simp add: bl_rep_def)
qed

lemma bl_fail: "bl_rep b rest s \<Longrightarrow> e \<noteq> CF_OK \<Longrightarrow> bl_failed (b\<lparr>bl_error := e\<rparr>) rest"
  by (auto simp: bl_rep_def bl_failed_def)

lemma alloc_fits:
  assumes "bl_rep b rest s" "8 + length s + 8 * unat n \<le> bl_capacity b"
  shows "\<exists>b'. alloc_words b n = Some (bl_words b, b') \<and> bl_rep b' rest (s @ replicate (8 * unat n) 0)
    \<and> bl_capacity b' = bl_capacity b \<and> unat (bl_words b') = unat (bl_words b) + unat n"
proof -
  obtain m where m: "bl_buffer b = Some m" "16 \<le> bl_capacity b" "bl_capacity b \<le> CF_CAPNP_MESSAGE_MAX" "bl_capacity b \<le> length m"
    "drop (bl_capacity b) m = rest"
    "take 4 m = replicate 4 0" "length s = 8 * unat (bl_words b)" "1 \<le> unat (bl_words b)" "8 + length s \<le> bl_capacity b"
    "take (length s) (drop 8 m) = s" "bl_error b = CF_OK"
    using assms(1) by (auto simp: bl_rep_def)
  let ?z = "replicate (unat n * 8) (0 :: u8)" let ?m = "splice m (8 + length s) ?z"
  let ?b = "b\<lparr>bl_buffer := Some ?m, bl_words := bl_words b + n\<rparr>"
  have fits: "8 + length s + length ?z \<le> bl_capacity b" using assms(2) by simp
  then have room: "8 + length s + length ?z \<le> length m" using m(4) by simp
  have nolimit: "\<not> unat n > size_sub (size_sub (bl_capacity b) 8 div 8) (unat (bl_words b))"
  proof -
    have "unat (bl_words b) + unat n \<le> (bl_capacity b - 8) div 8" using assms(2) m(7) by simp
    then show ?thesis using m(2) by (simp add: size_sub_def)
  qed
  have "store_n m (8 + unat (bl_words b) * 8) ?z = Some ?m"
    using room m(7) by (simp add: store_n_def mult.commute)
  then have alloc: "alloc_words b n = Some (bl_words b, ?b)"
    using nolimit m(1,11) by (simp add: alloc_words_def Let_def)
  have w: "unat (bl_words b + n) = unat (bl_words b) + unat n"
    using assms(2) m(3,7) by (subst unat_word_ariths) (simp add: CF_CAPNP_MESSAGE_MAX_def)
  have "drop (bl_capacity b) ?m = rest" using m(5) fits room by (subst drop_splice) simp_all
  moreover have "take 4 ?m = replicate 4 0" using m(6) room by (simp add: take_splice)
  moreover have "take (length s + length ?z) (drop 8 ?m) = s @ ?z"
  proof -
    have "drop 8 ?m = splice (drop 8 m) (length s) ?z" using room by (intro drop_splice_shift) simp_all
    then show ?thesis using m(10) room by (simp add: splice_def)
  qed
  ultimately have "bl_rep ?b rest (s @ ?z)" using m w fits room by (simp add: bl_rep_def)
  then show ?thesis using alloc w by (simp add: mult.commute)
qed

lemma alloc_fails:
  assumes "bl_rep b rest s" "\<not> 8 + length s + 8 * unat n \<le> bl_capacity b"
  shows "alloc_words b n = Some (0, b\<lparr>bl_error := CF_ERR_LIMIT\<rparr>)"
proof -
  have m: "16 \<le> bl_capacity b" "length s = 8 * unat (bl_words b)" "8 + length s \<le> bl_capacity b" "bl_error b = CF_OK"
    using assms(1) by (auto simp: bl_rep_def)
  have "unat (bl_words b) \<le> (bl_capacity b - 8) div 8" "(bl_capacity b - 8) div 8 < unat (bl_words b) + unat n"
    using assms(2) m by linarith+
  then have "(bl_capacity b - 8) div 8 - unat (bl_words b) < unat n" by linarith
  moreover have "size_sub (size_sub (bl_capacity b) 8 div 8) (unat (bl_words b)) = (bl_capacity b - 8) div 8 - unat (bl_words b)"
    using m(1) \<open>unat (bl_words b) \<le> (bl_capacity b - 8) div 8\<close> by (simp add: size_sub_def)
  ultimately show ?thesis using m(4) by (simp add: alloc_words_def Let_def)
qed

lemma set_word_fits:
  assumes "bl_rep b rest s" "slot < bl_words b"
  shows "\<exists>b'. set_word b slot v = Some b' \<and> bl_rep b' rest (splice s (8 * unat slot) (le_bytes 8 (unat v)))
    \<and> bl_capacity b' = bl_capacity b \<and> bl_words b' = bl_words b"
proof -
  obtain m where m: "bl_buffer b = Some m" "length s = 8 * unat (bl_words b)" "bl_error b = CF_OK"
    using assms(1) by (auto simp: bl_rep_def)
  have i: "8 * unat slot + length (le_bytes 8 (unat v)) \<le> length s"
    using assms(2) m(2) by (simp add: word_less_nat_alt)
  note W = bl_write [OF assms(1) m(1) i]
  have "put m (8 + unat slot * 8) 8 v = Some (splice m (8 + 8 * unat slot) (le_bytes 8 (unat v)))"
    using W(1) by (subst put_Some) (simp_all add: mult.commute)
  then show ?thesis using W(2) m(1,3) assms(2) by (simp add: set_word_def not_le [symmetric])
qed


lemma set_word_fails:
  assumes "bl_rep b rest s" "\<not> slot < bl_words b"
  shows "set_word b slot v = Some (b\<lparr>bl_error := CF_ERR_ARGUMENT\<rparr>)"
  using assms by (simp add: set_word_def bl_rep_def not_less)

lemma failed_unchanged:
  assumes "bl_failed b rest"
  shows "alloc_words b n = Some (0, b)" "set_word b slot v = Some b" "cf_cp_set_uint b obj byte w v = Some b"
    "cf_cp_blob b slot val t = Some b"
  using assms by (simp_all add: bl_failed_def alloc_words_def set_word_def cf_cp_set_uint_def cf_cp_blob_def Let_def)

section \<open>Pointer words\<close>

lemma unat_push_u64:
  fixes x :: u64
  assumes "unat x * 2 ^ n < 2 ^ 64"
  shows "unat (push_bit n x) = push_bit n (unat x)"
proof -
  have "unat (push_bit n x) = take_bit 64 (push_bit n (unat x))"
    by (simp only: unsigned_push_bit_eq) simp
  then show ?thesis using assms by (simp add: push_bit_eq_mult take_bit_nat_eq_self)
qed

lemma unat_ucast_u64: "unat (ucast (x :: u16) :: u64) = unat x" "unat (ucast (y :: u32) :: u64) = unat y"
  using u16_less [of x] u32_less [of y] by (simp_all add: unsigned_ucast_eq take_bit_nat_eq_self)

lemma struct_word_unat:
  fixes w :: u64 and dw pc :: u16
  assumes "unat w < 2 ^ 30"
  shows "unat (push_bit 2 w OR push_bit 32 (ucast dw) OR push_bit 48 (ucast pc)) = struct_word (unat w) (unat dw) (unat pc)"
proof -
  have "unat (push_bit 2 w OR push_bit 32 (ucast dw) OR push_bit 48 (ucast pc))
      = push_bit 2 (unat w) OR (push_bit 32 (unat dw) OR push_bit 48 (unat pc))"
    using assms u16_less [of dw] u16_less [of pc]
    by (simp only: unsigned_or_eq unat_push_u64 unat_ucast_u64) (simp add: unat_push_u64 unat_ucast_u64)
  also have "push_bit 32 (unat dw) OR push_bit 48 (unat pc) = push_bit 32 (unat dw + 2 ^ 16 * unat pc)"
    using u16_less [of dw] nat_or_push [of "push_bit 32 (unat dw)" 48 "unat pc"] by (simp add: push_bit_eq_mult)
  also have "push_bit 2 (unat w) OR \<dots> = struct_word (unat w) (unat dw) (unat pc)"
    using assms nat_or_push [of "push_bit 2 (unat w)" 32 "unat dw + 2 ^ 16 * unat pc"]
    by (simp add: push_bit_eq_mult struct_word_def)
  finally show ?thesis .
qed

lemma list_word_unat:
  fixes w k :: u64 and n :: u32
  assumes "unat w < 2 ^ 30" "unat k < 8" "unat n < 2 ^ 29"
  shows "unat (push_bit 2 w OR 1 OR push_bit 32 k OR push_bit 35 (ucast n)) = list_word (unat w) (unat k) (unat n)"
proof -
  have "unat (push_bit 2 w OR 1 OR push_bit 32 k OR push_bit 35 (ucast n))
      = push_bit 2 (unat w) OR (1 OR (push_bit 32 (unat k) OR push_bit 35 (unat n)))"
    using assms by (simp only: unsigned_or_eq unat_push_u64 unat_ucast_u64) (simp add: unat_push_u64 unat_ucast_u64)
  also have "\<dots> = (push_bit 2 (unat w) OR 1) OR (push_bit 32 (unat k) OR push_bit 35 (unat n))"
    by (simp only: or.assoc)
  also have "push_bit 2 (unat w) OR 1 = 4 * unat w + 1"
    using nat_push_or [of 1 2 "unat w"] by simp
  also have "push_bit 32 (unat k) OR push_bit 35 (unat n) = push_bit 32 (unat k + 8 * unat n)"
    using assms(2) nat_or_push [of "push_bit 32 (unat k)" 35 "unat n"] by (simp add: push_bit_eq_mult)
  also have "(4 * unat w + 1) OR \<dots> = list_word (unat w) (unat k) (unat n)"
    using assms(1) nat_or_push [of "4 * unat w + 1" 32 "unat k + 8 * unat n"] by (simp add: list_word_def)
  finally show ?thesis .
qed

lemma delta_word:
  fixes at slot :: u32
  assumes "slot < at" "unat at \<le> 4096"
  shows "unat (word_of_int ((uint at - uint slot - 1) AND 0x3fffffff) :: u64) = unat at - unat slot - 1"
    and "unat (ucast (at - slot - 1) :: u64) = unat at - unat slot - 1"
proof -
  have lt: "unat slot < unat at" using assms(1) by (simp add: word_less_nat_alt)
  let ?d = "unat at - unat slot - 1"
  have "int (m - n - 1) = int m - int n - 1" if "n < m" for m n using that by linarith
  from this [OF lt] have d: "uint at - uint slot - 1 = int ?d" by simp
  have "int ?d AND 0x3fffffff = int ?d mod 2 ^ 30"
    using take_bit_eq_mask [of 30 "int ?d"] by (simp add: mask_eq_exp_minus_1 take_bit_eq_mod)
  also have "\<dots> = int ?d" using assms(2) by simp
  finally have "(uint at - uint slot - 1) AND 0x3fffffff = int ?d" unfolding d .
  then have w: "word_of_int ((uint at - uint slot - 1) AND 0x3fffffff) = (word_of_nat ?d :: u64)"
    by (simp only: of_int_of_nat_eq)
  have "unat (word_of_nat n :: u64) = n" if "n \<le> 4096" for n
    using that by (simp add: unsigned_of_nat take_bit_nat_eq_self)
  then show "unat (word_of_int ((uint at - uint slot - 1) AND 0x3fffffff) :: u64) = ?d"
    unfolding w using assms(2) by (meson diff_le_self le_trans)
  have "slot \<le> at" using assms(1) by (rule order_less_imp_le)
  then have a: "unat (at - slot) = unat at - unat slot" by (rule unat_sub)
  have "1 \<le> at - slot" unfolding word_le_nat_alt a using lt by simp
  then have "unat (at - slot - 1) = ?d" unfolding unat_sub [OF \<open>1 \<le> at - slot\<close>] a by simp
  then show "unat (ucast (at - slot - 1) :: u64) = ?d" unfolding unat_ucast_u64 .
qed


lemma unat_of_nat_u32: "n < 2 ^ 32 \<Longrightarrow> unat (word_of_nat n :: u32) = n"
  by (simp add: unsigned_of_nat take_bit_nat_eq_self)

lemma word_fields:
  assumes "a < 2 ^ 32"
  shows "(a + 2 ^ 32 * b) mod 2 ^ 32 = (a :: nat)" "(a + 2 ^ 32 * b) div 2 ^ 32 = b"
  using assms by simp_all

lemma struct_word_fields:
  assumes "d < 2 ^ 30" "dw < 2 ^ 16" "pc < 2 ^ 16"
  shows "struct_word d dw pc mod 4 = 0" "struct_word d dw pc mod 2 ^ 32 div 4 = d"
    "struct_word d dw pc div 2 ^ 32 mod 2 ^ 16 = dw" "struct_word d dw pc div 2 ^ 48 mod 2 ^ 16 = pc"
proof -
  have e: "struct_word d dw pc = 4 * d + 2 ^ 32 * (dw + 2 ^ 16 * pc)" by (simp add: struct_word_def)
  have lt: "4 * d < 2 ^ 32" using assms(1) by simp
  note F = word_fields [OF lt, of "dw + 2 ^ 16 * pc", folded e]
  have "struct_word d dw pc = 4 * (d + 2 ^ 30 * (dw + 2 ^ 16 * pc))" unfolding e by simp
  then show "struct_word d dw pc mod 4 = 0" by simp
  show "struct_word d dw pc mod 2 ^ 32 div 4 = d" unfolding F(1) by simp
  show "struct_word d dw pc div 2 ^ 32 mod 2 ^ 16 = dw" unfolding F(2) using assms(2) by simp
  have "struct_word d dw pc div 2 ^ 48 = struct_word d dw pc div 2 ^ 32 div 2 ^ 16" by (simp add: div_mult2_eq [symmetric])
  then show "struct_word d dw pc div 2 ^ 48 mod 2 ^ 16 = pc" unfolding F(2) using assms(2,3) by simp
qed

lemma list_word_fields:
  assumes "d < 2 ^ 30" "k < 8" "n < 2 ^ 29"
  shows "list_word d k n mod 4 = 1" "list_word d k n mod 2 ^ 32 div 4 = d"
    "list_word d k n div 2 ^ 32 mod 8 = k" "list_word d k n div 2 ^ 35 mod 2 ^ 32 = n"
proof -
  have e: "list_word d k n = (1 + 4 * d) + 2 ^ 32 * (k + 8 * n)" by (simp add: list_word_def)
  have lt: "1 + 4 * d < 2 ^ 32" using assms(1) by simp
  note F = word_fields [OF lt, of "k + 8 * n", folded e]
  have "list_word d k n = 1 + 4 * (d + 2 ^ 30 * (k + 8 * n))" unfolding e by simp
  then show "list_word d k n mod 4 = 1" by presburger
  show "list_word d k n mod 2 ^ 32 div 4 = d" unfolding F(1) by simp
  show "list_word d k n div 2 ^ 32 mod 8 = k" unfolding F(2) using assms(2) by simp
  have "list_word d k n div 2 ^ 35 = list_word d k n div 2 ^ 32 div 8" by (simp add: div_mult2_eq [symmetric])
  then show "list_word d k n div 2 ^ 35 mod 2 ^ 32 = n" unfolding F(2) using assms(2,3) by simp
qed

section \<open>Refinement of the operations\<close>

definition bl_step :: "cf_cp_builder \<Rightarrow> u8 list \<Rightarrow> cf_cp_builder \<Rightarrow> bool" where
  "bl_step b rest b' \<longleftrightarrow> bl_inv b' rest \<and> bl_capacity b' = bl_capacity b"

lemma rep_inv: "bl_rep b rest s \<Longrightarrow> bl_inv b rest"
  by (auto simp: bl_inv_def)

lemma failed_inv: "bl_failed b rest \<Longrightarrow> bl_inv b rest"
  by (simp add: bl_inv_def)

lemma bl_inv_cases:
  assumes "bl_inv b rest"
  obtains (failed) "bl_failed b rest" | (rep) s where "bl_rep b rest s"
  using assms by (auto simp: bl_inv_def)

lemma rep_words:
  assumes "bl_rep b rest s"
  shows "length s = 8 * unat (bl_words b)" "unat (bl_words b) \<le> 2047" "1 \<le> unat (bl_words b)" "8 + length s \<le> bl_capacity b"
    "bl_capacity b \<le> CF_CAPNP_MESSAGE_MAX" "bl_error b = CF_OK"
  using assms by (auto simp: bl_rep_def CF_CAPNP_MESSAGE_MAX_def)

lemma alloc_step:
  assumes "bl_inv b rest"
  shows "\<exists>a b'. alloc_words b n = Some (a, b') \<and> bl_step b rest b'"
  using assms
proof (cases rule: bl_inv_cases)
  case failed
  then show ?thesis using failed_unchanged(1) by (auto simp: bl_step_def failed_inv)
next
  case (rep s)
  then show ?thesis
    using alloc_fits [OF rep, of n] alloc_fails [OF rep, of n] bl_fail [OF rep, of CF_ERR_LIMIT]
    by (cases "8 + length s + 8 * unat n \<le> bl_capacity b") (auto simp: bl_step_def intro: rep_inv failed_inv)
qed

lemma set_word_step:
  assumes "bl_inv b rest"
  shows "\<exists>b'. set_word b slot v = Some b' \<and> bl_step b rest b'"
  using assms
proof (cases rule: bl_inv_cases)
  case failed
  then show ?thesis using failed_unchanged(2) by (auto simp: bl_step_def failed_inv)
next
  case (rep s)
  then show ?thesis
    using set_word_fits [OF rep, of slot v] set_word_fails [OF rep, of slot v] bl_fail [OF rep, of CF_ERR_ARGUMENT]
    by (cases "slot < bl_words b") (auto simp: bl_step_def intro: rep_inv failed_inv)
qed

lemma struct_step:
  assumes "bl_inv b rest"
  shows "\<exists>a b'. cf_cp_struct b slot dw pc = Some (a, b') \<and> bl_step b rest b'"
proof -
  obtain a b1 where 1: "alloc_words b (ucast dw + ucast pc) = Some (a, b1)" "bl_step b rest b1"
    using alloc_step [OF assms] by blast
  then have inv: "bl_inv b1 rest" by (simp add: bl_step_def)
  let ?delta = "if dw = 0 \<and> pc = 0 then - 1 else uint a - uint slot - 1"
  obtain b2 where "set_word b1 slot (push_bit 2 (word_of_int (?delta AND 0x3fffffff)) OR push_bit 32 (ucast dw)
      OR push_bit 48 (ucast pc)) = Some b2" "bl_step b1 rest b2"
    using set_word_step [OF inv] by blast
  then show ?thesis using 1 unfolding cf_cp_struct_def Let_def bl_step_def by auto
qed

lemma pointer_list_step:
  assumes "bl_inv b rest"
  shows "\<exists>a b'. cf_cp_pointer_list b slot n = Some (a, b') \<and> bl_step b rest b'"
proof -
  obtain a b1 where 1: "alloc_words b n = Some (a, b1)" "bl_step b rest b1"
    using alloc_step [OF assms] by blast
  then have inv: "bl_inv b1 rest" by (simp add: bl_step_def)
  obtain b2 where "set_word b1 slot (push_bit 2 (ucast (a - slot - 1)) OR 1 OR push_bit 32 6 OR push_bit 35 (ucast n)) = Some b2"
      "bl_step b1 rest b2"
    using set_word_step [OF inv] by blast
  then show ?thesis using 1 unfolding cf_cp_pointer_list_def bl_step_def by auto
qed

text \<open>A write of \<open>width\<close> bytes that the guard of \<open>cf_cp_set_uint\<close> lets through.\<close>

lemma set_uint_fits:
  assumes "bl_rep b rest s" "width \<in> {1, 2, 4, 8}" "8 * unat object + unat byte + unat width \<le> length s"
  shows "\<exists>b'. cf_cp_set_uint b object byte width v = Some b'
    \<and> bl_rep b' rest (splice s (8 * unat object + unat byte) (le_bytes (unat width) (unat v)))
    \<and> bl_capacity b' = bl_capacity b \<and> bl_words b' = bl_words b"
proof -
  note W = rep_words [OF assms(1)]
  let ?o = "8 * unat object + unat byte"
  obtain m where m: "bl_buffer b = Some m" using assms(1) by (auto simp: bl_rep_def)
  have o: "size_wrap (size_wrap (unat object * 8) + unat byte) = ?o"
    using assms(3) W by (simp add: SIZE_MAX_def CF_CAPNP_MESSAGE_MAX_def)
  have w: "unat width \<le> 8" using assms(2) by auto
  note B = bl_write [OF assms(1) m, of ?o "le_bytes (unat width) (unat v)"]
  have "put m (8 + ?o) (unat width) v = Some (splice m (8 + ?o) (le_bytes (unat width) (unat v)))"
    using B(1) assms(3) w by (intro put_Some) simp_all
  then show ?thesis
    using B(2) assms(2,3) W m o by (auto simp: cf_cp_set_uint_def Let_def)
qed

lemma set_uint_step:
  assumes "bl_inv b rest"
  shows "\<exists>b'. cf_cp_set_uint b object byte width v = Some b' \<and> bl_step b rest b'"
  using assms
proof (cases rule: bl_inv_cases)
  case failed
  then show ?thesis using failed_unchanged(3) by (auto simp: bl_step_def failed_inv)
next
  case (rep s)
  note W = rep_words [OF rep]
  let ?o = "size_wrap (size_wrap (unat object * 8) + unat byte)"
  obtain m where m: "bl_buffer b = Some m" using rep by (auto simp: bl_rep_def)
  show ?thesis
  proof (cases "width \<in> {1, 2, 4, 8} \<and> ?o \<le> unat (bl_words b) * 8 \<and> unat width \<le> unat (bl_words b) * 8 - ?o")
    case True
    then have fit: "?o + length (le_bytes (unat width) (unat v)) \<le> length s" and w8: "unat width \<le> 8" using W(1) by auto
    note B = bl_write [OF rep m fit]
    have "put m (8 + ?o) (unat width) v = Some (splice m (8 + ?o) (le_bytes (unat width) (unat v)))"
      using B(1) w8 by (intro put_Some) simp_all
    then have "cf_cp_set_uint b object byte width v = Some (b\<lparr>bl_buffer := Some (splice m (8 + ?o) (le_bytes (unat width) (unat v)))\<rparr>)"
      using True W(6) m by (auto simp: cf_cp_set_uint_def Let_def)
    then show ?thesis using B(2) by (auto simp: bl_step_def intro: rep_inv)
  next
    case False
    then have "cf_cp_set_uint b object byte width v = Some (b\<lparr>bl_error := CF_ERR_ARGUMENT\<rparr>)"
      using W(6) by (auto simp: cf_cp_set_uint_def Let_def)
    then show ?thesis using bl_fail [OF rep, of CF_ERR_ARGUMENT] by (auto simp: bl_step_def intro: failed_inv)
  qed
qed

lemma alloc_then_set:
  assumes "m = Some (a, b1)" "\<And>v. \<exists>b'. set_word b1 slot v = Some b' \<and> P b'"
  shows "\<exists>b'. (m \<bind> (\<lambda>(at, b). set_word b slot (f at) \<bind> (\<lambda>b. Some (at, b)))) = Some (a, b') \<and> P b'"
  using assms(1) assms(2) [of "f a"] by auto

text \<open>
  A builder without an error whose segment has \<open>n\<close> words so far: the view in which a client
  counts the words of its message.
\<close>

definition bl_at :: "cf_cp_builder \<Rightarrow> u8 list \<Rightarrow> nat \<Rightarrow> nat \<Rightarrow> bool" where
  "bl_at b rest cap n \<longleftrightarrow> (\<exists>s. bl_rep b rest s) \<and> bl_capacity b = cap \<and> unat (bl_words b) = n"

lemma bl_at_rep:
  assumes "bl_at b rest cap n"
  obtains s where "bl_rep b rest s" "bl_capacity b = cap" "unat (bl_words b) = n" "length s = 8 * n" "n \<le> 2047"
  using assms rep_words unfolding bl_at_def by metis

lemma bl_atI: "bl_rep b rest s \<Longrightarrow> bl_capacity b = cap \<Longrightarrow> unat (bl_words b) = n \<Longrightarrow> bl_at b rest cap n"
  by (auto simp: bl_at_def)

lemma bl_at_words: "bl_at b rest cap n \<Longrightarrow> bl_words b = word_of_nat n"
  by (metis bl_at_def unat_inverse)

lemma bl_at_inv: "bl_at b rest cap n \<Longrightarrow> bl_inv b rest"
  by (auto simp: bl_at_def bl_inv_def)

lemma alloc_at:
  assumes "bl_at b rest cap n" "8 + 8 * (n + unat k) \<le> cap"
  shows "\<exists>b'. alloc_words b k = Some (word_of_nat n, b') \<and> bl_at b' rest cap (n + unat k)"
proof -
  obtain s where s: "bl_rep b rest s" "bl_capacity b = cap" "unat (bl_words b) = n" "length s = 8 * n"
    using bl_at_rep [OF assms(1)] by metis
  from alloc_fits [OF s(1), of k] s assms(2) show ?thesis
    by (auto simp: bl_at_words [OF assms(1)] intro: bl_atI)
qed

lemma set_word_at:
  assumes "bl_at b rest cap n" "unat slot < n"
  shows "\<exists>b'. set_word b slot v = Some b' \<and> bl_at b' rest cap n"
proof -
  obtain s where s: "bl_rep b rest s" "bl_capacity b = cap" "unat (bl_words b) = n"
    using bl_at_rep [OF assms(1)] by metis
  then have "slot < bl_words b" using assms(2) by (simp add: word_less_nat_alt)
  from set_word_fits [OF s(1) this, of v] s show ?thesis by (auto simp: bl_at_def)
qed

lemma struct_size: "unat (ucast (dw :: u16) + ucast (pc :: u16) :: u32) = unat dw + unat pc"
proof -
  have u: "unat (ucast (x :: u16) :: u32) = unat x" for x
    using u16_less [of x] by (simp add: unsigned_ucast_eq take_bit_nat_eq_self)
  show ?thesis using u16_less [of dw] u16_less [of pc] by (simp add: unat_word_ariths u)
qed

lemma struct_at:
  assumes "bl_at b rest cap n" "unat slot < n" "8 + 8 * (n + unat dw + unat pc) \<le> cap"
  shows "\<exists>b'. cf_cp_struct b slot dw pc = Some (word_of_nat n, b') \<and> bl_at b' rest cap (n + unat dw + unat pc)"
proof -
  obtain b1 where 1: "alloc_words b (ucast dw + ucast pc) = Some (word_of_nat n, b1)" "bl_at b1 rest cap (n + unat dw + unat pc)"
    using alloc_at [OF assms(1), of "ucast dw + ucast pc"] assms(3) by (auto simp: struct_size add.assoc)
  have "unat slot < n + unat dw + unat pc" using assms(2) by simp
  from alloc_then_set [OF 1(1) set_word_at [OF 1(2) this]] show ?thesis unfolding cf_cp_struct_def Let_def .
qed

lemma pointer_list_at:
  assumes "bl_at b rest cap n" "unat slot < n" "8 + 8 * (n + unat k) \<le> cap"
  shows "\<exists>b'. cf_cp_pointer_list b slot k = Some (word_of_nat n, b') \<and> bl_at b' rest cap (n + unat k)"
proof -
  obtain b1 where 1: "alloc_words b k = Some (word_of_nat n, b1)" "bl_at b1 rest cap (n + unat k)"
    using alloc_at [OF assms(1,3)] by blast
  have "unat slot < n + unat k" using assms(2) by simp
  from alloc_then_set [OF 1(1) set_word_at [OF 1(2) this]] show ?thesis unfolding cf_cp_pointer_list_def .
qed

lemma set_uint_at:
  assumes "bl_at b rest cap n" "width \<in> {1, 2, 4, 8}" "8 * unat object + unat byte + unat width \<le> 8 * n"
  shows "\<exists>b'. cf_cp_set_uint b object byte width v = Some b' \<and> bl_at b' rest cap n"
proof -
  obtain s where s: "bl_rep b rest s" "bl_capacity b = cap" "unat (bl_words b) = n" "length s = 8 * n"
    using bl_at_rep [OF assms(1)] by metis
  from set_uint_fits [OF s(1) assms(2), of object byte v] s assms(3) show ?thesis by (auto simp: bl_at_def)
qed


section \<open>Byte strings\<close>

lemma blob_length:
  fixes len :: nat
  assumes "len \<le> 16383"
  shows "unat (word_of_nat len + (if t then 1 else 0) :: u32) = len + (if t then 1 else 0)"
    and "unat ((word_of_nat len + (if t then 1 else 0) + 7) div 8 :: u32) = (len + (if t then 1 else 0) + 7) div 8"
proof -
  have u: "unat (word_of_nat len :: u32) = len" using assms by (simp add: unsigned_of_nat take_bit_nat_eq_self)
  show 1: "unat (word_of_nat len + (if t then 1 else 0) :: u32) = len + (if t then 1 else 0)"
    using assms by (simp add: unat_word_ariths u)
  show "unat ((word_of_nat len + (if t then 1 else 0) + 7) div 8 :: u32) = (len + (if t then 1 else 0) + 7) div 8"
    unfolding unat_div using assms by (simp add: unat_word_ariths u)
qed

text \<open>
  The segment after \<open>cf_cp_blob\<close>: new words for the bytes and an optional NUL, the pointer word
  in the slot, then the bytes.
\<close>

definition blob_words :: "cf_bytes \<Rightarrow> bool \<Rightarrow> nat" where
  "blob_words val t = (bytes_len val + (if t then 1 else 0) + 7) div 8"

lemma blob_fits:
  assumes "bl_rep b rest s" "unat slot < unat (bl_words b)" "\<not> bytes_bad val" "bytes_len val \<le> 16383"
    and "8 + length s + 8 * blob_words val t \<le> bl_capacity b"
  shows "\<exists>b'. cf_cp_blob b slot val t = Some b' \<and> bl_capacity b' = bl_capacity b
    \<and> unat (bl_words b') = unat (bl_words b) + blob_words val t
    \<and> bl_rep b' rest (splice (splice (s @ replicate (8 * blob_words val t) 0) (8 * unat slot)
        (le_bytes 8 (list_word (unat (bl_words b) - unat slot - 1) 2 (bytes_len val + (if t then 1 else 0)))))
        (length s) (bytes_list val))"
proof -
  note W = rep_words [OF assms(1)]
  define n :: u32 where "n = word_of_nat (bytes_len val) + (if t then 1 else 0)"
  note N = blob_length [OF assms(4), of t, folded n_def]
  have k: "unat ((n + 7) div 8) = blob_words val t" using N(2) by (simp add: blob_words_def)
  obtain b1 where b1: "alloc_words b ((n + 7) div 8) = Some (bl_words b, b1)" "bl_capacity b1 = bl_capacity b"
      "bl_rep b1 rest (s @ replicate (8 * blob_words val t) 0)" "unat (bl_words b1) = unat (bl_words b) + blob_words val t"
    using alloc_fits [OF assms(1), of "(n + 7) div 8"] assms(5) k by auto
  have slot: "slot < bl_words b" "slot < bl_words b1" using assms(2) b1(4) by (simp_all add: word_less_nat_alt)
  let ?p = "push_bit 2 (ucast (bl_words b - slot - 1)) OR 1 OR push_bit 32 2 OR push_bit 35 (ucast n) :: u64"
  have d: "unat (ucast (bl_words b - slot - 1) :: u64) = unat (bl_words b) - unat slot - 1"
    using W(2) by (intro delta_word(2) slot) simp
  have p: "unat ?p = list_word (unat (bl_words b) - unat slot - 1) 2 (bytes_len val + (if t then 1 else 0))"
    using list_word_unat [of "ucast (bl_words b - slot - 1)" 2 n] N(1) W(2) assms(4) unfolding d by simp
  obtain b2 where b2: "set_word b1 slot ?p = Some b2" "bl_capacity b2 = bl_capacity b" "bl_words b2 = bl_words b1"
      "bl_rep b2 rest (splice (s @ replicate (8 * blob_words val t) 0) (8 * unat slot) (le_bytes 8 (unat ?p)))"
    using set_word_fits [OF b1(3) slot(2), of ?p] b1(2) by auto
  obtain m where m: "bl_buffer b2 = Some m" "bl_error b2 = CF_OK" using b2(4) by (auto simp: bl_rep_def)
  have room: "length (bytes_list val) \<le> 8 * blob_words val t"
    using bytes_list_len [OF assms(3)] by (simp add: blob_words_def)
  have fit: "length s + length (bytes_list val) \<le> length (splice (s @ replicate (8 * blob_words val t) 0) (8 * unat slot) (le_bytes 8 (unat ?p)))"
    using room W(1) assms(2) by simp
  note B = bl_write [OF b2(4) m(1) fit]
  have "store_n m (8 + unat (bl_words b) * 8) (bytes_list val) = Some (splice m (8 + length s) (bytes_list val))"
    using B(1) W(1) by (simp add: store_n_def mult.commute)
  moreover have "bl_rep b2 rest (splice (splice (s @ replicate (8 * blob_words val t) 0) (8 * unat slot) (le_bytes 8 (unat ?p))) (length s) [])"
    using b2(4) by simp
  moreover have "bytes_list val = []" if "bytes_len val = 0" using bytes_list_len [OF assms(3)] that by simp
  moreover have "cf_cp_blob b slot val t = (if bl_error b2 = CF_OK \<and> bytes_len val \<noteq> 0 then do {
          m \<leftarrow> bl_buffer b2;
          m \<leftarrow> store_n m (8 + unat (bl_words b) * 8) (bytes_list val);
          Some (b2\<lparr>bl_buffer := Some m\<rparr>) } else Some b2)"
    using W(6) assms(3,4) b1(1) b2(1) by (simp add: cf_cp_blob_def CF_CAPNP_MESSAGE_MAX_def Let_def n_def [symmetric])
  ultimately show ?thesis
    using B(2) b2 b1(4) m unfolding p by (cases "bytes_len val = 0") auto
qed

lemma blob_at:
  assumes "bl_at b rest cap n" "unat slot < n" "\<not> bytes_bad val" "bytes_len val \<le> 16383" "8 + 8 * (n + blob_words val t) \<le> cap"
  shows "\<exists>b'. cf_cp_blob b slot val t = Some b' \<and> bl_at b' rest cap (n + blob_words val t)"
proof -
  obtain s where s: "bl_rep b rest s" "bl_capacity b = cap" "unat (bl_words b) = n" "length s = 8 * n"
    using bl_at_rep [OF assms(1)] by metis
  from blob_fits [OF s(1) _ assms(3,4), of slot t] s assms(2,5) show ?thesis by (auto simp: bl_at_def)
qed

lemma blob_step:
  assumes "bl_inv b rest"
  shows "\<exists>b'. cf_cp_blob b slot val t = Some b' \<and> bl_step b rest b'"
  using assms
proof (cases rule: bl_inv_cases)
  case failed
  then show ?thesis using failed_unchanged(4) by (auto simp: bl_step_def failed_inv)
next
  case (rep s)
  note W = rep_words [OF rep]
  show ?thesis
  proof (cases "bytes_bad val \<or> bytes_len val > 16383")
    case True
    then have "cf_cp_blob b slot val t = Some (b\<lparr>bl_error := CF_ERR_ARGUMENT\<rparr>)"
      using W(6) by (auto simp: cf_cp_blob_def CF_CAPNP_MESSAGE_MAX_def)
    then show ?thesis using bl_fail [OF rep, of CF_ERR_ARGUMENT] by (auto simp: bl_step_def intro: failed_inv)
  next
    case small: False
    define n :: u32 where "n = word_of_nat (bytes_len val) + (if t then 1 else 0)"
    have k: "unat ((n + 7) div 8) = blob_words val t"
      using blob_length(2) [of "bytes_len val" t, folded n_def] small by (simp add: blob_words_def)
    have blob: "cf_cp_blob b slot val t = Some b2"
      if "alloc_words b ((n + 7) div 8) = Some (a, b1)" "\<And>v. set_word b1 slot v = Some b2" "bl_error b2 \<noteq> CF_OK" for a b1 b2
      using that small W(6) by (auto simp: cf_cp_blob_def CF_CAPNP_MESSAGE_MAX_def Let_def n_def [symmetric])
    show ?thesis
    proof (cases "8 + length s + 8 * blob_words val t \<le> bl_capacity b")
      case fits: True
      show ?thesis
      proof (cases "unat slot < unat (bl_words b)")
        case True
        then show ?thesis using blob_fits [OF rep True _ _ fits] small by (auto simp: bl_step_def intro: rep_inv)
      next
        case out: False
        obtain b1 where b1: "alloc_words b ((n + 7) div 8) = Some (bl_words b, b1)" "bl_capacity b1 = bl_capacity b"
            "bl_rep b1 rest (s @ replicate (8 * blob_words val t) 0)" "unat (bl_words b1) = unat (bl_words b) + blob_words val t"
          using alloc_fits [OF rep, of "(n + 7) div 8"] fits k by auto
        show ?thesis
        proof (cases "slot < bl_words b1")
          case False
          then have "cf_cp_blob b slot val t = Some (b1\<lparr>bl_error := CF_ERR_ARGUMENT\<rparr>)"
            using set_word_fails [OF b1(3)] by (intro blob [OF b1(1)]) simp_all
          then show ?thesis using bl_fail [OF b1(3), of CF_ERR_ARGUMENT] b1(2) by (auto simp: bl_step_def intro: failed_inv)
        next
          case True
          let ?p = "push_bit 2 (ucast (bl_words b - slot - 1)) OR 1 OR push_bit 32 2 OR push_bit 35 (ucast n) :: u64"
          obtain b2 where b2: "set_word b1 slot ?p = Some b2" "bl_capacity b2 = bl_capacity b"
              "bl_rep b2 rest (splice (s @ replicate (8 * blob_words val t) 0) (8 * unat slot) (le_bytes 8 (unat ?p)))"
            using set_word_fits [OF b1(3) True, of ?p] b1(2) by auto
          obtain m where m: "bl_buffer b2 = Some m" "bl_error b2 = CF_OK" using b2(3) by (auto simp: bl_rep_def)
          have "length s + length (bytes_list val) \<le> length (splice (s @ replicate (8 * blob_words val t) 0) (8 * unat slot) (le_bytes 8 (unat ?p)))"
            using True b1(4) W(1) small bytes_list_len [of val] by (simp add: word_less_nat_alt blob_words_def)
          note B = bl_write [OF b2(3) m(1) this]
          have "store_n m (8 + unat (bl_words b) * 8) (bytes_list val) = Some (splice m (8 + length s) (bytes_list val))"
            using B(1) W(1) by (simp add: store_n_def mult.commute)
          then show ?thesis
            using small W(6) b1(1) b2(1,2) m B(2) rep_inv [OF b2(3)]
            by (auto simp: cf_cp_blob_def CF_CAPNP_MESSAGE_MAX_def Let_def n_def [symmetric] bl_step_def intro: rep_inv)
        qed
      qed
    next
      case False
      then have "alloc_words b ((n + 7) div 8) = Some (0, b\<lparr>bl_error := CF_ERR_LIMIT\<rparr>)"
        using alloc_fails [OF rep] k by simp
      then have "cf_cp_blob b slot val t = Some (b\<lparr>bl_error := CF_ERR_LIMIT\<rparr>)"
        by (rule blob) (simp_all add: set_word_def)
      then show ?thesis using bl_fail [OF rep, of CF_ERR_LIMIT] by (auto simp: bl_step_def intro: failed_inv)
    qed
  qed
qed

section \<open>A whole message\<close>

text \<open>The frame with the single segment \<open>s\<close>.\<close>

definition frame_of :: "u8 list \<Rightarrow> u8 list" where
  "frame_of s = replicate 4 0 @ le_bytes 4 (length s div 8) @ s"

lemma build_init:
  assumes "16 \<le> cap" "cap \<le> CF_CAPNP_MESSAGE_MAX" "cap \<le> length m"
  shows "\<exists>b. cf_cp_build_init (Some b0) (Some m) cap = Some (CF_OK, Some b) \<and> bl_rep b (drop cap m) (replicate 8 0)
    \<and> bl_capacity b = cap \<and> unat (bl_words b) = 1"
proof -
  let ?m0 = "splice m 0 (replicate 8 (0 :: u8))"
  let ?b = "\<lparr>bl_buffer = Some (splice ?m0 8 (replicate 8 0)), bl_capacity = cap, bl_words = 1, bl_error = CF_OK\<rparr>"
  have len: "length ?m0 = length m" using assms by simp
  have s0: "store_n m 0 (replicate 8 0) = Some ?m0" using assms by (simp add: store_n_def)
  have s1: "store_n ?m0 8 (replicate 8 0) = Some (splice ?m0 8 (replicate 8 0))" using assms len by (simp add: store_n_def)
  have cap: "\<not> 1 > size_sub cap 8 div 8"
    using assms(1) by (simp add: size_sub_def)
  have "cf_cp_build_init (Some b0) (Some m) cap = Some (CF_OK, Some ?b)"
    using assms(1,2) s0 s1 cap by (simp add: cf_cp_build_init_def alloc_words_def size_sub_def)
  moreover have "bl_rep ?b (drop cap m) (replicate 8 0)"
  proof -
    have "drop cap (splice ?m0 8 (replicate 8 0)) = drop cap m" using assms len by (simp add: drop_splice)
    moreover have "take 4 (splice ?m0 8 (replicate 8 0)) = replicate 4 0" using assms len
      by (simp add: take_splice) (simp add: splice_def)
    moreover have "take 8 (drop 8 (splice ?m0 8 (replicate 8 0))) = replicate 8 0"
      using read_splice [of 8 "replicate 8 0" ?m0] assms len by simp
    ultimately show ?thesis using assms len by (simp add: bl_rep_def)
  qed
  ultimately show ?thesis by simp
qed

lemma length_frame_of: "length s mod 8 = 0 \<Longrightarrow> length (frame_of s) = 8 + length s"
  by (simp add: frame_of_def)

lemma frame_of_fields:
  assumes "length s = 8 * n" "n < 2 ^ 32"
  shows "frame_count (frame_of s) = 1" "seg_word (frame_of s) 0 = n" "frame_segment (frame_of s) 0 = s"
proof -
  have r: "replicate 4 (0 :: u8) = [0, 0, 0, 0]" by (simp add: numeral_eq_Suc)
  show c: "frame_count (frame_of s) = 1" by (simp add: frame_count_def frame_of_def r)
  have "take 4 (drop 4 (frame_of s)) = le_bytes 4 n" using assms by (simp add: frame_of_def)
  then have "seg_word (frame_of s) 0 = n mod 256 ^ 4" by (simp add: seg_word_def le_val_bytes)
  then show w: "seg_word (frame_of s) 0 = n" using assms(2) by simp
  show "frame_segment (frame_of s) 0 = s"
    unfolding frame_segment_def c w using assms by (simp add: table_def seg_words_def frame_of_def)
qed

lemma frame_of_ok:
  assumes "length s = 8 * n" "1 \<le> n" "8 + length s \<le> CF_CAPNP_MESSAGE_MAX"
  shows "frame_ok CF_CAPNP_MESSAGE_MAX (frame_of s)"
proof -
  have n: "n < 2 ^ 32" using assms by (simp add: CF_CAPNP_MESSAGE_MAX_def)
  have len: "length (frame_of s) = 8 + 8 * n" using assms by (simp add: frame_of_def)
  show ?thesis using frame_of_fields [OF assms(1) n] len assms
    by (simp add: frame_ok_def CF_CAPNP_MAX_SEGMENTS_def table_def seg_words_def)
qed

text \<open>
  Ending a message: the caller's object begins with the frame, and what lies behind the
  capacity is what was there before.
\<close>

lemma build_end:
  assumes "bl_rep b rest s"
  shows "\<exists>b' m. cf_cp_build_end (Some b) (Some n0) = Some (CF_OK, Some b', Some (length (frame_of s)))
    \<and> bl_buffer b' = Some m \<and> take (length (frame_of s)) m = frame_of s \<and> drop (bl_capacity b) m = rest
    \<and> length m = length (the (bl_buffer b)) \<and> length (frame_of s) \<le> bl_capacity b \<and> frame_ok CF_CAPNP_MESSAGE_MAX (frame_of s)"
proof -
  note W = rep_words [OF assms]
  obtain m where m: "bl_buffer b = Some m" "bl_capacity b \<le> length m" "drop (bl_capacity b) m = rest"
      "take 4 m = replicate 4 0" "take (length s) (drop 8 m) = s" "16 \<le> bl_capacity b"
    using assms by (auto simp: bl_rep_def)
  let ?w = "le_bytes 4 (unat (bl_words b))" let ?m = "splice m 4 ?w"
  have len: "length (frame_of s) = 8 + length s" using W(1) by (simp add: frame_of_def)
  have "put m 4 4 (ucast (bl_words b)) = Some ?m"
    using put_Some [of 4 4 m "ucast (bl_words b)"] m by (simp add: unat_ucast_u64)
  then have "cf_cp_build_end (Some b) (Some n0) = Some (CF_OK, Some (b\<lparr>bl_buffer := Some ?m\<rparr>), Some (length (frame_of s)))"
    using m W by (simp add: cf_cp_build_end_def len mult.commute)
  moreover have "take (length (frame_of s)) ?m = frame_of s"
  proof -
    have "take (8 + length s) ?m = take 4 m @ ?w @ take (length s) (drop 8 m)"
      using m by (simp add: splice_def)
    then show ?thesis unfolding len m(4,5) using W(1) by (simp add: frame_of_def)
  qed
  moreover have "drop (bl_capacity b) ?m = rest" using m by (simp add: drop_splice)
  moreover have "frame_ok CF_CAPNP_MESSAGE_MAX (frame_of s)"
    using frame_of_ok [OF W(1,3)] W(4,5) by simp
  ultimately show ?thesis using W(4) m len by simp
qed

lemma build_end_failed:
  "bl_error b \<noteq> CF_OK \<Longrightarrow> cf_cp_build_end (Some b) (Some n0) = Some (bl_error b, Some b, Some 0)"
  by (simp add: cf_cp_build_end_def)

lemma bl_exec_step:
  assumes "bl_inv b rest"
  shows "\<exists>b'. bl_exec c b = Some b' \<and> bl_step b rest b'"
proof (cases c)
  case (B_Struct slot dw pc)
  then show ?thesis using struct_step [OF assms, of slot dw pc] by auto
next
  case (B_List slot n)
  then show ?thesis using pointer_list_step [OF assms, of slot n] by auto
next
  case (B_Uint obj byte w v)
  then show ?thesis using set_uint_step [OF assms] by simp
next
  case (B_Blob slot v t)
  then show ?thesis using blob_step [OF assms] by simp
qed

lemma bl_run_step: "bl_inv b rest \<Longrightarrow> \<exists>b'. bl_run cs b = Some b' \<and> bl_step b rest b'"
proof (induction cs arbitrary: b)
  case (Cons c cs)
  obtain b1 where b1: "bl_exec c b = Some b1" "bl_step b rest b1" using bl_exec_step [OF Cons.prems] by blast
  then obtain b2 where "bl_run cs b1 = Some b2" "bl_step b1 rest b2" using Cons.IH [of b1] by (auto simp: bl_step_def)
  then show ?case using b1 by (auto simp: bl_step_def)
qed (simp add: bl_step_def)

section \<open>Reading back\<close>

lemma and_3_unat: "unat (p AND 3 :: u64) = unat p mod 4"
proof -
  have "unat p AND 3 = unat p mod 4" using take_bit_eq_mask [of 2 "unat p"] by (simp add: mask_eq_exp_minus_1 take_bit_eq_mod)
  then show ?thesis by (simp add: unsigned_and_eq)
qed

lemma and_7_unat: "unat (p AND 7 :: u64) = unat p mod 8"
proof -
  have "unat p AND 7 = unat p mod 8" using take_bit_eq_mask [of 3 "unat p"] by (simp add: mask_eq_exp_minus_1 take_bit_eq_mod)
  then show ?thesis by (simp add: unsigned_and_eq)
qed

lemma unat_ucast_drop:
  fixes p :: u64
  shows "unat (ucast (drop_bit k p) :: u16) = unat p div 2 ^ k mod 2 ^ 16"
    and "unat (ucast (drop_bit k p) :: u32) = unat p div 2 ^ k mod 2 ^ 32"
    and "unat (ucast (drop_bit k p) :: u8) = unat p div 2 ^ k mod 2 ^ 8"
proof -
  have d: "unat (drop_bit k p) = unat p div 2 ^ k" unfolding unat_drop_bit_eq by (simp add: drop_bit_eq_div)
  show "unat (ucast (drop_bit k p) :: u16) = unat p div 2 ^ k mod 2 ^ 16"
    and "unat (ucast (drop_bit k p) :: u32) = unat p div 2 ^ k mod 2 ^ 32"
    and "unat (ucast (drop_bit k p) :: u8) = unat p div 2 ^ k mod 2 ^ 8"
    unfolding unsigned_ucast_eq d by (simp_all add: take_bit_eq_mod)
qed

lemma unat_low_offset: "unat (drop_bit 2 (ucast (p :: u64) :: u32)) = unat p mod 2 ^ 32 div 4"
proof -
  have "unat (ucast p :: u32) = unat p mod 2 ^ 32" by (simp add: unsigned_ucast_eq take_bit_eq_mod)
  then show ?thesis unfolding unat_drop_bit_eq by (simp add: drop_bit_eq_div)
qed


text \<open>A reader on the segment \<open>s\<close> of a single-segment frame.\<close>

definition reads :: "cf_cp_reader \<Rightarrow> u8 list \<Rightarrow> bool" where
  "reads r s \<longleftrightarrow> reader_inv r \<and> rd_error r = CF_OK \<and> rd_segment_count r = 1 \<and> rd_segments r ! 0 = Bytes s"

lemma reads_frame:
  assumes "length s = 8 * n" "1 \<le> n" "8 + length s \<le> CF_CAPNP_MESSAGE_MAX"
  shows "reads (frame_reader (frame_of s)) s"
proof -
  have n: "n < 2 ^ 32" using assms by (simp add: CF_CAPNP_MESSAGE_MAX_def)
  show ?thesis
    using frame_reader_inv [OF frame_of_ok [OF assms]] frame_of_fields [OF assms(1) n]
    by (simp add: reads_def frame_reader_def)
qed

lemma reads_step: "reads r s \<Longrightarrow> rd_step r r' \<Longrightarrow> rd_error r' = CF_OK \<Longrightarrow> reads r' s"
  unfolding reads_def using rd_step_inv by (auto simp: rd_step_def)

lemma reads_load: "reads r s \<Longrightarrow> load (rd_segments r) 0 = Some (Bytes s)"
  by (simp add: reads_def reader_inv_def load_def CF_CAPNP_MAX_SEGMENTS_def)

lemma reads_in_seg: "reads r s \<Longrightarrow> in_seg r 0 w k \<longleftrightarrow> w + k \<le> length s div 8"
  by (simp add: reads_def in_seg_def seg_len_def)

lemma reads_range:
  assumes "reads r s" "8 * (unat w + k) \<le> length s"
  shows "cp_range r 0 w k = Some (True, r)"
proof -
  have "unat w + k \<le> length s div 8" using assms(2) by simp
  then have "\<not> (unat w > length s div 8 \<or> k > length s div 8 - unat w)" by linarith
  then show ?thesis using assms(1) reads_load [OF assms(1)] by (simp add: cp_range_def reads_def)
qed

lemma reads_charge:
  assumes "reads r s" "max 1 k \<le> unat (rd_budget r)"
  obtains r' where "charge r k = (True, r')" "reads r' s" "unat (rd_budget r') = unat (rd_budget r) - max 1 k"
  using charge_cases [of r k] assms reads_step by (metis leD reads_def)

lemma reads_word:
  assumes "reads r s" "8 * unat slot + 8 \<le> length s"
  shows "\<exists>p. word_at r 0 slot = Some (p, r) \<and> unat p = le_val (take 8 (drop (8 * unat slot) s))"
proof -
  have "cp_range r 0 slot 1 = Some (True, r)" using assms(2) by (intro reads_range [OF assms(1)]) simp
  moreover obtain p where "le s (8 * unat slot) 8 = Some p" "unat p = le_val (take 8 (drop (8 * unat slot) s))"
    using le_Some [of 8 "8 * unat slot" s] le_unat [of s "8 * unat slot" 8] assms(2) by auto
  ultimately show ?thesis using reads_load [OF assms(1)] by (simp add: word_at_def mult.commute)
qed

text \<open>Following a slot whose word is not null and not a far pointer.\<close>

lemma follow_near:
  assumes "reads r s" "8 * unat slot + 8 \<le> length s" "depth \<le> CF_CAPNP_DEPTH_MAX" "1 \<le> unat (rd_budget r)"
    and "unat p = le_val (take 8 (drop (8 * unat slot) s))" "unat p \<noteq> 0" "unat p mod 4 \<noteq> 2"
  shows "\<exists>r1. follow r 0 slot depth = follow_pointer r1 depth 0 slot p False \<and> reads r1 s \<and> unat (rd_budget r1) = unat (rd_budget r) - 1"
proof -
  obtain q where "word_at r 0 slot = Some (q, r)" "unat q = unat p" using reads_word [OF assms(1,2)] assms(5) by auto
  then have w: "word_at r 0 slot = Some (p, r)" by (metis unat_inverse)
  obtain r1 where r1: "charge r 1 = (True, r1)" "reads r1 s" "unat (rd_budget r1) = unat (rd_budget r) - 1"
    using reads_charge [OF assms(1), of 1] assms(4) by auto
  have "p AND 3 \<noteq> 2" using and_3_unat [of p] assms(7) by auto
  then have "follow_far r1 0 slot p = Some (Some (0, slot, p, False), r1)" by (simp add: follow_far_def)
  moreover have "p \<noteq> 0" using assms(6) by auto
  ultimately have "follow r 0 slot depth = follow_pointer r1 depth 0 slot p False"
    using w r1(1) assms(1,3) by (simp add: follow_def reads_def not_less [symmetric])
  then show ?thesis using r1 by blast
qed

lemma pointer_target_near:
  assumes "unat p mod 2 ^ 32 div 4 = d" "d < 2 ^ 29"
  shows "pointer_target p slot False = uint slot + 1 + int d"
proof -
  have u: "uint (drop_bit 2 (ucast p :: u32)) = int d"
    using unat_low_offset [of p] assms(1) by (metis uint_nat)
  have "(int d AND 0x20000000) = 0"
  proof -
    have "take_bit 29 (int d) AND push_bit 29 1 = 0"
      by (rule bit_eqI) (unfold bit_and_iff bit_take_bit_iff bit_push_bit_iff, auto)
    moreover have "take_bit 29 (int d) = int d" using assms(2) by (simp add: take_bit_eq_mod)
    ultimately show ?thesis by simp
  qed
  then show ?thesis by (simp only: pointer_target_def Let_def u) simp
qed


lemma follow_struct:
  assumes "reads r s" "8 * unat slot + 8 \<le> length s" "depth \<le> CF_CAPNP_DEPTH_MAX"
    and "le_val (take 8 (drop (8 * unat slot) s)) = struct_word d (unat dw) (unat pc)" "dw \<noteq> 0 \<or> pc \<noteq> 0"
    and "8 * (unat slot + 1 + d + unat dw + unat pc) \<le> length s" "1 + unat dw + unat pc \<le> unat (rd_budget r)"
  shows "\<exists>r'. follow r 0 slot depth = Some (zero_value\<lparr>cv_kind := CF_CP_STRUCT, cv_word := word_of_nat (unat slot + 1 + d),
      cv_data_words := dw, cv_pointers := pc, cv_depth := depth\<rparr>, r') \<and> reads r' s
    \<and> unat (rd_budget r') = unat (rd_budget r) - (1 + unat dw + unat pc)"
proof -
  have small: "length s \<le> 16384" using assms(1) by (auto simp: reads_def reader_inv_def CF_CAPNP_MESSAGE_MAX_def)
  then have d: "d < 2 ^ 11" using assms(6) by simp
  define p :: u64 where "p = word_of_nat (struct_word d (unat dw) (unat pc))"
  have lt: "struct_word d (unat dw) (unat pc) < 2 ^ 64"
    using d u16_less [of dw] u16_less [of pc] by (simp add: struct_word_def)
  then have p: "unat p = struct_word d (unat dw) (unat pc)" by (simp add: p_def unsigned_of_nat take_bit_nat_eq_self)
  have d30: "d < 2 ^ 30" and w16: "unat dw < 2 ^ 16" "unat pc < 2 ^ 16"
    using d u16_less [of dw] u16_less [of pc] by simp_all
  note pm = struct_word_fields [OF d30 w16, folded p]
  have nz: "unat p \<noteq> 0" using p assms(5) by (auto simp: struct_word_def unat_eq_0)
  obtain r1 where r1: "follow r 0 slot depth = follow_pointer r1 depth 0 slot p False" "reads r1 s"
      "unat (rd_budget r1) = unat (rd_budget r) - 1"
    using follow_near [OF assms(1-3), of p] assms(4,7) p pm(1) nz by auto
  have low: "p AND 3 = 0" using and_3_unat [of p] pm(1) by (simp add: unat_eq_0 [symmetric] del: unat_eq_0)
  have dw: "ucast (drop_bit 32 p) = dw" "ucast (drop_bit 48 p) = pc"
    using unat_ucast_drop(1) [of 32 p] unat_ucast_drop(1) [of 48 p] pm(3,4) by (simp_all add: word_unat_eq_iff)
  define j where "j = unat slot + 1 + d"
  have j: "j \<le> 2048" using assms(6) small by (simp add: j_def)
  have t: "pointer_target p slot False = int j"
    using pointer_target_near [OF pm(2)] d by (simp add: j_def)
  have w: "unat (word_of_nat j :: u32) = j" using j by (intro unat_of_nat_u32) simp
  let ?v = "zero_value\<lparr>cv_kind := CF_CP_STRUCT, cv_word := word_of_nat j, cv_data_words := dw, cv_pointers := pc, cv_depth := depth\<rparr>"
  have "follow_pointer r1 depth 0 slot p False = follow_finish r1 0 ?v (unat dw + unat pc)"
    unfolding follow_pointer_def Let_def low t dw using j by (simp add: zero_value_def)
  moreover have "cp_range r1 0 (cv_word ?v) (unat dw + unat pc) = Some (True, r1)"
    using r1(2) w assms(6) by (intro reads_range) (simp_all add: j_def algebra_simps)
  moreover have mx: "max 1 (unat dw + unat pc) = unat dw + unat pc"
  proof -
    have "unat dw + unat pc \<noteq> 0" using assms(5) by (auto simp: unat_eq_0)
    then show ?thesis by linarith
  qed
  moreover have pay: "max 1 (unat dw + unat pc) \<le> unat (rd_budget r1)" unfolding mx using r1(3) assms(7) by simp
  then obtain r2 where "charge r1 (unat dw + unat pc) = (True, r2)" "reads r2 s"
      "unat (rd_budget r2) = unat (rd_budget r1) - max 1 (unat dw + unat pc)"
    using reads_charge [OF r1(2) pay] by blast
  ultimately show ?thesis using r1 assms(5) unfolding j_def by (simp add: follow_finish_def)
qed


lemma follow_bytes:
  assumes "reads r s" "8 * unat slot + 8 \<le> length s" "depth \<le> CF_CAPNP_DEPTH_MAX"
    and "le_val (take 8 (drop (8 * unat slot) s)) = list_word d 2 n"
    and "8 * (unat slot + 1 + d + (n + 7) div 8) \<le> length s" "1 + max 1 ((n + 7) div 8) \<le> unat (rd_budget r)"
  shows "\<exists>r'. follow r 0 slot depth = Some (zero_value\<lparr>cv_kind := CF_CP_LIST, cv_word := word_of_nat (unat slot + 1 + d),
      cv_element_size := 2, cv_count := word_of_nat n, cv_depth := depth\<rparr>, r') \<and> reads r' s
    \<and> unat (rd_budget r') = unat (rd_budget r) - (1 + max 1 ((n + 7) div 8))"
proof -
  have small: "length s \<le> 16384" using assms(1) by (auto simp: reads_def reader_inv_def CF_CAPNP_MESSAGE_MAX_def)
  then have d: "d < 2 ^ 11" using assms(5) by simp
  have n: "n < 2 ^ 29"
  proof -
    have "(n + 7) div 8 \<le> 2048" using small assms(5) by simp
    then show ?thesis by simp
  qed
  define p :: u64 where "p = word_of_nat (list_word d 2 n)"
  have lt: "list_word d 2 n < 2 ^ 64" using d n by (simp add: list_word_def)
  then have p: "unat p = list_word d 2 n" by (simp add: p_def unsigned_of_nat take_bit_nat_eq_self)
  have d30: "d < 2 ^ 30" and k: "(2 :: nat) < 8" using d by simp_all
  note pm = list_word_fields [OF d30 k n, folded p]
  have nz: "unat p \<noteq> 0" using p by (simp add: list_word_def)
  obtain r1 where r1: "follow r 0 slot depth = follow_pointer r1 depth 0 slot p False" "reads r1 s"
      "unat (rd_budget r1) = unat (rd_budget r) - 1"
    using follow_near [OF assms(1-3), of p] assms(4,6) p pm(1) nz by auto
  have low: "p AND 3 = 1" using and_3_unat [of p] pm(1) by (simp add: word_unat_eq_iff)
  have es: "(ucast (drop_bit 32 p AND 7) :: u8) = 2"
  proof -
    have "unat (drop_bit 32 p) = unat p div 2 ^ 32" unfolding unat_drop_bit_eq by (simp add: drop_bit_eq_div)
    then have "unat (drop_bit 32 p AND 7) = 2" unfolding and_7_unat using pm(3) by simp
    then have "drop_bit 32 p AND 7 = 2" unfolding word_unat_eq_iff by simp
    then show ?thesis by (simp only:) simp
  qed
  have cn: "(ucast (drop_bit 35 p) :: u32) = word_of_nat n"
    using unat_ucast_drop(2) [of 35 p] pm(4) by (metis unat_inverse)
  have un: "unat (word_of_nat n :: u32) = n" using n by (simp add: unsigned_of_nat take_bit_nat_eq_self)
  define j where "j = unat slot + 1 + d"
  have j: "j \<le> 2048" using assms(5) small by (simp add: j_def)
  have t: "pointer_target p slot False = int j"
    using pointer_target_near [OF pm(2)] d by (simp add: j_def)
  have w: "unat (word_of_nat j :: u32) = j" using j by (intro unat_of_nat_u32) simp
  let ?v = "zero_value\<lparr>cv_kind := CF_CP_LIST, cv_word := word_of_nat j, cv_element_size := 2, cv_count := word_of_nat n, cv_depth := depth\<rparr>"
  have words: "(n * 8 + 63) div 64 = (n + 7) div 8"
  proof -
    have "(n * 8 + 63) div 64 = (8 * (n + 7) + 7) div 8 div 8" by (simp add: div_mult2_eq [symmetric] algebra_simps)
    also have "(8 * (n + 7) + 7) div 8 = n + 7" by simp
    finally show ?thesis .
  qed
  have "follow_pointer r1 depth 0 slot p False = follow_finish r1 0 ?v ((n + 7) div 8)"
    unfolding follow_pointer_def Let_def low t follow_list_def es cn
    using j un words by (simp add: zero_value_def load_def list_bits_def)
  moreover have "cp_range r1 0 (cv_word ?v) ((n + 7) div 8) = Some (True, r1)"
    using r1(2) w assms(5) by (intro reads_range) (simp_all add: j_def algebra_simps)
  moreover obtain r2 where "charge r1 ((n + 7) div 8) = (True, r2)" "reads r2 s"
      "unat (rd_budget r2) = unat (rd_budget r1) - max 1 ((n + 7) div 8)"
    using reads_charge [OF r1(2), of "(n + 7) div 8"] r1(3) assms(6) by force
  ultimately show ?thesis using r1 unfolding j_def by (simp add: follow_finish_def)
qed


text \<open>What lies at a place that was written, and at a place that a write leaves alone.\<close>

lemma splice_other:
  assumes "i + k \<le> j \<or> j + length xs \<le> i" "j + length xs \<le> length m" "i + k \<le> length m"
  shows "take k (drop i (splice m j xs)) = take k (drop i m)"
proof (cases "i + k \<le> j")
  case True
  then have "take k (drop i (splice m j xs)) = drop i (take (i + k) (splice m j xs))" by (simp add: drop_take)
  also have "\<dots> = drop i (take (i + k) m)" using True assms(2) by (simp add: take_splice)
  finally show ?thesis by (simp add: drop_take)
next
  case False
  then have le: "j + length xs \<le> i" using assms(1) by blast
  show ?thesis using drop_splice [OF le assms(2)] by simp
qed

lemma drop_splice_at: "i + length xs \<le> length m \<Longrightarrow> drop i (splice m i xs) = xs @ drop (length xs) (drop i m)"
  by (simp add: splice_def add.commute)

lemma struct_word_of_struct:
  assumes "bl_rep b rest s" "unat slot < unat (bl_words b)" "8 + length s + 8 * (unat dw + unat pc) \<le> bl_capacity b"
    and "dw \<noteq> 0 \<or> pc \<noteq> 0"
  shows "\<exists>b'. cf_cp_struct b slot dw pc = Some (bl_words b, b')
    \<and> bl_rep b' rest (splice (s @ replicate (8 * (unat dw + unat pc)) 0) (8 * unat slot)
        (le_bytes 8 (struct_word (unat (bl_words b) - unat slot - 1) (unat dw) (unat pc))))"
proof -
  note W = rep_words [OF assms(1)]
  obtain b1 where b1: "alloc_words b (ucast dw + ucast pc) = Some (bl_words b, b1)"
      "bl_rep b1 rest (s @ replicate (8 * (unat dw + unat pc)) 0)" "unat (bl_words b1) = unat (bl_words b) + (unat dw + unat pc)"
    using alloc_fits [OF assms(1), of "ucast dw + ucast pc"] assms(3) by (auto simp: struct_size)
  have slot: "slot < bl_words b" "slot < bl_words b1" using assms(2) b1(3) by (simp_all add: word_less_nat_alt)
  let ?w = "word_of_int ((uint (bl_words b) - uint slot - 1) AND 0x3fffffff) :: u64"
  let ?p = "push_bit 2 ?w OR push_bit 32 (ucast dw) OR push_bit 48 (ucast pc) :: u64"
  have d: "unat ?w = unat (bl_words b) - unat slot - 1" using W(2) by (intro delta_word(1) slot) simp
  have p: "unat ?p = struct_word (unat (bl_words b) - unat slot - 1) (unat dw) (unat pc)"
    using struct_word_unat [of ?w dw pc] W(2) unfolding d by simp
  obtain b2 where b2: "set_word b1 slot ?p = Some b2"
      "bl_rep b2 rest (splice (s @ replicate (8 * (unat dw + unat pc)) 0) (8 * unat slot) (le_bytes 8 (unat ?p)))"
    using set_word_fits [OF b1(2) slot(2), of ?p] by auto
  have cond: "\<not> (dw = 0 \<and> pc = 0)" using assms(4) by blast
  have "cf_cp_struct b slot dw pc = Some (bl_words b, b2)"
    unfolding cf_cp_struct_def Let_def if_not_P [OF cond] using b1(1) b2(1) by simp
  then show ?thesis using b2(2) unfolding p by blast
qed


lemma data_read:
  assumes "reads r s" "8 * (unat w + (n + 7) div 8) \<le> length s"
    and "cv_word v = w" "cv_kind v = CF_CP_LIST" "cv_element_size v = 2" "cv_segment v = 0" "unat (cv_count v) = n"
    and "take n (drop (8 * unat w) s) = xs @ (if t then [0] else [])"
  shows "cf_cp_data r v t = Some (Bytes xs, r)"
proof -
  have "cp_range r 0 w ((n + 7) div 8) = Some (True, r)" by (rule reads_range [OF assms(1,2)])
  moreover have "unat w * 8 + n \<le> length s"
  proof -
    have "n \<le> 8 * ((n + 7) div 8)" by simp
    then show ?thesis using assms(2) by simp
  qed
  then have "load_n s (unat w * 8) n = Some (xs @ (if t then [0] else []))"
    using assms(8) by (simp add: load_n_def mult.commute)
  ultimately show ?thesis
    using assms(1,3-7) reads_load [OF assms(1)] by (simp add: cf_cp_data_def reads_def)
qed

lemma struct_read_back:
  assumes "bl_rep b rest s" "unat slot < unat (bl_words b)" "8 + length s + 8 * (unat dw + unat pc) \<le> bl_capacity b"
    and "dw \<noteq> 0 \<or> pc \<noteq> 0"
  obtains b' s' where "cf_cp_struct b slot dw pc = Some (bl_words b, b')" "bl_rep b' rest s'"
    "\<And>r depth. reads r s' \<Longrightarrow> depth \<le> CF_CAPNP_DEPTH_MAX \<Longrightarrow> 1 + unat dw + unat pc \<le> unat (rd_budget r) \<Longrightarrow>
       \<exists>r'. follow r 0 slot depth = Some (zero_value\<lparr>cv_kind := CF_CP_STRUCT, cv_word := bl_words b,
         cv_data_words := dw, cv_pointers := pc, cv_depth := depth\<rparr>, r') \<and> reads r' s'"
proof -
  note W = rep_words [OF assms(1)]
  let ?d = "unat (bl_words b) - unat slot - 1"
  let ?s = "splice (s @ replicate (8 * (unat dw + unat pc)) 0) (8 * unat slot) (le_bytes 8 (struct_word ?d (unat dw) (unat pc)))"
  obtain b' where b': "cf_cp_struct b slot dw pc = Some (bl_words b, b')" "bl_rep b' rest ?s"
    using struct_word_of_struct [OF assms] by blast
  have in_s: "8 * unat slot + length (le_bytes 8 (struct_word ?d (unat dw) (unat pc))) \<le> length (s @ replicate (8 * (unat dw + unat pc)) 0)"
    using assms(2) W(1) by simp
  have len: "length ?s = 8 * (unat (bl_words b) + unat dw + unat pc)" using length_splice [OF in_s] W(1) by simp
  have "struct_word ?d (unat dw) (unat pc) < 256 ^ 8"
    using W(2) u16_less [of dw] u16_less [of pc] by (simp add: struct_word_def)
  then have rd: "le_val (take 8 (drop (8 * unat slot) ?s)) = struct_word ?d (unat dw) (unat pc)"
    using read_splice [OF in_s] by (simp add: le_val_bytes)
  have j: "unat slot + 1 + ?d = unat (bl_words b)" using assms(2) by simp
  have "\<exists>r'. follow r 0 slot depth = Some (zero_value\<lparr>cv_kind := CF_CP_STRUCT, cv_word := bl_words b,
         cv_data_words := dw, cv_pointers := pc, cv_depth := depth\<rparr>, r') \<and> reads r' ?s"
    if r: "reads r ?s" "depth \<le> CF_CAPNP_DEPTH_MAX" "1 + unat dw + unat pc \<le> unat (rd_budget r)" for r depth
  proof -
    have l1: "8 * unat slot + 8 \<le> length ?s" unfolding len using assms(2) by simp
    have l2: "8 * (unat slot + 1 + ?d + unat dw + unat pc) \<le> length ?s" unfolding len j by simp
    from follow_struct [OF r(1) l1 r(2) rd assms(4) l2 r(3)] show ?thesis unfolding j unat_inverse by blast
  qed
  then show thesis using that [OF b'] by blast
qed

lemma blob_read_back:
  assumes "bl_rep b rest s" "unat slot < unat (bl_words b)" "\<not> bytes_bad val" "bytes_len val \<le> 16383"
    and "8 + length s + 8 * blob_words val t \<le> bl_capacity b"
  obtains b' s' where "cf_cp_blob b slot val t = Some b'" "bl_rep b' rest s'"
    "\<And>r depth. reads r s' \<Longrightarrow> depth \<le> CF_CAPNP_DEPTH_MAX \<Longrightarrow> 2 + blob_words val t \<le> unat (rd_budget r) \<Longrightarrow>
       \<exists>v r'. follow r 0 slot depth = Some (v, r') \<and> cf_cp_data r' v t = Some (Bytes (bytes_list val), r') \<and> reads r' s'"
proof -
  note W = rep_words [OF assms(1)]
  let ?d = "unat (bl_words b) - unat slot - 1" let ?n = "bytes_len val + (if t then 1 else 0)"
  let ?z = "replicate (8 * blob_words val t) (0 :: u8)"
  let ?s1 = "splice (s @ ?z) (8 * unat slot) (le_bytes 8 (list_word ?d 2 ?n))"
  let ?s = "splice ?s1 (length s) (bytes_list val)"
  obtain b' where b': "cf_cp_blob b slot val t = Some b'" "bl_rep b' rest ?s"
    using blob_fits [OF assms] by blast
  have n: "blob_words val t = (?n + 7) div 8" "?n \<le> 8 * blob_words val t" by (simp_all add: blob_words_def)
  have in_s: "8 * unat slot + length (le_bytes 8 (list_word ?d 2 ?n)) \<le> length (s @ ?z)" using assms(2) W(1) by simp
  have len1: "length ?s1 = length s + 8 * blob_words val t" using length_splice [OF in_s] by simp
  have fit: "length s + length (bytes_list val) \<le> length ?s1" using bytes_list_len [OF assms(3)] n(2) len1 by simp
  have len: "length ?s = 8 * (unat (bl_words b) + blob_words val t)" using length_splice [OF fit] len1 W(1) by simp
  have "list_word ?d 2 ?n < 256 ^ 8" using W(2) assms(4) by (auto simp: list_word_def)
  moreover have "take 8 (drop (8 * unat slot) ?s) = take 8 (drop (8 * unat slot) ?s1)"
    using assms(2) W(1) fit len1 by (intro splice_other) simp_all
  ultimately have rd: "le_val (take 8 (drop (8 * unat slot) ?s)) = list_word ?d 2 ?n"
    using read_splice [OF in_s] by (simp add: le_val_bytes)
  have j: "unat slot + 1 + ?d = unat (bl_words b)" using assms(2) by simp
  have content: "take ?n (drop (length s) ?s) = bytes_list val @ (if t then [0] else [])"
  proof -
    have z: "drop (length s) ?s1 = ?z"
    proof -
      have "drop (length s) ?s1 = drop (length s) (s @ ?z)" using in_s assms(2) W(1) by (intro drop_splice) simp_all
      then show ?thesis by simp
    qed
    have "drop (length s) ?s = bytes_list val @ drop (length (bytes_list val)) ?z"
      unfolding drop_splice_at [OF fit] z ..
    moreover have "take ?n (bytes_list val @ drop (length (bytes_list val)) ?z) = bytes_list val @ (if t then [0] else [])"
      using bytes_list_len [OF assms(3)] n(2) by (cases t) simp_all
    ultimately show ?thesis by simp
  qed
  have "\<exists>v r'. follow r 0 slot depth = Some (v, r') \<and> cf_cp_data r' v t = Some (Bytes (bytes_list val), r') \<and> reads r' ?s"
    if r: "reads r ?s" "depth \<le> CF_CAPNP_DEPTH_MAX" "2 + blob_words val t \<le> unat (rd_budget r)" for r depth
  proof -
    have l1: "8 * unat slot + 8 \<le> length ?s" unfolding len using assms(2) by simp
    have l2: "8 * (unat slot + 1 + ?d + (?n + 7) div 8) \<le> length ?s" unfolding n(1) [symmetric] len j by simp
    have l3: "1 + max 1 ((?n + 7) div 8) \<le> unat (rd_budget r)" using r(3) unfolding n(1) [symmetric] by simp
    obtain r' where r': "follow r 0 slot depth = Some (zero_value\<lparr>cv_kind := CF_CP_LIST, cv_word := bl_words b,
        cv_element_size := 2, cv_count := word_of_nat ?n, cv_depth := depth\<rparr>, r')" (is "_ = Some (?v, _)") "reads r' ?s"
      using follow_bytes [OF r(1) l1 r(2) rd l2 l3] unfolding j unat_inverse by blast
    have un: "unat (word_of_nat ?n :: u32) = ?n" using assms(4) by (intro unat_of_nat_u32) simp
    have fit': "8 * (unat (bl_words b) + (?n + 7) div 8) \<le> length ?s" using l2 unfolding j .
    have "take ?n (drop (8 * unat (bl_words b)) ?s) = bytes_list val @ (if t then [0] else [])"
      unfolding W(1) [symmetric] by (rule content)
    then have "cf_cp_data r' ?v t = Some (Bytes (bytes_list val), r')"
      using data_read [OF r'(2) fit', where v = ?v and t = t and xs = "bytes_list val"] un by (simp add: zero_value_def del: of_nat_add)
    then show ?thesis using r' by blast
  qed
  then show thesis using that [OF b'] by blast
qed


lemma uint_read_back:
  assumes "bl_rep b rest s" "width \<in> {1, 2, 4, 8}" "unat byte + unat width \<le> 8 * unat (cv_data_words v)"
    and "8 * (unat (cv_word v) + unat (cv_data_words v)) \<le> length s" "cv_kind v = CF_CP_STRUCT" "cv_segment v = 0"
  obtains b' s' where "cf_cp_set_uint b (cv_word v) byte width x = Some b'" "bl_rep b' rest s'"
    "\<And>r. reads r s' \<Longrightarrow> 1 \<le> unat (rd_budget r) \<Longrightarrow>
       \<exists>y r'. cf_cp_uint r v byte width = Some (y, r') \<and> unat y = unat x mod 2 ^ (8 * unat width) \<and> reads r' s'"
proof -
  let ?o = "8 * unat (cv_word v) + unat byte" let ?w = "le_bytes (unat width) (unat x)"
  let ?s = "splice s ?o ?w"
  have fit: "?o + unat width \<le> length s" using assms(3,4) by simp
  obtain b' where b': "cf_cp_set_uint b (cv_word v) byte width x = Some b'" "bl_rep b' rest ?s"
    using set_uint_fits [OF assms(1,2) fit, of x] by blast
  have in_s: "?o + length ?w \<le> length s" using fit by simp
  have len: "length ?s = length s" using length_splice [OF in_s] .
  have w8: "unat width \<le> 8" using assms(2) by auto
  have pow: "(256 :: nat) ^ unat width = 2 ^ (8 * unat width)" by (simp add: power_mult)
  have rd: "take (unat width) (drop ?o ?s) = ?w" using read_splice [OF in_s] by simp
  have "\<exists>y r'. cf_cp_uint r v byte width = Some (y, r') \<and> unat y = unat x mod 2 ^ (8 * unat width) \<and> reads r' ?s"
    if r: "reads r ?s" "1 \<le> unat (rd_budget r)" for r
  proof -
    have fit': "?o + unat width \<le> length ?s" unfolding len by (rule fit)
    obtain y where y: "le ?s ?o (unat width) = Some y" using le_Some [OF w8 fit'] by blast
    have uy: "unat y = le_val ?w" using le_unat [OF y w8 fit'] unfolding rd .
    have "cp_range r 0 (cv_word v) (unat (cv_data_words v)) = Some (True, r)"
      using assms(4) len by (intro reads_range [OF r(1)]) simp
    moreover obtain r' where r': "charge r 1 = (True, r')" "reads r' ?s"
      using reads_charge [OF r(1), of 1] r(2) by auto
    ultimately have "cf_cp_uint r v byte width = Some (y, r')"
      using r(1) assms(2,3,5,6) y reads_load [OF r'(2)]
      by (auto simp: cf_cp_uint_def Let_def reads_def mult.commute)
    then show ?thesis using uy r'(2) by (simp add: le_val_bytes pow)
  qed
  then show thesis using that [OF b'] by blast
qed

section \<open>Properties\<close>

lemma bl_inv_buffer:
  assumes "bl_inv b rest"
  obtains m where "bl_buffer b = Some m" "bl_capacity b \<le> length m" "drop (bl_capacity b) m = rest"
  using assms by (auto simp: bl_inv_def bl_rep_def bl_failed_def)

text \<open>A finished message goes over the wire and is opened by the reader of the peer.\<close>

definition sent :: "cf_cp_builder \<Rightarrow> cf_cp_reader \<Rightarrow> bool" where
  "sent b r \<longleftrightarrow> (\<exists>b' n m. cf_cp_build_end (Some b) (Some 0) = Some (CF_OK, Some b', Some n) \<and> bl_buffer b' = Some m
     \<and> cf_cp_read_init (Some (frame_reader [])) (Bytes (take n m)) = Some (CF_OK, Some r))"

lemma sent_reads:
  assumes "bl_rep b rest s"
  shows "sent b (frame_reader (frame_of s))" "sent b r \<Longrightarrow> reads r s \<and> unat (rd_budget r) = 4096"
proof -
  note W = rep_words [OF assms]
  obtain b' m where b': "cf_cp_build_end (Some b) (Some 0) = Some (CF_OK, Some b', Some (length (frame_of s)))" "bl_buffer b' = Some m"
      "take (length (frame_of s)) m = frame_of s" "frame_ok CF_CAPNP_MESSAGE_MAX (frame_of s)"
    using build_end [OF assms, of 0] by blast
  note R = read_init_ok [OF b'(4), of "frame_reader []"]
  show "sent b (frame_reader (frame_of s))" unfolding sent_def using b' R by metis
  assume "sent b r"
  then have "r = frame_reader (frame_of s)" using b' R by (auto simp: sent_def)
  moreover have "reads (frame_reader (frame_of s)) s" using W by (intro reads_frame) auto
  ultimately show "reads r s \<and> unat (rd_budget r) = 4096" by (simp add: frame_reader_def CF_CAPNP_TRAVERSAL_WORDS_def)
qed

text \<open>
  C37. Whatever sequence of builder calls a client makes, with whatever slots, sizes and values, on
  a buffer of an admissible capacity: no call writes outside the first \<open>cap\<close> bytes of the
  buffer, and the end of the message either reports an error and no bytes, or reports \<open>n \<le> cap\<close>
  bytes that are a well-formed frame, so that the reader can open them.
\<close>

theorem builder_safe:
  assumes "16 \<le> cap" "cap \<le> CF_CAPNP_MESSAGE_MAX" "cap \<le> length m"
  shows "\<exists>b b' rc b'' n m'. cf_cp_build_init (Some b0) (Some m) cap = Some (CF_OK, Some b) \<and> bl_run cs b = Some b'
    \<and> cf_cp_build_end (Some b') (Some n0) = Some (rc, Some b'', Some n) \<and> bl_buffer b'' = Some m'
    \<and> length m' = length m \<and> drop cap m' = drop cap m \<and> n \<le> cap
    \<and> (if rc = CF_OK then frame_ok CF_CAPNP_MESSAGE_MAX (take n m') else n = 0)"
proof -
  obtain b where b: "cf_cp_build_init (Some b0) (Some m) cap = Some (CF_OK, Some b)" "bl_rep b (drop cap m) (replicate 8 0)"
      "bl_capacity b = cap"
    using build_init [OF assms] by blast
  obtain b' where b': "bl_run cs b = Some b'" "bl_inv b' (drop cap m)" "bl_capacity b' = cap"
    using bl_run_step [OF rep_inv [OF b(2)], of cs] b(3) by (auto simp: bl_step_def)
  obtain m1 where m1: "bl_buffer b' = Some m1" "cap \<le> length m1" "drop cap m1 = drop cap m"
    using bl_inv_buffer [OF b'(2)] b'(3) by metis
  have len: "length m1 = length m"
    using arg_cong [OF m1(3), of length] m1(2) assms(3) by (simp add: le_diff_iff')
  from b'(2) show ?thesis
  proof (cases rule: bl_inv_cases)
    case failed
    then have "cf_cp_build_end (Some b') (Some n0) = Some (bl_error b', Some b', Some 0)" "bl_error b' \<noteq> CF_OK"
      by (simp_all add: bl_failed_def build_end_failed)
    then show ?thesis using b(1) b'(1) m1 len by (metis le0)
  next
    case (rep s)
    from build_end [OF rep, of n0] obtain b'' m' where
      "cf_cp_build_end (Some b') (Some n0) = Some (CF_OK, Some b'', Some (length (frame_of s)))" "bl_buffer b'' = Some m'"
      "take (length (frame_of s)) m' = frame_of s" "drop cap m' = drop cap m" "length m' = length m"
      "length (frame_of s) \<le> cap" "frame_ok CF_CAPNP_MESSAGE_MAX (frame_of s)"
      using b'(3) m1(1) len by auto
    then show ?thesis using b(1) b'(1) by (metis (no_types, lifting))
  qed
qed


lemma small_builder:
  "\<exists>b. cf_cp_build_init (Some b0) (Some (replicate 64 0)) 64 = Some (CF_OK, Some b) \<and> bl_rep b [] (replicate 8 0)
    \<and> bl_capacity b = 64 \<and> unat (bl_words b) = 1"
  using build_init [of 64 "replicate 64 0" b0] by (simp add: CF_CAPNP_MESSAGE_MAX_def)

theorem builder_safe_witness:
  "\<exists>b b' rc b'' n. cf_cp_build_init (Some \<lparr>bl_buffer = None, bl_capacity = 0, bl_words = 0, bl_error = CF_OK\<rparr>)
      (Some (replicate 20 7)) 16 = Some (CF_OK, Some b)
    \<and> bl_run [B_Struct 9 1 1, B_Blob 0 (Bytes [1, 2]) True] b = Some b'
    \<and> cf_cp_build_end (Some b') (Some 0) = Some (rc, Some b'', Some n) \<and> n \<le> 16"
  using builder_safe [of 16 "replicate 20 7" "\<lparr>bl_buffer = None, bl_capacity = 0, bl_words = 0, bl_error = CF_OK\<rparr>"
      "[B_Struct 9 1 1, B_Blob 0 (Bytes [1, 2]) True]" 0]
  by (simp add: CF_CAPNP_MESSAGE_MAX_def del: bl_run.simps) blast

text \<open>
  C31. Round trip of byte strings: a text or data value that fits into the remaining words is put
  behind its slot without an error, and the reader of the finished message that follows the same
  slot gets exactly the bytes that were given, without the terminating NUL of a text.
\<close>

theorem blob_roundtrip:
  assumes "bl_rep b rest s" "unat slot < unat (bl_words b)" "\<not> bytes_bad val" "bytes_len val \<le> 16383"
    and "8 + length s + 8 * ((bytes_len val + (if t then 1 else 0) + 7) div 8) \<le> bl_capacity b" "depth \<le> CF_CAPNP_DEPTH_MAX"
  shows "\<exists>b' r v r'. cf_cp_blob b slot val t = Some b' \<and> sent b' r \<and> follow r 0 slot depth = Some (v, r')
    \<and> cf_cp_data r' v t = Some (Bytes (bytes_list val), r') \<and> rd_error r' = CF_OK"
proof -
  have fit: "8 + length s + 8 * blob_words val t \<le> bl_capacity b" using assms(5) unfolding blob_words_def .
  obtain b' s' where b': "cf_cp_blob b slot val t = Some b'" "bl_rep b' rest s'"
    and rd: "\<And>r depth. reads r s' \<Longrightarrow> depth \<le> CF_CAPNP_DEPTH_MAX \<Longrightarrow> 2 + blob_words val t \<le> unat (rd_budget r) \<Longrightarrow>
       \<exists>v r'. follow r 0 slot depth = Some (v, r') \<and> cf_cp_data r' v t = Some (Bytes (bytes_list val), r') \<and> reads r' s'"
    using blob_read_back [OF assms(1-4) fit] by metis
  note S = sent_reads [OF b'(2)]
  have "blob_words val t \<le> 2049" using assms(4) by (auto simp: blob_words_def)
  then show ?thesis using rd [OF S(2) [THEN conjunct1] assms(6)] S b'(1) unfolding reads_def by fastforce
qed

theorem blob_roundtrip_witness:
  "\<exists>b b' r v r'. cf_cp_build_init (Some \<lparr>bl_buffer = None, bl_capacity = 0, bl_words = 0, bl_error = CF_OK\<rparr>)
      (Some (replicate 64 0)) 64 = Some (CF_OK, Some b)
    \<and> cf_cp_blob b 0 (Bytes [104, 105]) True = Some b' \<and> sent b' r \<and> follow r 0 0 1 = Some (v, r')
    \<and> cf_cp_data r' v True = Some (Bytes [104, 105], r')"
proof -
  obtain b where b: "cf_cp_build_init (Some \<lparr>bl_buffer = None, bl_capacity = 0, bl_words = 0, bl_error = CF_OK\<rparr>)
      (Some (replicate 64 0)) 64 = Some (CF_OK, Some b)" "bl_rep b [] (replicate 8 0)" "bl_capacity b = 64" "unat (bl_words b) = 1"
    using small_builder by blast
  from blob_roundtrip [OF b(2), of 0 "Bytes [104, 105]" True 1] b show ?thesis by (auto simp: CF_CAPNP_DEPTH_MAX_def)
qed

text \<open>
  Round trip of structs: a struct of \<open>dw\<close> data words and \<open>pc\<close> pointers that fits is allocated
  at the end of the segment, and the reader of the message that follows its slot finds a struct
  of exactly that shape at exactly that word.
\<close>

theorem struct_roundtrip:
  assumes "bl_rep b rest s" "unat slot < unat (bl_words b)" "8 + length s + 8 * (unat dw + unat pc) \<le> bl_capacity b"
    and "dw \<noteq> 0 \<or> pc \<noteq> 0" "depth \<le> CF_CAPNP_DEPTH_MAX"
  shows "\<exists>at b' r v r'. cf_cp_struct b slot dw pc = Some (at, b') \<and> 8 * unat at = length s \<and> sent b' r
    \<and> follow r 0 slot depth = Some (v, r') \<and> rd_error r' = CF_OK
    \<and> v = zero_value\<lparr>cv_kind := CF_CP_STRUCT, cv_word := at, cv_data_words := dw, cv_pointers := pc, cv_depth := depth\<rparr>"
proof -
  note W = rep_words [OF assms(1)]
  obtain b' s' where b': "cf_cp_struct b slot dw pc = Some (bl_words b, b')" "bl_rep b' rest s'"
    and rd: "\<And>r depth. reads r s' \<Longrightarrow> depth \<le> CF_CAPNP_DEPTH_MAX \<Longrightarrow> 1 + unat dw + unat pc \<le> unat (rd_budget r) \<Longrightarrow>
       \<exists>r'. follow r 0 slot depth = Some (zero_value\<lparr>cv_kind := CF_CP_STRUCT, cv_word := bl_words b,
         cv_data_words := dw, cv_pointers := pc, cv_depth := depth\<rparr>, r') \<and> reads r' s'"
    using struct_read_back [OF assms(1-4)] by metis
  note S = sent_reads [OF b'(2)]
  have "unat dw + unat pc \<le> 2047" using assms(3) W(5) by (simp add: CF_CAPNP_MESSAGE_MAX_def)
  then show ?thesis using rd [OF S(2) [THEN conjunct1] assms(5)] S b'(1) W(1) unfolding reads_def by fastforce
qed

theorem struct_roundtrip_witness:
  "\<exists>b at b' r v r'. cf_cp_build_init (Some \<lparr>bl_buffer = None, bl_capacity = 0, bl_words = 0, bl_error = CF_OK\<rparr>)
      (Some (replicate 64 0)) 64 = Some (CF_OK, Some b)
    \<and> cf_cp_struct b 0 2 1 = Some (at, b') \<and> sent b' r \<and> follow r 0 0 1 = Some (v, r') \<and> cv_word v = at \<and> cv_pointers v = 1"
proof -
  obtain b where b: "cf_cp_build_init (Some \<lparr>bl_buffer = None, bl_capacity = 0, bl_words = 0, bl_error = CF_OK\<rparr>)
      (Some (replicate 64 0)) 64 = Some (CF_OK, Some b)" "bl_rep b [] (replicate 8 0)" "bl_capacity b = 64" "unat (bl_words b) = 1"
    using small_builder by blast
  from struct_roundtrip [OF b(2), of 0 2 1 1] b show ?thesis by (fastforce simp: CF_CAPNP_DEPTH_MAX_def)
qed

text \<open>
  Round trip of integers: a value written into the data words of a struct of the segment is
  read back from the finished message truncated to its width, and nothing else.
\<close>

theorem uint_roundtrip:
  assumes "bl_rep b rest s" "width \<in> {1, 2, 4, 8}" "unat byte + unat width \<le> 8 * unat (cv_data_words v)"
    and "8 * (unat (cv_word v) + unat (cv_data_words v)) \<le> length s" "cv_kind v = CF_CP_STRUCT" "cv_segment v = 0"
  shows "\<exists>b' r y r'. cf_cp_set_uint b (cv_word v) byte width x = Some b' \<and> sent b' r
    \<and> cf_cp_uint r v byte width = Some (y, r') \<and> unat y = unat x mod 2 ^ (8 * unat width) \<and> rd_error r' = CF_OK"
proof -
  obtain b' s' where b': "cf_cp_set_uint b (cv_word v) byte width x = Some b'" "bl_rep b' rest s'"
    and rd: "\<And>r. reads r s' \<Longrightarrow> 1 \<le> unat (rd_budget r) \<Longrightarrow>
       \<exists>y r'. cf_cp_uint r v byte width = Some (y, r') \<and> unat y = unat x mod 2 ^ (8 * unat width) \<and> reads r' s'"
    using uint_read_back [OF assms] by metis
  note S = sent_reads [OF b'(2)]
  show ?thesis using rd [OF S(2) [THEN conjunct1]] S b'(1) unfolding reads_def by fastforce
qed

theorem uint_roundtrip_witness:
  "\<exists>b b' r y r'. cf_cp_build_init (Some \<lparr>bl_buffer = None, bl_capacity = 0, bl_words = 0, bl_error = CF_OK\<rparr>)
      (Some (replicate 64 0)) 64 = Some (CF_OK, Some b)
    \<and> cf_cp_set_uint b 0 2 2 0x12345 = Some b' \<and> sent b' r
    \<and> cf_cp_uint r (zero_value\<lparr>cv_kind := CF_CP_STRUCT, cv_data_words := 1\<rparr>) 2 2 = Some (y, r') \<and> unat y = 0x2345"
proof -
  obtain b where b: "cf_cp_build_init (Some \<lparr>bl_buffer = None, bl_capacity = 0, bl_words = 0, bl_error = CF_OK\<rparr>)
      (Some (replicate 64 0)) 64 = Some (CF_OK, Some b)" "bl_rep b [] (replicate 8 0)" "bl_capacity b = 64" "unat (bl_words b) = 1"
    using small_builder by blast
  from uint_roundtrip [OF b(2), of 2 2 "zero_value\<lparr>cv_kind := CF_CP_STRUCT, cv_data_words := 1\<rparr>" "0x12345"] b
  show ?thesis by (auto simp: zero_value_def)
qed

end
