(* ===== verification/CF_Json.thy ===== *)
theory CF_Json
  imports CF_Base64
begin

text \<open>
  The JSON front end of \<^verbatim>\<open>src/protocol/cf_json.c\<close>: the allocator hooks with their heap limit,
  the lexical filter in front of the vendored cJSON parser, the parse entry point, the erasure of
  a tree and the check of property names. The parser \<open>cf_cJSON_ParseWithLengthOpts\<close> itself is
  third-party code: a function argument of the model that maps the input to a tree and an end
  offset, or to a failure, together with the allocation-failure flag that its calls of the hooks
  leave behind.
\<close>

section \<open>The JSON tree\<close>

text \<open>
  A \<open>cf_cJSON\<close> item: the type bits the sources test, the property name, the string value, the
  number and the list of children, which the C code links through \<open>next\<close>. A C string is the list
  of its characters. A finite \<open>double\<close> is a fraction \<open>m / 2 ^ e\<close>.
\<close>

datatype cj_type = CJ_False | CJ_True | CJ_Null | CJ_Number | CJ_String | CJ_Array | CJ_Object

datatype cj_double = Finite int nat | Infinite | Neg_Infinite | Not_A_Number

datatype cJSON = CJ (cj_type: cj_type) (cj_string: "u8 list option") (cj_valuestring: "u8 list option")
  (cj_valuedouble: cj_double) (cj_child: "cJSON list")

type_synonym cjson_parser = "u8 list \<Rightarrow> (cJSON \<times> nat) option \<times> bool"

definition cf_cJSON_Is :: "cj_type \<Rightarrow> cJSON option \<Rightarrow> bool" where
  "cf_cJSON_Is ty item = (case item of None \<Rightarrow> False | Some x \<Rightarrow> cj_type x = ty)"

fun object_item_loop :: "u8 list \<Rightarrow> cJSON list \<Rightarrow> cJSON option" where
  "object_item_loop name [] = None"
| "object_item_loop name (x # xs) = (case cj_string x of
     None \<Rightarrow> None
   | Some s \<Rightarrow> if s \<noteq> name then object_item_loop name xs else Some x)"

definition cf_cJSON_GetObjectItemCaseSensitive :: "cJSON option \<Rightarrow> u8 list \<Rightarrow> cJSON option" where
  "cf_cJSON_GetObjectItemCaseSensitive obj name = (case obj of None \<Rightarrow> None | Some x \<Rightarrow> object_item_loop name (cj_child x))"

section \<open>The allocator hooks\<close>

definition JSON_HEAP_LIMIT :: nat where "JSON_HEAP_LIMIT = 32768"

record json_heap =
  json_live_bytes :: nat
  json_allocation_failed :: bool

text \<open>
  \<open>header\<close> is \<open>sizeof(json_allocation)\<close> of the target, \<open>available\<close> the answer of \<open>malloc\<close>. The result is the
  charge stored in the header of the block, or \<open>None\<close> for NULL.
\<close>

definition json_alloc :: "nat \<Rightarrow> bool \<Rightarrow> nat \<Rightarrow> json_heap \<Rightarrow> nat option \<times> json_heap" where
  "json_alloc header available n h =
     (if n > size_sub JSON_HEAP_LIMIT header then (None, h\<lparr>json_allocation_failed := True\<rparr>)
      else let charge = size_wrap (n + header) in
      if charge > size_sub JSON_HEAP_LIMIT (json_live_bytes h) then (None, h\<lparr>json_allocation_failed := True\<rparr>)
      else if \<not> available then (None, h\<lparr>json_allocation_failed := True\<rparr>)
      else (Some charge, h\<lparr>json_live_bytes := json_live_bytes h + charge\<rparr>))"

text \<open>\<open>block\<close> is the charge in the header and the bytes of the block; it is erased before it is freed.\<close>

definition json_free :: "(nat \<times> mem) option \<Rightarrow> json_heap \<Rightarrow> (mem option \<times> json_heap) option" where
  "json_free ptr h = (case ptr of None \<Rightarrow> Some (None, h) | Some (charge, block) \<Rightarrow> do {
     p \<leftarrow> cf_secure_zero (Some (block, 0)) charge;
     (block, _) \<leftarrow> p;
     Some (Some block, h\<lparr>json_live_bytes := size_sub (json_live_bytes h) charge\<rparr>)
   })"

definition cf_json_failure :: "json_heap \<Rightarrow> cf_result" where
  "cf_json_failure h = (if json_allocation_failed h then CF_ERR_MEMORY else CF_ERR_FORMAT)"

section \<open>The lexical filter\<close>

definition number_digit :: "u8 \<Rightarrow> bool" where
  "number_digit c \<longleftrightarrow> c \<ge> ch CHR ''0'' \<and> c \<le> ch CHR ''9''"

text \<open>The loop \<open>while (p < in.len && number_digit(in.ptr[p])) ++p\<close>.\<close>

definition skip_digits :: "u8 list \<Rightarrow> nat \<Rightarrow> nat" where
  "skip_digits xs p = p + length (takeWhile number_digit (drop p xs))"

text \<open>
  The parts of a number from \<open>p\<close> on. \<open>Some None\<close> is the verdict \<open>false\<close>, \<open>Some (Some p)\<close> the
  position behind the part, and \<open>None\<close> an access outside the input.
\<close>

definition number_int :: "u8 list \<Rightarrow> nat \<Rightarrow> nat option option" where
  "number_int xs p = do {
     c \<leftarrow> load xs p;
     let minus = (c = ch CHR ''-'');
     let p = (if minus then p + 1 else p);
     if minus \<and> p = length xs then Some None
     else do {
       c \<leftarrow> load xs p;
       if \<not> number_digit c then Some None
       else if c = ch CHR ''0'' then Some (Some (p + 1))
       else Some (Some (skip_digits xs p))
     }
   }"

definition number_frac :: "u8 list \<Rightarrow> nat \<Rightarrow> nat option option" where
  "number_frac xs p =
     (if p < length xs \<and> xs ! p = ch CHR ''.'' then
        let p = p + 1 in
        if p = length xs then Some None
        else do {
          c \<leftarrow> load xs p;
          if \<not> number_digit c then Some None else Some (Some (skip_digits xs p))
        }
      else Some (Some p))"

definition number_exp :: "u8 list \<Rightarrow> nat \<Rightarrow> nat option option" where
  "number_exp xs p =
     (if p < length xs \<and> (xs ! p = ch CHR ''e'' \<or> xs ! p = ch CHR ''E'') then
        let p = p + 1 in
        if p = length xs then Some None
        else do {
          c \<leftarrow> load xs p;
          let p = (if c = ch CHR ''+'' \<or> c = ch CHR ''-'' then p + 1 else p);
          if p = length xs then Some None
          else do {
            c \<leftarrow> load xs p;
            if \<not> number_digit c then Some None else Some (Some (skip_digits xs p))
          }
        }
      else Some (Some p))"

definition json_space :: "u8 \<Rightarrow> bool" where
  "json_space c \<longleftrightarrow> c = 32 \<or> c = 9 \<or> c = 13 \<or> c = 10"

definition number_stop :: "u8 \<Rightarrow> bool" where
  "number_stop c \<longleftrightarrow> c = ch CHR '','' \<or> c = ch CHR ''}'' \<or> c = ch CHR '']'' \<or> json_space c"

fun and_then :: "nat option option \<Rightarrow> (nat \<Rightarrow> nat option option) \<Rightarrow> nat option option" where
  "and_then None f = None"
| "and_then (Some None) f = Some None"
| "and_then (Some (Some p)) f = f p"

definition number_lexeme :: "u8 list \<Rightarrow> nat \<Rightarrow> nat option option" where
  "number_lexeme xs i = and_then (number_int xs i) (\<lambda>p. and_then (number_frac xs p) (\<lambda>p. and_then (number_exp xs p) (\<lambda>p.
     if p < length xs \<and> \<not> number_stop (xs ! p) then Some None else Some (Some p))))"

text \<open>One iteration of the loop: the verdict \<open>false\<close> on the left, the next state on the right.\<close>

definition lexeme_step :: "u8 list \<Rightarrow> nat \<Rightarrow> bool \<Rightarrow> bool \<Rightarrow> (unit + (nat \<times> bool \<times> bool)) option" where
  "lexeme_step xs i string escaped = do {
     c \<leftarrow> load xs i;
     if string then
       if c < 32 then Some (Inl ())
       else if escaped then Some (Inr (i + 1, True, False))
       else if c = ch CHR 0x5C then Some (Inr (i + 1, True, True))
       else if c = ch CHR 0x22 then Some (Inr (i + 1, False, False))
       else Some (Inr (i + 1, True, False))
     else if c = ch CHR 0x22 then Some (Inr (i + 1, True, escaped))
     else if c < 32 \<and> c \<noteq> 9 \<and> c \<noteq> 13 \<and> c \<noteq> 10 then Some (Inl ())
     else if c = ch CHR ''-'' \<or> number_digit c then do {
       r \<leftarrow> number_lexeme xs i;
       (case r of None \<Rightarrow> Some (Inl ()) | Some p \<Rightarrow> Some (Inr (p, False, escaped)))
     }
     else Some (Inr (i + 1, False, escaped))
   }"


lemma skip_digits_more: "number_digit (xs ! p) \<Longrightarrow> p < length xs \<Longrightarrow> p < skip_digits xs p"
  by (simp add: skip_digits_def Cons_nth_drop_Suc [symmetric])

lemma skip_digits_bounds: "p \<le> length xs \<Longrightarrow> p \<le> skip_digits xs p \<and> skip_digits xs p \<le> length xs"
  using length_takeWhile_le [of number_digit "drop p xs"] by (simp add: skip_digits_def)

text \<open>A digit string from \<open>p\<close> to \<open>skip_digits xs p\<close>.\<close>

lemma skip_digits_text: "p \<le> length xs \<Longrightarrow> take (skip_digits xs p - p) (drop p xs) = takeWhile number_digit (drop p xs)"
  by (simp add: skip_digits_def takeWhile_eq_take [symmetric])

lemma and_then_cases: "and_then x f = Some (Some p) \<longleftrightarrow> (\<exists>q. x = Some (Some q) \<and> f q = Some (Some p))"
  by (cases "(x, f)" rule: and_then.cases) auto

lemma number_int_more: "number_int xs p = Some (Some q) \<Longrightarrow> p < q \<and> q \<le> length xs"
  using skip_digits_more [of xs p] skip_digits_more [of xs "p + 1"] skip_digits_bounds [of p xs] skip_digits_bounds [of "p + 1" xs]
  by (auto simp: number_int_def Let_def load_def split: if_splits)

lemma number_frac_more: "number_frac xs p = Some (Some q) \<Longrightarrow> p \<le> length xs \<Longrightarrow> p \<le> q \<and> q \<le> length xs"
  using skip_digits_bounds [of "p + 1" xs]
  by (auto simp: number_frac_def Let_def load_def split: if_splits)

lemma number_exp_more: "number_exp xs p = Some (Some q) \<Longrightarrow> p \<le> length xs \<Longrightarrow> p \<le> q \<and> q \<le> length xs"
  using skip_digits_bounds [of "p + 1" xs] skip_digits_bounds [of "p + 2" xs]
  by (auto simp: number_exp_def Let_def load_def numeral_2_eq_2 split: if_splits)

lemma number_lexeme_more: "number_lexeme xs i = Some (Some p) \<Longrightarrow> i < p \<and> p \<le> length xs"
  unfolding number_lexeme_def
  by (auto simp: and_then_cases split: if_splits dest!: number_int_more number_frac_more number_exp_more)

lemma lexeme_step_more: "lexeme_step xs i string escaped = Some (Inr (j, s, e)) \<Longrightarrow> i < j \<and> j \<le> length xs"
  by (auto simp: lexeme_step_def load_def split: if_splits Option.bind_splits option.splits dest: number_lexeme_more)

function lexemes_loop :: "u8 list \<Rightarrow> nat \<Rightarrow> bool \<Rightarrow> bool \<Rightarrow> bool option" where
  "lexemes_loop xs i string escaped =
     (if i < length xs then
        (case lexeme_step xs i string escaped of
           None \<Rightarrow> None
         | Some (Inl _) \<Rightarrow> Some False
         | Some (Inr (j, s, e)) \<Rightarrow> lexemes_loop xs j s e)
      else Some (\<not> string))"
  by pat_completeness auto
termination
  by (relation "measure (\<lambda>(xs, i, s, e). length xs - i)") (auto dest!: lexeme_step_more)

declare lexemes_loop.simps [simp del]

definition valid_lexemes :: "u8 list \<Rightarrow> bool option" where
  "valid_lexemes xs = lexemes_loop xs 0 False False"

section \<open>Parsing\<close>

text \<open>The loop that refuses NUL bytes and escaped NULs.\<close>

fun nul_free :: "u8 list \<Rightarrow> bool" where
  "nul_free [] = True"
| "nul_free (c # cs) = (if c = 0 then False else if take 6 (c # cs) = str [CHR 0x5C, CHR ''u'', CHR ''0'', CHR ''0'', CHR ''0'', CHR ''0''] then False else nul_free cs)"

text \<open>The loop over the white space behind the root; \<open>end\<close> is an offset.\<close>

definition skip_space :: "u8 list \<Rightarrow> nat \<Rightarrow> nat" where
  "skip_space xs fin = fin + length (takeWhile json_space (drop fin xs))"

definition cf_json_parse :: "cjson_parser \<Rightarrow> cf_bytes \<Rightarrow> json_heap \<Rightarrow> (cJSON option \<times> json_heap) option" where
  "cf_json_parse parser input h =
     (let h = h\<lparr>json_allocation_failed := False\<rparr> in
      if bytes_null input \<or> bytes_len input = 0 \<or> bytes_len input > 8192 then Some (None, h)
      else do {
        let xs = bytes_list input;
        ok \<leftarrow> valid_lexemes xs;
        if \<not> ok \<or> \<not> nul_free xs then Some (None, h)
        else
          let (r, failed) = parser xs; h = h\<lparr>json_allocation_failed := failed\<rparr> in
          (case r of
             None \<Rightarrow> Some (None, h)
           | Some (root, fin) \<Rightarrow> if skip_space xs fin \<noteq> length xs then Some (None, h) else Some (Some root, h))
      })"

text \<open>\<open>wipe_tree\<close> erases every string value of a tree in place.\<close>

fun wipe_item :: "cJSON \<Rightarrow> cJSON" where
  "wipe_item (CJ ty name val num children) = CJ ty name (map_option (\<lambda>s. replicate (length s) 0) val) num (map wipe_item children)"

definition wipe_tree :: "cJSON list \<Rightarrow> cJSON list" where
  "wipe_tree items = map wipe_item items"

text \<open>What \<open>cf_json_delete_secret\<close> hands to \<open>cf_cJSON_Delete\<close>.\<close>

definition cf_json_delete_secret :: "cJSON option \<Rightarrow> cJSON option" where
  "cf_json_delete_secret root = map_option wipe_item root"

fun keys_loop :: "cJSON list \<Rightarrow> u8 list list \<Rightarrow> bool" where
  "keys_loop [] allowed = True"
| "keys_loop (a # rest) allowed = (case cj_string a of
     None \<Rightarrow> False
   | Some s \<Rightarrow> if \<not> list_ex (\<lambda>k. s = k) allowed then False
       else if list_ex (\<lambda>b. cj_string b \<noteq> None \<and> cj_string b = Some s) rest then False
       else keys_loop rest allowed)"

definition cf_json_keys :: "cJSON option \<Rightarrow> u8 list list \<Rightarrow> bool" where
  "cf_json_keys obj allowed = (if \<not> cf_cJSON_Is CJ_Object obj then False
     else (case obj of None \<Rightarrow> False | Some x \<Rightarrow> keys_loop (cj_child x) allowed))"

section \<open>Numbers of the JSON grammar\<close>

definition digits :: "u8 list \<Rightarrow> bool" where
  "digits xs \<longleftrightarrow> xs \<noteq> [] \<and> list_all number_digit xs"

definition json_int :: "u8 list \<Rightarrow> bool" where
  "json_int xs \<longleftrightarrow> xs = [ch CHR ''0''] \<or> (digits xs \<and> hd xs \<noteq> ch CHR ''0'')"

definition json_frac :: "u8 list \<Rightarrow> bool" where
  "json_frac xs \<longleftrightarrow> xs = [] \<or> (\<exists>ds. xs = ch CHR ''.'' # ds \<and> digits ds)"

definition json_exp :: "u8 list \<Rightarrow> bool" where
  "json_exp xs \<longleftrightarrow> xs = [] \<or> (\<exists>m sg ds. xs = m # sg @ ds \<and> m \<in> {ch CHR ''e'', ch CHR ''E''}
     \<and> sg \<in> {[], [ch CHR ''+''], [ch CHR ''-'']} \<and> digits ds)"

definition json_number :: "u8 list \<Rightarrow> bool" where
  "json_number xs \<longleftrightarrow> (\<exists>sg i f e. xs = sg @ i @ f @ e \<and> sg \<in> {[], [ch CHR ''-'']} \<and> json_int i \<and> json_frac f \<and> json_exp e)"

text \<open>The bytes from \<open>p\<close> to \<open>q\<close>.\<close>

definition slice :: "u8 list \<Rightarrow> nat \<Rightarrow> nat \<Rightarrow> u8 list" where
  "slice xs p q = take (q - p) (drop p xs)"

lemma slice_append: "p \<le> q \<Longrightarrow> q \<le> r \<Longrightarrow> slice xs p r = slice xs p q @ slice xs q r"
proof -
  assume a: "p \<le> q" "q \<le> r"
  have "take (r - p) (drop p xs) = take ((q - p) + (r - q)) (drop p xs)" using a by simp
  also have "\<dots> = take (q - p) (drop p xs) @ take (r - q) (drop (q - p) (drop p xs))" by (rule take_add)
  finally show ?thesis using a by (simp add: slice_def)
qed

lemma slice_one: "p < length xs \<Longrightarrow> slice xs p (p + 1) = [xs ! p]"
  by (simp add: slice_def Cons_nth_drop_Suc [symmetric])

lemma slice_refl [simp]: "slice xs p p = []"
  by (simp add: slice_def)

lemma slice_digits:
  assumes "p < length xs" "number_digit (xs ! p)"
  shows "digits (slice xs p (skip_digits xs p))" "hd (slice xs p (skip_digits xs p)) = xs ! p"
proof -
  have e: "slice xs p (skip_digits xs p) = takeWhile number_digit (drop p xs)"
    using skip_digits_text [of p xs] assms(1) by (simp add: slice_def)
  have d: "drop p xs = xs ! p # drop (p + 1) xs" using assms(1) by (simp add: Cons_nth_drop_Suc)
  show "digits (slice xs p (skip_digits xs p))" "hd (slice xs p (skip_digits xs p)) = xs ! p"
    unfolding e d using assms(2) by (auto simp: digits_def list_all_iff dest: set_takeWhileD)
qed

lemma number_int_text:
  assumes "number_int xs p = Some (Some q)"
  shows "\<exists>sg i. slice xs p q = sg @ i \<and> sg \<in> {[], [ch CHR ''-'']} \<and> json_int i"
proof -
  have p: "p < length xs" using assms by (auto simp: number_int_def load_def split: if_splits)
  define r where "r = (if xs ! p = ch CHR ''-'' then p + 1 else p)"
  have r: "r < length xs" "number_digit (xs ! r)" "q = (if xs ! r = ch CHR ''0'' then r + 1 else skip_digits xs r)"
    using assms p by (auto simp: number_int_def Let_def load_def r_def split: if_splits)
  have i: "json_int (slice xs r q)"
  proof (cases "xs ! r = ch CHR ''0''")
    case True
    then show ?thesis using r slice_one [OF r(1)] by (simp add: json_int_def)
  next
    case False
    then show ?thesis using r slice_digits [OF r(1,2)] by (simp add: json_int_def)
  qed
  have rq: "r \<le> q" using r skip_digits_bounds [of r xs] by auto
  have sg: "slice xs p r \<in> {[], [ch CHR ''-'']}" using p slice_one [OF p] by (auto simp: r_def)
  have "slice xs p q = slice xs p r @ slice xs r q" by (rule slice_append [OF _ rq]) (simp add: r_def)
  then show ?thesis using sg i by blast
qed

lemma number_frac_text:
  assumes "number_frac xs p = Some (Some q)" "p \<le> length xs"
  shows "json_frac (slice xs p q)"
proof (cases "p < length xs \<and> xs ! p = ch CHR ''.''")
  case True
  then have r: "p + 1 < length xs" "number_digit (xs ! (p + 1))" "q = skip_digits xs (p + 1)"
    using assms by (auto simp: number_frac_def Let_def load_def split: if_splits)
  have "slice xs p q = slice xs p (p + 1) @ slice xs (p + 1) q"
    using r skip_digits_bounds [of "p + 1" xs] by (intro slice_append) simp_all
  then show ?thesis using True r slice_one [of p xs] slice_digits(1) [OF r(1,2)] by (simp add: json_frac_def)
next
  case False
  then have "q = p" using assms(1) by (auto simp: number_frac_def)
  then show ?thesis by (simp add: json_frac_def)
qed

lemma number_exp_text:
  assumes "number_exp xs p = Some (Some q)" "p \<le> length xs"
  shows "json_exp (slice xs p q)"
proof (cases "p < length xs \<and> (xs ! p = ch CHR ''e'' \<or> xs ! p = ch CHR ''E'')")
  case True
  have p1: "p + 1 < length xs" using assms(1) True by (auto simp: number_exp_def Let_def load_def split: if_splits)
  define r where "r = (if xs ! (p + 1) = ch CHR ''+'' \<or> xs ! (p + 1) = ch CHR ''-'' then p + 2 else p + 1)"
  have r: "r < length xs" "number_digit (xs ! r)" "q = skip_digits xs r"
    using assms(1) True p1 by (auto simp: number_exp_def Let_def load_def r_def numeral_2_eq_2 split: if_splits)
  have "slice xs p q = slice xs p (p + 1) @ slice xs (p + 1) q"
    using r skip_digits_bounds [of r xs] by (intro slice_append) (auto simp: r_def split: if_splits)
  also have "slice xs (p + 1) q = slice xs (p + 1) r @ slice xs r q"
    using r skip_digits_bounds [of r xs] by (intro slice_append) (auto simp: r_def)
  finally have s: "slice xs p q = xs ! p # slice xs (p + 1) r @ slice xs r q" using slice_one [of p xs] True by simp
  have "slice xs (p + 1) r \<in> {[], [ch CHR ''+''], [ch CHR ''-'']}"
    using slice_one [OF p1] by (auto simp: r_def numeral_2_eq_2)
  then show ?thesis using s True slice_digits(1) [OF r(1,2)] r(3) unfolding json_exp_def by blast
next
  case False
  then have "q = p" using assms(1) by (auto simp: number_exp_def)
  then show ?thesis by (simp add: json_exp_def)
qed

lemma number_lexeme_text:
  assumes "number_lexeme xs i = Some (Some p)"
  shows "json_number (slice xs i p) \<and> (p < length xs \<longrightarrow> number_stop (xs ! p))"
proof -
  obtain a b where q: "number_int xs i = Some (Some a)" "number_frac xs a = Some (Some b)" "number_exp xs b = Some (Some p)"
      "p < length xs \<longrightarrow> number_stop (xs ! p)"
    using assms by (auto simp: number_lexeme_def and_then_cases split: if_splits)
  have a: "i < a" "a \<le> length xs" using number_int_more [OF q(1)] by simp_all
  have b: "a \<le> b" "b \<le> length xs" using number_frac_more [OF q(2) a(2)] by simp_all
  have c: "b \<le> p" using number_exp_more [OF q(3) b(2)] by simp
  have "slice xs i p = slice xs i a @ slice xs a b @ slice xs b p"
    using slice_append [of i a p xs] slice_append [of a b p xs] a b c by simp
  moreover obtain sg k where k: "slice xs i a = sg @ k" "sg \<in> {[], [ch CHR ''-'']}" "json_int k"
    using number_int_text [OF q(1)] by blast
  ultimately have "slice xs i p = sg @ k @ slice xs a b @ slice xs b p" by simp
  then have "json_number (slice xs i p)"
    using k(2,3) number_frac_text [OF q(2) a(2)] number_exp_text [OF q(3) b(2)] unfolding json_number_def by blast
  then show ?thesis using q(4) by simp
qed

lemma number_digit_printable: "number_digit c \<Longrightarrow> 32 \<le> c"
  unfolding number_digit_def by (rule order_trans [of _ "ch CHR ''0''"]) simp_all

lemma digits_printable: "digits xs \<Longrightarrow> list_all (\<lambda>c. 32 \<le> c) xs"
  by (auto simp: digits_def list_all_iff number_digit_printable)

lemma json_int_printable: "json_int xs \<Longrightarrow> list_all (\<lambda>c. 32 \<le> c) xs"
  by (auto simp: json_int_def digits_printable)

lemma json_frac_printable: "json_frac xs \<Longrightarrow> list_all (\<lambda>c. 32 \<le> c) xs"
  by (auto simp: json_frac_def digits_printable)

lemma json_exp_printable: "json_exp xs \<Longrightarrow> list_all (\<lambda>c. 32 \<le> c) xs"
  by (auto simp: json_exp_def digits_printable)

lemma json_number_printable:
  assumes "json_number xs" shows "list_all (\<lambda>c. 32 \<le> c) xs"
proof -
  obtain sg i f e where x: "xs = sg @ i @ f @ e" "sg \<in> {[], [ch CHR ''-'']}" "json_int i" "json_frac f" "json_exp e"
    using assms unfolding json_number_def by blast
  have "list_all (\<lambda>c. 32 \<le> c) sg" using x(2) by auto
  then show ?thesis
    unfolding x(1) using json_int_printable [OF x(3)] json_frac_printable [OF x(4)] json_exp_printable [OF x(5)] by simp
qed

section \<open>The filter returns\<close>

lemma number_int_total: "p < length xs \<Longrightarrow> number_int xs p \<noteq> None"
  by (auto simp: number_int_def Let_def load_def)

lemma number_frac_total: "number_frac xs p \<noteq> None"
  by (auto simp: number_frac_def Let_def load_def)

lemma number_exp_total: "number_exp xs p \<noteq> None"
  by (auto simp: number_exp_def Let_def load_def)

lemma and_then_total: "x \<noteq> None \<Longrightarrow> (\<And>p. f p \<noteq> None) \<Longrightarrow> and_then x f \<noteq> None"
  by (cases "(x, f)" rule: and_then.cases) auto

lemma number_lexeme_total: "i < length xs \<Longrightarrow> number_lexeme xs i \<noteq> None"
  unfolding number_lexeme_def
  by (intro and_then_total number_int_total number_frac_total number_exp_total) simp_all

lemma lexeme_step_total: "i < length xs \<Longrightarrow> lexeme_step xs i string escaped \<noteq> None"
  using number_lexeme_total [of i xs] by (auto simp: lexeme_step_def load_def split: option.splits Option.bind_splits)

definition json_byte :: "u8 \<Rightarrow> bool" where
  "json_byte c \<longleftrightarrow> 32 \<le> c \<or> c = 9 \<or> c = 13 \<or> c = 10"

section \<open>What the filter accepts\<close>

text \<open>
  The lexical grammar: strings with closed quotes and escapes, numbers of the JSON grammar that
  are followed by a delimiter, and other characters that are not control characters.
\<close>

inductive string_body :: "u8 list \<Rightarrow> bool" where
  body_Nil: "string_body []"
| body_plain: "32 \<le> c \<Longrightarrow> c \<noteq> ch CHR 0x22 \<Longrightarrow> c \<noteq> ch CHR 0x5C \<Longrightarrow> string_body cs \<Longrightarrow> string_body (c # cs)"
| body_escape: "32 \<le> c \<Longrightarrow> string_body cs \<Longrightarrow> string_body (ch CHR 0x5C # c # cs)"

definition number_ends :: "u8 list \<Rightarrow> bool" where
  "number_ends r \<longleftrightarrow> r = [] \<or> number_stop (hd r)"

inductive lexemes :: "u8 list \<Rightarrow> bool" where
  lex_Nil: "lexemes []"
| lex_string: "string_body b \<Longrightarrow> lexemes r \<Longrightarrow> lexemes (ch CHR 0x22 # b @ ch CHR 0x22 # r)"
| lex_number: "json_number n \<Longrightarrow> number_ends r \<Longrightarrow> lexemes r \<Longrightarrow> lexemes (n @ r)"
| lex_other: "json_byte c \<Longrightarrow> c \<noteq> ch CHR 0x22 \<Longrightarrow> c \<noteq> ch CHR ''-'' \<Longrightarrow> \<not> number_digit c \<Longrightarrow> lexemes r \<Longrightarrow> lexemes (c # r)"

inductive_cases string_body_ConsE: "string_body (c # cs)"
inductive_simps string_body_Nil [simp]: "string_body []"

definition string_rest :: "u8 list \<Rightarrow> bool" where
  "string_rest ys \<longleftrightarrow> (\<exists>b r. ys = b @ ch CHR 0x22 # r \<and> string_body b \<and> lexemes r)"

lemma string_restI: "string_body b \<Longrightarrow> lexemes r \<Longrightarrow> string_rest (b @ ch CHR 0x22 # r)"
  unfolding string_rest_def by blast

lemma json_number_head:
  assumes "json_number n" shows "n \<noteq> []" "hd n = ch CHR ''-'' \<or> number_digit (hd n)"
proof -
  obtain sg i f e where x: "n = sg @ i @ f @ e" "sg \<in> {[], [ch CHR ''-'']}" "json_int i"
    using assms unfolding json_number_def by blast
  have i: "i \<noteq> []" "number_digit (hd i)"
    using x(3) by (auto simp: json_int_def digits_def list_all_iff number_digit_def)
  show "n \<noteq> []" using x(1) i(1) by simp
  show "hd n = ch CHR ''-'' \<or> number_digit (hd n)" using x(1,2) i by auto
qed

lemma string_rest_plain:
  "32 \<le> c \<Longrightarrow> c \<noteq> ch CHR 0x22 \<Longrightarrow> c \<noteq> ch CHR 0x5C \<Longrightarrow> string_rest (c # cs) \<longleftrightarrow> string_rest cs"
  unfolding string_rest_def
  by (auto 4 4 simp: Cons_eq_append_conv elim: string_body_ConsE intro: body_plain)

lemma string_rest_escape:
  "string_rest (ch CHR 0x5C # cs) \<longleftrightarrow> (\<exists>c ds. cs = c # ds \<and> 32 \<le> c \<and> string_rest ds)"
proof
  assume "string_rest (ch CHR 0x5C # cs)"
  then obtain b r where b: "ch CHR 0x5C # cs = b @ ch CHR 0x22 # r" "string_body b" "lexemes r"
    unfolding string_rest_def by blast
  obtain b' where b': "b = ch CHR 0x5C # b'" using b(1) by (cases b) simp_all
  obtain c ds where "b' = c # ds" "32 \<le> c" "string_body ds" using b(2) unfolding b' by (auto elim: string_body_ConsE)
  then show "\<exists>c ds. cs = c # ds \<and> 32 \<le> c \<and> string_rest ds" using b b' unfolding string_rest_def by auto
next
  assume "\<exists>c ds. cs = c # ds \<and> 32 \<le> c \<and> string_rest ds"
  then obtain c b r where "cs = c # b @ ch CHR 0x22 # r" "32 \<le> c" "string_body b" "lexemes r"
    unfolding string_rest_def by blast
  then show "string_rest (ch CHR 0x5C # cs)"
    using string_restI [of "ch CHR 0x5C # c # b" r] body_escape [of c b] by simp
qed

lemma string_rest_quote: "string_rest (ch CHR 0x22 # cs) \<longleftrightarrow> lexemes cs"
proof
  assume "string_rest (ch CHR 0x22 # cs)"
  then obtain b r where b: "ch CHR 0x22 # cs = b @ ch CHR 0x22 # r" "string_body b" "lexemes r"
    unfolding string_rest_def by blast
  have "b = []" using b(1,2) by (cases b) (auto elim: string_body_ConsE)
  then show "lexemes cs" using b by simp
next
  assume "lexemes cs"
  then show "string_rest (ch CHR 0x22 # cs)" using string_restI [of "[]" cs] by simp
qed

lemma string_rest_control: "c < 32 \<Longrightarrow> \<not> string_rest (c # cs)"
proof
  assume c: "c < 32" and "string_rest (c # cs)"
  then obtain b r where b: "c # cs = b @ ch CHR 0x22 # r" "string_body b" unfolding string_rest_def by blast
  show False
  proof (cases b)
    case Nil
    then show False using b(1) c by simp
  next
    case (Cons d b')
    then have "string_body (c # b')" using b by simp
    then show False using c by (auto elim: string_body_ConsE)
  qed
qed

lemma string_rest_Nil [simp]: "\<not> string_rest []"
  by (simp add: string_rest_def)

lemma lexemes_quote: "lexemes (ch CHR 0x22 # cs) \<longleftrightarrow> string_rest cs"
proof
  assume "lexemes (ch CHR 0x22 # cs)"
  then show "string_rest cs"
  proof (cases rule: lexemes.cases)
    case (lex_number n r)
    then show ?thesis using json_number_head [OF lex_number(2)] by (cases n) (auto simp: number_digit_def)
  qed (auto simp: string_rest_def)
qed (auto simp: string_rest_def intro: lex_string [simplified])

lemma lexemes_number:
  assumes "c = ch CHR ''-'' \<or> number_digit c"
  shows "lexemes (c # cs) \<longleftrightarrow> (\<exists>n r. c # cs = n @ r \<and> json_number n \<and> number_ends r \<and> lexemes r)"
proof
  assume "lexemes (c # cs)"
  then show "\<exists>n r. c # cs = n @ r \<and> json_number n \<and> number_ends r \<and> lexemes r"
    by (cases rule: lexemes.cases) (use assms in \<open>auto simp: number_digit_def\<close>)
next
  assume "\<exists>n r. c # cs = n @ r \<and> json_number n \<and> number_ends r \<and> lexemes r"
  then show "lexemes (c # cs)" by (metis lex_number)
qed

lemma lexemes_other:
  assumes "c \<noteq> ch CHR 0x22" "c \<noteq> ch CHR ''-''" "\<not> number_digit c"
  shows "lexemes (c # cs) \<longleftrightarrow> json_byte c \<and> lexemes cs"
proof
  assume "lexemes (c # cs)"
  then show "json_byte c \<and> lexemes cs"
  proof (cases rule: lexemes.cases)
    case (lex_number n r)
    then show ?thesis using json_number_head [OF lex_number(2)] assms by (cases n) auto
  qed (use assms in auto)
qed (use assms in \<open>auto intro: lex_other\<close>)

section \<open>Numbers are taken as a whole\<close>

lemma drop_ConsD: "drop p xs = c # r \<Longrightarrow> p < length xs \<and> xs ! p = c \<and> drop (p + 1) xs = r"
  by (cases "p < length xs") (auto simp: Cons_nth_drop_Suc [symmetric])

definition no_digit :: "u8 list \<Rightarrow> bool" where
  "no_digit r \<longleftrightarrow> r = [] \<or> \<not> number_digit (hd r)"

lemma skip_digits_exact:
  assumes "drop p xs = ds @ r" "digits ds" "no_digit r"
  shows "skip_digits xs p = p + length ds" "p < length xs" "number_digit (xs ! p)" "xs ! p = hd ds"
proof -
  obtain d ds' where d: "ds = d # ds'" using assms(2) by (cases ds) (auto simp: digits_def)
  have t: "takeWhile number_digit (ds @ r) = ds"
    using assms(2,3) by (cases r) (auto simp: digits_def list_all_iff no_digit_def takeWhile_append2)
  show "skip_digits xs p = p + length ds" by (simp add: skip_digits_def assms(1) t)
  show "p < length xs" "number_digit (xs ! p)" "xs ! p = hd ds"
    using drop_ConsD [of p xs d "ds' @ r"] assms(1,2) d by (auto simp: digits_def)
qed

lemma drop_add: "drop p xs = a @ r \<Longrightarrow> drop (p + length a) xs = r"
  by (metis add.commute append_eq_conv_conj drop_drop)

lemma number_int_exact:
  assumes "drop p xs = sg @ k @ r" "sg \<in> {[], [ch CHR ''-'']}" "json_int k" "no_digit r"
  shows "number_int xs p = Some (Some (p + length sg + length k))"
proof -
  define q where "q = p + length sg"
  have q: "drop q xs = k @ r" using drop_add [OF assms(1)] by (simp add: q_def)
  have k0: "k \<noteq> []" "number_digit (hd k)"
    using assms(3) by (auto simp: json_int_def digits_def list_all_iff number_digit_def)
  obtain c k' where k: "k = c # k'" using k0 by (cases k) simp_all
  have c: "q < length xs" "xs ! q = c" "number_digit c"
    using drop_ConsD [of q xs c "k' @ r"] q k k0 by auto
  have sg: "p < length xs \<and> (if sg = [] then xs ! p = c else xs ! p = ch CHR ''-'')"
    using assms(1,2) drop_ConsD [of p xs] k by auto
  have cm: "c \<noteq> ch CHR ''-''" using c(3) by (auto simp: number_digit_def)
  have fin: "(if c = ch CHR ''0'' then q + 1 else skip_digits xs q) = q + length k"
  proof (cases "k = [ch CHR ''0'']")
    case False
    then have "digits k" "c \<noteq> ch CHR ''0''" using assms(3) k by (auto simp: json_int_def)
    then show ?thesis using skip_digits_exact(1) [OF q _ assms(4)] by simp
  qed (use k in auto)
  have "number_int xs p = Some (Some (if c = ch CHR ''0'' then q + 1 else skip_digits xs q))"
    using sg c cm assms(2) by (auto simp: number_int_def load_def Let_def q_def)
  then show ?thesis unfolding fin by (simp add: q_def)
qed

lemma number_frac_exact:
  assumes "drop p xs = f @ r" "json_frac f" "no_digit r" "r = [] \<or> hd r \<noteq> ch CHR ''.''"
  shows "number_frac xs p = Some (Some (p + length f))"
proof (cases "f = []")
  case True
  then show ?thesis using assms(1,4) by (auto simp: number_frac_def hd_drop_conv_nth)
next
  case False
  then obtain ds where f: "f = ch CHR ''.'' # ds" "digits ds" using assms(2) by (auto simp: json_frac_def)
  have p: "p < length xs" "xs ! p = ch CHR ''.''" "drop (p + 1) xs = ds @ r"
    using drop_ConsD [of p xs] assms(1) f by auto
  show ?thesis using p skip_digits_exact [OF p(3) f(2) assms(3)] f(1)
    by (simp add: number_frac_def load_def)
qed

lemma number_exp_exact:
  assumes "drop p xs = e @ r" "json_exp e" "number_ends r"
  shows "number_exp xs p = Some (Some (p + length e))"
proof (cases "e = []")
  case True
  then show ?thesis using assms(1,3)
    by (auto simp: number_exp_def hd_drop_conv_nth number_ends_def number_stop_def json_space_def)
next
  case False
  then obtain m sg ds where e: "e = m # sg @ ds" "m \<in> {ch CHR ''e'', ch CHR ''E''}" "digits ds"
      "sg \<in> {[], [ch CHR ''+''], [ch CHR ''-'']}"
    using assms(2) by (auto simp: json_exp_def)
  have nd: "no_digit r" using assms(3) by (auto simp: number_ends_def no_digit_def number_stop_def json_space_def number_digit_def)
  have p: "p < length xs" "xs ! p = m" "drop (p + 1) xs = sg @ ds @ r"
    using drop_ConsD [of p xs] assms(1) e by auto
  define q where "q = p + 1 + length sg"
  have q: "drop q xs = ds @ r" using drop_add [OF p(3)] by (simp add: q_def)
  note d = skip_digits_exact [OF q e(3) nd]
  have s: "p + 1 < length xs \<and> (if sg = [] then xs ! (p + 1) = xs ! q else xs ! (p + 1) = hd sg)"
    using e(4) d(2) drop_ConsD [of "p + 1" xs] p(3) by (auto simp: q_def)
  have qs: "xs ! q \<noteq> ch CHR ''+''" "xs ! q \<noteq> ch CHR ''-''" using d(3) by (auto simp: number_digit_def)
  have "number_exp xs p = Some (Some (skip_digits xs q))"
    using p e(2,4) d(2,3) s qs by (auto simp: number_exp_def load_def Let_def q_def)
  then show ?thesis unfolding d(1) by (simp add: q_def e)
qed

lemma number_lexeme_exact:
  assumes "drop i xs = n @ r" "json_number n" "number_ends r"
  shows "number_lexeme xs i = Some (Some (i + length n))"
proof -
  obtain sg k f e where x: "n = sg @ k @ f @ e" "sg \<in> {[], [ch CHR ''-'']}" "json_int k" "json_frac f" "json_exp e"
    using assms(2) unfolding json_number_def by blast
  have nr: "no_digit r" "r = [] \<or> hd r \<noteq> ch CHR ''.''"
    using assms(3) by (auto simp: number_ends_def no_digit_def number_stop_def json_space_def number_digit_def)
  have ne: "no_digit (e @ r)" "e @ r = [] \<or> hd (e @ r) \<noteq> ch CHR ''.''"
    using x(5) nr by (auto simp: json_exp_def no_digit_def number_digit_def)
  have nf: "no_digit (f @ e @ r)" using x(4) ne by (auto simp: json_frac_def no_digit_def number_digit_def)
  define a where "a = i + length sg + length k"
  define b where "b = a + length f"
  have d1: "drop i xs = sg @ k @ f @ e @ r" using assms(1) x(1) by simp
  have d2: "drop a xs = f @ e @ r" using drop_add [of i xs "sg @ k"] d1 by (simp add: a_def add.assoc)
  have d3: "drop b xs = e @ r" using drop_add [OF d2] by (simp add: b_def)
  have d4: "drop (b + length e) xs = r" using drop_add [OF d3] by simp
  have stop: "b + length e < length xs \<Longrightarrow> number_stop (xs ! (b + length e))"
    using d4 assms(3) by (auto simp: number_ends_def hd_drop_conv_nth)
  have "number_lexeme xs i = Some (Some (b + length e))"
    using number_int_exact [OF d1 x(2,3) nf] number_frac_exact [OF d2 x(4) ne] number_exp_exact [OF d3 x(5) assms(3)] stop
    by (simp add: number_lexeme_def a_def [symmetric] b_def [symmetric])
  then show ?thesis by (simp add: x(1) a_def b_def add.assoc)
qed

section \<open>The filter accepts exactly the lexical grammar\<close>

lemma number_lexeme_lexemes:
  assumes "i < length xs" "xs ! i = ch CHR ''-'' \<or> number_digit (xs ! i)"
  shows "(\<exists>p. number_lexeme xs i = Some (Some p) \<and> lexemes (drop p xs)) \<longleftrightarrow> lexemes (drop i xs)"
proof
  assume "\<exists>p. number_lexeme xs i = Some (Some p) \<and> lexemes (drop p xs)"
  then obtain p where p: "number_lexeme xs i = Some (Some p)" "lexemes (drop p xs)" by blast
  have ip: "i < p" "p \<le> length xs" using number_lexeme_more [OF p(1)] by simp_all
  have "drop i xs = slice xs i p @ drop p xs"
    using append_take_drop_id [of "p - i" "drop i xs"] ip by (simp add: slice_def)
  moreover have "number_ends (drop p xs)"
    using number_lexeme_text [OF p(1)] by (cases "p < length xs") (auto simp: number_ends_def hd_drop_conv_nth)
  ultimately show "lexemes (drop i xs)" using lex_number number_lexeme_text [OF p(1)] p(2) by metis
next
  assume a: "lexemes (drop i xs)"
  have "drop i xs = xs ! i # drop (i + 1) xs" using assms(1) by (simp add: Cons_nth_drop_Suc)
  then obtain n r where n: "drop i xs = n @ r" "json_number n" "number_ends r" "lexemes r"
    using lexemes_number [OF assms(2), of "drop (i + 1) xs"] a by auto
  then show "\<exists>p. number_lexeme xs i = Some (Some p) \<and> lexemes (drop p xs)"
    using number_lexeme_exact [OF n(1-3)] drop_add [OF n(1)] by auto
qed

definition lexemes_from :: "bool \<Rightarrow> bool \<Rightarrow> u8 list \<Rightarrow> bool" where
  "lexemes_from string escaped ys =
     (if \<not> string then lexemes ys
      else if escaped then (\<exists>c ds. ys = c # ds \<and> 32 \<le> c \<and> string_rest ds)
      else string_rest ys)"

text \<open>The step's verdict, continued by the grammar.\<close>

definition step_accepts :: "u8 list \<Rightarrow> (unit + (nat \<times> bool \<times> bool)) option \<Rightarrow> bool" where
  "step_accepts xs r = (case r of Some (Inr (j, s, e)) \<Rightarrow> (e \<longrightarrow> s) \<and> lexemes_from s e (drop j xs) | _ \<Rightarrow> False)"

lemma step_accepts_simps [simp]:
  "step_accepts xs (Some (Inl u)) = False"
  "step_accepts xs (Some (Inr (j, s, e))) = ((e \<longrightarrow> s) \<and> lexemes_from s e (drop j xs))"
  by (simp_all add: step_accepts_def)

lemma lexeme_step_string:
  assumes "i < length xs"
  shows "step_accepts xs (lexeme_step xs i True escaped) \<longleftrightarrow> lexemes_from True escaped (drop i xs)"
proof -
  have d: "drop i xs = xs ! i # drop (i + 1) xs" using assms(1) by (simp add: Cons_nth_drop_Suc)
  note st = lexeme_step_def load_Some [OF assms(1)] lexemes_from_def
  show ?thesis
  proof (cases escaped)
    case True
    then show ?thesis unfolding d by (simp add: st not_less)
  next
    case False
    consider "xs ! i < 32" | "32 \<le> xs ! i" "xs ! i = ch CHR 0x5C" | "32 \<le> xs ! i" "xs ! i = ch CHR 0x22"
      | "32 \<le> xs ! i" "xs ! i \<noteq> ch CHR 0x22" "xs ! i \<noteq> ch CHR 0x5C" by force
    then show ?thesis unfolding d
      by cases (use False in \<open>simp_all add: st not_less string_rest_control string_rest_escape [simplified]
        string_rest_quote [simplified] string_rest_plain\<close>)
  qed
qed

lemma lexeme_step_plain:
  assumes "i < length xs"
  shows "step_accepts xs (lexeme_step xs i False False) \<longleftrightarrow> lexemes (drop i xs)"
proof -
  have d: "drop i xs = xs ! i # drop (i + 1) xs" using assms(1) by (simp add: Cons_nth_drop_Suc)
  note st = lexeme_step_def load_Some [OF assms(1)] lexemes_from_def
  consider "xs ! i = ch CHR 0x22" | "xs ! i = ch CHR ''-'' \<or> number_digit (xs ! i)"
    | "xs ! i \<noteq> ch CHR 0x22" "xs ! i \<noteq> ch CHR ''-''" "\<not> number_digit (xs ! i)" by blast
  then show ?thesis
  proof cases
    case 1
    then show ?thesis unfolding d by (simp add: st lexemes_quote [simplified])
  next
    case 2
    have c: "32 \<le> xs ! i" "xs ! i \<noteq> ch CHR 0x22" using 2 by (auto simp: number_digit_printable number_digit_def)
    have "step_accepts xs (lexeme_step xs i False False) \<longleftrightarrow> (\<exists>p. number_lexeme xs i = Some (Some p) \<and> lexemes (drop p xs))"
      using c 2 number_lexeme_total [OF assms] by (auto simp: st not_less split: option.splits)
    then show ?thesis using number_lexeme_lexemes [OF assms 2] by simp
  next
    case 3
    then show ?thesis unfolding d by (auto simp: st lexemes_other json_byte_def not_less)
  qed
qed

lemma lexemes_loop_exact:
  "i \<le> length xs \<Longrightarrow> escaped \<longrightarrow> string \<Longrightarrow> lexemes_loop xs i string escaped = Some (lexemes_from string escaped (drop i xs))"
proof (induction xs i string escaped rule: lexemes_loop.induct)
  case (1 xs i string escaped)
  show ?case
  proof (cases "i < length xs")
    case True
    have st: "step_accepts xs (lexeme_step xs i string escaped) \<longleftrightarrow> lexemes_from string escaped (drop i xs)"
      using lexeme_step_string [OF True] lexeme_step_plain [OF True] 1(3) by (cases string) (auto simp: lexemes_from_def)
    obtain r where r: "lexeme_step xs i string escaped = Some r" using lexeme_step_total [OF True] by blast
    show ?thesis
    proof (cases r)
      case (Inl u)
      then show ?thesis using r st True by (subst lexemes_loop.simps) simp
    next
      case (Inr t)
      obtain j s e where t: "t = (j, s, e)" by (cases t)
      have j: "j \<le> length xs" using lexeme_step_more r Inr t by blast
      have "e \<longrightarrow> s" using r Inr t 1(3) by (auto simp: lexeme_step_def load_Some [OF True] split: if_splits Option.bind_splits option.splits)
      then show ?thesis using 1(1) [OF True r Inr t [symmetric]] r st True j Inr t by (subst lexemes_loop.simps) simp
    qed
  next
    case False
    then have "i = length xs" using 1(2) by simp
    then show ?thesis using lex_Nil by (subst lexemes_loop.simps) (auto simp: lexemes_from_def)
  qed
qed

text \<open>
  C24. The filter in front of the JSON parser returns on every input, reads only inside it, and accepts
  exactly the sequences of closed strings without control characters, numbers of the JSON grammar
  followed by a delimiter, and other characters that are not control characters.
\<close>

theorem json_lexemes_exact: "valid_lexemes xs = Some (lexemes xs)"
  using lexemes_loop_exact [of 0 xs False False] by (simp add: valid_lexemes_def lexemes_from_def)

section \<open>Parsing and property names\<close>

lemma valid_lexemes_total: "yields (valid_lexemes xs) (\<lambda>ok. ok = lexemes xs)"
  using lexemes_loop_exact [of 0 xs False False] by (simp add: valid_lexemes_def lexemes_from_def yields_def)

text \<open>The texts that are handed out as a tree: short texts of the grammar without NULs that the parser consumes up to white space.\<close>

definition json_accepts :: "cjson_parser \<Rightarrow> u8 list \<Rightarrow> cJSON \<Rightarrow> bool" where
  "json_accepts parser xs t \<longleftrightarrow> lexemes xs \<and> nul_free xs \<and> 0 < length xs \<and> length xs \<le> 8192
     \<and> (\<exists>fin failed. parser xs = (Some (t, fin), failed) \<and> skip_space xs fin = length xs)"

lemma cf_json_parse_yields:
  "yields (cf_json_parse parser input h) (\<lambda>(root, h'). json_live_bytes h' = json_live_bytes h \<and>
     (case root of None \<Rightarrow> \<forall>t. \<not> json_accepts parser (bytes_list input) t | Some t \<Rightarrow> json_accepts parser (bytes_list input) t))"
  unfolding cf_json_parse_def Let_def
proof (rule yields_if)
  assume "bytes_null input \<or> bytes_len input = 0 \<or> 8192 < bytes_len input"
  then have "\<not> json_accepts parser (bytes_list input) t" for t by (cases input) (auto simp: json_accepts_def)
  then show "yields (Some (None, h\<lparr>json_allocation_failed := False\<rparr>)) (\<lambda>(root, h'). json_live_bytes h' = json_live_bytes h \<and>
     (case root of None \<Rightarrow> \<forall>t. \<not> json_accepts parser (bytes_list input) t | Some t \<Rightarrow> json_accepts parser (bytes_list input) t))"
    by (simp add: yields_def)
next
  assume "\<not> (bytes_null input \<or> bytes_len input = 0 \<or> 8192 < bytes_len input)"
  then obtain xs where xs: "input = Bytes xs" "xs \<noteq> []" "length xs \<le> 8192" by (cases input) auto
  show "yields (valid_lexemes (bytes_list input) \<bind> (\<lambda>ok. if \<not> ok \<or> \<not> nul_free (bytes_list input)
       then Some (None, h\<lparr>json_allocation_failed := False\<rparr>)
       else case parser (bytes_list input) of (r, failed) \<Rightarrow> (case r of
           None \<Rightarrow> Some (None, h\<lparr>json_allocation_failed := False, json_allocation_failed := failed\<rparr>)
         | Some (root, fin) \<Rightarrow> if skip_space (bytes_list input) fin \<noteq> length (bytes_list input)
             then Some (None, h\<lparr>json_allocation_failed := False, json_allocation_failed := failed\<rparr>)
             else Some (Some root, h\<lparr>json_allocation_failed := False, json_allocation_failed := failed\<rparr>))))
     (\<lambda>(root, h'). json_live_bytes h' = json_live_bytes h \<and>
       (case root of None \<Rightarrow> \<forall>t. \<not> json_accepts parser (bytes_list input) t | Some t \<Rightarrow> json_accepts parser (bytes_list input) t))"
    by (rule yields_bind [OF valid_lexemes_total])
       (use xs in \<open>auto simp: yields_def json_accepts_def split: prod.splits option.splits\<close>)
qed

lemma json_accepts_unique: "json_accepts parser xs t \<Longrightarrow> json_accepts parser xs u \<Longrightarrow> u = t"
  by (auto simp: json_accepts_def)

text \<open>
  What cJSON documents of its trees and the callers rely on: an item of type string has a
  \<open>valuestring\<close>.
\<close>

fun strings_valued :: "cJSON \<Rightarrow> bool" where
  "strings_valued (CJ ty name val num children) \<longleftrightarrow> (ty = CJ_String \<longrightarrow> val \<noteq> None) \<and> list_all strings_valued children"

definition parser_strings :: "cjson_parser \<Rightarrow> bool" where
  "parser_strings parser \<longleftrightarrow> (\<forall>xs t fin failed. parser xs = (Some (t, fin), failed) \<longrightarrow> strings_valued t)"

lemma json_accepts_strings: "parser_strings parser \<Longrightarrow> json_accepts parser xs t \<Longrightarrow> strings_valued t"
  by (auto simp: json_accepts_def parser_strings_def)

lemma strings_valued_value: "strings_valued x \<Longrightarrow> cj_type x = CJ_String \<Longrightarrow> \<exists>s. cj_valuestring x = Some s"
  by (cases x) auto

lemma strings_valued_child: "strings_valued x \<Longrightarrow> y \<in> set (cj_child x) \<Longrightarrow> strings_valued y"
  by (cases x) (auto simp: list_all_iff)

definition item_names :: "cJSON list \<Rightarrow> u8 list option list" where
  "item_names xs = map cj_string xs"

lemma keys_loop_exact: "keys_loop xs allowed \<longleftrightarrow> (\<exists>ns. item_names xs = map Some ns \<and> distinct ns \<and> set ns \<subseteq> set allowed)"
proof (induction xs)
  case (Cons a xs)
  have "list_ex (\<lambda>b. cj_string b \<noteq> None \<and> cj_string b = Some s) xs \<longleftrightarrow> Some s \<in> set (item_names xs)" for s
    by (simp add: item_names_def list_ex_iff image_iff) metis
  then have u: "keys_loop (a # xs) allowed \<longleftrightarrow> (\<exists>s. cj_string a = Some s \<and> s \<in> set allowed \<and> Some s \<notin> set (item_names xs) \<and> keys_loop xs allowed)"
    by (auto simp: list_ex_iff split: option.splits)
  have "keys_loop (a # xs) allowed \<longleftrightarrow> (\<exists>s ns. cj_string a = Some s \<and> item_names xs = map Some ns \<and> s \<in> set allowed \<and> s \<notin> set ns \<and> distinct ns \<and> set ns \<subseteq> set allowed)"
    unfolding u Cons by auto
  also have "\<dots> \<longleftrightarrow> (\<exists>ns. item_names (a # xs) = map Some ns \<and> distinct ns \<and> set ns \<subseteq> set allowed)"
    by (auto simp: item_names_def Cons_eq_map_conv)
  finally show ?case .
qed (simp add: item_names_def)

lemma cf_json_keys_exact:
  "cf_json_keys (Some x) allowed \<longleftrightarrow>
     cj_type x = CJ_Object \<and> (\<exists>ns. item_names (cj_child x) = map Some ns \<and> distinct ns \<and> set ns \<subseteq> set allowed)"
  by (simp add: cf_json_keys_def cf_cJSON_Is_def keys_loop_exact)

lemma object_item_in: "object_item_loop name xs = Some x \<Longrightarrow> x \<in> set xs \<and> cj_string x = Some name"
  by (induction xs) (auto split: option.splits if_splits)

lemma get_item_strings:
  "strings_valued x \<Longrightarrow> cf_cJSON_GetObjectItemCaseSensitive (Some x) k = Some y \<Longrightarrow> strings_valued y"
  by (auto simp: cf_cJSON_GetObjectItemCaseSensitive_def dest: object_item_in strings_valued_child)

lemma get_string_value:
  assumes "strings_valued x" "cf_cJSON_Is CJ_String (cf_cJSON_GetObjectItemCaseSensitive (Some x) k)"
  obtains y s where "cf_cJSON_GetObjectItemCaseSensitive (Some x) k = Some y" "cj_type y = CJ_String" "cj_valuestring y = Some s"
  using assms get_item_strings strings_valued_value by (auto simp: cf_cJSON_Is_def split: option.splits) blast

text \<open>The text of a string property.\<close>

definition item_text :: "cJSON \<Rightarrow> u8 list \<Rightarrow> u8 list option" where
  "item_text root k = (case cf_cJSON_GetObjectItemCaseSensitive (Some root) k of
     None \<Rightarrow> None | Some x \<Rightarrow> if cj_type x = CJ_String then cj_valuestring x else None)"

text \<open>After the erasure no string value of the tree has a nonzero byte.\<close>

fun wiped :: "cJSON \<Rightarrow> bool" where
  "wiped (CJ ty name val num children) \<longleftrightarrow> (case val of None \<Rightarrow> True | Some s \<Rightarrow> list_all (\<lambda>c. c = 0) s) \<and> list_all wiped children"

lemma wipe_item_wiped: "wiped (wipe_item x)"
  by (induction x) (auto simp: list_all_iff split: option.splits)

section \<open>The heap limit\<close>

datatype json_call = Json_Alloc nat bool | Json_Free nat

text \<open>The heap with the blocks that are allocated, each with the charge in its header.\<close>

type_synonym json_run = "json_heap \<times> (nat \<times> mem) list"

definition json_step :: "nat \<Rightarrow> json_call \<Rightarrow> json_run \<Rightarrow> json_run" where
  "json_step header c st = (case st of (h, blocks) \<Rightarrow> (case c of
     Json_Alloc n available \<Rightarrow> (case json_alloc header available n h of
        (None, h') \<Rightarrow> (h', blocks)
      | (Some charge, h') \<Rightarrow> (h', (charge, replicate charge 0) # blocks))
   | Json_Free i \<Rightarrow> if i < length blocks then
        (case json_free (Some (blocks ! i)) h of
           None \<Rightarrow> (h, blocks)
         | Some (_, h') \<Rightarrow> (h', take i blocks @ drop (i + 1) blocks))
      else st))"

definition json_inv :: "json_run \<Rightarrow> bool" where
  "json_inv st \<longleftrightarrow> json_live_bytes (fst st) = sum_list (map fst (snd st)) \<and> json_live_bytes (fst st) \<le> JSON_HEAP_LIMIT
     \<and> (\<forall>(charge, block) \<in> set (snd st). length block = charge)"

lemma json_alloc_Some:
  assumes "json_alloc header available n h = (Some charge, h')" "header \<le> JSON_HEAP_LIMIT" "json_live_bytes h \<le> JSON_HEAP_LIMIT"
  shows "charge = n + header \<and> json_live_bytes h' = json_live_bytes h + charge \<and> json_live_bytes h' \<le> JSON_HEAP_LIMIT"
proof -
  have l: "n \<le> JSON_HEAP_LIMIT - header" using assms(1,2) by (auto simp: json_alloc_def size_sub_def Let_def split: if_splits)
  then have "size_wrap (n + header) = n + header" using assms(2) by (intro size_wrap_id) (simp add: JSON_HEAP_LIMIT_def SIZE_MAX_def)
  then show ?thesis using assms by (auto simp: json_alloc_def size_sub_def Let_def split: if_splits)
qed

lemma json_alloc_None: "json_alloc header available n h = (None, h') \<Longrightarrow> h' = h\<lparr>json_allocation_failed := True\<rparr>"
  by (auto simp: json_alloc_def Let_def split: if_splits)

lemma json_free_Some:
  assumes "length block = charge"
  shows "json_free (Some (charge, block)) h = Some (Some (replicate charge 0), h\<lparr>json_live_bytes := size_sub (json_live_bytes h) charge\<rparr>)"
  using secure_zero_eq [of "Some (block, 0)" charge] assms by (simp add: json_free_def splice_def)

lemma sum_list_remove: "i < length xs \<Longrightarrow> sum_list (map f xs) = f (xs ! i) + (sum_list (map f (take i xs @ drop (i + 1) xs)) :: nat)"
  by (subst id_take_nth_drop [of i xs]) simp_all

lemma json_inv_free:
  assumes "json_inv (h, blocks)" "i < length blocks"
  shows "json_inv (json_step header (Json_Free i) (h, blocks))"
proof -
  obtain charge block where b: "blocks ! i = (charge, block)" by (cases "blocks ! i")
  then have m: "(charge, block) \<in> set blocks" using assms(2) nth_mem [of i blocks] by simp
  have l: "length block = charge" using assms(1) m by (auto simp: json_inv_def)
  let ?rest = "take i blocks @ drop (i + 1) blocks"
  have s: "json_live_bytes h = charge + sum_list (map fst ?rest)"
    using assms sum_list_remove [of i blocks fst] b by (simp add: json_inv_def)
  have "set ?rest \<subseteq> set blocks" by (auto dest: in_set_takeD in_set_dropD)
  then show ?thesis using assms(1,2) s b json_free_Some [OF l]
    by (auto simp: json_step_def json_inv_def size_sub_def)
qed

lemma json_inv_step: "header \<le> JSON_HEAP_LIMIT \<Longrightarrow> json_inv st \<Longrightarrow> json_inv (json_step header c st)"
proof (cases st)
  case (Pair h blocks)
  assume a: "header \<le> JSON_HEAP_LIMIT" "json_inv st"
  show ?thesis
  proof (cases c)
    case (Json_Alloc n available)
    obtain r h' where r: "json_alloc header available n h = (r, h')" by (cases "json_alloc header available n h")
    show ?thesis
      using a r Pair Json_Alloc json_alloc_Some [of header available n h _ h'] json_alloc_None [of header available n h h']
      by (cases r) (auto simp: json_step_def json_inv_def)
  next
    case (Json_Free i)
    then show ?thesis using json_inv_free [of h blocks i header] a Pair by (cases "i < length blocks") (auto simp: json_step_def)
  qed
qed

lemma json_inv_run: "header \<le> JSON_HEAP_LIMIT \<Longrightarrow> json_inv st \<Longrightarrow> json_inv (fold (json_step header) calls st)"
  by (induction calls arbitrary: st) (simp_all add: json_inv_step del: split_paired_All)

text \<open>
  The parser's heap use is bounded: after any sequence of allocations and frees through the hooks,
  starting with no block, the counter is exactly the sum of the charges of the blocks that are
  still allocated, headers included, and never above the limit; a free erases the whole block.
\<close>

theorem json_heap_bounded:
  assumes "sizeof_header \<le> JSON_HEAP_LIMIT" "json_live_bytes h = 0"
    and "fold (json_step sizeof_header) calls (h, []) = (h', blocks)"
  shows "json_live_bytes h' = sum_list (map fst blocks) \<and> json_live_bytes h' \<le> JSON_HEAP_LIMIT
    \<and> (\<forall>i < length blocks. \<exists>h''. json_free (Some (blocks ! i)) h' = Some (Some (replicate (fst (blocks ! i)) 0), h'')
          \<and> json_live_bytes h'' = json_live_bytes h' - fst (blocks ! i))"
proof -
  have inv: "json_inv (h', blocks)"
    using json_inv_run [of sizeof_header "(h, [])" calls] assms by (simp add: json_inv_def)
  then have l: "json_live_bytes h' = sum_list (map fst blocks)" by (simp add: json_inv_def)
  have "\<exists>h''. json_free (Some (blocks ! i)) h' = Some (Some (replicate (fst (blocks ! i)) 0), h'')
      \<and> json_live_bytes h'' = json_live_bytes h' - fst (blocks ! i)" if i: "i < length blocks" for i
  proof -
    have "length (snd (blocks ! i)) = fst (blocks ! i)"
      using inv nth_mem [OF i] by (cases "blocks ! i") (force simp: json_inv_def)
    moreover have "fst (blocks ! i) \<le> json_live_bytes h'" using sum_list_remove [OF i, of fst] l by simp
    ultimately show ?thesis
      using json_free_Some [of "snd (blocks ! i)" "fst (blocks ! i)" h'] by (auto simp: size_sub_def)
  qed
  then show ?thesis using inv l by (simp add: json_inv_def)
qed

theorem json_heap_bounded_witness:
  "fold (json_step 16) [Json_Alloc 4 True, Json_Alloc 40000 True, Json_Alloc 8 False, Json_Alloc 2 True, Json_Free 1]
     (\<lparr>json_live_bytes = 0, json_allocation_failed = False\<rparr>, [])
   = (\<lparr>json_live_bytes = 18, json_allocation_failed = True\<rparr>, [(18, replicate 18 0)])
   \<and> (18::nat) \<le> JSON_HEAP_LIMIT"
proof -
  have z: "json_free (Some (20, replicate 20 0)) h = Some (Some (replicate 20 0), h\<lparr>json_live_bytes := size_sub (json_live_bytes h) 20\<rparr>)" for h
    by (rule json_free_Some) simp
  have f: "fold (json_step 16) [Json_Alloc 4 True, Json_Alloc 40000 True, Json_Alloc 8 False, Json_Alloc 2 True, Json_Free 1]
     (\<lparr>json_live_bytes = 0, json_allocation_failed = False\<rparr>, [])
   = (\<lparr>json_live_bytes = 18, json_allocation_failed = True\<rparr>, [(18, replicate 18 0)])"
    by (simp add: json_step_def json_alloc_def size_sub_def JSON_HEAP_LIMIT_def size_wrap_def Let_def z)
  show ?thesis using f json_heap_bounded [OF _ _ f] by (simp add: JSON_HEAP_LIMIT_def)
qed

end
