(* ===== verification/CF_Credentials.thy ===== *)
theory CF_Credentials
  imports CF_Json
begin

text \<open>
  The tunnel token of \<^verbatim>\<open>src/protocol/cf_credentials.c\<close>: Base64 text of a JSON object with an
  account tag, a tunnel UUID and a secret. The theory models the two text readers (\<open>hex\<close>,
  \<open>uuid\<close>), the token parser with its diagnostics and its erasures, and shows which tokens are
  accepted, what the accepted credentials look like and what every failure leaves behind.
\<close>

section \<open>Credentials\<close>

definition CF_TOKEN_MAX :: nat where "CF_TOKEN_MAX = 1024"
definition CF_TOKEN_JSON_MAX :: nat where "CF_TOKEN_JSON_MAX = 768"
definition CF_TUNNEL_SECRET_MIN :: nat where "CF_TUNNEL_SECRET_MIN = 32"
definition CF_TUNNEL_SECRET_MAX :: nat where "CF_TUNNEL_SECRET_MAX = 128"

record cf_credentials =
  cr_account_tag :: mem
  cr_tunnel_id :: mem
  cr_tunnel_secret :: mem
  cr_tunnel_secret_len :: nat

text \<open>The sizes of the arrays, which the C type fixes.\<close>

definition cred_sized :: "cf_credentials \<Rightarrow> bool" where
  "cred_sized c \<longleftrightarrow> length (cr_account_tag c) = 33 \<and> length (cr_tunnel_id c) = 16
     \<and> length (cr_tunnel_secret c) = CF_TUNNEL_SECRET_MAX"

definition zero_credentials :: cf_credentials where
  "zero_credentials = \<lparr>cr_account_tag = replicate 33 0, cr_tunnel_id = replicate 16 0,
     cr_tunnel_secret = replicate CF_TUNNEL_SECRET_MAX 0, cr_tunnel_secret_len = 0\<rparr>"

datatype cf_token_diagnostic = CF_TOKEN_VALID | CF_TOKEN_INPUT_SIZE | CF_TOKEN_BASE64 | CF_TOKEN_JSON
  | CF_TOKEN_FIELDS | CF_TOKEN_ACCOUNT | CF_TOKEN_UUID | CF_TOKEN_SECRET_BASE64
  | CF_TOKEN_SECRET_SIZE | CF_TOKEN_ENDPOINT | CF_TOKEN_MEMORY

section \<open>Text readers\<close>

definition hex :: "u8 \<Rightarrow> int" where
  "hex c =
     (if c \<ge> ch CHR ''0'' \<and> c \<le> ch CHR ''9'' then uint c - 48
      else if c \<ge> ch CHR ''a'' \<and> c \<le> ch CHR ''f'' then uint c - 97 + 10
      else if c \<ge> ch CHR ''A'' \<and> c \<le> ch CHR ''F'' then uint c - 65 + 10
      else - 1)"

function uuid_loop :: "u8 list \<Rightarrow> nat \<Rightarrow> nat \<Rightarrow> u32 \<Rightarrow> mem \<Rightarrow> (bool \<times> mem) option" where
  "uuid_loop s i n nonzero out =
     (if i < 36 then
        if i = 8 \<or> i = 13 \<or> i = 18 \<or> i = 23 then do {
          c \<leftarrow> load s i;
          if c \<noteq> ch CHR ''-'' then Some (False, out) else uuid_loop s (i + 1) n nonzero out
        }
        else do {
          a \<leftarrow> load s i;
          b \<leftarrow> load s (i + 1);
          if hex a < 0 \<or> hex b < 0 \<or> n \<ge> 16 then Some (False, out)
          else do {
            let v = word_of_int (hex a * 16 + hex b);
            out \<leftarrow> store out n v;
            uuid_loop s (i + 2) (n + 1) (nonzero OR ucast v) out
          }
        }
      else Some (n = 16 \<and> nonzero \<noteq> 0, out))"
  by pat_completeness auto
termination
  by (relation "measure (\<lambda>(s, i, n, nonzero, out). 36 - i)") auto

declare uuid_loop.simps [simp del]

definition uuid :: "u8 list \<Rightarrow> mem \<Rightarrow> (bool \<times> mem) option" where
  "uuid s out = (if length s \<noteq> 36 then Some (False, out) else uuid_loop s 0 0 0 out)"

section \<open>The token parser\<close>

definition token_keys :: "u8 list list" where
  "token_keys = [str ''a'', str ''s'', str ''t'', str ''e'']"

text \<open>
  The outcome of the checks: the return code, the reason \<open>why\<close> and the candidate. The
  candidate is published only with \<open>CF_OK\<close>.
\<close>

type_synonym token_verdict = "cf_result \<times> cf_token_diagnostic \<times> cf_credentials"

text \<open>The secret: from \<open>why = CF_TOKEN_SECRET_BASE64\<close> on.\<close>

definition token_secret :: "u8 list \<Rightarrow> cf_credentials \<Rightarrow> token_verdict option" where
  "token_secret sv cand = do {
     (rc, p, n) \<leftarrow> cf_base64_decode (Bytes sv) True (Some (cr_tunnel_secret cand, 0)) CF_TUNNEL_SECRET_MAX (Some 0);
     (secret, _) \<leftarrow> p;
     n \<leftarrow> n;
     let cand = cand\<lparr>cr_tunnel_secret := secret\<rparr>;
     if rc \<noteq> CF_OK then Some (rc, if rc = CF_ERR_LIMIT then CF_TOKEN_SECRET_SIZE else CF_TOKEN_SECRET_BASE64, cand)
     else if n < CF_TUNNEL_SECRET_MIN then Some (CF_ERR_FORMAT, CF_TOKEN_SECRET_SIZE, cand)
     else Some (CF_OK, CF_TOKEN_SECRET_SIZE, cand\<lparr>cr_tunnel_secret_len := n\<rparr>)
   }"

text \<open>The account tag, then the secret.\<close>

definition token_account :: "u8 list \<Rightarrow> u8 list \<Rightarrow> cf_credentials \<Rightarrow> token_verdict option" where
  "token_account av sv cand =
     (if length av \<noteq> 32 then Some (CF_ERR_FORMAT, CF_TOKEN_ACCOUNT, cand)
      else if list_ex (\<lambda>c. hex c < 0) av then Some (CF_ERR_FORMAT, CF_TOKEN_ACCOUNT, cand)
      else do {
        tag \<leftarrow> store_n (cr_account_tag cand) 0 av;
        token_secret sv (cand\<lparr>cr_account_tag := tag\<rparr>)
      })"

text \<open>The UUID, then the account tag.\<close>

definition token_ids :: "u8 list \<Rightarrow> u8 list \<Rightarrow> u8 list \<Rightarrow> cf_credentials \<Rightarrow> token_verdict option" where
  "token_ids av sv tv cand = do {
     (ok, tid) \<leftarrow> uuid tv (cr_tunnel_id cand);
     if \<not> ok then Some (CF_ERR_FORMAT, CF_TOKEN_UUID, cand\<lparr>cr_tunnel_id := tid\<rparr>)
     else token_account av sv (cand\<lparr>cr_tunnel_id := tid\<rparr>)
   }"

text \<open>The fields of the object; the \<open>valuestring\<close> of an item is dereferenced.\<close>

definition token_fields :: "cJSON \<Rightarrow> cf_credentials \<Rightarrow> token_verdict option" where
  "token_fields root cand =
     (if \<not> cf_json_keys (Some root) token_keys then Some (CF_ERR_FORMAT, CF_TOKEN_FIELDS, cand)
      else
        let a = cf_cJSON_GetObjectItemCaseSensitive (Some root) (str ''a'');
            s = cf_cJSON_GetObjectItemCaseSensitive (Some root) (str ''s'');
            t = cf_cJSON_GetObjectItemCaseSensitive (Some root) (str ''t'');
            e = cf_cJSON_GetObjectItemCaseSensitive (Some root) (str ''e'') in
        if \<not> cf_cJSON_Is CJ_String a \<or> \<not> cf_cJSON_Is CJ_String s \<or> \<not> cf_cJSON_Is CJ_String t
        then Some (CF_ERR_FORMAT, CF_TOKEN_FIELDS, cand)
        else if e \<noteq> None \<and> \<not> cf_cJSON_Is CJ_String e then Some (CF_ERR_FORMAT, CF_TOKEN_FIELDS, cand)
        else do {
          ev \<leftarrow> (case e of None \<Rightarrow> Some [] | Some x \<Rightarrow> cj_valuestring x);
          if e \<noteq> None \<and> ev \<noteq> [] then Some (CF_ERR_UNSUPPORTED, CF_TOKEN_ENDPOINT, cand)
          else do {
            tv \<leftarrow> t \<bind> cj_valuestring;
            av \<leftarrow> a \<bind> cj_valuestring;
            sv \<leftarrow> s \<bind> cj_valuestring;
            token_ids av sv tv cand
          }
        })"

text \<open>From the Base64 text to the fields, with the scratch buffer.\<close>

definition token_decode :: "cjson_parser \<Rightarrow> cf_bytes \<Rightarrow> mem \<Rightarrow> json_heap \<Rightarrow> (token_verdict \<times> mem \<times> json_heap) option" where
  "token_decode parser token scratch h = do {
     (rc, p, n) \<leftarrow> cf_base64_decode token True (Some (scratch, 0)) CF_TOKEN_JSON_MAX (Some 0);
     (scratch, _) \<leftarrow> p;
     n \<leftarrow> n;
     if rc \<noteq> CF_OK then Some ((rc, CF_TOKEN_BASE64, zero_credentials), scratch, h)
     else do {
       scratch \<leftarrow> store scratch n 0;
       json \<leftarrow> load_n scratch 0 n;
       (root, h) \<leftarrow> cf_json_parse parser (Bytes json) h;
       (case root of
          None \<Rightarrow> Some ((cf_json_failure h, CF_TOKEN_JSON, zero_credentials), scratch, h)
        | Some root \<Rightarrow> do { v \<leftarrow> token_fields root zero_credentials; Some (v, scratch, h) })
     }
   }"

text \<open>
  \<open>out\<close> and \<open>diagnostic\<close> are the pointees of the pointer arguments, \<open>None\<close> for NULL, and
  \<open>scratch\<close> is the buffer of at least \<open>cap\<close> bytes. The result has the return code and the
  pointees, the buffer and the allocator state afterwards.
\<close>

type_synonym parse_result = "(cf_result \<times> mem option \<times> cf_credentials option \<times> cf_token_diagnostic option \<times> json_heap) option"

definition cf_credentials_parse_ex :: "cjson_parser \<Rightarrow> cf_bytes \<Rightarrow> mem option \<Rightarrow> nat \<Rightarrow> cf_credentials option
    \<Rightarrow> cf_token_diagnostic option \<Rightarrow> json_heap \<Rightarrow> parse_result" where
  "cf_credentials_parse_ex parser token scratch cap out diagnostic h =
     (let diagnostic = map_option (\<lambda>_. CF_TOKEN_FIELDS) diagnostic in
      if out = None then Some (CF_ERR_ARGUMENT, scratch, None, diagnostic, h)
      else if scratch = None \<or> cap < CF_TOKEN_JSON_MAX + 1 \<or> bytes_bad token
      then Some (CF_ERR_ARGUMENT, scratch, Some zero_credentials, diagnostic, h)
      else do {
        buf \<leftarrow> scratch;
        ((rc, why, cand), buf, h) \<leftarrow>
          (if bytes_len token = 0 \<or> bytes_len token > CF_TOKEN_MAX
           then Some ((CF_ERR_LIMIT, CF_TOKEN_INPUT_SIZE, zero_credentials), buf, h)
           else token_decode parser token buf h);
        p \<leftarrow> cf_secure_zero (Some (buf, 0)) cap;
        (buf, _) \<leftarrow> p;
        let why = (if rc = CF_OK then CF_TOKEN_VALID else if rc = CF_ERR_MEMORY then CF_TOKEN_MEMORY else why);
        Some (rc, Some buf, Some (if rc = CF_OK then cand else zero_credentials), map_option (\<lambda>_. why) diagnostic, h)
      })"

definition cf_credentials_parse :: "cjson_parser \<Rightarrow> cf_bytes \<Rightarrow> mem option \<Rightarrow> nat \<Rightarrow> cf_credentials option \<Rightarrow> json_heap \<Rightarrow> parse_result" where
  "cf_credentials_parse parser token scratch cap out h = cf_credentials_parse_ex parser token scratch cap out None h"

primrec cf_token_diagnostic_message :: "cf_token_diagnostic \<Rightarrow> string" where
  "cf_token_diagnostic_message CF_TOKEN_VALID = ''Tunnel token accepted.''"
| "cf_token_diagnostic_message CF_TOKEN_INPUT_SIZE = ''Tunnel token must contain 1 to 1024 characters.''"
| "cf_token_diagnostic_message CF_TOKEN_BASE64 = ''Invalid token encoding. Paste only the tunnel token from the connector install command, without the command, quotes, or an API key.''"
| "cf_token_diagnostic_message CF_TOKEN_JSON = ''This value is not a named tunnel token: its decoded content is not valid JSON.''"
| "cf_token_diagnostic_message CF_TOKEN_FIELDS = ''The token must contain account (a), tunnel ID (t), and secret (s), with no duplicate or unsupported fields.''"
| "cf_token_diagnostic_message CF_TOKEN_ACCOUNT = ''The token account ID must be 32 hexadecimal characters.''"
| "cf_token_diagnostic_message CF_TOKEN_UUID = ''The token tunnel ID must be a nonzero UUID in the standard format.''"
| "cf_token_diagnostic_message CF_TOKEN_SECRET_BASE64 = ''The token contains an invalid Base64 tunnel secret.''"
| "cf_token_diagnostic_message CF_TOKEN_SECRET_SIZE = ''This firmware supports tunnel secrets of 32 to 128 decoded bytes.''"
| "cf_token_diagnostic_message CF_TOKEN_ENDPOINT = ''Custom tunnel endpoints are not supported by this firmware.''"
| "cf_token_diagnostic_message CF_TOKEN_MEMORY = ''Not enough memory to validate the tunnel token. Please retry.''"

section \<open>UUIDs\<close>

text \<open>Pairs of hexadecimal digits as bytes.\<close>

fun hexpairs :: "u8 list \<Rightarrow> u8 list option" where
  "hexpairs [] = Some []"
| "hexpairs [a] = None"
| "hexpairs (a # b # r) = (if hex a < 0 \<or> hex b < 0 then None
     else map_option (\<lambda>bs. word_of_int (hex a * 16 + hex b) # bs) (hexpairs r))"

lemma hexpairs_length: "hexpairs xs = Some bs \<Longrightarrow> length xs = 2 * length bs"
  by (induction xs arbitrary: bs rule: hexpairs.induct) (auto split: if_splits)

definition or_all :: "u32 \<Rightarrow> u8 list \<Rightarrow> u32" where
  "or_all nz bs = fold (\<lambda>v acc. acc OR ucast v) bs nz"

lemma take2_drop: "i + 2 \<le> length s \<Longrightarrow> take (2 * Suc k) (drop i s) = s ! i # s ! (i + 1) # take (2 * k) (drop (i + 2) s)"
  by (simp add: Cons_nth_drop_Suc [symmetric] numeral_2_eq_2)

text \<open>A run of \<open>k\<close> pairs without a dash position.\<close>

lemma uuid_pairs:
  assumes "length s = 36" "length out = 16" "i + 2 * k \<le> 36" "n + k \<le> 16"
    and "\<And>j. i \<le> j \<Longrightarrow> j < i + 2 * k \<Longrightarrow> j \<notin> {8, 13, 18, 23}"
    and "\<And>bs. hexpairs (take (2 * k) (drop i s)) = Some bs \<Longrightarrow>
      yields (uuid_loop s (i + 2 * k) (n + k) (or_all nz bs) (splice out n bs)) Q"
    and "\<And>m. hexpairs (take (2 * k) (drop i s)) = None \<Longrightarrow> length m = 16 \<Longrightarrow> Q (False, m)"
  shows "yields (uuid_loop s i n nz out) Q"
  using assms(2-)
proof (induction k arbitrary: i n nz out)
  case 0
  then show ?case by (simp add: or_all_def)
next
  case (Suc k)
  have i: "i + 2 \<le> length s" "i < 36" "i \<notin> {8, 13, 18, 23}" using Suc.prems(2,4) assms(1) by simp_all
  note t = take2_drop [OF i(1), of k]
  show ?case
  proof (cases "hex (s ! i) < 0 \<or> hex (s ! (i + 1)) < 0")
    case True
    then have "hexpairs (take (2 * Suc k) (drop i s)) = None" unfolding t by simp
    then have "Q (False, out)" using Suc.prems(1,6) by blast
    then show ?thesis using True i Suc.prems(3) assms(1) by (subst uuid_loop.simps) (simp add: load_def yields_def)
  next
    case False
    let ?v = "word_of_int (hex (s ! i) * 16 + hex (s ! (i + 1))) :: u8"
    let ?out = "out[n := ?v]"
    have o: "?out = splice out n [?v]" using Suc.prems(1,3) splice_snoc [of n "[]" out ?v] by simp
    have hp: "hexpairs (take (2 * Suc k) (drop i s)) = map_option (\<lambda>bs. ?v # bs) (hexpairs (take (2 * k) (drop (i + 2) s)))"
      unfolding t using False by simp
    have st: "uuid_loop s i n nz out = uuid_loop s (i + 2) (n + 1) (nz OR ucast ?v) ?out"
      using False i Suc.prems(1,3) assms(1) by (subst uuid_loop.simps) (simp add: load_def store_def Let_def)
    have "yields (uuid_loop s (i + 2) (n + 1) (nz OR ucast ?v) ?out) Q"
    proof (rule Suc.IH)
      fix bs
      assume b: "hexpairs (take (2 * k) (drop (i + 2) s)) = Some bs"
      have l: "length bs = k" using hexpairs_length [OF b] i(1) assms(1) Suc.prems(2) by simp
      have "splice ?out (n + 1) bs = splice out n (?v # bs)"
        unfolding o using splice_splice [of n "[?v]" bs out] l Suc.prems(1,3) by simp
      then show "yields (uuid_loop s (i + 2 + 2 * k) (n + 1 + k) (or_all (nz OR ucast ?v) bs) (splice ?out (n + 1) bs)) Q"
        using Suc.prems(5) [of "?v # bs"] b hp by (simp add: or_all_def)
    next
      fix m :: mem
      assume "hexpairs (take (2 * k) (drop (i + 2) s)) = None" "length m = 16"
      then show "Q (False, m)" using Suc.prems(6) hp by simp
    qed (use Suc.prems in auto)
    then show ?thesis unfolding st .
  qed
qed

lemma uuid_dash:
  assumes "length s = 36" "i \<in> {8, 13, 18, 23}"
    and "s ! i = ch CHR ''-'' \<Longrightarrow> yields (uuid_loop s (i + 1) n nz out) Q"
    and "s ! i \<noteq> ch CHR ''-'' \<Longrightarrow> Q (False, out)"
  shows "yields (uuid_loop s i n nz out) Q"
  using assms by (subst uuid_loop.simps) (auto simp: load_def yields_def)

text \<open>The digits of a UUID text, its dashes left out, and the identifier it denotes.\<close>

definition uuid_digits :: "u8 list \<Rightarrow> u8 list" where
  "uuid_digits s = take 8 s @ take 4 (drop 9 s) @ take 4 (drop 14 s) @ take 4 (drop 19 s) @ take 12 (drop 24 s)"

definition uuid_denotes :: "u8 list \<Rightarrow> u8 list \<Rightarrow> bool" where
  "uuid_denotes s tid \<longleftrightarrow> length s = 36 \<and> (\<forall>i \<in> {8, 13, 18, 23}. s ! i = ch CHR ''-'')
     \<and> hexpairs (uuid_digits s) = Some tid \<and> (\<exists>x \<in> set tid. x \<noteq> 0)"

lemma hexpairs_append: "even (length a) \<Longrightarrow>
    hexpairs (a @ b) = (case hexpairs a of None \<Rightarrow> None | Some x \<Rightarrow> map_option (\<lambda>y. x @ y) (hexpairs b))"
  by (induction a rule: hexpairs.induct; cases "hexpairs b") (auto split: option.splits)

lemma or_eq_0: "(a OR b :: u32) = 0 \<longleftrightarrow> a = 0 \<and> b = 0"
  by (metis or.right_neutral or_eq_0_iff)

lemma ucast_u8_0: "(ucast (v :: u8) :: u32) = 0 \<longleftrightarrow> v = 0"
proof
  assume "(ucast v :: u32) = 0"
  then have "unat (ucast v :: u32) = 0" by simp
  then have "unat v = 0" using u8_less [of v] by (simp add: unsigned_ucast_eq take_bit_nat_eq_self)
  then show "v = 0" by (simp add: unat_eq_zero)
qed simp

lemma or_all_0: "or_all nz bs = 0 \<longleftrightarrow> nz = 0 \<and> list_all (\<lambda>v. v = 0) bs"
  by (induction bs arbitrary: nz) (simp_all add: or_all_def or_eq_0 ucast_u8_0 conj_assoc)

lemma or_all_append: "or_all (or_all nz a) b = or_all nz (a @ b)"
  by (simp add: or_all_def)

lemma splice_all: "length xs = length m \<Longrightarrow> splice m 0 xs = xs"
  by (simp add: splice_def)

lemma uuid_segment:
  assumes "length s = 36" "length out = 16" "n + k \<le> 16" "i + 2 * k \<le> 36" "length x = n"
    and "\<And>j. i \<le> j \<Longrightarrow> j < i + 2 * k \<Longrightarrow> j \<notin> {8, 13, 18, 23}"
    and "\<And>bs. hexpairs (take (2 * k) (drop i s)) = Some bs \<Longrightarrow> length bs = k \<Longrightarrow>
      yields (uuid_loop s (i + 2 * k) (n + k) (or_all 0 (x @ bs)) (splice out 0 (x @ bs))) Q"
    and "\<And>m. hexpairs (take (2 * k) (drop i s)) = None \<Longrightarrow> length m = 16 \<Longrightarrow> Q (False, m)"
  shows "yields (uuid_loop s i n (or_all 0 x) (splice out 0 x)) Q"
proof (rule uuid_pairs [OF assms(1) _ assms(4) assms(3) assms(6)])
  fix bs
  assume b: "hexpairs (take (2 * k) (drop i s)) = Some bs"
  have l: "length bs = k" using hexpairs_length [OF b] assms(1,4) by simp
  have "splice (splice out 0 x) n bs = splice out 0 (x @ bs)"
    using splice_splice [of 0 x bs out] assms(2,3,5) l by simp
  then show "yields (uuid_loop s (i + 2 * k) (n + k) (or_all (or_all 0 x) bs) (splice (splice out 0 x) n bs)) Q"
    using assms(7) [OF b l] by (simp add: or_all_append)
qed (use assms(2,3,5,8) in simp_all)

lemma uuid_yields:
  assumes "length out = 16"
  shows "yields (uuid s out) (\<lambda>(ok, m). length m = 16 \<and> (if ok then uuid_denotes s m else \<forall>tid. \<not> uuid_denotes s tid))"
    (is "yields _ ?Q")
proof (cases "length s = 36")
  case False
  then show ?thesis using assms by (simp add: uuid_def uuid_denotes_def yields_def)
next
  case l: True
  let ?h = "\<lambda>k i. hexpairs (take k (drop i s))"
  have app: "hexpairs (uuid_digits s) = (case ?h 8 0 of None \<Rightarrow> None | Some a \<Rightarrow> (case ?h 4 9 of None \<Rightarrow> None | Some b \<Rightarrow>
      (case ?h 4 14 of None \<Rightarrow> None | Some c \<Rightarrow> (case ?h 4 19 of None \<Rightarrow> None | Some d \<Rightarrow>
      map_option (\<lambda>e. a @ b @ c @ d @ e) (?h 12 24)))))"
    using l by (simp add: uuid_digits_def hexpairs_append option.map_comp comp_def split: option.splits)
  define Q where "Q = ?Q"
  have dash: "Q (False, m)" if "s ! i \<noteq> ch CHR ''-''" "i \<in> {8, 13, 18, 23}" "length m = 16" for i m
    using that unfolding uuid_denotes_def Q_def by auto
  have none: "Q (False, m)"
    if "length m = 16" "?h 8 0 = None \<or> ?h 4 9 = None \<or> ?h 4 14 = None \<or> ?h 4 19 = None \<or> ?h 12 24 = None" for m
    using that unfolding uuid_denotes_def app Q_def by (auto split: option.splits)
  have fin: "yields (uuid_loop s 36 16 (or_all 0 x) (splice out 0 x)) Q"
    if "length x = 16" "hexpairs (uuid_digits s) = Some x" "\<forall>i \<in> {8, 13, 18, 23}. s ! i = ch CHR ''-''" for x
    using that assms splice_all [of x out] l or_all_0 [of 0 x]
    by (subst uuid_loop.simps) (auto simp: yields_def uuid_denotes_def list_all_iff Q_def)
  note seg = uuid_segment [OF l assms]
  have "yields (uuid_loop s 0 0 (or_all 0 []) (splice out 0 [])) Q"
    apply (rule seg [where k = 4], simp_all add: none)
    apply (rule uuid_dash [OF l], simp_all add: dash assms)
    apply (rule seg [where k = 2], simp_all add: none)
    apply (rule uuid_dash [OF l], simp_all add: dash assms)
    apply (rule seg [where k = 2], simp_all add: none)
    apply (rule uuid_dash [OF l], simp_all add: dash assms)
    apply (rule seg [where k = 2], simp_all add: none)
    apply (rule uuid_dash [OF l], simp_all add: dash assms)
    apply (rule seg [where k = 6], simp_all add: none)
    apply (rule fin, simp_all add: app)
    done
  then show ?thesis using l by (simp add: uuid_def or_all_def Q_def)
qed

section \<open>Valid tokens\<close>

definition secret_denotes :: "u8 list \<Rightarrow> u8 list \<Rightarrow> bool" where
  "secret_denotes sv sec \<longleftrightarrow> sv = b64_text True sec \<and> CF_TUNNEL_SECRET_MIN \<le> length sec \<and> length sec \<le> CF_TUNNEL_SECRET_MAX"

lemma b64_yields:
  assumes "\<not> bytes_bad i" "ptr_room p cap"
    and "\<And>xs. bytes_list i = b64_text True xs \<Longrightarrow> length xs \<le> cap \<Longrightarrow> yields (f (CF_OK, ptr_splice p xs, Some (length xs))) Q"
    and "\<And>rc ys. rc \<noteq> CF_OK \<Longrightarrow> length ys \<le> cap \<Longrightarrow> \<forall>xs. bytes_list i = b64_text True xs \<longrightarrow> cap < length xs \<Longrightarrow>
      yields (f (rc, ptr_splice p ys, Some 0)) Q"
  shows "yields (cf_base64_decode i True p cap (Some w) \<bind> f) Q"
  by (rule padded64.decode_cases [OF assms(1,2), of w]) (use assms(3,4) in \<open>auto simp: not_le\<close>)

lemma token_secret_yields:
  assumes "length (cr_tunnel_secret cand) = CF_TUNNEL_SECRET_MAX"
  shows "yields (token_secret sv cand) (\<lambda>(rc, why, c). why \<noteq> CF_TOKEN_VALID \<and> (if rc = CF_OK
      then \<exists>sec. secret_denotes sv sec \<and> c = cand\<lparr>cr_tunnel_secret := splice (cr_tunnel_secret cand) 0 sec, cr_tunnel_secret_len := length sec\<rparr>
      else \<forall>sec. \<not> secret_denotes sv sec))"
  unfolding token_secret_def
proof (rule b64_yields)
  fix xs
  assume "bytes_list (Bytes sv) = b64_text True xs" "length xs \<le> CF_TUNNEL_SECRET_MAX"
  then show "yields (case (CF_OK, ptr_splice (Some (cr_tunnel_secret cand, 0)) xs, Some (length xs)) of (rc, p, n) \<Rightarrow>
      p \<bind> (\<lambda>(secret, _). n \<bind> (\<lambda>n. let cand = cand\<lparr>cr_tunnel_secret := secret\<rparr> in
        if rc \<noteq> CF_OK then Some (rc, if rc = CF_ERR_LIMIT then CF_TOKEN_SECRET_SIZE else CF_TOKEN_SECRET_BASE64, cand)
        else if n < CF_TUNNEL_SECRET_MIN then Some (CF_ERR_FORMAT, CF_TOKEN_SECRET_SIZE, cand)
        else Some (CF_OK, CF_TOKEN_SECRET_SIZE, cand\<lparr>cr_tunnel_secret_len := n\<rparr>))))
     (\<lambda>(rc, why, c). why \<noteq> CF_TOKEN_VALID \<and> (if rc = CF_OK
      then \<exists>sec. secret_denotes sv sec \<and> c = cand\<lparr>cr_tunnel_secret := splice (cr_tunnel_secret cand) 0 sec, cr_tunnel_secret_len := length sec\<rparr>
      else \<forall>sec. \<not> secret_denotes sv sec))"
    by (auto simp: yields_def secret_denotes_def Let_def dest: padded64.text_of_inject)
qed (use assms in \<open>auto simp: yields_def secret_denotes_def Let_def\<close>)

text \<open>The credentials that the three texts denote.\<close>

definition texts_grant :: "u8 list \<Rightarrow> u8 list \<Rightarrow> u8 list \<Rightarrow> cf_credentials \<Rightarrow> bool" where
  "texts_grant av sv tv c \<longleftrightarrow> length av = 32 \<and> list_all (\<lambda>c. 0 \<le> hex c) av \<and> uuid_denotes tv (cr_tunnel_id c)
     \<and> cr_account_tag c = av @ [0] \<and> (\<exists>sec. secret_denotes sv sec \<and> cr_tunnel_secret_len c = length sec
        \<and> cr_tunnel_secret c = sec @ replicate (CF_TUNNEL_SECRET_MAX - length sec) 0)"

lemma texts_grant_iff: "(\<exists>c. texts_grant av sv tv c) \<longleftrightarrow> length av = 32 \<and> list_all (\<lambda>c. 0 \<le> hex c) av
    \<and> (\<exists>tid. uuid_denotes tv tid) \<and> (\<exists>sec. secret_denotes sv sec)"
proof
  assume "length av = 32 \<and> list_all (\<lambda>c. 0 \<le> hex c) av \<and> (\<exists>tid. uuid_denotes tv tid) \<and> (\<exists>sec. secret_denotes sv sec)"
  then obtain tid sec where "length av = 32" "list_all (\<lambda>c. 0 \<le> hex c) av" "uuid_denotes tv tid" "secret_denotes sv sec" by blast
  then have "texts_grant av sv tv \<lparr>cr_account_tag = av @ [0], cr_tunnel_id = tid,
      cr_tunnel_secret = sec @ replicate (CF_TUNNEL_SECRET_MAX - length sec) 0, cr_tunnel_secret_len = length sec\<rparr>"
    by (auto simp: texts_grant_def)
  then show "\<exists>c. texts_grant av sv tv c" by blast
qed (auto simp: texts_grant_def)

definition grants_or :: "(cf_credentials \<Rightarrow> bool) \<Rightarrow> token_verdict \<Rightarrow> bool" where
  "grants_or G v = (case v of (rc, why, c) \<Rightarrow> why \<noteq> CF_TOKEN_VALID \<and> (if rc = CF_OK then G c else \<forall>c. \<not> G c))"

lemma grants_or_none: "\<forall>c. \<not> G c \<Longrightarrow> rc \<noteq> CF_OK \<Longrightarrow> why \<noteq> CF_TOKEN_VALID \<Longrightarrow> yields (Some (rc, why, cand)) (grants_or G)"
  by (simp add: yields_def grants_or_def)

lemma token_ids_yields: "yields (token_ids av sv tv zero_credentials) (grants_or (texts_grant av sv tv))"
proof -
  have sec: "yields (token_secret sv (zero_credentials\<lparr>cr_tunnel_id := tid, cr_account_tag := av @ [0]\<rparr>)) (grants_or (texts_grant av sv tv))"
    if "uuid_denotes tv tid" "length av = 32" "list_all (\<lambda>c. 0 \<le> hex c) av" for tid
  proof (rule yields_weaken [OF token_secret_yields])
    fix v :: token_verdict
    obtain rc why c where v: "v = (rc, why, c)" by (cases v)
    have "splice (replicate CF_TUNNEL_SECRET_MAX (0::u8)) 0 sec = sec @ replicate (CF_TUNNEL_SECRET_MAX - length sec) 0" for sec
      by (simp add: splice_def)
    moreover assume "case v of (rc, why, c) \<Rightarrow> why \<noteq> CF_TOKEN_VALID \<and> (if rc = CF_OK
      then \<exists>sec. secret_denotes sv sec \<and> c = zero_credentials\<lparr>cr_tunnel_id := tid, cr_account_tag := av @ [0],
          cr_tunnel_secret := splice (cr_tunnel_secret (zero_credentials\<lparr>cr_tunnel_id := tid, cr_account_tag := av @ [0]\<rparr>)) 0 sec,
          cr_tunnel_secret_len := length sec\<rparr>
      else \<forall>sec. \<not> secret_denotes sv sec)"
    ultimately show "grants_or (texts_grant av sv tv) v" using that
      by (auto simp: v grants_or_def texts_grant_def zero_credentials_def split: if_splits)
  qed (simp add: zero_credentials_def)
  have tag: "store_n (replicate 33 (0::u8)) 0 av = Some (av @ [0])" if "length av = 32"
    using that by (simp add: store_n_def splice_def)
  have acc: "yields (token_account av sv (zero_credentials\<lparr>cr_tunnel_id := tid\<rparr>)) (grants_or (texts_grant av sv tv))"
    if t: "uuid_denotes tv tid" for tid
  proof (cases "length av = 32 \<and> list_all (\<lambda>c. 0 \<le> hex c) av")
    case True
    then have "\<not> list_ex (\<lambda>c. hex c < 0) av" by (auto simp: list_ex_iff list_all_iff)
    then show ?thesis using True sec [OF t] tag by (simp add: token_account_def zero_credentials_def)
  next
    case False
    then have "\<forall>c. \<not> texts_grant av sv tv c" by (auto simp: texts_grant_def)
    then show ?thesis using False
      by (cases "length av = 32") (auto simp: token_account_def list_ex_iff list_all_iff not_le intro!: grants_or_none)
  qed
  have no: "\<forall>c. \<not> texts_grant av sv tv c" if "\<forall>tid. \<not> uuid_denotes tv tid"
    using that by (auto simp: texts_grant_def)
  show ?thesis unfolding token_ids_def
    by (rule yields_bind [OF uuid_yields], simp add: zero_credentials_def, erule yields_case_prod)
       (auto intro!: acc grants_or_none no)
qed

text \<open>
  The credentials that a token object grants: no other names than \<open>a\<close>, \<open>s\<close>, \<open>t\<close>, \<open>e\<close> and none
  twice, no endpoint or an empty one, and three texts that denote them.
\<close>

definition token_grants :: "cJSON \<Rightarrow> cf_credentials \<Rightarrow> bool" where
  "token_grants root c \<longleftrightarrow> cj_type root = CJ_Object
     \<and> (\<exists>ns. item_names (cj_child root) = map Some ns \<and> distinct ns \<and> set ns \<subseteq> set token_keys)
     \<and> (cf_cJSON_GetObjectItemCaseSensitive (Some root) (str ''e'') = None \<or> item_text root (str ''e'') = Some [])
     \<and> (\<exists>av sv tv. item_text root (str ''a'') = Some av \<and> item_text root (str ''s'') = Some sv
         \<and> item_text root (str ''t'') = Some tv \<and> texts_grant av sv tv c)"

lemma item_text_Is:
  "strings_valued root \<Longrightarrow> cf_cJSON_Is CJ_String (cf_cJSON_GetObjectItemCaseSensitive (Some root) k) \<longleftrightarrow>
     (\<exists>x s. cf_cJSON_GetObjectItemCaseSensitive (Some root) k = Some x \<and> cj_type x = CJ_String \<and> cj_valuestring x = Some s)"
  using get_item_strings [of root k] strings_valued_value by (cases "cf_cJSON_GetObjectItemCaseSensitive (Some root) k") (auto simp: cf_cJSON_Is_def)

lemma token_fields_yields:
  assumes "strings_valued root"
  shows "yields (token_fields root zero_credentials) (grants_or (token_grants root))"
proof -
  let ?g = "\<lambda>k. cf_cJSON_GetObjectItemCaseSensitive (Some root) (str k)"
  note isd = item_text_Is [OF assms]
  consider "\<not> cf_json_keys (Some root) token_keys"
    | "\<not> (cf_cJSON_Is CJ_String (?g ''a'') \<and> cf_cJSON_Is CJ_String (?g ''s'') \<and> cf_cJSON_Is CJ_String (?g ''t''))"
    | "?g ''e'' \<noteq> None" "\<not> cf_cJSON_Is CJ_String (?g ''e'')"
    | "cf_json_keys (Some root) token_keys" "cf_cJSON_Is CJ_String (?g ''a'')" "cf_cJSON_Is CJ_String (?g ''s'')"
      "cf_cJSON_Is CJ_String (?g ''t'')" "?g ''e'' = None \<or> cf_cJSON_Is CJ_String (?g ''e'')"
    by argo
  then show ?thesis
  proof cases
    case 1
    then have "\<not> token_grants root c" for c by (simp add: token_grants_def cf_json_keys_exact)
    then show ?thesis using 1 by (simp add: token_fields_def yields_def grants_or_def)
  next
    case 2
    then have "\<not> token_grants root c" for c
      by (auto simp: token_grants_def item_text_def cf_cJSON_Is_def split: option.splits if_splits)
    then show ?thesis using 2 by (auto simp: token_fields_def yields_def grants_or_def Let_def)
  next
    case 3
    then have "\<not> token_grants root c" for c
      by (auto simp: token_grants_def item_text_def cf_cJSON_Is_def split: option.splits if_splits)
    then show ?thesis using 3 by (auto simp: token_fields_def yields_def grants_or_def Let_def)
  next
    case 4
    have keys: "cj_type root = CJ_Object \<and> (\<exists>ns. item_names (cj_child root) = map Some ns \<and> distinct ns \<and> set ns \<subseteq> set token_keys)"
      using 4(1) by (simp add: cf_json_keys_exact)
    obtain a s t av sv tv where g: "?g ''a'' = Some a" "cj_type a = CJ_String" "cj_valuestring a = Some av"
        "?g ''s'' = Some s" "cj_type s = CJ_String" "cj_valuestring s = Some sv"
        "?g ''t'' = Some t" "cj_type t = CJ_String" "cj_valuestring t = Some tv"
      using 4(2-4) unfolding isd by blast
    have texts: "item_text root (str ''a'') = Some av" "item_text root (str ''s'') = Some sv" "item_text root (str ''t'') = Some tv"
      using g by (simp_all add: item_text_def)
    have gr: "token_grants root = (\<lambda>c. (?g ''e'' = None \<or> item_text root (str ''e'') = Some []) \<and> texts_grant av sv tv c)"
      using keys texts by (auto simp: token_grants_def)
    have ids: "yields (token_ids av sv tv zero_credentials) (grants_or (texts_grant av sv tv))" by (rule token_ids_yields)
    show ?thesis
    proof (cases "?g ''e''")
      case None
      then show ?thesis using 4 g ids by (simp add: token_fields_def Let_def cf_cJSON_Is_def gr)
    next
      case (Some e)
      then obtain ev where ev: "cj_type e = CJ_String" "cj_valuestring e = Some ev" using 4(5) isd [of "str ''e''"] by auto
      then show ?thesis using 4 g Some ids
        by (cases "ev = []") (simp_all add: token_fields_def Let_def cf_cJSON_Is_def gr item_text_def yields_def grants_or_def)
    qed
  qed
qed

text \<open>
  The credentials that a token grants: a text of 1 to 1024 characters that is the Base64 text of at
  most 768 bytes of JSON, whose object grants them.
\<close>

definition token_denotes :: "cjson_parser \<Rightarrow> u8 list \<Rightarrow> cf_credentials \<Rightarrow> bool" where
  "token_denotes parser token c \<longleftrightarrow> 0 < length token \<and> length token \<le> CF_TOKEN_MAX
     \<and> (\<exists>json root. token = b64_text True json \<and> length json \<le> CF_TOKEN_JSON_MAX
          \<and> json_accepts parser json root \<and> token_grants root c)"

lemma store_splice_take: "n = length xs \<Longrightarrow> n < length m \<Longrightarrow> store (splice m 0 xs) n v = Some (splice m 0 (xs @ [v]))"
  using splice_snoc [of 0 xs m v] by (simp add: store_def)

lemma json_failure_not_ok: "cf_json_failure h \<noteq> CF_OK"
  by (simp add: cf_json_failure_def)

lemma token_decode_yields:
  assumes "parser_strings parser" "CF_TOKEN_JSON_MAX < length buf" "token = Bytes xs" "0 < length xs" "length xs \<le> CF_TOKEN_MAX"
  shows "yields (token_decode parser token buf h) (\<lambda>(v, buf', h'). length buf' = length buf \<and> grants_or (token_denotes parser xs) v)"
    (is "yields _ ?Q")
  unfolding token_decode_def
proof (rule b64_yields)
  fix rc and ys :: "u8 list"
  assume "rc \<noteq> CF_OK" "length ys \<le> CF_TOKEN_JSON_MAX" "\<forall>json. bytes_list token = b64_text True json \<longrightarrow> CF_TOKEN_JSON_MAX < length json"
  moreover from this have "\<not> token_denotes parser xs c" for c using assms(3) by (force simp: token_denotes_def)
  ultimately show "yields (case (rc, ptr_splice (Some (buf, 0)) ys, Some 0) of (rc, p, n) \<Rightarrow> p \<bind> (\<lambda>(scratch, _). n \<bind> (\<lambda>n.
     if rc \<noteq> CF_OK then Some ((rc, CF_TOKEN_BASE64, zero_credentials), scratch, h)
     else store scratch n 0 \<bind> (\<lambda>scratch. load_n scratch 0 n \<bind> (\<lambda>json. cf_json_parse parser (Bytes json) h \<bind> (\<lambda>(root, h).
       case root of
          None \<Rightarrow> Some ((cf_json_failure h, CF_TOKEN_JSON, zero_credentials), scratch, h)
        | Some root \<Rightarrow> token_fields root zero_credentials \<bind> (\<lambda>v. Some (v, scratch, h))))))) ) ?Q"
    using assms(2) by (simp add: yields_def grants_or_def)
next
  fix json :: "u8 list"
  assume j: "bytes_list token = b64_text True json" "length json \<le> CF_TOKEN_JSON_MAX"
  have den: "token_denotes parser xs c \<longleftrightarrow> (\<exists>root. json_accepts parser json root \<and> token_grants root c)" for c
    using j assms(3-5) padded64.text_of_inject by (auto simp: token_denotes_def)
  let ?buf = "splice buf 0 (json @ [0])"
  have b: "store (splice buf 0 json) (length json) 0 = Some ?buf" using j assms(2) by (intro store_splice_take) simp_all
  have ld: "load_n ?buf 0 (length json) = Some json" using j assms(2) by (simp add: load_n_def splice_def)
  have l: "length ?buf = length buf" using j assms(2) by simp
  have P: "yields (cf_json_parse parser (Bytes json) h \<bind> (\<lambda>(root, h). case root of
          None \<Rightarrow> Some ((cf_json_failure h, CF_TOKEN_JSON, zero_credentials), ?buf, h)
        | Some root \<Rightarrow> token_fields root zero_credentials \<bind> (\<lambda>v. Some (v, ?buf, h)))) ?Q"
  proof (rule yields_bind [OF cf_json_parse_yields], erule yields_case_prod)
    fix root :: "cJSON option" and h' :: json_heap
    assume r: "json_live_bytes h' = json_live_bytes h \<and> (case root of None \<Rightarrow> \<forall>t. \<not> json_accepts parser (bytes_list (Bytes json)) t
       | Some t \<Rightarrow> json_accepts parser (bytes_list (Bytes json)) t)"
    show "yields (case root of None \<Rightarrow> Some ((cf_json_failure h', CF_TOKEN_JSON, zero_credentials), ?buf, h')
        | Some root \<Rightarrow> token_fields root zero_credentials \<bind> (\<lambda>v. Some (v, ?buf, h'))) ?Q"
    proof (cases root)
      case None
      then show ?thesis using r den l json_failure_not_ok by (simp add: yields_def grants_or_def)
    next
      case (Some t)
      then have t: "json_accepts parser json t" using r by simp
      then have "token_denotes parser xs = token_grants t" using den json_accepts_unique by blast
      then show ?thesis using Some token_fields_yields [OF json_accepts_strings [OF assms(1) t]] l
        by (auto simp: yields_def)
    qed
  qed
  show "yields (case (CF_OK, ptr_splice (Some (buf, 0)) json, Some (length json)) of (rc, p, n) \<Rightarrow> p \<bind> (\<lambda>(scratch, _). n \<bind> (\<lambda>n.
     if rc \<noteq> CF_OK then Some ((rc, CF_TOKEN_BASE64, zero_credentials), scratch, h)
     else store scratch n 0 \<bind> (\<lambda>scratch. load_n scratch 0 n \<bind> (\<lambda>json. cf_json_parse parser (Bytes json) h \<bind> (\<lambda>(root, h).
       case root of
          None \<Rightarrow> Some ((cf_json_failure h, CF_TOKEN_JSON, zero_credentials), scratch, h)
        | Some root \<Rightarrow> token_fields root zero_credentials \<bind> (\<lambda>v. Some (v, scratch, h))))))) ) ?Q"
    using P b ld by simp
qed (use assms in simp_all)

section \<open>Parsing a token\<close>

text \<open>A buffer whose first \<open>cap\<close> bytes are zero and that is unchanged behind them.\<close>

definition erased :: "nat \<Rightarrow> mem \<Rightarrow> bool" where
  "erased cap buf \<longleftrightarrow> cap \<le> length buf \<and> take cap buf = replicate cap 0"

lemma secure_zero_buffer: "cap \<le> length buf \<Longrightarrow> \<exists>buf'. cf_secure_zero (Some (buf, 0)) cap = Some (Some (buf', 0)) \<and> erased cap buf' \<and> length buf' = length buf"
  using secure_zero_eq [of "Some (buf, 0)" cap] by (simp add: erased_def splice_def)

lemma parse_yields:
  assumes "parser_strings parser" "cap \<le> length buf" "CF_TOKEN_JSON_MAX < cap" "\<not> bytes_bad token"
  shows "yields (cf_credentials_parse_ex parser token (Some buf) cap (Some out) diagnostic h) (\<lambda>(rc, buf', out', d, h').
    (\<exists>b. buf' = Some b \<and> erased cap b \<and> length b = length buf) \<and> (d = None \<longleftrightarrow> diagnostic = None)
    \<and> (diagnostic \<noteq> None \<longrightarrow> (d = Some CF_TOKEN_VALID \<longleftrightarrow> rc = CF_OK))
    \<and> (if rc = CF_OK then \<exists>c. out' = Some c \<and> token_denotes parser (bytes_list token) c
       else out' = Some zero_credentials \<and> (\<forall>c. \<not> token_denotes parser (bytes_list token) c)))"
    (is "yields _ ?Q")
proof -
  let ?stage = "if bytes_len token = 0 \<or> bytes_len token > CF_TOKEN_MAX
           then Some ((CF_ERR_LIMIT, CF_TOKEN_INPUT_SIZE, zero_credentials), buf, h)
           else token_decode parser token buf h"
  have st: "yields ?stage (\<lambda>(v, buf', h'). length buf' = length buf \<and> grants_or (token_denotes parser (bytes_list token)) v)"
  proof (rule yields_if)
    assume "bytes_len token = 0 \<or> bytes_len token > CF_TOKEN_MAX"
    then have "\<forall>c. \<not> token_denotes parser (bytes_list token) c"
      using bytes_list_len [OF assms(4)] by (auto simp: token_denotes_def)
    then show "yields (Some ((CF_ERR_LIMIT, CF_TOKEN_INPUT_SIZE, zero_credentials), buf, h))
        (\<lambda>(v, buf', h'). length buf' = length buf \<and> grants_or (token_denotes parser (bytes_list token)) v)"
      by (simp add: yields_def grants_or_def)
  next
    assume "\<not> (bytes_len token = 0 \<or> bytes_len token > CF_TOKEN_MAX)"
    then show "yields (token_decode parser token buf h)
        (\<lambda>(v, buf', h'). length buf' = length buf \<and> grants_or (token_denotes parser (bytes_list token)) v)"
      using token_decode_yields [OF assms(1), of buf token] assms(2-4) by (cases token) auto
  qed
  then obtain rc why c buf1 h1 where one: "?stage = Some ((rc, why, c), buf1, h1)" "length buf1 = length buf"
      "why \<noteq> CF_TOKEN_VALID" "if rc = CF_OK then token_denotes parser (bytes_list token) c else \<forall>c. \<not> token_denotes parser (bytes_list token) c"
    by (fastforce simp: yields_def grants_or_def)
  obtain buf2 where two: "cf_secure_zero (Some (buf1, 0)) cap = Some (Some (buf2, 0))" "erased cap buf2" "length buf2 = length buf1"
    using secure_zero_buffer [of cap buf1] assms(2) one(2) by auto
  have "cf_credentials_parse_ex parser token (Some buf) cap (Some out) diagnostic h = Some (rc, Some buf2,
      Some (if rc = CF_OK then c else zero_credentials),
      map_option (\<lambda>_. if rc = CF_OK then CF_TOKEN_VALID else if rc = CF_ERR_MEMORY then CF_TOKEN_MEMORY else why) diagnostic, h1)"
    using assms(3,4) one(1) two(1) by (simp add: cf_credentials_parse_ex_def Let_def option.map_comp comp_def)
  then show ?thesis using one(2-4) two(2,3) by (auto simp: yields_def)
qed

text \<open>What every granted credential looks like.\<close>

lemma length_uuid_digits: "length s = 36 \<Longrightarrow> length (uuid_digits s) = 32"
  by (simp add: uuid_digits_def)

lemma uuid_denotes_length: "uuid_denotes s tid \<Longrightarrow> length tid = 16"
  using hexpairs_length [of "uuid_digits s" tid] length_uuid_digits [of s] by (simp add: uuid_denotes_def)

lemma token_denotes_sized:
  assumes "token_denotes parser token c"
  shows "cred_sized c" "cr_account_tag c ! 32 = 0" "list_all (\<lambda>x. 0 \<le> hex x) (take 32 (cr_account_tag c))"
    "CF_TUNNEL_SECRET_MIN \<le> cr_tunnel_secret_len c" "cr_tunnel_secret_len c \<le> CF_TUNNEL_SECRET_MAX"
proof -
  obtain av sv tv sec where c: "length av = 32" "list_all (\<lambda>c. 0 \<le> hex c) av" "uuid_denotes tv (cr_tunnel_id c)"
      "cr_account_tag c = av @ [0]" "secret_denotes sv sec" "cr_tunnel_secret_len c = length sec"
      "cr_tunnel_secret c = sec @ replicate (CF_TUNNEL_SECRET_MAX - length sec) 0"
    using assms by (auto simp: token_denotes_def token_grants_def texts_grant_def)
  show "cred_sized c" using c uuid_denotes_length [OF c(3)] by (simp add: cred_sized_def secret_denotes_def)
  show "cr_account_tag c ! 32 = 0" "list_all (\<lambda>x. 0 \<le> hex x) (take 32 (cr_account_tag c))"
    using c(1,2,4) by (simp_all add: nth_append)
  show "CF_TUNNEL_SECRET_MIN \<le> cr_tunnel_secret_len c" "cr_tunnel_secret_len c \<le> CF_TUNNEL_SECRET_MAX"
    using c(5,6) by (simp_all add: secret_denotes_def)
qed

section \<open>A sample token\<close>

definition sample_account :: "u8 list" where "sample_account = str ''0123456789abcdef0123456789ABCDEF''"
definition sample_uuid :: "u8 list" where "sample_uuid = str ''00112233-4455-6677-8899-aabbccddeeff''"
definition sample_secret :: "u8 list" where "sample_secret = str ''AAAAAAAAAAAAAAAAAAAAAAAAAAAAAAAAAAAAAAAAAAA=''"

definition quoted :: "u8 list \<Rightarrow> u8 list" where
  "quoted xs = [34] @ xs @ [34]"

definition sample_json :: "u8 list" where
  "sample_json = str ''{'' @ quoted (str ''a'') @ str '':'' @ quoted sample_account @ str '','' @ quoted (str ''t'') @ str '':''
     @ quoted sample_uuid @ str '','' @ quoted (str ''s'') @ str '':'' @ quoted sample_secret @ str ''}''"

definition sample_root :: cJSON where
  "sample_root = CJ CJ_Object None None (Finite 0 1)
     [CJ CJ_String (Some (str ''a'')) (Some sample_account) (Finite 0 1) [],
      CJ CJ_String (Some (str ''t'')) (Some sample_uuid) (Finite 0 1) [],
      CJ CJ_String (Some (str ''s'')) (Some sample_secret) (Finite 0 1) []]"

text \<open>A parser that knows one text.\<close>

definition sample_parser :: cjson_parser where
  "sample_parser xs = (if xs = sample_json then (Some (sample_root, length xs), False) else (None, False))"

lemma sample_parser_strings: "parser_strings sample_parser"
  by (auto simp: parser_strings_def sample_parser_def sample_root_def split: if_splits)

lemmas sample_texts = sample_account_def sample_uuid_def sample_secret_def

lemma sample_json_lexemes: "lexemes sample_json"
proof -
  have "lexemes_loop sample_json 0 False False = Some True" by code_simp
  then show ?thesis using lexemes_loop_exact [of 0 sample_json False False] by (simp add: lexemes_from_def)
qed

lemma sample_json_length: "length sample_json = 134"
  by code_simp

lemma sample_json_accepts: "json_accepts sample_parser sample_json sample_root"
proof -
  have "nul_free sample_json" by code_simp
  then show ?thesis using sample_json_lexemes sample_json_length
    by (auto simp: json_accepts_def sample_parser_def skip_space_def)
qed

definition sample_tunnel :: "u8 list" where
  "sample_tunnel = [0x00, 0x11, 0x22, 0x33, 0x44, 0x55, 0x66, 0x77, 0x88, 0x99, 0xAA, 0xBB, 0xCC, 0xDD, 0xEE, 0xFF]"

definition sample_credentials :: cf_credentials where
  "sample_credentials = \<lparr>cr_account_tag = sample_account @ [0], cr_tunnel_id = sample_tunnel,
     cr_tunnel_secret = replicate 32 0 @ replicate 96 0, cr_tunnel_secret_len = 32\<rparr>"

lemma sample_grants: "texts_grant sample_account sample_secret sample_uuid sample_credentials"
proof -
  have u: "uuid_denotes sample_uuid sample_tunnel" by code_simp
  have b: "sample_secret = b64_text True (replicate 32 0)" by code_simp
  have a: "length sample_account = 32" "list_all (\<lambda>c. 0 \<le> hex c) sample_account" by code_simp+
  show ?thesis using u b a unfolding texts_grant_def
    by (auto simp: sample_credentials_def secret_denotes_def CF_TUNNEL_SECRET_MIN_def CF_TUNNEL_SECRET_MAX_def
        simp del: replicate.simps intro!: exI [of _ "replicate 32 0"])
qed

lemma sample_token_grants: "token_grants sample_root sample_credentials"
proof -
  have i: "item_text sample_root (str ''a'') = Some sample_account" "item_text sample_root (str ''s'') = Some sample_secret"
    "item_text sample_root (str ''t'') = Some sample_uuid" "cf_cJSON_GetObjectItemCaseSensitive (Some sample_root) (str ''e'') = None"
    "cj_type sample_root = CJ_Object"
    by (simp_all add: item_text_def cf_cJSON_GetObjectItemCaseSensitive_def sample_root_def str_def)
  have n: "item_names (cj_child sample_root) = map Some [str ''a'', str ''t'', str ''s'']" "distinct [str ''a'', str ''t'', str ''s'']"
    "set [str ''a'', str ''t'', str ''s''] \<subseteq> set token_keys"
    by (simp_all add: item_names_def sample_root_def str_def token_keys_def)
  show ?thesis unfolding token_grants_def using i n sample_grants by blast
qed

lemma sample_token: "token_denotes sample_parser (b64_text True sample_json) sample_credentials"
  unfolding token_denotes_def
  using sample_json_accepts sample_token_grants sample_json_length length_b64_text [of True sample_json]
  by (auto simp: CF_TOKEN_MAX_def CF_TOKEN_JSON_MAX_def)

section \<open>Properties\<close>

text \<open>
  C23. The token parser is exact: on every token it returns without leaving a buffer, and it accepts the token
  exactly when it has 1 to 1024 characters, is the canonical Base64 text of a JSON object with the
  permitted names and no custom endpoint, and its texts denote a nonzero UUID, a hexadecimal account tag and a secret
  of 32 to 128 bytes; the credentials it then writes are the denoted ones, and the diagnostic says
  valid exactly then.
\<close>

theorem credentials_parse_exact:
  assumes "parser_strings parser" "cap \<le> length buf" "CF_TOKEN_JSON_MAX < cap" "\<not> bytes_bad token"
  shows "\<exists>rc b c d h'. cf_credentials_parse_ex parser token (Some buf) cap (Some out) (Some d0) h = Some (rc, Some b, Some c, Some d, h')
    \<and> (rc = CF_OK \<longleftrightarrow> (\<exists>c'. token_denotes parser (bytes_list token) c'))
    \<and> (rc = CF_OK \<longrightarrow> token_denotes parser (bytes_list token) c)
    \<and> (d = CF_TOKEN_VALID \<longleftrightarrow> rc = CF_OK)"
  using parse_yields [OF assms, of out "Some d0" h] by (auto simp: yields_def split: if_splits)

theorem credentials_parse_exact_witness:
  "\<exists>b c h'. cf_credentials_parse_ex sample_parser (Bytes (b64_text True sample_json)) (Some (replicate 1024 7)) 1024
       (Some zero_credentials) (Some CF_TOKEN_MEMORY) \<lparr>json_live_bytes = 0, json_allocation_failed = True\<rparr>
     = Some (CF_OK, Some b, Some c, Some CF_TOKEN_VALID, h') \<and> cred_sized c"
proof -
  have "\<exists>c'. token_denotes sample_parser (bytes_list (Bytes (b64_text True sample_json))) c'"
    using sample_token by auto
  then show ?thesis
    using credentials_parse_exact [OF sample_parser_strings, of 1024 "replicate 1024 7" "Bytes (b64_text True sample_json)"
        zero_credentials CF_TOKEN_MEMORY "\<lparr>json_live_bytes = 0, json_allocation_failed = True\<rparr>"] token_denotes_sized(1)
    by (auto simp: CF_TOKEN_JSON_MAX_def simp del: replicate.simps)
qed

text \<open>
  The token parser leaves no secret behind: whatever the token, after the argument checks the
  scratch buffer is zero on return, and every failure, a wrong argument included, leaves
  all-zero credentials.
\<close>

theorem credentials_parse_erases:
  assumes "parser_strings parser" "cap \<le> length buf"
  shows "\<exists>rc b c d h'. cf_credentials_parse_ex parser token (Some buf) cap (Some out) diagnostic h = Some (rc, Some b, Some c, d, h')
    \<and> (rc \<noteq> CF_OK \<longrightarrow> c = zero_credentials)
    \<and> (if CF_TOKEN_JSON_MAX < cap \<and> \<not> bytes_bad token then erased cap b else rc = CF_ERR_ARGUMENT \<and> b = buf)"
proof (cases "CF_TOKEN_JSON_MAX < cap \<and> \<not> bytes_bad token")
  case True
  then show ?thesis using parse_yields [OF assms, of token out diagnostic h] by (auto simp: yields_def split: if_splits)
next
  case False
  then show ?thesis by (auto simp: cf_credentials_parse_ex_def Let_def)
qed

theorem credentials_parse_erases_witness:
  "\<exists>rc b c d h'. cf_credentials_parse_ex sample_parser (Bytes (str ''e30='')) (Some (replicate 1024 7)) 1024
       (Some sample_credentials) None \<lparr>json_live_bytes = 0, json_allocation_failed = True\<rparr>
     = Some (rc, Some b, Some c, d, h') \<and> erased 1024 b \<and> (rc \<noteq> CF_OK \<longrightarrow> c = zero_credentials)"
  using credentials_parse_erases [OF sample_parser_strings, of 1024 "replicate 1024 7" "Bytes (str ''e30='')" sample_credentials None
      "\<lparr>json_live_bytes = 0, json_allocation_failed = True\<rparr>"]
  by (auto simp: CF_TOKEN_JSON_MAX_def simp del: replicate.simps)

end
