(* ===== verification/CF_Rpc.thy ===== *)
theory CF_Rpc
  imports CF_Build CF_Credentials "HOL-Library.Sublist"
begin

text \<open>
  The registration RPC client of \<^verbatim>\<open>src/protocol/cf_rpc.c\<close>: a state machine with one
  outstanding question that builds its messages with the builder of theory \<open>CF_Build\<close> and reads the
  answers with the reader of theory \<open>CF_Capnp\<close>.
\<close>

section \<open>State and options\<close>

definition CF_RPC_TX_MAX :: nat where "CF_RPC_TX_MAX = 1024"
definition CF_REGISTRATION_INTERFACE :: u64 where "CF_REGISTRATION_INTERFACE = 0xf71695ec7fe85497"
definition CF_RPC_REMOTE_CONFIG :: u32 where "CF_RPC_REMOTE_CONFIG = 1"
definition CF_RPC_SERIALIZED_HEADERS :: u32 where "CF_RPC_SERIALIZED_HEADERS = 2"

datatype cf_rpc_state =
    CF_RPC_IDLE | CF_RPC_BOOTSTRAPPING | CF_RPC_READY | CF_RPC_REGISTERING | CF_RPC_REGISTERED
  | CF_RPC_UNREGISTERING | CF_RPC_CLOSED | CF_RPC_REJECTED | CF_RPC_FAILED

record cf_rpc_options =
  op_connector_id :: mem
  op_local_ip :: cf_bytes
  op_version :: cf_bytes
  op_arch :: cf_bytes
  op_connection_index :: u8
  op_previous_attempts :: u8
  op_replace_existing :: bool
  op_features :: u32

record cf_rpc =
  rpc_state :: cf_rpc_state
  rpc_capability :: u32
  rpc_have_capability :: bool
  rpc_remotely_managed :: bool
  rpc_should_retry :: bool
  rpc_retry_after_ms :: u64
  rpc_connection_id :: mem
  rpc_location :: mem
  rpc_error :: cf_result

definition zero_rpc :: cf_rpc where
  "zero_rpc = \<lparr>rpc_state = CF_RPC_IDLE, rpc_capability = 0, rpc_have_capability = False, rpc_remotely_managed = False,
     rpc_should_retry = False, rpc_retry_after_ms = 0, rpc_connection_id = replicate 16 0, rpc_location = replicate 32 0,
     rpc_error = CF_OK\<rparr>"

text \<open>The uninitialised builder and reader on the C stack, which their init functions overwrite.\<close>

definition blank_builder :: cf_cp_builder where
  "blank_builder = \<lparr>bl_buffer = None, bl_capacity = 0, bl_words = 0, bl_error = CF_OK\<rparr>"

definition blank_reader :: cf_cp_reader where
  "blank_reader = \<lparr>rd_segments = [], rd_segment_count = 0, rd_budget = 0, rd_error = CF_OK\<rparr>"

text \<open>The output array after a builder has worked on it.\<close>

definition built :: "cf_cp_builder \<Rightarrow> mem \<Rightarrow> mem" where
  "built b out = (case bl_buffer b of None \<Rightarrow> out | Some m \<Rightarrow> m)"

section \<open>Messages\<close>

definition message :: "cf_cp_builder \<Rightarrow> u16 \<Rightarrow> u16 \<Rightarrow> u16 \<Rightarrow> (u32 \<times> cf_cp_builder) option" where
  "message b kind dw pc = do {
     (root, b) \<leftarrow> cf_cp_struct b 0 1 1;
     b \<leftarrow> cf_cp_set_uint b root 0 2 (ucast kind);
     cf_cp_struct b (root + 1) dw pc
   }"

definition output_ok :: "cf_rpc option \<Rightarrow> mem option \<Rightarrow> nat \<Rightarrow> nat option \<Rightarrow> bool \<times> nat option" where
  "output_ok r out cap n = (let n = map_option (\<lambda>_. 0) n in
     (r \<noteq> None \<and> out \<noteq> None \<and> n \<noteq> None \<and> cap \<ge> CF_RPC_TX_MAX, n))"

definition ascii :: "cf_bytes \<Rightarrow> nat \<Rightarrow> bool" where
  "ascii b mx =
     (if bytes_null b \<or> bytes_len b = 0 \<or> bytes_len b > mx then False
      else \<not> list_ex (\<lambda>c. c < 32 \<or> c > 126) (bytes_list b))"

text \<open>A message is begun on an output array and ended with the bytes and the count written.\<close>

definition open_message :: "mem \<Rightarrow> nat \<Rightarrow> cf_cp_builder option" where
  "open_message out cap = do {
     (_, b) \<leftarrow> cf_cp_build_init (Some blank_builder) (Some out) cap;
     b
   }"

definition close_message :: "cf_cp_builder \<Rightarrow> mem \<Rightarrow> nat \<Rightarrow> (cf_result \<times> mem \<times> nat) option" where
  "close_message b out n = do {
     (rc, b, n) \<leftarrow> cf_cp_build_end (Some b) (Some n);
     b \<leftarrow> b;
     n \<leftarrow> n;
     Some (rc, built b out, n)
   }"

definition finish :: "u32 \<Rightarrow> bool \<Rightarrow> mem \<Rightarrow> nat \<Rightarrow> nat \<Rightarrow> (cf_result \<times> mem \<times> nat) option" where
  "finish qid release out cap n = do {
     b \<leftarrow> open_message out cap;
     (s, b) \<leftarrow> message b 4 1 0;
     b \<leftarrow> cf_cp_set_uint b s 0 4 (ucast qid);
     b \<leftarrow> cf_cp_set_uint b s 4 1 (if release then 0 else 1);
     close_message b out n
   }"

definition release_cap :: "cf_rpc \<Rightarrow> mem \<Rightarrow> nat \<Rightarrow> nat \<Rightarrow> (cf_result \<times> mem \<times> nat) option" where
  "release_cap r out cap n = do {
     b \<leftarrow> open_message out cap;
     (s, b) \<leftarrow> message b 6 1 0;
     b \<leftarrow> cf_cp_set_uint b s 0 4 (ucast (rpc_capability r));
     b \<leftarrow> cf_cp_set_uint b s 4 4 1;
     close_message b out n
   }"

definition fail_reason :: "u8 list" where
  "fail_reason = str ''Unsupported or invalid registration RPC''"

definition fail :: "cf_rpc \<Rightarrow> cf_result \<Rightarrow> bool \<Rightarrow> mem \<Rightarrow> (cf_result \<times> cf_rpc \<times> mem \<times> nat) option" where
  "fail r error abort_peer out = (let r = r\<lparr>rpc_error := error, rpc_state := CF_RPC_FAILED\<rparr> in
     if abort_peer then do {
       b \<leftarrow> open_message out CF_RPC_TX_MAX;
       (s, b) \<leftarrow> message b 1 1 1;
       b \<leftarrow> cf_cp_blob b (s + 1) (Bytes fail_reason) True;
       (_, out, n) \<leftarrow> close_message b out 0;
       Some (error, r, out, n)
     }
     else Some (error, r, out, 0))"

definition cf_rpc_init :: "cf_rpc option \<Rightarrow> cf_rpc option" where
  "cf_rpc_init r = map_option (\<lambda>_. zero_rpc) r"

definition cf_rpc_reset :: "cf_rpc option \<Rightarrow> cf_rpc option" where
  "cf_rpc_reset r = map_option (\<lambda>_. zero_rpc) r"

type_synonym rpc_result = "(cf_result \<times> cf_rpc option \<times> mem option \<times> nat option) option"

text \<open>Results of a function that has passed its argument check are written back to the caller's objects.\<close>

definition rpc_return :: "cf_result \<Rightarrow> cf_rpc \<Rightarrow> mem \<Rightarrow> nat \<Rightarrow> rpc_result" where
  "rpc_return rc r out n = Some (rc, Some r, Some out, Some n)"

definition cf_rpc_begin :: "cf_rpc option \<Rightarrow> mem option \<Rightarrow> nat \<Rightarrow> nat option \<Rightarrow> rpc_result" where
  "cf_rpc_begin rp outp cap np = (let (ok, np) = output_ok rp outp cap np in
     if \<not> ok then Some (CF_ERR_ARGUMENT, rp, outp, np)
     else do {
       r \<leftarrow> rp;
       out \<leftarrow> outp;
       n \<leftarrow> np;
       if rpc_state r \<noteq> CF_RPC_IDLE then rpc_return CF_ERR_STATE r out n
       else do {
         b \<leftarrow> open_message out CF_RPC_TX_MAX;
         (_, b) \<leftarrow> message b 8 1 1;
         (rc, out, n) \<leftarrow> close_message b out n;
         rpc_return rc (if rc = CF_OK then r\<lparr>rpc_state := CF_RPC_BOOTSTRAPPING\<rparr> else r) out n
       }
     })"

definition call :: "cf_cp_builder \<Rightarrow> u32 \<Rightarrow> u32 \<Rightarrow> u16 \<Rightarrow> (u32 \<times> cf_cp_builder) option" where
  "call b cap question method = do {
     (c, b) \<leftarrow> message b 2 3 3;
     b \<leftarrow> cf_cp_set_uint b c 0 4 (ucast question);
     b \<leftarrow> cf_cp_set_uint b c 4 2 (ucast method);
     b \<leftarrow> cf_cp_set_uint b c 8 8 CF_REGISTRATION_INTERFACE;
     (target, b) \<leftarrow> cf_cp_struct b (c + 3) 1 1;
     b \<leftarrow> cf_cp_set_uint b target 0 4 (ucast cap);
     cf_cp_struct b (c + 4) 0 2
   }"

definition hex_char :: "u8 \<Rightarrow> bool" where
  "hex_char c \<longleftrightarrow> (c \<ge> ch CHR ''0'' \<and> c \<le> ch CHR ''9'') \<or> (c \<ge> ch CHR ''a'' \<and> c \<le> ch CHR ''f'') \<or> (c \<ge> ch CHR ''A'' \<and> c \<le> ch CHR ''F'')"

text \<open>The argument checks of \<open>cf_rpc_register\<close>.\<close>

definition register_args :: "cf_credentials \<Rightarrow> cf_rpc_options \<Rightarrow> bool option" where
  "register_args cred opt = do {
     nul \<leftarrow> load (cr_account_tag cred) 32;
     if \<not> ascii (op_version opt) 63 \<or> \<not> ascii (op_arch opt) 63 \<or> bytes_null (op_local_ip opt)
        \<or> (bytes_len (op_local_ip opt) \<noteq> 4 \<and> bytes_len (op_local_ip opt) \<noteq> 16) \<or> nul \<noteq> 0
        \<or> cr_tunnel_secret_len cred < CF_TUNNEL_SECRET_MIN \<or> cr_tunnel_secret_len cred > CF_TUNNEL_SECRET_MAX
        \<or> op_features opt AND NOT (CF_RPC_REMOTE_CONFIG OR CF_RPC_SERIALIZED_HEADERS) \<noteq> 0
     then Some False
     else do {
       tag \<leftarrow> load_n (cr_account_tag cred) 0 32;
       Some (list_all hex_char tag)
     }
   }"

text \<open>The feature list of the client struct.\<close>

definition register_features :: "cf_cp_builder \<Rightarrow> u32 \<Rightarrow> u32 \<Rightarrow> cf_cp_builder option" where
  "register_features b client features =
     (if features \<noteq> 0 then do {
        let remote = (features AND CF_RPC_REMOTE_CONFIG \<noteq> 0);
        let serialized = (features AND CF_RPC_SERIALIZED_HEADERS \<noteq> 0);
        (lst, b) \<leftarrow> cf_cp_pointer_list b (client + 1) ((if remote then 1 else 0) + (if serialized then 1 else 0));
        (lst, b) \<leftarrow> (if remote then map_option (\<lambda>b. (lst + 1, b)) (cf_cp_blob b lst (Bytes (str ''allow_remote_config'')) True)
                    else Some (lst, b));
        (if serialized then cf_cp_blob b lst (Bytes (str ''serialized_headers'')) True else Some b)
      }
      else Some b)"

definition register_message :: "cf_cp_builder \<Rightarrow> cf_rpc \<Rightarrow> cf_credentials \<Rightarrow> cf_rpc_options \<Rightarrow> cf_cp_builder option" where
  "register_message b r cred opt = do {
     (payload, b) \<leftarrow> call b (rpc_capability r) 1 0;
     (params, b) \<leftarrow> cf_cp_struct b payload 1 3;
     b \<leftarrow> cf_cp_set_uint b params 0 1 (ucast (op_connection_index opt));
     (auth, b) \<leftarrow> cf_cp_struct b (params + 1) 0 2;
     tag \<leftarrow> load_n (cr_account_tag cred) 0 32;
     b \<leftarrow> cf_cp_blob b auth (Bytes tag) True;
     secret \<leftarrow> load_n (cr_tunnel_secret cred) 0 (cr_tunnel_secret_len cred);
     b \<leftarrow> cf_cp_blob b (auth + 1) (Bytes secret) False;
     tunnel \<leftarrow> load_n (cr_tunnel_id cred) 0 16;
     b \<leftarrow> cf_cp_blob b (params + 2) (Bytes tunnel) False;
     (options, b) \<leftarrow> cf_cp_struct b (params + 3) 1 2;
     b \<leftarrow> cf_cp_set_uint b options 0 1 (if op_replace_existing opt then 1 else 0);
     b \<leftarrow> cf_cp_set_uint b options 2 1 (ucast (op_previous_attempts opt));
     (client, b) \<leftarrow> cf_cp_struct b (options + 1) 0 4;
     connector \<leftarrow> load_n (op_connector_id opt) 0 16;
     b \<leftarrow> cf_cp_blob b client (Bytes connector) False;
     b \<leftarrow> register_features b client (op_features opt);
     b \<leftarrow> cf_cp_blob b (client + 2) (op_version opt) True;
     b \<leftarrow> cf_cp_blob b (client + 3) (op_arch opt) True;
     cf_cp_blob b (options + 2) (op_local_ip opt) False
   }"

definition cf_rpc_register :: "cf_rpc option \<Rightarrow> cf_credentials option \<Rightarrow> cf_rpc_options option \<Rightarrow> mem option \<Rightarrow> nat
    \<Rightarrow> nat option \<Rightarrow> rpc_result" where
  "cf_rpc_register rp credp optp outp cap np = (let (ok, np) = output_ok rp outp cap np in
     if \<not> ok \<or> credp = None \<or> optp = None then Some (CF_ERR_ARGUMENT, rp, outp, np)
     else do {
       r \<leftarrow> rp;
       cred \<leftarrow> credp;
       opt \<leftarrow> optp;
       out \<leftarrow> outp;
       n \<leftarrow> np;
       if rpc_state r \<noteq> CF_RPC_READY \<or> \<not> rpc_have_capability r then rpc_return CF_ERR_STATE r out n
       else do {
         valid \<leftarrow> register_args cred opt;
         if \<not> valid then rpc_return CF_ERR_ARGUMENT r out n
         else do {
           b \<leftarrow> open_message out CF_RPC_TX_MAX;
           b \<leftarrow> register_message b r cred opt;
           (rc, out, n) \<leftarrow> close_message b out n;
           if rc = CF_OK then rpc_return rc (r\<lparr>rpc_state := CF_RPC_REGISTERING\<rparr>) out n
           else do {
             p \<leftarrow> cf_secure_zero (Some (out, 0)) CF_RPC_TX_MAX;
             (out, _) \<leftarrow> p;
             rpc_return rc r out n
           }
         }
       }
     })"

definition cf_rpc_unregister :: "cf_rpc option \<Rightarrow> mem option \<Rightarrow> nat \<Rightarrow> nat option \<Rightarrow> rpc_result" where
  "cf_rpc_unregister rp outp cap np = (let (ok, np) = output_ok rp outp cap np in
     if \<not> ok then Some (CF_ERR_ARGUMENT, rp, outp, np)
     else do {
       r \<leftarrow> rp;
       out \<leftarrow> outp;
       n \<leftarrow> np;
       if rpc_state r \<noteq> CF_RPC_REGISTERED \<or> \<not> rpc_have_capability r then rpc_return CF_ERR_STATE r out n
       else do {
         b \<leftarrow> open_message out CF_RPC_TX_MAX;
         (payload, b) \<leftarrow> call b (rpc_capability r) 2 1;
         (_, b) \<leftarrow> cf_cp_struct b payload 0 0;
         (rc, out, n) \<leftarrow> close_message b out n;
         rpc_return rc (if rc = CF_OK then r\<lparr>rpc_state := CF_RPC_UNREGISTERING\<rparr> else r) out n
       }
     })"

section \<open>Answers\<close>

definition required_struct :: "cf_cp_reader \<Rightarrow> cf_cp_value \<Rightarrow> cf_cp_value \<times> cf_cp_reader" where
  "required_struct rd v = (v, if cv_kind v \<noteq> CF_CP_STRUCT \<and> rd_error rd = CF_OK then rd\<lparr>rd_error := CF_ERR_FORMAT\<rparr> else rd)"

text \<open>\<open>required_struct(rd, cf_cp_field(rd, v, i))\<close>.\<close>

definition struct_field :: "cf_cp_reader \<Rightarrow> cf_cp_value \<Rightarrow> u16 \<Rightarrow> (cf_cp_value \<times> cf_cp_reader) option" where
  "struct_field rd v i = do {
     (v, rd) \<leftarrow> cf_cp_field rd v i;
     Some (required_struct rd v)
   }"

text \<open>\<open>cf_cp_data(rd, cf_cp_field(rd, v, i), text)\<close>.\<close>

definition data_field :: "cf_cp_reader \<Rightarrow> cf_cp_value \<Rightarrow> u16 \<Rightarrow> bool \<Rightarrow> (cf_bytes \<times> cf_cp_reader) option" where
  "data_field rd v i is_text = do {
     (f, rd) \<leftarrow> cf_cp_field rd v i;
     cf_cp_data rd f is_text
   }"

definition bootstrap_result :: "cf_rpc \<Rightarrow> cf_cp_reader \<Rightarrow> cf_cp_value \<Rightarrow> ((cf_result \<times> cf_rpc) \<times> cf_cp_reader) option" where
  "bootstrap_result r rd payload = do {
     (content, rd) \<leftarrow> cf_cp_field rd payload 0;
     (caps, rd) \<leftarrow> cf_cp_field rd payload 1;
     if cv_kind content \<noteq> CF_CP_CAP \<or> cv_kind caps \<noteq> CF_CP_LIST \<or> cv_element_size caps \<noteq> 7
        \<or> cv_count caps \<noteq> 1 \<or> cv_cap content \<noteq> 0
     then Some ((CF_ERR_UNSUPPORTED, r), rd)
     else do {
       (desc, rd) \<leftarrow> cf_cp_at rd caps 0;
       (kind, rd) \<leftarrow> cf_cp_uint rd desc 0 2;
       if kind \<noteq> 1 then Some ((CF_ERR_UNSUPPORTED, r), rd)
       else do {
         (c, rd) \<leftarrow> cf_cp_uint rd desc 4 4;
         let r = r\<lparr>rpc_capability := ucast c\<rparr>;
         if rd_error rd \<noteq> CF_OK then Some ((rd_error rd, r), rd)
         else Some ((CF_OK, r\<lparr>rpc_have_capability := True, rpc_state := CF_RPC_READY\<rparr>), rd)
       }
     }
   }"

definition retry_ms :: "u64 \<Rightarrow> u64" where
  "retry_ms ns = (if drop_bit 63 ns \<noteq> 0 then 0 else ns div 1000000 + (if ns mod 1000000 \<noteq> 0 then 1 else 0))"

definition registration_refused :: "cf_rpc \<Rightarrow> cf_cp_reader \<Rightarrow> cf_cp_value \<Rightarrow> ((cf_result \<times> cf_rpc) \<times> cf_cp_reader) option" where
  "registration_refused r rd details = do {
     (ns, rd) \<leftarrow> cf_cp_uint rd details 0 8;
     (_, rd) \<leftarrow> data_field rd details 0 True;
     (again, rd) \<leftarrow> cf_cp_uint rd details 8 1;
     let r = r\<lparr>rpc_should_retry := (again AND 1 \<noteq> 0), rpc_retry_after_ms := retry_ms ns\<rparr>;
     if rd_error rd \<noteq> CF_OK then Some ((rd_error rd, r), rd)
     else Some ((CF_OK, r\<lparr>rpc_state := CF_RPC_REJECTED\<rparr>), rd)
   }"

definition registration_accepted :: "cf_rpc \<Rightarrow> cf_cp_reader \<Rightarrow> cf_cp_value \<Rightarrow> ((cf_result \<times> cf_rpc) \<times> cf_cp_reader) option" where
  "registration_accepted r rd details = do {
     (ident, rd) \<leftarrow> data_field rd details 0 False;
     (location, rd) \<leftarrow> data_field rd details 1 True;
     (managed, rd) \<leftarrow> cf_cp_uint rd details 0 1;
     let r = r\<lparr>rpc_remotely_managed := (managed AND 1 \<noteq> 0)\<rparr>;
     if rd_error rd \<noteq> CF_OK then Some ((rd_error rd, r), rd)
     else if bytes_len ident \<noteq> 16 \<or> \<not> ascii location (32 - 1) then Some ((CF_ERR_FORMAT, r), rd)
     else if \<not> rpc_remotely_managed r then Some ((CF_ERR_UNSUPPORTED, r), rd)
     else do {
       bytes \<leftarrow> load_n (bytes_list ident) 0 16;
       cid \<leftarrow> store_n (rpc_connection_id r) 0 bytes;
       loc \<leftarrow> store_n (rpc_location r) 0 (bytes_list location);
       loc \<leftarrow> store loc (bytes_len location) 0;
       Some ((CF_OK, r\<lparr>rpc_connection_id := cid, rpc_location := loc, rpc_state := CF_RPC_REGISTERED\<rparr>), rd)
     }
   }"

definition registration_result :: "cf_rpc \<Rightarrow> cf_cp_reader \<Rightarrow> cf_cp_value \<Rightarrow> ((cf_result \<times> cf_rpc) \<times> cf_cp_reader) option" where
  "registration_result r rd payload = do {
     (results, rd) \<leftarrow> struct_field rd payload 0;
     (response, rd) \<leftarrow> struct_field rd results 0;
     (kind, rd) \<leftarrow> cf_cp_uint rd response 0 2;
     (details, rd) \<leftarrow> struct_field rd response 0;
     if rd_error rd \<noteq> CF_OK then Some ((rd_error rd, r), rd)
     else if kind = 0 then registration_refused r rd details
     else if kind \<noteq> 1 then Some ((CF_ERR_UNSUPPORTED, r), rd)
     else registration_accepted r rd details
   }"

text \<open>The results of an answered call that is not the bootstrap.\<close>

definition call_result :: "cf_rpc \<Rightarrow> u32 \<Rightarrow> cf_cp_reader \<Rightarrow> cf_cp_value \<Rightarrow> ((cf_result \<times> cf_rpc) \<times> cf_cp_reader) option" where
  "call_result r expected rd payload = do {
     (caps, rd) \<leftarrow> cf_cp_field rd payload 1;
     if cv_kind caps \<noteq> CF_CP_NULL \<and> (cv_kind caps \<noteq> CF_CP_LIST \<or> cv_element_size caps \<noteq> 7 \<or> cv_count caps \<noteq> 0)
     then Some ((CF_ERR_UNSUPPORTED, r), rd)
     else if expected = 1 then registration_result r rd payload
     else do {
       (content, rd) \<leftarrow> cf_cp_field rd payload 0;
       Some ((if cv_kind content = CF_CP_NULL \<or> cv_kind content = CF_CP_STRUCT then CF_OK else CF_ERR_FORMAT,
              r\<lparr>rpc_state := CF_RPC_CLOSED\<rparr>), rd)
     }
   }"

text \<open>
  The last part of \<open>cf_rpc_receive\<close>: finish the answered question and, after an unregistration,
  release the capability behind the finish message.
\<close>

definition receive_end :: "cf_rpc \<Rightarrow> u32 \<Rightarrow> bool \<Rightarrow> mem \<Rightarrow> nat \<Rightarrow> rpc_result" where
  "receive_end r answer boot out n = do {
     (rc, out, n) \<leftarrow> finish answer (\<not> boot) out CF_RPC_TX_MAX n;
     if rc = CF_OK \<and> rpc_state r = CF_RPC_CLOSED then do {
       tail \<leftarrow> load_n out n (length out - n);
       (rc, tail, extra) \<leftarrow> release_cap r tail (size_sub CF_RPC_TX_MAX n) 0;
       rpc_return rc (r\<lparr>rpc_have_capability := False\<rparr>) (take n out @ tail) (n + extra)
     }
     else rpc_return rc r out n
   }"

definition receive_fail :: "cf_rpc \<Rightarrow> cf_result \<Rightarrow> bool \<Rightarrow> mem \<Rightarrow> rpc_result" where
  "receive_fail r error abort_peer out = do {
     (rc, r, out, n) \<leftarrow> fail r error abort_peer out;
     rpc_return rc r out n
   }"

text \<open>The answer to the outstanding question, of which the message kind has been checked.\<close>

definition receive_return :: "cf_rpc \<Rightarrow> cf_cp_reader \<Rightarrow> cf_cp_value \<Rightarrow> mem \<Rightarrow> nat \<Rightarrow> rpc_result" where
  "receive_return r rd ret out n = do {
     let boot = (rpc_state r = CF_RPC_BOOTSTRAPPING);
     if \<not> boot \<and> rpc_state r \<noteq> CF_RPC_REGISTERING \<and> rpc_state r \<noteq> CF_RPC_UNREGISTERING
     then receive_fail r CF_ERR_STATE True out
     else do {
       let expected = (if boot then 0 else if rpc_state r = CF_RPC_REGISTERING then 1 else 2);
       (a, rd) \<leftarrow> cf_cp_uint rd ret 0 4;
       let answer = (ucast a :: u32);
       (result_kind, rd) \<leftarrow> cf_cp_uint rd ret 6 2;
       if rd_error rd \<noteq> CF_OK then receive_fail r (rd_error rd) True out
       else if answer \<noteq> expected then receive_fail r CF_ERR_STATE True out
       else if result_kind = 1 then do {
         (ex, rd) \<leftarrow> struct_field rd ret 0;
         (_, rd) \<leftarrow> data_field rd ex 0 True;
         (_, out, n) \<leftarrow> finish answer True out CF_RPC_TX_MAX n;
         let e = (if rd_error rd = CF_OK then CF_ERR_STATE else rd_error rd);
         rpc_return e (r\<lparr>rpc_state := CF_RPC_FAILED, rpc_error := e\<rparr>) out n
       }
       else if result_kind \<noteq> 0 then receive_fail r CF_ERR_UNSUPPORTED True out
       else do {
         (payload, rd) \<leftarrow> struct_field rd ret 0;
         ((rc, r), rd) \<leftarrow> (if boot then bootstrap_result r rd payload else call_result r expected rd payload);
         let rc = (if rd_error rd \<noteq> CF_OK then rd_error rd else rc);
         if rc \<noteq> CF_OK then receive_fail r rc True out
         else receive_end r answer boot out n
       }
     }
   }"

definition receive_message :: "cf_rpc \<Rightarrow> cf_cp_reader \<Rightarrow> mem \<Rightarrow> nat \<Rightarrow> rpc_result" where
  "receive_message r rd out n = do {
     (root, rd) \<leftarrow> cf_cp_root rd;
     let (root, rd) = required_struct rd root;
     (kind, rd) \<leftarrow> cf_cp_uint rd root 0 2;
     (ret, rd) \<leftarrow> struct_field rd root 0;
     if rd_error rd \<noteq> CF_OK then receive_fail r (rd_error rd) True out
     else if kind = 1 then do {
       (_, rd) \<leftarrow> data_field rd ret 0 True;
       receive_fail r (if rd_error rd = CF_OK then CF_ERR_STATE else rd_error rd) False out
     }
     else if kind \<noteq> 3 then receive_fail r CF_ERR_UNSUPPORTED True out
     else receive_return r rd ret out n
   }"

definition cf_rpc_receive :: "cf_rpc option \<Rightarrow> cf_bytes \<Rightarrow> mem option \<Rightarrow> nat \<Rightarrow> nat option \<Rightarrow> rpc_result" where
  "cf_rpc_receive rp frame outp cap np = (let (ok, np) = output_ok rp outp cap np in
     if \<not> ok then Some (CF_ERR_ARGUMENT, rp, outp, np)
     else do {
       r \<leftarrow> rp;
       out \<leftarrow> outp;
       n \<leftarrow> np;
       if rpc_state r = CF_RPC_IDLE \<or> rpc_state r = CF_RPC_FAILED \<or> rpc_state r = CF_RPC_CLOSED \<or> rpc_state r = CF_RPC_REJECTED
       then rpc_return CF_ERR_STATE r out n
       else do {
         (rc, rd) \<leftarrow> cf_cp_read_init (Some blank_reader) frame;
         rd \<leftarrow> rd;
         if rc \<noteq> CF_OK then receive_fail r rc True out
         else receive_message r rd out n
       }
     })"

section \<open>Total correctness of builder and reader code\<close>

text \<open>Rules for the builder calls: each consumes the view of the builder and gives the next one.\<close>

lemma unat_at: "bl_at b rest cap n \<Longrightarrow> unat (word_of_nat n :: u32) = n"
  using unat_of_nat_u32 [of n] u32_less [of "bl_words b"] by (auto simp: bl_at_def)

lemma bl_at_bound: "bl_at b rest cap n \<Longrightarrow> n \<le> 2047"
  by (auto elim: bl_at_rep)

lemma yields_struct_end:
  assumes "bl_at b rest cap n" "unat slot < n" "8 + 8 * (n + unat dw + unat pc) \<le> cap"
    and "\<And>at b'. unat at = n \<Longrightarrow> n \<le> 2047 \<Longrightarrow> bl_at b' rest cap (n + unat dw + unat pc) \<Longrightarrow> Q (at, b')"
  shows "yields (cf_cp_struct b slot dw pc) Q"
  using struct_at [OF assms(1-3)] assms(4) unat_at [OF assms(1)] bl_at_bound [OF assms(1)] by (auto simp: yields_def)

lemma yields_struct:
  assumes "bl_at b rest cap n" "unat slot < n" "8 + 8 * (n + unat dw + unat pc) \<le> cap"
    and "\<And>at b'. unat at = n \<Longrightarrow> n \<le> 2047 \<Longrightarrow> bl_at b' rest cap (n + unat dw + unat pc) \<Longrightarrow> yields (f (at, b')) Q"
  shows "yields (cf_cp_struct b slot dw pc \<bind> f) Q"
  by (rule yields_bind [OF yields_struct_end [OF assms(1-3)]]) (use assms(4) in auto)

lemma yields_list:
  assumes "bl_at b rest cap n" "unat slot < n" "8 + 8 * (n + unat k) \<le> cap"
    and "\<And>at b'. unat at = n \<Longrightarrow> n \<le> 2047 \<Longrightarrow> bl_at b' rest cap (n + unat k) \<Longrightarrow> yields (f (at, b')) Q"
  shows "yields (cf_cp_pointer_list b slot k \<bind> f) Q"
  using pointer_list_at [OF assms(1-3)] assms(4) unat_at [OF assms(1)] bl_at_bound [OF assms(1)] by (auto simp: yields_def)

lemma yields_uint:
  assumes "bl_at b rest cap n" "width \<in> {1, 2, 4, 8}" "8 * unat object + unat byte + unat width \<le> 8 * n"
    and "\<And>b'. bl_at b' rest cap n \<Longrightarrow> yields (f b') Q"
  shows "yields (cf_cp_set_uint b object byte width v \<bind> f) Q"
  using set_uint_at [OF assms(1-3), of v] assms(4) by (auto simp: yields_def)

lemma yields_blob_end:
  assumes "bl_at b rest cap n" "unat slot < n" "\<not> bytes_bad val" "bytes_len val \<le> 16383" "8 + 8 * (n + blob_words val t) \<le> cap"
    and "\<And>b'. bl_at b' rest cap (n + blob_words val t) \<Longrightarrow> Q b'"
  shows "yields (cf_cp_blob b slot val t) Q"
  using blob_at [OF assms(1-5)] assms(6) by (auto simp: yields_def)

lemma yields_blob:
  assumes "bl_at b rest cap n" "unat slot < n" "\<not> bytes_bad val" "bytes_len val \<le> 16383" "8 + 8 * (n + blob_words val t) \<le> cap"
    and "\<And>b'. bl_at b' rest cap (n + blob_words val t) \<Longrightarrow> yields (f b') Q"
  shows "yields (cf_cp_blob b slot val t \<bind> f) Q"
  by (rule yields_bind [OF yields_blob_end [OF assms(1-5)]]) (use assms(6) in auto)

lemma message_at:
  assumes "bl_at b rest cap 1" "32 + 8 * (unat dw + unat pc) \<le> cap"
  shows "yields (message b kind dw pc) (\<lambda>(s, b'). s = 3 \<and> bl_at b' rest cap (3 + unat dw + unat pc))"
  unfolding message_def
  using assms
  apply -
  apply (erule yields_struct, simp, simp)
  apply (simp only: prod.case)
  apply (erule yields_uint, simp, simp)
  apply (erule yields_struct_end)
  apply (simp add: unat_word_ariths)
  apply (simp)
  apply (simp only: prod.case, intro conjI)
   apply (simp add: word_unat_eq_iff)
  apply (simp add: numeral_3_eq_3)
  done


text \<open>One well-formed frame of \<open>n\<close> bytes was put at the front of the output; nothing behind \<open>cap\<close> changed.\<close>

definition out_frame :: "nat \<Rightarrow> mem \<Rightarrow> mem \<Rightarrow> nat \<Rightarrow> bool" where
  "out_frame cap out out' n \<longleftrightarrow> n \<le> cap \<and> length out' = length out \<and> drop cap out' = drop cap out
     \<and> frame_ok CF_CAPNP_MESSAGE_MAX (take n out')"

lemma open_at:
  assumes "16 \<le> cap" "cap \<le> CF_CAPNP_MESSAGE_MAX" "cap \<le> length out"
  shows "yields (open_message out cap) (\<lambda>b. bl_at b (drop cap out) cap 1)"
  using build_init [OF assms, of blank_builder] by (auto simp: open_message_def yields_def bl_at_def)

lemma close_at:
  assumes "bl_at b (drop cap out) cap k" "cap \<le> length out"
  shows "yields (close_message b out n0) (\<lambda>(rc, out', n). rc = CF_OK \<and> n = 8 + 8 * k \<and> out_frame cap out out' n)"
proof -
  obtain s where s: "bl_rep b (drop cap out) s" "bl_capacity b = cap" "unat (bl_words b) = k" "length s = 8 * k"
    using bl_at_rep [OF assms(1)] by metis
  obtain m where m: "bl_buffer b = Some m" "cap \<le> length m" "drop cap m = drop cap out"
    using s(1,2) by (auto simp: bl_rep_def)
  have len: "length m = length out" using arg_cong [OF m(3), of length] m(2) assms(2) by (simp add: le_diff_iff')
  have "length (frame_of s) = 8 + 8 * k" using s(4) by (simp add: frame_of_def)
  then obtain b' m' where "cf_cp_build_end (Some b) (Some n0) = Some (CF_OK, Some b', Some (8 + 8 * k))" "bl_buffer b' = Some m'"
      "take (8 + 8 * k) m' = frame_of s" "drop cap m' = drop cap out" "length m' = length m" "8 + 8 * k \<le> cap"
      "frame_ok CF_CAPNP_MESSAGE_MAX (frame_of s)"
    using build_end [OF s(1), of n0] s(2) m(1) by auto
  then show ?thesis using len by (auto simp: close_message_def yields_def built_def out_frame_def)
qed

lemma yields_open:
  assumes "16 \<le> cap" "cap \<le> CF_CAPNP_MESSAGE_MAX" "cap \<le> length out" "\<And>b. bl_at b (drop cap out) cap 1 \<Longrightarrow> yields (f b) Q"
  shows "yields (open_message out cap \<bind> f) Q"
  by (rule yields_bind [OF open_at [OF assms(1-3)]]) (rule assms(4))

lemma yields_close:
  assumes "bl_at b (drop cap out) cap k" "cap \<le> length out"
    and "\<And>out' n. n = 8 + 8 * k \<Longrightarrow> out_frame cap out out' n \<Longrightarrow> yields (f (CF_OK, out', n)) Q"
  shows "yields (close_message b out n0 \<bind> f) Q"
  by (rule yields_bind [OF close_at [OF assms(1,2)]]) (use assms(3) in auto)

text \<open>The outcome of a call whose arguments are not NULL.\<close>

definition rpc_gives :: "(cf_result \<Rightarrow> cf_rpc \<Rightarrow> mem \<Rightarrow> nat \<Rightarrow> bool) \<Rightarrow> cf_result \<times> cf_rpc option \<times> mem option \<times> nat option \<Rightarrow> bool" where
  "rpc_gives P x \<longleftrightarrow> (\<exists>rc r out n. x = (rc, Some r, Some out, Some n) \<and> P rc r out n)"

lemma yields_return: "P rc r out n \<Longrightarrow> yields (rpc_return rc r out n) (rpc_gives P)"
  by (simp add: yields_def rpc_return_def rpc_gives_def)

lemma rpc_gives_mono: "rpc_gives P x \<Longrightarrow> (\<And>rc r out n. P rc r out n \<Longrightarrow> Q rc r out n) \<Longrightarrow> rpc_gives Q x"
  by (auto simp: rpc_gives_def)

lemma yields_message:
  assumes "bl_at b rest cap 1" "32 + 8 * (unat dw + unat pc) \<le> cap"
    and "\<And>b'. bl_at b' rest cap (3 + unat dw + unat pc) \<Longrightarrow> yields (f (3, b')) Q"
  shows "yields (message b kind dw pc \<bind> f) Q"
  by (rule yields_bind [OF message_at [OF assms(1,2)]]) (use assms(3) in auto)

text \<open>The messages that do not depend on the peer's or the application's data have fixed sizes.\<close>

lemma finish_yields:
  assumes "48 \<le> cap" "cap \<le> CF_CAPNP_MESSAGE_MAX" "cap \<le> length out"
  shows "yields (finish qid release out cap n0) (\<lambda>(rc, out', n). rc = CF_OK \<and> n = 40 \<and> out_frame cap out out' n)"
  unfolding finish_def
  apply (rule yields_open)
  using assms apply (simp, simp, simp)
  apply (erule yields_message)
  using assms apply simp
  apply (simp only: prod.case)
  apply (erule yields_uint, simp, simp)
  apply (erule yields_uint, simp, simp)
  apply (drule close_at [OF _ assms(3), of _ _ n0])
  apply simp
  done

lemma release_yields:
  assumes "48 \<le> cap" "cap \<le> CF_CAPNP_MESSAGE_MAX" "cap \<le> length out"
  shows "yields (release_cap r out cap n0) (\<lambda>(rc, out', n). rc = CF_OK \<and> n = 40 \<and> out_frame cap out out' n)"
  unfolding release_cap_def
  apply (rule yields_open)
  using assms apply (simp, simp, simp)
  apply (erule yields_message)
  using assms apply simp
  apply (simp only: prod.case)
  apply (erule yields_uint, simp, simp)
  apply (erule yields_uint, simp, simp)
  apply (drule close_at [OF _ assms(3), of _ _ n0])
  apply simp
  done

lemma tx_max: "16 \<le> CF_RPC_TX_MAX" "CF_RPC_TX_MAX \<le> CF_CAPNP_MESSAGE_MAX" "48 \<le> CF_RPC_TX_MAX" "CF_RPC_TX_MAX = 1024"
  by (simp_all add: CF_RPC_TX_MAX_def CF_CAPNP_MESSAGE_MAX_def)

lemma fail_yields:
  assumes "CF_RPC_TX_MAX \<le> length out"
  shows "yields (fail r e abort_peer out) (\<lambda>(rc, r', out', n). rc = e \<and> r' = r\<lparr>rpc_error := e, rpc_state := CF_RPC_FAILED\<rparr>
    \<and> (if abort_peer then out_frame CF_RPC_TX_MAX out out' n else n = 0 \<and> out' = out))"
proof -
  have len: "blob_words (Bytes fail_reason) True = 5" "bytes_len (Bytes fail_reason) \<le> 16383"
    by (simp_all add: blob_words_def fail_reason_def str_def)
  show ?thesis
    unfolding fail_def Let_def
    apply (rule yields_if)
     apply (rule yields_open [OF tx_max(1,2) assms])
     apply (erule yields_message, simp add: tx_max)
     apply (simp only: prod.case)
     apply (erule yields_blob, simp, simp, rule len, simp add: len tx_max)
     apply (rule yields_bind)
      apply (erule close_at [OF _ assms])
     apply (auto intro: yields_Some)
    done
qed

lemma call_yields:
  assumes "bl_at b rest cap 1" "112 \<le> cap"
  shows "yields (call b c question method) (\<lambda>(s, b'). unat s = 11 \<and> bl_at b' rest cap 13)"
  unfolding call_def
  using assms
  apply -
  apply (erule yields_message, simp)
  apply (simp only: prod.case)
  apply (erule yields_uint, simp, simp)
  apply (erule yields_uint, simp, simp)
  apply (erule yields_uint, simp, simp)
  apply (erule yields_struct, simp, simp)
  apply (simp only: prod.case)
  apply (erule yields_uint, simp, simp)
  apply (erule yields_struct_end, simp, simp)
  apply simp
  done

lemma begin_yields:
  assumes "CF_RPC_TX_MAX \<le> length out" "CF_RPC_TX_MAX \<le> cap" "rpc_state r = CF_RPC_IDLE"
  shows "yields (cf_rpc_begin (Some r) (Some out) cap (Some n0)) (rpc_gives (\<lambda>rc r' out' n. rc = CF_OK
    \<and> r' = r\<lparr>rpc_state := CF_RPC_BOOTSTRAPPING\<rparr> \<and> out_frame CF_RPC_TX_MAX out out' n))"
  using assms(2,3) unfolding cf_rpc_begin_def output_ok_def Let_def
  apply simp
  apply (rule yields_open [OF tx_max(1,2) assms(1)])
  apply (erule yields_message, simp add: tx_max)
  apply (simp only: prod.case)
  apply (erule yields_close, rule assms(1))
  apply (simp add: yields_return)
  done

lemma yields_call:
  assumes "bl_at b rest cap 1" "112 \<le> cap" "\<And>s b'. unat s = 11 \<Longrightarrow> bl_at b' rest cap 13 \<Longrightarrow> yields (f (s, b')) Q"
  shows "yields (call b c question method \<bind> f) Q"
  by (rule yields_bind [OF call_yields [OF assms(1,2)]]) (use assms(3) in auto)

lemma unregister_yields:
  assumes "CF_RPC_TX_MAX \<le> length out" "CF_RPC_TX_MAX \<le> cap" "rpc_state r = CF_RPC_REGISTERED" "rpc_have_capability r"
  shows "yields (cf_rpc_unregister (Some r) (Some out) cap (Some n0)) (rpc_gives (\<lambda>rc r' out' n. rc = CF_OK
    \<and> r' = r\<lparr>rpc_state := CF_RPC_UNREGISTERING\<rparr> \<and> out_frame CF_RPC_TX_MAX out out' n))"
  using assms(2-4) unfolding cf_rpc_unregister_def output_ok_def Let_def
  apply simp
  apply (rule yields_open [OF tx_max(1,2) assms(1)])
  apply (erule yields_call, simp add: tx_max)
  apply (simp only: prod.case)
  apply (erule yields_struct, simp, simp add: tx_max)
  apply (simp only: prod.case)
  apply (erule yields_close, rule assms(1))
  apply (simp add: yields_return)
  done


section \<open>The registration message\<close>

lemma yields_load_n: "i + n \<le> length m \<Longrightarrow> yields (f (take n (drop i m))) Q \<Longrightarrow> yields (load_n m i n \<bind> f) Q"
  by (simp add: load_n_def)

text \<open>The lengths that the checks of \<open>cf_rpc_register\<close> let through.\<close>

definition register_sized :: "cf_credentials \<Rightarrow> cf_rpc_options \<Rightarrow> bool" where
  "register_sized cred opt \<longleftrightarrow> cred_sized cred \<and> cr_tunnel_secret_len cred \<le> CF_TUNNEL_SECRET_MAX
     \<and> length (op_connector_id opt) = 16 \<and> \<not> bytes_null (op_version opt) \<and> bytes_len (op_version opt) \<le> 63
     \<and> \<not> bytes_null (op_arch opt) \<and> bytes_len (op_arch opt) \<le> 63
     \<and> \<not> bytes_null (op_local_ip opt) \<and> bytes_len (op_local_ip opt) \<le> 16"

lemma features_yields:
  assumes "bl_at b rest cap n" "unat client + 4 \<le> n" "8 + 8 * (n + 8) \<le> cap"
  shows "yields (register_features b client features) (\<lambda>b'. \<exists>k. bl_at b' rest cap k \<and> n \<le> k \<and> k \<le> n + 8)"
proof -
  have w: "blob_words (Bytes (str ''allow_remote_config'')) True = 3" "blob_words (Bytes (str ''serialized_headers'')) True = 3"
      "bytes_len (Bytes (str ''allow_remote_config'')) \<le> 16383" "bytes_len (Bytes (str ''serialized_headers'')) \<le> 16383"
    by (simp_all add: blob_words_def str_def)
  have n: "n \<le> 2047" by (rule bl_at_bound [OF assms(1)])
  have c1: "unat (client + 1) < n" using assms(2) n by (simp add: unat_word_ariths)
  let ?r = "features AND CF_RPC_REMOTE_CONFIG \<noteq> 0" and ?s = "features AND CF_RPC_SERIALIZED_HEADERS \<noteq> 0"
  let ?k = "(if ?r then 1 else 0) + (if ?s then 1 else 0) :: u32"
  have k: "unat ?k = (if ?r then 1 else 0) + (if ?s then 1 else 0)" by simp
  show ?thesis
  proof (cases "features = 0")
    case True
    then show ?thesis using assms(1) by (auto simp: register_features_def yields_def)
  next
    case False
    then have F: "register_features b client features = do {
        (lst, b) \<leftarrow> cf_cp_pointer_list b (client + 1) ?k;
        (lst, b) \<leftarrow> (if ?r then map_option (\<lambda>b. (lst + 1, b)) (cf_cp_blob b lst (Bytes (str ''allow_remote_config'')) True)
                    else Some (lst, b));
        (if ?s then cf_cp_blob b lst (Bytes (str ''serialized_headers'')) True else Some b) }"
      by (simp add: register_features_def)
    have fit: "8 + 8 * (n + unat ?k) \<le> cap" using assms(3) k by simp
    show ?thesis unfolding F
    proof (rule yields_list [OF assms(1) c1 fit], simp only: prod.case)
      fix lst :: u32 and b1 assume l: "unat lst = n" and b1: "bl_at b1 rest cap (n + unat ?k)"
      have remote: "yields (if ?r then map_option (\<lambda>b. (lst + 1, b)) (cf_cp_blob b1 lst (Bytes (str ''allow_remote_config'')) True) else Some (lst, b1))
        (\<lambda>(l', b'). unat l' = n + (if ?r then 1 else 0) \<and> bl_at b' rest cap (n + unat ?k + (if ?r then 3 else 0)))"
      proof (cases ?r)
        case True
        have "yields (cf_cp_blob b1 lst (Bytes (str ''allow_remote_config'')) True) (\<lambda>b'. bl_at b' rest cap (n + unat ?k + 3))"
          by (rule yields_blob_end [OF b1]) (use l k True w assms(3) in auto)
        then show ?thesis using True l n by (auto simp: yields_def unat_word_ariths)
      next
        case False
        then show ?thesis using b1 l by (auto intro: yields_Some)
      qed
      show "yields ((if ?r then map_option (\<lambda>b. (lst + 1, b)) (cf_cp_blob b1 lst (Bytes (str ''allow_remote_config'')) True) else Some (lst, b1))
          \<bind> (\<lambda>(lst, b). if ?s then cf_cp_blob b lst (Bytes (str ''serialized_headers'')) True else Some b))
        (\<lambda>b'. \<exists>k. bl_at b' rest cap k \<and> n \<le> k \<and> k \<le> n + 8)"
      proof (rule yields_bind [OF remote], clarsimp simp only: prod.case)
        fix l' :: u32 and b2 assume l': "unat l' = n + (if ?r then 1 else 0)" and b2: "bl_at b2 rest cap (n + unat ?k + (if ?r then 3 else 0))"
        show "yields (if ?s then cf_cp_blob b2 l' (Bytes (str ''serialized_headers'')) True else Some b2)
          (\<lambda>b'. \<exists>k. bl_at b' rest cap k \<and> n \<le> k \<and> k \<le> n + 8)"
        proof (cases ?s)
          case True
          have "yields (cf_cp_blob b2 l' (Bytes (str ''serialized_headers'')) True)
              (\<lambda>b'. bl_at b' rest cap (n + unat ?k + (if ?r then 3 else 0) + 3))"
            by (rule yields_blob_end [OF b2]) (use l' k True w assms(3) in auto)
          then have "yields (cf_cp_blob b2 l' (Bytes (str ''serialized_headers'')) True)
              (\<lambda>b'. \<exists>k. bl_at b' rest cap k \<and> n \<le> k \<and> k \<le> n + 8)"
            by (rule yields_weaken) (rule exI, rule conjI, assumption, use k in simp)
          then show ?thesis using True by simp
        next
          case False
          have "yields (Some b2) (\<lambda>b'. \<exists>k. bl_at b' rest cap k \<and> n \<le> k \<and> k \<le> n + 8)"
            by (rule yields_Some) (rule exI, rule conjI, rule b2, use k in simp)
          then show ?thesis using False by simp
        qed
      qed
    qed
  qed
qed

lemma not_null_ok: "\<not> bytes_null b \<Longrightarrow> \<not> bytes_bad b"
  by (simp add: bytes_bad_def)

lemma blob_words_bound: "bytes_len v \<le> k \<Longrightarrow> blob_words v t \<le> (k + 8) div 8"
  unfolding blob_words_def by (intro div_le_mono) simp


lemma yields_features:
  assumes "bl_at b rest cap n" "unat client + 4 \<le> n" "8 + 8 * (n + 8) \<le> cap"
    and "\<And>b' k. bl_at b' rest cap k \<Longrightarrow> n \<le> k \<Longrightarrow> k \<le> n + 8 \<Longrightarrow> yields (f b') Q"
  shows "yields (register_features b client features \<bind> f) Q"
  by (rule yields_bind [OF features_yields [OF assms(1-3)]]) (use assms(4) in auto)

lemma register_message_yields:
  assumes "bl_at b rest cap 1" "1024 \<le> cap" "register_sized cred opt"
  shows "yields (register_message b r cred opt) (\<lambda>b'. \<exists>k. bl_at b' rest cap k \<and> k \<le> 84)"
proof -
  have S: "length (cr_account_tag cred) = 33" "length (cr_tunnel_id cred) = 16" "length (cr_tunnel_secret cred) = 128"
      "cr_tunnel_secret_len cred \<le> 128" "length (op_connector_id opt) = 16"
    and V: "\<not> bytes_bad (op_version opt)" "\<not> bytes_bad (op_arch opt)" "\<not> bytes_bad (op_local_ip opt)"
      "bytes_len (op_version opt) \<le> 63" "bytes_len (op_arch opt) \<le> 63" "bytes_len (op_local_ip opt) \<le> 16"
    using assms(3) by (auto simp: register_sized_def cred_sized_def CF_TUNNEL_SECRET_MAX_def bytes_bad_def)
  define tag secret tunnel conn where
    "tag = take 32 (drop 0 (cr_account_tag cred))" and "secret = take (cr_tunnel_secret_len cred) (drop 0 (cr_tunnel_secret cred))"
    and "tunnel = take 16 (drop 0 (cr_tunnel_id cred))" and "conn = take 16 (drop 0 (op_connector_id opt))"
  have L: "bytes_len (Bytes tag) = 32" "bytes_len (Bytes secret) \<le> 128" "bytes_len (Bytes tunnel) = 16" "bytes_len (Bytes conn) = 16"
    using S by (simp_all add: tag_def secret_def tunnel_def conn_def)
  have W: "blob_words (Bytes tag) True = 5" "blob_words (Bytes tunnel) False = 2" "blob_words (Bytes conn) False = 2"
    using L by (simp_all add: blob_words_def)
  have B: "blob_words (Bytes secret) False \<le> 17" "blob_words (op_version opt) True \<le> 8" "blob_words (op_arch opt) True \<le> 8"
      "blob_words (op_local_ip opt) False \<le> 3"
    using blob_words_bound [OF L(2), of False] blob_words_bound [OF V(4), of True] blob_words_bound [OF V(5), of True]
      blob_words_bound [OF V(6), of False] by simp_all
  show ?thesis
    unfolding register_message_def
    using assms(1)
    apply -
    apply (erule yields_call, use assms(2) in simp)
    apply (simp only: prod.case)
    apply (erule yields_struct, simp, use assms(2) in simp)
    apply (simp only: prod.case)
    apply (erule yields_uint, simp, simp)
    apply (erule yields_struct, simp add: unat_word_ariths, use assms(2) in simp)
    apply (simp only: prod.case)
    apply (rule yields_load_n, use S in simp, fold tag_def)
    apply (erule yields_blob, simp, simp, use L in simp, use W assms(2) in simp)
    apply (rule yields_load_n, use S in simp, fold secret_def)
    apply (erule yields_blob, simp add: unat_word_ariths W, simp, use L in simp, use W B assms(2) in simp)
    apply (rule yields_load_n, use S in simp, fold tunnel_def)
    apply (erule yields_blob, simp add: unat_word_ariths W, simp, use L in simp, use W B assms(2) in simp)
    apply (erule yields_struct, simp add: unat_word_ariths W, use W B assms(2) in simp)
    apply (simp only: prod.case)
    apply (erule yields_uint, simp, simp add: W)
    apply (erule yields_uint, simp, simp add: W)
    apply (erule yields_struct, simp add: unat_word_ariths W, use W B assms(2) in simp)
    apply (simp only: prod.case)
    apply (rule yields_load_n, use S in simp, fold conn_def)
    apply (erule yields_blob, simp add: unat_word_ariths W, simp, use L in simp, use W B assms(2) in simp)
    apply (erule yields_features, simp add: W, use W B assms(2) in simp)
    apply (erule yields_blob, simp add: unat_word_ariths W, rule V, use V in simp, use W B assms(2) in simp)
    apply (erule yields_blob, simp add: unat_word_ariths W, rule V, use V in simp, use W B assms(2) in simp)
    apply (erule yields_blob_end, simp add: unat_word_ariths W, rule V, use V in simp, use W B assms(2) in simp)
    apply (rule exI, rule conjI, assumption, use W B in simp)
    done
qed


text \<open>The options and credentials that may be sent.\<close>

definition register_valid :: "cf_credentials \<Rightarrow> cf_rpc_options \<Rightarrow> bool" where
  "register_valid cred opt \<longleftrightarrow> ascii (op_version opt) 63 \<and> ascii (op_arch opt) 63 \<and> \<not> bytes_null (op_local_ip opt)
     \<and> bytes_len (op_local_ip opt) \<in> {4, 16} \<and> cr_account_tag cred ! 32 = 0 \<and> list_all hex_char (take 32 (cr_account_tag cred))
     \<and> cr_tunnel_secret_len cred \<in> {32..128} \<and> op_features opt AND NOT 3 = 0"

lemma register_args_eq: "cred_sized cred \<Longrightarrow> register_args cred opt = Some (register_valid cred opt)"
  by (auto simp: register_args_def register_valid_def cred_sized_def load_def load_n_def CF_TUNNEL_SECRET_MIN_def CF_TUNNEL_SECRET_MAX_def
    CF_RPC_REMOTE_CONFIG_def CF_RPC_SERIALIZED_HEADERS_def)

lemma register_valid_sized:
  "cred_sized cred \<Longrightarrow> length (op_connector_id opt) = 16 \<Longrightarrow> register_valid cred opt \<Longrightarrow> register_sized cred opt"
  by (auto simp: register_valid_def register_sized_def ascii_def CF_TUNNEL_SECRET_MAX_def split: if_splits)

lemma register_yields:
  assumes "CF_RPC_TX_MAX \<le> length out" "CF_RPC_TX_MAX \<le> cap" "cred_sized cred" "length (op_connector_id opt) = 16"
  shows "yields (cf_rpc_register (Some r) (Some cred) (Some opt) (Some out) cap (Some n0)) (rpc_gives (\<lambda>rc r' out' n.
    if rpc_state r \<noteq> CF_RPC_READY \<or> \<not> rpc_have_capability r then rc = CF_ERR_STATE \<and> r' = r \<and> out' = out \<and> n = 0
    else if \<not> register_valid cred opt then rc = CF_ERR_ARGUMENT \<and> r' = r \<and> out' = out \<and> n = 0
    else rc = CF_OK \<and> r' = r\<lparr>rpc_state := CF_RPC_REGISTERING\<rparr> \<and> out_frame CF_RPC_TX_MAX out out' n))"
proof -
  have M: "yields (do {
      b \<leftarrow> open_message out CF_RPC_TX_MAX;
      b \<leftarrow> register_message b r cred opt;
      (rc, out, n) \<leftarrow> close_message b out 0;
      if rc = CF_OK then rpc_return rc (r\<lparr>rpc_state := CF_RPC_REGISTERING\<rparr>) out n
      else do { p \<leftarrow> cf_secure_zero (Some (out, 0)) CF_RPC_TX_MAX; (out, _) \<leftarrow> p; rpc_return rc r out n } })
    (rpc_gives (\<lambda>rc r' out' n. rc = CF_OK \<and> r' = r\<lparr>rpc_state := CF_RPC_REGISTERING\<rparr> \<and> out_frame CF_RPC_TX_MAX out out' n))"
    if v: "register_valid cred opt"
    apply (rule yields_open [OF tx_max(1,2) assms(1)])
    apply (rule yields_bind)
     apply (erule register_message_yields [OF _ _ register_valid_sized [OF assms(3,4) v]])
     apply (simp add: tx_max)
    apply (elim exE conjE)
    apply (erule yields_close, rule assms(1))
    apply (simp add: yields_return)
    done
  show ?thesis
  proof (cases "rpc_state r \<noteq> CF_RPC_READY \<or> \<not> rpc_have_capability r")
    case True
    then show ?thesis using assms(2) by (auto simp: cf_rpc_register_def output_ok_def Let_def intro!: yields_return)
  next
    case ready: False
    show ?thesis
    proof (cases "register_valid cred opt")
      case True
      show ?thesis using M [OF True] ready True assms(2) register_args_eq [OF assms(3), of opt]
        by (simp add: cf_rpc_register_def output_ok_def Let_def)
    next
      case False
      then show ?thesis using ready assms(2) register_args_eq [OF assms(3), of opt]
        by (simp add: cf_rpc_register_def output_ok_def Let_def yields_return)
    qed
  qed
qed

section \<open>Answers of the peer\<close>

lemma yields_read:
  assumes "reader_inv rd" "rd_ok rd m P" "\<And>x rd'. reader_inv rd' \<Longrightarrow> P x rd' \<Longrightarrow> yields (f (x, rd')) Q"
  shows "yields (m \<bind> f) Q"
  using assms rd_step_inv by (fastforce simp: rd_ok_def yields_def)

lemma struct_field_ok:
  assumes "reader_inv rd"
  shows "rd_ok rd (struct_field rd v i) (\<lambda>_ _. True)"
proof -
  obtain w rd' where f: "cf_cp_field rd v i = Some (w, rd')" "rd_step rd rd'"
    using field_ok [OF assms, of v i] by (auto simp: rd_ok_def)
  have "rd_step rd (snd (required_struct rd' w))"
    using f(2) rd_step_trans [OF f(2) rd_step_error, of CF_ERR_FORMAT] by (simp add: required_struct_def)
  then show ?thesis using f(1) by (simp add: struct_field_def rd_ok_def required_struct_def)
qed

lemma data_field_ok:
  assumes "reader_inv rd"
  shows "rd_ok rd (data_field rd v i t) (\<lambda>b _. \<not> bytes_bad b)"
  unfolding data_field_def
  by (rule rd_ok_bind [OF field_ok [OF assms]]) (intro data_ok rd_step_inv [OF _ assms])

lemma field_any: "reader_inv rd \<Longrightarrow> rd_ok rd (cf_cp_field rd v i) (\<lambda>_ _. True)"
  by (rule rd_ok_weaken [OF field_ok]) simp_all

lemma at_any: "reader_inv rd \<Longrightarrow> rd_ok rd (cf_cp_at rd v i) (\<lambda>_ _. True)"
  by (rule rd_ok_weaken [OF at_ok]) simp_all

text \<open>Elimination rules: each reader call consumes the reader's invariant and gives that of the next.\<close>

lemma yields_field:
  assumes "reader_inv rd" "\<And>x rd'. reader_inv rd' \<Longrightarrow> yields (f (x, rd')) Q"
  shows "yields (cf_cp_field rd v i \<bind> f) Q"
  by (rule yields_read [OF assms(1) field_any [OF assms(1)]]) (rule assms(2))

lemma yields_struct_field:
  assumes "reader_inv rd" "\<And>x rd'. reader_inv rd' \<Longrightarrow> yields (f (x, rd')) Q"
  shows "yields (struct_field rd v i \<bind> f) Q"
  by (rule yields_read [OF assms(1) struct_field_ok [OF assms(1)]]) (rule assms(2))

lemma yields_elem:
  assumes "reader_inv rd" "\<And>x rd'. reader_inv rd' \<Longrightarrow> yields (f (x, rd')) Q"
  shows "yields (cf_cp_at rd v j \<bind> f) Q"
  by (rule yields_read [OF assms(1) at_any [OF assms(1)]]) (rule assms(2))

lemma yields_get_uint:
  assumes "reader_inv rd" "\<And>x rd'. reader_inv rd' \<Longrightarrow> yields (f (x, rd')) Q"
  shows "yields (cf_cp_uint rd v byte width \<bind> f) Q"
  by (rule yields_read [OF assms(1) uint_ok [OF assms(1)]]) (rule assms(2))

lemma yields_data_field:
  assumes "reader_inv rd" "\<And>x rd'. reader_inv rd' \<Longrightarrow> \<not> bytes_bad x \<Longrightarrow> yields (f (x, rd')) Q"
  shows "yields (data_field rd v i t \<bind> f) Q"
  by (rule yields_read [OF assms(1) data_field_ok [OF assms(1)]]) (rule assms(2))

lemmas read_rules = yields_field yields_struct_field yields_elem yields_get_uint yields_data_field

text \<open>
  The invariant of the client: while a capability may be used there is one, a failed client has
  an error, and a registered one is remotely managed and has a printable location.
\<close>

definition rpc_sized :: "cf_rpc \<Rightarrow> bool" where
  "rpc_sized r \<longleftrightarrow> length (rpc_connection_id r) = 16 \<and> length (rpc_location r) = 32"

definition location_ok :: "mem \<Rightarrow> bool" where
  "location_ok m \<longleftrightarrow> (\<exists>k. 1 \<le> k \<and> k < length m \<and> list_all (\<lambda>c. 32 \<le> c \<and> c \<le> 126) (take k m) \<and> m ! k = 0)"

definition rpc_inv :: "cf_rpc \<Rightarrow> bool" where
  "rpc_inv r \<longleftrightarrow> rpc_sized r
     \<and> (rpc_state r \<in> {CF_RPC_READY, CF_RPC_REGISTERING, CF_RPC_REGISTERED, CF_RPC_UNREGISTERING} \<longrightarrow> rpc_have_capability r)
     \<and> (rpc_state r = CF_RPC_FAILED \<longrightarrow> rpc_error r \<noteq> CF_OK)
     \<and> (rpc_state r \<in> {CF_RPC_REGISTERED, CF_RPC_UNREGISTERING} \<longrightarrow> rpc_remotely_managed r \<and> location_ok (rpc_location r))"

text \<open>What a successful answer may do to the state.\<close>

definition answer_move :: "cf_rpc_state \<Rightarrow> cf_rpc_state \<Rightarrow> bool" where
  "answer_move s s' \<longleftrightarrow> (s = CF_RPC_BOOTSTRAPPING \<and> s' = CF_RPC_READY)
     \<or> (s = CF_RPC_REGISTERING \<and> (s' = CF_RPC_REGISTERED \<or> s' = CF_RPC_REJECTED))
     \<or> (s = CF_RPC_UNREGISTERING \<and> s' = CF_RPC_CLOSED)"

definition answered :: "cf_rpc \<Rightarrow> cf_result \<times> cf_rpc \<Rightarrow> bool" where
  "answered r x \<longleftrightarrow> rpc_sized (snd x) \<and> (fst x = CF_OK \<longrightarrow> rpc_inv (snd x) \<and> answer_move (rpc_state r) (rpc_state (snd x)))"

lemma bootstrap_ok:
  assumes "reader_inv rd" "rpc_inv r" "rpc_state r = CF_RPC_BOOTSTRAPPING"
  shows "yields (bootstrap_result r rd payload) (\<lambda>(x, rd'). answered r x)"
  unfolding bootstrap_result_def Let_def
  using assms(1)
  apply -
  apply (erule read_rules, simp only: prod.case)+
  apply (rule yields_if)
   apply (rule yields_Some, use assms(2) in \<open>simp add: answered_def rpc_inv_def\<close>)
  apply (erule read_rules, simp only: prod.case)+
  apply (rule yields_if)
   apply (rule yields_Some, use assms(2) in \<open>simp add: answered_def rpc_inv_def\<close>)
  apply (erule read_rules, simp only: prod.case)
  apply (rule yields_if)
   apply (rule yields_Some, use assms(2) in \<open>simp add: answered_def rpc_inv_def rpc_sized_def\<close>)
  apply (rule yields_Some, use assms in \<open>simp add: answered_def rpc_inv_def rpc_sized_def answer_move_def\<close>)
  done

lemma refused_ok:
  assumes "reader_inv rd" "rpc_inv r" "rpc_state r = CF_RPC_REGISTERING"
  shows "yields (registration_refused r rd details) (\<lambda>(x, rd'). answered r x)"
  unfolding registration_refused_def Let_def
  using assms(1)
  apply -
  apply (erule read_rules, simp only: prod.case)+
  apply (rule yields_if; rule yields_Some)
   apply (use assms in \<open>simp_all add: answered_def rpc_inv_def rpc_sized_def answer_move_def\<close>)
  done

lemma location_stored:
  assumes "length m = 32" "ascii b 31"
  shows "\<exists>m'. (store_n m 0 (bytes_list b) \<bind> (\<lambda>m. store m (bytes_len b) 0)) = Some m' \<and> length m' = 32 \<and> location_ok m'"
proof -
  obtain xs where b: "b = Bytes xs" using assms(2) by (cases b) (auto simp: ascii_def)
  have ne: "xs \<noteq> []" and xs: "length xs \<le> 31" "list_all (\<lambda>c. 32 \<le> c \<and> c \<le> 126) xs"
    using assms(2) unfolding b by (auto simp: ascii_def list_ex_iff list_all_iff not_less split: if_splits)
  then have ge: "1 \<le> length xs" by (simp add: Suc_le_eq)
  have "splice m 0 xs = xs @ drop (length xs) m" by (simp add: splice_def)
  then have "location_ok ((splice m 0 xs)[length xs := 0])"
    unfolding location_ok_def using xs ge assms(1) by (intro exI [of _ "length xs"]) (simp add: nth_append)
  then show ?thesis using assms(1) xs b by (simp add: store_n_def store_def)
qed

lemma accepted_ok:
  assumes "reader_inv rd" "rpc_inv r" "rpc_state r = CF_RPC_REGISTERING"
  shows "yields (registration_accepted r rd details) (\<lambda>(x, rd'). answered r x)"
proof -
  have copy: "yields (do {
       bytes \<leftarrow> load_n (bytes_list ident) 0 16;
       cid \<leftarrow> store_n (rpc_connection_id r1) 0 bytes;
       loc \<leftarrow> store_n (rpc_location r1) 0 (bytes_list location);
       loc \<leftarrow> store loc (bytes_len location) 0;
       Some ((CF_OK, r1\<lparr>rpc_connection_id := cid, rpc_location := loc, rpc_state := CF_RPC_REGISTERED\<rparr>), rd1) }) (\<lambda>(x, rd'). answered r x)"
    if c: "\<not> bytes_bad ident" "bytes_len ident = 16" "ascii location 31" "rpc_remotely_managed r1"
      "rpc_sized r1" "rpc_have_capability r1" for r1 ident location rd1
  proof -
    obtain xs where xs: "ident = Bytes xs" "length xs = 16" using c(1,2) by (cases ident) auto
    obtain m1 m' where m: "store_n (rpc_location r1) 0 (bytes_list location) = Some m1" "store m1 (bytes_len location) 0 = Some m'"
        "length m' = 32" "location_ok m'"
      using location_stored [of "rpc_location r1" location] c(3,5) by (auto simp: rpc_sized_def split: Option.bind_splits)
    have cid: "load_n (bytes_list ident) 0 16 = Some xs" "store_n (rpc_connection_id r1) 0 xs = Some xs"
      using xs c(5) by (simp_all add: load_n_def store_n_def splice_def rpc_sized_def)
    show ?thesis unfolding cid m(1,2) bind.bind_lunit
      by (rule yields_Some) (use c(4,6) xs assms(3) m(3,4) in \<open>simp add: answered_def rpc_inv_def rpc_sized_def answer_move_def\<close>)
  qed
  show ?thesis
    unfolding registration_accepted_def Let_def
    using assms(1)
    apply -
    apply (erule read_rules, simp only: prod.case)+
    apply (rule yields_if, rule yields_Some)
     apply (use assms in \<open>simp add: answered_def rpc_inv_def rpc_sized_def\<close>)
    apply (rule yields_if, rule yields_Some)
     apply (use assms in \<open>simp add: answered_def rpc_inv_def rpc_sized_def\<close>)
    apply (rule yields_if, rule yields_Some)
     apply (use assms in \<open>simp add: answered_def rpc_inv_def rpc_sized_def\<close>)
    apply (rule copy)
    using assms by (simp_all add: rpc_inv_def rpc_sized_def)
qed


lemma registration_ok:
  assumes "reader_inv rd" "rpc_inv r" "rpc_state r = CF_RPC_REGISTERING"
  shows "yields (registration_result r rd payload) (\<lambda>(x, rd'). answered r x)"
  unfolding registration_result_def Let_def
  using assms(1)
  apply -
  apply (erule read_rules, simp only: prod.case)+
  apply (rule yields_if, rule yields_Some)
   apply (use assms in \<open>simp add: answered_def rpc_inv_def rpc_sized_def\<close>)
  apply (rule yields_if)
   apply (erule refused_ok [OF _ assms(2,3)])
  apply (rule yields_if, rule yields_Some)
   apply (use assms in \<open>simp add: answered_def rpc_inv_def rpc_sized_def\<close>)
  apply (erule accepted_ok [OF _ assms(2,3)])
  done

lemma call_result_ok:
  assumes "reader_inv rd" "rpc_inv r"
    and "rpc_state r = (if expected = 1 then CF_RPC_REGISTERING else CF_RPC_UNREGISTERING)"
  shows "yields (call_result r expected rd payload) (\<lambda>(x, rd'). answered r x)"
  unfolding call_result_def
  using assms(1)
  apply -
  apply (erule read_rules, simp only: prod.case)
  apply (rule yields_if, rule yields_Some)
   apply (use assms in \<open>simp add: answered_def rpc_inv_def rpc_sized_def\<close>)
  apply (rule yields_if)
   apply (erule registration_ok [OF _ assms(2)], use assms(3) in simp)
  apply (erule read_rules, simp only: prod.case)
  apply (rule yields_Some)
  apply (use assms in \<open>simp add: answered_def rpc_inv_def rpc_sized_def answer_move_def\<close>)
  done

section \<open>Receiving\<close>

text \<open>
  The outcome of a received frame: either the outstanding question was answered, or the client
  has failed with the reported error. The output stays inside the transmit limit.
\<close>

definition received :: "cf_rpc \<Rightarrow> mem \<Rightarrow> cf_result \<Rightarrow> cf_rpc \<Rightarrow> mem \<Rightarrow> nat \<Rightarrow> bool" where
  "received r out rc r' out' n \<longleftrightarrow> rpc_inv r' \<and> n \<le> CF_RPC_TX_MAX \<and> length out' = length out \<and> drop CF_RPC_TX_MAX out' = drop CF_RPC_TX_MAX out
     \<and> (if rc = CF_OK then answer_move (rpc_state r) (rpc_state r') else rpc_state r' = CF_RPC_FAILED \<and> rpc_error r' = rc)"

lemma receive_fail_ok:
  assumes "CF_RPC_TX_MAX \<le> length out" "rpc_sized r" "e \<noteq> CF_OK"
  shows "yields (receive_fail r e abort_peer out) (rpc_gives (received r0 out))"
  unfolding receive_fail_def
  apply (rule yields_bind [OF fail_yields [OF assms(1)]])
  apply (clarsimp simp only: prod.case)
  apply (rule yields_return)
  using assms(2,3) by (auto simp: received_def out_frame_def rpc_inv_def rpc_sized_def split: if_splits)

lemma receive_end_ok:
  assumes "CF_RPC_TX_MAX \<le> length out" "rpc_inv r" "answer_move (rpc_state r0) (rpc_state r)"
  shows "yields (receive_end r answer boot out n0) (rpc_gives (received r0 out))"
  unfolding receive_end_def
proof (rule yields_bind [OF finish_yields [OF tx_max(3,2) assms(1)]], clarsimp simp only: prod.case)
  fix out1 assume o1: "out_frame CF_RPC_TX_MAX out out1 40"
  then have len: "length out1 = length out" "drop CF_RPC_TX_MAX out1 = drop CF_RPC_TX_MAX out" by (simp_all add: out_frame_def)
  have plain: "yields (rpc_return CF_OK r out1 40) (rpc_gives (received r0 out))"
    using assms(2,3) len by (intro yields_return) (simp add: received_def tx_max)
  have tail: "load_n out1 40 (length out1 - 40) = Some (drop 40 out1)"
    using len assms(1) by (simp add: load_n_def tx_max)
  have room: "size_sub CF_RPC_TX_MAX 40 = 984" by (simp add: size_sub_def tx_max)
  have small: "48 \<le> (984::nat)" "984 \<le> CF_CAPNP_MESSAGE_MAX" "984 \<le> length (drop 40 out1)"
    using len assms(1) by (simp_all add: CF_CAPNP_MESSAGE_MAX_def tx_max)
  have closed: "yields (release_cap r (drop 40 out1) 984 0 \<bind> (\<lambda>(rc, tail, extra).
      rpc_return rc (r\<lparr>rpc_have_capability := False\<rparr>) (take 40 out1 @ tail) (40 + extra))) (rpc_gives (received r0 out))"
    if c: "rpc_state r = CF_RPC_CLOSED"
  proof (rule yields_bind [OF release_yields [OF small]], clarsimp simp only: prod.case)
    fix tail assume t: "out_frame 984 (drop 40 out1) tail 40"
    then have "length tail = length out - 40" "drop 984 tail = drop 1024 out1" using len by (simp_all add: out_frame_def)
    then have "length (take 40 out1 @ tail) = length out" "drop CF_RPC_TX_MAX (take 40 out1 @ tail) = drop CF_RPC_TX_MAX out"
      using len assms(1) by (simp_all add: tx_max)
    then show "yields (rpc_return CF_OK (r\<lparr>rpc_have_capability := False\<rparr>) (take 40 out1 @ tail) (40 + 40)) (rpc_gives (received r0 out))"
      using assms(2,3) c by (intro yields_return) (simp add: received_def tx_max rpc_inv_def rpc_sized_def)
  qed
  show "yields (if CF_OK = CF_OK \<and> rpc_state r = CF_RPC_CLOSED then do {
       tail \<leftarrow> load_n out1 40 (length out1 - 40);
       (rc, tail, extra) \<leftarrow> release_cap r tail (size_sub CF_RPC_TX_MAX 40) 0;
       rpc_return rc (r\<lparr>rpc_have_capability := False\<rparr>) (take 40 out1 @ tail) (40 + extra)
     }
     else rpc_return CF_OK r out1 40) (rpc_gives (received r0 out))"
    using plain closed by (simp add: tail room)
qed


lemma receive_return_ok:
  assumes "CF_RPC_TX_MAX \<le> length out" "reader_inv rd" "rpc_inv r"
  shows "yields (receive_return r rd ret out n0) (rpc_gives (received r out))"
proof -
  have sz: "rpc_sized r" using assms(3) by (simp add: rpc_inv_def)
  note F = receive_fail_ok [OF assms(1)]
  define expected :: u32 where
    "expected = (if rpc_state r = CF_RPC_BOOTSTRAPPING then 0 else if rpc_state r = CF_RPC_REGISTERING then 1 else 2)"
  have result: "yields (if rpc_state r = CF_RPC_BOOTSTRAPPING then bootstrap_result r rd' payload else call_result r expected rd' payload)
      (\<lambda>(x, rd'). answered r x)"
    if "reader_inv rd'" "\<not> (rpc_state r \<noteq> CF_RPC_BOOTSTRAPPING \<and> rpc_state r \<noteq> CF_RPC_REGISTERING \<and> rpc_state r \<noteq> CF_RPC_UNREGISTERING)" for rd' payload
  proof (cases "rpc_state r = CF_RPC_BOOTSTRAPPING")
    case True
    then show ?thesis using bootstrap_ok [OF that(1) assms(3) True] by simp
  next
    case False
    then have "rpc_state r = (if expected = 1 then CF_RPC_REGISTERING else CF_RPC_UNREGISTERING)"
      using that(2) by (auto simp: expected_def)
    from call_result_ok [OF that(1) assms(3) this] False show ?thesis by simp
  qed
  have finish_exception: "yields (finish answer True out CF_RPC_TX_MAX n0 \<bind> (\<lambda>(u, out, n).
       rpc_return e (r\<lparr>rpc_state := CF_RPC_FAILED, rpc_error := e\<rparr>) out n)) (rpc_gives (received r out))" if "e \<noteq> CF_OK" for answer e
    apply (rule yields_bind [OF finish_yields [OF tx_max(3,2) assms(1)]])
    apply (clarsimp simp only: prod.case)
    apply (rule yields_return)
    using that sz by (simp add: received_def out_frame_def rpc_inv_def rpc_sized_def)
  have last: "yields (case x of (x, rd'') \<Rightarrow> (case x of (rc, r') \<Rightarrow> \<lambda>rd''.
        if (if rd_error rd'' \<noteq> CF_OK then rd_error rd'' else rc) \<noteq> CF_OK
        then receive_fail r' (if rd_error rd'' \<noteq> CF_OK then rd_error rd'' else rc) True out
        else receive_end r' answer boot out n0) rd'') (rpc_gives (received r out))"
    if "case x of (x, rd'') \<Rightarrow> answered r x" for x answer boot
  proof -
    obtain rc r' rd'' where x: "x = ((rc, r'), rd'')" by (metis surj_pair)
    have a: "rpc_sized r'" "rc = CF_OK \<Longrightarrow> rpc_inv r' \<and> answer_move (rpc_state r) (rpc_state r')"
      using that by (simp_all add: x answered_def)
    show ?thesis unfolding x prod.case
    proof (rule yields_if)
      assume "(if rd_error rd'' \<noteq> CF_OK then rd_error rd'' else rc) \<noteq> CF_OK"
      then show "yields (receive_fail r' (if rd_error rd'' \<noteq> CF_OK then rd_error rd'' else rc) True out) (rpc_gives (received r out))"
        by (rule F [OF a(1)])
    next
      assume "\<not> (if rd_error rd'' \<noteq> CF_OK then rd_error rd'' else rc) \<noteq> CF_OK"
      then have "rc = CF_OK" by (simp split: if_splits)
      then show "yields (receive_end r' answer boot out n0) (rpc_gives (received r out))"
        using receive_end_ok [OF assms(1)] a(2) by blast
    qed
  qed
  show ?thesis
    unfolding receive_return_def Let_def expected_def [symmetric]
    apply (rule yields_if, rule F [OF sz], simp)
    using assms(2)
    apply -
    apply (erule read_rules, simp only: prod.case)+
    apply (rule yields_if, rule F [OF sz], assumption)
    apply (rule yields_if, rule F [OF sz], simp)
    apply (rule yields_if)
     apply (erule read_rules, simp only: prod.case)+
     apply (rule finish_exception, simp)
    apply (rule yields_if, rule F [OF sz], simp)
    apply (erule read_rules, simp only: prod.case)
    apply (rule yields_bind [OF result], assumption, assumption)
    apply (drule last, simp add: case_prod_beta)
    done
qed


lemma receive_message_ok:
  assumes "CF_RPC_TX_MAX \<le> length out" "reader_inv rd" "rpc_inv r"
  shows "yields (receive_message r rd out n0) (rpc_gives (received r out))"
proof -
  have sz: "rpc_sized r" using assms(3) by (simp add: rpc_inv_def)
  note F = receive_fail_ok [OF assms(1)]
  obtain root rd1 where root: "cf_cp_root rd = Some (root, rd1)" "rd_step rd rd1"
    using root_ok [OF assms(2)] by (auto simp: rd_ok_def)
  define rd2 where "rd2 = snd (required_struct rd1 root)"
  have "rd_step rd rd2" using root(2) rd_step_trans [OF root(2) rd_step_error, of CF_ERR_FORMAT]
    by (simp add: rd2_def required_struct_def)
  then have inv: "reader_inv rd2" using rd_step_inv assms(2) by blast
  have rs: "required_struct rd1 root = (root, rd2)" by (simp add: rd2_def required_struct_def)
  show ?thesis
    unfolding receive_message_def root(1) bind.bind_lunit prod.case Let_def rs
    using inv
    apply -
    apply (erule read_rules, simp only: prod.case)+
    apply (rule yields_if, rule F [OF sz], assumption)
    apply (rule yields_if)
     apply (erule read_rules, simp only: prod.case)
     apply (rule F [OF sz], simp)
    apply (rule yields_if, rule F [OF sz], simp)
    apply (erule receive_return_ok [OF assms(1) _ assms(3)])
    done
qed

text \<open>The states in which an answer may arrive.\<close>

definition rpc_active :: "cf_rpc_state \<Rightarrow> bool" where
  "rpc_active s \<longleftrightarrow> s \<notin> {CF_RPC_IDLE, CF_RPC_FAILED, CF_RPC_CLOSED, CF_RPC_REJECTED}"

lemma receive_yields:
  assumes "CF_RPC_TX_MAX \<le> length out" "CF_RPC_TX_MAX \<le> cap" "rpc_inv r"
  shows "yields (cf_rpc_receive (Some r) (Bytes xs) (Some out) cap (Some n0)) (rpc_gives (\<lambda>rc r' out' n.
    if rpc_active (rpc_state r) then received r out rc r' out' n else rc = CF_ERR_STATE \<and> r' = r \<and> out' = out \<and> n = 0))"
proof (cases "rpc_active (rpc_state r)")
  case False
  then show ?thesis using assms(2) by (auto simp: cf_rpc_receive_def output_ok_def Let_def rpc_active_def intro!: yields_return)
next
  case True
  have sz: "rpc_sized r" using assms(3) by (simp add: rpc_inv_def)
  have act: "\<not> (rpc_state r = CF_RPC_IDLE \<or> rpc_state r = CF_RPC_FAILED \<or> rpc_state r = CF_RPC_CLOSED \<or> rpc_state r = CF_RPC_REJECTED)"
    using True by (auto simp: rpc_active_def)
  have ok: "output_ok (Some r) (Some out) cap (Some n0) = (True, Some 0)" using assms(2) by (simp add: output_ok_def)
  show ?thesis
  proof (cases "frame_ok CF_CAPNP_MESSAGE_MAX xs")
    case fr: True
    have "yields (receive_message r (frame_reader xs) out 0) (rpc_gives (received r out))"
      by (rule receive_message_ok [OF assms(1) frame_reader_inv [OF fr] assms(3)])
    then show ?thesis using True read_init_ok [OF fr, of blank_reader]
      unfolding cf_rpc_receive_def ok Let_def prod.case bind.bind_lunit if_not_P [OF act] by simp
  next
    case False
    then obtain rc rd where "cf_cp_read_init (Some blank_reader) (Bytes xs) = Some (rc, Some rd)" "rc \<noteq> CF_OK"
      using read_init_err [OF False, of blank_reader] by blast
    then show ?thesis using True receive_fail_ok [OF assms(1) sz, of rc True r]
      unfolding cf_rpc_receive_def ok Let_def prod.case bind.bind_lunit if_not_P [OF act] by simp
  qed
qed

section \<open>Sequences of calls\<close>

datatype rpc_op = Op_Begin | Op_Register cf_credentials cf_rpc_options | Op_Receive "u8 list" | Op_Unregister | Op_Reset

datatype rpc_kind = K_Begin | K_Register | K_Receive | K_Unregister | K_Reset

primrec op_kind :: "rpc_op \<Rightarrow> rpc_kind" where
  "op_kind Op_Begin = K_Begin"
| "op_kind (Op_Register c opt) = K_Register"
| "op_kind (Op_Receive xs) = K_Receive"
| "op_kind Op_Unregister = K_Unregister"
| "op_kind Op_Reset = K_Reset"

text \<open>Every call writes to a fresh array of the transmit limit, as the transport does.\<close>

definition rpc_out :: mem where
  "rpc_out = replicate CF_RPC_TX_MAX 0"

definition rpc_client :: "rpc_result \<Rightarrow> cf_rpc option" where
  "rpc_client x = do { (_, r, _) \<leftarrow> x; r }"

primrec rpc_exec :: "rpc_op \<Rightarrow> cf_rpc \<Rightarrow> cf_rpc option" where
  "rpc_exec Op_Begin r = rpc_client (cf_rpc_begin (Some r) (Some rpc_out) CF_RPC_TX_MAX (Some 0))"
| "rpc_exec (Op_Register c opt) r = rpc_client (cf_rpc_register (Some r) (Some c) (Some opt) (Some rpc_out) CF_RPC_TX_MAX (Some 0))"
| "rpc_exec (Op_Receive xs) r = rpc_client (cf_rpc_receive (Some r) (Bytes xs) (Some rpc_out) CF_RPC_TX_MAX (Some 0))"
| "rpc_exec Op_Unregister r = rpc_client (cf_rpc_unregister (Some r) (Some rpc_out) CF_RPC_TX_MAX (Some 0))"
| "rpc_exec Op_Reset r = cf_rpc_reset (Some r)"

fun rpc_run :: "rpc_op list \<Rightarrow> cf_rpc \<Rightarrow> cf_rpc option" where
  "rpc_run [] r = Some r"
| "rpc_run (c # cs) r = do { r \<leftarrow> rpc_exec c r; rpc_run cs r }"

primrec op_sized :: "rpc_op \<Rightarrow> bool" where
  "op_sized Op_Begin = True"
| "op_sized (Op_Register c opt) = (cred_sized c \<and> length (op_connector_id opt) = 16)"
| "op_sized (Op_Receive xs) = True"
| "op_sized Op_Unregister = True"
| "op_sized Op_Reset = True"

text \<open>The calls that lead from the idle state to a state.\<close>

primrec rpc_history :: "cf_rpc_state \<Rightarrow> rpc_kind list" where
  "rpc_history CF_RPC_IDLE = []"
| "rpc_history CF_RPC_BOOTSTRAPPING = [K_Begin]"
| "rpc_history CF_RPC_READY = [K_Begin, K_Receive]"
| "rpc_history CF_RPC_REGISTERING = [K_Begin, K_Receive, K_Register]"
| "rpc_history CF_RPC_REGISTERED = [K_Begin, K_Receive, K_Register, K_Receive]"
| "rpc_history CF_RPC_UNREGISTERING = [K_Begin, K_Receive, K_Register, K_Receive, K_Unregister]"
| "rpc_history CF_RPC_CLOSED = [K_Begin, K_Receive, K_Register, K_Receive, K_Unregister, K_Receive]"
| "rpc_history CF_RPC_REJECTED = [K_Begin, K_Receive, K_Register, K_Receive]"
| "rpc_history CF_RPC_FAILED = [K_Begin, K_Receive]"

text \<open>One call: the invariant holds after it, and the state stays or moves along the protocol.\<close>

definition rpc_move :: "rpc_kind \<Rightarrow> cf_rpc_state \<Rightarrow> cf_rpc_state \<Rightarrow> bool" where
  "rpc_move k s s' \<longleftrightarrow> s' = s \<or> (case k of
      K_Begin \<Rightarrow> s = CF_RPC_IDLE \<and> s' = CF_RPC_BOOTSTRAPPING
    | K_Register \<Rightarrow> s = CF_RPC_READY \<and> s' = CF_RPC_REGISTERING
    | K_Receive \<Rightarrow> answer_move s s' \<or> (rpc_active s \<and> s' = CF_RPC_FAILED)
    | K_Unregister \<Rightarrow> s = CF_RPC_REGISTERED \<and> s' = CF_RPC_UNREGISTERING
    | K_Reset \<Rightarrow> s' = CF_RPC_IDLE)"

lemma zero_rpc_inv: "rpc_inv zero_rpc" "rpc_state zero_rpc = CF_RPC_IDLE"
  by (simp_all add: rpc_inv_def rpc_sized_def zero_rpc_def)

lemma client_yields:
  assumes "yields x (rpc_gives P)" "\<And>rc r out n. P rc r out n \<Longrightarrow> Q r"
  shows "\<exists>r. rpc_client x = Some r \<and> Q r"
  using assms by (fastforce simp: yields_def rpc_gives_def rpc_client_def)

lemma rpc_exec_move:
  assumes "rpc_inv r" "op_sized c"
  shows "\<exists>r'. rpc_exec c r = Some r' \<and> rpc_inv r' \<and> rpc_move (op_kind c) (rpc_state r) (rpc_state r')"
proof -
  have out: "CF_RPC_TX_MAX \<le> length rpc_out" by (simp add: rpc_out_def)
  show ?thesis
  proof (cases c)
    case Op_Begin
    show ?thesis
    proof (cases "rpc_state r = CF_RPC_IDLE")
      case True
      show ?thesis unfolding Op_Begin rpc_exec.simps
        by (rule client_yields [OF begin_yields [OF out order.refl True]])
          (use assms(1) True in \<open>auto simp: rpc_inv_def rpc_sized_def rpc_move_def\<close>)
    next
      case False
      then show ?thesis using assms(1) Op_Begin
        by (auto simp: cf_rpc_begin_def output_ok_def rpc_client_def rpc_return_def rpc_move_def)
    qed
  next
    case (Op_Register cred opt)
    then have sz: "cred_sized cred" "length (op_connector_id opt) = 16" using assms(2) by simp_all
    show ?thesis unfolding Op_Register rpc_exec.simps
      by (rule client_yields [OF register_yields [OF out order.refl sz]])
        (use assms(1) in \<open>auto simp: rpc_inv_def rpc_sized_def rpc_move_def split: if_splits\<close>)
  next
    case (Op_Receive xs)
    show ?thesis unfolding Op_Receive rpc_exec.simps
      by (rule client_yields [OF receive_yields [OF out order.refl assms(1)]])
        (use assms(1) in \<open>auto simp: received_def rpc_move_def split: if_splits\<close>)
  next
    case Op_Unregister
    show ?thesis
    proof (cases "rpc_state r = CF_RPC_REGISTERED \<and> rpc_have_capability r")
      case True
      show ?thesis unfolding Op_Unregister rpc_exec.simps
        by (rule client_yields [OF unregister_yields [OF out order.refl, of r]])
          (use assms(1) True in \<open>auto simp: rpc_inv_def rpc_sized_def rpc_move_def\<close>)
    next
      case False
      then show ?thesis using assms(1) Op_Unregister
        by (auto simp: cf_rpc_unregister_def output_ok_def rpc_client_def rpc_return_def rpc_move_def)
    qed
  next
    case Op_Reset
    then show ?thesis using zero_rpc_inv by (simp add: cf_rpc_reset_def rpc_move_def)
  qed
qed


definition since_reset :: "rpc_op list \<Rightarrow> rpc_op list" where
  "since_reset ops = rev (takeWhile (\<lambda>c. op_kind c \<noteq> K_Reset) (rev ops))"

lemma since_reset_simps:
  "since_reset [] = []"
  "since_reset (ops @ [c]) = (if op_kind c = K_Reset then [] else since_reset ops @ [c])"
  by (simp_all add: since_reset_def)

lemma history_move: "rpc_move k s s' \<Longrightarrow> k \<noteq> K_Reset \<Longrightarrow> subseq (rpc_history s') (rpc_history s @ [k])"
  by (cases k; cases s; cases s') (auto simp: rpc_move_def answer_move_def rpc_active_def)

lemma rpc_run_snoc: "rpc_run (cs @ [c]) r = do { r \<leftarrow> rpc_run cs r; rpc_exec c r }"
  by (induction cs arbitrary: r) (auto split: Option.bind_splits)

lemma rpc_run_history:
  "list_all op_sized ops \<Longrightarrow> \<exists>r. rpc_run ops zero_rpc = Some r \<and> rpc_inv r
    \<and> subseq (rpc_history (rpc_state r)) (map op_kind (since_reset ops))"
proof (induction ops rule: rev_induct)
  case Nil
  then show ?case by (simp add: zero_rpc_inv since_reset_simps)
next
  case (snoc c ops)
  then obtain r where r: "rpc_run ops zero_rpc = Some r" "rpc_inv r" "subseq (rpc_history (rpc_state r)) (map op_kind (since_reset ops))"
    by auto
  obtain r' where r': "rpc_exec c r = Some r'" "rpc_inv r'" "rpc_move (op_kind c) (rpc_state r) (rpc_state r')"
    using rpc_exec_move [OF r(2), of c] snoc.prems by auto
  have "subseq (rpc_history (rpc_state r')) (map op_kind (since_reset (ops @ [c])))"
  proof (cases "op_kind c = K_Reset")
    case True
    then have "c = Op_Reset" by (cases c) simp_all
    then have "rpc_state r' = CF_RPC_IDLE" using r'(1) zero_rpc_inv(2) by (auto simp: cf_rpc_reset_def)
    then show ?thesis by simp
  next
    case False
    have "subseq (rpc_history (rpc_state r) @ [op_kind c]) (map op_kind (since_reset ops) @ [op_kind c])"
      using r(3) by (intro list_emb_append_mono) simp_all
    with history_move [OF r'(3) False] show ?thesis using False
      by (auto simp: since_reset_simps intro: subseq_order.trans)
  qed
  then show ?case using r r' by (auto simp: rpc_run_snoc)
qed

section \<open>Properties\<close>

text \<open>
  C25. Whatever bytes the edge sends, \<open>cf_rpc_receive\<close> on a consistent client and an output array
  of the required size returns, writes at most the transmit limit and nothing behind it, keeps
  the client consistent, and either the answer moves the protocol forward, or the client is
  failed with exactly the reported error; a client that waits for nothing is left alone.
\<close>

theorem rpc_receive_total:
  assumes "rpc_inv r" "CF_RPC_TX_MAX \<le> length out" "CF_RPC_TX_MAX \<le> cap"
  shows "\<exists>rc r' out' n. cf_rpc_receive (Some r) (Bytes xs) (Some out) cap (Some n0) = Some (rc, Some r', Some out', Some n)
    \<and> rpc_inv r' \<and> n \<le> CF_RPC_TX_MAX \<and> length out' = length out \<and> drop CF_RPC_TX_MAX out' = drop CF_RPC_TX_MAX out
    \<and> (if \<not> rpc_active (rpc_state r) then rc = CF_ERR_STATE \<and> r' = r \<and> n = 0
       else if rc = CF_OK then answer_move (rpc_state r) (rpc_state r')
       else rpc_state r' = CF_RPC_FAILED \<and> rpc_error r' = rc)"
  using receive_yields [OF assms(2,3,1), of xs n0] assms(1)
  unfolding yields_def rpc_gives_def received_def by (auto split: if_splits)

lemma bootstrapping_inv: "rpc_inv (zero_rpc\<lparr>rpc_state := CF_RPC_BOOTSTRAPPING\<rparr>)"
  by (simp add: rpc_inv_def rpc_sized_def zero_rpc_def)

theorem rpc_receive_total_witness:
  "\<exists>rc r' out' n. cf_rpc_receive (Some (zero_rpc\<lparr>rpc_state := CF_RPC_BOOTSTRAPPING\<rparr>)) (Bytes [1, 2, 3]) (Some (replicate 1024 0)) 1024 (Some 7)
     = Some (rc, Some r', Some out', Some n) \<and> rpc_inv r' \<and> n \<le> 1024"
  using rpc_receive_total [OF bootstrapping_inv, of "replicate 1024 0" 1024 "[1, 2, 3]" 7]
  by (simp add: tx_max) blast

text \<open>
  C28. \<open>cf_rpc_register\<close> sends a registration exactly when the client is ready with a capability and
  the options and credentials are valid; then the message fits the transmit limit with any
  admissible secret, version, architecture and feature set, is a well-formed frame, and the
  client waits for the answer. In every other case nothing is written and the client is as before.
\<close>

theorem rpc_register_exact:
  assumes "CF_RPC_TX_MAX \<le> length out" "CF_RPC_TX_MAX \<le> cap" "cred_sized cred" "length (op_connector_id opt) = 16"
  shows "\<exists>rc r' out' n. cf_rpc_register (Some r) (Some cred) (Some opt) (Some out) cap (Some n0) = Some (rc, Some r', Some out', Some n)
    \<and> (if rpc_state r \<noteq> CF_RPC_READY \<or> \<not> rpc_have_capability r then rc = CF_ERR_STATE \<and> r' = r \<and> out' = out \<and> n = 0
       else if \<not> register_valid cred opt then rc = CF_ERR_ARGUMENT \<and> r' = r \<and> out' = out \<and> n = 0
       else rc = CF_OK \<and> r' = r\<lparr>rpc_state := CF_RPC_REGISTERING\<rparr> \<and> n \<le> CF_RPC_TX_MAX \<and> length out' = length out
         \<and> drop CF_RPC_TX_MAX out' = drop CF_RPC_TX_MAX out \<and> frame_ok CF_CAPNP_MESSAGE_MAX (take n out'))"
  using register_yields [OF assms, of r n0] unfolding yields_def rpc_gives_def out_frame_def by (auto split: if_splits)

definition sample_cred :: cf_credentials where
  "sample_cred = \<lparr>cr_account_tag = replicate 32 97 @ [0], cr_tunnel_id = replicate 16 1, cr_tunnel_secret = replicate 128 2, cr_tunnel_secret_len = 32\<rparr>"

definition sample_opt :: cf_rpc_options where
  "sample_opt = \<lparr>op_connector_id = replicate 16 3, op_local_ip = Bytes [10, 0, 0, 1], op_version = Bytes [49], op_arch = Bytes [120],
     op_connection_index = 0, op_previous_attempts = 0, op_replace_existing = False, op_features = 3\<rparr>"

lemma sample_sized: "cred_sized sample_cred" "length (op_connector_id sample_opt) = 16"
  by (simp_all add: sample_cred_def sample_opt_def cred_sized_def CF_TUNNEL_SECRET_MAX_def)

lemma sample_valid: "register_valid sample_cred sample_opt"
  by (simp add: register_valid_def sample_cred_def sample_opt_def ascii_def hex_char_def list_all_iff nth_append)

theorem rpc_register_exact_witness:
  "\<exists>r' out' n. cf_rpc_register (Some (zero_rpc\<lparr>rpc_state := CF_RPC_READY, rpc_have_capability := True\<rparr>)) (Some sample_cred) (Some sample_opt)
      (Some (replicate 1024 0)) 1024 (Some 0) = Some (CF_OK, Some r', Some out', Some n) \<and> rpc_state r' = CF_RPC_REGISTERING \<and> n \<le> 1024"
  using rpc_register_exact [of "replicate 1024 0" 1024 sample_cred sample_opt
      "zero_rpc\<lparr>rpc_state := CF_RPC_READY, rpc_have_capability := True\<rparr>" 0] sample_sized sample_valid
  by (auto simp: tx_max)

text \<open>
  C26. Whatever calls are made on a fresh client, with whatever frames arriving, every call returns,
  the client stays consistent, and its state is justified by the calls since the last reset: in
  particular it is registered only after a bootstrap was begun, an answer received, a
  registration sent and another answer received, in this order.
\<close>

theorem rpc_registration_order:
  assumes "list_all op_sized ops"
  shows "\<exists>r. rpc_run ops zero_rpc = Some r \<and> rpc_inv r
    \<and> (rpc_state r = CF_RPC_REGISTERED \<longrightarrow> subseq [K_Begin, K_Receive, K_Register, K_Receive] (map op_kind (since_reset ops))
         \<and> rpc_remotely_managed r \<and> location_ok (rpc_location r))
    \<and> subseq (rpc_history (rpc_state r)) (map op_kind (since_reset ops))"
  using rpc_run_history [OF assms] by (force simp: rpc_inv_def)

theorem rpc_registration_order_witness:
  "\<exists>r. rpc_run [Op_Begin, Op_Receive [1, 2], Op_Register sample_cred sample_opt, Op_Unregister, Op_Reset] zero_rpc = Some r
     \<and> rpc_state r \<noteq> CF_RPC_REGISTERED"
  using rpc_registration_order [of "[Op_Begin, Op_Receive [1, 2], Op_Register sample_cred sample_opt, Op_Unregister, Op_Reset]"] sample_sized
  by (auto simp: since_reset_def simp del: rpc_run.simps)

text \<open>
  The retry hint of a refused registration: a negative Go duration means no delay, a positive
  one is rounded up to whole milliseconds, without wrap-around, so a client never retries early.
\<close>

theorem rpc_retry_rounds_up:
  "unat (retry_ms ns) = (if unat ns < 2 ^ 63 then (unat ns + 999999) div 1000000 else 0)"
proof (cases "unat ns < 2 ^ 63")
  case True
  have d: "unat (drop_bit 63 ns) = unat ns div 2 ^ 63" unfolding unat_drop_bit_eq by (simp add: drop_bit_eq_div)
  then have z: "drop_bit 63 ns = 0" using True by (simp add: unat_eq_0 [symmetric] del: unat_eq_0)
  have q: "unat (ns div 1000000) = unat ns div 1000000" "unat (ns mod 1000000) = unat ns mod 1000000"
    by (simp_all add: unat_div unat_mod)
  have lt: "unat ns div 1000000 + 1 < 2 ^ 64" using True by simp
  have m: "ns mod 1000000 \<noteq> 0 \<longleftrightarrow> unat ns mod 1000000 \<noteq> 0" using q(2) by (metis unat_eq_0)
  have "unat (ns div 1000000 + (if ns mod 1000000 \<noteq> 0 then 1 else 0))
      = unat ns div 1000000 + (if unat ns mod 1000000 \<noteq> 0 then 1 else 0)"
    unfolding m using lt q(1) by (simp add: unat_word_ariths)
  also have "\<dots> = (unat ns + 999999) div 1000000"
  proof -
    define a where "a = unat ns"
    define k j where "k = a div 1000000" and "j = a mod 1000000"
    have "a = 1000000 * k + j" "j < 1000000" by (simp_all add: k_def j_def)
    then have "(a + 999999) div 1000000 = k + (j + 999999) div 1000000" by simp
    moreover have "(j + 999999) div 1000000 = (if j \<noteq> 0 then 1 else 0)"
      using \<open>j < 1000000\<close> by (auto simp: div_nat_eqI)
    ultimately show ?thesis by (simp add: a_def k_def j_def)
  qed
  finally show ?thesis using True z by (simp add: retry_ms_def)
next
  case False
  have d: "unat (drop_bit 63 ns) = unat ns div 2 ^ 63" unfolding unat_drop_bit_eq by (simp add: drop_bit_eq_div)
  have "unat ns div 2 ^ 63 \<noteq> 0" using False by simp
  then have "drop_bit 63 ns \<noteq> 0" using d by (metis unat_0)
  then show ?thesis using False by (simp add: retry_ms_def)
qed

end
