(* ===== verification/CF_Dns.thy ===== *)
theory CF_Dns
  imports CF_Prelude
begin

text \<open>
  The DNS stub codec of \<^verbatim>\<open>src/protocol/cf_dns.c\<close>: the query writer, the reader of compressed
  names and the answer parser. A C string argument is the list of its characters without the
  terminating NUL; character arrays are memory with the NUL in it.
\<close>

section \<open>Constants and records\<close>

definition CF_EDGE_PORT :: u16 where "CF_EDGE_PORT = 7844"
definition CF_DNS_PACKET_MAX :: nat where "CF_DNS_PACKET_MAX = 1232"
definition CF_DNS_RECORD_MAX :: nat where "CF_DNS_RECORD_MAX = 16"
definition CF_DNS_NAME_MAX :: nat where "CF_DNS_NAME_MAX = 253"

text \<open>The enumeration \<open>cf_dns_type\<close> by its values; a caller may pass any other.\<close>

type_synonym cf_dns_type = nat

definition CF_DNS_A :: cf_dns_type where "CF_DNS_A = 1"
definition CF_DNS_SRV :: cf_dns_type where "CF_DNS_SRV = 33"

record cf_dns_record =
  dr_target :: mem
  dr_ip :: mem
  dr_priority :: u16
  dr_weight :: u16
  dr_port :: u16
  dr_ttl :: u32

record cf_dns_answer =
  da_records :: "cf_dns_record list"
  da_count :: nat

definition zero_record :: cf_dns_record where
  "zero_record = \<lparr>dr_target = replicate (CF_DNS_NAME_MAX + 1) 0, dr_ip = replicate 4 0, dr_priority = 0, dr_weight = 0, dr_port = 0, dr_ttl = 0\<rparr>"

definition zero_answer :: cf_dns_answer where
  "zero_answer = \<lparr>da_records = replicate CF_DNS_RECORD_MAX zero_record, da_count = 0\<rparr>"

text \<open>The C string in a character array; reading it is undefined without a NUL.\<close>

definition cstring :: "mem \<Rightarrow> u8 list option" where
  "cstring m = (if 0 \<in> set m then Some (takeWhile (\<lambda>c. c \<noteq> 0) m) else None)"

section \<open>Big-endian integers\<close>

definition u16_be :: "mem \<Rightarrow> nat \<Rightarrow> u16 option" where
  "u16_be m p = do {
     a \<leftarrow> load m p;
     b \<leftarrow> load m (p + 1);
     Some (push_bit 8 (ucast a) OR ucast b)
   }"

definition u32_be :: "mem \<Rightarrow> nat \<Rightarrow> u32 option" where
  "u32_be m p = do {
     a \<leftarrow> u16_be m p;
     b \<leftarrow> u16_be m (p + 2);
     Some (push_bit 16 (ucast a) OR ucast b)
   }"

definition put16 :: "mem \<Rightarrow> nat \<Rightarrow> u16 \<Rightarrow> mem option" where
  "put16 m p n = do {
     m \<leftarrow> store m p (ucast (drop_bit 8 n));
     store m (p + 1) (ucast n)
   }"

definition lower :: "u8 \<Rightarrow> u8" where
  "lower c = (if c \<ge> ch CHR ''A'' \<and> c \<le> ch CHR ''Z'' then c + 32 else c)"

definition name_char :: "u8 \<Rightarrow> bool" where
  "name_char c \<longleftrightarrow> (c \<ge> ch CHR ''a'' \<and> c \<le> ch CHR ''z'') \<or> (c \<ge> ch CHR ''0'' \<and> c \<le> ch CHR ''9'') \<or> c = ch CHR ''-'' \<or> c = ch CHR ''_''"

definition edge_suffix :: "u8 list" where
  "edge_suffix = str ''.argotunnel.com''"

definition cf_dns_edge_target :: "u8 list option \<Rightarrow> bool" where
  "cf_dns_edge_target name = (case name of None \<Rightarrow> False | Some s \<Rightarrow>
     length s > length edge_suffix \<and> length s \<le> CF_DNS_NAME_MAX \<and> drop (length s - length edge_suffix) s = edge_suffix)"

section \<open>The query\<close>

text \<open>The inner loop \<open>while (start < i)\<close>; \<open>k\<close> characters are left.\<close>

fun query_label :: "u8 list \<Rightarrow> nat \<Rightarrow> nat \<Rightarrow> nat \<Rightarrow> mem \<Rightarrow> (nat \<times> mem) option" where
  "query_label name start 0 offset out = Some (offset, out)"
| "query_label name start (Suc k) offset out = do {
     c \<leftarrow> load name start;
     out \<leftarrow> store out offset (lower c);
     query_label name (start + 1) k (offset + 1) out
   }"

text \<open>The loop over the name; \<open>k\<close> iterations are left. An error is on the left.\<close>

fun query_loop :: "u8 list \<Rightarrow> nat \<Rightarrow> nat \<Rightarrow> nat \<Rightarrow> nat \<Rightarrow> nat \<Rightarrow> mem \<Rightarrow> ((cf_result \<times> mem) + (nat \<times> mem)) option" where
  "query_loop name i 0 label start offset out = Some (Inr (offset, out))"
| "query_loop name i (Suc k) label start offset out =
     (if i = length name \<or> name ! i = ch CHR ''.'' then
        if label = 0 \<or> label > 63 then Some (Inl (CF_ERR_ARGUMENT, out))
        else do {
          out \<leftarrow> store out offset (word_of_nat label);
          (offset, out) \<leftarrow> query_label name start (i - start) (offset + 1) out;
          query_loop name (i + 1) k 0 (i + 1) offset out
        }
      else if \<not> name_char (lower (name ! i)) then Some (Inl (CF_ERR_ARGUMENT, out))
      else query_loop name (i + 1) k (label + 1) start offset out)"

definition cf_dns_query :: "u8 list option \<Rightarrow> cf_dns_type \<Rightarrow> u16 \<Rightarrow> mem option \<Rightarrow> nat \<Rightarrow> nat option
    \<Rightarrow> (cf_result \<times> mem option \<times> nat option) option" where
  "cf_dns_query namep type qid outp cap written = (case written of None \<Rightarrow> Some (CF_ERR_ARGUMENT, outp, None) | Some _ \<Rightarrow>
     if namep = None \<or> outp = None \<or> (type \<noteq> CF_DNS_A \<and> type \<noteq> CF_DNS_SRV) then Some (CF_ERR_ARGUMENT, outp, Some 0)
     else do {
       name \<leftarrow> namep;
       out \<leftarrow> outp;
       let n = length name;
       if n = 0 \<or> n > CF_DNS_NAME_MAX \<or> cap < n + 29 then Some (CF_ERR_LIMIT, outp, Some 0)
       else do {
         out \<leftarrow> store_n out 0 (replicate 12 0);
         out \<leftarrow> put16 out 0 qid;
         out \<leftarrow> store out 2 1;
         out \<leftarrow> store out 5 1;
         out \<leftarrow> store out 11 1;
         r \<leftarrow> query_loop name 0 (n + 1) 0 0 12 out;
         (case r of
            Inl (rc, out) \<Rightarrow> Some (rc, Some out, Some 0)
          | Inr (offset, out) \<Rightarrow> do {
              out \<leftarrow> store out offset 0;
              let offset = offset + 1;
              out \<leftarrow> put16 out offset (word_of_nat type);
              out \<leftarrow> put16 out (offset + 2) 1;
              let offset = offset + 4;
              out \<leftarrow> store_n out offset (replicate 11 0);
              out \<leftarrow> put16 out (offset + 1) 41;
              out \<leftarrow> put16 out (offset + 3) (word_of_nat CF_DNS_PACKET_MAX);
              Some (CF_OK, Some out, Some (offset + 11))
            })
       }
     })"

section \<open>Names\<close>

record name_state =
  ns_at :: nat
  ns_used :: nat
  ns_resume :: nat
  ns_hops :: nat
  ns_labels :: nat
  ns_out :: mem

text \<open>The inner loop \<open>while (n--)\<close>: \<open>None\<close> in the first component is the format error.\<close>

fun copy_label :: "u8 list \<Rightarrow> nat \<Rightarrow> nat \<Rightarrow> nat \<Rightarrow> mem \<Rightarrow> ((nat \<times> nat) option \<times> mem) option" where
  "copy_label p at used 0 out = Some (Some (at, used), out)"
| "copy_label p at used (Suc n) out = do {
     c \<leftarrow> load p at;
     let c = lower c;
     if \<not> name_char c then Some (None, out)
     else do {
       out \<leftarrow> store out used c;
       copy_label p (at + 1) (used + 1) n out
     }
   }"

text \<open>
  The result of one iteration of the loop of \<open>read_name\<close>: on the left the result code, the value
  of \<open>*offset\<close> when it is written, and the output array; on the right the state of the next
  iteration. First a compression pointer, then a label; \<open>n\<close> is the byte read before \<open>at\<close>.
\<close>

type_synonym name_result = "((cf_result \<times> nat option \<times> mem) + name_state) option"

definition name_pointer :: "u8 list \<Rightarrow> name_state \<Rightarrow> u8 \<Rightarrow> nat \<Rightarrow> name_result" where
  "name_pointer p s n at =
     (if at \<ge> length p then Some (Inl (CF_ERR_TRUNCATED, None, ns_out s))
      else do {
        low \<leftarrow> load p at;
        let target = unat (n AND 0x3f) * 256 + unat low;
        let at = at + 1;
        let hops = ns_hops s + 1;
        if hops > 16 \<or> target \<ge> at - 2 then Some (Inl (CF_ERR_FORMAT, None, ns_out s))
        else Some (Inr (s\<lparr>ns_hops := hops, ns_resume := (if ns_resume s = 0 then at else ns_resume s), ns_at := target\<rparr>))
      })"

definition name_label :: "u8 list \<Rightarrow> name_state \<Rightarrow> nat \<Rightarrow> nat \<Rightarrow> name_result" where
  "name_label p s n at =
     (let used = ns_used s; out = ns_out s; labels = ns_labels s + 1 in
      if labels > 127 \<or> n > length p - at \<or> used + n + (if used \<noteq> 0 then 1 else 0) > CF_DNS_NAME_MAX
      then Some (Inl (CF_ERR_LIMIT, None, out))
      else do {
        (used, out) \<leftarrow> (if used \<noteq> 0 then map_option (\<lambda>out. (used + 1, out)) (store out used (ch CHR ''.'')) else Some (used, out));
        (r, out) \<leftarrow> copy_label p at used n out;
        (case r of
           None \<Rightarrow> Some (Inl (CF_ERR_FORMAT, None, out))
         | Some (at, used) \<Rightarrow> Some (Inr (s\<lparr>ns_labels := labels, ns_at := at, ns_used := used, ns_out := out\<rparr>)))
      })"

definition read_name_step :: "u8 list \<Rightarrow> name_state \<Rightarrow> name_result" where
  "read_name_step p s =
     (let at = ns_at s in
      if at \<ge> length p then Some (Inl (CF_ERR_TRUNCATED, None, ns_out s))
      else do {
        n \<leftarrow> load p at;
        let at = at + 1;
        if n AND 0xc0 = 0xc0 then name_pointer p s n at
        else if n > 63 then Some (Inl (CF_ERR_FORMAT, None, ns_out s))
        else if n = 0 then do {
          out \<leftarrow> store (ns_out s) (ns_used s) 0;
          Some (Inl (CF_OK, Some (if ns_resume s \<noteq> 0 then ns_resume s else at), out))
        }
        else name_label p s (unat n) at
      })"

lemma copy_label_at: "copy_label p at used n out = Some (Some (at', used'), out') \<Longrightarrow> at' = at + n \<and> used' = used + n"
  by (induction p at used n out arbitrary: at' used' out' rule: copy_label.induct)
    (auto simp: Let_def split: Option.bind_splits if_splits)

lemma name_pointer_next:
  "name_pointer p s n at = Some (Inr s') \<Longrightarrow> ns_hops s' = ns_hops s + 1 \<and> ns_hops s' \<le> 16"
  by (auto simp: name_pointer_def Let_def split: Option.bind_splits if_splits)

lemma name_label_next:
  "name_label p s n at = Some (Inr s') \<Longrightarrow> ns_hops s' = ns_hops s \<and> ns_at s' = at + n"
  by (auto simp: name_label_def Let_def split: Option.bind_splits if_splits option.splits dest!: copy_label_at)

lemma read_name_progress:
  assumes "read_name_step p s = Some (Inr s')"
  shows "17 - ns_hops s' < 17 - ns_hops s \<or> (ns_hops s' = ns_hops s \<and> length p - ns_at s' < length p - ns_at s)"
proof -
  obtain n where "ns_at s < length p" "name_pointer p s n (ns_at s + 1) = Some (Inr s') \<or> name_label p s (unat n) (ns_at s + 1) = Some (Inr s')"
    using assms by (auto simp: read_name_step_def Let_def split: Option.bind_splits if_splits)
  then show ?thesis by (auto dest!: name_pointer_next name_label_next)
qed

function read_name_loop :: "u8 list \<Rightarrow> name_state \<Rightarrow> (cf_result \<times> nat option \<times> mem) option" where
  "read_name_loop p s = (case read_name_step p s of
     None \<Rightarrow> None
   | Some (Inl r) \<Rightarrow> Some r
   | Some (Inr s') \<Rightarrow> read_name_loop p s')"
  by pat_completeness auto
termination
  by (relation "(\<lambda>(p, s). 17 - ns_hops s) <*mlex*> measure (\<lambda>(p, s). length p - ns_at s)")
    (auto intro: wf_mlex simp: mlex_iff dest!: read_name_progress)

declare read_name_loop.simps [simp del]

definition read_name :: "u8 list \<Rightarrow> nat \<Rightarrow> mem \<Rightarrow> (cf_result \<times> nat \<times> mem) option" where
  "read_name p offset out = do {
     (rc, at, out) \<leftarrow> read_name_loop p \<lparr>ns_at = offset, ns_used = 0, ns_resume = 0, ns_hops = 0, ns_labels = 0, ns_out = out\<rparr>;
     Some (rc, (case at of None \<Rightarrow> offset | Some at \<Rightarrow> at), out)
   }"

section \<open>The answer\<close>

text \<open>The data of an A and of an SRV record, put into a record; on the left the error.\<close>

definition parse_a :: "u8 list \<Rightarrow> nat \<Rightarrow> nat \<Rightarrow> cf_dns_record \<Rightarrow> (cf_result + cf_dns_record) option" where
  "parse_a p at len record =
     (if len \<noteq> 4 then Some (Inl CF_ERR_FORMAT)
      else do {
        ip \<leftarrow> load_n p at 4;
        ip \<leftarrow> store_n (dr_ip record) 0 ip;
        first \<leftarrow> load ip 0;
        if first = 0 \<or> first \<ge> 224 \<or> first = 127 then Some (Inl CF_ERR_FORMAT)
        else Some (Inr (record\<lparr>dr_ip := ip\<rparr>))
      })"

definition parse_srv :: "u8 list \<Rightarrow> nat \<Rightarrow> nat \<Rightarrow> nat \<Rightarrow> cf_dns_record \<Rightarrow> (cf_result + cf_dns_record) option" where
  "parse_srv p at len fin record =
     (if len < 7 then Some (Inl CF_ERR_FORMAT)
      else do {
        priority \<leftarrow> u16_be p at;
        weight \<leftarrow> u16_be p (at + 2);
        port \<leftarrow> u16_be p (at + 4);
        (rc, at, target) \<leftarrow> read_name p (at + 6) (dr_target record);
        if rc \<noteq> CF_OK then Some (Inl rc)
        else do {
          name \<leftarrow> cstring target;
          if at \<noteq> fin \<or> port \<noteq> CF_EDGE_PORT \<or> \<not> cf_dns_edge_target (Some name) then Some (Inl CF_ERR_UNSUPPORTED)
          else Some (Inr (record\<lparr>dr_priority := priority, dr_weight := weight, dr_port := port, dr_target := target\<rparr>))
        }
      })"

text \<open>An accepted record of the answer section; on the left the error.\<close>

definition parse_record :: "u8 list \<Rightarrow> cf_dns_type \<Rightarrow> nat \<Rightarrow> nat \<Rightarrow> nat \<Rightarrow> u32 \<Rightarrow> cf_dns_answer \<Rightarrow> (cf_result + cf_dns_answer) option" where
  "parse_record p type at len fin ttl out =
     (if da_count out \<ge> CF_DNS_RECORD_MAX then Some (Inl CF_ERR_LIMIT)
      else do {
        record \<leftarrow> load (da_records out) (da_count out);
        let record = record\<lparr>dr_ttl := ttl\<rparr>;
        r \<leftarrow> (if type = CF_DNS_A then parse_a p at len record else parse_srv p at len fin record);
        (case r of
           Inl rc \<Rightarrow> Some (Inl rc)
         | Inr record \<Rightarrow> do {
             records \<leftarrow> store (da_records out) (da_count out) record;
             Some (Inr (out\<lparr>da_records := records, da_count := da_count out + 1\<rparr>))
           })
      })"

text \<open>One iteration of the loop over the records; on the left the error.\<close>

definition parse_step :: "u8 list \<Rightarrow> u8 list \<Rightarrow> cf_dns_type \<Rightarrow> bool \<Rightarrow> nat \<Rightarrow> mem \<Rightarrow> cf_dns_answer
    \<Rightarrow> (cf_result + (nat \<times> mem \<times> cf_dns_answer)) option" where
  "parse_step p name type answer at owner out = do {
     (rc, at, owner) \<leftarrow> read_name p at owner;
     if rc \<noteq> CF_OK then Some (Inl rc)
     else if at + 10 > length p then Some (Inl CF_ERR_TRUNCATED)
     else do {
       record_type \<leftarrow> u16_be p at;
       record_class \<leftarrow> u16_be p (at + 2);
       ttl \<leftarrow> u32_be p (at + 4);
       len \<leftarrow> u16_be p (at + 8);
       let at = at + 10;
       if unat len > length p - at then Some (Inl CF_ERR_TRUNCATED)
       else do {
         let fin = at + unat len;
         own \<leftarrow> cstring owner;
         if answer \<and> unat record_type = type \<and> record_class = 1 \<and> own = name then do {
           r \<leftarrow> parse_record p type at (unat len) fin ttl out;
           (case r of Inl rc \<Rightarrow> Some (Inl rc) | Inr out \<Rightarrow> Some (Inr (fin, owner, out)))
         }
         else Some (Inr (fin, owner, out))
       }
     }
   }"

fun parse_loop :: "u8 list \<Rightarrow> u8 list \<Rightarrow> cf_dns_type \<Rightarrow> nat \<Rightarrow> nat \<Rightarrow> nat \<Rightarrow> nat \<Rightarrow> mem \<Rightarrow> cf_dns_answer
    \<Rightarrow> (cf_result + (nat \<times> cf_dns_answer)) option" where
  "parse_loop p name type answers i 0 at owner out = Some (Inr (at, out))"
| "parse_loop p name type answers i (Suc k) at owner out =
     (case parse_step p name type (i < answers) at owner out of
        None \<Rightarrow> None
      | Some (Inl rc) \<Rightarrow> Some (Inl rc)
      | Some (Inr (at, owner, out)) \<Rightarrow> parse_loop p name type answers (i + 1) k at owner out)"

text \<open>The header checks; on the left the error of an early return.\<close>

definition parse_header :: "u8 list \<Rightarrow> u16 \<Rightarrow> cf_result option option" where
  "parse_header p qid =
     (if length p < 12 then Some (Some CF_ERR_TRUNCATED)
      else if length p > CF_DNS_PACKET_MAX then Some (Some CF_ERR_LIMIT)
      else do {
        pid \<leftarrow> u16_be p 0;
        flags \<leftarrow> load p 2;
        questions \<leftarrow> u16_be p 4;
        if pid \<noteq> qid \<or> flags AND 0xf8 \<noteq> 0x80 \<or> questions \<noteq> 1 then Some (Some CF_ERR_FORMAT)
        else if flags AND 2 \<noteq> 0 then Some (Some CF_ERR_TRUNCATED)
        else do {
          rcode \<leftarrow> load p 3;
          if rcode AND 15 \<noteq> 0 then Some (Some CF_ERR_STATE) else Some None
        }
      })"

definition parse_question :: "u8 list \<Rightarrow> u8 list \<Rightarrow> cf_dns_type \<Rightarrow> (cf_result + (nat \<times> mem)) option" where
  "parse_question p name type = do {
     (rc, at, owner) \<leftarrow> read_name p 12 (replicate (CF_DNS_NAME_MAX + 1) 0);
     if rc \<noteq> CF_OK then Some (Inl rc)
     else do {
       own \<leftarrow> cstring owner;
       if own \<noteq> name \<or> at + 4 > length p then Some (Inl CF_ERR_FORMAT)
       else do {
         qtype \<leftarrow> u16_be p at;
         qclass \<leftarrow> u16_be p (at + 2);
         if unat qtype \<noteq> type \<or> qclass \<noteq> 1 then Some (Inl CF_ERR_FORMAT) else Some (Inr (at + 4, owner))
       }
     }
   }"

definition cf_dns_parse :: "cf_bytes \<Rightarrow> u8 list option \<Rightarrow> cf_dns_type \<Rightarrow> u16 \<Rightarrow> cf_dns_answer option
    \<Rightarrow> (cf_result \<times> cf_dns_answer option) option" where
  "cf_dns_parse packet namep type qid outp = (case outp of None \<Rightarrow> Some (CF_ERR_ARGUMENT, None) | Some _ \<Rightarrow>
     let out = zero_answer in
     if bytes_null packet \<or> namep = None \<or> (type \<noteq> CF_DNS_A \<and> type \<noteq> CF_DNS_SRV) then Some (CF_ERR_ARGUMENT, Some out)
     else do {
       name \<leftarrow> namep;
       let p = bytes_list packet;
       h \<leftarrow> parse_header p qid;
       (case h of Some rc \<Rightarrow> Some (rc, Some out) | None \<Rightarrow> do {
          q \<leftarrow> parse_question p name type;
          (case q of Inl rc \<Rightarrow> Some (rc, Some out) | Inr (at, owner) \<Rightarrow> do {
             answers \<leftarrow> u16_be p 6;
             authority \<leftarrow> u16_be p 8;
             additional \<leftarrow> u16_be p 10;
             let count = unat answers + unat authority + unat additional;
             if count > 64 then Some (CF_ERR_LIMIT, Some out)
             else do {
               r \<leftarrow> parse_loop p name type (unat answers) 0 count at owner out;
               (case r of
                  Inl rc \<Rightarrow> Some (rc, Some zero_answer)
                | Inr (at, out) \<Rightarrow>
                    if at \<noteq> length p then Some (CF_ERR_FORMAT, Some zero_answer)
                    else Some (if da_count out \<noteq> 0 then CF_OK else CF_ERR_STATE, Some out))
             }
          })
       })
     })"


section \<open>Reading names\<close>

lemma u16_be_Some: "p + 2 \<le> length m \<Longrightarrow> \<exists>w. u16_be m p = Some w"
  by (simp add: u16_be_def load_def)

lemma u32_be_Some: "p + 4 \<le> length m \<Longrightarrow> \<exists>w. u32_be m p = Some w"
  using u16_be_Some [of p m] u16_be_Some [of "p + 2" m] by (auto simp: u32_be_def)

lemma name_char_nonzero: "name_char c \<Longrightarrow> c \<noteq> 0"
  by (auto simp: name_char_def)

lemma copy_label_eq:
  assumes "at + n \<le> length p" "used + n \<le> length out"
  shows "\<exists>r out'. copy_label p at used n out = Some (r, out') \<and> length out' = length out
    \<and> (if list_all (\<lambda>c. name_char (lower c)) (take n (drop at p))
       then r = Some (at + n, used + n) \<and> out' = splice out used (map lower (take n (drop at p))) else r = None)"
  using assms
proof (induction n arbitrary: at used out)
  case (Suc n)
  have at: "at < length p" and d: "take (Suc n) (drop at p) = p ! at # take n (drop (Suc at) p)"
    using Suc.prems(1) by (simp_all add: Cons_nth_drop_Suc [symmetric])
  show ?case
  proof (cases "name_char (lower (p ! at))")
    case False
    then show ?thesis using at d Suc.prems(2) by (simp add: load_def Let_def)
  next
    case True
    let ?out = "out[used := lower (p ! at)]"
    have upd: "?out = splice out used [lower (p ! at)]"
      using splice_snoc [of used "[]" out "lower (p ! at)"] Suc.prems(2) by simp
    obtain r out' where IH: "copy_label p (at + 1) (used + 1) n ?out = Some (r, out')" "length out' = length ?out"
        "if list_all (\<lambda>c. name_char (lower c)) (take n (drop (at + 1) p))
         then r = Some (at + 1 + n, used + 1 + n) \<and> out' = splice ?out (used + 1) (map lower (take n (drop (at + 1) p))) else r = None"
      using Suc.IH [of "at + 1" "used + 1" ?out] Suc.prems by auto
    have "splice ?out (used + 1) (map lower (take n (drop (at + 1) p))) = splice out used (lower (p ! at) # map lower (take n (drop (at + 1) p)))"
      using splice_splice [of used "[lower (p ! at)]" "map lower (take n (drop (at + 1) p))" out] Suc.prems unfolding upd by simp
    then show ?thesis using IH True at d Suc.prems(2) by (simp add: load_def store_def Let_def)
  qed
qed simp

text \<open>The loop invariant of \<open>read_name\<close>: the characters so far are a name, with room for the NUL.\<close>

definition dns_char :: "u8 \<Rightarrow> bool" where
  "dns_char c \<longleftrightarrow> name_char c \<or> c = ch CHR ''.''"

definition name_inv :: "u8 list \<Rightarrow> name_state \<Rightarrow> bool" where
  "name_inv p s \<longleftrightarrow> length (ns_out s) = 254 \<and> ns_used s \<le> 253 \<and> ns_resume s \<le> length p \<and> list_all dns_char (take (ns_used s) (ns_out s))"

text \<open>What a finished name is: a C string of at most 253 name characters in its array.\<close>

definition name_done :: "u8 list \<Rightarrow> cf_result \<Rightarrow> nat option \<Rightarrow> mem \<Rightarrow> bool" where
  "name_done p rc at out \<longleftrightarrow> length out = 254 \<and> (if rc = CF_OK
     then (\<exists>a name. at = Some a \<and> a \<le> length p \<and> cstring out = Some name \<and> length name \<le> 253 \<and> list_all dns_char name)
     else at = None)"

lemma dns_char_nonzero: "dns_char c \<Longrightarrow> c \<noteq> 0"
  by (auto simp: dns_char_def dest: name_char_nonzero)

lemma cstring_store:
  assumes "used < length out" "list_all (\<lambda>c. c \<noteq> 0) (take used out)"
  shows "cstring (out[used := 0]) = Some (take used out)"
proof -
  have e: "out[used := 0] = take used out @ 0 # drop (Suc used) out" using assms(1) by (rule upd_conv_take_nth_drop)
  have "takeWhile (\<lambda>c. c \<noteq> 0) (take used out @ 0 # drop (Suc used) out) = take used out"
    using assms(2) by (subst takeWhile_append2) (auto simp: list_all_iff)
  then show ?thesis unfolding e by (simp add: cstring_def)
qed

lemma take_splice_end: "i + length xs \<le> length m \<Longrightarrow> take (i + length xs) (splice m i xs) = take i m @ xs"
  by (simp add: splice_def)

text \<open>The separator before a further label.\<close>

abbreviation dot :: "nat \<Rightarrow> u8 list" where
  "dot used \<equiv> (if used \<noteq> 0 then [ch CHR ''.''] else [])"

lemma name_label_eq:
  assumes "name_inv p s" "at + n \<le> length p" "ns_labels s < 127" "ns_used s + length (dot (ns_used s)) + n \<le> 253"
  shows "\<exists>out'. length out' = 254 \<and> (if list_all (\<lambda>c. name_char (lower c)) (take n (drop at p))
    then name_label p s n at = Some (Inr (s\<lparr>ns_labels := ns_labels s + 1, ns_at := at + n,
        ns_used := ns_used s + length (dot (ns_used s)) + n, ns_out := out'\<rparr>))
      \<and> take (ns_used s + length (dot (ns_used s)) + n) out' = take (ns_used s) (ns_out s) @ dot (ns_used s) @ map lower (take n (drop at p))
    else name_label p s n at = Some (Inl (CF_ERR_FORMAT, None, out')))"
proof -
  let ?u = "ns_used s" let ?d = "dot ?u"
  define u out where "u = ?u + length ?d" and "out = splice (ns_out s) ?u ?d"
  have inv: "length (ns_out s) = 254" "?u \<le> 253" using assms(1) by (simp_all add: name_inv_def)
  have l: "?u + length ?d \<le> length (ns_out s)" using inv by simp
  have out: "length out = 254" "take u out = take ?u (ns_out s) @ ?d"
    unfolding out_def u_def length_splice [OF l] by (rule inv, rule take_splice_end [OF l])
  have sep: "(if ?u \<noteq> 0 then map_option (\<lambda>out. (?u + 1, out)) (store (ns_out s) ?u (ch CHR ''.'')) else Some (?u, ns_out s)) = Some (u, out)"
    using inv splice_snoc [of ?u "[]" "ns_out s" "ch CHR ''.''"] by (simp add: store_def u_def out_def)
  have guard: "\<not> (ns_labels s + 1 > 127 \<or> n > length p - at \<or> ?u + n + (if ?u \<noteq> 0 then 1 else 0) > CF_DNS_NAME_MAX)"
    using assms(2-4) by (auto simp: CF_DNS_NAME_MAX_def split: if_splits)
  have room: "u + n \<le> length out" using assms(4) out(1) by (simp add: u_def)
  obtain r out' where c: "copy_label p at u n out = Some (r, out')" "length out' = length out"
      "if list_all (\<lambda>c. name_char (lower c)) (take n (drop at p))
       then r = Some (at + n, u + n) \<and> out' = splice out u (map lower (take n (drop at p))) else r = None"
    using copy_label_eq [OF assms(2) room] by blast
  have L: "name_label p s n at = (case r of None \<Rightarrow> Some (Inl (CF_ERR_FORMAT, None, out'))
      | Some (a, v) \<Rightarrow> Some (Inr (s\<lparr>ns_labels := ns_labels s + 1, ns_at := a, ns_used := v, ns_out := out'\<rparr>)))"
    unfolding name_label_def Let_def if_not_P [OF guard] sep bind.bind_lunit prod.case c(1) ..
  have len: "length (map lower (take n (drop at p))) = n" using assms(2) by simp
  show ?thesis
  proof (cases "list_all (\<lambda>c. name_char (lower c)) (take n (drop at p))")
    case True
    have "take (u + n) out' = take u out @ map lower (take n (drop at p))"
      using c(3) True take_splice_end [of u "map lower (take n (drop at p))" out] room len by simp
    then show ?thesis unfolding L u_def [symmetric] using c True out by (intro exI [of _ out']) simp
  next
    case False
    then show ?thesis using L c out(1) by simp
  qed
qed

lemma name_label_inv:
  assumes "name_inv p s" "at \<le> length p"
  shows "case name_label p s n at of None \<Rightarrow> False | Some (Inl (rc, a, out)) \<Rightarrow> rc \<noteq> CF_OK \<and> name_done p rc a out | Some (Inr s') \<Rightarrow> name_inv p s'"
proof (cases "ns_labels s + 1 > 127 \<or> n > length p - at \<or> ns_used s + n + (if ns_used s \<noteq> 0 then 1 else 0) > CF_DNS_NAME_MAX")
  case True
  then show ?thesis using assms by (simp add: name_label_def Let_def name_done_def name_inv_def)
next
  case False
  have fit: "at + n \<le> length p" "ns_labels s < 127" "ns_used s + length (dot (ns_used s)) + n \<le> 253"
    using False assms(2) by (auto simp: CF_DNS_NAME_MAX_def)
  have old: "list_all dns_char (take (ns_used s) (ns_out s))" "list_all dns_char (dot (ns_used s))" "ns_resume s \<le> length p"
    using assms(1) by (simp_all add: name_inv_def dns_char_def)
  show ?thesis
  proof (cases "list_all (\<lambda>c. name_char (lower c)) (take n (drop at p))")
    case True
    then obtain out' where o: "length out' = 254" "name_label p s n at = Some (Inr (s\<lparr>ns_labels := ns_labels s + 1, ns_at := at + n,
        ns_used := ns_used s + length (dot (ns_used s)) + n, ns_out := out'\<rparr>))"
        "take (ns_used s + length (dot (ns_used s)) + n) out' = take (ns_used s) (ns_out s) @ dot (ns_used s) @ map lower (take n (drop at p))"
      using name_label_eq [OF assms(1) fit] by auto
    have "list_all dns_char (map lower (take n (drop at p)))" using True by (auto simp: list_all_iff dns_char_def)
    then have "list_all dns_char (take (ns_used s + length (dot (ns_used s)) + n) out')"
      unfolding o(3) list_all_append using old by blast
    then show ?thesis using o(1) fit(3) old(3) unfolding o(2) by (simp add: name_inv_def)
  next
    case False
    then obtain out' where "length out' = 254" "name_label p s n at = Some (Inl (CF_ERR_FORMAT, None, out'))"
      using name_label_eq [OF assms(1) fit] by auto
    then show ?thesis by (simp add: name_done_def)
  qed
qed

lemma name_pointer_inv:
  assumes "name_inv p s"
  shows "case name_pointer p s n at of None \<Rightarrow> False | Some (Inl (rc, a, out)) \<Rightarrow> rc \<noteq> CF_OK \<and> name_done p rc a out | Some (Inr s') \<Rightarrow> name_inv p s'"
  using assms by (auto simp: name_pointer_def Let_def load_def name_inv_def name_done_def)

lemma read_name_step_inv:
  assumes "name_inv p s"
  shows "case read_name_step p s of None \<Rightarrow> False | Some (Inl (rc, a, out)) \<Rightarrow> name_done p rc a out | Some (Inr s') \<Rightarrow> name_inv p s'"
proof (cases "ns_at s \<ge> length p")
  case True
  then show ?thesis using assms by (simp add: read_name_step_def name_done_def name_inv_def)
next
  case False
  have P: "case name_pointer p s n at of None \<Rightarrow> False | Some (Inl (rc, a, out)) \<Rightarrow> name_done p rc a out | Some (Inr s') \<Rightarrow> name_inv p s'" for n at
    using name_pointer_inv [OF assms, of n at] by (auto split: option.splits sum.splits)
  have L: "case name_label p s n (ns_at s + 1) of None \<Rightarrow> False | Some (Inl (rc, a, out)) \<Rightarrow> name_done p rc a out | Some (Inr s') \<Rightarrow> name_inv p s'" for n
    using name_label_inv [OF assms, of "ns_at s + 1" n] False by (auto split: option.splits sum.splits)
  have Z: "store (ns_out s) (ns_used s) 0 = Some ((ns_out s)[ns_used s := 0])" "cstring ((ns_out s)[ns_used s := 0]) = Some (take (ns_used s) (ns_out s))"
    using assms cstring_store [of "ns_used s" "ns_out s"]
    by (auto simp: name_inv_def store_def list_all_iff dest: dns_char_nonzero)
  show ?thesis using False P L Z assms
    by (auto simp: read_name_step_def Let_def load_def name_done_def name_inv_def)
qed

lemma read_name_loop_inv: "name_inv p s \<Longrightarrow> \<exists>rc a out. read_name_loop p s = Some (rc, a, out) \<and> name_done p rc a out"
proof (induction p s rule: read_name_loop.induct)
  case (1 p s)
  show ?case
    using 1 read_name_step_inv [OF 1(2)] by (subst read_name_loop.simps) (fastforce split: option.splits sum.splits)
qed

lemma read_name_ok:
  assumes "length out = 254"
  shows "\<exists>rc a out'. read_name p at out = Some (rc, a, out') \<and> length out' = 254
    \<and> (rc = CF_OK \<longrightarrow> a \<le> length p \<and> (\<exists>name. cstring out' = Some name \<and> length name \<le> 253 \<and> list_all dns_char name))"
proof -
  let ?s = "\<lparr>ns_at = at, ns_used = 0, ns_resume = 0, ns_hops = 0, ns_labels = 0, ns_out = out\<rparr>"
  have "name_inv p ?s" using assms by (simp add: name_inv_def)
  from read_name_loop_inv [OF this] show ?thesis by (auto simp: read_name_def name_done_def)
qed


section \<open>Parsing answers\<close>

definition record_sized :: "cf_dns_record \<Rightarrow> bool" where
  "record_sized r \<longleftrightarrow> length (dr_target r) = 254 \<and> length (dr_ip r) = 4"

text \<open>A record the transport may use: a unicast address, or an edge host at the edge port.\<close>

definition record_ok :: "cf_dns_type \<Rightarrow> cf_dns_record \<Rightarrow> bool" where
  "record_ok type r \<longleftrightarrow> (if type = CF_DNS_A then dr_ip r ! 0 \<noteq> 0 \<and> dr_ip r ! 0 \<noteq> 127 \<and> dr_ip r ! 0 < 224
     else dr_port r = CF_EDGE_PORT \<and> (\<exists>name. cstring (dr_target r) = Some name \<and> cf_dns_edge_target (Some name) \<and> list_all dns_char name))"

definition answer_inv :: "cf_dns_type \<Rightarrow> cf_dns_answer \<Rightarrow> bool" where
  "answer_inv type a \<longleftrightarrow> length (da_records a) = 16 \<and> da_count a \<le> 16 \<and> list_all record_sized (da_records a)
     \<and> list_all (record_ok type) (take (da_count a) (da_records a)) \<and> (da_count a = 0 \<longrightarrow> a = zero_answer)"

lemma zero_answer_inv: "answer_inv type zero_answer"
  by (simp add: answer_inv_def zero_answer_def zero_record_def record_sized_def CF_DNS_RECORD_MAX_def CF_DNS_NAME_MAX_def list_all_iff)

lemma answer_append:
  assumes "answer_inv type a" "da_count a < 16" "record_sized r" "record_ok type r"
  shows "answer_inv type (a\<lparr>da_records := (da_records a)[da_count a := r], da_count := da_count a + 1\<rparr>)"
proof -
  have len: "length (da_records a) = 16" using assms(1) by (simp add: answer_inv_def)
  have "take (Suc (da_count a)) ((da_records a)[da_count a := r]) = take (da_count a) (da_records a) @ [r]"
    using assms(2) len by (simp add: take_Suc_conv_app_nth)
  moreover have "list_all record_sized ((da_records a)[da_count a := r])"
    using assms(1,3) set_update_subset_insert [of "da_records a" "da_count a" r] by (auto simp: answer_inv_def list_all_iff)
  ultimately show ?thesis using assms by (simp add: answer_inv_def)
qed

text \<open>Each kind of record gives an error or a usable record.\<close>

definition gives_record :: "cf_dns_type \<Rightarrow> (cf_result + cf_dns_record) option \<Rightarrow> bool" where
  "gives_record type m \<longleftrightarrow> (\<exists>x. m = Some x \<and> (case x of Inl rc \<Rightarrow> rc \<noteq> CF_OK | Inr r \<Rightarrow> record_sized r \<and> record_ok type r))"

lemma parse_a_ok:
  assumes "record_sized r" "at + len \<le> length p"
  shows "gives_record CF_DNS_A (parse_a p at len r)"
proof (cases "len = 4")
  case False
  then show ?thesis by (simp add: parse_a_def gives_record_def)
next
  case True
  let ?ip = "take 4 (drop at p)"
  have ip: "load_n p at 4 = Some ?ip" "store_n (dr_ip r) 0 ?ip = Some ?ip" "load ?ip 0 = Some (?ip ! 0)" "length ?ip = 4"
    using assms True by (simp_all add: load_n_def store_n_def load_def splice_def record_sized_def)
  have "parse_a p at len r = (if ?ip ! 0 = 0 \<or> ?ip ! 0 \<ge> 224 \<or> ?ip ! 0 = 127 then Some (Inl CF_ERR_FORMAT)
      else Some (Inr (r\<lparr>dr_ip := ?ip\<rparr>)))"
    unfolding parse_a_def ip(1) bind.bind_lunit ip(2) ip(3) using True by simp
  then show ?thesis using ip(4) assms(1) by (auto simp: gives_record_def record_sized_def record_ok_def not_le)
qed

lemma parse_srv_ok:
  assumes "record_sized r" "at + len \<le> length p" "type \<noteq> CF_DNS_A"
  shows "gives_record type (parse_srv p at len fin r)"
proof (cases "len < 7")
  case True
  then show ?thesis by (simp add: parse_srv_def gives_record_def)
next
  case False
  have sz: "length (dr_target r) = 254" using assms(1) by (simp add: record_sized_def)
  obtain pr w po where u: "u16_be p at = Some pr" "u16_be p (at + 2) = Some w" "u16_be p (at + 4) = Some po"
    using u16_be_Some [of at p] u16_be_Some [of "at + 2" p] u16_be_Some [of "at + 4" p] assms(2) False by auto
  obtain rc a target where t: "read_name p (at + 6) (dr_target r) = Some (rc, a, target)" "length target = 254"
      "rc = CF_OK \<longrightarrow> (\<exists>name. cstring target = Some name \<and> length name \<le> 253 \<and> list_all dns_char name)"
    using read_name_ok [OF sz, of p "at + 6"] by auto
  show ?thesis
  proof (cases "rc = CF_OK")
    case True
    then obtain name where "cstring target = Some name" "list_all dns_char name" using t(3) by auto
    then show ?thesis using False u t assms True by (auto simp: parse_srv_def gives_record_def record_sized_def record_ok_def)
  next
    case bad: False
    then show ?thesis using False u t by (auto simp: parse_srv_def gives_record_def)
  qed
qed

lemma parse_record_ok:
  assumes "answer_inv type out" "at + len \<le> length p"
  shows "\<exists>x. parse_record p type at len fin ttl out = Some x \<and> (case x of Inl rc \<Rightarrow> rc \<noteq> CF_OK | Inr out' \<Rightarrow> answer_inv type out')"
proof (cases "da_count out \<ge> CF_DNS_RECORD_MAX")
  case True
  then show ?thesis by (simp add: parse_record_def)
next
  case False
  let ?r = "(da_records out ! da_count out)\<lparr>dr_ttl := ttl\<rparr>"
  have c: "da_count out < 16" "length (da_records out) = 16" using False assms(1) by (simp_all add: CF_DNS_RECORD_MAX_def answer_inv_def)
  then have "record_sized (da_records out ! da_count out)" using assms(1) by (simp add: answer_inv_def list_all_length)
  then have sz: "record_sized ?r" by (simp add: record_sized_def)
  have "gives_record type (if type = CF_DNS_A then parse_a p at len ?r else parse_srv p at len fin ?r)"
    using parse_a_ok [OF sz assms(2)] parse_srv_ok [OF sz assms(2), of type fin] by auto
  then obtain x where x: "(if type = CF_DNS_A then parse_a p at len ?r else parse_srv p at len fin ?r) = Some x"
      "case x of Inl rc \<Rightarrow> rc \<noteq> CF_OK | Inr r \<Rightarrow> record_sized r \<and> record_ok type r"
    by (auto simp: gives_record_def)
  have l: "load (da_records out) (da_count out) = Some (da_records out ! da_count out)" using c by (simp add: load_def)
  have "parse_record p type at len fin ttl out = (case x of Inl rc \<Rightarrow> Some (Inl rc) | Inr record \<Rightarrow> do {
      records \<leftarrow> store (da_records out) (da_count out) record;
      Some (Inr (out\<lparr>da_records := records, da_count := da_count out + 1\<rparr>)) })"
    unfolding parse_record_def if_not_P [OF False] l bind.bind_lunit Let_def x(1) ..
  then show ?thesis using x(2) c answer_append [OF assms(1) c(1)] by (cases x) (simp_all add: store_def)
qed

lemma parse_step_ok:
  assumes "answer_inv type out" "length owner = 254"
  shows "\<exists>x. parse_step p name type answer at owner out = Some x \<and> (case x of Inl rc \<Rightarrow> rc \<noteq> CF_OK
    | Inr (at', owner', out') \<Rightarrow> at' \<le> length p \<and> length owner' = 254 \<and> answer_inv type out')"
proof -
  obtain rc a ow where r: "read_name p at owner = Some (rc, a, ow)" "length ow = 254"
      "rc = CF_OK \<longrightarrow> a \<le> length p \<and> (\<exists>nm. cstring ow = Some nm)"
    using read_name_ok [OF assms(2), of p at] by auto
  show ?thesis
  proof (cases "rc \<noteq> CF_OK \<or> a + 10 > length p")
    case True
    then show ?thesis using r by (cases "rc = CF_OK") (simp_all add: parse_step_def)
  next
    case False
    obtain ty cl ttl len where u: "u16_be p a = Some ty" "u16_be p (a + 2) = Some cl" "u32_be p (a + 4) = Some ttl" "u16_be p (a + 8) = Some len"
      using u16_be_Some [of a p] u16_be_Some [of "a + 2" p] u32_be_Some [of "a + 4" p] u16_be_Some [of "a + 8" p] False by auto
    obtain own where own: "cstring ow = Some own" using r(3) False by auto
    show ?thesis
    proof (cases "unat len > length p - (a + 10)")
      case True
      then show ?thesis using r u False by (simp add: parse_step_def Let_def)
    next
      case fit: False
      then have le: "a + 10 + unat len \<le> length p" using False by linarith
      obtain x where x: "parse_record p type (a + 10) (unat len) (a + 10 + unat len) ttl out = Some x"
          "case x of Inl rc \<Rightarrow> rc \<noteq> CF_OK | Inr out' \<Rightarrow> answer_inv type out'"
        using parse_record_ok [OF assms(1) le] by blast
      have "parse_step p name type answer at owner out =
          (if answer \<and> unat ty = type \<and> cl = 1 \<and> own = name
           then (case x of Inl rc \<Rightarrow> Some (Inl rc) | Inr out \<Rightarrow> Some (Inr (a + 10 + unat len, ow, out)))
           else Some (Inr (a + 10 + unat len, ow, out)))"
        using r(1) u own False fit x(1) by (simp add: parse_step_def Let_def)
      then show ?thesis using x(2) le r(2) assms(1) by (cases x) auto
    qed
  qed
qed

lemma parse_loop_ok:
  assumes "answer_inv type out" "length owner = 254"
  shows "\<exists>x. parse_loop p name type answers i k at owner out = Some x \<and> (case x of Inl rc \<Rightarrow> rc \<noteq> CF_OK | Inr (at', out') \<Rightarrow> answer_inv type out')"
  using assms
proof (induction k arbitrary: i at owner out)
  case (Suc k)
  from parse_step_ok [OF Suc.prems, of p name "i < answers" at] obtain x where
    x: "parse_step p name type (i < answers) at owner out = Some x"
      "case x of Inl rc \<Rightarrow> rc \<noteq> CF_OK | Inr (at', owner', out') \<Rightarrow> at' \<le> length p \<and> length owner' = 254 \<and> answer_inv type out'"
    by blast
  then show ?case using Suc.IH by (cases x) auto
qed simp

lemma parse_header_ok: "\<exists>h. parse_header p qid = Some h \<and> (h = None \<longrightarrow> 12 \<le> length p \<and> length p \<le> 1232) \<and> h \<noteq> Some CF_OK"
proof (cases "length p < 12 \<or> length p > CF_DNS_PACKET_MAX")
  case True
  then show ?thesis by (auto simp: parse_header_def)
next
  case False
  obtain a b where "u16_be p 0 = Some a" "u16_be p 4 = Some b"
    using u16_be_Some [of 0 p] u16_be_Some [of 4 p] False by auto
  then show ?thesis using False by (simp add: parse_header_def load_def CF_DNS_PACKET_MAX_def)
qed

lemma parse_question_ok:
  "\<exists>x. parse_question p name type = Some x \<and> (case x of Inl rc \<Rightarrow> rc \<noteq> CF_OK | Inr (at, owner) \<Rightarrow> length owner = 254)"
proof -
  obtain rc a ow where r: "read_name p 12 (replicate (CF_DNS_NAME_MAX + 1) 0) = Some (rc, a, ow)" "length ow = 254"
      "rc = CF_OK \<longrightarrow> (\<exists>nm. cstring ow = Some nm)"
    using read_name_ok [of "replicate (CF_DNS_NAME_MAX + 1) 0" p 12] by (auto simp: CF_DNS_NAME_MAX_def)
  show ?thesis
  proof (cases "rc = CF_OK \<and> a + 4 \<le> length p")
    case True
    then obtain x y where "u16_be p a = Some x" "u16_be p (a + 2) = Some y"
      using u16_be_Some [of a p] u16_be_Some [of "a + 2" p] by auto
    then show ?thesis using r True by (auto simp: parse_question_def)
  next
    case False
    then show ?thesis using r by (auto simp: parse_question_def)
  qed
qed

section \<open>Writing queries\<close>

text \<open>The labels of a name on the wire, or \<open>None\<close>; \<open>cur\<close> is the label read so far.\<close>

definition label_bad :: "u8 list \<Rightarrow> bool" where
  "label_bad cur \<longleftrightarrow> cur = [] \<or> length cur > 63"

fun wire_labels :: "u8 list \<Rightarrow> u8 list \<Rightarrow> u8 list option" where
  "wire_labels cur [] = (if label_bad cur then None else Some (word_of_nat (length cur) # map lower cur))"
| "wire_labels cur (c # cs) =
     (if c = ch CHR ''.'' then
        if label_bad cur then None
        else map_option (\<lambda>bs. word_of_nat (length cur) # map lower cur @ bs) (wire_labels [] cs)
      else if \<not> name_char (lower c) then None
      else wire_labels (cur @ [c]) cs)"

lemma wire_labels_length: "wire_labels cur rest = Some bs \<Longrightarrow> length bs = length cur + length rest + 1"
  by (induction cur rest arbitrary: bs rule: wire_labels.induct) (auto split: if_splits)

lemma query_label_eq:
  assumes "start + k \<le> length name" "offset + k \<le> length out"
  shows "query_label name start k offset out = Some (offset + k, splice out offset (map lower (take k (drop start name))))"
  using assms
proof (induction k arbitrary: start offset out)
  case (Suc k)
  let ?c = "lower (name ! start)" let ?out = "out[offset := ?c]"
  have d: "take (Suc k) (drop start name) = name ! start # take k (drop (start + 1) name)"
    using Suc.prems(1) by (simp add: Cons_nth_drop_Suc [symmetric])
  have upd: "?out = splice out offset [?c]" using splice_snoc [of offset "[]" out ?c] Suc.prems(2) by simp
  have "splice ?out (offset + 1) (map lower (take k (drop (start + 1) name))) = splice out offset (map lower (take (Suc k) (drop start name)))"
    using splice_splice [of offset "[?c]" "map lower (take k (drop (start + 1) name))" out] Suc.prems unfolding upd d by simp
  then show ?case using Suc.IH [of "start + 1" "offset + 1" ?out] Suc.prems by (simp add: load_def store_def)
qed simp

lemma query_end:
  assumes "start \<le> i" "i \<le> length name" "offset + (i - start) < length out"
  shows "do { out \<leftarrow> store out offset (word_of_nat (i - start)); query_label name start (i - start) (offset + 1) out }
    = Some (offset + 1 + (i - start), splice out offset (word_of_nat (i - start) # map lower (take (i - start) (drop start name))))"
proof -
  let ?n = "word_of_nat (i - start) :: u8"
  have upd: "out[offset := ?n] = splice out offset [?n]" using splice_snoc [of offset "[]" out ?n] assms(3) by simp
  have "query_label name start (i - start) (offset + 1) (out[offset := ?n])
      = Some (offset + 1 + (i - start), splice (out[offset := ?n]) (offset + 1) (map lower (take (i - start) (drop start name))))"
    using assms by (intro query_label_eq) simp_all
  also have "splice (out[offset := ?n]) (offset + 1) (map lower (take (i - start) (drop start name)))
      = splice out offset (?n # map lower (take (i - start) (drop start name)))"
    using splice_splice [of offset "[?n]" "map lower (take (i - start) (drop start name))" out] assms unfolding upd by simp
  finally show ?thesis using assms(3) by (simp add: store_def)
qed

lemma query_loop_eq:
  assumes "i + k = length name + 1" "i \<le> length name" "start \<le> i" "offset + (length name - start) + 1 \<le> length out"
    and "offset + (length name - start) + 1 \<le> K"
  shows "case wire_labels (take (i - start) (drop start name)) (drop i name) of
      None \<Rightarrow> \<exists>out'. query_loop name i k (i - start) start offset out = Some (Inl (CF_ERR_ARGUMENT, out'))
        \<and> length out' = length out \<and> drop K out' = drop K out
    | Some bs \<Rightarrow> query_loop name i k (i - start) start offset out = Some (Inr (offset + length bs, splice out offset bs))"
  using assms
proof (induction k arbitrary: i start offset out)
  case (Suc k)
  let ?cur = "take (i - start) (drop start name)"
  have cur: "length ?cur = i - start" using Suc.prems by simp
  have bad: "label_bad ?cur \<longleftrightarrow> i - start = 0 \<or> i - start > 63" using cur by (auto simp: label_bad_def)
  let ?w = "word_of_nat (i - start) # map lower ?cur" let ?out = "splice out offset ?w"
  have wl: "length ?w = i - start + 1" using cur by simp
  have fit: "offset + length ?w \<le> length out" using wl Suc.prems by simp
  have qe: "do { out \<leftarrow> store out offset (word_of_nat (i - start)); query_label name start (i - start) (offset + 1) out }
      = Some (offset + 1 + (i - start), ?out)"
    using Suc.prems by (intro query_end) simp_all
  show ?case
  proof (cases "i = length name")
    case True
    then have k: "k = 0" using Suc.prems(1) by simp
    show ?thesis
    proof (cases "label_bad ?cur")
      case b: True
      then show ?thesis using True k bad by auto
    next
      case False
      then have "query_loop name i (Suc k) (i - start) start offset out
          = (do { out \<leftarrow> store out offset (word_of_nat (i - start)); query_label name start (i - start) (offset + 1) out }
              \<bind> (\<lambda>(offset, out). query_loop name (i + 1) k 0 (i + 1) offset out))"
        using True bad by simp
      also have "\<dots> = Some (Inr (offset + length ?w, ?out))" unfolding qe using k wl by simp
      finally show ?thesis using False True cur by simp
    qed
  next
    case False
    then have i: "i < length name" using Suc.prems(2) by simp
    have d: "drop i name = name ! i # drop (i + 1) name" using i by (simp add: Cons_nth_drop_Suc)
    show ?thesis
    proof (cases "name ! i = ch CHR ''.''")
      case dot: True
      show ?thesis
      proof (cases "label_bad ?cur")
        case b: True
        then show ?thesis using dot bad d by auto
      next
        case good: False
        have Q: "query_loop name i (Suc k) (i - start) start offset out
            = (do { out \<leftarrow> store out offset (word_of_nat (i - start)); query_label name start (i - start) (offset + 1) out }
                \<bind> (\<lambda>(offset, out). query_loop name (i + 1) k 0 (i + 1) offset out))"
          using dot good bad by simp
        also have "\<dots> = query_loop name (i + 1) k 0 (i + 1) (offset + length ?w) ?out" unfolding qe using wl by simp
        finally have Q: "query_loop name i (Suc k) (i - start) start offset out = query_loop name (i + 1) k 0 (i + 1) (offset + length ?w) ?out" .
        have len: "length ?out = length out" by (rule length_splice [OF fit])
        have room: "offset + length ?w + (length name - (i + 1)) + 1 \<le> length ?out" "offset + length ?w + (length name - (i + 1)) + 1 \<le> K"
          using Suc.prems i wl len by simp_all
        have pre: "i + 1 + k = length name + 1" "i + 1 \<le> length name" using Suc.prems(1) i by simp_all
        note IH = Suc.IH [OF pre order.refl room]
        have Kd: "drop K ?out = drop K out" using fit room(2) by (intro drop_splice) simp_all
        have W: "wire_labels ?cur (drop i name) = map_option (\<lambda>bs. ?w @ bs) (wire_labels [] (drop (i + 1) name))"
          unfolding d using dot good cur by simp
        show ?thesis
        proof (cases "wire_labels [] (drop (i + 1) name)")
          case None
          then show ?thesis unfolding W Q using IH len Kd by simp
        next
          case (Some bs)
          have "length bs = length name - i" using wire_labels_length [OF Some] i by simp
          then have "splice ?out (offset + length ?w) bs = splice out offset (?w @ bs)"
            using splice_splice [of offset ?w bs out] Suc.prems i wl by simp
          then show ?thesis unfolding W Q using IH Some by simp
        qed
      qed
    next
      case nodot: False
      show ?thesis
      proof (cases "name_char (lower (name ! i))")
        case bad_char: False
        then show ?thesis unfolding d using nodot False by simp
      next
        case True
        have Q: "query_loop name i (Suc k) (i - start) start offset out = query_loop name (i + 1) k (i + 1 - start) start offset out"
          using True nodot False Suc.prems(3) by (simp add: Suc_diff_le)
        have c: "take (i + 1 - start) (drop start name) = ?cur @ [name ! i]"
          using i Suc.prems(3) by (simp add: Suc_diff_le take_Suc_conv_app_nth)
        have W: "wire_labels ?cur (drop i name) = wire_labels (take (i + 1 - start) (drop start name)) (drop (i + 1) name)"
          unfolding d c using True nodot by simp
        have pre: "i + 1 + k = length name + 1" "i + 1 \<le> length name" "start \<le> i + 1" using Suc.prems i by simp_all
        show ?thesis unfolding W Q using Suc.IH [OF pre Suc.prems(4,5)] .
      qed
    qed
  qed
qed simp

definition be16 :: "u16 \<Rightarrow> u8 list" where
  "be16 n = [ucast (drop_bit 8 n), ucast n]"

text \<open>The bytes of a query around the name: header, type, class and the EDNS0 record.\<close>

definition query_head :: "u16 \<Rightarrow> u8 list" where
  "query_head qid = be16 qid @ [1, 0, 0, 1, 0, 0, 0, 0, 0, 1]"

definition query_tail :: "cf_dns_type \<Rightarrow> u8 list" where
  "query_tail type = [0] @ be16 (word_of_nat type) @ [0, 1, 0, 0, 41, 4, 208, 0, 0, 0, 0, 0, 0]"

lemma length_query_parts [simp]: "length (query_head qid) = 12" "length (query_tail type) = 16" "length (be16 n) = 2"
  by (simp_all add: query_head_def query_tail_def be16_def)

lemma put16_Some: "p + 2 \<le> length m \<Longrightarrow> put16 m p n = Some (splice m p (be16 n))"
  using splice_snoc [of p "[]" m "ucast (drop_bit 8 n)"] splice_snoc [of p "[ucast (drop_bit 8 n)]" m "ucast n"]
  by (simp add: put16_def store_def be16_def)

lemma store_splice: "p < length m \<Longrightarrow> store m p v = Some (splice m p [v])"
  using splice_snoc [of p "[]" m v] by (simp add: store_def)

lemma splice_inside:
  assumes "i + length zs \<le> length m" "j + length ys \<le> length zs"
  shows "splice (splice m i zs) (i + j) ys = splice m i (splice zs j ys)"
  using assms by (simp add: splice_def min_absorb1 min_absorb2)

lemma query_header_write:
  assumes "12 \<le> length out"
  shows "do { out \<leftarrow> store_n out 0 (replicate 12 0); out \<leftarrow> put16 out 0 qid; out \<leftarrow> store out 2 1; out \<leftarrow> store out 5 1; store out 11 1 }
    = Some (splice out 0 (query_head qid))"
  using assms by (simp add: store_n_def splice_def put16_def store_def query_head_def be16_def numeral_eq_Suc)

lemma edns_bytes:
  "splice (splice (replicate 11 0) 1 (be16 41)) 3 (be16 (word_of_nat CF_DNS_PACKET_MAX)) = [0, 0, 41, 4, 208, 0, 0, 0, 0, 0, 0]"
  "be16 1 = [0, 1]"
  by (code_simp, code_simp)

lemma query_tail_write:
  assumes "p + 16 \<le> length m"
  shows "do {
      m \<leftarrow> store m p 0;
      m \<leftarrow> put16 m (p + 1) (word_of_nat type);
      m \<leftarrow> put16 m (p + 1 + 2) 1;
      m \<leftarrow> store_n m (p + 1 + 4) (replicate 11 0);
      m \<leftarrow> put16 m (p + 1 + 4 + 1) 41;
      put16 m (p + 1 + 4 + 3) (word_of_nat CF_DNS_PACKET_MAX) }
    = Some (splice m p (query_tail type))"
proof -
  let ?t = "be16 (word_of_nat type)"
  have s: "splice (splice m p xs) (p + k) ys = splice m p (xs @ ys)" if "k = length xs" "length xs + length ys \<le> 16" for xs ys k
    using splice_splice [of p xs ys m] that assms by simp
  have i: "splice (splice m p (xs @ zs)) (p + k) ys = splice m p (xs @ splice zs j ys)"
    if "k = length xs + j" "length xs + length zs = 16" "j + length ys \<le> length zs" for xs ys zs j k
  proof -
    have "splice (splice m p (xs @ zs)) (p + k) ys = splice m p (splice (xs @ zs) (length xs + j) ys)"
      unfolding that(1) using that assms by (intro splice_inside) simp_all
    also have "splice (xs @ zs) (length xs + j) ys = xs @ splice zs j ys" by (simp add: splice_def)
    finally show ?thesis .
  qed
  have "do {
      m \<leftarrow> store m p 0;
      m \<leftarrow> put16 m (p + 1) (word_of_nat type);
      m \<leftarrow> put16 m (p + 1 + 2) 1;
      m \<leftarrow> store_n m (p + 1 + 4) (replicate 11 0);
      m \<leftarrow> put16 m (p + 1 + 4 + 1) 41;
      put16 m (p + 1 + 4 + 3) (word_of_nat CF_DNS_PACKET_MAX) }
    = Some (splice (splice (splice (splice (splice (splice m p [0]) (p + 1) ?t) (p + 3) (be16 1)) (p + 5) (replicate 11 0)) (p + 6) (be16 41))
        (p + 8) (be16 (word_of_nat CF_DNS_PACKET_MAX)))"
    using assms by (simp add: store_splice put16_Some store_n_def numeral_3_eq_3 add.commute [of p])
  also have "splice (splice m p [0]) (p + 1) ?t = splice m p ([0] @ ?t)" by (rule s) simp_all
  also have "splice (splice m p ([0] @ ?t)) (p + 3) (be16 1) = splice m p (([0] @ ?t) @ be16 1)" by (rule s) simp_all
  also have "splice (splice m p (([0] @ ?t) @ be16 1)) (p + 5) (replicate 11 0) = splice m p ((([0] @ ?t) @ be16 1) @ replicate 11 0)" by (rule s) simp_all
  also have "splice (splice m p ((([0] @ ?t) @ be16 1) @ replicate 11 0)) (p + 6) (be16 41)
      = splice m p ((([0] @ ?t) @ be16 1) @ splice (replicate 11 0) 1 (be16 41))" by (rule i) simp_all
  also have "splice (splice m p ((([0] @ ?t) @ be16 1) @ splice (replicate 11 0) 1 (be16 41))) (p + 8) (be16 (word_of_nat CF_DNS_PACKET_MAX))
      = splice m p ((([0] @ ?t) @ be16 1) @ splice (splice (replicate 11 0) 1 (be16 41)) 3 (be16 (word_of_nat CF_DNS_PACKET_MAX)))" by (rule i) simp_all
  finally show ?thesis unfolding edns_bytes by (simp add: query_tail_def)
qed

text \<open>The whole query for a name.\<close>

definition query_bytes :: "u8 list \<Rightarrow> cf_dns_type \<Rightarrow> u16 \<Rightarrow> u8 list option" where
  "query_bytes name type qid = map_option (\<lambda>ls. query_head qid @ ls @ query_tail type) (wire_labels [] name)"

lemma query_bytes_length: "query_bytes name type qid = Some bs \<Longrightarrow> length bs = length name + 29"
  by (auto simp: query_bytes_def dest!: wire_labels_length)

lemma query_write:
  assumes "name \<noteq> []" "length name \<le> 253" "length name + 29 \<le> cap" "cap \<le> length out" "type = CF_DNS_A \<or> type = CF_DNS_SRV"
  shows "case query_bytes name type qid of
      None \<Rightarrow> \<exists>out'. cf_dns_query (Some name) type qid (Some out) cap (Some w) = Some (CF_ERR_ARGUMENT, Some out', Some 0)
        \<and> length out' = length out \<and> drop cap out' = drop cap out
    | Some bs \<Rightarrow> cf_dns_query (Some name) type qid (Some out) cap (Some w) = Some (CF_OK, Some (splice out 0 bs), Some (length bs))"
proof -
  let ?n = "length name" let ?h = "splice out 0 (query_head qid)"
  have room: "12 \<le> length out" using assms by simp
  have hlen: "length ?h = length out" using room by simp
  have hcap: "drop cap ?h = drop cap out" using room assms(3) by (intro drop_splice) simp_all
  define L where "L = query_loop name 0 (?n + 1) 0 0 12 ?h"
  have E: "cf_dns_query (Some name) type qid (Some out) cap (Some w) = (L \<bind> (\<lambda>r. case r of
      Inl (rc, out) \<Rightarrow> Some (rc, Some out, Some 0)
    | Inr (offset, out) \<Rightarrow> do {
        out \<leftarrow> do {
          m \<leftarrow> store out offset 0;
          m \<leftarrow> put16 m (offset + 1) (word_of_nat type);
          m \<leftarrow> put16 m (offset + 1 + 2) 1;
          m \<leftarrow> store_n m (offset + 1 + 4) (replicate 11 0);
          m \<leftarrow> put16 m (offset + 1 + 4 + 1) 41;
          put16 m (offset + 1 + 4 + 3) (word_of_nat CF_DNS_PACKET_MAX) };
        Some (CF_OK, Some out, Some (offset + 1 + 4 + 11)) }))"
  proof -
    have guard: "\<not> (?n = 0 \<or> ?n > CF_DNS_NAME_MAX \<or> cap < ?n + 29)" using assms by (auto simp: CF_DNS_NAME_MAX_def)
    have args: "\<not> (Some name = None \<or> Some out = None \<or> (type \<noteq> CF_DNS_A \<and> type \<noteq> CF_DNS_SRV))" using assms(5) by auto
    have hd: "store_n out 0 (replicate 12 0) \<bind> (\<lambda>out. put16 out 0 qid \<bind> (\<lambda>out. store out 2 1 \<bind> (\<lambda>out. store out 5 1 \<bind> (\<lambda>out. store out 11 1 \<bind> f))))
        = f ?h" for f :: "mem \<Rightarrow> (cf_result \<times> mem option \<times> nat option) option"
      using arg_cong [OF query_header_write [OF room, of qid], of "\<lambda>m. m \<bind> f"] by (simp only: bind_assoc bind.bind_lunit)
    show ?thesis
      unfolding cf_dns_query_def option.case if_not_P [OF args] bind.bind_lunit Let_def if_not_P [OF guard] hd L_def bind_assoc ..
  qed
  have cur: "take (0 - 0) (drop 0 name) = []" "drop 0 name = name" "(0 :: nat) - 0 = 0" by simp_all
  have pre: "(0 :: nat) + (?n + 1) = ?n + 1" "0 \<le> ?n" "(0 :: nat) \<le> 0" "12 + (?n - 0) + 1 \<le> length ?h" "12 + (?n - 0) + 1 \<le> cap"
    using assms hlen by simp_all
  note Q = query_loop_eq [OF pre, unfolded cur, folded L_def]
  show ?thesis
  proof (cases "wire_labels [] name")
    case None
    then show ?thesis using Q E hlen hcap by (auto simp: query_bytes_def)
  next
    case (Some ls)
    have len: "length ls = ?n + 1" using wire_labels_length [OF Some] by simp
    have L: "L = Some (Inr (12 + length ls, splice ?h 12 ls))" using Q Some by simp
    have m: "splice ?h 12 ls = splice out 0 (query_head qid @ ls)"
      using splice_splice [of 0 "query_head qid" ls out] assms len by simp
    have fit: "12 + length ls + 16 \<le> length (splice ?h 12 ls)" using assms len hlen by simp
    have "cf_dns_query (Some name) type qid (Some out) cap (Some w)
        = Some (CF_OK, Some (splice (splice ?h 12 ls) (12 + length ls) (query_tail type)), Some (12 + length ls + 1 + 4 + 11))"
      unfolding E L bind.bind_lunit sum.case prod.case query_tail_write [OF fit] ..
    also have "splice (splice ?h 12 ls) (12 + length ls) (query_tail type) = splice out 0 (query_head qid @ ls @ query_tail type)"
      using splice_splice [of 0 "query_head qid @ ls" "query_tail type" out] assms len unfolding m by simp
    finally show ?thesis using Some by (simp add: query_bytes_def)
  qed
qed

section \<open>Reading a written name\<close>

definition wire_label :: "u8 list \<Rightarrow> u8 list" where
  "wire_label l = word_of_nat (length l) # map lower l"

definition label_good :: "u8 list \<Rightarrow> bool" where
  "label_good l \<longleftrightarrow> l \<noteq> [] \<and> length l \<le> 63 \<and> list_all (\<lambda>c. name_char (lower c)) l"

text \<open>The text that \<open>read_name\<close> has after further labels.\<close>

fun label_text :: "u8 list \<Rightarrow> u8 list list \<Rightarrow> u8 list" where
  "label_text acc [] = acc"
| "label_text acc (l # ls) = label_text (acc @ dot (length acc) @ map lower l) ls"

lemma label_text_length: "length acc \<le> length (label_text acc ls)"
  by (induction acc ls rule: label_text.induct) (auto intro: le_trans [rotated])

lemma lower_idem: "lower (lower c) = lower c"
proof (cases "c \<ge> ch CHR ''A'' \<and> c \<le> ch CHR ''Z''")
  case True
  then have "65 \<le> unat c" "unat c \<le> 90" by (simp_all add: word_le_nat_alt)
  then have "unat (c + 32) = unat c + 32" by (simp add: unat_word_ariths)
  then have "\<not> c + 32 \<le> ch CHR ''Z''" using \<open>65 \<le> unat c\<close> by (simp add: word_le_nat_alt)
  then show ?thesis using True by (simp add: lower_def)
qed (auto simp: lower_def)

lemma label_byte:
  assumes "label_good l"
  shows "unat (word_of_nat (length l) :: u8) = length l" "\<not> (word_of_nat (length l) :: u8) > 63" "(word_of_nat (length l) :: u8) \<noteq> 0"
    "(word_of_nat (length l) :: u8) AND 0xc0 \<noteq> 0xc0"
proof -
  let ?w = "word_of_nat (length l) :: u8"
  show u: "unat ?w = length l" using assms by (simp add: label_good_def unsigned_of_nat take_bit_nat_eq_self)
  then have "unat ?w \<le> 63" "unat ?w \<noteq> 0" using assms by (simp_all add: label_good_def)
  then show le: "\<not> ?w > 63" and "?w \<noteq> 0" by (auto simp: word_less_nat_alt)
  show "?w AND 0xc0 \<noteq> 0xc0"
  proof
    assume "?w AND 0xc0 = 0xc0"
    moreover have "?w AND 0xc0 \<le> ?w" by (rule word_and_le2)
    ultimately have "0xc0 \<le> ?w" by simp
    then show False using \<open>unat ?w \<le> 63\<close> by (simp add: word_le_nat_alt)
  qed
qed

lemma read_labels:
  assumes "name_inv p s" "ns_at s \<le> length p" "drop (ns_at s) p = concat (map wire_label ls) @ 0 # post" "list_all label_good ls"
    and "length (label_text (take (ns_used s) (ns_out s)) ls) \<le> 253" "2 * ns_labels s \<le> ns_used s + 1" "ns_resume s = 0"
  shows "\<exists>out'. read_name_loop p s = Some (CF_OK, Some (ns_at s + length (concat (map wire_label ls)) + 1), out')
    \<and> cstring out' = Some (label_text (take (ns_used s) (ns_out s)) ls)"
  using assms
proof (induction ls arbitrary: s)
  case Nil
  have at: "ns_at s < length p" "p ! ns_at s = 0" using Nil.prems(3) nth_via_drop [of "ns_at s" p 0 post]
    by (auto simp: not_less dest: drop_all [of p "ns_at s"] intro: ccontr)
  have "ns_used s < length (ns_out s)" "list_all (\<lambda>c. c \<noteq> 0) (take (ns_used s) (ns_out s))"
    using Nil.prems(1) by (auto simp: name_inv_def list_all_iff dest: dns_char_nonzero)
  note z = this(1) cstring_store [OF this]
  have "read_name_step p s = Some (Inl (CF_OK, Some (ns_at s + 1), (ns_out s)[ns_used s := 0]))"
    using at z(1) Nil.prems(7) by (simp add: read_name_step_def load_def store_def)
  then show ?case using z(2) by (subst read_name_loop.simps) simp
next
  case (Cons l ls)
  let ?n = "length l" let ?u = "ns_used s" let ?acc = "take ?u (ns_out s)"
  have good: "label_good l" "list_all label_good ls" using Cons.prems(4) by simp_all
  note B = label_byte [OF good(1)]
  have inv: "length (ns_out s) = 254" "?u \<le> 253" using Cons.prems(1) by (simp_all add: name_inv_def)
  then have acc: "length ?acc = ?u" by simp
  have d: "drop (ns_at s) p = word_of_nat ?n # map lower l @ concat (map wire_label ls) @ 0 # post"
    using Cons.prems(3) by (simp add: wire_label_def [of l])
  have at: "ns_at s < length p" "p ! ns_at s = word_of_nat ?n"
    using d nth_via_drop [OF d] by (auto simp: not_less dest: drop_all [of p "ns_at s"] intro: ccontr)
  have d1: "drop (ns_at s + 1) p = map lower l @ concat (map wire_label ls) @ 0 # post"
    using d drop_drop [of 1 "ns_at s" p] by simp
  have lp: "length p = ns_at s + length (drop (ns_at s) p)" using at(1) by simp
  have fit: "ns_at s + 1 + ?n \<le> length p" unfolding lp d by simp
  have lab: "take ?n (drop (ns_at s + 1) p) = map lower l" unfolding d1 by simp
  have "list_all (\<lambda>c. name_char (lower c)) (map lower l)" using good(1) by (auto simp: label_good_def list_all_iff lower_idem)
  then have valid: "list_all (\<lambda>c. name_char (lower c)) (take ?n (drop (ns_at s + 1) p))" unfolding lab .
  have e: "label_text ?acc (l # ls) = label_text (?acc @ dot ?u @ map lower l) ls" unfolding label_text.simps acc ..
  have "length (?acc @ dot ?u @ map lower l) \<le> 253"
    using label_text_length Cons.prems(5) unfolding e by (rule le_trans)
  then have room: "?u + length (dot ?u) + ?n \<le> 253" unfolding length_append acc length_map by (simp only: add.assoc)
  have "1 \<le> ?n" using good(1) by (simp add: label_good_def Suc_le_eq)
  have count: "2 * (ns_labels s + 1) \<le> ?u + length (dot ?u) + ?n + 1"
  proof (cases "?u = 0")
    case True
    then have "ns_labels s = 0" using Cons.prems(6) by presburger
    then show ?thesis using \<open>1 \<le> ?n\<close> by simp
  next
    case False
    then show ?thesis using Cons.prems(6) \<open>1 \<le> ?n\<close> by simp
  qed
  then have lim: "ns_labels s < 127" using room by simp
  obtain out' where o: "length out' = 254" "name_label p s ?n (ns_at s + 1) = Some (Inr (s\<lparr>ns_labels := ns_labels s + 1, ns_at := ns_at s + 1 + ?n,
      ns_used := ?u + length (dot ?u) + ?n, ns_out := out'\<rparr>))"
      "take (?u + length (dot ?u) + ?n) out' = ?acc @ dot ?u @ map lower (take ?n (drop (ns_at s + 1) p))"
    using name_label_eq [OF Cons.prems(1) fit lim room] valid by auto
  define s' where "s' = s\<lparr>ns_labels := ns_labels s + 1, ns_at := ns_at s + 1 + ?n, ns_used := ?u + length (dot ?u) + ?n, ns_out := out'\<rparr>"
  have step: "read_name_step p s = Some (Inr s')"
    unfolding read_name_step_def Let_def load_def using at B o(2) [folded s'_def] by simp
  have inv': "name_inv p s'" using read_name_step_inv [OF Cons.prems(1)] unfolding step by simp
  have "map lower (map lower l) = map lower l" by (simp add: lower_idem)
  then have tx: "take (ns_used s') (ns_out s') = ?acc @ dot ?u @ map lower l"
    using o(3) unfolding lab by (simp add: s'_def)
  have d': "drop (ns_at s') p = concat (map wire_label ls) @ 0 # post"
    using d1 drop_drop [of ?n "ns_at s + 1" p] by (simp add: s'_def add.commute add.left_commute)
  have "\<exists>out''. read_name_loop p s' = Some (CF_OK, Some (ns_at s' + length (concat (map wire_label ls)) + 1), out'')
      \<and> cstring out'' = Some (label_text (take (ns_used s') (ns_out s')) ls)"
  proof (rule Cons.IH [OF inv' _ d' good(2)])
    show "ns_at s' \<le> length p" using fit by (simp add: s'_def)
    show "length (label_text (take (ns_used s') (ns_out s')) ls) \<le> 253" unfolding tx using Cons.prems(5) unfolding e .
    show "2 * ns_labels s' \<le> ns_used s' + 1" using count by (simp add: s'_def)
    show "ns_resume s' = 0" using Cons.prems(7) by (simp add: s'_def)
  qed
  then obtain out'' where "read_name_loop p s' = Some (CF_OK, Some (ns_at s' + length (concat (map wire_label ls)) + 1), out'')"
      "cstring out'' = Some (label_text ?acc (l # ls))"
    unfolding tx e by blast
  moreover have "ns_at s' + length (concat (map wire_label ls)) + 1 = ns_at s + length (concat (map wire_label (l # ls))) + 1"
    by (simp add: s'_def wire_label_def)
  ultimately show ?case using step by (subst read_name_loop.simps) simp
qed

text \<open>The labels of a name that has a wire form.\<close>

lemma wire_labels_split:
  assumes "wire_labels cur rest = Some bs" "list_all (\<lambda>c. name_char (lower c)) cur"
  shows "\<exists>l ls. bs = concat (map wire_label (l # ls)) \<and> list_all label_good (l # ls)
    \<and> (\<forall>acc. label_text acc (l # ls) = acc @ dot (length acc) @ map lower (cur @ rest))"
  using assms
proof (induction cur rest arbitrary: bs rule: wire_labels.induct)
  case (1 cur)
  then have "bs = wire_label cur" "label_good cur" by (auto simp: label_bad_def label_good_def wire_label_def split: if_splits)
  then show ?case by (intro exI [of _ cur] exI [of _ "[]"]) simp
next
  case (2 cur c cs)
  show ?case
  proof (cases "c = ch CHR ''.''")
    case True
    then obtain bs' where bs': "\<not> label_bad cur" "wire_labels [] cs = Some bs'" "bs = wire_label cur @ bs'"
      using 2(3) by (auto simp: wire_label_def split: if_splits)
    obtain l ls where L: "bs' = concat (map wire_label (l # ls))" "list_all label_good (l # ls)"
        "\<And>acc. label_text acc (l # ls) = acc @ dot (length acc) @ map lower ([] @ cs)"
      using 2(1) [OF True bs'(1,2)] by auto
    have good: "label_good cur" using bs'(1) 2(4) by (simp add: label_bad_def label_good_def)
    have "lower c = c" using True by (simp add: lower_def)
    moreover have "cur \<noteq> []" using good by (simp add: label_good_def)
    ultimately have "label_text acc (cur # l # ls) = acc @ dot (length acc) @ map lower (cur @ c # cs)" for acc
      using L(3) [of "acc @ dot (length acc) @ map lower cur"] True by simp
    then show ?thesis using L(1,2) bs'(3) good by (intro exI [of _ cur] exI [of _ "l # ls"]) simp
  next
    case False
    then have "name_char (lower c)" "wire_labels (cur @ [c]) cs = Some bs" using 2(3) by (auto split: if_splits)
    then show ?thesis using 2(2) [OF False] 2(4) by simp
  qed
qed

lemma read_query_name:
  assumes "wire_labels [] name = Some ls" "length name \<le> 253" "length owner = 254"
  shows "\<exists>owner'. read_name (query_head qid @ ls @ query_tail type) 12 owner = Some (CF_OK, 12 + length name + 2, owner')
    \<and> cstring owner' = Some (map lower name)"
proof -
  let ?p = "query_head qid @ ls @ query_tail type"
  let ?s = "\<lparr>ns_at = 12, ns_used = 0, ns_resume = 0, ns_hops = 0, ns_labels = 0, ns_out = owner\<rparr>"
  obtain l lt where L: "ls = concat (map wire_label (l # lt))" "list_all label_good (l # lt)"
      "label_text [] (l # lt) = map lower name"
    using wire_labels_split [OF assms(1)] by (auto simp del: label_text.simps)
  have len: "length ls = length name + 1" using wire_labels_length [OF assms(1)] by simp
  have inv: "name_inv ?p ?s" using assms(3) by (simp add: name_inv_def)
  have d: "drop (ns_at ?s) ?p = concat (map wire_label (l # lt)) @ 0 # tl (query_tail type)"
    unfolding L(1) by (simp add: query_tail_def)
  have "\<exists>out'. read_name_loop ?p ?s = Some (CF_OK, Some (ns_at ?s + length (concat (map wire_label (l # lt))) + 1), out')
      \<and> cstring out' = Some (label_text (take (ns_used ?s) (ns_out ?s)) (l # lt))"
    using L assms(2) by (intro read_labels [OF inv _ d]) (simp_all del: label_text.simps)
  then show ?thesis unfolding L(1) [symmetric] using L(3) len by (auto simp: read_name_def simp del: label_text.simps)
qed

section \<open>Properties\<close>

text \<open>
  C27. Parsing an arbitrary packet returns, whatever compression pointers it contains, and never
  leaves the packet, the name arrays or the record array. On success the answer has one to
  sixteen records, every one of them usable: an A record is a unicast address, an SRV record names
  a host under \<^verbatim>\<open>argotunnel.com\<close> at port 7844. On every failure the answer is all zero.
\<close>

theorem dns_parse_safe:
  "\<exists>rc a. cf_dns_parse (Bytes p) name type qid (Some old) = Some (rc, Some a)
    \<and> (if rc = CF_OK then 1 \<le> da_count a \<and> da_count a \<le> CF_DNS_RECORD_MAX \<and> list_all (record_ok type) (take (da_count a) (da_records a))
       else a = zero_answer)"
proof (cases "name = None \<or> (type \<noteq> CF_DNS_A \<and> type \<noteq> CF_DNS_SRV)")
  case True
  then show ?thesis by (auto simp: cf_dns_parse_def)
next
  case False
  then obtain nm where nm: "name = Some nm" by auto
  obtain h where h: "parse_header p qid = Some h" "h = None \<longrightarrow> 12 \<le> length p \<and> length p \<le> 1232" "h \<noteq> Some CF_OK"
    using parse_header_ok by blast
  obtain q where q: "parse_question p nm type = Some q" "case q of Inl rc \<Rightarrow> rc \<noteq> CF_OK | Inr (at, owner) \<Rightarrow> length owner = 254"
    using parse_question_ok by blast
  show ?thesis
  proof (cases "h = None \<and> (\<exists>y. q = Inr y)")
    case False
    then show ?thesis using h q nm \<open>\<not> (name = None \<or> _)\<close> by (cases h; cases q) (auto simp: cf_dns_parse_def Let_def)
  next
    case True
    then obtain at owner where y: "q = Inr (at, owner)" "length owner = 254" using q(2) by auto
    obtain x y z where u: "u16_be p 6 = Some x" "u16_be p 8 = Some y" "u16_be p 10 = Some z"
      using u16_be_Some [of 6 p] u16_be_Some [of 8 p] u16_be_Some [of 10 p] True h(2) by auto
    obtain r where r: "parse_loop p nm type (unat x) 0 (unat x + unat y + unat z) at owner zero_answer = Some r"
        "case r of Inl rc \<Rightarrow> rc \<noteq> CF_OK | Inr (at', out') \<Rightarrow> answer_inv type out'"
      using parse_loop_ok [OF zero_answer_inv y(2)] by blast
    have "cf_dns_parse (Bytes p) name type qid (Some old) =
        (if unat x + unat y + unat z > 64 then Some (CF_ERR_LIMIT, Some zero_answer)
         else case r of Inl rc \<Rightarrow> Some (rc, Some zero_answer)
           | Inr (at, out) \<Rightarrow> if at \<noteq> length p then Some (CF_ERR_FORMAT, Some zero_answer)
               else Some (if da_count out \<noteq> 0 then CF_OK else CF_ERR_STATE, Some out))"
      using False True nm h(1) q(1) y(1) u r(1) by (auto simp: cf_dns_parse_def Let_def)
    then show ?thesis using r(2) by (cases r) (auto simp: answer_inv_def CF_DNS_RECORD_MAX_def)
  qed
qed


text \<open>
  \<open>cf_dns_query\<close> accepts exactly the names whose labels are 1 to 63 characters from letters,
  digits, hyphen and underscore: it then writes exactly the \<open>length name + 29\<close> bytes of the header,
  the lower-case labels, type, class and the EDNS0 record, and nothing else. Every other name is
  refused without a byte reported, and a capacity too small for the name is never exceeded.
\<close>

theorem dns_query_exact:
  assumes "cap \<le> length out" "type = CF_DNS_A \<or> type = CF_DNS_SRV"
  shows "\<exists>rc out' n. cf_dns_query (Some name) type qid (Some out) cap (Some w) = Some (rc, Some out', Some n)
    \<and> length out' = length out \<and> drop cap out' = drop cap out
    \<and> (if name = [] \<or> length name > CF_DNS_NAME_MAX \<or> cap < length name + 29 then rc = CF_ERR_LIMIT \<and> n = 0 \<and> out' = out
       else case wire_labels [] name of
         None \<Rightarrow> rc = CF_ERR_ARGUMENT \<and> n = 0
       | Some ls \<Rightarrow> rc = CF_OK \<and> n = length name + 29 \<and> take n out' = query_head qid @ ls @ query_tail type \<and> drop n out' = drop n out)"
proof (cases "name = [] \<or> length name > CF_DNS_NAME_MAX \<or> cap < length name + 29")
  case True
  then show ?thesis using assms(2) by (auto simp: cf_dns_query_def)
next
  case False
  then have g: "name \<noteq> []" "length name \<le> 253" "length name + 29 \<le> cap" by (simp_all add: CF_DNS_NAME_MAX_def)
  note W = query_write [OF g assms, of qid w]
  show ?thesis
  proof (cases "wire_labels [] name")
    case None
    then show ?thesis using W False by (auto simp: query_bytes_def)
  next
    case (Some ls)
    let ?q = "query_head qid @ ls @ query_tail type"
    have len: "length ?q = length name + 29" using wire_labels_length [OF Some] by simp
    have eq: "cf_dns_query (Some name) type qid (Some out) cap (Some w) = Some (CF_OK, Some (splice out 0 ?q), Some (length ?q))"
      using W Some by (simp add: query_bytes_def)
    have "splice out 0 ?q = ?q @ drop (length ?q) out" by (simp add: splice_def)
    moreover have "length ?q \<le> cap" using g(3) unfolding len .
    ultimately show ?thesis unfolding eq using False Some len assms(1)
      by (intro exI [of _ CF_OK] exI [of _ "splice out 0 ?q"] exI [of _ "length ?q"]) (auto simp: drop_append)
  qed
qed

theorem dns_query_exact_witness:
  "\<exists>out'. cf_dns_query (Some [97, 46, 66]) CF_DNS_A 7 (Some (replicate 40 9)) 40 (Some 0) = Some (CF_OK, Some out', Some 32)
     \<and> take 32 out' = query_head 7 @ [1, 97, 1, 98] @ query_tail CF_DNS_A"
proof -
  have "wire_labels [] [97, 46, 66] = Some [1, 97, 1, 98]" by code_simp
  then show ?thesis
    using dns_query_exact [of 40 "replicate 40 9" CF_DNS_A "[97, 46, 66]" 7 0] by (auto simp: CF_DNS_NAME_MAX_def)
qed

text \<open>
  A name that was written into a query is read back by the parser of answers: from the query's
  question \<open>read_name\<close> returns the name in lower case and the offset just behind it, so the
  parser recognises the echo of its own question.
\<close>

theorem dns_name_roundtrip:
  assumes "cf_dns_query (Some name) type qid (Some out) cap (Some w) = Some (CF_OK, Some out', Some n)"
    and "cap \<le> length out" "length owner = 254"
  shows "\<exists>owner'. read_name (take n out') 12 owner = Some (CF_OK, 12 + length name + 2, owner') \<and> cstring owner' = Some (map lower name)"
proof -
  have ty: "type = CF_DNS_A \<or> type = CF_DNS_SRV" using assms(1) by (auto simp: cf_dns_query_def split: if_splits)
  have "cf_dns_query (Some name) type qid (Some out) cap (Some w) = Some (CF_ERR_LIMIT, Some out, Some 0)"
    if "name = [] \<or> length name > CF_DNS_NAME_MAX \<or> cap < length name + 29"
    using that ty by (auto simp: cf_dns_query_def Let_def)
  then have "\<not> (name = [] \<or> length name > CF_DNS_NAME_MAX \<or> cap < length name + 29)" using assms(1) by auto
  then have g: "name \<noteq> []" "length name \<le> 253" "length name + 29 \<le> cap" by (simp_all add: CF_DNS_NAME_MAX_def)
  note W = query_write [OF g assms(2) ty, of qid w]
  then obtain ls where ls: "wire_labels [] name = Some ls" using assms(1) by (auto simp: query_bytes_def split: option.splits)
  let ?q = "query_head qid @ ls @ query_tail type"
  have "out' = splice out 0 ?q" "n = length ?q" using W ls assms(1) by (auto simp: query_bytes_def)
  then have "take n out' = ?q" by (simp add: splice_def)
  then show ?thesis using read_query_name [OF ls g(2) assms(3)] by simp
qed

theorem dns_name_roundtrip_witness:
  "\<exists>out' owner'. cf_dns_query (Some [97, 46, 66]) CF_DNS_A 7 (Some (replicate 40 9)) 40 (Some 0) = Some (CF_OK, Some out', Some 32)
     \<and> read_name (take 32 out') 12 (replicate 254 0) = Some (CF_OK, 17, owner') \<and> cstring owner' = Some [97, 46, 98]"
proof -
  have "query_bytes [97, 46, 66] CF_DNS_A 7 = Some (query_head 7 @ [1, 97, 1, 98] @ query_tail CF_DNS_A)"
    by (simp add: query_bytes_def label_bad_def name_char_def lower_def)
  then have q: "cf_dns_query (Some [97, 46, 66]) CF_DNS_A 7 (Some (replicate 40 9)) 40 (Some 0)
      = Some (CF_OK, Some (splice (replicate 40 9) 0 (query_head 7 @ [1, 97, 1, 98] @ query_tail CF_DNS_A)), Some 32)"
    using query_write [of "[97, 46, 66]" 40 "replicate 40 9" CF_DNS_A 7 0] by simp
  have "map lower [97, 46, 66] = [97, 46, 98]" by (simp add: lower_def)
  then show ?thesis using q dns_name_roundtrip [OF q, of "replicate 254 0"] by auto
qed

end
