(* ===== verification/CF_Config.thy ===== *)
theory CF_Config
  imports CF_Json
begin

text \<open>
  The remote configuration of \<^verbatim>\<open>src/protocol/cf_config.c\<close>: the update message is accepted only when
  it is exactly one rule for the device's own hostname and local service, followed by the 404
  fallback. The theory models the whole check with the reason it reports, the publication of an
  accepted update and the answer to the edge, and shows that an update is applied as a whole or
  not at all and that versions never go back.
\<close>

section \<open>State\<close>

definition CF_CONFIG_MESSAGE_MAX :: nat where "CF_CONFIG_MESSAGE_MAX = 8192"
definition CF_HOSTNAME_MAX :: nat where "CF_HOSTNAME_MAX = 253"
definition CF_LOCAL_SERVICE_MAX :: nat where "CF_LOCAL_SERVICE_MAX = 63"

definition INT32_MAX :: int where "INT32_MAX = 2 ^ 31 - 1"

record cf_remote_config =
  cfg_valid :: bool
  cfg_version :: int
  cfg_hostname :: mem
  cfg_service :: mem

text \<open>\<open>cf_config_init\<close>: \<open>memset\<close> to zero, then the version.\<close>

definition cf_config_init :: "cf_remote_config option \<Rightarrow> cf_remote_config option" where
  "cf_config_init config = (case config of None \<Rightarrow> None
     | Some _ \<Rightarrow> Some \<lparr>cfg_valid = False, cfg_version = - 1,
         cfg_hostname = replicate (CF_HOSTNAME_MAX + 1) 0, cfg_service = replicate (CF_LOCAL_SERVICE_MAX + 1) 0\<rparr>)"

section \<open>Items\<close>

fun array_item_loop :: "cJSON list \<Rightarrow> nat \<Rightarrow> cJSON option" where
  "array_item_loop [] index = None"
| "array_item_loop (x # xs) 0 = Some x"
| "array_item_loop (x # xs) (Suc index) = array_item_loop xs index"

definition cf_cJSON_GetArraySize :: "cJSON option \<Rightarrow> nat" where
  "cf_cJSON_GetArraySize arr = (case arr of None \<Rightarrow> 0 | Some x \<Rightarrow> length (cj_child x))"

definition cf_cJSON_GetArrayItem :: "cJSON option \<Rightarrow> nat \<Rightarrow> cJSON option" where
  "cf_cJSON_GetArrayItem arr index = (case arr of None \<Rightarrow> None | Some x \<Rightarrow> array_item_loop (cj_child x) index)"

definition empty_object :: "cJSON option \<Rightarrow> bool" where
  "empty_object item \<longleftrightarrow> (case item of None \<Rightarrow> True | Some x \<Rightarrow> cf_cJSON_Is CJ_Object item \<and> cj_child x = [])"

definition same_string :: "cJSON option \<Rightarrow> u8 list \<Rightarrow> bool option" where
  "same_string s expected = (if \<not> cf_cJSON_Is CJ_String s then Some False
     else do { v \<leftarrow> s \<bind> cj_valuestring; Some (v = expected) })"

text \<open>
  The loop of \<open>hostname_valid\<close>; \<open>s\<close> has its terminating NUL at position \<open>n\<close>. An index below zero
  or behind the NUL would be an access outside the string.
\<close>

definition host_char :: "u8 \<Rightarrow> bool" where
  "host_char c \<longleftrightarrow> (c \<ge> ch CHR ''a'' \<and> c \<le> ch CHR ''z'') \<or> (c \<ge> ch CHR ''0'' \<and> c \<le> ch CHR ''9'') \<or> c = ch CHR ''-''"

function hostname_loop :: "mem \<Rightarrow> nat \<Rightarrow> nat \<Rightarrow> nat \<Rightarrow> bool option" where
  "hostname_loop s n i label =
     (if i < n then do {
        c \<leftarrow> load s i;
        if c = ch CHR ''.'' then
          if label = 0 then Some False
          else do {
            before \<leftarrow> (if i = 0 then None else load s (i - 1));
            after \<leftarrow> load s (i + 1);
            if before = ch CHR ''-'' \<or> after = ch CHR ''-'' then Some False
            else hostname_loop s n (i + 1) 0
          }
        else if \<not> host_char c then Some False
        else if label + 1 > 63 then Some False
        else hostname_loop s n (i + 1) (label + 1)
      }
      else Some (label \<noteq> 0))"
  by pat_completeness auto
termination
  by (relation "measure (\<lambda>(s, n, i, label). n - i)") auto

declare hostname_loop.simps [simp del]

definition hostname_valid :: "u8 list \<Rightarrow> bool option" where
  "hostname_valid name =
     (let n = length name; s = name @ [0] in
      if n = 0 \<or> n > CF_HOSTNAME_MAX then Some False
      else do {
        a \<leftarrow> load s 0;
        z \<leftarrow> load s (n - 1);
        if a = ch CHR ''-'' \<or> z = ch CHR ''-'' then Some False else hostname_loop s n 0 0
      })"

section \<open>The update\<close>

text \<open>
  The version check: the item is a number \<open>m / 2 ^ e\<close> that is not negative, at most \<open>INT32_MAX\<close>
  and an integer. The conversion of a NaN to \<open>int32_t\<close> is undefined.
\<close>

definition config_version :: "cJSON option \<Rightarrow> int option option" where
  "config_version item = (case item of
     None \<Rightarrow> Some None
   | Some x \<Rightarrow> if \<not> cf_cJSON_Is CJ_Number item then Some None
     else (case cj_valuedouble x of
         Finite m e \<Rightarrow> if m < 0 then Some None
           else if m > INT32_MAX * 2 ^ e then Some None
           else if m div 2 ^ e * 2 ^ e \<noteq> m then Some None
           else Some (Some (m div 2 ^ e))
       | Infinite \<Rightarrow> Some None
       | Neg_Infinite \<Rightarrow> Some None
       | Not_A_Number \<Rightarrow> None))"

definition top_keys :: "u8 list list" where "top_keys = [str ''version'', str ''config'']"
definition config_keys :: "u8 list list" where "config_keys = [str ''ingress'', str ''originRequest'', str ''warp-routing'']"
definition ingress_keys :: "u8 list list" where "ingress_keys = [str ''hostname'', str ''service'', str ''originRequest'']"
definition fallback_keys :: "u8 list list" where "fallback_keys = [str ''service'']"
definition warp_keys :: "u8 list list" where "warp_keys = [str ''enabled'']"

text \<open>
  The verdict on an update: the return code, the reason, and the version to publish with
  \<open>CF_OK\<close>. The checks of the two rules come last.
\<close>

type_synonym config_verdict = "cf_result \<times> string \<times> int"

definition config_rules :: "cJSON option \<Rightarrow> cJSON option \<Rightarrow> u8 list \<Rightarrow> u8 list \<Rightarrow> int \<Rightarrow> config_verdict option" where
  "config_rules first lst hostname service v =
     (if \<not> cf_json_keys first ingress_keys
      then Some (CF_ERR_UNSUPPORTED, ''Unknown or duplicate fields in the hostname ingress rule.'', v)
      else if \<not> cf_json_keys lst fallback_keys
      then Some (CF_ERR_UNSUPPORTED, ''Unknown or duplicate fields in the fallback ingress rule.'', v)
      else do {
        same \<leftarrow> same_string (cf_cJSON_GetObjectItemCaseSensitive first (str ''hostname'')) hostname;
        if \<not> same then Some (CF_ERR_UNSUPPORTED, ''Ingress hostname differs from the hostname saved on this device.'', v)
        else do {
          same \<leftarrow> same_string (cf_cJSON_GetObjectItemCaseSensitive first (str ''service'')) service;
          if \<not> same then Some (CF_ERR_UNSUPPORTED, ''Ingress service differs from the permitted local service (http://localhost:80 for ESP Monitor).'', v)
          else do {
            same \<leftarrow> same_string (cf_cJSON_GetObjectItemCaseSensitive lst (str ''service'')) (str ''http_status:404'');
            if \<not> same then Some (CF_ERR_UNSUPPORTED, ''The final ingress service must be http_status:404.'', v)
            else if \<not> empty_object (cf_cJSON_GetObjectItemCaseSensitive first (str ''originRequest''))
            then Some (CF_ERR_UNSUPPORTED, ''Hostname originRequest options are unsupported.'', v)
            else Some (CF_OK, ''Remote ingress configuration applied.'', v)
          }
        }
      })"

definition warp_ok :: "cJSON option \<Rightarrow> bool" where
  "warp_ok warp \<longleftrightarrow> \<not> (warp \<noteq> None \<and> (\<not> cf_json_keys warp warp_keys
     \<or> \<not> cf_cJSON_Is CJ_False (cf_cJSON_GetObjectItemCaseSensitive warp (str ''enabled''))))"

text \<open>The checks of the tunnel configuration, from the version on.\<close>

definition config_body :: "cJSON option \<Rightarrow> u8 list \<Rightarrow> u8 list \<Rightarrow> int \<Rightarrow> config_verdict option" where
  "config_body config hostname service v =
     (if \<not> cf_json_keys config config_keys
      then Some (CF_ERR_UNSUPPORTED, ''Unknown or duplicate fields in the tunnel configuration.'', v)
      else if \<not> empty_object (cf_cJSON_GetObjectItemCaseSensitive config (str ''originRequest''))
      then Some (CF_ERR_UNSUPPORTED, ''Global originRequest options are unsupported.'', v)
      else if \<not> warp_ok (cf_cJSON_GetObjectItemCaseSensitive config (str ''warp-routing''))
      then Some (CF_ERR_UNSUPPORTED, ''WARP routing options are unsupported; only enabled=false is accepted.'', v)
      else
        let rules = cf_cJSON_GetObjectItemCaseSensitive config (str ''ingress'') in
        if \<not> cf_cJSON_Is CJ_Array rules \<or> cf_cJSON_GetArraySize rules \<noteq> 2
        then Some (CF_ERR_UNSUPPORTED, ''Expected one hostname rule followed by one 404 fallback rule.'', v)
        else config_rules (cf_cJSON_GetArrayItem rules 0) (cf_cJSON_GetArrayItem rules 1) hostname service v)"

definition config_check :: "cJSON \<Rightarrow> u8 list \<Rightarrow> u8 list \<Rightarrow> config_verdict option" where
  "config_check root hostname service =
     (if \<not> cf_json_keys (Some root) top_keys
      then Some (CF_ERR_UNSUPPORTED, ''Unknown or duplicate fields in the configuration update envelope.'', 0)
      else do {
        v \<leftarrow> config_version (cf_cJSON_GetObjectItemCaseSensitive (Some root) (str ''version''));
        (case v of
           None \<Rightarrow> Some (CF_ERR_FORMAT, ''Invalid configuration version.'', 0)
         | Some v \<Rightarrow> config_body (cf_cJSON_GetObjectItemCaseSensitive (Some root) (str ''config'')) hostname service v)
      })"

text \<open>The publication of an accepted update.\<close>

definition config_publish :: "cf_remote_config \<Rightarrow> u8 list \<Rightarrow> u8 list \<Rightarrow> int \<Rightarrow> cf_remote_config option" where
  "config_publish state hostname service v =
     (if \<not> cfg_valid state \<or> v > cfg_version state then do {
        h \<leftarrow> store_n (cfg_hostname state) 0 (hostname @ [0]);
        s \<leftarrow> store_n (cfg_service state) 0 (service @ [0]);
        Some (state\<lparr>cfg_hostname := h, cfg_service := s, cfg_version := v, cfg_valid := True\<rparr>)
      }
      else Some state)"

text \<open>
  \<open>reason\<close> is the pointee of the reason argument, \<open>None\<close> for NULL; \<open>hostname\<close> and \<open>service\<close> are C
  strings or NULL.
\<close>

type_synonym config_result = "(cf_result \<times> cf_remote_config option \<times> string option \<times> json_heap) option"

definition cf_config_apply_ex :: "cjson_parser \<Rightarrow> cf_remote_config option \<Rightarrow> cf_bytes \<Rightarrow> u8 list option \<Rightarrow> u8 list option
    \<Rightarrow> string option \<Rightarrow> json_heap \<Rightarrow> config_result" where
  "cf_config_apply_ex parser state update hostname service reason heap = (let say = (\<lambda>t. map_option (\<lambda>_. t) reason) in
     (case (state, hostname, service) of
        (Some st, Some host, Some serv) \<Rightarrow> do {
          valid \<leftarrow> hostname_valid host;
          if \<not> valid \<or> serv = [] \<or> length serv > CF_LOCAL_SERVICE_MAX \<or> bytes_bad update
          then Some (CF_ERR_ARGUMENT, state, say ''Invalid local ingress policy.'', heap)
          else if bytes_len update = 0 \<or> bytes_len update > CF_CONFIG_MESSAGE_MAX
          then Some (CF_ERR_LIMIT, state, say ''Ingress update exceeds the message limit.'', heap)
          else do {
            (root, heap) \<leftarrow> cf_json_parse parser update heap;
            (case root of
               None \<Rightarrow> Some (cf_json_failure heap, state, say ''Invalid ingress JSON or JSON memory limit reached.'', heap)
             | Some root \<Rightarrow> do {
                 (rc, why, v) \<leftarrow> config_check root host serv;
                 st \<leftarrow> (if rc = CF_OK then config_publish st host serv v else Some st);
                 Some (rc, Some st, say why, heap)
               })
          }
        }
      | _ \<Rightarrow> Some (CF_ERR_ARGUMENT, state, say ''Invalid local ingress policy.'', heap)))"

definition cf_config_apply :: "cjson_parser \<Rightarrow> cf_remote_config option \<Rightarrow> cf_bytes \<Rightarrow> u8 list option \<Rightarrow> u8 list option
    \<Rightarrow> json_heap \<Rightarrow> config_result" where
  "cf_config_apply parser state update hostname service heap = cf_config_apply_ex parser state update hostname service None heap"

section \<open>The answer\<close>

text \<open>The decimal digits of \<open>%ld\<close>.\<close>

fun decimal_nat :: "nat \<Rightarrow> u8 list" where
  "decimal_nat n = (if n < 10 then [48 + word_of_nat n] else decimal_nat (n div 10) @ [48 + word_of_nat (n mod 10)])"

declare decimal_nat.simps [simp del]

definition decimal :: "int \<Rightarrow> u8 list" where
  "decimal v = (if v < 0 then ch CHR ''-'' # decimal_nat (nat (- v)) else decimal_nat (nat v))"

definition response_text :: "int \<Rightarrow> bool \<Rightarrow> u8 list" where
  "response_text v ok = [ch CHR ''{'', 34] @ str ''lastAppliedVersion'' @ [34, ch CHR '':''] @ decimal v @ [ch CHR '','', 34] @ str ''err''
     @ [34, ch CHR '':''] @ (if ok then str ''null'' else str ''{}'') @ [ch CHR ''}'']"

text \<open>\<open>snprintf\<close> writes at most \<open>cap - 1\<close> characters and a NUL, and returns the full length.\<close>

definition cf_config_response :: "cf_remote_config option \<Rightarrow> cf_result \<Rightarrow> mem option \<Rightarrow> nat \<Rightarrow> nat option
    \<Rightarrow> (cf_result \<times> mem option \<times> nat option) option" where
  "cf_config_response config result outp cap written =
     (if written = None then Some (CF_ERR_ARGUMENT, outp, written)
      else (case (config, outp) of
        (Some cfg, Some out) \<Rightarrow>
          if cap = 0 then Some (CF_ERR_ARGUMENT, outp, Some 0)
          else do {
            let t = response_text (if cfg_valid cfg then cfg_version cfg else - 1) (result = CF_OK);
            out \<leftarrow> store_n out 0 (take (cap - 1) t @ [0]);
            if length t \<ge> cap then do { out \<leftarrow> store out 0 0; Some (CF_ERR_LIMIT, Some out, Some 0) }
            else Some (CF_OK, Some out, Some (length t))
          }
      | _ \<Rightarrow> Some (CF_ERR_ARGUMENT, outp, Some 0)))"

section \<open>Host names\<close>

text \<open>The reference: split the name at its dots and check each label.\<close>

fun split_dots :: "u8 list \<Rightarrow> u8 list list" where
  "split_dots [] = [[]]"
| "split_dots (c # cs) = (if c = ch CHR ''.'' then [] # split_dots cs else (c # hd (split_dots cs)) # tl (split_dots cs))"

definition label_ok :: "u8 list \<Rightarrow> bool" where
  "label_ok l \<longleftrightarrow> l \<noteq> [] \<and> length l \<le> 63 \<and> list_all host_char l \<and> hd l \<noteq> ch CHR ''-'' \<and> last l \<noteq> ch CHR ''-''"

definition host_name :: "u8 list \<Rightarrow> bool" where
  "host_name name \<longleftrightarrow> length name \<le> CF_HOSTNAME_MAX \<and> list_all label_ok (split_dots name)"

lemma split_dots_not_Nil [simp]: "split_dots s \<noteq> []"
  by (cases s) auto

text \<open>The labels of the rest of a name whose current label has begun with \<open>cur\<close>.\<close>

definition labels_from :: "u8 list \<Rightarrow> u8 list \<Rightarrow> u8 list list" where
  "labels_from cur rest = (cur @ hd (split_dots rest)) # tl (split_dots rest)"

lemma labels_from_simps [simp]:
  "labels_from cur [] = [cur]"
  "c = ch CHR ''.'' \<Longrightarrow> labels_from cur (c # rest) = cur # labels_from [] rest"
  "c \<noteq> ch CHR ''.'' \<Longrightarrow> labels_from cur (c # rest) = labels_from (cur @ [c]) rest"
  by (simp_all add: labels_from_def)

lemma labels_from_dash: "cur = [] \<Longrightarrow> rest \<noteq> [] \<Longrightarrow> hd rest = ch CHR ''-'' \<Longrightarrow> \<not> list_all label_ok (labels_from cur rest)"
  by (cases rest) (auto simp: labels_from_def label_ok_def)

lemma labels_from_bad: "\<not> list_all host_char cur \<or> 63 < length cur \<Longrightarrow> \<not> list_all label_ok (labels_from cur rest)"
  by (auto simp: labels_from_def label_ok_def)

lemma hostname_loop_exact:
  assumes "list_all host_char cur" "length cur \<le> 63" "cur \<noteq> [] \<longrightarrow> hd cur \<noteq> ch CHR ''-''"
    "cur = [] \<and> rest \<noteq> [] \<longrightarrow> hd rest \<noteq> ch CHR ''-''" "cur @ rest \<noteq> [] \<longrightarrow> last (cur @ rest) \<noteq> ch CHR ''-''"
  shows "hostname_loop (pre @ cur @ rest @ [0]) (length (pre @ cur @ rest)) (length (pre @ cur)) (length cur)
    = Some (list_all label_ok (labels_from cur rest))"
  using assms
proof (induction rest arbitrary: pre cur)
  case Nil
  then show ?case by (subst hostname_loop.simps) (auto simp: label_ok_def)
next
  case (Cons c rest)
  let ?s = "pre @ cur @ (c # rest) @ [0]"
  have at: "load ?s (length (pre @ cur)) = Some c" by (simp add: load_def nth_append)
  have next0: "load ?s (length (pre @ cur) + 1) = Some (hd (rest @ [0]))"
    by (cases rest) (simp_all add: load_def nth_append)
  have more: "length (pre @ cur) < length (pre @ cur @ c # rest)" by simp
  consider (empty) "c = ch CHR ''.''" "cur = []" | (dot) "c = ch CHR ''.''" "cur \<noteq> []"
    | (bad) "c \<noteq> ch CHR ''.''" "\<not> host_char c \<or> 63 < length cur + 1"
    | (char) "c \<noteq> ch CHR ''.''" "host_char c" "length cur + 1 \<le> 63" by fastforce
  then show ?case
  proof cases
    case empty
    then show ?thesis using at more by (subst hostname_loop.simps) (simp add: label_ok_def)
  next
    case dot
    have before: "load ?s (length (pre @ cur) - 1) = Some (last cur)"
      using dot(2) by (cases cur rule: rev_cases) (simp_all add: load_def nth_append)
    have nz: "length (pre @ cur) \<noteq> 0" "length cur \<noteq> 0" using dot(2) by simp_all
    have st: "hostname_loop ?s (length (pre @ cur @ c # rest)) (length (pre @ cur)) (length cur) =
        (if last cur = ch CHR ''-'' \<or> hd (rest @ [0]) = ch CHR ''-'' then Some False
         else hostname_loop ?s (length (pre @ cur @ c # rest)) (length (pre @ cur) + 1) 0)"
      using at more before next0 nz dot(1) by (subst hostname_loop.simps) simp
    have lab: "list_all label_ok (labels_from cur (c # rest)) \<longleftrightarrow> last cur \<noteq> ch CHR ''-'' \<and> list_all label_ok (labels_from [] rest)"
      using dot Cons.prems(1-3) by (auto simp: label_ok_def)
    show ?thesis
    proof (cases "hd (rest @ [0]) = ch CHR ''-''")
      case True
      then have "rest \<noteq> []" "hd rest = ch CHR ''-''" by (cases rest; simp)+
      then show ?thesis unfolding st lab using True labels_from_dash [of "[]" rest] by simp
    next
      case False
      then have h: "rest \<noteq> [] \<longrightarrow> hd rest \<noteq> ch CHR ''-''" by (cases rest) simp_all
      have "rest \<noteq> [] \<longrightarrow> last rest \<noteq> ch CHR ''-''" using Cons.prems(5) by (auto split: if_splits)
      then show ?thesis unfolding st lab using False h Cons.IH [of "[]" "pre @ cur @ [c]"] by simp
    qed
  next
    case bad
    then have "\<not> list_all label_ok (labels_from (cur @ [c]) rest)" by (intro labels_from_bad) auto
    then show ?thesis using bad at more by (subst hostname_loop.simps) auto
  next
    case char
    have hd: "hd (cur @ [c]) \<noteq> ch CHR ''-''" using Cons.prems(3,4) by (cases cur) auto
    have "hostname_loop (pre @ (cur @ [c]) @ rest @ [0]) (length (pre @ (cur @ [c]) @ rest)) (length (pre @ cur @ [c])) (length (cur @ [c]))
        = Some (list_all label_ok (labels_from (cur @ [c]) rest))"
      using char Cons.prems(1,5) hd by (intro Cons.IH) auto
    then show ?thesis using char at more by (subst hostname_loop.simps) simp
  qed
qed

lemma split_dots_last:
  "name \<noteq> [] \<Longrightarrow> last name \<noteq> ch CHR ''.'' \<Longrightarrow> last (split_dots name) \<noteq> [] \<and> last (last (split_dots name)) = last name"
proof (induction name)
  case (Cons c cs)
  obtain l ls where sp: "split_dots cs = l # ls" using split_dots_not_Nil [of cs] by (cases "split_dots cs") blast+
  show ?case using Cons sp by (cases "cs = []") (auto split: if_splits)
qed simp

lemma hostname_valid_exact: "hostname_valid name = Some (host_name name)"
proof (cases "name = [] \<or> length name > CF_HOSTNAME_MAX")
  case True
  then show ?thesis by (auto simp: hostname_valid_def host_name_def label_ok_def)
next
  case False
  have l: "load (name @ [0]) 0 = Some (hd name)" "load (name @ [0]) (length name - 1) = Some (last name)"
    using False by (auto simp: load_def nth_append hd_conv_nth last_conv_nth)
  have lf: "labels_from [] name = split_dots name" by (cases "split_dots name") (auto simp: labels_from_def dest: arg_cong [of _ _ "\<lambda>x. x = []"])
  have "hd name = ch CHR ''-'' \<Longrightarrow> \<not> list_all label_ok (split_dots name)"
    using labels_from_dash [of "[]" name] False lf by auto
  moreover have "last name = ch CHR ''-'' \<Longrightarrow> \<not> list_all label_ok (split_dots name)"
    using split_dots_last [of name] False last_in_set [OF split_dots_not_Nil, of name] by (auto simp: list_all_iff label_ok_def)
  ultimately show ?thesis
    using False l hostname_loop_exact [of "[]" name "[]"] lf by (auto simp: hostname_valid_def Let_def host_name_def)
qed

section \<open>Accepted updates\<close>

lemma same_string_yields:
  assumes "strings_valued x"
  shows "yields (same_string (cf_cJSON_GetObjectItemCaseSensitive (Some x) k) t) (\<lambda>b. b = (item_text x k = Some t))"
proof (cases "cf_cJSON_Is CJ_String (cf_cJSON_GetObjectItemCaseSensitive (Some x) k)")
  case True
  then obtain y v where "cf_cJSON_GetObjectItemCaseSensitive (Some x) k = Some y" "cj_type y = CJ_String" "cj_valuestring y = Some v"
    using get_string_value [OF assms] by blast
  then show ?thesis using True by (simp add: same_string_def item_text_def yields_def)
next
  case False
  then show ?thesis by (auto simp: same_string_def item_text_def yields_def cf_cJSON_Is_def split: option.splits if_splits)
qed

text \<open>A number of the parser is not a NaN; a version is a number that denotes an \<open>int32_t\<close> of at least zero.\<close>

fun numbers_valued :: "cJSON \<Rightarrow> bool" where
  "numbers_valued (CJ ty name val num children) \<longleftrightarrow> (ty = CJ_Number \<longrightarrow> num \<noteq> Not_A_Number) \<and> list_all numbers_valued children"

definition parser_numbers :: "cjson_parser \<Rightarrow> bool" where
  "parser_numbers parser \<longleftrightarrow> (\<forall>xs t fin failed. parser xs = (Some (t, fin), failed) \<longrightarrow> numbers_valued t)"

definition version_denotes :: "cJSON option \<Rightarrow> int \<Rightarrow> bool" where
  "version_denotes item v \<longleftrightarrow> (\<exists>x m e. item = Some x \<and> cj_type x = CJ_Number \<and> cj_valuedouble x = Finite m e
     \<and> m = v * 2 ^ e \<and> 0 \<le> v \<and> v \<le> INT32_MAX)"

lemma version_fraction:
  fixes m v :: int
  shows "(0 \<le> m \<and> m \<le> INT32_MAX * 2 ^ e \<and> m div 2 ^ e * 2 ^ e = m \<and> v = m div 2 ^ e) \<longleftrightarrow> (m = v * 2 ^ e \<and> 0 \<le> v \<and> v \<le> INT32_MAX)"
proof
  assume a: "0 \<le> m \<and> m \<le> INT32_MAX * 2 ^ e \<and> m div 2 ^ e * 2 ^ e = m \<and> v = m div 2 ^ e"
  then have v: "m = v * 2 ^ e" "v = m div 2 ^ e" by metis+
  have "v * 2 ^ e \<le> INT32_MAX * 2 ^ e" using a v(1) by argo
  then have "v \<le> INT32_MAX" by (simp only: mult_le_cancel_right_pos zero_less_power zero_less_numeral)
  moreover have "0 \<le> v" unfolding v(2) using a by (simp add: pos_imp_zdiv_nonneg_iff)
  ultimately show "m = v * 2 ^ e \<and> 0 \<le> v \<and> v \<le> INT32_MAX" using v(1) by blast
qed (auto simp: mult_right_mono)

lemma config_version_yields:
  assumes "\<And>x. item = Some x \<Longrightarrow> numbers_valued x"
  shows "yields (config_version item) (\<lambda>r. case r of None \<Rightarrow> \<forall>v. \<not> version_denotes item v | Some v \<Rightarrow> version_denotes item v)"
proof (cases item)
  case None
  then show ?thesis by (simp add: config_version_def yields_def version_denotes_def)
next
  case (Some x)
  then have nn: "cj_type x = CJ_Number \<longrightarrow> cj_valuedouble x \<noteq> Not_A_Number" using assms by (cases x) auto
  show ?thesis
  proof (cases "cj_type x = CJ_Number \<and> (\<exists>m e. cj_valuedouble x = Finite m e)")
    case True
    then obtain m e where me: "cj_type x = CJ_Number" "cj_valuedouble x = Finite m e" by blast
    have vd: "version_denotes item v \<longleftrightarrow> 0 \<le> m \<and> m \<le> INT32_MAX * 2 ^ e \<and> m div 2 ^ e * 2 ^ e = m \<and> v = m div 2 ^ e" for v
      using me Some version_fraction [of m e v] by (auto simp: version_denotes_def)
    show ?thesis unfolding vd using me Some by (simp add: config_version_def cf_cJSON_Is_def yields_def not_less)
  next
    case False
    then show ?thesis using Some nn
      by (cases "cj_valuedouble x") (auto simp: config_version_def cf_cJSON_Is_def yields_def version_denotes_def)
  qed
qed

text \<open>An object whose names are distinct and allowed.\<close>

definition only_names :: "u8 list list \<Rightarrow> cJSON \<Rightarrow> bool" where
  "only_names allowed x \<longleftrightarrow> cj_type x = CJ_Object
     \<and> (\<exists>ns. item_names (cj_child x) = map Some ns \<and> distinct ns \<and> set ns \<subseteq> set allowed)"

lemma only_namesI:
  "cj_type x = CJ_Object \<Longrightarrow> item_names (cj_child x) = map Some ns \<Longrightarrow> distinct ns \<Longrightarrow> set ns \<subseteq> set allowed \<Longrightarrow> only_names allowed x"
  unfolding only_names_def by blast

lemma keys_only_names: "cf_json_keys item allowed \<longleftrightarrow> (\<exists>x. item = Some x \<and> only_names allowed x)"
  by (cases item) (simp_all add: cf_json_keys_exact only_names_def, simp add: cf_json_keys_def cf_cJSON_Is_def)

text \<open>The two rules of an accepted update: the device's hostname and service, then the 404 fallback.\<close>

definition rules_denote :: "cJSON \<Rightarrow> cJSON \<Rightarrow> u8 list \<Rightarrow> u8 list \<Rightarrow> bool" where
  "rules_denote first lst hostname service \<longleftrightarrow> only_names ingress_keys first \<and> only_names fallback_keys lst
     \<and> item_text first (str ''hostname'') = Some hostname \<and> item_text first (str ''service'') = Some service
     \<and> item_text lst (str ''service'') = Some (str ''http_status:404'')
     \<and> empty_object (cf_cJSON_GetObjectItemCaseSensitive (Some first) (str ''originRequest''))"

definition config_denotes :: "cJSON \<Rightarrow> u8 list \<Rightarrow> u8 list \<Rightarrow> int \<Rightarrow> bool" where
  "config_denotes root hostname service v \<longleftrightarrow> only_names top_keys root
     \<and> version_denotes (cf_cJSON_GetObjectItemCaseSensitive (Some root) (str ''version'')) v
     \<and> (\<exists>config rules first lst. cf_cJSON_GetObjectItemCaseSensitive (Some root) (str ''config'') = Some config
         \<and> only_names config_keys config
         \<and> empty_object (cf_cJSON_GetObjectItemCaseSensitive (Some config) (str ''originRequest''))
         \<and> warp_ok (cf_cJSON_GetObjectItemCaseSensitive (Some config) (str ''warp-routing''))
         \<and> cf_cJSON_GetObjectItemCaseSensitive (Some config) (str ''ingress'') = Some rules
         \<and> cj_type rules = CJ_Array \<and> cj_child rules = [first, lst] \<and> rules_denote first lst hostname service)"

lemma config_rules_yields:
  assumes "strings_valued first" "strings_valued lst"
  shows "yields (config_rules (Some first) (Some lst) hostname service v)
    (\<lambda>(rc, why, v'). v' = v \<and> (rc = CF_OK \<longleftrightarrow> rules_denote first lst hostname service))"
  unfolding config_rules_def keys_only_names
  by (intro yields_if yields_bind [OF same_string_yields] assms yields_Some)
     (auto simp: rules_denote_def)

lemma numbers_valued_child: "numbers_valued x \<Longrightarrow> y \<in> set (cj_child x) \<Longrightarrow> numbers_valued y"
  by (cases x) (auto simp: list_all_iff)

lemma get_item_numbers:
  "numbers_valued x \<Longrightarrow> cf_cJSON_GetObjectItemCaseSensitive (Some x) k = Some y \<Longrightarrow> numbers_valued y"
  by (auto simp: cf_cJSON_GetObjectItemCaseSensitive_def dest: object_item_in numbers_valued_child)

definition verdict_or :: "(int \<Rightarrow> bool) \<Rightarrow> config_verdict \<Rightarrow> bool" where
  "verdict_or G = (\<lambda>(rc, why, v). if rc = CF_OK then G v else \<forall>v. \<not> G v)"

lemma verdict_none: "\<forall>v. \<not> G v \<Longrightarrow> rc \<noteq> CF_OK \<Longrightarrow> yields (Some (rc, why, v)) (verdict_or G)"
  by (simp add: yields_def verdict_or_def)

text \<open>From the version on.\<close>

lemma config_body_yields:
  assumes sv: "\<And>x. config = Some x \<Longrightarrow> strings_valued x"
    and G: "\<And>w. G w \<longleftrightarrow> w = v \<and> (\<exists>x rules first lst. config = Some x \<and> only_names config_keys x
         \<and> empty_object (cf_cJSON_GetObjectItemCaseSensitive (Some x) (str ''originRequest''))
         \<and> warp_ok (cf_cJSON_GetObjectItemCaseSensitive (Some x) (str ''warp-routing''))
         \<and> cf_cJSON_GetObjectItemCaseSensitive (Some x) (str ''ingress'') = Some rules
         \<and> cj_type rules = CJ_Array \<and> cj_child rules = [first, lst] \<and> rules_denote first lst hostname service)"
  shows "yields (config_body config hostname service v) (verdict_or G)"
proof (cases "cf_json_keys config config_keys")
  case False
  then have "\<forall>w. \<not> G w" by (auto simp: keys_only_names G)
  then show ?thesis using False by (simp add: config_body_def verdict_none)
next
  case True
  then obtain x where x: "config = Some x" "only_names config_keys x" by (auto simp: keys_only_names)
  let ?rules = "cf_cJSON_GetObjectItemCaseSensitive (Some x) (str ''ingress'')"
  show ?thesis
  proof (cases "\<exists>rules first lst. ?rules = Some rules \<and> cj_type rules = CJ_Array \<and> cj_child rules = [first, lst]")
    case False
    then have "\<not> cf_cJSON_Is CJ_Array ?rules \<or> cf_cJSON_GetArraySize ?rules \<noteq> 2"
      by (auto simp: cf_cJSON_Is_def cf_cJSON_GetArraySize_def numeral_2_eq_2 length_Suc_conv split: option.splits)
    moreover have "\<forall>w. \<not> G w" using False x by (auto simp: G)
    ultimately show ?thesis using x True by (auto simp: config_body_def Let_def intro!: verdict_none)
  next
    case ar: True
    then obtain rules first lst where rr: "?rules = Some rules" "cj_type rules = CJ_Array" "cj_child rules = [first, lst]" by blast
    have svr: "strings_valued rules" using get_item_strings [OF sv [OF x(1)] rr(1)] .
    have svs: "strings_valued first" "strings_valued lst" using strings_valued_child [OF svr] rr(3) by auto
    have g: "G w \<longleftrightarrow> w = v \<and> empty_object (cf_cJSON_GetObjectItemCaseSensitive (Some x) (str ''originRequest''))
       \<and> warp_ok (cf_cJSON_GetObjectItemCaseSensitive (Some x) (str ''warp-routing'')) \<and> rules_denote first lst hostname service" for w
      using x rr by (auto simp: G)
    have idx: "cf_cJSON_GetArrayItem ?rules 0 = Some first" "cf_cJSON_GetArrayItem ?rules 1 = Some lst"
      "cf_cJSON_Is CJ_Array ?rules" "cf_cJSON_GetArraySize ?rules = 2"
      using rr by (simp_all add: cf_cJSON_GetArrayItem_def cf_cJSON_Is_def cf_cJSON_GetArraySize_def)
    have body: "yields (config_rules (Some first) (Some lst) hostname service v) (verdict_or G)"
      if "empty_object (cf_cJSON_GetObjectItemCaseSensitive (Some x) (str ''originRequest''))"
         "warp_ok (cf_cJSON_GetObjectItemCaseSensitive (Some x) (str ''warp-routing''))"
      using that by (intro yields_weaken [OF config_rules_yields [OF svs]]) (auto simp: verdict_or_def g)
    show ?thesis using x True idx body by (auto simp: config_body_def Let_def g intro!: verdict_none)
  qed
qed

lemma config_check_yields:
  assumes "strings_valued root" "numbers_valued root"
  shows "yields (config_check root hostname service) (verdict_or (config_denotes root hostname service))"
proof (cases "only_names top_keys root")
  case False
  then have "\<forall>v. \<not> config_denotes root hostname service v" by (simp add: config_denotes_def)
  then show ?thesis using False by (simp add: config_check_def keys_only_names verdict_none)
next
  case True
  let ?version = "cf_cJSON_GetObjectItemCaseSensitive (Some root) (str ''version'')"
  have nv: "\<And>x. ?version = Some x \<Longrightarrow> numbers_valued x" using get_item_numbers [OF assms(2)] .
  have uniq: "version_denotes ?version v \<Longrightarrow> version_denotes ?version w \<Longrightarrow> w = v" for v w by (auto simp: version_denotes_def)
  obtain r where r: "config_version ?version = Some r"
      "case r of None \<Rightarrow> \<forall>v. \<not> version_denotes ?version v | Some v \<Rightarrow> version_denotes ?version v"
    using config_version_yields [OF nv] by (auto simp: yields_def)
  show ?thesis
  proof (cases r)
    case None
    then have "\<forall>v. \<not> config_denotes root hostname service v" using r(2) by (simp add: config_denotes_def)
    then show ?thesis using True r(1) None by (simp add: config_check_def keys_only_names verdict_none)
  next
    case (Some v)
    have d: "config_denotes root hostname service w \<longleftrightarrow> w = v \<and> (\<exists>x rules first lst.
        cf_cJSON_GetObjectItemCaseSensitive (Some root) (str ''config'') = Some x \<and> only_names config_keys x
         \<and> empty_object (cf_cJSON_GetObjectItemCaseSensitive (Some x) (str ''originRequest''))
         \<and> warp_ok (cf_cJSON_GetObjectItemCaseSensitive (Some x) (str ''warp-routing''))
         \<and> cf_cJSON_GetObjectItemCaseSensitive (Some x) (str ''ingress'') = Some rules
         \<and> cj_type rules = CJ_Array \<and> cj_child rules = [first, lst] \<and> rules_denote first lst hostname service)" for w
      using True r(2) Some uniq by (auto simp: config_denotes_def)
    note body = config_body_yields [OF get_item_strings [OF assms(1)] d]
    show ?thesis using True r(1) Some body by (simp add: config_check_def keys_only_names)
  qed
qed

section \<open>Applying updates\<close>

definition policy_ok :: "u8 list \<Rightarrow> u8 list \<Rightarrow> bool" where
  "policy_ok host serv \<longleftrightarrow> host_name host \<and> serv \<noteq> [] \<and> length serv \<le> CF_LOCAL_SERVICE_MAX"

definition update_denotes :: "cjson_parser \<Rightarrow> u8 list \<Rightarrow> u8 list \<Rightarrow> u8 list \<Rightarrow> int \<Rightarrow> bool" where
  "update_denotes parser update host serv v \<longleftrightarrow> (\<exists>root. json_accepts parser update root \<and> config_denotes root host serv v)"

text \<open>A C string at the start of an array.\<close>

definition holds_string :: "mem \<Rightarrow> u8 list \<Rightarrow> bool" where
  "holds_string m s \<longleftrightarrow> take (length s + 1) m = s @ [0]"

definition config_sized :: "cf_remote_config \<Rightarrow> bool" where
  "config_sized st \<longleftrightarrow> length (cfg_hostname st) = CF_HOSTNAME_MAX + 1 \<and> length (cfg_service st) = CF_LOCAL_SERVICE_MAX + 1"

definition config_inv :: "cf_remote_config \<Rightarrow> bool" where
  "config_inv st \<longleftrightarrow> config_sized st \<and>
     (if cfg_valid st then 0 \<le> cfg_version st \<and> cfg_version st \<le> INT32_MAX
        \<and> (\<exists>host serv. policy_ok host serv \<and> holds_string (cfg_hostname st) host \<and> holds_string (cfg_service st) serv)
      else cfg_version st = - 1)"

text \<open>The state after an update of version \<open>v\<close>: replaced as a whole when it is newer.\<close>

definition publishes :: "cf_remote_config \<Rightarrow> u8 list \<Rightarrow> u8 list \<Rightarrow> int \<Rightarrow> cf_remote_config \<Rightarrow> bool" where
  "publishes st host serv v st' \<longleftrightarrow> (if cfg_valid st \<and> v \<le> cfg_version st then st' = st
     else cfg_valid st' \<and> cfg_version st' = v \<and> config_sized st'
       \<and> holds_string (cfg_hostname st') host \<and> holds_string (cfg_service st') serv)"

lemma holds_string_splice: "length s < length m \<Longrightarrow> holds_string (splice m 0 (s @ [0])) s"
  by (simp add: holds_string_def splice_def)

lemma config_publish_yields:
  assumes "config_sized st" "policy_ok host serv"
  shows "yields (config_publish st host serv v) (publishes st host serv v)"
proof -
  have l: "length host < length (cfg_hostname st)" "length serv < length (cfg_service st)"
    using assms by (auto simp: config_sized_def policy_ok_def host_name_def)
  then have "store_n (cfg_hostname st) 0 (host @ [0]) = Some (splice (cfg_hostname st) 0 (host @ [0]))"
    "store_n (cfg_service st) 0 (serv @ [0]) = Some (splice (cfg_service st) 0 (serv @ [0]))"
    by (simp_all add: store_n_Some)
  then show ?thesis using l assms(1) holds_string_splice
    by (auto simp: config_publish_def yields_def publishes_def config_sized_def)
qed

text \<open>The outcome of an update.\<close>

definition applies :: "cjson_parser \<Rightarrow> cf_remote_config \<Rightarrow> cf_bytes \<Rightarrow> u8 list \<Rightarrow> u8 list \<Rightarrow> cf_result \<Rightarrow> cf_remote_config \<Rightarrow> bool" where
  "applies parser st update host serv rc st' \<longleftrightarrow>
     (if rc = CF_OK then policy_ok host serv \<and> (\<exists>v. update_denotes parser (bytes_list update) host serv v \<and> publishes st host serv v st')
      else st' = st \<and> (policy_ok host serv \<and> \<not> bytes_bad update \<longrightarrow> (\<forall>v. \<not> update_denotes parser (bytes_list update) host serv v)))"

lemma json_accepts_numbers: "parser_numbers parser \<Longrightarrow> json_accepts parser xs t \<Longrightarrow> numbers_valued t"
  by (auto simp: json_accepts_def parser_numbers_def)

lemma json_failure_error: "cf_json_failure h \<noteq> CF_OK"
  by (simp add: cf_json_failure_def)

lemma config_apply_yields:
  assumes "parser_strings parser" "parser_numbers parser" "config_sized st"
  shows "yields (cf_config_apply_ex parser (Some st) update (Some host) (Some serv) reason heap)
    (\<lambda>(rc, st', why, heap'). \<exists>s. st' = Some s \<and> applies parser st update host serv rc s)" (is "yields _ ?Q")
proof -
  let ?say = "\<lambda>t. map_option (\<lambda>_. t) reason"
  have args: "(\<not> host_name host \<or> serv = [] \<or> length serv > CF_LOCAL_SERVICE_MAX \<or> bytes_bad update) \<longleftrightarrow> \<not> (policy_ok host serv \<and> \<not> bytes_bad update)"
    by (auto simp: policy_ok_def)
  have rest: "yields (cf_json_parse parser update heap \<bind> (\<lambda>(root, heap). case root of
               None \<Rightarrow> Some (cf_json_failure heap, Some st, ?say e, heap)
             | Some root \<Rightarrow> config_check root host serv \<bind> (\<lambda>(rc, why, v).
                 (if rc = CF_OK then config_publish st host serv v else Some st) \<bind> (\<lambda>st. Some (rc, Some st, ?say why, heap))))) ?Q"
    if p: "policy_ok host serv" for e
  proof (rule yields_bind [OF cf_json_parse_yields], erule yields_case_prod)
    fix root :: "cJSON option" and h' :: json_heap
    assume r: "json_live_bytes h' = json_live_bytes heap \<and> (case root of None \<Rightarrow> \<forall>t. \<not> json_accepts parser (bytes_list update) t
       | Some t \<Rightarrow> json_accepts parser (bytes_list update) t)"
    show "yields (case root of None \<Rightarrow> Some (cf_json_failure h', Some st, ?say e, h')
             | Some root \<Rightarrow> config_check root host serv \<bind> (\<lambda>(rc, why, v).
                 (if rc = CF_OK then config_publish st host serv v else Some st) \<bind> (\<lambda>st. Some (rc, Some st, ?say why, h')))) ?Q"
    proof (cases root)
      case None
      then show ?thesis using r json_failure_error by (simp add: yields_def applies_def update_denotes_def)
    next
      case (Some t)
      then have t: "json_accepts parser (bytes_list update) t" using r by simp
      have d: "update_denotes parser (bytes_list update) host serv = config_denotes t host serv"
        using t json_accepts_unique unfolding update_denotes_def by blast
      show ?thesis unfolding Some option.case
      proof (rule yields_bind [OF config_check_yields [OF json_accepts_strings [OF assms(1) t] json_accepts_numbers [OF assms(2) t]]])
        fix x :: config_verdict
        assume vx: "verdict_or (config_denotes t host serv) x"
        obtain rc why v where x: "x = (rc, why, v)" by (cases x)
        obtain st1 where st1: "config_publish st host serv v = Some st1" "publishes st host serv v st1"
          using config_publish_yields [OF assms(3) p] by (auto simp: yields_def)
        show "yields (case x of (rc, why, v) \<Rightarrow> (if rc = CF_OK then config_publish st host serv v else Some st)
             \<bind> (\<lambda>st. Some (rc, Some st, ?say why, h'))) ?Q"
          using st1 vx p unfolding x by (auto simp: verdict_or_def yields_def applies_def d)
      qed
    qed
  qed
  show ?thesis
  proof (cases "policy_ok host serv \<and> \<not> bytes_bad update")
    case False
    then show ?thesis using args by (auto simp: cf_config_apply_ex_def hostname_valid_exact yields_def applies_def)
  next
    case True
    have lim: "\<forall>v. \<not> update_denotes parser (bytes_list update) host serv v"
      if "bytes_len update = 0 \<or> bytes_len update > CF_CONFIG_MESSAGE_MAX"
      using that True bytes_list_len [of update] by (auto simp: update_denotes_def json_accepts_def CF_CONFIG_MESSAGE_MAX_def)
    show ?thesis
      using True args lim rest by (auto simp: cf_config_apply_ex_def hostname_valid_exact yields_def applies_def)
  qed
qed

section \<open>Sequences of updates\<close>

text \<open>A message with the policy that is in force when it arrives.\<close>

type_synonym config_message = "cf_bytes \<times> u8 list \<times> u8 list"

definition config_step :: "cjson_parser \<Rightarrow> json_heap \<Rightarrow> config_message \<Rightarrow> cf_remote_config \<Rightarrow> cf_remote_config" where
  "config_step parser heap m st = (case m of (update, host, serv) \<Rightarrow>
     (case cf_config_apply_ex parser (Some st) update (Some host) (Some serv) None heap of
        Some (rc, Some st', why, heap') \<Rightarrow> st'
      | _ \<Rightarrow> st))"

text \<open>The order in which states follow each other: valid stays valid and the version does not go back.\<close>

definition config_le :: "cf_remote_config \<Rightarrow> cf_remote_config \<Rightarrow> bool" where
  "config_le st st' \<longleftrightarrow> (cfg_valid st \<longrightarrow> cfg_valid st') \<and> cfg_version st \<le> cfg_version st'
     \<and> (cfg_valid st \<and> cfg_version st' = cfg_version st \<longrightarrow> st' = st)"

lemma config_le_refl [simp]: "config_le st st"
  by (simp add: config_le_def)

lemma config_le_trans: "config_le a b \<Longrightarrow> config_le b c \<Longrightarrow> config_le a c"
  unfolding config_le_def by (metis order_antisym order_trans)

lemma update_denotes_range: "update_denotes parser update host serv v \<Longrightarrow> 0 \<le> v \<and> v \<le> INT32_MAX"
  by (auto simp: update_denotes_def config_denotes_def version_denotes_def)

lemma applies_inv:
  assumes "config_inv st" "applies parser st update host serv rc st'"
  shows "config_inv st' \<and> config_le st st'"
proof (cases "st' = st")
  case False
  then obtain v where v: "policy_ok host serv" "0 \<le> v" "v \<le> INT32_MAX" "publishes st host serv v st'"
    using assms(2) by (auto simp: applies_def dest: update_denotes_range split: if_splits)
  then show ?thesis using False assms(1)
    by (auto simp: publishes_def config_inv_def config_le_def split: if_splits)
qed (use assms in simp)

lemma config_step_inv:
  assumes "parser_strings parser" "parser_numbers parser" "config_inv st"
  shows "config_inv (config_step parser heap m st) \<and> config_le st (config_step parser heap m st)"
proof -
  obtain update host serv where m: "m = (update, host, serv)" by (cases m)
  have "config_sized st" using assms(3) by (simp add: config_inv_def)
  then obtain rc s why h' where "cf_config_apply_ex parser (Some st) update (Some host) (Some serv) None heap = Some (rc, Some s, why, h')"
      "applies parser st update host serv rc s"
    using config_apply_yields [OF assms(1,2), of st update host serv None heap] by (auto simp: yields_def)
  then show ?thesis using applies_inv [OF assms(3)] by (simp add: config_step_def m)
qed

lemma config_run_inv:
  assumes "parser_strings parser" "parser_numbers parser"
  shows "config_inv st \<Longrightarrow> config_inv (fold (config_step parser heap) ms st) \<and> config_le st (fold (config_step parser heap) ms st)"
proof (induction ms arbitrary: st)
  case (Cons m ms)
  then show ?case using config_step_inv [OF assms Cons.prems, of heap m] config_le_trans by fastforce
qed simp

lemma config_init_inv: "cf_config_init (Some c) = Some st \<Longrightarrow> config_inv st"
  by (auto simp: cf_config_init_def config_inv_def config_sized_def)

section \<open>The length of the answer\<close>

lemma decimal_nat_length: "n < 10 ^ Suc k \<Longrightarrow> length (decimal_nat n) \<le> Suc k"
proof (induction k arbitrary: n)
  case 0
  then show ?case by (simp add: decimal_nat.simps)
next
  case (Suc k)
  show ?case
  proof (cases "n < 10")
    case False
    have "n div 10 < 10 ^ Suc k" using Suc.prems by (simp add: less_mult_imp_div_less)
    then show ?thesis using Suc.IH [of "n div 10"] False by (subst decimal_nat.simps) simp
  qed (simp add: decimal_nat.simps)
qed

lemma decimal_length: "- 1 \<le> v \<Longrightarrow> v \<le> INT32_MAX \<Longrightarrow> length (decimal v) \<le> 10"
proof (cases "v < 0")
  case True
  moreover assume "- 1 \<le> v"
  ultimately have "v = - 1" by simp
  then show ?thesis by (simp add: decimal_def decimal_nat.simps)
next
  case False
  moreover assume "v \<le> INT32_MAX"
  ultimately show ?thesis using decimal_nat_length [of "nat v" 9] by (simp add: decimal_def INT32_MAX_def)
qed

text \<open>The value of a decimal text.\<close>

definition decimal_value :: "u8 list \<Rightarrow> nat" where
  "decimal_value xs = foldl (\<lambda>acc c. acc * 10 + (unat c - 48)) 0 xs"

lemma decimal_digit_value: "n < 10 \<Longrightarrow> unat (48 + word_of_nat n :: u8) - 48 = n"
proof -
  assume n: "n < 10"
  have "unat (word_of_nat n :: u8) = n" using n by (simp add: unsigned_of_nat take_bit_nat_eq_self)
  then have "unat (48 + word_of_nat n :: u8) = 48 + n" using n by (simp add: unat_word_ariths)
  then show ?thesis by simp
qed

lemma decimal_nat_value: "decimal_value (decimal_nat n) = n"
proof (induction n rule: decimal_nat.induct)
  case (1 n)
  show ?case
  proof (cases "n < 10")
    case True
    then show ?thesis using decimal_digit_value by (subst decimal_nat.simps) (simp add: decimal_value_def)
  next
    case False
    have "decimal_value (decimal_nat n) = decimal_value (decimal_nat (n div 10)) * 10 + n mod 10"
      using False decimal_digit_value [of "n mod 10"] by (subst decimal_nat.simps) (simp add: decimal_value_def)
    then show ?thesis using 1 [OF False] by simp
  qed
qed

section \<open>A sample update\<close>

definition sample_host :: "u8 list" where "sample_host = str ''esp.example.com''"
definition sample_service :: "u8 list" where "sample_service = str ''http://localhost:80''"

definition json_field :: "string \<Rightarrow> u8 list \<Rightarrow> u8 list" where
  "json_field k v = [34] @ str k @ [34] @ str '':'' @ v"

definition json_text :: "u8 list \<Rightarrow> u8 list" where
  "json_text v = [34] @ v @ [34]"

definition sample_update :: "u8 list" where
  "sample_update = str ''{'' @ json_field ''version'' (str ''3'') @ str '','' @ json_field ''config'' (str ''{'' @ json_field ''ingress'' (str ''[{''
     @ json_field ''hostname'' (json_text sample_host) @ str '','' @ json_field ''service'' (json_text sample_service) @ str ''},{''
     @ json_field ''service'' (json_text (str ''http_status:404'')) @ str ''}]'') @ str ''}'') @ str ''}''"

definition string_item :: "string \<Rightarrow> u8 list \<Rightarrow> cJSON" where
  "string_item k v = CJ CJ_String (Some (str k)) (Some v) (Finite 0 0) []"

definition sample_first :: cJSON where
  "sample_first = CJ CJ_Object None None (Finite 0 0) [string_item ''hostname'' sample_host, string_item ''service'' sample_service]"

definition sample_last :: cJSON where
  "sample_last = CJ CJ_Object None None (Finite 0 0) [string_item ''service'' (str ''http_status:404'')]"

definition sample_tree :: cJSON where
  "sample_tree = CJ CJ_Object None None (Finite 0 0)
     [CJ CJ_Number (Some (str ''version'')) None (Finite 3 0) [],
      CJ CJ_Object (Some (str ''config'')) None (Finite 0 0)
        [CJ CJ_Array (Some (str ''ingress'')) None (Finite 0 0) [sample_first, sample_last]]]"

definition update_parser :: cjson_parser where
  "update_parser xs = (if xs = sample_update then (Some (sample_tree, length xs), False) else (None, False))"

lemma update_parser_values: "parser_strings update_parser" "parser_numbers update_parser"
  by (auto simp: parser_strings_def parser_numbers_def update_parser_def sample_tree_def sample_first_def sample_last_def string_item_def
      split: if_splits)

lemma sample_update_accepts: "json_accepts update_parser sample_update sample_tree"
proof -
  have "lexemes_loop sample_update 0 False False = Some True" by code_simp
  then have l: "lexemes sample_update" using lexemes_loop_exact [of 0 sample_update False False] by (simp add: lexemes_from_def)
  have n: "nul_free sample_update" by code_simp
  have c: "0 < length sample_update" "length sample_update \<le> 8192" by code_simp+
  show ?thesis using l n c by (auto simp: json_accepts_def update_parser_def skip_space_def)
qed

lemma sample_rules: "rules_denote sample_first sample_last sample_host sample_service"
proof -
  have t: "only_names ingress_keys sample_first" "only_names fallback_keys sample_last"
    by (rule only_namesI [of _ "[str ''hostname'', str ''service'']"],
        simp_all add: item_names_def sample_first_def string_item_def str_def ingress_keys_def)
       (rule only_namesI [of _ "[str ''service'']"],
        simp_all add: item_names_def sample_last_def string_item_def str_def fallback_keys_def)
  show ?thesis using t
    by (simp add: rules_denote_def item_text_def cf_cJSON_GetObjectItemCaseSensitive_def sample_first_def sample_last_def
        string_item_def str_def empty_object_def)
qed

lemma sample_denotes: "update_denotes update_parser sample_update sample_host sample_service 3"
proof -
  let ?config = "CJ CJ_Object (Some (str ''config'')) None (Finite 0 0)
        [CJ CJ_Array (Some (str ''ingress'')) None (Finite 0 0) [sample_first, sample_last]]"
  have n: "only_names top_keys sample_tree" "only_names config_keys ?config"
    by (rule only_namesI [of _ "[str ''version'', str ''config'']"],
        simp_all add: item_names_def sample_tree_def top_keys_def str_def)
       (rule only_namesI [of _ "[str ''ingress'']"], simp_all add: item_names_def config_keys_def str_def)
  have "config_denotes sample_tree sample_host sample_service 3"
    using n sample_rules by (auto simp: config_denotes_def cf_cJSON_GetObjectItemCaseSensitive_def sample_tree_def str_def
        version_denotes_def INT32_MAX_def empty_object_def warp_ok_def)
  then show ?thesis using sample_update_accepts by (auto simp: update_denotes_def)
qed

lemma sample_policy: "policy_ok sample_host sample_service"
proof -
  have "hostname_valid sample_host = Some True" by code_simp
  then have "host_name sample_host" using hostname_valid_exact [of sample_host] by simp
  then show ?thesis by (simp add: policy_ok_def sample_service_def str_def CF_LOCAL_SERVICE_MAX_def)
qed

section \<open>Properties\<close>

text \<open>
  C22. An update is applied as a whole or not at all. On every message the handler returns; it
  reports success exactly when the local policy is valid and the message is a configuration with that one
  hostname, that one service and the 404 fallback; a failure keeps the previous
  configuration, and a success publishes the new one, or keeps an equal or newer one.
\<close>

theorem config_apply_atomic:
  assumes "parser_strings parser" "parser_numbers parser" "config_sized st" "\<not> bytes_bad update"
  shows "\<exists>rc st' why heap'. cf_config_apply_ex parser (Some st) update (Some host) (Some serv) reason heap = Some (rc, Some st', why, heap')
    \<and> (rc = CF_OK \<longleftrightarrow> policy_ok host serv \<and> (\<exists>v. update_denotes parser (bytes_list update) host serv v))
    \<and> (rc \<noteq> CF_OK \<longrightarrow> st' = st)
    \<and> (rc = CF_OK \<longrightarrow> (\<exists>v. update_denotes parser (bytes_list update) host serv v \<and> publishes st host serv v st'))"
proof -
  obtain rc s why h' where "cf_config_apply_ex parser (Some st) update (Some host) (Some serv) reason heap = Some (rc, Some s, why, h')"
      "applies parser st update host serv rc s"
    using config_apply_yields [OF assms(1-3), of update host serv reason heap] by (auto simp: yields_def)
  then show ?thesis using assms(4) by (cases "rc = CF_OK") (auto simp: applies_def)
qed

definition sample_config :: cf_remote_config where
  "sample_config = \<lparr>cfg_valid = False, cfg_version = - 1, cfg_hostname = replicate 254 0, cfg_service = replicate 64 0\<rparr>"

lemma sample_config_sized: "config_sized sample_config"
  by (simp add: sample_config_def config_sized_def CF_HOSTNAME_MAX_def CF_LOCAL_SERVICE_MAX_def)

theorem config_apply_atomic_witness:
  "\<exists>st' why heap'. cf_config_apply_ex update_parser (Some sample_config) (Bytes sample_update) (Some sample_host) (Some sample_service)
      (Some []) \<lparr>json_live_bytes = 0, json_allocation_failed = False\<rparr> = Some (CF_OK, Some st', why, heap')
    \<and> cfg_valid st' \<and> holds_string (cfg_hostname st') sample_host"
  using config_apply_atomic [OF update_parser_values sample_config_sized, of "Bytes sample_update" sample_host sample_service "Some []"
      "\<lparr>json_live_bytes = 0, json_allocation_failed = False\<rparr>"] sample_denotes sample_policy
  by (fastforce simp: publishes_def sample_config_def)

text \<open>
  Versions never go back: whatever messages arrive after the initialisation and whatever the
  policy is at that time, the configuration stays well formed (a version of 0 to 2147483647 with a
  valid hostname and service, or none at all), once valid it stays valid, its version never
  decreases, and it changes only together with its version.
\<close>

theorem config_versions_advance:
  assumes "parser_strings parser" "parser_numbers parser" "cf_config_init (Some c) = Some st"
  shows "config_inv (fold (config_step parser heap) (ms @ ns) st)
    \<and> config_le (fold (config_step parser heap) ms st) (fold (config_step parser heap) (ms @ ns) st)"
  using config_run_inv [OF assms(1,2) config_init_inv [OF assms(3)], of heap "ms @ ns"]
    config_run_inv [OF assms(1,2), of "fold (config_step parser heap) ms st" heap ns]
    config_run_inv [OF assms(1,2) config_init_inv [OF assms(3)], of heap ms]
  by simp

theorem config_versions_advance_witness:
  "\<exists>st. cf_config_init (Some sample_config) = Some st
     \<and> config_le (fold (config_step update_parser \<lparr>json_live_bytes = 0, json_allocation_failed = False\<rparr>) [] st)
         (fold (config_step update_parser \<lparr>json_live_bytes = 0, json_allocation_failed = False\<rparr>)
            ([] @ [(Bytes sample_update, sample_host, sample_service), (Bytes [], sample_host, sample_service)]) st)"
proof -
  obtain st where st: "cf_config_init (Some sample_config) = Some st" by (simp add: cf_config_init_def)
  show ?thesis using st config_versions_advance [OF update_parser_values st] by blast
qed

lemma config_response_eq:
  assumes "cap \<le> length out" "0 < cap"
  shows "cf_config_response (Some st) result (Some out) cap (Some w) =
      (let t = response_text (if cfg_valid st then cfg_version st else - 1) (result = CF_OK) in
       if length t < cap then Some (CF_OK, Some (splice out 0 (t @ [0])), Some (length t))
       else Some (CF_ERR_LIMIT, Some (splice out 0 (0 # tl (take (cap - 1) t @ [0]))), Some 0))"
proof -
  define v where "v = (if cfg_valid st then cfg_version st else - 1)"
  let ?t = "response_text v (result = CF_OK)"
  have st: "store_n out 0 (take (cap - 1) ?t @ [0]) = Some (splice out 0 (take (cap - 1) ?t @ [0]))"
    using assms by (intro store_n_Some) auto
  have z: "store (splice out 0 (x # xs)) 0 0 = Some (splice out 0 (0 # xs))" if "length xs < length out" for x :: u8 and xs
    using that by (simp add: store_def splice_def)
  have ne: "take (cap - 1) ?t @ [0] = hd (take (cap - 1) ?t @ [0]) # tl (take (cap - 1) ?t @ [0])" by simp
  have "store (splice out 0 (take (cap - 1) ?t @ [0])) 0 0 = Some (splice out 0 (0 # tl (take (cap - 1) ?t @ [0])))"
    by (subst ne, rule z) (use assms in \<open>auto simp: min_def\<close>)
  then have "cf_config_response (Some st) result (Some out) cap (Some w) =
      (let t = ?t in
       if length t < cap then Some (CF_OK, Some (splice out 0 (t @ [0])), Some (length t))
       else Some (CF_ERR_LIMIT, Some (splice out 0 (0 # tl (take (cap - 1) t @ [0]))), Some 0))"
    using st assms(2) by (auto simp: cf_config_response_def Let_def not_less v_def)
  then show ?thesis unfolding v_def .
qed

lemma response_length:
  assumes "config_inv st"
  shows "length (response_text (if cfg_valid st then cfg_version st else - 1) ok) < 45"
proof -
  have "length (decimal (if cfg_valid st then cfg_version st else - 1)) \<le> 10"
    using assms by (intro decimal_length) (auto simp: config_inv_def INT32_MAX_def)
  then show ?thesis unfolding response_text_def by (simp add: str_def del: if_split)
qed

text \<open>
  The answer to the edge is exactly the JSON text with the version in force, or minus one, and
  the verdict. It is written with its NUL whenever the buffer is larger than the text, otherwise
  the call fails with an empty string; 45 bytes are enough for every valid configuration.
\<close>

theorem config_response_exact:
  assumes "cap \<le> length out" "0 < cap"
  shows "cf_config_response (Some st) result (Some out) cap (Some w) =
      (let t = response_text (if cfg_valid st then cfg_version st else - 1) (result = CF_OK) in
       if length t < cap then Some (CF_OK, Some (splice out 0 (t @ [0])), Some (length t))
       else Some (CF_ERR_LIMIT, Some (splice out 0 (0 # tl (take (cap - 1) t @ [0]))), Some 0))
    \<and> (config_inv st \<longrightarrow> length (response_text (if cfg_valid st then cfg_version st else - 1) (result = CF_OK)) < 45)"
  using config_response_eq [OF assms] response_length by blast

theorem config_response_exact_witness:
  "cf_config_response (Some sample_config) CF_OK (Some (replicate 64 7)) 64 (Some 5) =
     Some (CF_OK, Some (splice (replicate 64 7) 0 (response_text (- 1) True @ [0])), Some (length (response_text (- 1) True)))"
proof -
  have c: "config_inv sample_config" using sample_config_sized by (simp add: config_inv_def sample_config_def)
  show ?thesis using config_response_exact [of 64 "replicate 64 7" sample_config CF_OK 5] c
    by (simp add: sample_config_def Let_def del: replicate.simps)
qed

text \<open>
  A local hostname is accepted exactly when it has at most 253 characters and every label between its dots has 1 to 63
  lower-case letters, digits or inner hyphens; the check never reads outside the string.
\<close>

theorem config_hostname_exact: "hostname_valid name = Some (host_name name)"
  by (rule hostname_valid_exact)

end
