(* ===== verification/CF_H2.thy ===== *)
theory CF_H2
  imports CF_Headers
begin

text \<open>
  The HTTP/2 engine of \<^verbatim>\<open>src/transport/cf_h2.c\<close>: the accounting allocator under nghttp2, the table of
  six stream slots, the callbacks that nghttp2 makes, and the operations of the owner. nghttp2 is
  third-party code: its session is an abstract value, its functions are a record of
  function arguments, and what it does with an input is the sequence of callbacks it makes.
  The application's callbacks are arguments too; they may call the engine, so they act on the
  application's state together with the engine's.
\<close>

section \<open>State\<close>

definition CF_H2_APPLICATION_MAX :: nat where "CF_H2_APPLICATION_MAX = 4"
definition CF_H2_HEADER_MAX :: nat where "CF_H2_HEADER_MAX = 48"
definition CF_H2_HEADER_BYTES :: nat where "CF_H2_HEADER_BYTES = 8192"
definition CF_H2_CHUNK :: nat where "CF_H2_CHUNK = 2048"
definition CF_H2_NGHEAP_MAX :: nat where "CF_H2_NGHEAP_MAX = 65536"

definition NGHTTP2_PROTOCOL_ERROR :: u32 where "NGHTTP2_PROTOCOL_ERROR = 1"
definition NGHTTP2_REFUSED_STREAM :: u32 where "NGHTTP2_REFUSED_STREAM = 7"
definition NGHTTP2_CANCEL :: u32 where "NGHTTP2_CANCEL = 8"
definition NGHTTP2_ENHANCE_YOUR_CALM :: u32 where "NGHTTP2_ENHANCE_YOUR_CALM = 11"
definition NGHTTP2_ERR_NOMEM :: int where "NGHTTP2_ERR_NOMEM = - 901"
definition NGHTTP2_ERR_CALLBACK_FAILURE :: int where "NGHTTP2_ERR_CALLBACK_FAILURE = - 902"
definition NGHTTP2_ERR_DEFERRED :: int where "NGHTTP2_ERR_DEFERRED = - 508"
definition NGHTTP2_ERR_TEMPORAL_CALLBACK_FAILURE :: int where "NGHTTP2_ERR_TEMPORAL_CALLBACK_FAILURE = - 521"

datatype cf_h2_kind = CF_H2_HTTP | CF_H2_CONTROL | CF_H2_CONFIG

record h2_stream =
  st_id :: int
  st_kind :: cf_h2_kind
  st_headers_done :: bool
  st_response :: bool
  st_reset :: bool
  st_deferred :: bool
  st_progress_ms :: u64

definition zero_stream :: h2_stream where
  "zero_stream = \<lparr>st_id = 0, st_kind = CF_H2_HTTP, st_headers_done = False, st_response = False, st_reset = False,
     st_deferred = False, st_progress_ms = 0\<rparr>"

text \<open>The statistics, less \<open>engine_bytes\<close>, the constant size of the structure.\<close>

record cf_h2_stats =
  ngheap_current :: nat
  ngheap_peak :: nat
  ngheap_limit :: nat
  active_streams :: u32
  rejected_streams :: u32
  last_error :: int
  goaway_error :: u32
  peer_goaway_error :: u32
  peer_goaway_last_stream :: int
  local_goaway_reason :: mem
  local_goaway :: bool
  peer_settings :: bool
  goaway :: bool

text \<open>
  \<open>h2_headers\<close> is the used part of the header array, its entries spans of \<open>h2_header_bytes\<close>.
\<close>

record 'n cf_h2 =
  h2_session :: 'n
  h2_stats :: cf_h2_stats
  h2_app_limit :: nat
  h2_now_ms :: u64
  h2_streams :: "h2_stream list"
  h2_header_bytes :: mem
  h2_headers :: "header_span list"
  h2_header_used :: nat
  h2_header_stream :: int
  h2_serialized :: mem
  h2_pending :: "u8 list"
  h2_error :: cf_result

text \<open>The functions of nghttp2 that the engine calls; the integer is their return code. \<open>ng_read_reply\<close> is
  the session after the data source returned to it.\<close>

record 'n nghttp2 =
  ng_submit_rst_stream :: "'n \<Rightarrow> int \<Rightarrow> u32 \<Rightarrow> int \<times> 'n"
  ng_session_consume :: "'n \<Rightarrow> int \<Rightarrow> nat \<Rightarrow> int \<times> 'n"
  ng_session_consume_connection :: "'n \<Rightarrow> nat \<Rightarrow> int \<times> 'n"
  ng_submit_response2 :: "'n \<Rightarrow> int \<Rightarrow> (u8 list \<times> u8 list) list \<Rightarrow> int \<times> 'n"
  ng_session_resume_data :: "'n \<Rightarrow> int \<Rightarrow> int \<times> 'n"
  ng_submit_goaway :: "'n \<Rightarrow> int \<times> 'n"
  ng_read_reply :: "'n \<Rightarrow> int \<Rightarrow> u8 list \<Rightarrow> bool \<Rightarrow> 'n"

text \<open>A request as the application sees it: header names and values as bytes.\<close>

record cf_h2_request =
  rq_stream :: int
  rq_kind :: cf_h2_kind
  rq_headers :: "(u8 list \<times> u8 list) list"
  rq_end_stream :: bool

text \<open>The application's callbacks, on its own state and the engine.\<close>

record ('c, 'n) cf_h2_callbacks =
  cb_request :: "'c \<times> 'n cf_h2 \<Rightarrow> cf_h2_request \<Rightarrow> (cf_result \<times> 'c \<times> 'n cf_h2) option"
  cb_data :: "'c \<times> 'n cf_h2 \<Rightarrow> int \<Rightarrow> cf_bytes \<Rightarrow> bool \<Rightarrow> (cf_result \<times> 'c \<times> 'n cf_h2) option"
  cb_read_response :: "'c \<times> 'n cf_h2 \<Rightarrow> int \<Rightarrow> nat \<Rightarrow> (cf_result \<times> u8 list \<times> bool \<times> 'c \<times> 'n cf_h2) option"
  cb_closed :: "'c \<times> 'n cf_h2 \<Rightarrow> int \<Rightarrow> u32 \<Rightarrow> ('c \<times> 'n cf_h2) option"

section \<open>The accounting allocator\<close>

text \<open>
  A block has the total in its header and a payload. \<open>header\<close> is the size of the header, \<open>got\<close>
  the payload that \<open>malloc\<close> returns, \<open>None\<close> for NULL.
\<close>

type_synonym h2_block = "nat \<times> mem"

definition h2_allocate :: "nat \<Rightarrow> mem option \<Rightarrow> nat \<Rightarrow> cf_h2_stats \<Rightarrow> h2_block option \<times> cf_h2_stats" where
  "h2_allocate header got n s =
     (if n > size_sub (ngheap_limit s) header then (None, s)
      else let tot = size_wrap (n + header) in
      if tot > size_sub (ngheap_limit s) (ngheap_current s) then (None, s)
      else (case got of
          None \<Rightarrow> (None, s)
        | Some payload \<Rightarrow>
            let s = s\<lparr>ngheap_current := ngheap_current s + tot\<rparr> in
            (Some (tot, payload), s\<lparr>ngheap_peak := (if ngheap_peak s < ngheap_current s then ngheap_current s else ngheap_peak s)\<rparr>)))"

text \<open>The block is erased and released; the header and the payload together have \<open>tot\<close> bytes.\<close>

definition h2_deallocate :: "h2_block option \<Rightarrow> cf_h2_stats \<Rightarrow> cf_h2_stats" where
  "h2_deallocate p s = (case p of None \<Rightarrow> s | Some (tot, _) \<Rightarrow> s\<lparr>ngheap_current := size_sub (ngheap_current s) tot\<rparr>)"

text \<open>The result is the block that is live afterwards, if any, and whether a new pointer was returned.\<close>

definition h2_resize :: "nat \<Rightarrow> mem option \<Rightarrow> h2_block option \<Rightarrow> nat \<Rightarrow> cf_h2_stats \<Rightarrow> h2_block option \<times> h2_block option \<times> cf_h2_stats" where
  "h2_resize header got p n s = (case p of
     None \<Rightarrow> (let (b, s) = h2_allocate header got n s in (b, b, s))
   | Some (tot, payload) \<Rightarrow>
       if n = 0 then (None, None, h2_deallocate p s)
       else
         let old = size_sub tot header; (b, s) = h2_allocate header got n s in
         (case b of
            None \<Rightarrow> (None, p, s)
          | Some (tot', fresh) \<Rightarrow>
              let k = (if old < n then old else n);
                  b = Some (tot', take k payload @ drop k fresh) in
              (b, b, h2_deallocate p s)))"

definition h2_zero_allocate :: "nat \<Rightarrow> mem option \<Rightarrow> nat \<Rightarrow> nat \<Rightarrow> cf_h2_stats \<Rightarrow> h2_block option \<times> cf_h2_stats" where
  "h2_zero_allocate header got n sz s =
     (if n \<noteq> 0 \<and> sz > SIZE_MAX div n then (None, s)
      else let (b, s) = h2_allocate header got (size_wrap (n * sz)) s in
        (map_option (\<lambda>(tot, payload). (tot, replicate (length payload) 0)) b, s))"

section \<open>Streams\<close>

text \<open>The index of the first slot with this id.\<close>

fun find_index :: "(h2_stream \<Rightarrow> bool) \<Rightarrow> nat \<Rightarrow> h2_stream list \<Rightarrow> nat option" where
  "find_index P i [] = None"
| "find_index P i (s # ss) = (if P s then Some i else find_index P (i + 1) ss)"

definition find_stream :: "'n cf_h2 \<Rightarrow> int \<Rightarrow> nat option" where
  "find_stream h sid = find_index (\<lambda>s. st_id s = sid) 0 (h2_streams h)"

definition stream_update :: "nat \<Rightarrow> (h2_stream \<Rightarrow> h2_stream) \<Rightarrow> 'n cf_h2 \<Rightarrow> 'n cf_h2" where
  "stream_update i f h = h\<lparr>h2_streams := (h2_streams h)[i := f (h2_streams h ! i)]\<rparr>"

definition cf_h2_header :: "cf_h2_request \<Rightarrow> u8 list \<Rightarrow> cf_bytes" where
  "cf_h2_header r name = (case find (\<lambda>(n, v). n = name) (rq_headers r) of
     Some (n, v) \<Rightarrow> Bytes v | None \<Rightarrow> Null_Bytes 0)"

text \<open>\<open>cf_h2_reset\<close> behind its check for NULL.\<close>

definition reset_stream :: "'n nghttp2 \<Rightarrow> 'n cf_h2 \<Rightarrow> int \<Rightarrow> u32 \<Rightarrow> cf_result \<times> 'n cf_h2" where
  "reset_stream ng h sid error = (let s = find_stream h sid in
     if (case s of Some i \<Rightarrow> st_reset (h2_streams h ! i) | None \<Rightarrow> False) then (CF_OK, h)
     else
       let (rc, n) = ng_submit_rst_stream ng (h2_session h) sid error; h = h\<lparr>h2_session := n\<rparr> in
       if rc \<noteq> 0 then (CF_ERR_MEMORY, h\<lparr>h2_error := CF_ERR_MEMORY\<rparr>)
       else
         let h = (case s of Some i \<Rightarrow> stream_update i (\<lambda>s. s\<lparr>st_reset := True\<rparr>) h | None \<Rightarrow> h) in
         (CF_OK, h\<lparr>h2_stats := (h2_stats h)\<lparr>rejected_streams := rejected_streams (h2_stats h) + 1\<rparr>\<rparr>))"

definition cf_h2_reset :: "'n nghttp2 \<Rightarrow> 'n cf_h2 option \<Rightarrow> int \<Rightarrow> u32 \<Rightarrow> cf_result \<times> 'n cf_h2 option" where
  "cf_h2_reset ng hp sid error = (case hp of None \<Rightarrow> (CF_ERR_ARGUMENT, None)
     | Some h \<Rightarrow> let (rc, h) = reset_stream ng h sid error in (rc, Some h))"

text \<open>\<open>cf_h2_reset(...) == CF_OK ? 0 : NGHTTP2_ERR_CALLBACK_FAILURE\<close>.\<close>

definition reset_code :: "'n nghttp2 \<Rightarrow> 'n cf_h2 \<Rightarrow> int \<Rightarrow> u32 \<Rightarrow> int \<times> 'n cf_h2" where
  "reset_code ng h sid error = (let (rc, h) = reset_stream ng h sid error in
     (if rc = CF_OK then 0 else NGHTTP2_ERR_CALLBACK_FAILURE, h))"

section \<open>The callbacks of nghttp2\<close>

definition begin_headers :: "'n nghttp2 \<Rightarrow> int \<Rightarrow> bool \<Rightarrow> 'n cf_h2 \<Rightarrow> int \<times> 'n cf_h2" where
  "begin_headers ng sid is_request h = (let h = h\<lparr>h2_header_stream := 0\<rparr> in
     if \<not> is_request then reset_code ng h sid NGHTTP2_PROTOCOL_ERROR
     else (case find_index (\<lambda>s. st_id s = 0) 0 (h2_streams h) of
         None \<Rightarrow> reset_code ng h sid NGHTTP2_REFUSED_STREAM
       | Some i \<Rightarrow>
           let h = stream_update i (\<lambda>_. zero_stream\<lparr>st_id := sid, st_progress_ms := h2_now_ms h\<rparr>) h in
           (0, h\<lparr>h2_stats := (h2_stats h)\<lparr>active_streams := active_streams (h2_stats h) + 1\<rparr>,
                 h2_header_stream := sid, h2_headers := [], h2_header_used := 0\<rparr>)))"

definition header_text :: "'n cf_h2 \<Rightarrow> nat \<times> nat \<Rightarrow> u8 list option" where
  "header_text h sp = load_n (h2_header_bytes h) (fst sp) (snd sp)"

text \<open>Names whose duplicates are refused.\<close>

definition routing_name :: "u8 list \<Rightarrow> bool" where
  "routing_name name \<longleftrightarrow> (name \<noteq> [] \<and> hd name = ch CHR '':'') \<or> (length name \<ge> 15 \<and> take 15 name = str ''cf-cloudflared-'')"

fun duplicate_loop :: "'n cf_h2 \<Rightarrow> u8 list \<Rightarrow> header_span list \<Rightarrow> bool option" where
  "duplicate_loop h name [] = Some False"
| "duplicate_loop h name (sp # sps) = do {
     n \<leftarrow> header_text h (sname sp);
     if n = name then Some True else duplicate_loop h name sps
   }"

definition header_reject :: "'n nghttp2 \<Rightarrow> int \<Rightarrow> 'n cf_h2 \<Rightarrow> int \<times> 'n cf_h2" where
  "header_reject ng sid h = reset_code ng (h\<lparr>h2_header_stream := 0\<rparr>) sid NGHTTP2_ENHANCE_YOUR_CALM"

definition on_header :: "'n nghttp2 \<Rightarrow> int \<Rightarrow> u8 list \<Rightarrow> u8 list \<Rightarrow> 'n cf_h2 \<Rightarrow> (int \<times> 'n cf_h2) option" where
  "on_header ng sid name value h =
     (if h2_header_stream h \<noteq> sid then Some (0, h)
      else if length (h2_headers h) = CF_H2_HEADER_MAX \<or> length name > size_sub CF_H2_HEADER_BYTES (h2_header_used h)
        \<or> length value > size_sub (size_sub CF_H2_HEADER_BYTES (h2_header_used h)) (length name)
      then Some (header_reject ng sid h)
      else do {
        dup \<leftarrow> (if routing_name name then duplicate_loop h name (h2_headers h) else Some False);
        if dup then Some (header_reject ng sid h)
        else do {
          let used = h2_header_used h;
          m \<leftarrow> store_n (h2_header_bytes h) used name;
          m \<leftarrow> store_n m (used + length name) value;
          Some (0, h\<lparr>h2_headers := h2_headers h @ [\<lparr>sname = (used, length name), svalue = (used + length name, length value)\<rparr>],
                     h2_header_bytes := m, h2_header_used := used + length name + length value\<rparr>)
        }
      })"

datatype h2_frame_type = F_HEADERS | F_DATA | F_SETTINGS | F_GOAWAY | F_OTHER

record h2_frame =
  fh_type :: h2_frame_type
  fh_stream :: int
  fh_ack :: bool
  fh_end_stream :: bool
  fh_goaway_error :: u32
  fh_goaway_last :: int

text \<open>The header array of the request, read from the header bytes.\<close>

fun header_list :: "'n cf_h2 \<Rightarrow> header_span list \<Rightarrow> (u8 list \<times> u8 list) list option" where
  "header_list h [] = Some []"
| "header_list h (sp # sps) = do {
     n \<leftarrow> header_text h (sname sp);
     v \<leftarrow> header_text h (svalue sp);
     rest \<leftarrow> header_list h sps;
     Some ((n, v) # rest)
   }"

text \<open>The kind of a request, or its refusal.\<close>

definition request_kind :: "cf_h2_request \<Rightarrow> cf_h2_kind option" where
  "request_kind r = (let upgrade = cf_h2_header r (str ''cf-cloudflared-proxy-connection-upgrade'') in
     if bytes_list upgrade = str ''control-stream'' then Some CF_H2_CONTROL
     else if bytes_list upgrade = str ''update-configuration'' then Some CF_H2_CONFIG
     else if bytes_len upgrade \<noteq> 0 then None
     else Some CF_H2_HTTP)"

definition admitted :: "cf_h2_kind \<Rightarrow> h2_stream \<Rightarrow> bool" where
  "admitted k s \<longleftrightarrow> st_id s \<noteq> 0 \<and> st_headers_done s \<and> \<not> st_reset s \<and> st_kind s = k"

definition kind_limit :: "'n cf_h2 \<Rightarrow> cf_h2_kind \<Rightarrow> nat" where
  "kind_limit h k = (if k = CF_H2_HTTP then h2_app_limit h else 1)"

text \<open>The statistics that a frame changes.\<close>

definition frame_stats :: "h2_frame \<Rightarrow> cf_h2_stats \<Rightarrow> cf_h2_stats" where
  "frame_stats f s =
     (let s = (if fh_type f = F_SETTINGS \<and> \<not> fh_ack f then s\<lparr>peer_settings := True\<rparr> else s) in
      if fh_type f = F_GOAWAY then s\<lparr>goaway := True, goaway_error := fh_goaway_error f,
        peer_goaway_error := fh_goaway_error f, peer_goaway_last_stream := fh_goaway_last f\<rparr>
      else s)"

text \<open>
  A complete header block on slot \<open>i\<close>: \<open>Inl\<close> is a return, \<open>Inr\<close> continues behind the block.
\<close>

definition request_headers :: "('c, 'n) cf_h2_callbacks \<Rightarrow> 'n nghttp2 \<Rightarrow> h2_frame \<Rightarrow> nat \<Rightarrow> 'c \<times> 'n cf_h2
    \<Rightarrow> ((int \<times> 'c \<times> 'n cf_h2) + ('c \<times> 'n cf_h2)) option" where
  "request_headers cbs ng f i st = (case st of (c, h) \<Rightarrow> do {
     hs \<leftarrow> header_list h (h2_headers h);
     let sid = st_id (h2_streams h ! i);
     let request = \<lparr>rq_stream = sid, rq_kind = CF_H2_HTTP, rq_headers = hs, rq_end_stream = fh_end_stream f\<rparr>;
     (case request_kind request of
        None \<Rightarrow> (let (code, h) = reset_code ng h sid NGHTTP2_REFUSED_STREAM in Some (Inl (code, c, h)))
      | Some k \<Rightarrow>
          let h = stream_update i (\<lambda>s. s\<lparr>st_kind := k\<rparr>) h;
              count = length (filter (admitted k) (h2_streams h)) in
          if count \<ge> kind_limit h k
          then (let (code, h) = reset_code ng h sid NGHTTP2_REFUSED_STREAM in Some (Inl (code, c, h)))
          else do {
            let h = stream_update i (\<lambda>s. s\<lparr>st_headers_done := True\<rparr>) h;
            (rc, c, h) \<leftarrow> cb_request cbs (c, h) (request\<lparr>rq_kind := k\<rparr>);
            if rc \<noteq> CF_OK
            then (let (code, h) = reset_code ng h sid NGHTTP2_REFUSED_STREAM in Some (Inl (code, c, h)))
            else do {
              m \<leftarrow> store_n (h2_header_bytes h) 0 (replicate (h2_header_used h) 0);
              Some (Inr (c, h\<lparr>h2_header_bytes := m, h2_header_stream := 0\<rparr>))
            }
          })
   })"

definition received_end :: "('c, 'n) cf_h2_callbacks \<Rightarrow> 'n nghttp2 \<Rightarrow> h2_frame \<Rightarrow> nat \<Rightarrow> 'c \<times> 'n cf_h2
    \<Rightarrow> (int \<times> 'c \<times> 'n cf_h2) option" where
  "received_end cbs ng f i st = (case st of (c, h) \<Rightarrow>
     if (fh_type f = F_HEADERS \<or> fh_type f = F_DATA) \<and> fh_end_stream f then do {
       let sid = st_id (h2_streams h ! i);
       (rc, c, h) \<leftarrow> cb_data cbs (c, h) sid (Null_Bytes 0) True;
       if rc \<noteq> CF_OK then (let (code, h) = reset_code ng h sid NGHTTP2_CANCEL in Some (code, c, h))
       else Some (0, c, h)
     }
     else Some (0, c, h))"

definition received_frame :: "('c, 'n) cf_h2_callbacks \<Rightarrow> 'n nghttp2 \<Rightarrow> h2_frame \<Rightarrow> 'c \<times> 'n cf_h2
    \<Rightarrow> (int \<times> 'c \<times> 'n cf_h2) option" where
  "received_frame cbs ng f st = (case st of (c, h) \<Rightarrow>
     let h = h\<lparr>h2_stats := frame_stats f (h2_stats h)\<rparr> in
     (case find_stream h (fh_stream f) of
        None \<Rightarrow> Some (0, c, h)
      | Some i \<Rightarrow>
          if st_reset (h2_streams h ! i) then Some (0, c, h)
          else if fh_type f = F_HEADERS \<and> h2_header_stream h = fh_stream f then do {
            r \<leftarrow> request_headers cbs ng f i (c, h);
            (case r of Inl out \<Rightarrow> Some out | Inr st \<Rightarrow> received_end cbs ng f i st)
          }
          else received_end cbs ng f i (c, h)))"

text \<open>The loop over the chunks of a DATA frame; it ends at the first chunk the application refuses.\<close>

function data_loop :: "('c, 'n) cf_h2_callbacks \<Rightarrow> 'n nghttp2 \<Rightarrow> int \<Rightarrow> u8 list \<Rightarrow> 'c \<times> 'n cf_h2
    \<Rightarrow> (bool \<times> 'c \<times> 'n cf_h2) option" where
  "data_loop cbs ng sid data st =
     (if data = [] then Some (True, st)
      else do {
        (rc, c, h) \<leftarrow> cb_data cbs st sid (Bytes (take CF_H2_CHUNK data)) False;
        if rc \<noteq> CF_OK then (let (rc, h) = reset_stream ng h sid NGHTTP2_CANCEL in Some (rc = CF_OK, c, h))
        else data_loop cbs ng sid (drop CF_H2_CHUNK data) (c, h)
      })"
  by pat_completeness auto
termination
  by (relation "measure (\<lambda>(cbs, ng, sid, data, st). length data)") (auto simp: CF_H2_CHUNK_def)

declare data_loop.simps [simp del]

definition received_data :: "('c, 'n) cf_h2_callbacks \<Rightarrow> 'n nghttp2 \<Rightarrow> int \<Rightarrow> u8 list \<Rightarrow> 'c \<times> 'n cf_h2
    \<Rightarrow> (int \<times> 'c \<times> 'n cf_h2) option" where
  "received_data cbs ng sid data st = (case st of (c, h) \<Rightarrow>
     (case find_stream h sid of
        Some i \<Rightarrow>
          if st_reset (h2_streams h ! i)
          then (let (rc, n) = ng_session_consume_connection ng (h2_session h) (length data) in
            Some (if rc \<noteq> 0 then NGHTTP2_ERR_CALLBACK_FAILURE else 0, c, h\<lparr>h2_session := n\<rparr>))
          else do {
            (ok, c, h) \<leftarrow> data_loop cbs ng sid data (c, h);
            if \<not> ok then Some (NGHTTP2_ERR_CALLBACK_FAILURE, c, h)
            else
              let h = stream_update i (\<lambda>s. s\<lparr>st_progress_ms := h2_now_ms h\<rparr>) h;
                  (rc, n) = ng_session_consume ng (h2_session h) sid (length data) in
              Some (if rc \<noteq> 0 then NGHTTP2_ERR_CALLBACK_FAILURE else 0, c, h\<lparr>h2_session := n\<rparr>)
          }
      | None \<Rightarrow> (let (rc, n) = ng_session_consume_connection ng (h2_session h) (length data) in
            Some (if rc \<noteq> 0 then NGHTTP2_ERR_CALLBACK_FAILURE else 0, c, h\<lparr>h2_session := n\<rparr>))))"

definition closed_stream :: "('c, 'n) cf_h2_callbacks \<Rightarrow> int \<Rightarrow> u32 \<Rightarrow> 'c \<times> 'n cf_h2 \<Rightarrow> (int \<times> 'c \<times> 'n cf_h2) option" where
  "closed_stream cbs sid error st = (case st of (c, h) \<Rightarrow>
     (case find_stream h sid of
        None \<Rightarrow> Some (0, c, h)
      | Some i \<Rightarrow> do {
          (c, h) \<leftarrow> cb_closed cbs (c, h) sid error;
          let h = stream_update i (\<lambda>_. zero_stream) h;
          Some (0, c, h\<lparr>h2_stats := (h2_stats h)\<lparr>active_streams := active_streams (h2_stats h) - 1\<rparr>\<rparr>)
        }))"

text \<open>A GOAWAY frame that was sent, with its opaque data.\<close>

definition sent_goaway :: "u32 \<Rightarrow> u8 list \<Rightarrow> 'n cf_h2 \<Rightarrow> (int \<times> 'n cf_h2) option" where
  "sent_goaway error opaque h = do {
     let s = (h2_stats h)\<lparr>goaway := True, local_goaway := True, goaway_error := error\<rparr>;
     let n = (if length opaque \<ge> 64 then 63 else length opaque);
     m \<leftarrow> store_n (local_goaway_reason s) 0 (take n opaque);
     m \<leftarrow> store m n 0;
     Some (0, h\<lparr>h2_stats := s\<lparr>local_goaway_reason := m\<rparr>\<rparr>)
   }"

definition protocol_error :: "int \<Rightarrow> 'n cf_h2 \<Rightarrow> int \<times> 'n cf_h2" where
  "protocol_error code h = (0, h\<lparr>h2_stats := (h2_stats h)\<lparr>last_error := code\<rparr>\<rparr>)"

definition invalid_frame :: "h2_frame \<Rightarrow> int \<Rightarrow> 'n cf_h2 \<Rightarrow> int \<times> 'n cf_h2" where
  "invalid_frame f code h =
     (let s = h2_stats h;
          s = (if fh_type f = F_GOAWAY then s\<lparr>peer_goaway_error := fh_goaway_error f, peer_goaway_last_stream := fh_goaway_last f\<rparr> else s) in
      (0, h\<lparr>h2_stats := s\<lparr>last_error := code\<rparr>\<rparr>))"

text \<open>The body source of a response: the return value, the bytes for the buffer and the EOF flag.\<close>

definition read_response :: "('c, 'n) cf_h2_callbacks \<Rightarrow> int \<Rightarrow> nat \<Rightarrow> 'c \<times> 'n cf_h2
    \<Rightarrow> (int \<times> u8 list \<times> bool \<times> 'c \<times> 'n cf_h2) option" where
  "read_response cbs sid capacity st = (case st of (c, h) \<Rightarrow>
     (case find_stream h sid of
        None \<Rightarrow> Some (NGHTTP2_ERR_TEMPORAL_CALLBACK_FAILURE, [], False, c, h)
      | Some i \<Rightarrow>
          if st_reset (h2_streams h ! i) then Some (NGHTTP2_ERR_TEMPORAL_CALLBACK_FAILURE, [], False, c, h)
          else do {
            let h = stream_update i (\<lambda>s. s\<lparr>st_deferred := False\<rparr>) h;
            let cap = (if capacity > CF_H2_CHUNK then CF_H2_CHUNK else capacity);
            (rc, bytes, eof, c, h) \<leftarrow> cb_read_response cbs (c, h) sid cap;
            if rc = CF_ERR_STATE \<or> (rc = CF_OK \<and> bytes = [] \<and> \<not> eof)
            then Some (NGHTTP2_ERR_DEFERRED, [], False, c, stream_update i (\<lambda>s. s\<lparr>st_deferred := True\<rparr>) h)
            else if rc \<noteq> CF_OK \<or> length bytes > cap then Some (NGHTTP2_ERR_TEMPORAL_CALLBACK_FAILURE, [], False, c, h)
            else Some (int (length bytes), bytes, eof, c,
              if bytes \<noteq> [] \<or> eof then stream_update i (\<lambda>s. s\<lparr>st_progress_ms := h2_now_ms h\<rparr>) h else h)
          }))"

section \<open>The owner's operations\<close>

text \<open>
  A new engine. \<open>session\<close> is what nghttp2 gives: the session after the settings were submitted, or a
  failure of one of the set-up calls; \<open>room\<close> tells whether \<open>calloc\<close> succeeds.
\<close>

definition zero_stats :: "nat \<Rightarrow> cf_h2_stats" where
  "zero_stats limit = \<lparr>ngheap_current = 0, ngheap_peak = 0, ngheap_limit = limit, active_streams = 0, rejected_streams = 0,
     last_error = 0, goaway_error = 0, peer_goaway_error = 0, peer_goaway_last_stream = 0,
     local_goaway_reason = replicate 64 0, local_goaway = False, peer_settings = False, goaway = False\<rparr>"

definition h2_new :: "nat \<Rightarrow> nat \<Rightarrow> 'n \<Rightarrow> 'n cf_h2" where
  "h2_new apps limit session = \<lparr>h2_session = session, h2_stats = zero_stats limit, h2_app_limit = apps, h2_now_ms = 0,
     h2_streams = replicate (CF_H2_APPLICATION_MAX + 2) zero_stream, h2_header_bytes = replicate CF_H2_HEADER_BYTES 0,
     h2_headers = [], h2_header_used = 0, h2_header_stream = 0, h2_serialized = replicate CF_HEADER_WIRE_MAX 0,
     h2_pending = [], h2_error = CF_OK\<rparr>"

definition cf_h2_create :: "bool \<Rightarrow> bool \<Rightarrow> 'n option \<Rightarrow> nat \<Rightarrow> nat \<Rightarrow> cf_result \<times> 'n cf_h2 option" where
  "cf_h2_create callbacks_set room session apps limit =
     (if \<not> callbacks_set \<or> (apps \<noteq> 2 \<and> apps \<noteq> 4) \<or> limit < 8192 \<or> limit > CF_H2_NGHEAP_MAX then (CF_ERR_ARGUMENT, None)
      else if \<not> room then (CF_ERR_MEMORY, None)
      else (case session of None \<Rightarrow> (CF_ERR_MEMORY, None) | Some n \<Rightarrow> (CF_OK, Some (h2_new apps limit n))))"

text \<open>Every open stream is reported as closed; then the engine is erased and freed.\<close>

fun destroy_loop :: "('c, 'n) cf_h2_callbacks \<Rightarrow> nat \<Rightarrow> nat \<Rightarrow> 'c \<times> 'n cf_h2 \<Rightarrow> ('c \<times> 'n cf_h2) option" where
  "destroy_loop cbs i 0 st = Some st"
| "destroy_loop cbs i (Suc k) st = do {
     s \<leftarrow> load (h2_streams (snd st)) i;
     st \<leftarrow> (if st_id s \<noteq> 0 then cb_closed cbs st (st_id s) NGHTTP2_CANCEL else Some st);
     destroy_loop cbs (i + 1) k st
   }"

definition cf_h2_destroy :: "('c, 'n) cf_h2_callbacks \<Rightarrow> 'c \<Rightarrow> 'n cf_h2 option \<Rightarrow> 'c option" where
  "cf_h2_destroy cbs c hp = (case hp of None \<Rightarrow> Some c
     | Some h \<Rightarrow> map_option fst (destroy_loop cbs 0 (CF_H2_APPLICATION_MAX + 2) (c, h)))"

text \<open>What nghttp2 reports while it consumes an input or produces output.\<close>

datatype h2_event =
    Begin_Headers int bool
  | Header int "u8 list" "u8 list"
  | Frame_Received h2_frame
  | Data_Received int "u8 list"
  | Stream_Closed int u32
  | Goaway_Sent u32 "u8 list"
  | Protocol_Error int
  | Invalid_Frame h2_frame int
  | Read_Response int nat

fun h2_event_step :: "('c, 'n) cf_h2_callbacks \<Rightarrow> 'n nghttp2 \<Rightarrow> h2_event \<Rightarrow> 'c \<times> 'n cf_h2 \<Rightarrow> (int \<times> 'c \<times> 'n cf_h2) option" where
  "h2_event_step cbs ng (Begin_Headers sid req) (c, h) = (let (rc, h) = begin_headers ng sid req h in Some (rc, c, h))"
| "h2_event_step cbs ng (Header sid name value) (c, h) = do { (rc, h) \<leftarrow> on_header ng sid name value h; Some (rc, c, h) }"
| "h2_event_step cbs ng (Frame_Received f) (c, h) = received_frame cbs ng f (c, h)"
| "h2_event_step cbs ng (Data_Received sid data) (c, h) = received_data cbs ng sid data (c, h)"
| "h2_event_step cbs ng (Stream_Closed sid e) (c, h) = closed_stream cbs sid e (c, h)"
| "h2_event_step cbs ng (Goaway_Sent e opaque) (c, h) = do { (rc, h) \<leftarrow> sent_goaway e opaque h; Some (rc, c, h) }"
| "h2_event_step cbs ng (Protocol_Error code) (c, h) = (let (rc, h) = protocol_error code h in Some (rc, c, h))"
| "h2_event_step cbs ng (Invalid_Frame f code) (c, h) = (let (rc, h) = invalid_frame f code h in Some (rc, c, h))"
| "h2_event_step cbs ng (Read_Response sid capacity) (c, h) = do {
     (rc, bytes, eof, c, h) \<leftarrow> read_response cbs sid capacity (c, h);
     Some (0, c, h\<lparr>h2_session := ng_read_reply ng (h2_session h) rc bytes eof\<rparr>)
   }"

text \<open>nghttp2 makes its callbacks in order and gives up at the first one that fails; a data
  source has its own reply to the session.\<close>

fun h2_events :: "('c, 'n) cf_h2_callbacks \<Rightarrow> 'n nghttp2 \<Rightarrow> h2_event list \<Rightarrow> 'c \<times> 'n cf_h2 \<Rightarrow> ('c \<times> 'n cf_h2) option" where
  "h2_events cbs ng [] st = Some st"
| "h2_events cbs ng (e # es) st = do {
     (rc, st) \<leftarrow> h2_event_step cbs ng e st;
     if rc \<noteq> 0 then Some st else h2_events cbs ng es st
   }"

text \<open>
  \<open>recv\<close> is nghttp2's reaction to the input in its session: the callbacks it makes, its result (an
  error or the number of bytes it consumed) and its own change of the session.
\<close>

definition cf_h2_receive :: "('c, 'n) cf_h2_callbacks \<Rightarrow> 'n nghttp2 \<Rightarrow> ('n \<Rightarrow> u8 list \<Rightarrow> h2_event list \<times> (int + nat) \<times> ('n \<Rightarrow> 'n))
    \<Rightarrow> 'c \<Rightarrow> 'n cf_h2 option \<Rightarrow> cf_bytes \<Rightarrow> nat option \<Rightarrow> u64 \<Rightarrow> (cf_result \<times> 'c \<times> 'n cf_h2 option \<times> nat option) option" where
  "cf_h2_receive cbs ng recv c hp input consumed now =
     (if hp = None \<or> consumed = None \<or> bytes_bad input then Some (CF_ERR_ARGUMENT, c, hp, consumed)
      else do {
        h \<leftarrow> hp;
        let h = h\<lparr>h2_now_ms := now\<rparr>;
        if h2_error h \<noteq> CF_OK then Some (h2_error h, c, Some h, Some 0)
        else do {
          let (es, n, advance) = recv (h2_session h) (bytes_list input);
          (c, h) \<leftarrow> h2_events cbs ng es (c, h);
          let h = h\<lparr>h2_session := advance (h2_session h)\<rparr>;
          (case n of
             Inl e \<Rightarrow>
               let rc = (if e = NGHTTP2_ERR_NOMEM then CF_ERR_MEMORY else CF_ERR_FORMAT) in
               Some (rc, c, Some (h\<lparr>h2_stats := (h2_stats h)\<lparr>last_error := e\<rparr>, h2_error := rc\<rparr>), Some 0)
           | Inr n \<Rightarrow> Some (h2_error h, c, Some h, Some n))
        }
      })"

text \<open>
  \<open>send\<close> is nghttp2's reaction to a request for output: the callbacks it makes, and then, from its
  session, its result (an error or bytes) and its new session.
\<close>

definition cf_h2_output :: "('c, 'n) cf_h2_callbacks \<Rightarrow> 'n nghttp2 \<Rightarrow> ('n \<Rightarrow> h2_event list \<times> ('n \<Rightarrow> (int + u8 list) \<times> 'n))
    \<Rightarrow> 'c \<Rightarrow> 'n cf_h2 option \<Rightarrow> cf_bytes option \<Rightarrow> (cf_result \<times> 'c \<times> 'n cf_h2 option \<times> cf_bytes option) option" where
  "cf_h2_output cbs ng send c hp out =
     (if hp = None \<or> out = None then Some (CF_ERR_ARGUMENT, c, hp, out)
      else do {
        h \<leftarrow> hp;
        if h2_error h \<noteq> CF_OK then Some (h2_error h, c, hp, Some (Null_Bytes 0))
        else if h2_pending h \<noteq> [] then Some (CF_OK, c, hp, Some (Bytes (h2_pending h)))
        else do {
          let (es, produce) = send (h2_session h);
          (c, h) \<leftarrow> h2_events cbs ng es (c, h);
          let (r, n) = produce (h2_session h);
          let h = h\<lparr>h2_session := n\<rparr>;
          (case r of
             Inl e \<Rightarrow>
               let rc = (if e = NGHTTP2_ERR_NOMEM then CF_ERR_MEMORY else CF_ERR_STATE) in
               Some (rc, c, Some (h\<lparr>h2_stats := (h2_stats h)\<lparr>last_error := e\<rparr>, h2_error := rc\<rparr>), Some (Null_Bytes 0))
           | Inr bytes \<Rightarrow> Some (CF_OK, c, Some (h\<lparr>h2_pending := bytes\<rparr>), Some (Bytes bytes)))
        }
      })"

definition cf_h2_sent :: "'n cf_h2 option \<Rightarrow> nat \<Rightarrow> cf_result \<times> 'n cf_h2 option" where
  "cf_h2_sent hp n = (case hp of None \<Rightarrow> (CF_ERR_ARGUMENT, hp)
     | Some h \<Rightarrow> if n > length (h2_pending h) then (CF_ERR_ARGUMENT, hp)
         else (CF_OK, Some (h\<lparr>h2_pending := drop n (h2_pending h)\<rparr>)))"

definition status_text :: "nat \<Rightarrow> u8 list" where
  "status_text n = [48 + word_of_nat (n div 100), 48 + word_of_nat (n div 10 mod 10), 48 + word_of_nat (n mod 10)]"

definition meta_text :: "string \<Rightarrow> u8 list" where
  "meta_text src = [ch CHR ''{'', 34] @ str ''src'' @ [34, ch CHR '':'', 34] @ str src @ [34, ch CHR ''}'']"

text \<open>The loop that copies \<open>content-length\<close>; a second one is refused.\<close>

fun length_fields :: "cf_header list \<Rightarrow> (u8 list \<times> u8 list) list \<Rightarrow> (u8 list \<times> u8 list) list option" where
  "length_fields [] vals = Some vals"
| "length_fields (x # xs) vals =
     (if bytes_list (hname x) = str ''content-length'' \<or> bytes_list (hname x) = str ''Content-Length'' then
        if length vals = 4 then None
        else length_fields xs (vals @ [(str ''content-length'', bytes_list (hvalue x))])
      else length_fields xs vals)"

definition cf_h2_respond :: "'n nghttp2 \<Rightarrow> 'n cf_h2 option \<Rightarrow> int \<Rightarrow> nat \<Rightarrow> cf_headers \<Rightarrow> bool \<Rightarrow> (cf_result \<times> 'n cf_h2 option) option" where
  "cf_h2_respond ng hp sid status headers origin =
     (case hp of None \<Rightarrow> Some (CF_ERR_ARGUMENT, hp) | Some h \<Rightarrow>
      if (case headers of Null_Headers n \<Rightarrow> n \<noteq> 0 | _ \<Rightarrow> False) \<or> status < 200 \<or> status > 599 then Some (CF_ERR_ARGUMENT, hp)
      else (case find_stream h sid of
          None \<Rightarrow> Some (CF_ERR_STATE, hp)
        | Some i \<Rightarrow>
            let s = h2_streams h ! i in
            if \<not> st_headers_done s \<or> st_response s \<or> st_reset s then Some (CF_ERR_STATE, hp)
            else do {
              (rc, m, n) \<leftarrow> cf_headers_encode headers (Some (h2_serialized h)) CF_HEADER_WIRE_MAX (Some 0);
              m \<leftarrow> m;
              n \<leftarrow> n;
              let h = h\<lparr>h2_serialized := m\<rparr>;
              if rc \<noteq> CF_OK then Some (rc, Some h)
              else do {
                wire \<leftarrow> load_n m 0 n;
                let vals = [(str '':status'', status_text status), (str ''cf-cloudflared-response-headers'', wire),
                  (str ''cf-cloudflared-response-meta'', meta_text (if origin then ''origin'' else ''cloudflared''))];
                (case length_fields (headers_list headers) vals of
                   None \<Rightarrow> Some (CF_ERR_FORMAT, Some h)
                 | Some vals \<Rightarrow>
                     let (rc, ns) = ng_submit_response2 ng (h2_session h) sid vals; h = h\<lparr>h2_session := ns\<rparr> in
                     if rc \<noteq> 0 then Some (CF_ERR_MEMORY, Some h)
                     else Some (CF_OK, Some (stream_update i (\<lambda>s. s\<lparr>st_response := True\<rparr>) h)))
              }
            }))"

definition cf_h2_resume :: "'n nghttp2 \<Rightarrow> 'n cf_h2 option \<Rightarrow> int \<Rightarrow> cf_result \<times> 'n cf_h2 option" where
  "cf_h2_resume ng hp sid = (case hp of None \<Rightarrow> (CF_ERR_ARGUMENT, hp) | Some h \<Rightarrow>
     (case find_stream h sid of
        None \<Rightarrow> (CF_ERR_STATE, hp)
      | Some i \<Rightarrow>
          let s = h2_streams h ! i in
          if \<not> st_response s \<or> st_reset s then (CF_ERR_STATE, hp)
          else if \<not> st_deferred s then (CF_OK, hp)
          else
            let (rc, n) = ng_session_resume_data ng (h2_session h) sid; h = h\<lparr>h2_session := n\<rparr> in
            if rc \<noteq> 0 then (CF_ERR_STATE, Some h)
            else (CF_OK, Some (stream_update i (\<lambda>s. s\<lparr>st_deferred := False\<rparr>) h))))"

definition cf_h2_shutdown :: "'n nghttp2 \<Rightarrow> 'n cf_h2 option \<Rightarrow> cf_result \<times> 'n cf_h2 option" where
  "cf_h2_shutdown ng hp = (case hp of None \<Rightarrow> (CF_ERR_ARGUMENT, hp) | Some h \<Rightarrow>
     let (rc, n) = ng_submit_goaway ng (h2_session h) in
     (if rc \<noteq> 0 then CF_ERR_MEMORY else CF_OK, Some (h\<lparr>h2_stats := (h2_stats h)\<lparr>goaway := True\<rparr>, h2_session := n\<rparr>)))"

text \<open>The time-out of one slot; the control stream has none.\<close>

definition stalled :: "u64 \<Rightarrow> h2_stream \<Rightarrow> bool" where
  "stalled now s \<longleftrightarrow> st_id s \<noteq> 0 \<and> \<not> st_reset s \<and> (\<not> st_headers_done s \<or> st_kind s \<noteq> CF_H2_CONTROL)
     \<and> now \<ge> st_progress_ms s \<and> now - st_progress_ms s > 15000"

fun tick_loop :: "'n nghttp2 \<Rightarrow> u64 \<Rightarrow> nat \<Rightarrow> nat \<Rightarrow> 'n cf_h2 \<Rightarrow> 'n cf_h2 option" where
  "tick_loop ng now i 0 h = Some h"
| "tick_loop ng now i (Suc k) h = do {
     s \<leftarrow> load (h2_streams h) i;
     tick_loop ng now (i + 1) k (if stalled now s then snd (reset_stream ng h (st_id s) NGHTTP2_CANCEL) else h)
   }"

definition cf_h2_tick :: "'n nghttp2 \<Rightarrow> 'n cf_h2 option \<Rightarrow> u64 \<Rightarrow> 'n cf_h2 option option" where
  "cf_h2_tick ng hp now = (case hp of None \<Rightarrow> Some None
     | Some h \<Rightarrow> map_option Some (tick_loop ng now 0 (CF_H2_APPLICATION_MAX + 2) (h\<lparr>h2_now_ms := now\<rparr>)))"

definition cf_h2_get_stats :: "'n cf_h2 option \<Rightarrow> cf_h2_stats option \<Rightarrow> cf_h2_stats option" where
  "cf_h2_get_stats hp out = (case (hp, out) of (Some h, Some _) \<Rightarrow> Some (h2_stats h) | _ \<Rightarrow> out)"

section \<open>Invariants\<close>

definition used :: "h2_stream \<Rightarrow> bool" where
  "used s \<longleftrightarrow> st_id s \<noteq> 0"

definition ids :: "h2_stream list \<Rightarrow> int list" where
  "ids ss = map st_id (filter used ss)"

definition span_in :: "nat \<Rightarrow> nat \<times> nat \<Rightarrow> bool" where
  "span_in n sp \<longleftrightarrow> fst sp + snd sp \<le> n"

text \<open>The slots: six, with different ids, as many in use as the statistics say.\<close>

definition h2_slots :: "'n cf_h2 \<Rightarrow> bool" where
  "h2_slots h \<longleftrightarrow> length (h2_streams h) = CF_H2_APPLICATION_MAX + 2 \<and> distinct (ids (h2_streams h))
     \<and> unat (active_streams (h2_stats h)) = length (ids (h2_streams h))"

text \<open>An array of 64 characters that holds a text.\<close>

definition reason_text :: "mem \<Rightarrow> bool" where
  "reason_text m \<longleftrightarrow> length m = 64 \<and> 0 \<in> set m"

text \<open>The header scratch area: bounded, and every entry inside its used part.\<close>

definition h2_scratch :: "'n cf_h2 \<Rightarrow> bool" where
  "h2_scratch h \<longleftrightarrow> length (h2_header_bytes h) = CF_H2_HEADER_BYTES \<and> h2_header_used h \<le> CF_H2_HEADER_BYTES
     \<and> length (h2_headers h) \<le> CF_H2_HEADER_MAX
     \<and> list_all (\<lambda>sp. span_in (h2_header_used h) (sname sp) \<and> span_in (h2_header_used h) (svalue sp)) (h2_headers h)
     \<and> length (h2_serialized h) = CF_HEADER_WIRE_MAX \<and> reason_text (local_goaway_reason (h2_stats h))"

definition h2_core :: "'n cf_h2 \<Rightarrow> bool" where
  "h2_core h \<longleftrightarrow> h2_slots h \<and> h2_scratch h"

text \<open>Admission: never more admitted streams of a kind than its limit.\<close>

definition h2_admits :: "'n cf_h2 \<Rightarrow> bool" where
  "h2_admits h \<longleftrightarrow> (\<forall>k. length (filter (admitted k) (h2_streams h)) \<le> kind_limit h k)"

text \<open>The stream whose headers are being collected has not been admitted.\<close>

definition h2_collects :: "'n cf_h2 \<Rightarrow> bool" where
  "h2_collects h \<longleftrightarrow> h2_header_stream h \<noteq> 0 \<longrightarrow>
     (\<forall>s \<in> set (h2_streams h). st_id s = h2_header_stream h \<longrightarrow> \<not> st_headers_done s \<or> st_reset s)"

definition h2_inv :: "'n cf_h2 \<Rightarrow> bool" where
  "h2_inv h \<longleftrightarrow> h2_core h \<and> (h2_error h = CF_OK \<longrightarrow> h2_admits h \<and> h2_collects h)"

section \<open>Changes that keep the invariants\<close>

text \<open>A slot keeps its id, kind and progress; a reset is never undone.\<close>

definition stream_touch :: "h2_stream \<Rightarrow> h2_stream \<Rightarrow> bool" where
  "stream_touch s s' \<longleftrightarrow> st_id s' = st_id s \<and> st_kind s' = st_kind s \<and> st_headers_done s' = st_headers_done s
     \<and> (st_reset s \<longrightarrow> st_reset s')"

text \<open>What calls of the engine's operations may change while a callback runs.\<close>

definition h2_touch :: "'n cf_h2 \<Rightarrow> 'n cf_h2 \<Rightarrow> bool" where
  "h2_touch h h' \<longleftrightarrow> list_all2 stream_touch (h2_streams h) (h2_streams h') \<and> h2_app_limit h' = h2_app_limit h
     \<and> h2_header_bytes h' = h2_header_bytes h \<and> h2_headers h' = h2_headers h \<and> h2_header_used h' = h2_header_used h
     \<and> h2_header_stream h' = h2_header_stream h \<and> active_streams (h2_stats h') = active_streams (h2_stats h)
     \<and> length (h2_serialized h') = length (h2_serialized h)
     \<and> (reason_text (local_goaway_reason (h2_stats h)) \<longrightarrow> reason_text (local_goaway_reason (h2_stats h')))
     \<and> (h2_error h \<noteq> CF_OK \<longrightarrow> h2_error h' \<noteq> CF_OK)"

lemma stream_touch_refl [simp]: "stream_touch s s"
  by (simp add: stream_touch_def)

lemma stream_touch_trans: "stream_touch a b \<Longrightarrow> stream_touch b c \<Longrightarrow> stream_touch a c"
  by (simp add: stream_touch_def)

lemma h2_touch_refl [simp]: "h2_touch h h"
  by (simp add: h2_touch_def list_all2_refl)

lemma h2_touch_trans: "h2_touch a b \<Longrightarrow> h2_touch b c \<Longrightarrow> h2_touch a c"
  unfolding h2_touch_def by (auto intro: list_all2_trans [OF stream_touch_trans])

lemma ids_touch: "list_all2 stream_touch ss ss' \<Longrightarrow> ids ss' = ids ss"
  by (induction rule: list_all2_induct) (auto simp: ids_def used_def stream_touch_def)

lemma admitted_touch:
  "list_all2 stream_touch ss ss' \<Longrightarrow> length (filter (admitted k) ss') \<le> length (filter (admitted k) ss)"
  by (induction rule: list_all2_induct) (auto simp: admitted_def stream_touch_def)

lemma core_touch: "h2_core h \<Longrightarrow> h2_touch h h' \<Longrightarrow> h2_core h'"
  unfolding h2_core_def h2_slots_def h2_scratch_def h2_touch_def
  by (auto simp: ids_touch dest: list_all2_lengthD)

lemma admits_touch: "h2_admits h \<Longrightarrow> h2_touch h h' \<Longrightarrow> h2_admits h'"
proof -
  assume a: "h2_admits h" "h2_touch h h'"
  then have t: "list_all2 stream_touch (h2_streams h) (h2_streams h')" "h2_app_limit h' = h2_app_limit h" by (simp_all add: h2_touch_def)
  have "length (filter (admitted k) (h2_streams h')) \<le> kind_limit h' k" for k
    using admitted_touch [OF t(1), of k] a(1) t(2) le_trans unfolding h2_admits_def kind_limit_def by metis
  then show ?thesis by (simp add: h2_admits_def)
qed

lemma collects_touch:
  assumes "h2_collects h" "h2_touch h h'" shows "h2_collects h'"
  unfolding h2_collects_def
proof (intro impI ballI)
  fix s'
  assume s': "h2_header_stream h' \<noteq> 0" "s' \<in> set (h2_streams h')" "st_id s' = h2_header_stream h'"
  have l: "list_all2 stream_touch (h2_streams h) (h2_streams h')" using assms(2) by (simp add: h2_touch_def)
  then obtain s where "s \<in> set (h2_streams h)" "stream_touch s s'"
    using s'(2) by (metis in_set_conv_nth list_all2_conv_all_nth)
  then show "\<not> st_headers_done s' \<or> st_reset s'"
    using assms s' by (auto simp: h2_collects_def h2_touch_def stream_touch_def)
qed

lemma inv_touch: "h2_inv h \<Longrightarrow> h2_touch h h' \<Longrightarrow> h2_inv h'"
proof -
  assume a: "h2_inv h" "h2_touch h h'"
  have "h2_error h = CF_OK" if "h2_error h' = CF_OK" using a(2) that by (auto simp: h2_touch_def)
  then show ?thesis using a core_touch [OF _ a(2)] admits_touch [OF _ a(2)] collects_touch [OF _ a(2)] unfolding h2_inv_def by blast
qed

lemma find_index_Some:
  "find_index P i ss = Some j \<Longrightarrow> i \<le> j \<and> j - i < length ss \<and> P (ss ! (j - i))"
proof (induction ss arbitrary: i)
  case (Cons s ss)
  show ?case
  proof (cases "P s")
    case False
    then have "i + 1 \<le> j \<and> j - (i + 1) < length ss \<and> P (ss ! (j - (i + 1)))" using Cons by simp
    moreover from this have "j - i = Suc (j - (i + 1))" by linarith
    ultimately show ?thesis by simp
  qed (use Cons.prems in auto)
qed simp

lemma find_stream_Some: "find_stream h sid = Some i \<Longrightarrow> i < length (h2_streams h) \<and> st_id (h2_streams h ! i) = sid"
  using find_index_Some [of "\<lambda>s. st_id s = sid" 0 "h2_streams h" i] by (simp add: find_stream_def)

lemma touch_update:
  assumes "\<And>s. stream_touch s (f s)" shows "h2_touch h (stream_update i f h)"
proof -
  have "list_all2 stream_touch (h2_streams h) ((h2_streams h)[i := f (h2_streams h ! i)])"
    using assms by (auto simp: list_all2_conv_all_nth nth_list_update split: if_splits) (metis nth_list_update nth_list_update_neq stream_touch_refl)
  then show ?thesis by (simp add: h2_touch_def stream_update_def)
qed

lemma touch_fields:
  assumes "h2_touch h h'" "h2_streams h'' = h2_streams h'" "h2_app_limit h'' = h2_app_limit h'" "h2_header_bytes h'' = h2_header_bytes h'"
    "h2_headers h'' = h2_headers h'" "h2_header_used h'' = h2_header_used h'" "h2_header_stream h'' = h2_header_stream h'"
    "active_streams (h2_stats h'') = active_streams (h2_stats h')" "length (h2_serialized h'') = length (h2_serialized h')"
    "reason_text (local_goaway_reason (h2_stats h')) \<longrightarrow> reason_text (local_goaway_reason (h2_stats h''))"
    "h2_error h' \<noteq> CF_OK \<longrightarrow> h2_error h'' \<noteq> CF_OK"
  shows "h2_touch h h''"
  using assms unfolding h2_touch_def by simp

lemma reset_touch: "h2_touch h (snd (reset_stream ng h sid e))"
proof -
  have t: "h2_touch h (stream_update i (\<lambda>s. s\<lparr>st_reset := True\<rparr>) h)" for i
    by (rule touch_update) (simp add: stream_touch_def)
  obtain rc n where r: "ng_submit_rst_stream ng (h2_session h) sid e = (rc, n)" by fastforce
  show ?thesis
  proof (cases "find_stream h sid")
    case None
    then show ?thesis using r by (auto simp: reset_stream_def Let_def intro: touch_fields [OF h2_touch_refl])
  next
    case (Some i)
    then show ?thesis using r
      by (auto simp: reset_stream_def Let_def stream_update_def intro: touch_fields [OF h2_touch_refl] touch_fields [OF t [of i, unfolded stream_update_def]])
  qed
qed

lemma reset_error: "fst (reset_stream ng h sid e) \<noteq> CF_OK \<Longrightarrow> h2_error (snd (reset_stream ng h sid e)) \<noteq> CF_OK"
  by (auto simp: reset_stream_def Let_def split: option.splits prod.splits if_splits)

lemma ids_member: "s \<in> set ss \<Longrightarrow> st_id s \<noteq> 0 \<Longrightarrow> st_id s \<in> set (ids ss)"
  by (auto simp: ids_def used_def)

lemma ids_unique:
  "distinct (ids ss) \<Longrightarrow> i < length ss \<Longrightarrow> j < length ss \<Longrightarrow> st_id (ss ! i) = st_id (ss ! j) \<Longrightarrow> st_id (ss ! i) \<noteq> 0 \<Longrightarrow> i = j"
proof (induction ss arbitrary: i j)
  case (Cons s ss)
  have d: "distinct (ids ss)" "used s \<Longrightarrow> st_id s \<notin> set (ids ss)" using Cons.prems(1) by (auto simp: ids_def split: if_splits)
  show ?case
    using Cons.prems Cons.IH [OF d(1)] d(2) ids_member [OF nth_mem, of "i - 1" ss] ids_member [OF nth_mem, of "j - 1" ss]
    by (cases i; cases j) (auto simp: used_def)
qed simp

lemma find_index_None: "find_index P i ss = None \<Longrightarrow> s \<in> set ss \<Longrightarrow> \<not> P s"
  by (induction ss arbitrary: i) (auto split: if_splits)

text \<open>After a successful reset the slot is reset.\<close>

lemma reset_done:
  assumes "fst (reset_stream ng h sid e) = CF_OK" "s \<in> set (h2_streams (snd (reset_stream ng h sid e)))" "st_id s = sid"
    "sid \<noteq> 0" "h2_slots h"
  shows "st_reset s"
proof -
  let ?h = "snd (reset_stream ng h sid e)"
  have t: "list_all2 stream_touch (h2_streams h) (h2_streams ?h)" using reset_touch [of h ng sid e] by (simp add: h2_touch_def)
  obtain j where j: "j < length (h2_streams ?h)" "s = h2_streams ?h ! j" using assms(2) by (metis in_set_conv_nth)
  then have js: "j < length (h2_streams h)" "st_id (h2_streams h ! j) = sid"
    using t assms(3) by (auto simp: list_all2_conv_all_nth stream_touch_def)
  obtain i where i: "find_stream h sid = Some i"
    using find_index_None [of "\<lambda>s. st_id s = sid" 0 "h2_streams h" "h2_streams h ! j"] js by (force simp: find_stream_def)
  have "i = j" using ids_unique [of "h2_streams h" i j] find_stream_Some [OF i] js assms(4,5) by (simp add: h2_slots_def)
  then show ?thesis using assms(1) i j js
    by (auto simp: reset_stream_def Let_def stream_update_def split: prod.splits if_splits)
qed

section \<open>The application\<close>

text \<open>
  What the engine relies on of the application's callbacks: on a well-formed engine they return, keep
  the application's own invariant, and change the engine at most through its operations. Requests and data
  belong to streams, whose ids are not zero.
\<close>

locale h2_application =
  fixes cbs :: "('c, 'n) cf_h2_callbacks" and ng :: "'n nghttp2" and ok :: "'c \<Rightarrow> bool"
  assumes request_ok: "ok c \<Longrightarrow> h2_core h \<Longrightarrow> rq_stream r \<noteq> 0 \<Longrightarrow> \<exists>rc c' h'. cb_request cbs (c, h) r = Some (rc, c', h') \<and> ok c' \<and> h2_touch h h'"
    and data_ok: "ok c \<Longrightarrow> h2_core h \<Longrightarrow> \<not> bytes_bad b \<Longrightarrow> sid \<noteq> 0 \<Longrightarrow> \<exists>rc c' h'. cb_data cbs (c, h) sid b fin = Some (rc, c', h') \<and> ok c' \<and> h2_touch h h'"
    and read_ok: "ok c \<Longrightarrow> h2_core h \<Longrightarrow> \<exists>rc bytes eof c' h'. cb_read_response cbs (c, h) sid cap = Some (rc, bytes, eof, c', h') \<and> ok c' \<and> h2_touch h h'"
    and closed_ok: "ok c \<Longrightarrow> h2_core h \<Longrightarrow> \<exists>c' h'. cb_closed cbs (c, h) sid e = Some (c', h') \<and> ok c' \<and> h2_touch h h'"

text \<open>
  What nghttp2 documents of its callbacks: a request opens a stream with a new id, and headers, data
  and closes belong to streams, whose ids are not zero.
\<close>

fun event_ok :: "'n cf_h2 \<Rightarrow> h2_event \<Rightarrow> bool" where
  "event_ok h (Begin_Headers sid req) \<longleftrightarrow> req \<longrightarrow> sid \<noteq> 0 \<and> sid \<notin> set (ids (h2_streams h))"
| "event_ok h (Frame_Received f) \<longleftrightarrow> fh_type f \<in> {F_HEADERS, F_DATA} \<longrightarrow> fh_stream f \<noteq> 0"
| "event_ok h (Header sid name value) \<longleftrightarrow> sid \<noteq> 0"
| "event_ok h (Data_Received sid data) \<longleftrightarrow> sid \<noteq> 0"
| "event_ok h (Stream_Closed sid e) \<longleftrightarrow> sid \<noteq> 0"
| "event_ok h e \<longleftrightarrow> True"

text \<open>The outcome of an engine step: the invariant, and the way the slots evolve.\<close>

definition h2_good :: "('c \<Rightarrow> bool) \<Rightarrow> 'c \<times> 'n cf_h2 \<Rightarrow> bool" where
  "h2_good ok st \<longleftrightarrow> ok (fst st) \<and> h2_inv (snd st)"

lemma good_touch: "h2_inv h \<Longrightarrow> h2_touch h h' \<Longrightarrow> ok c \<Longrightarrow> h2_good ok (c, h')"
  by (simp add: h2_good_def inv_touch)

section \<open>One slot of the table\<close>

lemma filter_update:
  "i < length ss \<Longrightarrow> filter P (ss[i := s]) = filter P (take i ss) @ (if P s then [s] else []) @ filter P (drop (Suc i) ss)"
  by (simp add: upd_conv_take_nth_drop)

lemma filter_split:
  "i < length ss \<Longrightarrow> filter P ss = filter P (take i ss) @ (if P (ss ! i) then [ss ! i] else []) @ filter P (drop (Suc i) ss)"
  by (subst id_take_nth_drop [of i ss]) simp_all

text \<open>A free slot is taken.\<close>

lemma slots_open:
  assumes "h2_slots h" "find_index (\<lambda>s. st_id s = 0) 0 (h2_streams h) = Some i" "st_id s \<noteq> 0" "st_id s \<notin> set (ids (h2_streams h))"
    and "h2_streams h' = (h2_streams h)[i := s]" "active_streams (h2_stats h') = active_streams (h2_stats h) + 1"
  shows "h2_slots h'"
proof -
  have i: "i < length (h2_streams h)" "st_id (h2_streams h ! i) = 0" using find_index_Some [OF assms(2)] by simp_all
  have l: "length (ids (h2_streams h)) \<le> 6"
    using assms(1) length_filter_le [of used "h2_streams h"] by (simp add: ids_def h2_slots_def CF_H2_APPLICATION_MAX_def)
  have old: "ids (h2_streams h) = ids (take i (h2_streams h)) @ ids (drop (Suc i) (h2_streams h))"
    unfolding ids_def by (subst filter_split [OF i(1)]) (simp add: used_def i(2))
  have new: "ids (h2_streams h') = ids (take i (h2_streams h)) @ st_id s # ids (drop (Suc i) (h2_streams h))"
    unfolding ids_def assms(5) by (subst filter_update [OF i(1)]) (simp add: used_def assms(3))
  have "unat (active_streams (h2_stats h) + 1) = unat (active_streams (h2_stats h)) + 1"
    using assms(1) l by (simp add: unat_word_ariths h2_slots_def)
  then show ?thesis using assms(1,4,5,6) old new by (simp add: h2_slots_def)
qed

text \<open>A slot is released.\<close>

lemma slots_close:
  assumes "h2_slots h" "i < length (h2_streams h)" "st_id (h2_streams h ! i) \<noteq> 0"
    and "h2_streams h' = (h2_streams h)[i := zero_stream]" "active_streams (h2_stats h') = active_streams (h2_stats h) - 1"
  shows "h2_slots h'"
proof -
  have old: "ids (h2_streams h) = ids (take i (h2_streams h)) @ st_id (h2_streams h ! i) # ids (drop (Suc i) (h2_streams h))"
    unfolding ids_def by (subst filter_split [OF assms(2)]) (simp add: used_def assms(3))
  have new: "ids (h2_streams h') = ids (take i (h2_streams h)) @ ids (drop (Suc i) (h2_streams h))"
    unfolding ids_def assms(4) by (subst filter_update [OF assms(2)]) (simp add: used_def zero_stream_def)
  have "active_streams (h2_stats h) \<noteq> 0" using assms(1) old by (auto simp: h2_slots_def)
  then have "unat (active_streams (h2_stats h) - 1) = unat (active_streams (h2_stats h)) - 1" by (simp add: unat_minus_one)
  then show ?thesis using assms(1,4,5) old new by (simp add: h2_slots_def)
qed

lemma admitted_update:
  "i < length ss \<Longrightarrow> length (filter (admitted k) (ss[i := s])) + (if admitted k (ss ! i) then 1 else 0)
     = length (filter (admitted k) ss) + (if admitted k s then 1 else 0)"
  using filter_update [of i ss "admitted k" s] filter_split [of i ss "admitted k"] by simp

section \<open>Each event keeps the invariant\<close>

lemma kind_limit_cong: "h2_app_limit h' = h2_app_limit h \<Longrightarrow> kind_limit h' k = kind_limit h k"
  by (simp add: kind_limit_def)

lemma inv_fields:
  assumes "h2_inv h" "h2_streams h' = h2_streams h" "h2_app_limit h' = h2_app_limit h" "h2_error h' = CF_OK \<longrightarrow> h2_error h = CF_OK"
    "active_streams (h2_stats h') = active_streams (h2_stats h)" "h2_scratch h'" "h2_header_stream h' = h2_header_stream h \<or> h2_header_stream h' = 0"
  shows "h2_inv h'"
proof -
  have "h2_slots h'" using assms(1,2,5) by (simp add: h2_inv_def h2_core_def h2_slots_def)
  moreover have "h2_admits h' \<longleftrightarrow> h2_admits h" unfolding h2_admits_def kind_limit_def assms(2,3) ..
  moreover have "h2_collects h \<longrightarrow> h2_collects h'" using assms(2,7) by (auto simp: h2_collects_def)
  ultimately show ?thesis using assms(1,4,6) by (auto simp: h2_inv_def h2_core_def)
qed

lemma inv_session: "h2_inv h \<Longrightarrow> h2_inv (h\<lparr>h2_session := n\<rparr>)"
  by (erule inv_touch) (rule touch_fields [OF h2_touch_refl], simp_all)

lemma inv_scratch: "h2_inv h \<Longrightarrow> h2_scratch h"
  by (simp add: h2_inv_def h2_core_def)

lemma begin_headers_inv:
  assumes "h2_inv h" "event_ok h (Begin_Headers sid req)"
  shows "h2_inv (snd (begin_headers ng sid req h))"
proof -
  let ?h = "h\<lparr>h2_header_stream := 0\<rparr>"
  have inv0: "h2_inv ?h" using assms(1)
    by (rule inv_fields) (use inv_scratch [OF assms(1)] in \<open>simp_all add: h2_scratch_def\<close>)
  have rs: "h2_inv (snd (reset_code ng ?h sid e))" for e
    using inv_touch [OF inv0 reset_touch [of ?h ng sid e]] by (simp add: reset_code_def case_prod_unfold Let_def)
  show ?thesis
  proof (cases "req \<and> find_index (\<lambda>s. st_id s = 0) 0 (h2_streams h) \<noteq> None")
    case False
    then show ?thesis using rs by (auto simp: begin_headers_def Let_def)
  next
    case True
    then obtain i where i: "find_index (\<lambda>s. st_id s = 0) 0 (h2_streams h) = Some i" by blast
    let ?s = "zero_stream\<lparr>st_id := sid, st_progress_ms := h2_now_ms h\<rparr>"
    let ?h' = "snd (begin_headers ng sid req h)"
    have h': "h2_streams ?h' = (h2_streams h)[i := ?s]" "active_streams (h2_stats ?h') = active_streams (h2_stats h) + 1"
      "h2_header_stream ?h' = sid" "h2_error ?h' = h2_error h" "h2_scratch ?h'" "h2_app_limit ?h' = h2_app_limit h"
      using True i assms(1) by (simp_all add: begin_headers_def Let_def stream_update_def h2_inv_def h2_core_def h2_scratch_def)
    have sid: "sid \<noteq> 0" "sid \<notin> set (ids (h2_streams h))" using assms(2) True by simp_all
    have ii: "i < length (h2_streams h)" "st_id (h2_streams h ! i) = 0" using find_index_Some [OF i] by simp_all
    have "h2_slots ?h'" by (rule slots_open [OF _ i _ _ h'(1,2)]) (use assms(1) sid in \<open>simp_all add: h2_inv_def h2_core_def\<close>)
    moreover have "h2_admits ?h'" if "h2_admits h"
      using that admitted_update [OF ii(1), of _ ?s] ii(2) kind_limit_cong [OF h'(6)]
      by (simp add: h2_admits_def h'(1) admitted_def zero_stream_def)
    moreover have "h2_collects ?h'"
      unfolding h2_collects_def h'(1,3)
    proof (intro impI ballI)
      fix s
      assume "s \<in> set ((h2_streams h)[i := ?s])" "st_id s = sid"
      then have "s = ?s" using set_update_subset_insert [of "h2_streams h" i ?s] ids_member [of s "h2_streams h"] sid by auto
      then show "\<not> st_headers_done s \<or> st_reset s" by (simp add: zero_stream_def)
    qed
    ultimately show ?thesis using assms(1) h'(4,5) by (simp add: h2_inv_def h2_core_def)
  qed
qed

lemma header_text_total: "h2_scratch h \<Longrightarrow> span_in (h2_header_used h) sp \<Longrightarrow> \<exists>t. header_text h sp = Some t \<and> length t = snd sp"
  by (auto simp: header_text_def load_n_def h2_scratch_def span_in_def)

lemma duplicate_loop_total:
  assumes "h2_scratch h" "list_all (\<lambda>sp. span_in (h2_header_used h) (sname sp)) sps"
  shows "\<exists>b. duplicate_loop h name sps = Some b"
  using assms(2)
proof (induction sps)
  case (Cons sp sps)
  then obtain t where "header_text h (sname sp) = Some t" using header_text_total [OF assms(1), of "sname sp"] by auto
  then show ?case using Cons by auto
qed auto

lemma header_list_total:
  assumes "h2_scratch h" "list_all (\<lambda>sp. span_in (h2_header_used h) (sname sp) \<and> span_in (h2_header_used h) (svalue sp)) sps"
  shows "\<exists>hs. header_list h sps = Some hs \<and> length hs = length sps"
  using assms(2)
proof (induction sps)
  case (Cons sp sps)
  then obtain t u hs where "header_text h (sname sp) = Some t" "header_text h (svalue sp) = Some u" "header_list h sps = Some hs" "length hs = length sps"
    using header_text_total [OF assms(1), of "sname sp"] header_text_total [OF assms(1), of "svalue sp"] by auto
  then show ?case by simp
qed simp

lemma reset_code_inv: "h2_inv h \<Longrightarrow> h2_inv (snd (reset_code ng h sid e))"
  using inv_touch [OF _ reset_touch [of h ng sid e]] by (simp add: reset_code_def case_prod_unfold Let_def)

lemma on_header_inv:
  assumes "h2_inv h"
  shows "\<exists>rc h'. on_header ng sid name value h = Some (rc, h') \<and> h2_inv h'"
proof -
  have sc: "h2_scratch h" using assms by (simp add: h2_inv_def h2_core_def)
  have rj: "h2_inv (snd (header_reject ng sid h))" unfolding header_reject_def
    by (rule reset_code_inv, rule inv_fields [OF assms]) (use sc in \<open>simp_all add: h2_scratch_def\<close>)
  have sp: "list_all (\<lambda>sp. span_in (h2_header_used h) (sname sp)) (h2_headers h)" using sc by (auto simp: h2_scratch_def list_all_iff)
  obtain dup where dup: "(if routing_name name then duplicate_loop h name (h2_headers h) else Some False) = Some dup"
    using duplicate_loop_total [OF sc sp, of name] by (cases "routing_name name") auto
  show ?thesis
  proof (cases "h2_header_stream h \<noteq> sid \<or> length (h2_headers h) = CF_H2_HEADER_MAX \<or> length name > size_sub CF_H2_HEADER_BYTES (h2_header_used h)
        \<or> length value > size_sub (size_sub CF_H2_HEADER_BYTES (h2_header_used h)) (length name) \<or> dup")
    case True
    then have "on_header ng sid name value h = Some (0, h) \<or> on_header ng sid name value h = Some (header_reject ng sid h)"
      unfolding on_header_def dup by (elim disjE) (simp_all split: if_split)
    then show ?thesis using rj assms by (metis prod.collapse)
  next
    case False
    let ?u = "h2_header_used h"
    have room: "?u + length name + length value \<le> CF_H2_HEADER_BYTES" "length (h2_headers h) < CF_H2_HEADER_MAX"
      using False sc by (auto simp: size_sub_def h2_scratch_def split: if_splits)
    let ?m = "splice (splice (h2_header_bytes h) ?u name) (?u + length name) value"
    have st: "store_n (h2_header_bytes h) ?u name = Some (splice (h2_header_bytes h) ?u name)"
      "store_n (splice (h2_header_bytes h) ?u name) (?u + length name) value = Some ?m" "length ?m = CF_H2_HEADER_BYTES"
      using room sc by (simp_all add: store_n_Some h2_scratch_def)
    let ?h = "h\<lparr>h2_headers := h2_headers h @ [\<lparr>sname = (?u, length name), svalue = (?u + length name, length value)\<rparr>],
         h2_header_bytes := ?m, h2_header_used := ?u + length name + length value\<rparr>"
    have "h2_scratch ?h" using sc room st(3) by (auto simp: h2_scratch_def span_in_def list_all_iff)
    then have "h2_inv ?h" by (intro inv_fields [OF assms]) simp_all
    moreover have "on_header ng sid name value h = Some (0, ?h)" using False st unfolding on_header_def dup by (simp add: Let_def)
    ultimately show ?thesis by blast
  qed
qed

lemma ids_update: "i < length ss \<Longrightarrow> st_id s = st_id (ss ! i) \<Longrightarrow> ids (ss[i := s]) = ids ss"
  unfolding ids_def by (subst filter_update, assumption, subst filter_split [of i ss], assumption) (simp add: used_def)

lemma core_update:
  assumes "\<And>s. st_id (f s) = st_id s" "h2_core h" "i < length (h2_streams h)"
  shows "h2_core (stream_update i f h)"
  using assms ids_update [OF assms(3), of "f (h2_streams h ! i)"]
  by (simp add: h2_core_def h2_slots_def h2_scratch_def stream_update_def)

text \<open>The slot is marked with the kind of its request, then admitted.\<close>

lemma mark_kind_inv:
  assumes "h2_inv h" "i < length (h2_streams h)" "h2_error h = CF_OK \<longrightarrow> \<not> st_headers_done (h2_streams h ! i)"
  shows "h2_inv (stream_update i (\<lambda>s. s\<lparr>st_kind := k\<rparr>) h)"
proof -
  let ?h = "stream_update i (\<lambda>s. s\<lparr>st_kind := k\<rparr>) h"
  have core: "h2_core ?h" by (rule core_update) (use assms in \<open>simp_all add: h2_inv_def\<close>)
  have ss: "h2_streams ?h = (h2_streams h)[i := (h2_streams h ! i)\<lparr>st_kind := k\<rparr>]" by (simp add: stream_update_def)
  have "h2_admits ?h" if "h2_error h = CF_OK"
    using that assms admitted_update [OF assms(2), of _ "(h2_streams h ! i)\<lparr>st_kind := k\<rparr>"] kind_limit_cong [of ?h h]
    by (simp add: h2_admits_def ss admitted_def h2_inv_def stream_update_def)
  moreover have "h2_collects ?h" if "h2_error h = CF_OK"
    using that assms set_update_subset_insert [of "h2_streams h" i "(h2_streams h ! i)\<lparr>st_kind := k\<rparr>"]
    unfolding h2_collects_def ss by (auto simp: h2_inv_def h2_collects_def stream_update_def)
  ultimately show ?thesis using core by (simp add: h2_inv_def stream_update_def)
qed

lemma admit_stream:
  assumes "h2_inv h" "i < length (h2_streams h)" "h2_error h = CF_OK \<longrightarrow> \<not> st_headers_done (h2_streams h ! i)"
    "st_kind (h2_streams h ! i) = k" "length (filter (admitted k) (h2_streams h)) < kind_limit h k"
  shows "h2_core (stream_update i (\<lambda>s. s\<lparr>st_headers_done := True\<rparr>) h)"
    and "h2_error h = CF_OK \<Longrightarrow> h2_admits (stream_update i (\<lambda>s. s\<lparr>st_headers_done := True\<rparr>) h)"
proof -
  let ?h = "stream_update i (\<lambda>s. s\<lparr>st_headers_done := True\<rparr>) h"
  let ?s = "(h2_streams h ! i)\<lparr>st_headers_done := True\<rparr>"
  show "h2_core ?h" by (rule core_update) (use assms in \<open>simp_all add: h2_inv_def\<close>)
  have ss: "h2_streams ?h = (h2_streams h)[i := ?s]" by (simp add: stream_update_def)
  assume e: "h2_error h = CF_OK"
  have "length (filter (admitted k') (h2_streams ?h)) \<le> kind_limit h k'" for k'
  proof (cases "k' = k")
    case True
    then show ?thesis using admitted_update [OF assms(2), of k ?s] assms(5) unfolding ss by (auto split: if_splits)
  next
    case False
    then have "\<not> admitted k' ?s" using assms(4) by (simp add: admitted_def)
    moreover have "length (filter (admitted k') (h2_streams h)) \<le> kind_limit h k'" using assms(1) e by (simp add: h2_inv_def h2_admits_def)
    ultimately show ?thesis using admitted_update [OF assms(2), of k' ?s] unfolding ss by (auto split: if_splits)
  qed
  then show "h2_admits ?h" using kind_limit_cong [of ?h h] by (simp add: h2_admits_def stream_update_def)
qed

lemma sent_goaway_inv:
  assumes "h2_inv h" shows "\<exists>rc h'. sent_goaway e opaque h = Some (rc, h') \<and> h2_inv h'"
proof -
  define n where "n = (if length opaque \<ge> 64 then 63 else length opaque)"
  have l: "length (local_goaway_reason (h2_stats h)) = 64" "n < 64" "length (take n opaque) = n"
    using inv_scratch [OF assms] by (auto simp: h2_scratch_def reason_text_def n_def)
  define m where "m = splice (local_goaway_reason (h2_stats h)) 0 (take n opaque)"
  have m: "store_n (local_goaway_reason (h2_stats h)) 0 (take n opaque) = Some m" "length m = 64"
    using l by (auto simp: store_n_Some m_def)
  have "store m n 0 = Some (m[n := 0])" using m l by (simp add: store_def)
  then have r: "sent_goaway e opaque h = Some (0, h\<lparr>h2_stats := (h2_stats h)\<lparr>goaway := True, local_goaway := True, goaway_error := e,
      local_goaway_reason := m[n := 0]\<rparr>\<rparr>)"
    using m by (simp add: sent_goaway_def n_def [symmetric] Let_def)
  have "reason_text (m[n := 0])" using m(2) l(2) by (simp add: reason_text_def set_update_memI)
  then have "h2_inv (h\<lparr>h2_stats := (h2_stats h)\<lparr>goaway := True, local_goaway := True, goaway_error := e, local_goaway_reason := m[n := 0]\<rparr>\<rparr>)"
    by (intro inv_touch [OF assms touch_fields [OF h2_touch_refl]]) simp_all
  then show ?thesis using r by blast
qed

lemma protocol_error_inv: "h2_inv h \<Longrightarrow> h2_inv (snd (protocol_error code h))"
  by (erule inv_touch) (rule touch_fields [OF h2_touch_refl], simp_all add: protocol_error_def)

lemma invalid_frame_inv: "h2_inv h \<Longrightarrow> h2_inv (snd (invalid_frame f code h))"
  by (erule inv_touch) (rule touch_fields [OF h2_touch_refl], simp_all add: invalid_frame_def Let_def)

text \<open>Every callback of the sequence is one that nghttp2 may make in the state it meets.\<close>

fun events_ok :: "('c, 'n) cf_h2_callbacks \<Rightarrow> 'n nghttp2 \<Rightarrow> h2_event list \<Rightarrow> 'c \<times> 'n cf_h2 \<Rightarrow> bool" where
  "events_ok cbs ng [] st \<longleftrightarrow> True"
| "events_ok cbs ng (e # es) st \<longleftrightarrow> event_ok (snd st) e \<and>
     (case h2_event_step cbs ng e st of Some (rc, st) \<Rightarrow> rc = 0 \<longrightarrow> events_ok cbs ng es st | None \<Rightarrow> True)"

context h2_application
begin

lemma request_good:
  assumes "ok c" "h2_core h" "rq_stream r \<noteq> 0"
  obtains rc c' h' where "cb_request cbs (c, h) r = Some (rc, c', h')" "ok c'" "h2_touch h h'"
  using request_ok [OF assms] by blast

text \<open>A complete header block: the stream is refused, or it is admitted within its limit.\<close>

lemma request_headers_good:
  assumes ok: "ok c" and inv: "h2_inv h" and i: "find_stream h sid = Some i" "\<not> st_reset (h2_streams h ! i)"
    and hs: "h2_header_stream h = sid" "sid \<noteq> 0"
  shows "\<exists>r. request_headers cbs ng f i (c, h) = Some r \<and> (case r of Inl (rc, st) \<Rightarrow> h2_good ok st
    | Inr st \<Rightarrow> h2_good ok st \<and> i < length (h2_streams (snd st)) \<and> st_id (h2_streams (snd st) ! i) = sid)"
proof -
  have ii: "i < length (h2_streams h)" "st_id (h2_streams h ! i) = sid" using find_stream_Some [OF i(1)] by simp_all
  have sc: "h2_scratch h" using inv by (rule inv_scratch)
  obtain hl where hl: "header_list h (h2_headers h) = Some hl"
    using header_list_total [OF sc, of "h2_headers h"] sc by (auto simp: h2_scratch_def)
  let ?rq = "\<lparr>rq_stream = sid, rq_kind = CF_H2_HTTP, rq_headers = hl, rq_end_stream = fh_end_stream f\<rparr>"
  have refuse: "h2_good ok (c', snd (reset_code ng h' sid e))" if "ok c'" "h2_inv h'" for c' h' e
    using that reset_code_inv by (simp add: h2_good_def)
  show ?thesis
  proof (cases "request_kind ?rq")
    case None
    then show ?thesis using hl ii refuse [OF ok inv] by (simp add: request_headers_def case_prod_unfold Let_def)
  next
    case (Some k)
    define h1 where "h1 = stream_update i (\<lambda>s. s\<lparr>st_kind := k\<rparr>) h"
    have nd: "h2_error h = CF_OK \<Longrightarrow> \<not> st_headers_done (h2_streams h ! i)"
      using inv hs i(2) ii nth_mem [OF ii(1)] by (auto simp: h2_inv_def h2_collects_def)
    have inv1: "h2_inv h1" unfolding h1_def by (rule mark_kind_inv) (use inv ii nd in auto)
    have i1: "i < length (h2_streams h1)" "st_id (h2_streams h1 ! i) = sid" "st_kind (h2_streams h1 ! i) = k"
        "h2_error h1 = h2_error h" "h2_header_stream h1 = sid" "st_headers_done (h2_streams h1 ! i) = st_headers_done (h2_streams h ! i)"
      using ii hs by (simp_all add: h1_def stream_update_def)
    show ?thesis
    proof (cases "length (filter (admitted k) (h2_streams h1)) \<ge> kind_limit h1 k")
      case True
      then show ?thesis using hl ii Some refuse [OF ok inv1, of NGHTTP2_REFUSED_STREAM]
        by (simp add: request_headers_def case_prod_unfold Let_def h1_def)
    next
      case False
      define h2 where "h2 = stream_update i (\<lambda>s. s\<lparr>st_headers_done := True\<rparr>) h1"
      have core2: "h2_core h2" and adm2: "h2_error h2 = CF_OK \<Longrightarrow> h2_admits h2"
        using admit_stream [OF inv1 i1(1) _ i1(3)] False nd i1(4,6) by (auto simp: h2_def stream_update_def)
      obtain rc c3 h3 where cb: "cb_request cbs (c, h2) (?rq\<lparr>rq_kind := k\<rparr>) = Some (rc, c3, h3)" "ok c3" "h2_touch h2 h3"
        using request_good [OF ok core2, of "?rq\<lparr>rq_kind := k\<rparr>"] hs(2) by auto
      have core3: "h2_core h3" using core_touch [OF core2 cb(3)] .
      have adm3: "h2_admits h3" if "h2_error h3 = CF_OK" using that admits_touch [OF adm2 cb(3)] cb(3) by (auto simp: h2_touch_def)
      have i3: "i < length (h2_streams h3)" "st_id (h2_streams h3 ! i) = sid" "h2_header_stream h3 = sid"
        using cb(3) i1 by (auto simp: h2_touch_def h2_def stream_update_def list_all2_conv_all_nth stream_touch_def)
      show ?thesis
      proof (cases "rc = CF_OK")
        case True
        let ?m = "splice (h2_header_bytes h3) 0 (replicate (h2_header_used h3) 0)"
        let ?h4 = "h3\<lparr>h2_header_bytes := ?m, h2_header_stream := 0\<rparr>"
        have sc3: "h2_scratch h3" using core3 by (simp add: h2_core_def)
        then have st: "store_n (h2_header_bytes h3) 0 (replicate (h2_header_used h3) 0) = Some ?m" "length ?m = length (h2_header_bytes h3)"
          by (simp_all add: store_n_Some h2_scratch_def)
        have "h2_inv ?h4" using core3 adm3 st(2) kind_limit_cong [of ?h4 h3]
          by (simp add: h2_inv_def h2_core_def h2_slots_def h2_scratch_def h2_admits_def h2_collects_def)
        then show ?thesis using hl ii Some False cb st True i3
          by (simp add: request_headers_def Let_def h1_def [symmetric] h2_def [symmetric] h2_good_def)
      next
        case no: False
        let ?r = "reset_stream ng h3 sid NGHTTP2_REFUSED_STREAM"
        have t4: "h2_touch h3 (snd ?r)" by (rule reset_touch)
        have "h2_collects (snd ?r)" if "h2_error (snd ?r) = CF_OK"
          using reset_done [of ng h3 sid NGHTTP2_REFUSED_STREAM] reset_error [of ng h3 sid NGHTTP2_REFUSED_STREAM] that core3 hs(2) t4 i3(3)
          by (auto simp: h2_collects_def h2_core_def h2_touch_def)
        moreover have "h2_admits (snd ?r)" if "h2_error (snd ?r) = CF_OK"
          using that t4 adm3 admits_touch [OF _ t4] by (auto simp: h2_touch_def)
        ultimately have "h2_inv (snd ?r)" using core_touch [OF core3 t4] by (simp add: h2_inv_def)
        then show ?thesis using hl ii Some False cb no
          by (simp add: request_headers_def Let_def h1_def [symmetric] h2_def [symmetric] h2_good_def reset_code_def case_prod_unfold)
      qed
    qed
  qed
qed

lemma received_end_good:
  assumes "ok c" "h2_inv h" "fh_type f \<in> {F_HEADERS, F_DATA} \<Longrightarrow> st_id (h2_streams h ! i) \<noteq> 0"
  shows "\<exists>rc st. received_end cbs ng f i (c, h) = Some (rc, st) \<and> h2_good ok st"
proof (cases "(fh_type f = F_HEADERS \<or> fh_type f = F_DATA) \<and> fh_end_stream f")
  case True
  let ?sid = "st_id (h2_streams h ! i)"
  have core: "h2_core h" using assms(2) by (simp add: h2_inv_def)
  obtain rc c' h' where cb: "cb_data cbs (c, h) ?sid (Null_Bytes 0) True = Some (rc, c', h')" "ok c'" "h2_touch h h'"
    using data_ok [OF assms(1) core, of "Null_Bytes 0" ?sid True] assms(3) True by auto
  have inv': "h2_inv h'" using inv_touch [OF assms(2) cb(3)] .
  show ?thesis using True cb inv' reset_code_inv [OF inv', of ng ?sid NGHTTP2_CANCEL]
    by (cases "rc = CF_OK") (simp_all add: received_end_def case_prod_unfold h2_good_def Let_def)
qed (use assms in \<open>auto simp: received_end_def h2_good_def\<close>)

lemma received_frame_good:
  assumes "ok c" "h2_inv h" "event_ok h (Frame_Received f)"
  shows "\<exists>rc st. received_frame cbs ng f (c, h) = Some (rc, st) \<and> h2_good ok st"
proof -
  let ?h = "h\<lparr>h2_stats := frame_stats f (h2_stats h)\<rparr>"
  have fs: "active_streams (frame_stats f st) = active_streams st" "local_goaway_reason (frame_stats f st) = local_goaway_reason st" for st
    by (simp_all add: frame_stats_def Let_def)
  have inv: "h2_inv ?h"
    by (rule inv_fields [OF assms(2)]) (use inv_scratch [OF assms(2)] in \<open>simp_all add: fs h2_scratch_def\<close>)
  show ?thesis
  proof (cases "find_stream ?h (fh_stream f)")
    case None
    then show ?thesis using inv assms(1) by (simp add: received_frame_def h2_good_def Let_def)
  next
    case (Some i)
    consider "st_reset (h2_streams ?h ! i)"
      | "\<not> st_reset (h2_streams ?h ! i)" "fh_type f = F_HEADERS" "h2_header_stream ?h = fh_stream f"
      | "\<not> st_reset (h2_streams ?h ! i)" "\<not> (fh_type f = F_HEADERS \<and> h2_header_stream ?h = fh_stream f)" by blast
    then show ?thesis
    proof cases
      case 1
      then show ?thesis using Some inv assms(1) by (simp add: received_frame_def h2_good_def Let_def)
    next
      case 2
      have nz: "fh_stream f \<noteq> 0" using assms(3) 2(2) by simp
      obtain r where r: "request_headers cbs ng f i (c, ?h) = Some r" and
          rr: "case r of Inl (rc, st) \<Rightarrow> h2_good ok st
            | Inr st \<Rightarrow> h2_good ok st \<and> i < length (h2_streams (snd st)) \<and> st_id (h2_streams (snd st) ! i) = fh_stream f"
        using request_headers_good [OF assms(1) inv Some 2(1) 2(3) nz, of f] by (elim exE conjE)
      show ?thesis
      proof (cases r)
        case (Inl x)
        obtain rc st where x: "x = (rc, st)" by (cases x)
        have "h2_good ok st" using rr Inl x by simp
        then show ?thesis using r Inl x 2 Some by (simp add: received_frame_def Let_def)
      next
        case (Inr st)
        obtain c' h' where st: "st = (c', h')" by (cases st)
        have g: "ok c'" "h2_inv h'" "st_id (h2_streams h' ! i) \<noteq> 0" using rr Inr st nz by (simp_all add: h2_good_def)
        show ?thesis using received_end_good [OF g(1,2), of f i] g(3) r Inr st 2 Some by (simp add: received_frame_def Let_def)
      qed
    next
      case 3
      then have "received_frame cbs ng f (c, h) = received_end cbs ng f i (c, ?h)" using Some by (auto simp: received_frame_def Let_def)
      then show ?thesis using received_end_good [OF assms(1) inv, of f i] assms(3) find_stream_Some [OF Some] by auto
    qed
  qed
qed

lemma data_loop_good:
  "ok c \<Longrightarrow> h2_inv h \<Longrightarrow> sid \<noteq> 0 \<Longrightarrow> \<exists>b c' h'. data_loop cbs ng sid data (c, h) = Some (b, c', h') \<and> ok c' \<and> h2_touch h h'"
proof (induction data arbitrary: c h rule: length_induct)
  case (1 data)
  show ?case
  proof (cases "data = []")
    case True
    then show ?thesis using 1 by (subst data_loop.simps) auto
  next
    case False
    have core: "h2_core h" using 1 by (simp add: h2_inv_def)
    obtain rc c' h' where cb: "cb_data cbs (c, h) sid (Bytes (take CF_H2_CHUNK data)) False = Some (rc, c', h')" "ok c'" "h2_touch h h'"
      using data_ok [OF 1(2) core, of "Bytes (take CF_H2_CHUNK data)" sid False] 1(4) by auto
    show ?thesis
    proof (cases "rc = CF_OK")
      case True
      have "length (drop CF_H2_CHUNK data) < length data" using False by (simp add: CF_H2_CHUNK_def)
      then obtain b c'' h'' where "data_loop cbs ng sid (drop CF_H2_CHUNK data) (c', h') = Some (b, c'', h'')" "ok c''" "h2_touch h' h''"
        using 1(1,4) cb(2) inv_touch [OF 1(3) cb(3)] by blast
      then show ?thesis using False True cb h2_touch_trans by (subst data_loop.simps) auto
    next
      case no: False
      show ?thesis using False no cb h2_touch_trans [OF cb(3) reset_touch [of h' ng sid NGHTTP2_CANCEL]]
        by (subst data_loop.simps) (simp add: case_prod_unfold Let_def)
    qed
  qed
qed

lemma received_data_good:
  assumes "ok c" "h2_inv h" "sid \<noteq> 0"
  shows "\<exists>rc st. received_data cbs ng sid data (c, h) = Some (rc, st) \<and> h2_good ok st"
proof -
  have skip: "\<exists>rc st. (let (rc, n) = ng_session_consume_connection ng (h2_session h) (length data) in
      Some (if rc \<noteq> 0 then NGHTTP2_ERR_CALLBACK_FAILURE else 0, c, h\<lparr>h2_session := n\<rparr>)) = Some (rc, st) \<and> h2_good ok st"
    using assms(1,2) inv_session by (simp add: case_prod_unfold h2_good_def Let_def)
  obtain b c' h' where d: "data_loop cbs ng sid data (c, h) = Some (b, c', h')" "ok c'" "h2_touch h h'"
    using data_loop_good [OF assms] by blast
  have inv': "h2_inv h'" using inv_touch [OF assms(2) d(3)] .
  let ?p = "\<lambda>i. stream_update i (\<lambda>s. s\<lparr>st_progress_ms := h2_now_ms h'\<rparr>) h'"
  have p: "h2_inv (?p i)" for i by (rule inv_touch [OF inv' touch_update]) (simp add: stream_touch_def)
  show ?thesis
  proof (cases "find_stream h sid")
    case None
    then show ?thesis using skip by (simp add: received_data_def)
  next
    case (Some i)
    consider "st_reset (h2_streams h ! i)" | "\<not> st_reset (h2_streams h ! i)" "\<not> b" | "\<not> st_reset (h2_streams h ! i)" b by blast
    then show ?thesis
    proof cases
      case 1
      then show ?thesis using Some skip by (simp add: received_data_def)
    next
      case 2
      then show ?thesis using Some d inv' by (simp add: received_data_def h2_good_def)
    next
      case 3
      then show ?thesis using Some d inv_session [OF p [of i]] by (simp add: received_data_def h2_good_def case_prod_unfold Let_def)
    qed
  qed
qed

lemma closed_stream_good:
  assumes "ok c" "h2_inv h" "sid \<noteq> 0"
  shows "\<exists>rc st. closed_stream cbs sid e (c, h) = Some (rc, st) \<and> h2_good ok st"
proof (cases "find_stream h sid")
  case None
  then show ?thesis using assms by (simp add: closed_stream_def h2_good_def)
next
  case (Some i)
  have core: "h2_core h" using assms(2) by (simp add: h2_inv_def)
  obtain c' h' where cb: "cb_closed cbs (c, h) sid e = Some (c', h')" "ok c'" "h2_touch h h'" using closed_ok [OF assms(1) core] by blast
  have inv': "h2_inv h'" using inv_touch [OF assms(2) cb(3)] .
  have i: "i < length (h2_streams h')" "st_id (h2_streams h' ! i) \<noteq> 0"
    using find_stream_Some [OF Some] cb(3) assms(3) by (auto simp: h2_touch_def list_all2_conv_all_nth stream_touch_def)
  let ?h = "(stream_update i (\<lambda>_. zero_stream) h')\<lparr>h2_stats := (h2_stats h')\<lparr>active_streams := active_streams (h2_stats h') - 1\<rparr>\<rparr>"
  have ss: "h2_streams ?h = (h2_streams h')[i := zero_stream]" by (simp add: stream_update_def)
  have "h2_slots ?h" by (rule slots_close [OF _ i]) (use inv' in \<open>simp_all add: h2_inv_def h2_core_def stream_update_def\<close>)
  moreover have "h2_scratch ?h" using inv_scratch [OF inv'] by (simp add: h2_scratch_def stream_update_def)
  moreover have "h2_admits ?h" if "h2_admits h'"
  proof -
    have "length (filter (admitted k) (h2_streams ?h)) \<le> length (filter (admitted k) (h2_streams h'))" for k
      using admitted_update [OF i(1), of k zero_stream] unfolding ss by (simp add: admitted_def zero_stream_def split: if_splits)
    then have "length (filter (admitted k) (h2_streams ?h)) \<le> kind_limit h' k" for k using that le_trans unfolding h2_admits_def by blast
    then show ?thesis using kind_limit_cong [of ?h h'] by (simp add: h2_admits_def stream_update_def)
  qed
  moreover have "h2_collects ?h" if "h2_collects h'"
    using that set_update_subset_insert [of "h2_streams h'" i zero_stream] unfolding h2_collects_def ss
    by (auto simp: stream_update_def zero_stream_def)
  ultimately have "h2_inv ?h" using inv' by (simp add: h2_inv_def h2_core_def stream_update_def)
  then show ?thesis using Some cb by (simp add: closed_stream_def h2_good_def Let_def stream_update_def)
qed

lemma read_response_good:
  assumes "ok c" "h2_inv h"
  shows "\<exists>rc bytes eof st. read_response cbs sid cap (c, h) = Some (rc, bytes, eof, st) \<and> h2_good ok st"
proof (cases "find_stream h sid")
  case None
  then have "read_response cbs sid cap (c, h) = Some (NGHTTP2_ERR_TEMPORAL_CALLBACK_FAILURE, [], False, c, h)" by (simp add: read_response_def)
  then show ?thesis using assms by (auto simp: h2_good_def)
next
  case (Some i)
  let ?h = "stream_update i (\<lambda>s. s\<lparr>st_deferred := False\<rparr>) h" and ?cap = "if cap > CF_H2_CHUNK then CF_H2_CHUNK else cap"
  have upd: "h2_inv (stream_update i f h')" if "h2_inv h'" "\<And>s. stream_touch s (f s)" for f h'
    using inv_touch [OF that(1) touch_update [OF that(2)]] .
  have inv: "h2_inv ?h" by (rule upd [OF assms(2)]) (simp add: stream_touch_def)
  then obtain rc bytes eof c' h' where cb: "cb_read_response cbs (c, ?h) sid ?cap = Some (rc, bytes, eof, c', h')" "ok c'" "h2_touch ?h h'"
    using read_ok [OF assms(1), of ?h sid ?cap] by (auto simp: h2_inv_def)
  have inv': "h2_inv h'" using inv_touch [OF inv cb(3)] .
  have "h2_inv (stream_update i (\<lambda>s. s\<lparr>st_deferred := True\<rparr>) h')" "h2_inv (stream_update i (\<lambda>s. s\<lparr>st_progress_ms := t\<rparr>) h')" for t
    by (rule upd [OF inv'], simp add: stream_touch_def)+
  then show ?thesis using Some cb inv' assms
    by (cases "st_reset (h2_streams h ! i)") (auto simp: read_response_def h2_good_def Let_def split del: if_split split: if_split)
qed

lemma event_step_good:
  assumes "ok c" "h2_inv h" "event_ok h e"
  shows "\<exists>rc st. h2_event_step cbs ng e (c, h) = Some (rc, st) \<and> h2_good ok st"
proof (cases e)
  case (Begin_Headers sid req)
  then show ?thesis using assms begin_headers_inv [of h sid req ng] by (simp add: case_prod_unfold h2_good_def Let_def)
next
  case (Header sid name val)
  then show ?thesis using assms on_header_inv [of h ng sid name val] by (auto simp: h2_good_def)
next
  case (Frame_Received f)
  then show ?thesis using assms received_frame_good by simp
next
  case (Data_Received sid data)
  then show ?thesis using assms received_data_good by simp
next
  case (Stream_Closed sid code)
  then show ?thesis using assms closed_stream_good by simp
next
  case (Goaway_Sent code opaque)
  then show ?thesis using assms sent_goaway_inv [of h code opaque] by (auto simp: h2_good_def)
next
  case (Protocol_Error code)
  then show ?thesis using assms protocol_error_inv [of h code] by (simp add: case_prod_unfold h2_good_def Let_def)
next
  case (Invalid_Frame f code)
  then show ?thesis using assms invalid_frame_inv [of h f code] by (simp add: case_prod_unfold h2_good_def Let_def)
next
  case (Read_Response sid cap)
  obtain rc bytes eof c' h' where "read_response cbs sid cap (c, h) = Some (rc, bytes, eof, c', h')" "h2_good ok (c', h')"
    using read_response_good [OF assms(1,2), of sid cap] by auto
  then show ?thesis using Read_Response inv_session [of h'] by (simp add: h2_good_def)
qed

text \<open>A whole sequence of callbacks, each in keeping with the state it meets.\<close>

lemma events_good:
  "ok c \<Longrightarrow> h2_inv h \<Longrightarrow> events_ok cbs ng es (c, h) \<Longrightarrow> \<exists>st. h2_events cbs ng es (c, h) = Some st \<and> h2_good ok st"
proof (induction es arbitrary: c h)
  case (Cons e es)
  obtain rc c' h' where s: "h2_event_step cbs ng e (c, h) = Some (rc, c', h')" "ok c'" "h2_inv h'"
    using event_step_good [OF Cons.prems(1,2), of e] Cons.prems(3) by (auto simp: h2_good_def)
  then show ?case using Cons by (cases "rc = 0") (auto simp: h2_good_def)
qed (simp add: h2_good_def)

end

end
