(* ===== verification/CF_H2_Owner.thy ===== *)
theory CF_H2_Owner
  imports CF_H2
begin

text \<open>
  The HTTP/2 engine under its owner: every operation keeps the engine's invariants, the reachable
  states of the engine as a step relation, the time-outs, and the quota of the accounting allocator.
\<close>

section \<open>Operations outside the callbacks\<close>

lemma new_inv: "h2_inv (h2_new apps limit n)"
  by (simp add: h2_inv_def h2_core_def h2_slots_def h2_scratch_def reason_text_def h2_admits_def h2_collects_def h2_new_def ids_def used_def
      zero_stream_def zero_stats_def admitted_def)

lemma create_new: "cf_h2_create cs room ses apps limit = (CF_OK, Some h) \<Longrightarrow> \<exists>n. h = h2_new apps limit n"
  by (auto simp: cf_h2_create_def split: if_splits option.splits)

lemma resume_touch: "\<exists>rc h'. cf_h2_resume ng (Some h) sid = (rc, Some h') \<and> h2_touch h h'"
proof -
  have t: "h2_touch h (h\<lparr>h2_session := n\<rparr>)" for n by (rule touch_fields [OF h2_touch_refl]) simp_all
  have "h2_touch h (stream_update i (\<lambda>s. s\<lparr>st_deferred := False\<rparr>) (h\<lparr>h2_session := n\<rparr>))" for i n
    by (rule h2_touch_trans [OF t touch_update]) (simp add: stream_touch_def)
  then show ?thesis using t by (auto simp: cf_h2_resume_def Let_def case_prod_unfold split: option.split)
qed

lemma shutdown_touch: "\<exists>rc h'. cf_h2_shutdown ng (Some h) = (rc, Some h') \<and> h2_touch h h'"
  by (auto simp: cf_h2_shutdown_def case_prod_unfold Let_def intro: touch_fields [OF h2_touch_refl])

lemma sent_touch: "\<exists>rc h'. cf_h2_sent (Some h) n = (rc, Some h') \<and> h2_touch h h'"
  by (auto simp: cf_h2_sent_def intro: touch_fields [OF h2_touch_refl])

lemma headers_encode_total:
  assumes "cap \<le> SIZE_MAX" "cap \<le> length m"
  shows "\<exists>rc m' n. cf_headers_encode hs (Some m) cap (Some w) = Some (rc, Some m', Some n) \<and> length m' = length m \<and> n \<le> length m"
proof (cases hs)
  case (Null_Headers n)
  then show ?thesis by (simp add: cf_headers_encode_def)
next
  case (Headers xs)
  let ?t = "hdr_wire (map hdr_of xs)"
  show ?thesis
  proof (cases "length xs \<le> CF_HEADER_COUNT_MAX \<and> list_all hdr_ok xs \<and> hdr_size (map hdr_of xs) \<le> CF_HEADER_DECODED_MAX
       \<and> length ?t \<le> min cap CF_HEADER_WIRE_MAX")
    case True
    then show ?thesis using headers_encode_eq [of "Some m" cap hs xs w] assms Headers by simp
  next
    case False
    then show ?thesis using headers_encode_eq [of "Some m" cap hs xs w] assms Headers by (simp only: if_False) auto
  qed
qed

lemma respond_touch:
  assumes "h2_core h"
  shows "\<exists>rc h'. cf_h2_respond ng (Some h) sid status headers origin = Some (rc, Some h') \<and> h2_touch h h'"
proof -
  have len: "length (h2_serialized h) = CF_HEADER_WIRE_MAX" using assms by (simp add: h2_core_def h2_scratch_def)
  obtain rc m n where e: "cf_headers_encode headers (Some (h2_serialized h)) CF_HEADER_WIRE_MAX (Some 0) = Some (rc, Some m, Some n)"
      "length m = length (h2_serialized h)" "n \<le> length m"
    using headers_encode_total [of CF_HEADER_WIRE_MAX "h2_serialized h" headers 0] len by (auto simp: CF_HEADER_WIRE_MAX_def SIZE_MAX_def)
  have t: "h2_touch h (h\<lparr>h2_serialized := m\<rparr>)" "h2_touch h (h\<lparr>h2_serialized := m, h2_session := ns\<rparr>)" for ns
    by (rule touch_fields [OF h2_touch_refl]; simp add: e(2))+
  have u: "h2_touch h (stream_update i (\<lambda>s. s\<lparr>st_response := True\<rparr>) (h\<lparr>h2_serialized := m, h2_session := ns\<rparr>))" for i ns
    by (rule h2_touch_trans [OF t(2) touch_update]) (simp add: stream_touch_def)
  show ?thesis
    using e t u by (auto simp: cf_h2_respond_def Let_def case_prod_unfold load_n_Some split: option.split cf_headers.split)
qed

lemma touch_length: "h2_touch h h' \<Longrightarrow> length (h2_streams h') = length (h2_streams h)"
  by (auto simp: h2_touch_def dest: list_all2_lengthD)

lemma tick_loop_touch:
  "i + k = length (h2_streams h) \<Longrightarrow> \<exists>h'. tick_loop ng now i k h = Some h' \<and> h2_touch h h'"
proof (induction k arbitrary: i h)
  case (Suc k)
  let ?s = "h2_streams h ! i"
  let ?h = "if stalled now ?s then snd (reset_stream ng h (st_id ?s) NGHTTP2_CANCEL) else h"
  have t: "h2_touch h ?h" by (simp add: reset_touch)
  then have "i + 1 + k = length (h2_streams ?h)" using Suc.prems touch_length [OF t] by simp
  then obtain h' where "tick_loop ng now (i + 1) k ?h = Some h'" "h2_touch ?h h'" using Suc.IH by blast
  then show ?case using Suc.prems h2_touch_trans [OF t] by (simp add: load_Some)
qed simp

lemma tick_touch: "h2_core h \<Longrightarrow> \<exists>h'. cf_h2_tick ng (Some h) now = Some (Some h') \<and> h2_touch h h'"
proof -
  assume c: "h2_core h"
  have n: "h2_touch h (h\<lparr>h2_now_ms := now\<rparr>)" by (rule touch_fields [OF h2_touch_refl]) simp_all
  obtain h' where "tick_loop ng now 0 (CF_H2_APPLICATION_MAX + 2) (h\<lparr>h2_now_ms := now\<rparr>) = Some h'" "h2_touch (h\<lparr>h2_now_ms := now\<rparr>) h'"
    using tick_loop_touch [of 0 "CF_H2_APPLICATION_MAX + 2" "h\<lparr>h2_now_ms := now\<rparr>"] c by (auto simp: h2_core_def h2_slots_def)
  then show ?thesis using h2_touch_trans [OF n] by (auto simp: cf_h2_tick_def)
qed

section \<open>Reachable states\<close>

context h2_application
begin

lemma receive_good:
  assumes "ok c" "h2_inv h" "\<not> bytes_bad input" "events_ok cbs ng (fst (recv (h2_session h) (bytes_list input))) (c, h\<lparr>h2_now_ms := now\<rparr>)"
  shows "\<exists>rc c' h' n. cf_h2_receive cbs ng recv c (Some h) input (Some k) now = Some (rc, c', Some h', Some n) \<and> ok c' \<and> h2_inv h'"
proof -
  let ?h = "h\<lparr>h2_now_ms := now\<rparr>"
  have inv: "h2_inv ?h" by (rule inv_touch [OF assms(2) touch_fields [OF h2_touch_refl]]) simp_all
  obtain es n adv where r: "recv (h2_session h) (bytes_list input) = (es, n, adv)" by (cases "recv (h2_session h) (bytes_list input)") auto
  obtain c' h' where e: "h2_events cbs ng es (c, ?h) = Some (c', h')" "ok c'" "h2_inv h'"
    using events_good [OF assms(1) inv, of es] assms(4) r by (auto simp: h2_good_def)
  have s: "h2_inv (h'\<lparr>h2_session := x\<rparr>)" for x using e(3) by (rule inv_session)
  have "h2_inv (h'\<lparr>h2_session := x, h2_stats := (h2_stats h')\<lparr>last_error := y\<rparr>, h2_error := z\<rparr>)" if "z \<noteq> CF_OK" for x y z
    by (rule inv_touch [OF e(3) touch_fields [OF h2_touch_refl]]) (use that in simp_all)
  then show ?thesis using assms e inv s r
    by (cases n) (auto simp: cf_h2_receive_def Let_def)
qed

lemma output_good:
  assumes "ok c" "h2_inv h" "events_ok cbs ng (fst (send (h2_session h))) (c, h)"
  shows "\<exists>rc c' h' b. cf_h2_output cbs ng send c (Some h) (Some out) = Some (rc, c', Some h', Some b) \<and> ok c' \<and> h2_inv h'"
proof -
  obtain es produce where r: "send (h2_session h) = (es, produce)" by (cases "send (h2_session h)")
  obtain c' h' where e: "h2_events cbs ng es (c, h) = Some (c', h')" "ok c'" "h2_inv h'"
    using events_good [OF assms(1,2), of es] assms(3) r by (auto simp: h2_good_def)
  obtain q n where p: "produce (h2_session h') = (q, n)" by (cases "produce (h2_session h')")
  have "h2_inv (h'\<lparr>h2_session := n, h2_pending := bs\<rparr>)" for bs
    by (rule inv_touch [OF e(3) touch_fields [OF h2_touch_refl]]) simp_all
  moreover have "h2_inv (h'\<lparr>h2_session := n, h2_stats := (h2_stats h')\<lparr>last_error := y\<rparr>, h2_error := z\<rparr>)" if "z \<noteq> CF_OK" for y z
    by (rule inv_touch [OF e(3) touch_fields [OF h2_touch_refl]]) (use that in simp_all)
  ultimately show ?thesis using assms e r p
    by (cases q) (auto simp: cf_h2_output_def Let_def)
qed

end

text \<open>
  One operation of the owner; \<open>recv\<close> and \<open>send\<close> are any reaction of nghttp2 whose callbacks it may make.
\<close>

inductive h2_step :: "('c, 'n) cf_h2_callbacks \<Rightarrow> 'n nghttp2 \<Rightarrow> 'c \<times> 'n cf_h2 \<Rightarrow> 'c \<times> 'n cf_h2 \<Rightarrow> bool"
  for cbs :: "('c, 'n) cf_h2_callbacks" and ng :: "'n nghttp2" where
  Receive: "\<lbrakk>\<not> bytes_bad input; events_ok cbs ng (fst (recv (h2_session h) (bytes_list input))) (c, h\<lparr>h2_now_ms := now\<rparr>);
     cf_h2_receive cbs ng recv c (Some h) input (Some k) now = Some (rc, c', Some h', n)\<rbrakk> \<Longrightarrow> h2_step cbs ng (c, h) (c', h')"
| Output: "\<lbrakk>events_ok cbs ng (fst (send (h2_session h))) (c, h);
     cf_h2_output cbs ng send c (Some h) (Some out) = Some (rc, c', Some h', b)\<rbrakk> \<Longrightarrow> h2_step cbs ng (c, h) (c', h')"
| Sent: "cf_h2_sent (Some h) k = (rc, Some h') \<Longrightarrow> h2_step cbs ng (c, h) (c, h')"
| Reset: "cf_h2_reset ng (Some h) sid e = (rc, Some h') \<Longrightarrow> h2_step cbs ng (c, h) (c, h')"
| Respond: "cf_h2_respond ng (Some h) sid status headers origin = Some (rc, Some h') \<Longrightarrow> h2_step cbs ng (c, h) (c, h')"
| Resume: "cf_h2_resume ng (Some h) sid = (rc, Some h') \<Longrightarrow> h2_step cbs ng (c, h) (c, h')"
| Shutdown: "cf_h2_shutdown ng (Some h) = (rc, Some h') \<Longrightarrow> h2_step cbs ng (c, h) (c, h')"
| Tick: "cf_h2_tick ng (Some h) now = Some (Some h') \<Longrightarrow> h2_step cbs ng (c, h) (c, h')"

inductive_cases h2_stepE: "h2_step cbs ng st st'"

context h2_application
begin

lemma step_good:
  assumes "h2_step cbs ng (c, h) (c', h')" "ok c" "h2_inv h"
  shows "ok c' \<and> h2_inv h'"
  using assms(1)
proof (cases rule: h2_step.cases)
  case (Receive input recv now k rc n)
  then show ?thesis using receive_good [of c h input recv now k] assms(2,3) by auto
next
  case (Output send out rc b)
  then show ?thesis using output_good [of c h send out] assms(2,3) by auto
next
  case (Sent k rc)
  then show ?thesis using sent_touch [of h k] inv_touch [OF assms(3)] assms(2) by auto
next
  case (Reset sid e rc)
  then show ?thesis using reset_touch [of h ng sid e] inv_touch [OF assms(3)] assms(2) by (auto simp: cf_h2_reset_def case_prod_unfold Let_def)
next
  case (Respond sid status headers origin rc)
  then show ?thesis using respond_touch [of h ng sid status headers origin] inv_touch [OF assms(3)] assms(2,3) by (auto simp: h2_inv_def)
next
  case (Resume sid rc)
  then show ?thesis using resume_touch [of ng h sid] inv_touch [OF assms(3)] assms(2) by auto
next
  case (Shutdown rc)
  then show ?thesis using shutdown_touch [of ng h] inv_touch [OF assms(3)] assms(2) by auto
next
  case (Tick now)
  then show ?thesis using tick_touch [of h ng now] inv_touch [OF assms(3)] assms(2,3) by (auto simp: h2_inv_def)
qed

lemma destroy_loop_good:
  "ok c \<Longrightarrow> h2_core h \<Longrightarrow> i + k = length (h2_streams h) \<Longrightarrow> \<exists>c' h'. destroy_loop cbs i k (c, h) = Some (c', h') \<and> ok c'"
proof (induction k arbitrary: i c h)
  case (Suc k)
  let ?s = "h2_streams h ! i"
  obtain c' h' where cb: "(if st_id ?s \<noteq> 0 then cb_closed cbs (c, h) (st_id ?s) NGHTTP2_CANCEL else Some (c, h)) = Some (c', h')"
      "ok c'" "h2_touch h h'"
    using closed_ok [OF Suc.prems(1,2), of "st_id ?s" NGHTTP2_CANCEL] Suc.prems(1) by (cases "st_id ?s = 0") auto
  obtain c'' h'' where "destroy_loop cbs (i + 1) k (c', h') = Some (c'', h'')" "ok c''"
    using Suc.IH [of c' h' "i + 1"] cb core_touch [OF Suc.prems(2) cb(3)] touch_length [OF cb(3)] Suc.prems(3) by auto
  then show ?case using cb(1) Suc.prems(3) by (simp add: load_Some)
qed simp

lemma destroy_good: "ok c \<Longrightarrow> h2_inv h \<Longrightarrow> \<exists>c'. cf_h2_destroy cbs c (Some h) = Some c' \<and> ok c'"
  using destroy_loop_good [of c h 0 "CF_H2_APPLICATION_MAX + 2"] by (auto simp: cf_h2_destroy_def h2_inv_def h2_core_def h2_slots_def)

lemma reach_good: "(h2_step cbs ng)\<^sup>*\<^sup>* st st' \<Longrightarrow> h2_good ok st \<Longrightarrow> h2_good ok st'"
proof (induction rule: rtranclp_induct)
  case (step a b)
  then show ?case using step_good [of "fst a" "snd a" "fst b" "snd b"] by (simp add: h2_good_def)
qed

end

section \<open>Time-outs\<close>

text \<open>What a tick does to a slot.\<close>

definition tick_stream :: "u64 \<Rightarrow> h2_stream \<Rightarrow> h2_stream" where
  "tick_stream now s = (if stalled now s then s\<lparr>st_reset := True\<rparr> else s)"

lemma reset_exact:
  assumes "h2_slots h" "i < length (h2_streams h)" "st_id (h2_streams h ! i) \<noteq> 0" "\<not> st_reset (h2_streams h ! i)"
    "h2_error (snd (reset_stream ng h (st_id (h2_streams h ! i)) e)) = CF_OK"
  shows "h2_streams (snd (reset_stream ng h (st_id (h2_streams h ! i)) e)) = (h2_streams h)[i := (h2_streams h ! i)\<lparr>st_reset := True\<rparr>]"
    and "h2_stats (snd (reset_stream ng h (st_id (h2_streams h ! i)) e)) = (h2_stats h)\<lparr>rejected_streams := rejected_streams (h2_stats h) + 1\<rparr>"
    and "h2_error h = CF_OK"
proof -
  let ?sid = "st_id (h2_streams h ! i)"
  have "find_stream h ?sid \<noteq> None"
    using find_index_None [of "\<lambda>s. st_id s = ?sid" 0 "h2_streams h" "h2_streams h ! i"] assms(2) by (auto simp: find_stream_def)
  then obtain j where j: "find_stream h ?sid = Some j" by blast
  have "j = i" using ids_unique [of "h2_streams h" j i] find_stream_Some [OF j] assms(1-3) by (simp add: h2_slots_def)
  moreover have "h2_error h = CF_OK" using reset_touch [of h ng ?sid e] assms(5) by (auto simp: h2_touch_def)
  ultimately show "h2_streams (snd (reset_stream ng h ?sid e)) = (h2_streams h)[i := (h2_streams h ! i)\<lparr>st_reset := True\<rparr>]"
      "h2_stats (snd (reset_stream ng h ?sid e)) = (h2_stats h)\<lparr>rejected_streams := rejected_streams (h2_stats h) + 1\<rparr>" "h2_error h = CF_OK"
    using assms(4,5) j by (auto simp: reset_stream_def Let_def stream_update_def case_prod_unfold split: if_splits)
qed

lemma slots_touch: "h2_slots h \<Longrightarrow> h2_touch h h' \<Longrightarrow> h2_slots h'"
  unfolding h2_slots_def h2_touch_def by (auto simp: ids_touch dest: list_all2_lengthD)

lemma tick_loop_exact:
  assumes "h2_slots h" "i + k = length (h2_streams h)" "tick_loop ng now i k h = Some h'" "h2_error h' = CF_OK"
  shows "h2_streams h' = take i (h2_streams h) @ map (tick_stream now) (drop i (h2_streams h)) \<and> rejected_streams (h2_stats h')
     = rejected_streams (h2_stats h) + word_of_nat (length (filter (stalled now) (drop i (h2_streams h))))"
  using assms
proof (induction k arbitrary: i h)
  case (Suc k)
  let ?s = "h2_streams h ! i"
  define g where "g = (if stalled now ?s then snd (reset_stream ng h (st_id ?s) NGHTTP2_CANCEL) else h)"
  have i: "i < length (h2_streams h)" using Suc.prems by simp
  have t: "h2_touch h g" by (simp add: g_def reset_touch)
  have run: "tick_loop ng now (i + 1) k g = Some h'" using Suc.prems(3) i by (simp add: load_Some g_def)
  have len: "i + 1 + k = length (h2_streams g)" using Suc.prems(2) touch_length [OF t] by simp
  obtain h'' where "tick_loop ng now (i + 1) k g = Some h''" "h2_touch g h''" using tick_loop_touch [OF len] by blast
  then have err: "h2_error g = CF_OK" using run Suc.prems(4) by (auto simp: h2_touch_def)
  have g: "h2_streams g = (h2_streams h)[i := tick_stream now ?s]
      \<and> rejected_streams (h2_stats g) = rejected_streams (h2_stats h) + (if stalled now ?s then 1 else 0)"
  proof (cases "stalled now ?s")
    case True
    then have "st_id ?s \<noteq> 0" "\<not> st_reset ?s" "g = snd (reset_stream ng h (st_id ?s) NGHTTP2_CANCEL)" by (simp_all add: stalled_def g_def)
    then show ?thesis using reset_exact [OF Suc.prems(1) i] err True by (simp add: tick_stream_def)
  qed (simp add: g_def tick_stream_def)
  have "drop i (h2_streams h) = ?s # drop (i + 1) (h2_streams h)" using i by (simp add: Cons_nth_drop_Suc)
  moreover have "take (i + 1) (h2_streams g) = take i (h2_streams h) @ [tick_stream now ?s]" "drop (i + 1) (h2_streams g) = drop (i + 1) (h2_streams h)"
    using g i by (simp_all add: take_Suc_conv_app_nth)
  ultimately show ?case using Suc.IH [OF slots_touch [OF Suc.prems(1) t] len run Suc.prems(4)] g by (simp add: add.assoc)
qed simp

section \<open>The quota of the allocator\<close>

text \<open>
  What nghttp2 asks of the allocator; blocks are named by their position among the live ones. The
  answer of \<open>malloc\<close> is part of the operation.
\<close>

datatype heap_op = Malloc nat "mem option" | Calloc nat nat "mem option" | Free "nat option" | Realloc "nat option" nat "mem option"

definition block_at :: "h2_block list \<Rightarrow> nat option \<Rightarrow> h2_block option" where
  "block_at live p = (case p of None \<Rightarrow> None | Some i \<Rightarrow> Some (live ! i))"

definition drop_at :: "h2_block list \<Rightarrow> nat option \<Rightarrow> h2_block list" where
  "drop_at live p = (case p of None \<Rightarrow> live | Some i \<Rightarrow> take i live @ drop (i + 1) live)"

definition add_block :: "h2_block option \<Rightarrow> h2_block list \<Rightarrow> h2_block list" where
  "add_block b live = (case b of None \<Rightarrow> live | Some b \<Rightarrow> live @ [b])"

fun heap_step :: "nat \<Rightarrow> heap_op \<Rightarrow> h2_block list \<times> cf_h2_stats \<Rightarrow> h2_block list \<times> cf_h2_stats" where
  "heap_step header (Malloc n got) (live, s) = (let (b, s) = h2_allocate header got n s in (add_block b live, s))"
| "heap_step header (Calloc n sz got) (live, s) = (let (b, s) = h2_zero_allocate header got n sz s in (add_block b live, s))"
| "heap_step header (Free p) (live, s) = (drop_at live p, h2_deallocate (block_at live p) s)"
| "heap_step header (Realloc p n got) (live, s) =
     (let (_, kept, s) = h2_resize header got (block_at live p) n s in (add_block kept (drop_at live p), s))"

text \<open>Callers pass live blocks, and \<open>malloc\<close> returns a block of the size it was asked for.\<close>

fun heap_op_ok :: "h2_block list \<Rightarrow> heap_op \<Rightarrow> bool" where
  "heap_op_ok live (Malloc n got) \<longleftrightarrow> (\<forall>m. got = Some m \<longrightarrow> length m = n)"
| "heap_op_ok live (Calloc n sz got) \<longleftrightarrow> (\<forall>m. got = Some m \<longrightarrow> length m = n * sz)"
| "heap_op_ok live (Free p) \<longleftrightarrow> (\<forall>i. p = Some i \<longrightarrow> i < length live)"
| "heap_op_ok live (Realloc p n got) \<longleftrightarrow> (\<forall>i. p = Some i \<longrightarrow> i < length live) \<and> (\<forall>m. got = Some m \<longrightarrow> length m = n)"

text \<open>The books balance: the blocks have the size they record and the sizes add up to the total.\<close>

definition heap_ok :: "nat \<Rightarrow> h2_block list \<times> cf_h2_stats \<Rightarrow> bool" where
  "heap_ok header st \<longleftrightarrow> (case st of (live, s) \<Rightarrow> header \<le> ngheap_limit s \<and> ngheap_limit s \<le> CF_H2_NGHEAP_MAX
     \<and> list_all (\<lambda>(tot, m). tot = header + length m) live \<and> sum_list (map fst live) = ngheap_current s
     \<and> ngheap_current s \<le> ngheap_peak s \<and> ngheap_peak s \<le> ngheap_limit s)"

lemma allocate_ok:
  assumes "heap_ok header (live, s)" "\<forall>m. got = Some m \<longrightarrow> length m = n"
  shows "\<exists>b s'. h2_allocate header got n s = (b, s') \<and> heap_ok header (add_block b live, s') \<and> ngheap_limit s' = ngheap_limit s
    \<and> (\<forall>tot m. b = Some (tot, m) \<longrightarrow> length m = n \<and> got = Some m)"
proof -
  have lim: "size_sub (ngheap_limit s) header = ngheap_limit s - header" "size_sub (ngheap_limit s) (ngheap_current s) = ngheap_limit s - ngheap_current s"
    using assms(1) by (simp_all add: heap_ok_def size_sub_def)
  have w: "size_wrap (n + header) = n + header" if "n \<le> ngheap_limit s - header"
    using that assms(1) by (intro size_wrap_id) (auto simp: heap_ok_def CF_H2_NGHEAP_MAX_def SIZE_MAX_def)
  show ?thesis using assms w
    by (auto simp: h2_allocate_def lim Let_def heap_ok_def add_block_def split: option.split)
qed

lemma deallocate_ok:
  assumes "heap_ok header (live, s)" "\<forall>i. p = Some i \<longrightarrow> i < length live"
  shows "heap_ok header (drop_at live p, h2_deallocate (block_at live p) s)"
proof (cases p)
  case (Some i)
  then have i: "i < length live" using assms(2) by simp
  have live: "live = take i live @ live ! i # drop (i + 1) live" using i by (simp add: id_take_nth_drop)
  obtain tot m where b: "live ! i = (tot, m)" by fastforce
  have sum: "sum_list (map fst live) = sum_list (map fst (take i live)) + tot + sum_list (map fst (drop (i + 1) live))"
    by (subst live) (simp add: b)
  have "list_all (\<lambda>(tot, m). tot = header + length m) (take i live) \<and> list_all (\<lambda>(tot, m). tot = header + length m) (drop (i + 1) live)"
    using assms(1) by (auto simp: heap_ok_def list_all_iff dest: in_set_takeD in_set_dropD)
  then show ?thesis using assms(1) Some b sum by (auto simp: heap_ok_def drop_at_def block_at_def h2_deallocate_def size_sub_def)
qed (use assms in \<open>simp add: drop_at_def block_at_def h2_deallocate_def\<close>)

lemma deallocate_limit [simp]: "ngheap_limit (h2_deallocate p s) = ngheap_limit s"
  by (simp add: h2_deallocate_def split: option.split)

lemma add_block_drop:
  "i < length live \<Longrightarrow> drop_at (add_block (Some b) live) (Some i) = add_block (Some b) (drop_at live (Some i))"
  by (simp add: drop_at_def add_block_def)

lemma heap_ok_payload:
  "heap_ok header (live @ [(tot, m)], s) \<Longrightarrow> length m' = length m \<Longrightarrow> heap_ok header (live @ [(tot, m')], s)"
  by (simp add: heap_ok_def)

lemma block_payload: "heap_ok header (live, s) \<Longrightarrow> i < length live \<Longrightarrow> live ! i = (tot, m) \<Longrightarrow> tot = header + length m"
  by (auto simp: heap_ok_def list_all_length)

lemma resize_ok:
  assumes "heap_ok header (live, s)" "i < length live" "\<forall>m. got = Some m \<longrightarrow> length m = n" "n \<noteq> 0"
  shows "\<exists>r kept s'. h2_resize header got (Some (live ! i)) n s = (r, kept, s') \<and> heap_ok header (add_block kept (drop_at live (Some i)), s')
    \<and> ngheap_limit s' = ngheap_limit s"
proof -
  obtain tot m where b: "live ! i = (tot, m)" by fastforce
  have tot: "tot = header + length m" using block_payload [OF assms(1,2) b] .
  obtain nb s' where a: "h2_allocate header got n s = (nb, s')" "heap_ok header (add_block nb live, s')" "ngheap_limit s' = ngheap_limit s"
      "\<forall>tot m. nb = Some (tot, m) \<longrightarrow> length m = n \<and> got = Some m"
    using allocate_ok [OF assms(1,3)] by blast
  show ?thesis
  proof (cases nb)
    case None
    have live: "live = take i live @ live ! i # drop (i + 1) live" using assms(2) by (simp add: id_take_nth_drop)
    have "heap_ok header (add_block (Some (live ! i)) (drop_at live (Some i)), s')"
      using a(2) None by (subst (asm) live) (simp add: heap_ok_def add_block_def drop_at_def b)
    then show ?thesis using a None b assms(4) by (simp add: h2_resize_def Let_def)
  next
    case (Some x)
    obtain tot' fresh where x: "x = (tot', fresh)" by fastforce
    define k where "k = (if length m < n then length m else n)"
    have len: "length (take k m @ drop k fresh) = length fresh" using a(4) Some x by (auto simp: k_def)
    have "heap_ok header (drop_at (add_block (Some x) live) (Some i), h2_deallocate (block_at (add_block (Some x) live) (Some i)) s')"
      by (rule deallocate_ok) (use a(2) Some assms(2) in \<open>simp_all add: add_block_def\<close>)
    then have "heap_ok header (drop_at live (Some i) @ [(tot', fresh)], h2_deallocate (Some (live ! i)) s')"
      using assms(2) x add_block_drop [OF assms(2), of x] by (simp add: block_at_def add_block_def nth_append)
    from heap_ok_payload [OF this len]
    have "heap_ok header (add_block (Some (tot', take k m @ drop k fresh)) (drop_at live (Some i)), h2_deallocate (Some (live ! i)) s')"
      by (simp add: add_block_def)
    moreover have "h2_resize header got (Some (live ! i)) n s
        = (Some (tot', take k m @ drop k fresh), Some (tot', take k m @ drop k fresh), h2_deallocate (Some (live ! i)) s')"
      using a(1) Some x b assms(4) tot by (simp add: h2_resize_def Let_def size_sub_def k_def)
    ultimately show ?thesis using a(3) by simp
  qed
qed

lemma heap_step_ok:
  assumes "heap_ok header (live, s)" "heap_op_ok live x"
  shows "heap_ok header (heap_step header x (live, s)) \<and> ngheap_limit (snd (heap_step header x (live, s))) = ngheap_limit s"
proof (cases x)
  case (Malloc n got)
  then show ?thesis using allocate_ok [OF assms(1), of got n] assms(2) by auto
next
  case (Free p)
  then show ?thesis using deallocate_ok [OF assms(1), of p] assms(2) by simp
next
  case (Calloc n sz got)
  show ?thesis
  proof (cases "n \<noteq> 0 \<and> sz > SIZE_MAX div n")
    case True
    then show ?thesis using Calloc assms by (simp add: h2_zero_allocate_def add_block_def)
  next
    case False
    have "n * sz \<le> SIZE_MAX"
    proof (cases "n = 0")
      case n: False
      then have "sz \<le> SIZE_MAX div n" using False by simp
      then show ?thesis using n by (metis dual_order.trans mult.commute mult_le_mono1 times_div_less_eq_dividend)
    qed simp
    then have w: "size_wrap (n * sz) = n * sz" by simp
    obtain b s' where a: "h2_allocate header got (n * sz) s = (b, s')" "heap_ok header (add_block b live, s')" "ngheap_limit s' = ngheap_limit s"
      using allocate_ok [OF assms(1), of got "n * sz"] assms(2) Calloc by auto
    have "heap_ok header (add_block (map_option (\<lambda>(tot, payload). (tot, replicate (length payload) 0)) b) live, s')"
      using a(2) heap_ok_payload by (cases b) (auto simp: add_block_def)
    moreover have "h2_zero_allocate header got n sz s = (map_option (\<lambda>(tot, payload). (tot, replicate (length payload) 0)) b, s')"
      unfolding h2_zero_allocate_def if_not_P [OF False] w a(1) by simp
    ultimately show ?thesis using a(3) Calloc by simp
  qed
next
  case (Realloc p n got)
  show ?thesis
  proof (cases p)
    case None
    then show ?thesis using allocate_ok [OF assms(1), of got n] assms(2) Realloc
      by (auto simp: h2_resize_def block_at_def drop_at_def)
  next
    case (Some i)
    then have i: "i < length live" "\<forall>m. got = Some m \<longrightarrow> length m = n" using assms(2) Realloc by simp_all
    show ?thesis
    proof (cases "n = 0")
      case True
      obtain tot m where "live ! i = (tot, m)" by fastforce
      then show ?thesis using deallocate_ok [OF assms(1), of p] Some i True Realloc
        by (simp add: h2_resize_def block_at_def add_block_def)
    next
      case False
      then show ?thesis using resize_ok [OF assms(1) i] Some Realloc by (auto simp: block_at_def)
    qed
  qed
qed

text \<open>A history of requests, each valid when it is made.\<close>

fun heap_run :: "nat \<Rightarrow> heap_op list \<Rightarrow> h2_block list \<times> cf_h2_stats \<Rightarrow> (h2_block list \<times> cf_h2_stats) option" where
  "heap_run header [] st = Some st"
| "heap_run header (x # xs) st = (if heap_op_ok (fst st) x then heap_run header xs (heap_step header x st) else None)"

lemma heap_run_ok:
  "heap_ok header st \<Longrightarrow> heap_run header xs st = Some st' \<Longrightarrow> heap_ok header st' \<and> ngheap_limit (snd st') = ngheap_limit (snd st)"
proof (induction xs arbitrary: st)
  case (Cons x xs)
  let ?st = "heap_step header x st"
  have "heap_ok header ?st \<and> ngheap_limit (snd ?st) = ngheap_limit (snd st)" "heap_run header xs ?st = Some st'"
    using Cons.prems heap_step_ok [of header "fst st" "snd st" x] by (auto split: if_splits)
  then show ?case using Cons.IH [of ?st] by simp
qed simp

section \<open>Properties\<close>

text \<open>C38. The quota. Whatever nghttp2 allocates, clears, resizes and frees, in any order and with any
  failures of the system's \<open>malloc\<close>, the engine's books balance: the recorded total is the sum of the
  sizes of the live blocks with their headers, and neither it nor its peak ever exceeds the limit given at creation.\<close>

theorem h2_heap_quota:
  assumes "cf_h2_create cs room ses apps limit = (CF_OK, Some h)" "header \<le> 8192"
    "heap_run header xs ([], h2_stats h) = Some (live, s)"
  shows "ngheap_current s = sum_list (map (\<lambda>(tot, m). header + length m) live) \<and> ngheap_current s \<le> ngheap_peak s
    \<and> ngheap_peak s \<le> limit"
proof -
  obtain n where h: "h = h2_new apps limit n" using create_new [OF assms(1)] by blast
  have lim: "8192 \<le> limit" "limit \<le> CF_H2_NGHEAP_MAX" using assms(1) by (auto simp: cf_h2_create_def split: if_splits)
  have "heap_ok header ([], h2_stats h)" using lim assms(2) by (simp add: heap_ok_def h h2_new_def zero_stats_def)
  from heap_run_ok [OF this assms(3)] have ok: "heap_ok header (live, s)" "ngheap_limit s = limit"
    by (simp_all add: h h2_new_def zero_stats_def)
  have eq: "map (\<lambda>(tot, m). header + length m) live = map fst live" using ok(1) by (auto simp: heap_ok_def list_all_iff)
  show ?thesis unfolding eq using ok by (simp add: heap_ok_def)
qed

theorem h2_heap_quota_witness:
  "\<exists>live s. heap_run 16 [Malloc 2 (Some [1, 2]), Realloc (Some 0) 4 (Some [0, 0, 0, 0]), Malloc 9000 (Some (replicate 9000 0)), Free (Some 0)]
       ([], h2_stats (h2_new 2 8192 ())) = Some (live, s) \<and> ngheap_current s = sum_list (map (\<lambda>(tot, m). 16 + length m) live) \<and> ngheap_peak s \<le> 8192"
proof -
  let ?xs = "[Malloc 2 (Some [1, 2]), Realloc (Some 0) 4 (Some [0, 0, 0, 0]), Malloc 9000 (Some (replicate 9000 0)), Free (Some 0)]"
  have c: "cf_h2_create True True (Some ()) 2 8192 = (CF_OK, Some (h2_new 2 8192 ()))" by (simp add: cf_h2_create_def CF_H2_NGHEAP_MAX_def)
  have "heap_run 16 ?xs ([], h2_stats (h2_new 2 8192 ())) \<noteq> None"
    by (simp add: h2_allocate_def h2_resize_def h2_deallocate_def h2_new_def zero_stats_def size_sub_def size_wrap_def
        add_block_def drop_at_def block_at_def Let_def)
  then obtain live s where r: "heap_run 16 ?xs ([], h2_stats (h2_new 2 8192 ())) = Some (live, s)" by auto
  show ?thesis using r h2_heap_quota [OF c _ r] by auto
qed

text \<open>C1. Admission. In every state that the engine reaches by any sequence of its owner's operations and of
  callbacks of nghttp2, with any application that acts on the engine through its operations: as long as the engine has not
  failed, at most as many admitted application streams are open as its limit, and at most one control and one
  configuration stream; the six slots hold different streams, and the statistics count exactly them.\<close>

theorem h2_admission:
  assumes "h2_application cbs ok" "ok c" "cf_h2_create cs room ses apps limit = (CF_OK, Some h)" "(h2_step cbs ng)\<^sup>*\<^sup>* (c, h) (c', h')"
  shows "(h2_error h' = CF_OK \<longrightarrow> length (filter (admitted CF_H2_HTTP) (h2_streams h')) \<le> h2_app_limit h'
        \<and> length (filter (admitted CF_H2_CONTROL) (h2_streams h')) \<le> 1 \<and> length (filter (admitted CF_H2_CONFIG) (h2_streams h')) \<le> 1)
    \<and> length (h2_streams h') = 6 \<and> distinct (ids (h2_streams h')) \<and> unat (active_streams (h2_stats h')) = length (ids (h2_streams h'))"
proof -
  have "h2_good ok (c, h)" using create_new [OF assms(3)] new_inv assms(2) by (auto simp: h2_good_def)
  then have inv: "h2_inv h'" using h2_application.reach_good [OF assms(1,4)] by (simp add: h2_good_def)
  have "length (filter (admitted k) (h2_streams h')) \<le> kind_limit h' k" if "h2_error h' = CF_OK" for k
    using inv that by (simp add: h2_inv_def h2_admits_def)
  from this [of CF_H2_HTTP] this [of CF_H2_CONTROL] this [of CF_H2_CONFIG] show ?thesis
    using inv by (simp add: kind_limit_def h2_inv_def h2_core_def h2_slots_def CF_H2_APPLICATION_MAX_def)
qed

text \<open>An application that accepts everything, and an nghttp2 that never fails.\<close>

definition accepting :: "(unit, unit) cf_h2_callbacks" where
  "accepting = \<lparr>cb_request = \<lambda>(c, h) r. Some (CF_OK, c, h), cb_data = \<lambda>(c, h) sid b fin. Some (CF_OK, c, h),
     cb_read_response = \<lambda>(c, h) sid cap. Some (CF_OK, [], True, c, h), cb_closed = \<lambda>st sid e. Some st\<rparr>"

definition willing :: "unit nghttp2" where
  "willing = \<lparr>ng_submit_rst_stream = \<lambda>n sid e. (0, n), ng_session_consume = \<lambda>n sid k. (0, n),
     ng_session_consume_connection = \<lambda>n k. (0, n), ng_submit_response2 = \<lambda>n sid vs. (0, n), ng_session_resume_data = \<lambda>n sid. (0, n),
     ng_submit_goaway = \<lambda>n. (0, n), ng_read_reply = \<lambda>n rc bs eof. n\<rparr>"

lemma accepting_application: "h2_application accepting (\<lambda>_. True)"
  by unfold_locales (auto simp: accepting_def)

definition request_frame :: h2_frame where
  "request_frame = \<lparr>fh_type = F_HEADERS, fh_stream = 1, fh_ack = False, fh_end_stream = True, fh_goaway_error = 0, fh_goaway_last = 0\<rparr>"

definition sample_recv :: "unit \<Rightarrow> u8 list \<Rightarrow> h2_event list \<times> (int + nat) \<times> (unit \<Rightarrow> unit)" where
  "sample_recv n xs = ([Begin_Headers 1 True, Frame_Received request_frame], Inr (length xs), \<lambda>n. n)"

lemma sample_create: "cf_h2_create True True (Some ()) 2 8192 = (CF_OK, Some (h2_new 2 8192 ()))"
  by (simp add: cf_h2_create_def CF_H2_NGHEAP_MAX_def)

lemma sample_step: "\<exists>h'. h2_step accepting willing ((), h2_new 2 8192 ()) ((), h')"
proof -
  let ?h = "h2_new 2 8192 ()"
  have e: "events_ok accepting willing (fst (sample_recv (h2_session ?h) (bytes_list (Bytes [1])))) ((), ?h\<lparr>h2_now_ms := 5\<rparr>)"
    by (simp add: sample_recv_def request_frame_def h2_new_def ids_def used_def zero_stream_def case_prod_unfold split: option.split)
  then obtain rc h' n where "cf_h2_receive accepting willing sample_recv () (Some ?h) (Bytes [1]) (Some 0) 5 = Some (rc, (), Some h', Some n)"
    using h2_application.receive_good [OF accepting_application, where c = "()" and h = ?h and input = "Bytes [1]" and ng = willing and recv = sample_recv and now = 5 and k = 0] new_inv [of 2 8192 "()"] e
    by auto
  then show ?thesis using h2_step.Receive [where input = "Bytes [1]" and cbs = accepting and ng = willing and recv = sample_recv and h = ?h and c = "()" and now = 5 and k = 0] e by auto
qed

theorem h2_admission_witness:
  "\<exists>h'. h2_step accepting willing ((), h2_new 2 8192 ()) ((), h') \<and> length (h2_streams h') = 6 \<and> distinct (ids (h2_streams h'))"
proof -
  obtain h' where st: "h2_step accepting willing ((), h2_new 2 8192 ()) ((), h')" using sample_step by blast
  show ?thesis using st h2_admission [OF accepting_application _ sample_create r_into_rtranclp [of "h2_step accepting willing", OF st]] by blast
qed

text \<open>C2. The engine never reads or writes outside its arrays: in every reachable state, receiving any input, producing
  output, responding, the time-outs and the destruction all run to their end.\<close>

theorem h2_engine_safe:
  assumes "h2_application cbs ok" "ok c" "cf_h2_create cs room ses apps limit = (CF_OK, Some h)" "(h2_step cbs ng)\<^sup>*\<^sup>* (c, h) (c', h')"
  shows "(\<forall>recv xs now k. events_ok cbs ng (fst (recv (h2_session h') xs)) (c', h'\<lparr>h2_now_ms := now\<rparr>) \<longrightarrow>
           cf_h2_receive cbs ng recv c' (Some h') (Bytes xs) (Some k) now \<noteq> None)
    \<and> (\<forall>send out. events_ok cbs ng (fst (send (h2_session h'))) (c', h') \<longrightarrow> cf_h2_output cbs ng send c' (Some h') (Some out) \<noteq> None)
    \<and> (\<forall>sid status headers origin. cf_h2_respond ng (Some h') sid status headers origin \<noteq> None)
    \<and> (\<forall>now. cf_h2_tick ng (Some h') now \<noteq> None) \<and> cf_h2_destroy cbs c' (Some h') \<noteq> None"
proof -
  have "h2_good ok (c, h)" using create_new [OF assms(3)] new_inv assms(2) by (auto simp: h2_good_def)
  then have good: "ok c'" "h2_inv h'" using h2_application.reach_good [OF assms(1,4)] by (simp_all add: h2_good_def)
  have core: "h2_core h'" using good(2) by (simp add: h2_inv_def)
  have "cf_h2_receive cbs ng recv c' (Some h') (Bytes xs) (Some k) now \<noteq> None"
    if "events_ok cbs ng (fst (recv (h2_session h') xs)) (c', h'\<lparr>h2_now_ms := now\<rparr>)" for recv xs now k
    using h2_application.receive_good [OF assms(1) good, where input = "Bytes xs" and ng = ng and recv = recv and now = now and k = k] that by auto
  moreover have "cf_h2_output cbs ng send c' (Some h') (Some out) \<noteq> None" if "events_ok cbs ng (fst (send (h2_session h'))) (c', h')" for send out
    using h2_application.output_good [OF assms(1) good, where ng = ng and send = send and out = out] that by auto
  moreover have "cf_h2_respond ng (Some h') sid status headers origin \<noteq> None" for sid status headers origin
    using respond_touch [OF core, of ng sid status headers origin] by auto
  moreover have "cf_h2_tick ng (Some h') now \<noteq> None" for now using tick_touch [OF core, of ng now] by auto
  moreover have "cf_h2_destroy cbs c' (Some h') \<noteq> None" using h2_application.destroy_good [OF assms(1) good] by auto
  ultimately show ?thesis by blast
qed

theorem h2_engine_safe_witness:
  "\<exists>h'. h2_step accepting willing ((), h2_new 2 8192 ()) ((), h') \<and> cf_h2_respond willing (Some h') 1 200 (Null_Headers 0) True \<noteq> None
     \<and> cf_h2_destroy accepting () (Some h') \<noteq> None"
proof -
  obtain h' where st: "h2_step accepting willing ((), h2_new 2 8192 ()) ((), h')" using sample_step by blast
  have "cf_h2_respond willing (Some h') 1 200 (Null_Headers 0) True \<noteq> None \<and> cf_h2_destroy accepting () (Some h') \<noteq> None"
    using h2_engine_safe [OF accepting_application _ sample_create r_into_rtranclp [of "h2_step accepting willing", OF st]] by blast
  then show ?thesis using st by blast
qed

text \<open>Time-outs. A tick that does not run out of memory resets exactly the streams that stalled: those in use and not
  yet reset whose last progress is more than 15 s old, the admitted control stream excepted; it counts them as
  rejected and leaves every other slot as it was.\<close>

theorem h2_tick_exact:
  assumes "h2_inv h" "cf_h2_tick ng (Some h) now = Some (Some h')" "h2_error h' = CF_OK"
  shows "h2_streams h' = map (\<lambda>s. if st_id s \<noteq> 0 \<and> \<not> st_reset s \<and> (\<not> st_headers_done s \<or> st_kind s \<noteq> CF_H2_CONTROL)
             \<and> unat now > unat (st_progress_ms s) + 15000 then s\<lparr>st_reset := True\<rparr> else s) (h2_streams h)
    \<and> rejected_streams (h2_stats h') = rejected_streams (h2_stats h) + word_of_nat (length (filter (stalled now) (h2_streams h)))"
proof -
  have sl: "h2_slots (h\<lparr>h2_now_ms := now\<rparr>)" using assms(1) by (simp add: h2_inv_def h2_core_def h2_slots_def)
  have run: "tick_loop ng now 0 (CF_H2_APPLICATION_MAX + 2) (h\<lparr>h2_now_ms := now\<rparr>) = Some h'" using assms(2) by (auto simp: cf_h2_tick_def)
  have "now \<ge> p \<and> now - p > 15000 \<longleftrightarrow> unat now > unat p + 15000" for p :: u64
  proof (cases "now \<ge> p")
    case True
    then have "unat (now - p) = unat now - unat p" by (simp add: unat_sub)
    then show ?thesis using True by (auto simp: word_less_nat_alt word_le_nat_alt)
  qed (auto simp: word_le_nat_alt)
  then have "tick_stream now = (\<lambda>s. if st_id s \<noteq> 0 \<and> \<not> st_reset s \<and> (\<not> st_headers_done s \<or> st_kind s \<noteq> CF_H2_CONTROL)
             \<and> unat now > unat (st_progress_ms s) + 15000 then s\<lparr>st_reset := True\<rparr> else s)"
    unfolding tick_stream_def stalled_def by auto
  then show ?thesis using tick_loop_exact [OF sl _ run assms(3)] sl by (simp add: h2_slots_def)
qed

theorem h2_tick_exact_witness:
  "\<exists>h'. cf_h2_tick willing (Some (h2_new 2 8192 ())) 20000 = Some (Some h') \<and> h2_error h' = CF_OK
     \<and> rejected_streams (h2_stats h') = rejected_streams (h2_stats (h2_new 2 8192 ())) + word_of_nat (length (filter (stalled 20000) (h2_streams (h2_new 2 8192 ()))))"
proof -
  obtain h' where t: "cf_h2_tick willing (Some (h2_new 2 8192 ())) 20000 = Some (Some h')"
    using tick_touch [of "h2_new 2 8192 ()" willing 20000] new_inv [of 2 8192 "()"] by (auto simp: h2_inv_def)
  have run: "tick_loop willing 20000 0 (CF_H2_APPLICATION_MAX + 2) ((h2_new 2 8192 ())\<lparr>h2_now_ms := 20000\<rparr>) = Some h'"
    using t unfolding cf_h2_tick_def by (auto simp del: tick_loop.simps add_2_eq_Suc')
  have ok: "tick_loop willing now i k h = Some h' \<Longrightarrow> h2_error h = CF_OK \<Longrightarrow> h2_error h' = CF_OK" for now i k and h h' :: "unit cf_h2"
    by (induction k arbitrary: i h) (fastforce simp: load_def reset_stream_def willing_def Let_def stream_update_def split: if_splits option.splits)+
  have e: "h2_error h' = CF_OK" by (rule ok [OF run]) (simp add: h2_new_def)
  show ?thesis using t e h2_tick_exact [OF new_inv t e] by blast
qed

end
