(* ===== verification/CF_TlsDiag.thy ===== *)
theory CF_TlsDiag
  imports CF_Prelude
begin

text \<open>
  The connect diagnostics of \<^verbatim>\<open>src/transport/cf_tls_diag.c\<close>: the classification of a terminal connect outcome.
  What esp-tls and mbedTLS report of the handle, and the numeric values of their codes, are arguments.
\<close>

datatype esp_cf_connect_stage =
    ESP_CF_CONNECT_UNKNOWN | ESP_CF_CONNECT_TCP | ESP_CF_CONNECT_TLS_SETUP
  | ESP_CF_CONNECT_TLS_HANDSHAKE | ESP_CF_CONNECT_DEADLINE | ESP_CF_CONNECT_VERIFIED

record esp_cf_connect_diagnostic =
  dg_valid :: bool
  dg_errors_available :: bool
  dg_stage :: esp_cf_connect_stage
  dg_rc :: int
  dg_state_before :: int
  dg_state_after :: int
  dg_esp_error :: int
  dg_tls_error :: int
  dg_verify_flags :: int
  dg_system_error :: int
  dg_errno_context :: int
  dg_tls_alert :: int
  dg_tls_version :: int
  dg_elapsed_ms :: u64
  dg_at_ms :: u64
  dg_utc_s :: int
  dg_attempt :: u32
  dg_heap_free :: u32
  dg_heap_largest :: u32
  dg_edge_ip :: "u8 list"
  dg_edge_port :: u16

definition zero_diagnostic :: esp_cf_connect_diagnostic where
  "zero_diagnostic = \<lparr>dg_valid = False, dg_errors_available = False, dg_stage = ESP_CF_CONNECT_UNKNOWN, dg_rc = 0, dg_state_before = 0,
     dg_state_after = 0, dg_esp_error = 0, dg_tls_error = 0, dg_verify_flags = 0, dg_system_error = 0, dg_errno_context = 0, dg_tls_alert = 0,
     dg_tls_version = 0, dg_elapsed_ms = 0, dg_at_ms = 0, dg_utc_s = 0, dg_attempt = 0, dg_heap_free = 0, dg_heap_largest = 0,
     dg_edge_ip = [], dg_edge_port = 0\<rparr>"

text \<open>The codes of esp-tls that the classification compares with.\<close>

record tls_codes =
  ESP_TLS_HANDSHAKE :: int
  ESP_ERR_MBEDTLS_SSL_HANDSHAKE_FAILED :: int
  ESP_ERR_ESP_TLS_CANNOT_RESOLVE_HOSTNAME :: int
  ESP_ERR_ESP_TLS_CONNECTION_TIMEOUT :: int

text \<open>
  The answers of the library about a handle: the fatal alert and the version of its mbedTLS context, if
  there is one, and, if there is an error handle, the system error with the success of its query and
  the last ESP, TLS and verification errors.
\<close>

record tls_view =
  tv_ssl :: "(int \<times> int) option"
  tv_errors :: "((bool \<times> int) \<times> int \<times> int \<times> int) option"

definition esp_cf_connect_stage_name :: "esp_cf_connect_stage \<Rightarrow> string" where
  "esp_cf_connect_stage_name stage = (case stage of
     ESP_CF_CONNECT_UNKNOWN \<Rightarrow> ''unknown'' | ESP_CF_CONNECT_TCP \<Rightarrow> ''tcp_connect'' | ESP_CF_CONNECT_TLS_SETUP \<Rightarrow> ''tls_setup''
   | ESP_CF_CONNECT_TLS_HANDSHAKE \<Rightarrow> ''tls_handshake'' | ESP_CF_CONNECT_DEADLINE \<Rightarrow> ''application_deadline''
   | ESP_CF_CONNECT_VERIFIED \<Rightarrow> ''verified'')"

definition ssl_part :: "tls_view option \<Rightarrow> int \<Rightarrow> esp_cf_connect_diagnostic \<Rightarrow> esp_cf_connect_diagnostic" where
  "ssl_part tls rc d = (case tls of None \<Rightarrow> d | Some v \<Rightarrow> (case tv_ssl v of None \<Rightarrow> d | Some (alert, version) \<Rightarrow>
     let d = (if rc < 0 then d\<lparr>dg_tls_alert := (if alert \<ge> 0 then alert else - 1)\<rparr> else d) in
     if rc = 1 then d\<lparr>dg_tls_version := version\<rparr> else d))"

definition error_part :: "tls_view option \<Rightarrow> esp_cf_connect_diagnostic \<Rightarrow> esp_cf_connect_diagnostic" where
  "error_part tls d = (case tls of None \<Rightarrow> d | Some v \<Rightarrow> (case tv_errors v of None \<Rightarrow> d
     | Some ((available, system), esp, tls_error, flags) \<Rightarrow>
         d\<lparr>dg_errors_available := available, dg_system_error := system, dg_esp_error := esp, dg_tls_error := tls_error, dg_verify_flags := flags\<rparr>))"

definition stage_of :: "tls_codes \<Rightarrow> int \<Rightarrow> int \<Rightarrow> int \<Rightarrow> bool \<Rightarrow> esp_cf_connect_diagnostic \<Rightarrow> esp_cf_connect_stage" where
  "stage_of codes rc before after deadline d =
     (if rc = 1 then ESP_CF_CONNECT_VERIFIED
      else if rc = 0 \<and> deadline then ESP_CF_CONNECT_DEADLINE
      else if rc < 0 then
        if before = ESP_TLS_HANDSHAKE codes \<or> after = ESP_TLS_HANDSHAKE codes \<or> dg_esp_error d = ESP_ERR_MBEDTLS_SSL_HANDSHAKE_FAILED codes
        then ESP_CF_CONNECT_TLS_HANDSHAKE
        else if dg_esp_error d \<ge> ESP_ERR_ESP_TLS_CANNOT_RESOLVE_HOSTNAME codes \<and> dg_esp_error d \<le> ESP_ERR_ESP_TLS_CONNECTION_TIMEOUT codes
        then ESP_CF_CONNECT_TCP
        else if dg_esp_error d \<noteq> 0 \<or> dg_tls_error d \<noteq> 0 \<or> dg_verify_flags d \<noteq> 0 then ESP_CF_CONNECT_TLS_SETUP
        else dg_stage d
      else dg_stage d)"

definition cf_tls_diag_capture :: "tls_codes \<Rightarrow> tls_view option \<Rightarrow> int \<Rightarrow> int \<Rightarrow> int \<Rightarrow> int \<Rightarrow> bool \<Rightarrow> esp_cf_connect_diagnostic" where
  "cf_tls_diag_capture codes tls rc errno_context before after deadline =
     (let d = zero_diagnostic\<lparr>dg_valid := True, dg_rc := rc, dg_errno_context := errno_context, dg_state_before := before,
            dg_state_after := after, dg_tls_alert := - 1, dg_tls_version := - 1\<rparr>;
          d = error_part tls (ssl_part tls rc d) in
      d\<lparr>dg_stage := stage_of codes rc before after deadline d\<rparr>)"

lemma ssl_part_stage: "dg_stage (ssl_part tls rc d) = dg_stage d"
  by (simp add: ssl_part_def Let_def split: option.split)

lemma error_part_stage: "dg_stage (error_part tls d) = dg_stage d"
  by (simp add: error_part_def split: option.split)

text \<open>
  A captured outcome is reported as verified exactly when the connection succeeded, as a missed
  deadline exactly when it was still pending at the deadline, and a failure with no recorded error
  outside the handshake stays unknown.
\<close>

theorem tls_diag_stage:
  "(dg_stage (cf_tls_diag_capture codes tls rc e before after deadline) = ESP_CF_CONNECT_VERIFIED) = (rc = 1)
   \<and> (dg_stage (cf_tls_diag_capture codes tls rc e before after deadline) = ESP_CF_CONNECT_DEADLINE) = (rc = 0 \<and> deadline)
   \<and> (rc = 0 \<and> \<not> deadline \<longrightarrow> dg_stage (cf_tls_diag_capture codes tls rc e before after deadline) = ESP_CF_CONNECT_UNKNOWN)"
  by (simp add: cf_tls_diag_capture_def Let_def stage_of_def ssl_part_stage error_part_stage zero_diagnostic_def)

end
