(* ===== verification/CF_Tunnel.thy ===== *)
theory CF_Tunnel
  imports CF_H2_Owner CF_Rpc CF_Config CF_Dns CF_Lifecycle CF_TlsDiag
begin

text \<open>
  The session side of \<^verbatim>\<open>src/transport/esp_cf_tunnel.c\<close>: the tunnel object, the byte queue of the control
  stream, the consumer of the RPC frames, the four callbacks that the tunnel gives to the HTTP/2
  engine, the application of a configuration and the closing of a connection. The application's own
  callbacks, the JSON parser and nghttp2 are arguments; \<open>now\<close> is the reading of the millisecond clock.
\<close>

section \<open>State\<close>

definition RPC_QUEUE :: nat where "RPC_QUEUE = 4096"

record esp_cf_environment =
  env_network_ready :: bool
  env_time_valid :: bool
  env_local_ip :: mem
  env_dns_ip :: mem

text \<open>
  The application's configuration: its callbacks act on its own state, those for streams on the
  engine too.
\<close>

record ('a, 'n) esp_cf_tunnel_config =
  tc_environment :: "'a \<Rightarrow> esp_cf_environment \<times> 'a"
  tc_credentials :: "'a \<Rightarrow> cf_credentials \<Rightarrow> mem \<Rightarrow> cf_result \<times> cf_credentials \<times> mem \<times> 'a"
  tc_json_try_lock :: "'a \<Rightarrow> bool \<times> 'a"
  tc_json_unlock :: "'a \<Rightarrow> 'a"
  tc_callbacks :: "('a, 'n) cf_h2_callbacks"
  tc_version :: "u8 list"
  tc_arch :: "u8 list"
  tc_service :: "u8 list"
  tc_application_streams :: nat

text \<open>
  The tunnel object. The engine is kept beside it. Texts are the contents of their arrays
  up to the NUL, \<open>tn_json\<close> the allocator state of the JSON module, and \<open>tn_dns_socket\<close> and
  \<open>tn_tls\<close> tell whether the socket and the TLS handle exist.
\<close>

record esp_cf_tunnel_snapshot =
  sn_state :: cf_state
  sn_settings_ready :: bool
  sn_registered :: bool
  sn_configured :: bool
  sn_config_version :: int
  sn_attempts :: u32
  sn_retry_at_ms :: u64
  sn_edge_ip :: "u8 list"
  sn_location :: "u8 list"
  sn_message :: "u8 list"
  sn_last_failure :: "u8 list"
  sn_last_failure_ms :: u64
  sn_failures :: u32
  sn_http2 :: "cf_h2_stats option"
  sn_task_stack_min :: u32
  sn_last_connect :: esp_cf_connect_diagnostic
  sn_last_connect_failure :: esp_cf_connect_diagnostic

record 'a esp_cf_tunnel =
  tn_app :: 'a
  tn_task :: bool
  tn_stop_requested :: bool
  tn_reload_requested :: bool
  tn_snapshot :: esp_cf_tunnel_snapshot
  tn_json :: json_heap
  tn_life :: cf_lifecycle
  tn_rpc :: cf_rpc
  tn_remote :: cf_remote_config
  tn_tls :: bool
  tn_credentials :: cf_credentials
  tn_options :: cf_rpc_options
  tn_hostname :: mem
  tn_edge_ip :: "u8 list"
  tn_dns_name :: "u8 list"
  tn_message :: "u8 list"
  tn_last_failure :: "u8 list"
  tn_last_failure_ms :: u64
  tn_failures :: u32
  tn_last_connect :: esp_cf_connect_diagnostic
  tn_last_connect_failure :: esp_cf_connect_diagnostic
  tn_connect_started_ms :: u64
  tn_environment :: esp_cf_environment
  tn_dns_answer :: "cf_dns_answer option"
  tn_dns_packet :: mem
  tn_dns_socket :: bool
  tn_dns_id :: u16
  tn_dns_stage :: nat
  tn_attempts :: u32
  tn_deadline_ms :: u64
  tn_shutdown_ms :: u64
  tn_write_stalled_ms :: u64
  tn_settings_ready :: bool
  tn_attempt_started :: bool
  tn_fault :: bool
  tn_stopping :: bool
  tn_goaway_sent :: bool
  tn_closing :: bool
  tn_control_stream :: int
  tn_config_stream :: int
  tn_framer :: cf_capnp_framer
  tn_rpc_frame :: mem
  tn_rpc_queue :: mem
  tn_rpc_queued :: nat
  tn_config_bytes :: mem
  tn_config_used :: nat
  tn_config_reply_used :: nat
  tn_config_reply_sent :: nat
  tn_config_reply :: mem
  tn_config_pending :: bool
  tn_config_response :: bool

text \<open>\<open>snprintf\<close> into an array of 128 characters; a text that is the message already is kept.\<close>

definition say :: "u8 list \<Rightarrow> 'a esp_cf_tunnel \<Rightarrow> 'a esp_cf_tunnel" where
  "say msg t = t\<lparr>tn_message := take 127 msg\<rparr>"

definition life_event :: "cf_lifecycle_event \<Rightarrow> 'a esp_cf_tunnel \<Rightarrow> 'a esp_cf_tunnel" where
  "life_event e t = (case cf_lifecycle_advance (Some (tn_life t)) e of (_, Some l) \<Rightarrow> t\<lparr>tn_life := l\<rparr> | _ \<Rightarrow> t)"

section \<open>The queue of the control stream\<close>

text \<open>The bytes of an array and how many of them are queued.\<close>

definition rpc_push :: "u8 list \<Rightarrow> mem \<times> nat \<Rightarrow> (mem \<times> nat) option option" where
  "rpc_push bytes q = (case q of (m, queued) \<Rightarrow>
     if length bytes > size_sub RPC_QUEUE queued then Some None
     else do { m \<leftarrow> store_n m queued bytes; Some (Some (m, queued + length bytes)) })"

definition rpc_pull :: "nat \<Rightarrow> mem \<times> nat \<Rightarrow> (u8 list \<times> mem \<times> nat) option" where
  "rpc_pull cap q = (case q of (m, queued) \<Rightarrow>
     let n = (if queued < cap then queued else cap) in
     if n = 0 then Some ([], m, queued)
     else do {
       out \<leftarrow> load_n m 0 n;
       let queued = queued - n;
       rest \<leftarrow> load_n m n queued;
       m \<leftarrow> store_n m 0 rest;
       m \<leftarrow> store_n m queued (replicate n 0);
       Some (out, m, queued)
     })"

definition append_rpc :: "'n nghttp2 \<Rightarrow> mem \<Rightarrow> nat \<Rightarrow> 'a esp_cf_tunnel \<times> 'n cf_h2
    \<Rightarrow> (cf_result \<times> 'a esp_cf_tunnel \<times> 'n cf_h2) option" where
  "append_rpc ng out n st = (case st of (t, h) \<Rightarrow> do {
     bytes \<leftarrow> load_n out 0 n;
     q \<leftarrow> rpc_push bytes (tn_rpc_queue t, tn_rpc_queued t);
     (case q of
        None \<Rightarrow> Some (CF_ERR_LIMIT, t, h)
      | Some (m, queued) \<Rightarrow> do {
          let t = t\<lparr>tn_rpc_queue := m, tn_rpc_queued := queued\<rparr>;
          let (_, hp) = (if tn_control_stream t \<noteq> 0 then cf_h2_resume ng (Some h) (tn_control_stream t) else (CF_OK, Some h));
          h \<leftarrow> hp;
          Some (CF_OK, t, h)
        })
   })"

section \<open>RPC frames\<close>

definition registered_text :: "bool \<Rightarrow> u8 list" where
  "registered_text conf = (if conf then str ''Tunnel is serving the configured hostname.''
     else str ''Registered. Waiting for remote ingress configuration.'')"

definition rejected_text :: "bool \<Rightarrow> u8 list" where
  "rejected_text again = (if again then str ''Cloudflare rejected registration; retry requested.''
     else str ''Cloudflare rejected the tunnel credentials.'')"

text \<open>The registration, sent once the bootstrap has been answered.\<close>

definition send_registration :: "'n nghttp2 \<Rightarrow> 'a esp_cf_tunnel \<times> 'n cf_h2 \<Rightarrow> (cf_result \<times> 'a esp_cf_tunnel \<times> 'n cf_h2) option" where
  "send_registration ng st = (case st of (t, h) \<Rightarrow> do {
     let opt = (tn_options t)\<lparr>op_local_ip := Bytes (env_local_ip (tn_environment t)),
       op_previous_attempts := (if tn_attempts t > 256 then 255 else ucast (tn_attempts t - 1))\<rparr>;
     let t = t\<lparr>tn_options := opt\<rparr>;
     (rc, r, out, n) \<leftarrow> cf_rpc_register (Some (tn_rpc t)) (Some (tn_credentials t)) (Some opt) (Some rpc_out) CF_RPC_TX_MAX (Some 0);
     r \<leftarrow> r; out \<leftarrow> out; n \<leftarrow> n;
     let t = t\<lparr>tn_rpc := r, tn_credentials := zero_credentials\<rparr>;
     (rc, t, h) \<leftarrow> (if rc = CF_OK then append_rpc ng out n (t, h) else Some (rc, t, h));
     Some (rc, if rc \<noteq> CF_OK then t\<lparr>tn_fault := True\<rparr> else t, h)
   })"

text \<open>What follows a message that the client accepted.\<close>

definition rpc_follow :: "'n nghttp2 \<Rightarrow> u64 \<Rightarrow> 'a esp_cf_tunnel \<times> 'n cf_h2 \<Rightarrow> (cf_result \<times> 'a esp_cf_tunnel \<times> 'n cf_h2) option" where
  "rpc_follow ng now st = (case st of (t, h) \<Rightarrow>
     if rpc_state (tn_rpc t) = CF_RPC_READY then send_registration ng (t, h)
     else if rpc_state (tn_rpc t) = CF_RPC_REGISTERED then
       let t = life_event CF_EVENT_REGISTERED t; t = say (registered_text (configured (tn_life t))) t in
       Some (CF_OK, t\<lparr>tn_deadline_ms := now + 30000\<rparr>, h)
     else if rpc_state (tn_rpc t) = CF_RPC_REJECTED then
       Some (CF_OK, (say (rejected_text (rpc_should_retry (tn_rpc t))) t)\<lparr>tn_fault := True\<rparr>, h)
     else Some (CF_OK, t, h))"

definition rpc_message :: "'n nghttp2 \<Rightarrow> u64 \<Rightarrow> 'a esp_cf_tunnel \<times> 'n cf_h2 \<Rightarrow> cf_bytes \<Rightarrow> (cf_result \<times> 'a esp_cf_tunnel \<times> 'n cf_h2) option" where
  "rpc_message ng now st frame = (case st of (t, h) \<Rightarrow> do {
     (rc, r, out, n) \<leftarrow> cf_rpc_receive (Some (tn_rpc t)) frame (Some rpc_out) CF_RPC_TX_MAX (Some 0);
     r \<leftarrow> r; out \<leftarrow> out; n \<leftarrow> n;
     let t = t\<lparr>tn_rpc := r\<rparr>;
     (arc, t, h) \<leftarrow> append_rpc ng out n (t, h);
     let rc = (if arc \<noteq> CF_OK then CF_ERR_LIMIT else rc);
     if rc \<noteq> CF_OK
     then Some (rc, (say (str ''Registration RPC failed or used an unsupported message.'') t)\<lparr>tn_fault := True\<rparr>, h)
     else rpc_follow ng now (t, h)
   })"

section \<open>The callbacks of the engine\<close>

definition control_request :: "'n nghttp2 \<Rightarrow> u64 \<Rightarrow> 'a esp_cf_tunnel \<times> 'n cf_h2 \<Rightarrow> cf_h2_request
    \<Rightarrow> (cf_result \<times> 'a esp_cf_tunnel \<times> 'n cf_h2) option" where
  "control_request ng now st request = (case st of (t, h) \<Rightarrow>
     if tn_control_stream t \<noteq> 0 \<or> rq_end_stream request then Some (CF_ERR_STATE, t, h)
     else do {
       let t = t\<lparr>tn_control_stream := rq_stream request\<rparr>;
       let t = (if state (tn_life t) = CF_HTTP2 then life_event CF_EVENT_HTTP2_READY t else t);
       r \<leftarrow> cf_rpc_init (Some (tn_rpc t));
       let (_, f) = cf_capnp_framer_init (Some (tn_framer t)) (Some (tn_rpc_frame t)) CF_CAPNP_MESSAGE_MAX;
       f \<leftarrow> f;
       (rc, r, out, n) \<leftarrow> cf_rpc_begin (Some r) (Some rpc_out) CF_RPC_TX_MAX (Some 0);
       r \<leftarrow> r; out \<leftarrow> out; n \<leftarrow> n;
       let t = t\<lparr>tn_rpc := r, tn_framer := f\<rparr>;
       (rc, t, h) \<leftarrow> (if rc = CF_OK then append_rpc ng out n (t, h) else Some (rc, t, h));
       if rc \<noteq> CF_OK then Some (rc, t, h)
       else do {
         let t = t\<lparr>tn_deadline_ms := now + 30000\<rparr>;
         (rc, hp) \<leftarrow> cf_h2_respond ng (Some h) (rq_stream request) 200 (Null_Headers 0) False;
         h \<leftarrow> hp;
         Some (rc, t, h)
       }
     })"

definition config_request :: "'a esp_cf_tunnel \<Rightarrow> cf_h2_request \<Rightarrow> cf_result \<times> 'a esp_cf_tunnel" where
  "config_request t request =
     (if tn_config_stream t \<noteq> 0 then (CF_ERR_STATE, t)
      else (CF_OK, t\<lparr>tn_config_stream := rq_stream request, tn_config_used := 0, tn_config_reply_used := 0, tn_config_reply_sent := 0,
        tn_config_pending := False, tn_config_response := False\<rparr>))"

definition h2_request :: "('a, 'n) esp_cf_tunnel_config \<Rightarrow> 'n nghttp2 \<Rightarrow> u64 \<Rightarrow> 'a esp_cf_tunnel \<times> 'n cf_h2 \<Rightarrow> cf_h2_request
    \<Rightarrow> (cf_result \<times> 'a esp_cf_tunnel \<times> 'n cf_h2) option" where
  "h2_request cfg ng now st request = (case st of (t, h) \<Rightarrow>
     if tn_stopping t then Some (CF_ERR_STATE, t, h)
     else if rq_kind request = CF_H2_CONTROL then control_request ng now (t, h) request
     else if rq_kind request = CF_H2_CONFIG then (let (rc, t) = config_request t request in Some (rc, t, h))
     else if state (tn_life t) \<noteq> CF_ONLINE then Some (CF_ERR_STATE, t, h)
     else do {
       name \<leftarrow> cstring (cfg_hostname (tn_remote t));
       if bytes_list (cf_h2_header request (str '':authority'')) \<noteq> name then Some (CF_ERR_STATE, t, h)
       else do {
         (rc, a, h) \<leftarrow> cb_request (tc_callbacks cfg) (tn_app t, h) request;
         Some (rc, t\<lparr>tn_app := a\<rparr>, h)
       }
     })"

definition control_data :: "'n nghttp2 \<Rightarrow> u64 \<Rightarrow> 'a esp_cf_tunnel \<times> 'n cf_h2 \<Rightarrow> cf_bytes \<Rightarrow> bool
    \<Rightarrow> (cf_result \<times> 'a esp_cf_tunnel \<times> 'n cf_h2) option" where
  "control_data ng now st data fin = (case st of (t, h) \<Rightarrow>
     if fin \<and> rpc_state (tn_rpc t) \<noteq> CF_RPC_CLOSED
     then Some (CF_ERR_TRUNCATED, say (str ''The control stream ended unexpectedly.'') (t\<lparr>tn_fault := True\<rparr>), h)
     else if bytes_len data = 0 then Some (CF_OK, t, h)
     else do {
       (rc, f, n, t, h) \<leftarrow> cf_capnp_feed (Some (tn_framer t)) data (Some 0) (Some (rpc_message ng now)) (t, h);
       f \<leftarrow> f; n \<leftarrow> n;
       let t = t\<lparr>tn_framer := f, tn_rpc_frame := (case fr_buffer f of Some m \<Rightarrow> m | None \<Rightarrow> tn_rpc_frame t)\<rparr>;
       if rc \<noteq> CF_OK \<or> n \<noteq> bytes_len data then Some (if rc = CF_OK then CF_ERR_STATE else rc, t\<lparr>tn_fault := True\<rparr>, h)
       else Some (CF_OK, t, h)
     })"

definition config_data :: "'a esp_cf_tunnel \<Rightarrow> cf_bytes \<Rightarrow> bool \<Rightarrow> (cf_result \<times> 'a esp_cf_tunnel) option" where
  "config_data t data fin =
     (if tn_config_pending t \<or> tn_config_response t \<or> bytes_len data > size_sub CF_CONFIG_MESSAGE_MAX (tn_config_used t)
      then Some (CF_ERR_LIMIT, t)
      else do {
        m \<leftarrow> store_n (tn_config_bytes t) (tn_config_used t) (bytes_list data);
        let t = t\<lparr>tn_config_bytes := m, tn_config_used := tn_config_used t + bytes_len data\<rparr>;
        Some (CF_OK, if fin then t\<lparr>tn_config_pending := True\<rparr> else t)
      })"

definition h2_data :: "('a, 'n) esp_cf_tunnel_config \<Rightarrow> 'n nghttp2 \<Rightarrow> u64 \<Rightarrow> 'a esp_cf_tunnel \<times> 'n cf_h2 \<Rightarrow> int \<Rightarrow> cf_bytes \<Rightarrow> bool
    \<Rightarrow> (cf_result \<times> 'a esp_cf_tunnel \<times> 'n cf_h2) option" where
  "h2_data cfg ng now st sid data fin = (case st of (t, h) \<Rightarrow>
     if sid = tn_control_stream t then control_data ng now (t, h) data fin
     else if sid = tn_config_stream t then do { (rc, t) \<leftarrow> config_data t data fin; Some (rc, t, h) }
     else do {
       (rc, a, h) \<leftarrow> cb_data (tc_callbacks cfg) (tn_app t, h) sid data fin;
       Some (rc, t\<lparr>tn_app := a\<rparr>, h)
     })"

definition control_read :: "'a esp_cf_tunnel \<Rightarrow> nat \<Rightarrow> (cf_result \<times> u8 list \<times> bool \<times> 'a esp_cf_tunnel) option" where
  "control_read t cap = do {
     (out, m, queued) \<leftarrow> rpc_pull cap (tn_rpc_queue t, tn_rpc_queued t);
     let t = t\<lparr>tn_rpc_queue := m, tn_rpc_queued := queued\<rparr>;
     let eof = (rpc_state (tn_rpc t) = CF_RPC_CLOSED \<and> tn_rpc_queued t = 0);
     Some (if out \<noteq> [] \<or> eof then CF_OK else CF_ERR_STATE, out, eof, t)
   }"

definition config_read :: "'a esp_cf_tunnel \<Rightarrow> nat \<Rightarrow> (cf_result \<times> u8 list \<times> bool \<times> 'a esp_cf_tunnel) option" where
  "config_read t cap =
     (if \<not> tn_config_response t then Some (CF_ERR_STATE, [], False, t)
      else do {
        let n = size_sub (tn_config_reply_used t) (tn_config_reply_sent t);
        let n = (if n > cap then cap else n);
        out \<leftarrow> load_n (tn_config_reply t) (tn_config_reply_sent t) n;
        let t = t\<lparr>tn_config_reply_sent := tn_config_reply_sent t + n\<rparr>;
        Some (CF_OK, out, tn_config_reply_sent t = tn_config_reply_used t, t)
      })"

definition h2_read :: "('a, 'n) esp_cf_tunnel_config \<Rightarrow> 'a esp_cf_tunnel \<times> 'n cf_h2 \<Rightarrow> int \<Rightarrow> nat
    \<Rightarrow> (cf_result \<times> u8 list \<times> bool \<times> 'a esp_cf_tunnel \<times> 'n cf_h2) option" where
  "h2_read cfg st sid cap = (case st of (t, h) \<Rightarrow>
     if sid = tn_control_stream t then do { (rc, out, eof, t) \<leftarrow> control_read t cap; Some (rc, out, eof, t, h) }
     else if sid = tn_config_stream t then do { (rc, out, eof, t) \<leftarrow> config_read t cap; Some (rc, out, eof, t, h) }
     else do {
       (rc, out, eof, a, h) \<leftarrow> cb_read_response (tc_callbacks cfg) (tn_app t, h) sid cap;
       Some (rc, out, eof, t\<lparr>tn_app := a\<rparr>, h)
     })"

definition h2_closed :: "('a, 'n) esp_cf_tunnel_config \<Rightarrow> 'a esp_cf_tunnel \<times> 'n cf_h2 \<Rightarrow> int \<Rightarrow> u32 \<Rightarrow> ('a esp_cf_tunnel \<times> 'n cf_h2) option" where
  "h2_closed cfg st sid error = (case st of (t, h) \<Rightarrow>
     if sid = tn_control_stream t then
       let t = (if \<not> tn_closing t \<and> (\<not> tn_stopping t \<or> rpc_state (tn_rpc t) \<noteq> CF_RPC_CLOSED)
           then say (str ''Cloudflare closed the control stream.'') (t\<lparr>tn_fault := True\<rparr>) else t) in
       Some (t\<lparr>tn_control_stream := 0\<rparr>, h)
     else if sid = tn_config_stream t then
       Some (t\<lparr>tn_config_stream := 0, tn_config_used := 0, tn_config_pending := False, tn_config_response := False,
         tn_config_bytes := replicate (length (tn_config_bytes t)) 0\<rparr>, h)
     else do {
       (a, h) \<leftarrow> cb_closed (tc_callbacks cfg) (tn_app t, h) sid error;
       Some (t\<lparr>tn_app := a\<rparr>, h)
     })"

definition tunnel_callbacks :: "('a, 'n) esp_cf_tunnel_config \<Rightarrow> 'n nghttp2 \<Rightarrow> u64 \<Rightarrow> ('a esp_cf_tunnel, 'n) cf_h2_callbacks" where
  "tunnel_callbacks cfg ng now = \<lparr>cb_request = h2_request cfg ng now, cb_data = h2_data cfg ng now,
     cb_read_response = h2_read cfg, cb_closed = h2_closed cfg\<rparr>"

section \<open>Configuration\<close>

definition json_header :: cf_header where
  "json_header = \<lparr>hname = Bytes (str ''content-type''), hvalue = Bytes (str ''application/json'')\<rparr>"

definition apply_config :: "('a, 'n) esp_cf_tunnel_config \<Rightarrow> 'n nghttp2 \<Rightarrow> cjson_parser \<Rightarrow> 'a esp_cf_tunnel \<times> 'n cf_h2
    \<Rightarrow> ('a esp_cf_tunnel \<times> 'n cf_h2) option" where
  "apply_config cfg ng parser st = (case st of (t, h) \<Rightarrow>
     if \<not> tn_config_pending t then Some (t, h)
     else let (locked, a) = tc_json_try_lock cfg (tn_app t); t = t\<lparr>tn_app := a\<rparr> in
     if \<not> locked then Some (t, h)
     else do {
       update \<leftarrow> load_n (tn_config_bytes t) 0 (tn_config_used t);
       host \<leftarrow> cstring (tn_hostname t);
       (rc, remote, why, heap) \<leftarrow> cf_config_apply_ex parser (Some (tn_remote t)) (Bytes update) (Some host) (Some (tc_service cfg)) (Some []) (tn_json t);
       remote \<leftarrow> remote; why \<leftarrow> why;
       let t = t\<lparr>tn_remote := remote, tn_json := heap, tn_app := tc_json_unlock cfg (tn_app t)\<rparr>;
       (_, reply, n) \<leftarrow> cf_config_response (Some remote) rc (Some (tn_config_reply t)) 128 (Some (tn_config_reply_used t));
       reply \<leftarrow> reply; n \<leftarrow> n;
       let t = t\<lparr>tn_config_reply := reply, tn_config_reply_used := n, tn_config_bytes := replicate (length (tn_config_bytes t)) 0,
         tn_config_used := 0, tn_config_pending := False, tn_config_response := True\<rparr>;
       (hrc, hp) \<leftarrow> cf_h2_respond ng (Some h) (tn_config_stream t) 200 (Headers [json_header]) False;
       h \<leftarrow> hp;
       let t = (if hrc \<noteq> CF_OK then t\<lparr>tn_fault := True\<rparr> else t);
       let t = life_event (if rc = CF_OK then CF_EVENT_CONFIG_APPLIED else CF_EVENT_CONFIG_REJECTED) t;
       Some (say (str why) t, h)
     })"

section \<open>Closing\<close>

definition erase_session :: "'a esp_cf_tunnel \<Rightarrow> 'a esp_cf_tunnel" where
  "erase_session t = t\<lparr>tn_tls := False, tn_rpc := zero_rpc,
     tn_remote := (case cf_config_init (Some (tn_remote t)) of Some r \<Rightarrow> r | None \<Rightarrow> tn_remote t),
     tn_credentials := zero_credentials, tn_rpc_frame := replicate (length (tn_rpc_frame t)) 0,
     tn_framer := (tn_framer t)\<lparr>fr_buffer := map_option (\<lambda>m. replicate (length m) 0) (fr_buffer (tn_framer t))\<rparr>,
     tn_rpc_queue := replicate (length (tn_rpc_queue t)) 0, tn_config_bytes := replicate (length (tn_config_bytes t)) 0,
     tn_rpc_queued := 0, tn_config_used := 0, tn_config_reply_used := 0, tn_config_reply_sent := 0,
     tn_config_pending := False, tn_config_response := False, tn_control_stream := 0, tn_config_stream := 0,
     tn_attempt_started := False, tn_fault := False, tn_goaway_sent := False, tn_write_stalled_ms := 0\<rparr>"

definition close_connection :: "('a, 'n) esp_cf_tunnel_config \<Rightarrow> 'n nghttp2 \<Rightarrow> u64 \<Rightarrow> 'a esp_cf_tunnel \<Rightarrow> 'n cf_h2 option \<Rightarrow> 'a esp_cf_tunnel option" where
  "close_connection cfg ng now t hp = do {
     let t = t\<lparr>tn_dns_socket := False, tn_dns_answer := None, tn_closing := True\<rparr>;
     t \<leftarrow> cf_h2_destroy (tunnel_callbacks cfg ng now) t hp;
     Some (erase_session (t\<lparr>tn_closing := False\<rparr>))
   }"

section \<open>A new tunnel\<close>

datatype esp_err = ESP_OK | ESP_ERR_NO_MEM | ESP_ERR_INVALID_ARG | ESP_ERR_INVALID_STATE

definition zero_snapshot :: esp_cf_tunnel_snapshot where
  "zero_snapshot = \<lparr>sn_state = CF_STOPPED, sn_settings_ready = False, sn_registered = False, sn_configured = False, sn_config_version = 0,
     sn_attempts = 0, sn_retry_at_ms = 0, sn_edge_ip = [], sn_location = [], sn_message = [], sn_last_failure = [], sn_last_failure_ms = 0,
     sn_failures = 0, sn_http2 = None, sn_task_stack_min = 0, sn_last_connect = zero_diagnostic, sn_last_connect_failure = zero_diagnostic\<rparr>"

definition zero_framer :: cf_capnp_framer where
  "zero_framer = \<lparr>fr_buffer = None, fr_capacity = 0, fr_used = 0, fr_target = 0, fr_segments = 0, fr_phase = 0, fr_error = CF_OK\<rparr>"

text \<open>A random identifier with the version and variant bits of a UUID.\<close>

definition connector_uuid :: "u8 list \<Rightarrow> u8 list" where
  "connector_uuid rnd = rnd[6 := (rnd ! 6 AND 15) OR 64, 8 := (rnd ! 8 AND 63) OR 128]"

text \<open>The object after \<open>calloc\<close> and its initialisation.\<close>

definition new_tunnel :: "('a, 'n) esp_cf_tunnel_config \<Rightarrow> u8 list \<Rightarrow> json_heap \<Rightarrow> 'a \<Rightarrow> 'a esp_cf_tunnel" where
  "new_tunnel cfg rnd json a = \<lparr>tn_app = a, tn_task = False, tn_stop_requested = False, tn_reload_requested = False,
     tn_snapshot = zero_snapshot\<lparr>sn_config_version := - 1\<rparr>, tn_json = json, tn_life = zeroed, tn_rpc = zero_rpc,
     tn_remote = \<lparr>cfg_valid = False, cfg_version = - 1, cfg_hostname = replicate (CF_HOSTNAME_MAX + 1) 0,
       cfg_service = replicate (CF_LOCAL_SERVICE_MAX + 1) 0\<rparr>, tn_tls = False, tn_credentials = zero_credentials,
     tn_options = \<lparr>op_connector_id = connector_uuid rnd, op_local_ip = Null_Bytes 0, op_version = Bytes (tc_version cfg), op_arch = Bytes (tc_arch cfg),
       op_connection_index = 0, op_previous_attempts = 0, op_replace_existing = False, op_features = CF_RPC_REMOTE_CONFIG OR CF_RPC_SERIALIZED_HEADERS\<rparr>,
     tn_hostname = replicate 254 0, tn_edge_ip = [], tn_dns_name = [], tn_message = [], tn_last_failure = [], tn_last_failure_ms = 0, tn_failures = 0,
     tn_last_connect = zero_diagnostic, tn_last_connect_failure = zero_diagnostic, tn_connect_started_ms = 0,
     tn_environment = \<lparr>env_network_ready = False, env_time_valid = False, env_local_ip = replicate 4 0, env_dns_ip = replicate 4 0\<rparr>,
     tn_dns_answer = None, tn_dns_packet = replicate CF_DNS_PACKET_MAX 0, tn_dns_socket = False, tn_dns_id = 0, tn_dns_stage = 0,
     tn_attempts = 0, tn_deadline_ms = 0, tn_shutdown_ms = 0, tn_write_stalled_ms = 0, tn_settings_ready = False, tn_attempt_started = False,
     tn_fault = False, tn_stopping = False, tn_goaway_sent = False, tn_closing = False, tn_control_stream = 0, tn_config_stream = 0,
     tn_framer = zero_framer, tn_rpc_frame = replicate CF_CAPNP_MESSAGE_MAX 0, tn_rpc_queue = replicate RPC_QUEUE 0, tn_rpc_queued = 0,
     tn_config_bytes = replicate CF_CONFIG_MESSAGE_MAX 0, tn_config_used = 0, tn_config_reply_used = 0, tn_config_reply_sent = 0,
     tn_config_reply = replicate 128 0, tn_config_pending = False, tn_config_response = False\<rparr>"

text \<open>\<open>given\<close> tells that all callbacks and strings of the configuration are given, \<open>room\<close> that \<open>calloc\<close> succeeds.\<close>

definition esp_cf_tunnel_init :: "bool \<Rightarrow> bool \<Rightarrow> ('a, 'n) esp_cf_tunnel_config \<Rightarrow> u8 list \<Rightarrow> json_heap \<Rightarrow> 'a \<Rightarrow> esp_err \<times> 'a esp_cf_tunnel option" where
  "esp_cf_tunnel_init given room cfg rnd json a =
     (if \<not> given \<or> tc_version cfg = [] \<or> length (tc_version cfg) > 63 \<or> tc_arch cfg = [] \<or> length (tc_arch cfg) > 63
        \<or> tc_service cfg = [] \<or> length (tc_service cfg) > CF_LOCAL_SERVICE_MAX
        \<or> (tc_application_streams cfg \<noteq> 2 \<and> tc_application_streams cfg \<noteq> 4) then (ESP_ERR_INVALID_ARG, None)
      else if \<not> room then (ESP_ERR_NO_MEM, None)
      else (ESP_OK, Some (new_tunnel cfg rnd json a)))"

section \<open>The queue refines a first-in first-out buffer\<close>

text \<open>
  The contract of a bounded byte queue: what was pushed comes out in the same order, a push that
  does not fit changes nothing, and a pull takes as much as is asked for and available.
\<close>

locale byte_queue =
  fixes valid :: "'q \<Rightarrow> bool" and content :: "'q \<Rightarrow> u8 list" and room :: nat
    and push :: "u8 list \<Rightarrow> 'q \<Rightarrow> 'q option option" and pull :: "nat \<Rightarrow> 'q \<Rightarrow> (u8 list \<times> 'q) option"
  assumes push_full: "valid q \<Longrightarrow> room < length (content q) + length bs \<Longrightarrow> push bs q = Some None"
    and push_fits: "valid q \<Longrightarrow> length (content q) + length bs \<le> room \<Longrightarrow>
      \<exists>q'. push bs q = Some (Some q') \<and> valid q' \<and> content q' = content q @ bs"
    and pull_takes: "valid q \<Longrightarrow> \<exists>q'. pull cap q = Some (take cap (content q), q') \<and> valid q' \<and> content q' = drop cap (content q)"

datatype queue_op = Push "u8 list" | Pull nat

text \<open>The abstract buffer: the observation of each operation, and the new content.\<close>

fun fifo_step :: "nat \<Rightarrow> queue_op \<Rightarrow> u8 list \<Rightarrow> (bool \<times> u8 list) \<times> u8 list" where
  "fifo_step room (Push bs) xs = (if length xs + length bs \<le> room then ((True, []), xs @ bs) else ((False, []), xs))"
| "fifo_step room (Pull cap) xs = ((True, take cap xs), drop cap xs)"

fun fifo_run :: "nat \<Rightarrow> queue_op list \<Rightarrow> u8 list \<Rightarrow> (bool \<times> u8 list) list \<times> u8 list" where
  "fifo_run room [] xs = ([], xs)"
| "fifo_run room (c # cs) xs = (let (ob, xs) = fifo_step room c xs; (obs, xs) = fifo_run room cs xs in (ob # obs, xs))"

fun queue_step :: "(u8 list \<Rightarrow> 'q \<Rightarrow> 'q option option) \<Rightarrow> (nat \<Rightarrow> 'q \<Rightarrow> (u8 list \<times> 'q) option) \<Rightarrow> queue_op \<Rightarrow> 'q
    \<Rightarrow> ((bool \<times> u8 list) \<times> 'q) option" where
  "queue_step push pull (Push bs) q = do { r \<leftarrow> push bs q; Some (case r of None \<Rightarrow> ((False, []), q) | Some q' \<Rightarrow> ((True, []), q')) }"
| "queue_step push pull (Pull cap) q = do { (out, q) \<leftarrow> pull cap q; Some ((True, out), q) }"

fun queue_run :: "(u8 list \<Rightarrow> 'q \<Rightarrow> 'q option option) \<Rightarrow> (nat \<Rightarrow> 'q \<Rightarrow> (u8 list \<times> 'q) option) \<Rightarrow> queue_op list \<Rightarrow> 'q
    \<Rightarrow> ((bool \<times> u8 list) list \<times> 'q) option" where
  "queue_run push pull [] q = Some ([], q)"
| "queue_run push pull (c # cs) q = do {
     (ob, q) \<leftarrow> queue_step push pull c q;
     (obs, q) \<leftarrow> queue_run push pull cs q;
     Some (ob # obs, q)
   }"

context byte_queue
begin

lemma step_refines:
  assumes "valid q"
  shows "\<exists>q'. queue_step push pull c q = Some (fst (fifo_step room c (content q)), q') \<and> valid q' \<and> content q' = snd (fifo_step room c (content q))"
proof (cases c)
  case (Push bs)
  then show ?thesis using push_full [OF assms, of bs] push_fits [OF assms, of bs] assms
    by (cases "length (content q) + length bs \<le> room") auto
next
  case (Pull cap)
  then show ?thesis using pull_takes [OF assms, of cap] by auto
qed

lemma run_refines:
  "valid q \<Longrightarrow> \<exists>q'. queue_run push pull cs q = Some (fst (fifo_run room cs (content q)), q') \<and> valid q' \<and> content q' = snd (fifo_run room cs (content q))"
proof (induction cs arbitrary: q)
  case (Cons c cs)
  obtain q1 where "queue_step push pull c q = Some (fst (fifo_step room c (content q)), q1)" "valid q1" "content q1 = snd (fifo_step room c (content q))"
    using step_refines [OF Cons.prems] by blast
  moreover from this Cons.IH [of q1] obtain q2 where "queue_run push pull cs q1 = Some (fst (fifo_run room cs (content q1)), q2)"
      "valid q2" "content q2 = snd (fifo_run room cs (content q1))" by blast
  ultimately show ?case by (simp add: case_prod_unfold Let_def)
qed simp

end

text \<open>The queue of the control stream: what is not queued is zero.\<close>

definition queue_ok :: "mem \<times> nat \<Rightarrow> bool" where
  "queue_ok q \<longleftrightarrow> length (fst q) = RPC_QUEUE \<and> snd q \<le> RPC_QUEUE \<and> drop (snd q) (fst q) = replicate (RPC_QUEUE - snd q) 0"

definition queued_bytes :: "mem \<times> nat \<Rightarrow> u8 list" where
  "queued_bytes q = take (snd q) (fst q)"

lemma push_spec:
  assumes "queue_ok (m, n)" "n + length bs \<le> RPC_QUEUE"
  shows "rpc_push bs (m, n) = Some (Some (splice m n bs, n + length bs))" "queue_ok (splice m n bs, n + length bs)"
    "take (n + length bs) (splice m n bs) = take n m @ bs"
proof -
  have q: "length m = RPC_QUEUE" "n \<le> RPC_QUEUE" "drop n m = replicate (RPC_QUEUE - n) 0" using assms(1) by (simp_all add: queue_ok_def)
  show "rpc_push bs (m, n) = Some (Some (splice m n bs, n + length bs))"
    using q assms(2) by (simp add: rpc_push_def size_sub_def store_n_Some)
  have "drop (n + length bs) m = replicate (RPC_QUEUE - (n + length bs)) 0"
    using arg_cong [OF q(3), of "drop (length bs)"] by (simp add: add.commute)
  then show "queue_ok (splice m n bs, n + length bs)" using q assms(2) by (simp add: queue_ok_def splice_def)
  show "take (n + length bs) (splice m n bs) = take n m @ bs" using q assms(2) by (simp add: splice_def)
qed

lemma pull_spec:
  assumes "queue_ok (m, n)"
  shows "\<exists>m'. rpc_pull cap (m, n) = Some (take cap (take n m), m', n - cap) \<and> queue_ok (m', n - cap) \<and> take (n - cap) m' = drop cap (take n m)"
proof -
  have q: "length m = RPC_QUEUE" "n \<le> RPC_QUEUE" "drop n m = replicate (RPC_QUEUE - n) 0" using assms by (simp_all add: queue_ok_def)
  define k where "k = (if n < cap then n else cap)"
  have k: "k \<le> n" "n - k = n - cap" "take k m = take cap (take n m)" by (auto simp: k_def min_def)
  show ?thesis
  proof (cases "k = 0")
    case True
    then have "n = 0 \<or> cap = 0" by (auto simp: k_def split: if_splits)
    then show ?thesis using assms True by (auto simp: rpc_pull_def k_def [symmetric])
  next
    case False
    let ?rest = "take (n - k) (drop k m)"
    let ?m1 = "splice m 0 ?rest" let ?m2 = "splice ?m1 (n - k) (replicate k 0)"
    have lr: "length ?rest = n - k" using q k by simp
    have l1: "length ?m1 = length m" by (rule length_splice) (use q lr in simp)
    have run: "rpc_pull cap (m, n) = Some (take k m, ?m2, n - k)"
      using False q k l1 lr unfolding rpc_pull_def by (simp add: k_def [symmetric] Let_def load_n_Some store_n_Some)
    have "drop n ?m1 = drop n m" using lr k(1) by (simp add: splice_def)
    then have "drop (n - k) ?m2 = replicate k 0 @ replicate (RPC_QUEUE - n) 0" using q l1 k(1) by (simp add: splice_def)
    also have "\<dots> = replicate (RPC_QUEUE - (n - k)) 0" using q k(1) by (simp add: replicate_add [symmetric])
    finally have ok: "queue_ok (?m2, n - k)" using q l1 k(1) by (simp add: queue_ok_def)
    have "take (n - k) ?m2 = take (n - k) ?m1" using l1 q k(1) by (simp add: splice_def)
    also have "\<dots> = ?rest" using lr by (simp add: splice_def)
    also have "\<dots> = drop cap (take n m)" using k by (auto simp: k_def drop_take split: if_splits)
    finally show ?thesis using run ok k by auto
  qed
qed

interpretation rpcq: byte_queue queue_ok queued_bytes RPC_QUEUE rpc_push rpc_pull
proof
  fix q :: "mem \<times> nat" and bs :: "u8 list" and cap :: nat
  obtain m n where q: "q = (m, n)" by fastforce
  assume v: "queue_ok q"
  have l: "length (queued_bytes q) = n" using v by (simp add: q queue_ok_def queued_bytes_def)
  show "RPC_QUEUE < length (queued_bytes q) + length bs \<Longrightarrow> rpc_push bs q = Some None"
    using v l by (auto simp: q rpc_push_def queue_ok_def size_sub_def)
  show "length (queued_bytes q) + length bs \<le> RPC_QUEUE \<Longrightarrow>
      \<exists>q'. rpc_push bs q = Some (Some q') \<and> queue_ok q' \<and> queued_bytes q' = queued_bytes q @ bs"
    using push_spec [of m n bs] v l by (simp add: q queued_bytes_def)
  show "\<exists>q'. rpc_pull cap q = Some (take cap (queued_bytes q), q') \<and> queue_ok q' \<and> queued_bytes q' = drop cap (queued_bytes q)"
    using pull_spec [of m n cap] v by (auto simp: q queued_bytes_def)
qed

section \<open>The invariant of a session\<close>

lemma complete_room:
  "feed_complete cb m f ctx = Some (r, f', ctx') \<Longrightarrow> fr_capacity f' = fr_capacity f \<and> fr_buffer f' = fr_buffer f"
  by (auto simp: feed_complete_def framer_reset_def Let_def split: if_splits Option.bind_splits sum.splits)

lemma body_room:
  assumes "feed_body cb xs f c ctx = Some (r, f', c', ctx')"
  shows "fr_capacity f' = fr_capacity f \<and> map_option length (fr_buffer f') = map_option length (fr_buffer f)"
  using assms by (auto simp: feed_body_def Let_def store_n_def dest!: complete_room split: if_splits Option.bind_splits)

lemma loop_room:
  "feed_loop cb xs f c ctx = Some (rc, f', c', ctx') \<Longrightarrow> fr_capacity f' = fr_capacity f \<and> map_option length (fr_buffer f') = map_option length (fr_buffer f)"
proof (induction cb xs f c ctx rule: feed_loop.induct)
  case (1 cb xs f c ctx)
  show ?case
  proof (cases "c < length xs")
    case False
    then show ?thesis using 1(2) by (subst (asm) feed_loop.simps) simp
  next
    case True
    obtain r g d ctx1 where b: "feed_body cb xs f c ctx = Some (r, g, d, ctx1)"
      using 1(2) True by (subst (asm) feed_loop.simps) (auto split: option.splits)
    show ?thesis
    proof (cases r)
      case None
      then have "feed_loop cb xs g d ctx1 = Some (rc, f', c', ctx')" using 1(2) True b by (subst (asm) feed_loop.simps) simp
      then show ?thesis using 1(1) [OF True b] None body_room [OF b] by simp
    next
      case (Some e)
      then show ?thesis using 1(2) True b body_room [OF b] by (subst (asm) feed_loop.simps) auto
    qed
  qed
qed

definition life_ok :: "cf_lifecycle \<Rightarrow> bool" where
  "life_ok l \<longleftrightarrow> life_inv l \<or> state l = CF_STOPPING"

text \<open>The frame buffer, and the framer on it while there is a control stream.\<close>

definition frame_part :: "'a esp_cf_tunnel \<Rightarrow> bool" where
  "frame_part t \<longleftrightarrow> length (tn_rpc_frame t) = CF_CAPNP_MESSAGE_MAX \<and> (tn_control_stream t \<noteq> 0 \<longrightarrow> framer_inv (tn_framer t)
     \<and> fr_capacity (tn_framer t) = CF_CAPNP_MESSAGE_MAX \<and> map_option length (fr_buffer (tn_framer t)) = Some CF_CAPNP_MESSAGE_MAX)"

definition config_part :: "'a esp_cf_tunnel \<Rightarrow> bool" where
  "config_part t \<longleftrightarrow> length (tn_config_bytes t) = CF_CONFIG_MESSAGE_MAX \<and> tn_config_used t \<le> CF_CONFIG_MESSAGE_MAX
     \<and> length (tn_config_reply t) = 128 \<and> tn_config_reply_sent t \<le> tn_config_reply_used t \<and> tn_config_reply_used t \<le> 128
     \<and> (tn_config_pending t \<longrightarrow> \<not> tn_config_response t \<and> tn_config_reply_sent t = 0)
     \<and> (tn_config_stream t \<noteq> 0 \<and> \<not> tn_config_response t \<longrightarrow> tn_config_reply_sent t = 0)"

text \<open>The route: a valid configuration is for the tunnel's own host name, and a configured tunnel has one.\<close>

definition route_part :: "'a esp_cf_tunnel \<Rightarrow> bool" where
  "route_part t \<longleftrightarrow> cstring (tn_hostname t) \<noteq> None \<and> config_inv (tn_remote t) \<and> cstring (cfg_hostname (tn_remote t)) \<noteq> None \<and> life_ok (tn_life t)
     \<and> (cfg_valid (tn_remote t) \<longrightarrow> cstring (tn_hostname t) = cstring (cfg_hostname (tn_remote t)))
     \<and> (configured (tn_life t) \<longrightarrow> cfg_valid (tn_remote t))"

definition session_ok :: "'a esp_cf_tunnel \<Rightarrow> bool" where
  "session_ok t \<longleftrightarrow> rpc_inv (tn_rpc t) \<and> cred_sized (tn_credentials t) \<and> length (op_connector_id (tn_options t)) = 16
     \<and> queue_ok (tn_rpc_queue t, tn_rpc_queued t) \<and> frame_part t \<and> config_part t \<and> route_part t"

lemmas session_parts = session_ok_def frame_part_def config_part_def route_part_def

lemma say_simps [simp]:
  "tn_app (say x t) = tn_app t" "tn_rpc (say x t) = tn_rpc t" "tn_life (say x t) = tn_life t" "tn_framer (say x t) = tn_framer t"
  "tn_control_stream (say x t) = tn_control_stream t" "tn_config_stream (say x t) = tn_config_stream t" "session_ok (say x t) = session_ok t"
  by (simp_all add: say_def session_parts)

lemma advance_Some: "\<exists>rc l'. cf_lifecycle_advance (Some l) e = (rc, Some l')"
  by (cases e) (auto simp: cf_lifecycle_advance_def Let_def)

lemma life_event_eq: "life_event e t = t\<lparr>tn_life := exec_op (Advance e) (tn_life t)\<rparr>"
  using advance_Some [of "tn_life t" e] by (auto simp: life_event_def)

lemma stopping_advance: "state l = CF_STOPPING \<Longrightarrow> exec_op (Advance e) l = l"
  by (simp add: cf_lifecycle_advance_def terminal_def)

lemma life_advance_ok: "life_ok l \<Longrightarrow> life_ok (exec_op (Advance e) l)"
  unfolding life_ok_def using exec_op_inv [of l "Advance e"] stopping_advance [of l e] by (auto simp del: exec_op.simps)

lemma life_advance_configured:
  "life_ok l \<Longrightarrow> configured (exec_op (Advance e) l) \<Longrightarrow> configured l \<or> e = CF_EVENT_CONFIG_APPLIED"
  unfolding life_ok_def using configured_step [of l "Advance e"] stopping_advance [of l e] by (auto simp del: exec_op.simps)

lemma life_event_session:
  assumes "session_ok t" "e = CF_EVENT_CONFIG_APPLIED \<Longrightarrow> cfg_valid (tn_remote t)"
  shows "session_ok (life_event e t)"
  using assms life_advance_ok [of "tn_life t" e] life_advance_configured [of "tn_life t" e]
  by (auto simp: life_event_eq session_parts simp del: exec_op.simps)

text \<open>What the consumer of RPC frames leaves alone.\<close>

definition keeps :: "'a esp_cf_tunnel \<Rightarrow> 'a esp_cf_tunnel \<Rightarrow> bool" where
  "keeps t t' \<longleftrightarrow> tn_framer t' = tn_framer t \<and> tn_control_stream t' = tn_control_stream t \<and> tn_rpc_frame t' = tn_rpc_frame t \<and> tn_app t' = tn_app t"

definition acts :: "'a esp_cf_tunnel \<times> 'n cf_h2 \<Rightarrow> (cf_result \<times> 'a esp_cf_tunnel \<times> 'n cf_h2) option \<Rightarrow> bool" where
  "acts st x \<longleftrightarrow> (\<exists>rc t h. x = Some (rc, t, h) \<and> session_ok t \<and> h2_touch (snd st) h \<and> keeps (fst st) t)"

lemma append_acts:
  assumes "session_ok t" "n \<le> length out"
  shows "acts (t, h) (append_rpc ng out n (t, h))"
proof -
  have q: "queue_ok (tn_rpc_queue t, tn_rpc_queued t)" using assms(1) by (simp add: session_ok_def)
  obtain r where r: "rpc_push (take n out) (tn_rpc_queue t, tn_rpc_queued t) = Some r" "\<And>q'. r = Some q' \<Longrightarrow> queue_ok q'"
    using rpcq.push_full [OF q, of "take n out"] rpcq.push_fits [OF q, of "take n out"]
    by (cases "length (queued_bytes (tn_rpc_queue t, tn_rpc_queued t)) + length (take n out) \<le> RPC_QUEUE") auto
  have res: "\<exists>h'. snd (if c \<noteq> 0 then cf_h2_resume ng (Some h) c else (CF_OK, Some h)) = Some h' \<and> h2_touch h h'" for c
    using resume_touch [of ng h c] by auto
  show ?thesis
  proof (cases r)
    case None
    then show ?thesis using r assms by (simp add: acts_def append_rpc_def load_n_Some keeps_def)
  next
    case (Some q')
    obtain m k where q': "q' = (m, k)" by fastforce
    obtain h' where h': "snd (if tn_control_stream t \<noteq> 0 then cf_h2_resume ng (Some h) (tn_control_stream t) else (CF_OK, Some h)) = Some h'"
      "h2_touch h h'" using res by blast
    have "append_rpc ng out n (t, h) = Some (CF_OK, t\<lparr>tn_rpc_queue := m, tn_rpc_queued := k\<rparr>, h')"
      using r(1) Some q' assms(2) h'(1) by (cases "tn_control_stream t = 0") (auto simp: append_rpc_def load_n_Some case_prod_unfold Let_def)
    moreover have "queue_ok (m, k)" using r(2) Some q' by simp
    ultimately show ?thesis using assms(1) h'(2) by (auto simp: acts_def keeps_def session_parts)
  qed
qed

lemma acts_cases:
  assumes "acts (t, h) x" obtains rc t' h' where "x = Some (rc, t', h')" "session_ok t'" "h2_touch h h'" "keeps t t'"
  using assms by (auto simp: acts_def)

lemma acts_fault:
  assumes "acts (t, h) (Some (rc, t', h'))" shows "acts (t, h) (Some (rc', t'\<lparr>tn_fault := b\<rparr>, h'))"
  using assms by (auto simp: acts_def keeps_def session_parts)

lemma acts_trans:
  "acts (t, h) (Some (rc, t1, h1)) \<Longrightarrow> acts (t1, h1) x \<Longrightarrow> acts (t, h) x"
  by (auto simp: acts_def keeps_def intro: h2_touch_trans)

lemma rpc_out_length: "length rpc_out = CF_RPC_TX_MAX"
  by (simp add: rpc_out_def)

lemma send_registration_acts:
  assumes "session_ok t" shows "acts (t, h) (send_registration ng (t, h))"
proof -
  define opt where "opt = (tn_options t)\<lparr>op_local_ip := Bytes (env_local_ip (tn_environment t)),
       op_previous_attempts := (if tn_attempts t > 256 then 255 else ucast (tn_attempts t - 1))\<rparr>"
  have sz: "cred_sized (tn_credentials t)" "length (op_connector_id opt) = 16" "rpc_inv (tn_rpc t)" using assms by (simp_all add: session_ok_def opt_def)
  obtain rc r out n where g: "cf_rpc_register (Some (tn_rpc t)) (Some (tn_credentials t)) (Some opt) (Some rpc_out) CF_RPC_TX_MAX (Some 0)
      = Some (rc, Some r, Some out, Some n)" and ok: "if rpc_state (tn_rpc t) \<noteq> CF_RPC_READY \<or> \<not> rpc_have_capability (tn_rpc t) then rc = CF_ERR_STATE \<and> r = tn_rpc t \<and> out = rpc_out \<and> n = 0
    else if \<not> register_valid (tn_credentials t) opt then rc = CF_ERR_ARGUMENT \<and> r = tn_rpc t \<and> out = rpc_out \<and> n = 0
    else rc = CF_OK \<and> r = (tn_rpc t)\<lparr>rpc_state := CF_RPC_REGISTERING\<rparr> \<and> out_frame CF_RPC_TX_MAX rpc_out out n"
    using register_yields [OF _ _ sz(1,2), of rpc_out CF_RPC_TX_MAX "tn_rpc t" 0] unfolding yields_def rpc_gives_def by (auto simp: rpc_out_length)
  have r: "rpc_inv r" "n \<le> length out" using ok sz(3) by (auto simp: rpc_inv_def rpc_sized_def out_frame_def rpc_out_length split: if_splits)
  let ?t = "t\<lparr>tn_options := opt, tn_rpc := r, tn_credentials := zero_credentials\<rparr>"
  have s: "session_ok ?t" using assms r(1) sz(2) by (simp add: session_parts cred_sized_def zero_credentials_def)
  have base: "acts (t, h) (Some (rc, ?t, h))" using s by (auto simp: acts_def keeps_def)
  obtain rc' t' h' where a: "(if rc = CF_OK then append_rpc ng out n (?t, h) else Some (rc, ?t, h)) = Some (rc', t', h')" "acts (t, h) (Some (rc', t', h'))"
  proof (cases "rc = CF_OK")
    case True
    from append_acts [OF s r(2), of h ng] obtain rc' t' h' where "append_rpc ng out n (?t, h) = Some (rc', t', h')" by (rule acts_cases)
    then show ?thesis using that True acts_trans [OF base append_acts [OF s r(2), of h ng]] by simp
  next
    case False
    then show ?thesis using that base by simp
  qed
  have "send_registration ng (t, h) = Some (rc', if rc' \<noteq> CF_OK then t'\<lparr>tn_fault := True\<rparr> else t', h')"
    using g a(1) by (cases "rc = CF_OK") (auto simp: send_registration_def opt_def [symmetric] Let_def)
  then show ?thesis using a(2) acts_fault [OF a(2)] by (cases "rc' = CF_OK") auto
qed

lemma rpc_follow_acts:
  assumes "session_ok t" shows "acts (t, h) (rpc_follow ng now (t, h))"
proof -
  have e: "session_ok (life_event CF_EVENT_REGISTERED t)" by (rule life_event_session [OF assms]) simp
  have d: "session_ok (x\<lparr>tn_deadline_ms := y\<rparr>) = session_ok x" "session_ok (x\<lparr>tn_fault := b\<rparr>) = session_ok x"
      "session_ok (x\<lparr>tn_message := m\<rparr>) = session_ok x" for x :: "'a esp_cf_tunnel" and y b m
    by (simp_all add: session_parts)
  show ?thesis using assms send_registration_acts [OF assms, of h ng] e d
    by (simp add: rpc_follow_def Let_def acts_def keeps_def life_event_eq say_def)
qed

lemma rpc_message_acts:
  assumes "session_ok t" shows "acts (t, h) (rpc_message ng now (t, h) (Bytes xs))"
proof -
  have inv: "rpc_inv (tn_rpc t)" using assms by (simp add: session_ok_def)
  obtain rc r out n where g: "cf_rpc_receive (Some (tn_rpc t)) (Bytes xs) (Some rpc_out) CF_RPC_TX_MAX (Some 0) = Some (rc, Some r, Some out, Some n)"
      "rpc_inv r" "n \<le> length out"
    using receive_yields [OF _ _ inv, of rpc_out CF_RPC_TX_MAX xs 0] inv unfolding yields_def rpc_gives_def received_def
    by (auto simp: rpc_out_length split: if_splits)
  let ?t = "t\<lparr>tn_rpc := r\<rparr>"
  have s: "session_ok ?t" using assms g(2) by (simp add: session_parts)
  have base: "acts (t, h) (Some (CF_OK, ?t, h))" using s by (auto simp: acts_def keeps_def)
  obtain arc t' h' where a: "append_rpc ng out n (?t, h) = Some (arc, t', h')" "session_ok t'" "h2_touch h h'" "keeps ?t t'"
    using append_acts [OF s g(3), of h ng] by (rule acts_cases)
  have step: "acts (t, h) (Some (arc, t', h'))" using a by (auto simp: acts_def keeps_def)
  let ?rc = "if arc \<noteq> CF_OK then CF_ERR_LIMIT else rc"
  have run: "rpc_message ng now (t, h) (Bytes xs) = (if ?rc \<noteq> CF_OK
      then Some (?rc, (say (str ''Registration RPC failed or used an unsupported message.'') t')\<lparr>tn_fault := True\<rparr>, h')
      else rpc_follow ng now (t', h'))"
    using g(1) a(1) by (simp add: rpc_message_def Let_def)
  have "acts (t, h) (Some (?rc, (say x t')\<lparr>tn_fault := True\<rparr>, h'))" for x
    by (rule acts_fault [of _ _ arc]) (use step in \<open>auto simp: acts_def keeps_def say_def session_parts\<close>)
  then show ?thesis using run acts_trans [OF step rpc_follow_acts [OF a(2)]] by simp
qed

text \<open>The consumer of frames meets the framer's contract.\<close>

interpretation rpc_sink: frame_sink "rpc_message ng now" CF_CAPNP_MESSAGE_MAX "\<lambda>st. session_ok (fst st) \<and> h2_touch hs (snd st) \<and> keeps ts (fst st)"
  for ng :: "'n nghttp2" and now :: u64 and hs :: "'n cf_h2" and ts :: "'a esp_cf_tunnel"
proof
  fix st :: "'a esp_cf_tunnel \<times> 'n cf_h2" and fr :: "u8 list"
  obtain t h where st: "st = (t, h)" by fastforce
  assume "session_ok (fst st) \<and> h2_touch hs (snd st) \<and> keeps ts (fst st)"
  moreover from this rpc_message_acts [of t h ng now fr] obtain rc t' h' where
      "rpc_message ng now (t, h) (Bytes fr) = Some (rc, t', h')" "session_ok t'" "h2_touch h h'" "keeps t t'"
    by (auto simp: st elim: acts_cases)
  ultimately show "\<exists>rc st'. rpc_message ng now st (Bytes fr) = Some (rc, st') \<and> session_ok (fst st') \<and> h2_touch hs (snd st') \<and> keeps ts (fst st')"
    by (auto simp: st keeps_def intro: h2_touch_trans)
qed

section \<open>The callbacks keep the session\<close>

definition session_acts :: "('a \<Rightarrow> bool) \<Rightarrow> 'n cf_h2 \<Rightarrow> 'a esp_cf_tunnel \<Rightarrow> 'n cf_h2 \<Rightarrow> bool" where
  "session_acts ok h t' h' \<longleftrightarrow> session_ok t' \<and> ok (tn_app t') \<and> h2_touch h h'"

lemma framer_update_session:
  assumes "session_ok t" "framer_inv f" "fr_capacity f = CF_CAPNP_MESSAGE_MAX" "fr_buffer f = Some m" "length m = CF_CAPNP_MESSAGE_MAX"
  shows "session_ok (t\<lparr>tn_framer := f, tn_rpc_frame := m\<rparr>)"
  using assms by (simp add: session_parts)

lemma feed_session:
  assumes "session_ok t" "tn_control_stream t \<noteq> 0"
  shows "\<exists>rc f m n t' h'. cf_capnp_feed (Some (tn_framer t)) (Bytes xs) (Some 0) (Some (rpc_message ng now)) (t, h) = Some (rc, Some f, Some n, t', h')
    \<and> fr_buffer f = Some m \<and> session_ok (t'\<lparr>tn_framer := f, tn_rpc_frame := m\<rparr>) \<and> h2_touch h h' \<and> tn_app t' = tn_app t"
proof -
  let ?f = "tn_framer t"
  have f: "framer_inv ?f" "fr_capacity ?f = CF_CAPNP_MESSAGE_MAX" "map_option length (fr_buffer ?f) = Some CF_CAPNP_MESSAGE_MAX"
    using assms by (simp_all add: session_parts)
  then obtain m where m: "fr_buffer ?f = Some m" "length m = CF_CAPNP_MESSAGE_MAX" by auto
  show ?thesis
  proof (cases "fr_error ?f = CF_OK")
    case False
    then show ?thesis using m framer_update_session [OF assms(1) f(1,2) m] by (simp add: cf_capnp_feed_def)
  next
    case True
    then obtain w where w: "framer_waits ?f w" using f(1) by (auto simp: framer_inv_cases)
    obtain rc f' n t' h' w' where g: "feed_loop (rpc_message ng now) xs ?f 0 (t, h) = Some (rc, f', n, (t', h'))"
        "session_ok t'" "h2_touch h h'" "keeps t t'"
        "if rc = CF_OK then n = length xs \<and> framer_waits f' w' \<and> fr_capacity f' = CF_CAPNP_MESSAGE_MAX else framer_stopped f' w' rc"
      using rpc_sink.feed_loop_safe [where ng = ng and now = now and hs = h and ts = t, OF w f(2), of 0 xs "(t, h)"] assms(1)
      by (auto simp: keeps_def)
    have inv: "framer_inv f'" using g(5) by (auto simp: framer_inv_def framer_waits_def framer_stopped_def framer_live_def split: if_splits)
    have room: "fr_capacity f' = CF_CAPNP_MESSAGE_MAX" "map_option length (fr_buffer f') = Some CF_CAPNP_MESSAGE_MAX"
      using loop_room [OF g(1)] f by simp_all
    then obtain m' where m': "fr_buffer f' = Some m'" "length m' = CF_CAPNP_MESSAGE_MAX" by auto
    have "session_ok (t'\<lparr>tn_framer := f', tn_rpc_frame := m'\<rparr>)" by (rule framer_update_session [OF g(2) inv room(1) m'])
    then show ?thesis using g(1,3,4) True m m' by (auto simp: cf_capnp_feed_def keeps_def)
  qed
qed

lemma session_fields [simp]:
  "session_ok (t\<lparr>tn_fault := b\<rparr>) = session_ok t" "session_ok (t\<lparr>tn_app := a\<rparr>) = session_ok t" "session_ok (t\<lparr>tn_deadline_ms := d\<rparr>) = session_ok t"
  by (simp_all add: session_parts)

lemma session_ok_message: "session_ok (t\<lparr>tn_message := m\<rparr>) = session_ok t"
  by (simp add: session_parts)

lemma control_data_acts:
  assumes "session_ok t" "ok (tn_app t)" "tn_control_stream t \<noteq> 0" "\<not> bytes_bad data"
  shows "\<exists>rc t' h'. control_data ng now (t, h) data fin = Some (rc, t', h') \<and> session_acts ok h t' h'"
proof (cases "(fin \<and> rpc_state (tn_rpc t) \<noteq> CF_RPC_CLOSED) \<or> bytes_len data = 0")
  case True
  then show ?thesis using assms by (auto simp: control_data_def session_acts_def)
next
  case False
  then obtain xs where xs: "data = Bytes xs" using assms(4) by (cases data) auto
  obtain rc f m n t' h' where g: "cf_capnp_feed (Some (tn_framer t)) data (Some 0) (Some (rpc_message ng now)) (t, h) = Some (rc, Some f, Some n, t', h')"
      "fr_buffer f = Some m" "session_ok (t'\<lparr>tn_framer := f, tn_rpc_frame := m\<rparr>)" "h2_touch h h'" "tn_app t' = tn_app t"
    using feed_session [OF assms(1,3), of xs ng now h] xs by auto
  have "session_acts ok h (t'\<lparr>tn_framer := f, tn_rpc_frame := m\<rparr>) h'" "session_acts ok h (t'\<lparr>tn_framer := f, tn_rpc_frame := m, tn_fault := True\<rparr>) h'"
    using g(3-5) assms(2) by (simp_all add: session_acts_def)
  moreover have "control_data ng now (t, h) data fin = (let t' = t'\<lparr>tn_framer := f, tn_rpc_frame := m\<rparr> in
      if rc \<noteq> CF_OK \<or> n \<noteq> bytes_len data then Some (if rc = CF_OK then CF_ERR_STATE else rc, t'\<lparr>tn_fault := True\<rparr>, h') else Some (CF_OK, t', h'))"
    using False g(1,2) by (auto simp: control_data_def Let_def)
  ultimately show ?thesis by (simp add: Let_def)
qed

lemma config_data_session:
  assumes "session_ok t" "\<not> bytes_bad data" "tn_config_stream t \<noteq> 0"
  shows "\<exists>rc t'. config_data t data fin = Some (rc, t') \<and> session_ok t' \<and> tn_app t' = tn_app t"
proof (cases "tn_config_pending t \<or> tn_config_response t \<or> bytes_len data > size_sub CF_CONFIG_MESSAGE_MAX (tn_config_used t)")
  case True
  then show ?thesis using assms by (simp add: config_data_def)
next
  case False
  have c: "length (tn_config_bytes t) = CF_CONFIG_MESSAGE_MAX" "tn_config_used t \<le> CF_CONFIG_MESSAGE_MAX" using assms(1) by (simp_all add: session_parts)
  have l: "tn_config_used t + bytes_len data \<le> CF_CONFIG_MESSAGE_MAX" using False c by (auto simp: size_sub_def)
  let ?m = "splice (tn_config_bytes t) (tn_config_used t) (bytes_list data)"
  have "store_n (tn_config_bytes t) (tn_config_used t) (bytes_list data) = Some ?m" "length ?m = CF_CONFIG_MESSAGE_MAX"
    using c l bytes_list_len [OF assms(2)] by (simp_all add: store_n_Some)
  then show ?thesis using False l assms(1,3) by (auto simp: config_data_def Let_def session_parts)
qed

lemma control_request_acts:
  assumes "session_ok t" "ok (tn_app t)" "h2_core h"
  shows "\<exists>rc t' h'. control_request ng now (t, h) r = Some (rc, t', h') \<and> session_acts ok h t' h'"
proof (cases "tn_control_stream t \<noteq> 0 \<or> rq_end_stream r")
  case True
  then show ?thesis using assms by (simp add: control_request_def session_acts_def)
next
  case False
  define f where "f = framer_reset \<lparr>fr_buffer = Some (tn_rpc_frame t), fr_capacity = CF_CAPNP_MESSAGE_MAX, fr_used = 0, fr_target = 0,
              fr_segments = 0, fr_phase = 0, fr_error = CF_OK\<rparr>"
  have init: "cf_capnp_framer_init (Some g) (Some (tn_rpc_frame t)) CF_CAPNP_MESSAGE_MAX = (CF_OK, Some f)" for g
    by (simp add: cf_capnp_framer_init_def f_def CF_CAPNP_MESSAGE_MAX_def)
  have len: "length (tn_rpc_frame t) = CF_CAPNP_MESSAGE_MAX" using assms(1) by (simp add: session_parts)
  have fresh: "framer_inv f" using init_fresh [OF init [of f]] len by (auto simp: framer_fresh_def framer_inv_cases framer_waits_def framer_live_def)
  let ?t1 = "t\<lparr>tn_control_stream := rq_stream r\<rparr>"
  define t2 where "t2 = (if state (tn_life t) = CF_HTTP2 then life_event CF_EVENT_HTTP2_READY ?t1 else ?t1)"
  obtain r1 out n where b: "cf_rpc_begin (Some zero_rpc) (Some rpc_out) CF_RPC_TX_MAX (Some 0) = Some (CF_OK, Some r1, Some out, Some n)"
      "r1 = zero_rpc\<lparr>rpc_state := CF_RPC_BOOTSTRAPPING\<rparr>" "n \<le> length out"
    using begin_yields [of rpc_out CF_RPC_TX_MAX zero_rpc 0] zero_rpc_inv unfolding yields_def rpc_gives_def
    by (auto simp: rpc_out_length out_frame_def)
  let ?t3 = "t2\<lparr>tn_rpc := r1, tn_framer := f\<rparr>"
  have "session_ok (life_event CF_EVENT_HTTP2_READY t)" by (rule life_event_session [OF assms(1)]) simp
  then have s3: "session_ok ?t3" "tn_app ?t3 = tn_app t"
    using assms(1) fresh len bootstrapping_inv b(2)
    by (auto simp: t2_def life_event_eq session_parts f_def framer_reset_def simp del: exec_op.simps)
  obtain rc t4 h4 where a: "append_rpc ng out n (?t3, h) = Some (rc, t4, h4)" "session_ok t4" "h2_touch h h4" "keeps ?t3 t4"
    using append_acts [OF s3(1) b(3), of h ng] by (rule acts_cases)
  obtain rc5 h5 where resp: "cf_h2_respond ng (Some h4) (rq_stream r) 200 (Null_Headers 0) False = Some (rc5, Some h5)" "h2_touch h4 h5"
    using respond_touch [OF core_touch [OF assms(3) a(3)]] by blast
  have app: "ok (tn_app t4)" using a(4) s3(2) assms(2) by (simp add: keeps_def)
  have frame: "tn_rpc_frame t2 = tn_rpc_frame t" by (simp add: t2_def life_event_eq del: exec_op.simps)
  have run: "control_request ng now (t, h) r = (if rc \<noteq> CF_OK then Some (rc, t4, h4) else Some (rc5, t4\<lparr>tn_deadline_ms := now + 30000\<rparr>, h5))"
    using False init b a(1) resp(1) frame unfolding control_request_def
    by (simp add: Let_def t2_def [symmetric] cf_rpc_init_def)
  show ?thesis unfolding run session_acts_def using app a(2,3) h2_touch_trans [OF a(3) resp(2)] by simp
qed

lemma read_session:
  assumes "session_ok t"
  shows "\<exists>rc out eof t'. control_read t cap = Some (rc, out, eof, t') \<and> session_ok t' \<and> tn_app t' = tn_app t"
    and "\<exists>rc out eof t'. config_read t cap = Some (rc, out, eof, t') \<and> session_ok t' \<and> tn_app t' = tn_app t"
proof -
  have q: "queue_ok (tn_rpc_queue t, tn_rpc_queued t)" using assms by (simp add: session_ok_def)
  obtain m n where "rpc_pull cap (tn_rpc_queue t, tn_rpc_queued t) = Some (take cap (queued_bytes (tn_rpc_queue t, tn_rpc_queued t)), m, n)" "queue_ok (m, n)"
    using rpcq.pull_takes [OF q, of cap] by auto
  moreover from this have "session_ok (t\<lparr>tn_rpc_queue := m, tn_rpc_queued := n\<rparr>)" using assms by (simp add: session_parts)
  ultimately show "\<exists>rc out eof t'. control_read t cap = Some (rc, out, eof, t') \<and> session_ok t' \<and> tn_app t' = tn_app t"
    by (simp add: control_read_def Let_def)
  have c: "length (tn_config_reply t) = 128" "tn_config_reply_sent t \<le> tn_config_reply_used t" "tn_config_reply_used t \<le> 128"
    using assms by (simp_all add: session_parts)
  define n where "n = (if size_sub (tn_config_reply_used t) (tn_config_reply_sent t) > cap then cap else size_sub (tn_config_reply_used t) (tn_config_reply_sent t))"
  have n: "tn_config_reply_sent t + n \<le> tn_config_reply_used t" using c by (auto simp: n_def size_sub_def)
  show "\<exists>rc out eof t'. config_read t cap = Some (rc, out, eof, t') \<and> session_ok t' \<and> tn_app t' = tn_app t"
  proof (cases "tn_config_response t")
    case True
    have "session_ok (t\<lparr>tn_config_reply_sent := tn_config_reply_sent t + n\<rparr>)" using assms n True by (auto simp: session_parts)
    then show ?thesis using True n c by (simp add: config_read_def Let_def n_def [symmetric] load_n_Some)
  qed (use assms in \<open>auto simp: config_read_def\<close>)
qed

lemma closed_session:
  assumes "session_ok t"
  shows "session_ok (t\<lparr>tn_control_stream := 0\<rparr>)"
    and "session_ok (t\<lparr>tn_config_stream := 0, tn_config_used := 0, tn_config_pending := False, tn_config_response := False,
         tn_config_bytes := replicate (length (tn_config_bytes t)) 0\<rparr>)"
    and "session_ok (snd (config_request t r))"
  using assms by (simp_all add: session_parts config_request_def)

text \<open>
  The tunnel meets the engine's contract as soon as the application does: the tunnel's callbacks have a
  result on whatever the edge sends, act on the engine only through its operations, and keep the session.
\<close>

locale tunnel_host = app: h2_application "tc_callbacks cfg" ng ok
  for cfg :: "('a, 'n) esp_cf_tunnel_config" and ng :: "'n nghttp2" and ok :: "'a \<Rightarrow> bool" +
  fixes now :: u64

sublocale tunnel_host \<subseteq> tunnel: h2_application "tunnel_callbacks cfg ng now" ng "\<lambda>t. session_ok t \<and> ok (tn_app t)"
proof
  fix t :: "'a esp_cf_tunnel" and h :: "'n cf_h2"
  assume t: "session_ok t \<and> ok (tn_app t)" and core: "h2_core h"
  have acts: "\<exists>rc t' h'. x = Some (rc, t', h') \<and> (session_ok t' \<and> ok (tn_app t')) \<and> h2_touch h h'"
    if "\<exists>rc t' h'. x = Some (rc, t', h') \<and> session_acts ok h t' h'" for x :: "(cf_result \<times> 'a esp_cf_tunnel \<times> 'n cf_h2) option"
    using that by (auto simp: session_acts_def)
  show "\<exists>rc t' h'. cb_request (tunnel_callbacks cfg ng now) (t, h) r = Some (rc, t', h') \<and> (session_ok t' \<and> ok (tn_app t')) \<and> h2_touch h h'"
    if rs: "rq_stream r \<noteq> 0" for r
  proof -
    obtain name where name: "cstring (cfg_hostname (tn_remote t)) = Some name" using t by (auto simp: session_parts)
    obtain rc a h' where "cb_request (tc_callbacks cfg) (tn_app t, h) r = Some (rc, a, h')" "ok a" "h2_touch h h'"
      using app.request_ok [of "tn_app t" h r] t core rs by blast
    then show ?thesis
      using acts [OF control_request_acts [of t ok h ng now r]] t core name closed_session(3) [of t r]
      by (cases "rq_kind r") (auto simp: tunnel_callbacks_def h2_request_def case_prod_unfold config_request_def)
  qed
  show "\<exists>rc t' h'. cb_data (tunnel_callbacks cfg ng now) (t, h) sid b fin = Some (rc, t', h') \<and> (session_ok t' \<and> ok (tn_app t')) \<and> h2_touch h h'"
    if nb: "\<not> bytes_bad b" "sid \<noteq> 0" for b sid fin
  proof -
    obtain rc a h' where app: "cb_data (tc_callbacks cfg) (tn_app t, h) sid b fin = Some (rc, a, h')" "ok a" "h2_touch h h'"
      using app.data_ok [of "tn_app t" h b sid fin] t core nb by blast
    have conf: "\<exists>rc' t'. config_data t b fin = Some (rc', t') \<and> session_ok t' \<and> tn_app t' = tn_app t" if "sid = tn_config_stream t"
      using config_data_session [of t b fin] t nb that by simp
    consider "sid = tn_control_stream t" | "sid \<noteq> tn_control_stream t" "sid = tn_config_stream t"
      | "sid \<noteq> tn_control_stream t" "sid \<noteq> tn_config_stream t" by blast
    then show ?thesis
    proof cases
      case 1
      then show ?thesis using acts [OF control_data_acts [of t ok b ng now h fin]] t nb by (simp add: tunnel_callbacks_def h2_data_def)
    qed (use app conf t in \<open>auto simp: tunnel_callbacks_def h2_data_def\<close>)
  qed
  show "\<exists>rc bytes eof t' h'. cb_read_response (tunnel_callbacks cfg ng now) (t, h) sid cap = Some (rc, bytes, eof, t', h')
      \<and> (session_ok t' \<and> ok (tn_app t')) \<and> h2_touch h h'" for sid cap
  proof -
    obtain rc bs eof a h' where app: "cb_read_response (tc_callbacks cfg) (tn_app t, h) sid cap = Some (rc, bs, eof, a, h')" "ok a" "h2_touch h h'"
      using app.read_ok [of "tn_app t" h sid cap] t core by blast
    obtain rc1 o1 e1 t1 where c1: "control_read t cap = Some (rc1, o1, e1, t1)" "session_ok t1" "tn_app t1 = tn_app t"
      using read_session(1) [of t cap] t by blast
    obtain rc2 o2 e2 t2 where c2: "config_read t cap = Some (rc2, o2, e2, t2)" "session_ok t2" "tn_app t2 = tn_app t"
      using read_session(2) [of t cap] t by blast
    consider "sid = tn_control_stream t" | "sid \<noteq> tn_control_stream t" "sid = tn_config_stream t"
      | "sid \<noteq> tn_control_stream t" "sid \<noteq> tn_config_stream t" by blast
    then show ?thesis
      by cases (use app c1 c2 t in \<open>auto simp: tunnel_callbacks_def h2_read_def\<close>)
  qed
  show "\<exists>t' h'. cb_closed (tunnel_callbacks cfg ng now) (t, h) sid e = Some (t', h') \<and> (session_ok t' \<and> ok (tn_app t')) \<and> h2_touch h h'" for sid e
  proof -
    obtain a h' where app: "cb_closed (tc_callbacks cfg) (tn_app t, h) sid e = Some (a, h')" "ok a" "h2_touch h h'"
      using app.closed_ok [of "tn_app t" h sid e] t core by blast
    consider "sid = tn_control_stream t" | "sid \<noteq> tn_control_stream t" "sid = tn_config_stream t"
      | "sid \<noteq> tn_control_stream t" "sid \<noteq> tn_config_stream t" by blast
    then show ?thesis
    proof cases
      case 1
      have "session_ok (say x (t\<lparr>tn_fault := True\<rparr>))" for x using t by simp
      then show ?thesis using 1 t closed_session(1)
        by (auto simp: tunnel_callbacks_def h2_closed_def Let_def)
    qed (use app t closed_session(2) in \<open>auto simp: tunnel_callbacks_def h2_closed_def\<close>)
  qed
qed

section \<open>Opening and closing\<close>

lemma zeros_queue: "queue_ok (replicate RPC_QUEUE 0, 0)"
  by (simp add: queue_ok_def)

lemma zeroed_life: "life_ok zeroed"
  by (simp add: life_ok_def life_inv_def zeroed_def active_def)

lemma cstring_zeros: "0 < n \<Longrightarrow> cstring (replicate n 0) = Some []"
  by (cases n) (simp_all add: cstring_def)

lemma new_session: "length rnd = 16 \<Longrightarrow> session_ok (new_tunnel cfg rnd json a)"
  by (simp add: session_parts new_tunnel_def zero_rpc_inv cred_sized_def zero_credentials_def connector_uuid_def zeros_queue zeroed_life [unfolded zeroed_def]
      config_inv_def config_sized_def cstring_zeros zeroed_def del: replicate.simps)

lemma erase_session_ok:
  assumes "session_ok t" shows "session_ok ((erase_session t)\<lparr>tn_life := l\<rparr>) \<longleftrightarrow> life_ok l \<and> \<not> configured l"
  using assms zero_rpc_inv zeros_queue
  by (auto simp: session_parts erase_session_def cf_config_init_def config_inv_def config_sized_def cstring_zeros cred_sized_def
      zero_credentials_def queue_ok_def simp del: replicate.simps)

lemma cstring_holds: "holds_string m s \<Longrightarrow> 0 \<notin> set s \<Longrightarrow> cstring m = Some s"
proof -
  assume a: "holds_string m s" "0 \<notin> set s"
  then have "m = s @ 0 # drop (length s + 1) m" by (metis append_take_drop_id append.assoc append_Cons append_Nil holds_string_def)
  moreover have "takeWhile (\<lambda>c. c \<noteq> 0) (s @ 0 # ys) = s" for ys using a(2) by (induction s) auto
  ultimately show ?thesis by (metis cstring_def in_set_conv_decomp)
qed

lemma cstring_nonzero: "cstring m = Some s \<Longrightarrow> 0 \<notin> set s"
  by (auto simp: cstring_def split: if_splits dest: set_takeWhileD)

lemma applies_route:
  assumes "applies parser st update host serv rc st'" "cstring hn = Some host" "config_inv st" "cstring (cfg_hostname st) \<noteq> None"
    "cfg_valid st \<longrightarrow> cstring hn = cstring (cfg_hostname st)"
  shows "config_inv st'" "cstring (cfg_hostname st') \<noteq> None" "cfg_valid st' \<longrightarrow> cstring hn = cstring (cfg_hostname st')"
    "rc = CF_OK \<or> cfg_valid st \<Longrightarrow> cfg_valid st'"
proof -
  show "config_inv st'" using applies_inv [OF assms(3,1)] by simp
  have new: "cstring (cfg_hostname st') = Some host" if "holds_string (cfg_hostname st') host"
    using cstring_holds [OF that] cstring_nonzero [OF assms(2)] by blast
  show "cstring (cfg_hostname st') \<noteq> None" "cfg_valid st' \<longrightarrow> cstring hn = cstring (cfg_hostname st')" "rc = CF_OK \<or> cfg_valid st \<Longrightarrow> cfg_valid st'"
    using assms new by (auto simp: applies_def publishes_def split: if_splits)
qed

lemma apply_reason:
  "cf_config_apply_ex parser st update host serv (Some x) heap = Some (rc, st', why, heap') \<Longrightarrow> why \<noteq> None"
  by (cases st; cases host; cases serv) (fastforce simp: cf_config_apply_ex_def Let_def bind_eq_Some_conv split: if_splits option.splits)+

lemma apply_config_session:
  assumes "parser_strings parser" "parser_numbers parser" "session_ok t" "h2_core h"
  shows "\<exists>t' h'. apply_config cfg ng parser (t, h) = Some (t', h') \<and> session_ok t' \<and> h2_touch h h'
    \<and> (tn_config_pending t \<and> fst (tc_json_try_lock cfg (tn_app t)) \<longrightarrow> \<not> tn_config_pending t' \<and> tn_config_response t' \<and> tn_config_reply_sent t' = 0
        \<and> (\<exists>hrc. cf_h2_respond ng (Some h) (tn_config_stream t) 200 (Headers [json_header]) False = Some (hrc, Some h')
             \<and> tn_fault t' = (tn_fault t \<or> hrc \<noteq> CF_OK) \<and> tn_config_stream t' = tn_config_stream t)
        \<and> tn_config_bytes t' = replicate CF_CONFIG_MESSAGE_MAX 0
        \<and> (\<exists>applied. take (tn_config_reply_used t') (tn_config_reply t')
             = response_text (if cfg_valid (tn_remote t') then cfg_version (tn_remote t') else - 1) applied
           \<and> (applied \<longrightarrow> cfg_valid (tn_remote t')) \<and> (\<not> applied \<longrightarrow> tn_remote t' = tn_remote t)))"
proof (cases "tn_config_pending t \<and> fst (tc_json_try_lock cfg (tn_app t))")
  case False
  then show ?thesis using assms by (auto simp: apply_config_def case_prod_unfold Let_def)
next
  case True
  define a where "a = tc_json_unlock cfg (snd (tc_json_try_lock cfg (tn_app t)))"
  have c: "tn_config_used t \<le> length (tn_config_bytes t)" "length (tn_config_bytes t) = CF_CONFIG_MESSAGE_MAX" "length (tn_config_reply t) = 128"
      "config_inv (tn_remote t)" "cstring (cfg_hostname (tn_remote t)) \<noteq> None" "cfg_valid (tn_remote t) \<longrightarrow> cstring (tn_hostname t) = cstring (cfg_hostname (tn_remote t))"
      "tn_config_reply_sent t = 0"
    using assms(3) True by (simp_all add: session_parts)
  obtain host where host: "cstring (tn_hostname t) = Some host" using assms(3) by (auto simp: session_parts)
  let ?u = "take (tn_config_used t) (tn_config_bytes t)"
  obtain rc remote why heap where ap: "cf_config_apply_ex parser (Some (tn_remote t)) (Bytes ?u) (Some host) (Some (tc_service cfg)) (Some []) (tn_json t)
        = Some (rc, Some remote, Some why, heap)" "applies parser (tn_remote t) (Bytes ?u) host (tc_service cfg) rc remote"
    using config_apply_yields [OF assms(1,2), of "tn_remote t" "Bytes ?u" host "tc_service cfg" "Some []" "tn_json t"] c(4)
      apply_reason [of parser "Some (tn_remote t)" "Bytes ?u" "Some host" "Some (tc_service cfg)" "[]" "tn_json t"]
    by (auto simp: yields_def config_inv_def)
  note route = applies_route [OF ap(2) host c(4,5,6)]
  let ?txt = "response_text (if cfg_valid remote then cfg_version remote else - 1) (rc = CF_OK)"
  have tl: "length ?txt < 128" using response_length [OF route(1), of "rc = CF_OK"] by linarith
  let ?reply = "splice (tn_config_reply t) 0 (?txt @ [0])"
  have resp: "cf_config_response (Some remote) rc (Some (tn_config_reply t)) 128 (Some k) = Some (CF_OK, Some ?reply, Some (length ?txt))" for k
    using config_response_eq [of 128 "tn_config_reply t" remote rc k] c(3) tl by (simp add: Let_def)
  have rl: "length ?reply = 128" "take (length ?txt) ?reply = ?txt" using c(3) tl by (simp_all add: splice_def)
  obtain hrc h' where r: "cf_h2_respond ng (Some h) (tn_config_stream t) 200 (Headers [json_header]) False = Some (hrc, Some h')" "h2_touch h h'"
    using respond_touch [OF assms(4)] by blast
  define t1 where "t1 = t\<lparr>tn_remote := remote, tn_json := heap, tn_app := a, tn_config_reply := ?reply, tn_config_reply_used := length ?txt,
     tn_config_bytes := replicate (length (tn_config_bytes t)) 0, tn_config_used := 0, tn_config_pending := False, tn_config_response := True\<rparr>"
  let ?e = "if rc = CF_OK then CF_EVENT_CONFIG_APPLIED else CF_EVENT_CONFIG_REJECTED"
  let ?t2 = "if hrc \<noteq> CF_OK then t1\<lparr>tn_fault := True\<rparr> else t1"
  have s1: "session_ok t1" using assms(3) route rl(1) tl True unfolding t1_def by (auto simp: session_parts)
  have s2: "session_ok (life_event ?e ?t2)"
    by (rule life_event_session) (use s1 route(4) in \<open>auto simp: t1_def split: if_splits\<close>)
  have run: "apply_config cfg ng parser (t, h) = Some (say (str why) (life_event ?e ?t2), h')"
    using True c(1) host ap(1) resp r(1) unfolding apply_config_def
    by (simp add: case_prod_unfold Let_def load_n_Some t1_def a_def)
  let ?t' = "say (str why) (life_event ?e ?t2)"
  have f: "tn_remote ?t' = remote" "tn_config_reply ?t' = ?reply" "tn_config_reply_used ?t' = length ?txt"
      "\<not> tn_config_pending ?t'" "tn_config_response ?t'" "tn_config_bytes ?t' = replicate CF_CONFIG_MESSAGE_MAX 0"
      "tn_fault ?t' = (tn_fault t \<or> hrc \<noteq> CF_OK)" "tn_config_stream ?t' = tn_config_stream t" "tn_config_reply_sent ?t' = 0"
    using c(2,7) by (simp_all add: life_event_eq t1_def say_def del: exec_op.simps)
  show ?thesis
  proof (intro exI conjI impI)
    show "session_ok ?t'" using s2 by simp
    show "take (tn_config_reply_used ?t') (tn_config_reply ?t') = response_text (if cfg_valid (tn_remote ?t') then cfg_version (tn_remote ?t') else - 1) (rc = CF_OK)"
      unfolding f using rl(2) .
    show "cfg_valid (tn_remote ?t')" if "rc = CF_OK" unfolding f using route(4) that by blast
    show "tn_remote ?t' = tn_remote t" if "\<not> rc = CF_OK" unfolding f using ap(2) that by (simp add: applies_def)
  qed (rule run r f)+
qed

text \<open>The reply of a session that has one, read in one piece.\<close>

lemma config_read_reply:
  assumes "session_ok t" "tn_config_response t" "tn_config_reply_sent t = 0"
  shows "config_read t 128 = Some (CF_OK, take (tn_config_reply_used t) (tn_config_reply t), True, t\<lparr>tn_config_reply_sent := tn_config_reply_used t\<rparr>)"
proof -
  have "tn_config_reply_used t \<le> 128" "length (tn_config_reply t) = 128" using assms(1) by (simp_all add: session_parts)
  then show ?thesis using assms(2,3) by (simp add: config_read_def size_sub_def Let_def load_n_def)
qed

context tunnel_host
begin

lemma tunnel_application: "h2_application (tunnel_callbacks cfg ng now) (\<lambda>t. session_ok t \<and> ok (tn_app t))"
  by (rule tunnel.h2_application_axioms)

lemma session_events:
  assumes "session_ok t" "ok (tn_app t)" "h2_inv h" "events_ok (tunnel_callbacks cfg ng now) ng es (t, h)"
  shows "\<exists>t' h'. h2_events (tunnel_callbacks cfg ng now) ng es (t, h) = Some (t', h') \<and> session_ok t' \<and> ok (tn_app t') \<and> h2_inv h'"
  using tunnel.events_good [of t h es] assms by (auto simp: h2_good_def)

lemma close_total:
  assumes "session_ok t" "ok (tn_app t)" "\<And>h. hp = Some h \<Longrightarrow> h2_inv h"
  shows "\<exists>t'. close_connection cfg ng now t hp = Some (erase_session t') \<and> session_ok t' \<and> ok (tn_app t')"
proof -
  let ?t = "t\<lparr>tn_dns_socket := False, tn_dns_answer := None, tn_closing := True\<rparr>"
  have s: "session_ok ?t" "ok (tn_app ?t)" using assms(1,2) by (simp_all add: session_parts)
  obtain t1 where t1: "cf_h2_destroy (tunnel_callbacks cfg ng now) ?t hp = Some t1" "session_ok t1" "ok (tn_app t1)"
  proof (cases hp)
    case None
    then show ?thesis using that [of ?t] s by (simp add: cf_h2_destroy_def)
  next
    case (Some h)
    then show ?thesis using that tunnel.destroy_good [of ?t h] s assms(3) by auto
  qed
  have "session_ok (t1\<lparr>tn_closing := False\<rparr>)" using t1(2) by (simp add: session_parts)
  then show ?thesis using t1 by (auto simp: close_connection_def Let_def)
qed

end

section \<open>Properties\<close>

text \<open>C8. The byte queue of the control stream implements a bounded first-in first-out buffer: over every sequence
  of appends and reads, the accepted appends, the bytes read and the bytes left are those of the abstract buffer of
  4096 bytes, no access leaves the array, and outside the queued bytes the array holds only zeros.\<close>

theorem rpc_queue_refines_fifo:
  "\<exists>m n. queue_run rpc_push rpc_pull ops (replicate RPC_QUEUE 0, 0) = Some (fst (fifo_run RPC_QUEUE ops []), m, n)
     \<and> take n m = snd (fifo_run RPC_QUEUE ops []) \<and> drop n m = replicate (RPC_QUEUE - n) 0"
  using rpcq.run_refines [OF zeros_queue, of ops] by (auto simp: queued_bytes_def queue_ok_def)

text \<open>C3. Whatever the edge sends over HTTP/2, in whatever sequence of callbacks, the tunnel's session holds: starting from a
  consistent session and engine, all callbacks of the tunnel return, no buffer of the tunnel, its framer, its RPC client or its
  configuration is overrun, and the session and the engine are consistent again.\<close>

theorem tunnel_session_safe:
  assumes "h2_application (tc_callbacks cfg) ok" "session_ok t" "ok (tn_app t)" "h2_inv h"
    and "events_ok (tunnel_callbacks cfg ng now) ng es (t, h)"
  shows "\<exists>t' h'. h2_events (tunnel_callbacks cfg ng now) ng es (t, h) = Some (t', h') \<and> session_ok t' \<and> ok (tn_app t') \<and> h2_inv h'"
  using tunnel_host.session_events [OF tunnel_host.intro [OF assms(1)] assms(2-5)] .

definition sample_cfg :: "(unit, unit) esp_cf_tunnel_config" where
  "sample_cfg = \<lparr>tc_environment = \<lambda>a. (\<lparr>env_network_ready = True, env_time_valid = True, env_local_ip = [10, 0, 0, 1], env_dns_ip = [10, 0, 0, 2]\<rparr>, a),
     tc_credentials = \<lambda>a c m. (CF_ERR_STATE, c, m, a), tc_json_try_lock = \<lambda>a. (True, a), tc_json_unlock = \<lambda>a. a, tc_callbacks = accepting,
     tc_version = [49], tc_arch = [120], tc_service = sample_service, tc_application_streams = 2\<rparr>"

definition sample_tunnel_state :: "unit esp_cf_tunnel" where
  "sample_tunnel_state = new_tunnel sample_cfg (replicate 16 7) \<lparr>json_live_bytes = 0, json_allocation_failed = False\<rparr> ()"

lemma sample_session: "session_ok sample_tunnel_state"
  by (simp add: sample_tunnel_state_def new_session)

theorem tunnel_session_safe_witness:
  "\<exists>t' h'. h2_events (tunnel_callbacks sample_cfg willing 5) willing [Begin_Headers 1 True, Frame_Received request_frame] (sample_tunnel_state, h2_new 2 8192 ())
     = Some (t', h') \<and> session_ok t' \<and> h2_inv h'"
proof -
  have app: "h2_application (tc_callbacks sample_cfg) (\<lambda>_. True)" using accepting_application by (simp add: sample_cfg_def)
  have e: "events_ok (tunnel_callbacks sample_cfg willing 5) willing [Begin_Headers 1 True, Frame_Received request_frame] (sample_tunnel_state, h2_new 2 8192 ())"
    by (simp add: request_frame_def h2_new_def ids_def used_def zero_stream_def case_prod_unfold split: option.split)
  show ?thesis using tunnel_session_safe [OF app sample_session _ new_inv e] by simp
qed

text \<open>C6. Routing. In a consistent session a request of the edge reaches the application only while the tunnel is online,
  registered and configured, and only when its \<open>:authority\<close> is exactly the tunnel's own host name; every other
  application request is refused without any effect on the session or the engine.\<close>

theorem tunnel_serves_hostname:
  assumes "session_ok t" "rq_kind r = CF_H2_HTTP" "h2_request cfg ng now (t, h) r = Some (rc, t', h')"
  shows "(rc = CF_ERR_STATE \<and> t' = t \<and> h' = h)
    \<or> (\<exists>a. state (tn_life t) = CF_ONLINE \<and> registered (tn_life t) \<and> configured (tn_life t) \<and> \<not> tn_stopping t
        \<and> cstring (tn_hostname t) = Some (bytes_list (cf_h2_header r (str '':authority'')))
        \<and> cb_request (tc_callbacks cfg) (tn_app t, h) r = Some (rc, a, h') \<and> t' = t\<lparr>tn_app := a\<rparr>)"
proof (cases "\<not> tn_stopping t \<and> state (tn_life t) = CF_ONLINE \<and> cstring (cfg_hostname (tn_remote t)) = Some (bytes_list (cf_h2_header r (str '':authority'')))")
  case False
  then show ?thesis using assms(2,3) by (auto simp: h2_request_def bind_eq_Some_conv split: if_splits)
next
  case True
  then have "registered (tn_life t)" "configured (tn_life t)" using assms(1) by (auto simp: session_parts life_ok_def life_inv_def)
  moreover from this True assms(1) have "cstring (tn_hostname t) = Some (bytes_list (cf_h2_header r (str '':authority'')))"
    by (simp add: session_parts)
  ultimately show ?thesis using True assms(2,3) by (auto simp: h2_request_def bind_eq_Some_conv)
qed

definition sample_request :: cf_h2_request where
  "sample_request = \<lparr>rq_stream = 3, rq_kind = CF_H2_HTTP, rq_headers = [(str '':authority'', str ''evil'')], rq_end_stream = True\<rparr>"

theorem tunnel_serves_hostname_witness:
  "h2_request sample_cfg willing 5 (sample_tunnel_state, h2_new 2 8192 ()) sample_request = Some (CF_ERR_STATE, sample_tunnel_state, h2_new 2 8192 ())
   \<and> state (tn_life sample_tunnel_state) \<noteq> CF_ONLINE"
proof -
  have off: "state (tn_life sample_tunnel_state) \<noteq> CF_ONLINE" by (simp add: sample_tunnel_state_def new_tunnel_def zeroed_def)
  then obtain rc t' h' where r: "h2_request sample_cfg willing 5 (sample_tunnel_state, h2_new 2 8192 ()) sample_request = Some (rc, t', h')"
    by (simp add: h2_request_def sample_request_def)
  have "rq_kind sample_request = CF_H2_HTTP" by (simp add: sample_request_def)
  from tunnel_serves_hostname [OF sample_session this r] show ?thesis using r off by auto
qed

text \<open>C7. Closing a connection always completes and leaves no secret behind: the credentials, the frame buffer, the queue of
  outgoing RPC bytes, the received configuration and the state of the RPC client are all zero, no stream is open, and no
  remote configuration is left.\<close>

theorem close_connection_erases:
  assumes "h2_application (tc_callbacks cfg) ok" "session_ok t" "ok (tn_app t)" "\<And>h. hp = Some h \<Longrightarrow> h2_inv h"
  shows "\<exists>t'. close_connection cfg ng now t hp = Some t' \<and> tn_credentials t' = zero_credentials \<and> tn_rpc t' = zero_rpc
    \<and> tn_rpc_frame t' = replicate CF_CAPNP_MESSAGE_MAX 0 \<and> tn_rpc_queue t' = replicate RPC_QUEUE 0 \<and> tn_rpc_queued t' = 0
    \<and> tn_config_bytes t' = replicate CF_CONFIG_MESSAGE_MAX 0 \<and> \<not> cfg_valid (tn_remote t')
    \<and> tn_control_stream t' = 0 \<and> tn_config_stream t' = 0 \<and> \<not> tn_tls t' \<and> ok (tn_app t')"
proof -
  obtain t1 where t1: "close_connection cfg ng now t hp = Some (erase_session t1)" "session_ok t1" "ok (tn_app t1)"
    using tunnel_host.close_total [OF tunnel_host.intro [OF assms(1)] assms(2-4)] by blast
  then show ?thesis by (simp add: erase_session_def session_parts queue_ok_def cf_config_init_def)
qed

theorem close_connection_erases_witness:
  "\<exists>t'. close_connection sample_cfg willing 5 (sample_tunnel_state\<lparr>tn_credentials := sample_credentials\<rparr>) (Some (h2_new 2 8192 ())) = Some t'
     \<and> tn_credentials t' = zero_credentials"
proof -
  have app: "h2_application (tc_callbacks sample_cfg) (\<lambda>_. True)" using accepting_application by (simp add: sample_cfg_def)
  have "cred_sized sample_credentials" by (simp add: cred_sized_def sample_credentials_def sample_account_def sample_tunnel_def str_def CF_TUNNEL_SECRET_MAX_def)
  then have "session_ok (sample_tunnel_state\<lparr>tn_credentials := sample_credentials\<rparr>)" using sample_session by (simp add: session_parts)
  from close_connection_erases [OF app this, of "Some (h2_new 2 8192 ())" willing 5] new_inv [of 2 8192 "()"] show ?thesis by auto
qed



end
