(* ===== verification/CF_Srv.thy ===== *)
theory CF_Srv
  imports CF_Dns "HOL-Library.Multiset"
begin

text \<open>
  The choice of an edge server in \<open>discover\<close> of \<^verbatim>\<open>src/transport/esp_cf_tunnel.c\<close>: the service records are ordered by
  priority, an attempt rotates over them, and within a priority the advertised weights decide.
\<close>

section \<open>Definitions\<close>

text \<open>The two loops that order the records by priority.\<close>

fun sort_inner :: "cf_dns_record list \<Rightarrow> nat \<Rightarrow> nat \<Rightarrow> nat \<Rightarrow> cf_dns_record list" where
  "sort_inner rs i j 0 = rs"
| "sort_inner rs i j (Suc k) =
     sort_inner (if dr_priority (rs ! j) < dr_priority (rs ! i) then rs[i := rs ! j, j := rs ! i] else rs) i (j + 1) k"

fun sort_outer :: "cf_dns_record list \<Rightarrow> nat \<Rightarrow> nat \<Rightarrow> cf_dns_record list" where
  "sort_outer rs i 0 = rs"
| "sort_outer rs i (Suc k) = sort_outer (sort_inner rs i (i + 1) k) (i + 1) k"

fun group_first :: "cf_dns_record list \<Rightarrow> u16 \<Rightarrow> nat \<Rightarrow> nat" where
  "group_first rs p 0 = 0"
| "group_first rs p (Suc i) = (if dr_priority (rs ! i) = p then group_first rs p i else Suc i)"

function group_last :: "cf_dns_record list \<Rightarrow> u16 \<Rightarrow> nat \<Rightarrow> nat" where
  "group_last rs p i = (if i + 1 < length rs \<and> dr_priority (rs ! (i + 1)) = p then group_last rs p (i + 1) else i)"
  by pat_completeness auto
termination
  by (relation "measure (\<lambda>(rs, p, i). length rs - i)") auto

declare group_last.simps [simp del]

text \<open>The walk over the weights from \<open>pick\<close> on; \<open>k\<close> records are left before the last one.\<close>

fun weighted :: "cf_dns_record list \<Rightarrow> nat \<Rightarrow> nat \<Rightarrow> u32 \<Rightarrow> nat" where
  "weighted rs pick 0 v = pick"
| "weighted rs pick (Suc k) v = (if v < ucast (dr_weight (rs ! pick)) then pick else weighted rs (pick + 1) k (v - ucast (dr_weight (rs ! pick))))"

definition group_weights :: "cf_dns_record list \<Rightarrow> nat \<Rightarrow> nat \<Rightarrow> u32" where
  "group_weights rs first lst = sum_list (map (\<lambda>i. ucast (dr_weight (rs ! i))) [first..<lst + 1])"

definition pick_srv :: "cf_dns_record list \<Rightarrow> u32 \<Rightarrow> u32 \<Rightarrow> nat" where
  "pick_srv rs attempts random =
     (let pick = unat (attempts - 1) mod length rs;
          p = dr_priority (rs ! pick);
          first = group_first rs p pick;
          lst = group_last rs p pick;
          weights = group_weights rs first lst in
      if weights \<noteq> 0 then weighted rs first (lst - first) (random mod weights) else pick)"

section \<open>The order of the records\<close>

abbreviation prio :: "cf_dns_record list \<Rightarrow> nat \<Rightarrow> u16" where
  "prio rs i \<equiv> dr_priority (rs ! i)"

definition swap_min :: "cf_dns_record list \<Rightarrow> nat \<Rightarrow> nat \<Rightarrow> cf_dns_record list" where
  "swap_min rs i j = (if prio rs j < prio rs i then rs[i := rs ! j, j := rs ! i] else rs)"

lemma swap_min_facts:
  assumes "i < j" "j < length rs"
  shows "length (swap_min rs i j) = length rs" "mset (swap_min rs i j) = mset rs" "prio (swap_min rs i j) i \<le> prio rs i"
    "prio (swap_min rs i j) i \<le> prio (swap_min rs i j) j" "\<And>m. m \<noteq> i \<Longrightarrow> m \<noteq> j \<Longrightarrow> swap_min rs i j ! m = rs ! m"
proof -
  show "mset (swap_min rs i j) = mset rs" using mset_swap [of j rs i] assms by (simp add: swap_min_def)
qed (use assms in \<open>auto simp: swap_min_def nth_list_update\<close>)

lemma sort_inner_facts:
  assumes "i < j" "j + k = length rs"
  shows "length (sort_inner rs i j k) = length rs \<and> mset (sort_inner rs i j k) = mset rs
    \<and> (\<forall>m < i. sort_inner rs i j k ! m = rs ! m) \<and> prio (sort_inner rs i j k) i \<le> prio rs i
    \<and> (\<forall>m. i < m \<and> m < j \<longrightarrow> sort_inner rs i j k ! m = rs ! m)
    \<and> (\<forall>m. j \<le> m \<and> m < length rs \<longrightarrow> prio (sort_inner rs i j k) i \<le> prio (sort_inner rs i j k) m)"
  using assms
proof (induction k arbitrary: rs j)
  case (Suc k)
  let ?s = "swap_min rs i j"
  have f: "length ?s = length rs" "mset ?s = mset rs" "prio ?s i \<le> prio rs i" "prio ?s i \<le> prio ?s j" "\<And>m. m \<noteq> i \<Longrightarrow> m \<noteq> j \<Longrightarrow> ?s ! m = rs ! m"
    using swap_min_facts [of i j rs] Suc.prems by auto
  have run: "sort_inner rs i j (Suc k) = sort_inner ?s i (j + 1) k" by (simp add: swap_min_def)
  have h: "length (sort_inner ?s i (j + 1) k) = length ?s \<and> mset (sort_inner ?s i (j + 1) k) = mset ?s
    \<and> (\<forall>m < i. sort_inner ?s i (j + 1) k ! m = ?s ! m) \<and> prio (sort_inner ?s i (j + 1) k) i \<le> prio ?s i
    \<and> (\<forall>m. i < m \<and> m < j + 1 \<longrightarrow> sort_inner ?s i (j + 1) k ! m = ?s ! m)
    \<and> (\<forall>m. j + 1 \<le> m \<and> m < length ?s \<longrightarrow> prio (sort_inner ?s i (j + 1) k) i \<le> prio (sort_inner ?s i (j + 1) k) m)"
    by (rule Suc.IH) (use Suc.prems f(1) in auto)
  have "prio (sort_inner ?s i (j + 1) k) i \<le> prio (sort_inner ?s i (j + 1) k) m" if "j \<le> m" "m < length rs" for m
  proof (cases "m = j")
    case True
    then have "sort_inner ?s i (j + 1) k ! m = ?s ! j" using h Suc.prems(1) by simp
    then show ?thesis using h f(4) by (metis order.trans)
  qed (use h f(1) that in auto)
  then show ?case unfolding run using h f Suc.prems(1) by (auto intro: order.trans)
qed auto

text \<open>The first \<open>i\<close> records are in order and not behind any later one.\<close>

definition front :: "cf_dns_record list \<Rightarrow> nat \<Rightarrow> bool" where
  "front rs i \<longleftrightarrow> (\<forall>a b. a < i \<and> a < b \<and> b < length rs \<longrightarrow> prio rs a \<le> prio rs b)"

lemma sort_outer_facts:
  assumes "i + k = length rs" "front rs i"
  shows "length (sort_outer rs i k) = length rs \<and> mset (sort_outer rs i k) = mset rs \<and> front (sort_outer rs i k) (length rs)"
  using assms
proof (induction k arbitrary: rs i)
  case (Suc k)
  let ?s = "sort_inner rs i (i + 1) k"
  have f: "length ?s = length rs" "mset ?s = mset rs" "\<And>m. m < i \<Longrightarrow> ?s ! m = rs ! m" "\<And>m. i + 1 \<le> m \<Longrightarrow> m < length rs \<Longrightarrow> prio ?s i \<le> prio ?s m"
    using sort_inner_facts [of i "i + 1" k rs] Suc.prems(1) by auto
  have "take i ?s = take i rs" using f(1,3) Suc.prems(1) by (intro nth_equalityI) auto
  moreover have "mset (take i ?s) + mset (drop i ?s) = mset (take i rs) + mset (drop i rs)" using f(2) by (metis append_take_drop_id mset_append)
  ultimately have rest: "set (drop i ?s) = set (drop i rs)" by (metis add_left_cancel set_mset_mset)
  have "front ?s (i + 1)"
    unfolding front_def
  proof (intro allI impI)
    fix a b assume ab: "a < i + 1 \<and> a < b \<and> b < length ?s"
    show "prio ?s a \<le> prio ?s b"
    proof (cases "a = i")
      case True
      then show ?thesis using f(4) ab f(1) by simp
    next
      case False
      then have a: "a < i" "?s ! a = rs ! a" using ab f(3) by auto
      show ?thesis
      proof (cases "b < i")
        case True
        then show ?thesis using a f(1,3) ab Suc.prems(2) by (simp add: front_def)
      next
        case False
        have "?s ! b = drop i ?s ! (b - i)" using False ab by simp
        then have "?s ! b \<in> set (drop i rs)" using rest False ab by (metis diff_less_mono length_drop not_le nth_mem)
        then obtain c where "c < length (drop i rs)" "drop i rs ! c = ?s ! b" by (auto simp: in_set_conv_nth)
        then have "i + c < length rs" "rs ! (i + c) = ?s ! b" by auto
        then show ?thesis using a Suc.prems(2) by (metis front_def trans_less_add1)
      qed
    qed
  qed
  then show ?case using Suc.IH [of "i + 1" ?s] f(1,2) Suc.prems(1) by simp
qed (auto simp: front_def)

section \<open>The choice of a record\<close>

lemma group_first_facts:
  "group_first rs p i \<le> i \<and> (\<forall>m. group_first rs p i \<le> m \<and> m < i \<longrightarrow> prio rs m = p)
   \<and> (group_first rs p i \<noteq> 0 \<longrightarrow> prio rs (group_first rs p i - 1) \<noteq> p)"
proof (induction i)
  case (Suc i)
  then show ?case by (auto simp: less_Suc_eq)
qed simp

lemma group_last_facts:
  "i < length rs \<Longrightarrow> prio rs i = p \<Longrightarrow> i \<le> group_last rs p i \<and> group_last rs p i < length rs
   \<and> (\<forall>m. i \<le> m \<and> m \<le> group_last rs p i \<longrightarrow> prio rs m = p)
   \<and> (group_last rs p i + 1 < length rs \<longrightarrow> prio rs (group_last rs p i + 1) \<noteq> p)"
proof (induction rs p i rule: group_last.induct)
  case (1 rs p i)
  show ?case
  proof (cases "i + 1 < length rs \<and> prio rs (i + 1) = p")
    case True
    have step: "group_last rs p i = group_last rs p (i + 1)" by (subst group_last.simps) (use True in simp)
    have "m = i \<or> i + 1 \<le> m" if "i \<le> m" for m using that by auto
    then show ?thesis using 1(1) [OF True] 1(3) True unfolding step by auto
  next
    case False
    then have "group_last rs p i = i" by (subst group_last.simps) auto
    then show ?thesis using 1(2,3) False by (auto simp: le_antisym)
  qed
qed

definition weight_sum :: "cf_dns_record list \<Rightarrow> nat \<Rightarrow> nat \<Rightarrow> nat" where
  "weight_sum rs a b = (\<Sum>i = a..<b. unat (dr_weight (rs ! i)))"

lemma weight_sum_step: "a < b \<Longrightarrow> weight_sum rs a b = unat (dr_weight (rs ! a)) + weight_sum rs (a + 1) b"
  by (simp add: weight_sum_def sum.atLeast_Suc_lessThan)

lemma unat_weight: "unat (ucast (w :: u16) :: u32) = unat w"
  by (simp add: unsigned_ucast_eq take_bit_nat_eq_self_iff order_less_trans [OF u16_less])

lemma weight_sum_bound: "weight_sum rs a b \<le> (b - a) * 65535"
proof -
  have "unat (dr_weight (rs ! i)) \<le> 65535" for i using u16_less [of "dr_weight (rs ! i)"] by simp
  then show ?thesis unfolding weight_sum_def using sum_bounded_above [of "{a..<b}" "\<lambda>i. unat (dr_weight (rs ! i))" 65535] by simp
qed

text \<open>The walk stops at the record in whose share of the weights the value lies.\<close>

lemma weighted_facts:
  assumes "unat v < weight_sum rs f (f + k + 1)"
  shows "f \<le> weighted rs f k v \<and> weighted rs f k v \<le> f + k \<and> weight_sum rs f (weighted rs f k v) \<le> unat v
    \<and> unat v < weight_sum rs f (weighted rs f k v + 1)"
  using assms
proof (induction k arbitrary: f v)
  case 0
  then show ?case by (simp add: weight_sum_def)
next
  case (Suc k)
  let ?w = "ucast (dr_weight (rs ! f)) :: u32"
  have w: "unat ?w = unat (dr_weight (rs ! f))" by (rule unat_weight)
  show ?case
  proof (cases "v < ?w")
    case True
    then show ?thesis using w by (simp add: weight_sum_def word_less_nat_alt)
  next
    case False
    then have u: "unat (v - ?w) = unat v - unat (dr_weight (rs ! f))" "unat (dr_weight (rs ! f)) \<le> unat v" using w by (simp_all add: unat_sub word_le_nat_alt not_less)
    have "unat (v - ?w) < weight_sum rs (f + 1) (f + 1 + k + 1)" using Suc.prems u weight_sum_step [of f "f + Suc k + 1" rs] by simp
    from Suc.IH [OF this] have h: "f + 1 \<le> weighted rs (f + 1) k (v - ?w)" "weighted rs (f + 1) k (v - ?w) \<le> f + 1 + k"
      "weight_sum rs (f + 1) (weighted rs (f + 1) k (v - ?w)) \<le> unat (v - ?w)" "unat (v - ?w) < weight_sum rs (f + 1) (weighted rs (f + 1) k (v - ?w) + 1)"
      by simp_all
    let ?i = "weighted rs (f + 1) k (v - ?w)"
    have "weight_sum rs f ?i = unat (dr_weight (rs ! f)) + weight_sum rs (f + 1) ?i" "weight_sum rs f (?i + 1) = unat (dr_weight (rs ! f)) + weight_sum rs (f + 1) (?i + 1)"
      using h(1) by (intro weight_sum_step; simp)+
    then show ?thesis using False h u by auto
  qed
qed

lemma group_weights_unat:
  assumes "l + 1 - f \<le> 16" shows "unat (group_weights rs f l) = weight_sum rs f (l + 1)"
proof -
  have "unat (sum_list (map (\<lambda>i. ucast (dr_weight (rs ! i)) :: u32) [f..<b])) = weight_sum rs f b" if "f \<le> b" "b - f \<le> 16" for b
    using that
  proof (induction b)
    case (Suc b)
    show ?case
    proof (cases "f = Suc b")
      case False
      then have fb: "f \<le> b" using Suc.prems by simp
      have w: "unat (ucast (dr_weight (rs ! b)) :: u32) = unat (dr_weight (rs ! b))" by (rule unat_weight)
      have s: "weight_sum rs f (Suc b) = weight_sum rs f b + unat (dr_weight (rs ! b))" using fb by (simp add: weight_sum_def)
      have "weight_sum rs f (Suc b) \<le> 16 * 65535" using weight_sum_bound [of rs f "Suc b"] Suc.prems by (meson mult_le_mono1 order.trans)
      then have "weight_sum rs f b + unat (dr_weight (rs ! b)) < 2 ^ 32" using s by simp
      then show ?thesis using Suc fb w s by (simp add: unat_word_ariths)
    qed (simp add: weight_sum_def)
  qed (simp add: weight_sum_def)
  from this [of "l + 1"] show ?thesis using assms
    by (cases "f \<le> l + 1") (simp_all add: group_weights_def weight_sum_def)
qed

lemma pick_srv_facts:
  assumes "rs \<noteq> []" "length rs \<le> 16" "front rs (length rs)"
  shows "pick_srv rs attempts random < length rs" "prio rs (pick_srv rs attempts random) = prio rs (unat (attempts - 1) mod length rs)"
    "m < length rs \<Longrightarrow> prio rs m = prio rs (unat (attempts - 1) mod length rs) \<Longrightarrow> dr_weight (rs ! m) \<noteq> 0 \<Longrightarrow> dr_weight (rs ! pick_srv rs attempts random) \<noteq> 0"
proof -
  define pick where "pick = unat (attempts - 1) mod length rs"
  define p where "p = prio rs pick"
  define f where "f = group_first rs p pick"
  define l where "l = group_last rs p pick"
  have pick: "pick < length rs" using assms(1) by (simp add: pick_def)
  have f: "f \<le> pick" "\<And>m. f \<le> m \<Longrightarrow> m < pick \<Longrightarrow> prio rs m = p" "f \<noteq> 0 \<Longrightarrow> prio rs (f - 1) \<noteq> p"
    using group_first_facts [of rs p pick] unfolding f_def by blast+
  have l: "pick \<le> l" "l < length rs" "\<And>m. pick \<le> m \<Longrightarrow> m \<le> l \<Longrightarrow> prio rs m = p" "l + 1 < length rs \<Longrightarrow> prio rs (l + 1) \<noteq> p"
    using group_last_facts [OF pick p_def [symmetric]] unfolding l_def by blast+
  have ord: "prio rs a \<le> prio rs b" if "a < b" "b < length rs" for a b using assms(3) that by (simp add: front_def)
  have grp: "prio rs m = p" if "f \<le> m" "m \<le> l" for m using f(2) l(3) that by (cases "m < pick") auto
  have inside: "f \<le> m \<and> m \<le> l" if "m < length rs" "prio rs m = p" for m
  proof (rule ccontr)
    assume out: "\<not> (f \<le> m \<and> m \<le> l)"
    then consider "m < f" | "l < m" by linarith
    then show False
    proof cases
      case 1
      have "prio rs m \<le> prio rs (f - 1)" using ord [of m "f - 1"] 1 f(1) pick by (cases "m = f - 1") auto
      moreover have "prio rs (f - 1) \<le> prio rs pick" using ord [of "f - 1" pick] 1 f(1) pick by auto
      ultimately have "prio rs (f - 1) = p" using that(2) by (simp add: p_def)
      then show False using f(3) 1 by simp
    next
      case 2
      have "prio rs (l + 1) \<le> prio rs m" using ord [of "l + 1" m] 2 that(1) by (cases "m = l + 1") auto
      moreover have "prio rs pick \<le> prio rs (l + 1)" using ord [of pick "l + 1"] 2 l(1) that(1) by auto
      ultimately have "prio rs (l + 1) = p" using that(2) by (simp add: p_def)
      then show False using l(4) 2 that(1) by simp
    qed
  qed
  have W: "unat (group_weights rs f l) = weight_sum rs f (l + 1)" by (rule group_weights_unat) (use l(2) assms(2) in linarith)
  show "pick_srv rs attempts random < length rs" "prio rs (pick_srv rs attempts random) = prio rs (unat (attempts - 1) mod length rs)"
    "m < length rs \<Longrightarrow> prio rs m = prio rs (unat (attempts - 1) mod length rs) \<Longrightarrow> dr_weight (rs ! m) \<noteq> 0 \<Longrightarrow> dr_weight (rs ! pick_srv rs attempts random) \<noteq> 0"
  proof -
    have eq: "pick_srv rs attempts random = (if group_weights rs f l \<noteq> 0 then weighted rs f (l - f) (random mod group_weights rs f l) else pick)"
      by (simp add: pick_srv_def Let_def pick_def p_def f_def l_def)
    have "f \<le> pick_srv rs attempts random \<and> pick_srv rs attempts random \<le> l
        \<and> (group_weights rs f l \<noteq> 0 \<longrightarrow> dr_weight (rs ! pick_srv rs attempts random) \<noteq> 0)"
    proof (cases "group_weights rs f l = 0")
      case True
      then show ?thesis using eq f(1) l(1) by simp
    next
      case False
      let ?v = "random mod group_weights rs f l"
      have "unat ?v < weight_sum rs f (f + (l - f) + 1)"
        using False W f(1) l(1) by (simp add: unat_mod flip: unat_gt_0)
      from weighted_facts [OF this] show ?thesis using False eq f(1) l(1)
        by (auto simp: weight_sum_def)
    qed
    then have r: "f \<le> pick_srv rs attempts random" "pick_srv rs attempts random \<le> l"
        "group_weights rs f l \<noteq> 0 \<Longrightarrow> dr_weight (rs ! pick_srv rs attempts random) \<noteq> 0" by auto
    show "pick_srv rs attempts random < length rs" using r(2) l(2) by simp
    show "prio rs (pick_srv rs attempts random) = prio rs (unat (attempts - 1) mod length rs)" using grp [OF r(1,2)] by (simp add: p_def pick_def)
    assume m: "m < length rs" "prio rs m = prio rs (unat (attempts - 1) mod length rs)" "dr_weight (rs ! m) \<noteq> 0"
    then have "f \<le> m \<and> m \<le> l" using inside by (simp add: p_def pick_def)
    then have "m \<in> set [f..<l + 1]" by auto
    then have "weight_sum rs f (l + 1) \<noteq> 0" using m(3) unfolding weight_sum_def sum_list_eq_0_iff set_map by (auto simp: unat_eq_0)
    then show "dr_weight (rs ! pick_srv rs attempts random) \<noteq> 0" using r(3) W by (metis unat_0)
  qed
qed

section \<open>Properties\<close>

text \<open>
  C39. The server of an attempt: the records are reordered, none lost or doubled, so that priorities ascend; the
  chosen index is one of the records and has the priority of the record on turn, which rotates with the attempts
  over all records; and a record of weight zero is chosen only when every record of that priority has weight zero.
\<close>

theorem edge_choice:
  assumes "rs \<noteq> []" "length rs \<le> CF_DNS_RECORD_MAX"
  shows "let s = sort_outer rs 0 (length rs) in mset s = mset rs \<and> sorted (map dr_priority s) \<and> pick_srv s attempts random < length rs
    \<and> dr_priority (s ! pick_srv s attempts random) = dr_priority (s ! (unat (attempts - 1) mod length rs))
    \<and> (\<forall>m < length rs. dr_priority (s ! m) = dr_priority (s ! (unat (attempts - 1) mod length rs)) \<and> dr_weight (s ! m) \<noteq> 0
        \<longrightarrow> dr_weight (s ! pick_srv s attempts random) \<noteq> 0)"
proof -
  define s where "s = sort_outer rs 0 (length rs)"
  have f: "length s = length rs" "mset s = mset rs" "front s (length s)"
    using sort_outer_facts [of 0 "length rs" rs] by (auto simp: s_def front_def)
  have "sorted (map dr_priority s)" using f(3) by (auto simp: sorted_iff_nth_mono_less front_def)
  moreover have "s \<noteq> []" "length s \<le> 16" using f(1) assms(1,2) by (auto simp: CF_DNS_RECORD_MAX_def)
  ultimately show ?thesis using pick_srv_facts [OF _ _ f(3), where attempts = attempts and random = random] f(1,2) by (auto simp: s_def [symmetric] Let_def)
qed

definition sample_record :: "u16 \<Rightarrow> u16 \<Rightarrow> cf_dns_record" where
  "sample_record p w = zero_record\<lparr>dr_priority := p, dr_weight := w\<rparr>"

definition sample_records :: "cf_dns_record list" where
  "sample_records = [sample_record 2 1, sample_record 1 0, sample_record 1 5]"

theorem edge_choice_witness:
  "sort_outer sample_records 0 3 = [sample_record 1 0, sample_record 1 5, sample_record 2 1]
   \<and> pick_srv (sort_outer sample_records 0 3) 1 7 < 3
   \<and> dr_weight (sort_outer sample_records 0 3 ! pick_srv (sort_outer sample_records 0 3) 1 7) \<noteq> 0"
proof -
  have n: "length sample_records = 3" "sample_records \<noteq> []" by (simp_all add: sample_records_def)
  have s: "sort_outer sample_records 0 3 = [sample_record 1 0, sample_record 1 5, sample_record 2 1]" by code_simp
  have "pick_srv (sort_outer sample_records 0 3) 1 7 < 3 \<and> dr_weight (sort_outer sample_records 0 3 ! pick_srv (sort_outer sample_records 0 3) 1 7) \<noteq> 0"
    using edge_choice [of sample_records 1 7] n unfolding n s Let_def
    by (auto simp: sample_record_def CF_DNS_RECORD_MAX_def zero_record_def dest: spec [of _ 1])
  then show ?thesis by (simp add: s)
qed

end
