(* ===== verification/CF_Task.thy ===== *)
theory CF_Task
  imports CF_Tunnel CF_Srv
begin

text \<open>
  The task side of \<^verbatim>\<open>src/transport/esp_cf_tunnel.c\<close>: back-off, edge discovery with the choice of a service
  record, the TLS connection, the exchange of bytes with the edge, one turn of the task's loop, and
  the public operations. What sockets, esp-tls, the clock and the random source answer are arguments.
\<close>

section \<open>Names and snapshots\<close>

definition esp_cf_tunnel_state_name :: "cf_state \<Rightarrow> string" where
  "esp_cf_tunnel_state_name s = (case s of
     CF_STOPPED \<Rightarrow> ''Stopped'' | CF_WAIT_NETWORK \<Rightarrow> ''Waiting for network'' | CF_WAIT_TIME \<Rightarrow> ''Waiting for clock''
   | CF_DISCOVERY \<Rightarrow> ''Discovering edge'' | CF_CONNECT \<Rightarrow> ''Connecting'' | CF_TLS \<Rightarrow> ''TLS handshake''
   | CF_HTTP2 \<Rightarrow> ''HTTP/2 negotiation'' | CF_REGISTERING \<Rightarrow> ''Registering'' | CF_WAIT_CONFIG \<Rightarrow> ''Waiting for configuration''
   | CF_ONLINE \<Rightarrow> ''Online'' | CF_BACKOFF \<Rightarrow> ''Retry backoff'' | CF_AUTH_FAILED \<Rightarrow> ''Authentication rejected''
   | CF_CONFIG_FAILED \<Rightarrow> ''Configuration rejected'' | CF_STOPPING \<Rightarrow> ''Stopping'')"

text \<open>\<open>stack\<close> is the high-water mark that FreeRTOS reports. The location is the text up to the NUL.\<close>

definition publish :: "u32 \<Rightarrow> 'a esp_cf_tunnel \<Rightarrow> 'n cf_h2 option \<Rightarrow> 'a esp_cf_tunnel" where
  "publish stack t hp = t\<lparr>tn_snapshot := \<lparr>sn_state = state (tn_life t), sn_settings_ready = tn_settings_ready t,
     sn_registered = registered (tn_life t), sn_configured = configured (tn_life t),
     sn_config_version = (if cfg_valid (tn_remote t) then cfg_version (tn_remote t) else - 1), sn_attempts = tn_attempts t,
     sn_retry_at_ms = retry_at_ms (tn_life t), sn_edge_ip = take 15 (tn_edge_ip t),
     sn_location = take 31 (takeWhile (\<lambda>c. c \<noteq> 0) (rpc_location (tn_rpc t))), sn_message = take 127 (tn_message t),
     sn_last_failure = take 127 (tn_last_failure t), sn_last_failure_ms = tn_last_failure_ms t, sn_failures = tn_failures t,
     sn_http2 = map_option h2_stats hp, sn_task_stack_min = stack, sn_last_connect = tn_last_connect t,
     sn_last_connect_failure = tn_last_connect_failure t\<rparr>\<rparr>"

section \<open>Back-off\<close>

text \<open>The text of a failure, with the state of the HTTP/2 engine when there is one.\<close>

definition goaway_text :: "cf_h2_stats \<Rightarrow> u8 list" where
  "goaway_text s = (if \<not> goaway s then str ''none'' else if local_goaway s then str ''local'' else str ''peer'')"

definition failure_text :: "u8 list \<Rightarrow> 'n cf_h2 option \<Rightarrow> u8 list" where
  "failure_text why hp = (case hp of None \<Rightarrow> take 127 why
     | Some h \<Rightarrow> let s = h2_stats h in take 127 (take 60 why @ str '' [h2='' @ decimal (last_error s) @ str '', goaway='' @ goaway_text s
         @ str '':'' @ decimal (uint (goaway_error s)) @ str '', peer='' @ decimal (uint (peer_goaway_error s)) @ str ''/''
         @ decimal (peer_goaway_last_stream s) @ str '']''))"

definition retry_life :: "u64 \<Rightarrow> u32 \<Rightarrow> 'a esp_cf_tunnel \<Rightarrow> 'a esp_cf_tunnel" where
  "retry_life now random t =
     (let rejected = (rpc_state (tn_rpc t) = CF_RPC_REJECTED);
          hint = (if rejected then rpc_retry_after_ms (tn_rpc t) else 0) in
      if rejected \<and> \<not> rpc_should_retry (tn_rpc t) then life_event CF_EVENT_AUTH_REJECTED t
      else (case cf_lifecycle_retry (Some (tn_life t)) now (if hint > 0xFFFFFFFF then 0xFFFFFFFF else ucast hint) random of
          (_, Some l) \<Rightarrow> t\<lparr>tn_life := l\<rparr> | _ \<Rightarrow> t))"

definition tunnel_retry :: "('a, 'n) esp_cf_tunnel_config \<Rightarrow> 'n nghttp2 \<Rightarrow> u64 \<Rightarrow> u32 \<Rightarrow> u8 list \<Rightarrow> 'a esp_cf_tunnel \<Rightarrow> 'n cf_h2 option
    \<Rightarrow> 'a esp_cf_tunnel option" where
  "tunnel_retry cfg ng now random why t hp =
     (let t = (say why t)\<lparr>tn_last_failure := failure_text why hp, tn_last_failure_ms := now, tn_failures := tn_failures t + 1\<rparr> in
      close_connection cfg ng now (retry_life now random t) hp)"

section \<open>Edge discovery\<close>

text \<open>
  What the world answers during one turn of the task: the clock, read once, and the other sources, the
  sockets (\<open>io_send\<close> is what \<open>send\<close> returns), whether allocations succeed, what esp-tls reports of one step of the
  connection, the results of its \<open>i\<close>-th read with the contents of the buffer and of its \<open>i\<close>-th write, and the
  reactions of nghttp2.
\<close>

record dns_io =
  io_socket :: bool
  io_connected :: bool
  io_random :: u32
  io_send :: "u8 list \<Rightarrow> int"

datatype dns_input = Dns_Wait | Dns_Failed | Dns_Packet "u8 list"

record tls_attempt =
  ta_before :: int
  ta_rc :: int
  ta_errno :: int
  ta_state :: "int option"
  ta_view :: tls_view

record 'n turn =
  tu_now :: u64
  tu_utc :: int
  tu_heap :: "u32 \<times> u32"
  tu_stack :: u32
  tu_pick :: u32
  tu_backoff :: u32
  tu_answer_room :: bool
  tu_tls_room :: bool
  tu_dns :: dns_io
  tu_input :: dns_input
  tu_attempt :: tls_attempt
  tu_h2_room :: bool
  tu_session :: "'n option"
  tu_read :: "nat \<Rightarrow> int \<times> mem"
  tu_write :: "nat \<Rightarrow> u8 list \<Rightarrow> int"
  tu_fd :: bool
  tu_recv :: "'n \<Rightarrow> u8 list \<Rightarrow> h2_event list \<times> (int + nat) \<times> ('n \<Rightarrow> 'n)"
  tu_send :: "'n \<Rightarrow> h2_event list \<times> ('n \<Rightarrow> (int + u8 list) \<times> 'n)"

text \<open>The codes of ESP-IDF the task compares with or stores.\<close>

record task_codes =
  tk_tls :: tls_codes
  tk_want_read :: int
  tk_want_write :: int
  tk_no_mem :: int

definition dns_send :: "'n turn \<Rightarrow> u8 list \<Rightarrow> cf_dns_type \<Rightarrow> 'a esp_cf_tunnel \<Rightarrow> (cf_result \<times> 'a esp_cf_tunnel) option" where
  "dns_send u name type t =
     (let io = tu_dns u in
      if \<not> io_socket io then Some (CF_ERR_STATE, t\<lparr>tn_dns_socket := False\<rparr>)
      else let t = t\<lparr>tn_dns_socket := True\<rparr> in
      if \<not> io_connected io then Some (CF_ERR_STATE, t)
      else do {
        let t = t\<lparr>tn_dns_id := ucast (io_random io), tn_dns_name := take 253 name\<rparr>;
        (rc, packet, n) \<leftarrow> cf_dns_query (Some name) type (tn_dns_id t) (Some (tn_dns_packet t)) CF_DNS_PACKET_MAX (Some 0);
        packet \<leftarrow> packet; n \<leftarrow> n;
        let t = t\<lparr>tn_dns_packet := packet\<rparr>;
        if rc \<noteq> CF_OK then Some (rc, t)
        else do {
          query \<leftarrow> load_n packet 0 n;
          if io_send io query \<noteq> int n then Some (CF_ERR_STATE, t)
          else Some (CF_OK, t\<lparr>tn_deadline_ms := tu_now u + 5000\<rparr>)
        }
      })"

definition decimal_ip :: "mem \<Rightarrow> u8 list option" where
  "decimal_ip ip = do {
     a \<leftarrow> load ip 0; b \<leftarrow> load ip 1; c \<leftarrow> load ip 2; d \<leftarrow> load ip 3;
     Some (take 15 (decimal (uint a) @ str ''.'' @ decimal (uint b) @ str ''.'' @ decimal (uint c) @ str ''.'' @ decimal (uint d)))
   }"

definition connect_diagnostic :: "task_codes \<Rightarrow> 'n turn \<Rightarrow> tls_view option \<Rightarrow> int \<times> int \<times> int \<times> int \<times> bool
    \<Rightarrow> 'a esp_cf_tunnel \<Rightarrow> 'a esp_cf_tunnel" where
  "connect_diagnostic codes u tls outcome t = (case outcome of (rc, saved_errno, was, is_now, deadline) \<Rightarrow>
     let d = cf_tls_diag_capture (tk_tls codes) tls rc saved_errno was is_now deadline;
         d = (if tls = None then d\<lparr>dg_stage := ESP_CF_CONNECT_TLS_SETUP, dg_esp_error := tk_no_mem codes\<rparr> else d);
         d = d\<lparr>dg_at_ms := tu_now u, dg_elapsed_ms := tu_now u - tn_connect_started_ms t, dg_utc_s := tu_utc u, dg_attempt := tn_attempts t,
           dg_heap_free := fst (tu_heap u), dg_heap_largest := snd (tu_heap u), dg_edge_ip := take 15 (tn_edge_ip t), dg_edge_port := CF_EDGE_PORT\<rparr>;
         t = t\<lparr>tn_last_connect := d\<rparr> in
     if dg_stage d \<noteq> ESP_CF_CONNECT_VERIFIED then t\<lparr>tn_last_connect_failure := d\<rparr> else t)"

text \<open>The start of an attempt: \<open>Inl\<close> is a return of \<open>discover\<close>, \<open>Inr\<close> goes on.\<close>

definition discover_start :: "('a, 'n) esp_cf_tunnel_config \<Rightarrow> 'n turn \<Rightarrow> 'a esp_cf_tunnel
    \<Rightarrow> (bool \<times> 'a esp_cf_tunnel + 'a esp_cf_tunnel) option" where
  "discover_start cfg u t =
     (let (locked, a) = tc_json_try_lock cfg (tn_app t) in
      if \<not> locked then Some (Inl (True, t\<lparr>tn_app := a\<rparr>))
      else do {
        let (rc, cred, hn, a) = tc_credentials cfg a (tn_credentials t) (tn_hostname t);
        let t = t\<lparr>tn_app := tc_json_unlock cfg a, tn_credentials := cred, tn_hostname := hn\<rparr>;
        c \<leftarrow> load hn 0;
        let t = t\<lparr>tn_settings_ready := (rc = CF_OK \<and> c \<noteq> 0 \<and> 0 \<in> set hn)\<rparr>;
        if \<not> tn_settings_ready t
        then Some (Inl (True, say (str ''Save a named tunnel token and public hostname in Settings.'') (t\<lparr>tn_credentials := zero_credentials\<rparr>)))
        else do {
          let t = t\<lparr>tn_attempt_started := True, tn_attempts := tn_attempts t + 1, tn_dns_stage := 0,
            tn_dns_answer := (if tu_answer_room u then Some zero_answer else None)\<rparr>;
          (rc, t) \<leftarrow> (if tu_answer_room u then dns_send u (str ''_v2-origintunneld._tcp.argotunnel.com'') CF_DNS_SRV t else Some (CF_ERR_MEMORY, t));
          if rc \<noteq> CF_OK then Some (Inl (False, say (str ''Unable to start edge DNS discovery.'') t))
          else Some (Inr (say (str ''Resolving Cloudflare edge service records.'') t))
        }
      })"

text \<open>The service records: the next query is for the address of the chosen target.\<close>

definition discover_srv :: "'n turn \<Rightarrow> cf_dns_answer \<Rightarrow> 'a esp_cf_tunnel \<Rightarrow> (bool \<times> 'a esp_cf_tunnel) option" where
  "discover_srv u ans t = do {
     let n = da_count ans;
     rs \<leftarrow> load_n (da_records ans) 0 n;
     let rs = sort_outer rs 0 n;
     let t = t\<lparr>tn_dns_answer := Some (ans\<lparr>da_records := rs @ drop n (da_records ans)\<rparr>), tn_dns_stage := 1\<rparr>;
     r \<leftarrow> load rs (pick_srv rs (tn_attempts t) (tu_pick u));
     target \<leftarrow> cstring (dr_target r);
     (rc, t) \<leftarrow> dns_send u (take 253 target) CF_DNS_A t;
     Some (if rc \<noteq> CF_OK then (False, say (str ''Unable to resolve the discovered edge hostname.'') t) else (True, t))
   }"

text \<open>The address records: one of them is the edge, and the TLS handle is created.\<close>

definition discover_a :: "task_codes \<Rightarrow> 'n turn \<Rightarrow> cf_dns_answer \<Rightarrow> 'a esp_cf_tunnel \<Rightarrow> (bool \<times> 'a esp_cf_tunnel) option" where
  "discover_a codes u ans t = do {
     r \<leftarrow> load (da_records ans) (unat (tu_pick u) mod da_count ans);
     ip \<leftarrow> decimal_ip (dr_ip r);
     let t = t\<lparr>tn_edge_ip := ip, tn_dns_socket := False, tn_dns_answer := None, tn_connect_started_ms := tu_now u, tn_tls := tu_tls_room u\<rparr>;
     if \<not> tu_tls_room u
     then Some (False, say (str ''TLS context allocation failed.'') (connect_diagnostic codes u None (- 1, 0, - 1, - 1, False) t))
     else Some (True, say (str ''Connecting to the discovered edge on TCP 7844.'') (life_event CF_EVENT_DISCOVERED (t\<lparr>tn_deadline_ms := tu_now u + 30000\<rparr>)))
   }"

definition discover_reply :: "task_codes \<Rightarrow> 'n turn \<Rightarrow> 'a esp_cf_tunnel \<Rightarrow> (bool \<times> 'a esp_cf_tunnel) option" where
  "discover_reply codes u t = (case tu_input u of
     Dns_Wait \<Rightarrow> Some (if tu_now u < tn_deadline_ms t then (True, t) else (False, say (str ''DNS query timed out.'') t))
   | Dns_Failed \<Rightarrow> Some (False, say (str ''DNS query failed.'') t)
   | Dns_Packet p \<Rightarrow> do {
       packet \<leftarrow> store_n (tn_dns_packet t) 0 p;
       let t = t\<lparr>tn_dns_packet := packet\<rparr>;
       (rc, ans) \<leftarrow> cf_dns_parse (Bytes p) (Some (tn_dns_name t)) (if tn_dns_stage t \<noteq> 0 then CF_DNS_A else CF_DNS_SRV) (tn_dns_id t) (tn_dns_answer t);
       let t = t\<lparr>tn_dns_answer := ans\<rparr>;
       if rc \<noteq> CF_OK then Some (False, say (str ''DNS response is invalid, truncated, or unsupported.'') t)
       else do {
         ans \<leftarrow> ans;
         if da_count ans = 0 then None
         else if tn_dns_stage t = 0 then discover_srv u ans t
         else discover_a codes u ans t
       }
     })"

definition discover :: "('a, 'n) esp_cf_tunnel_config \<Rightarrow> task_codes \<Rightarrow> 'n turn \<Rightarrow> 'a esp_cf_tunnel \<Rightarrow> (bool \<times> 'a esp_cf_tunnel) option" where
  "discover cfg codes u t = do {
     r \<leftarrow> (if \<not> tn_attempt_started t then discover_start cfg u t else Some (Inr t));
     (case r of Inl out \<Rightarrow> Some out | Inr t \<Rightarrow> discover_reply codes u t)
   }"

section \<open>Connection\<close>

text \<open>One step of the asynchronous connection; once the peer is verified, the HTTP/2 engine is created.\<close>

definition connect_tls :: "('a, 'n) esp_cf_tunnel_config \<Rightarrow> task_codes \<Rightarrow> 'n turn \<Rightarrow> 'a esp_cf_tunnel \<Rightarrow> bool \<times> 'a esp_cf_tunnel \<times> 'n cf_h2 option" where
  "connect_tls cfg codes u t =
     (let ta = tu_attempt u; rc = ta_rc ta;
          state_after = (case ta_state ta of Some s \<Rightarrow> s | None \<Rightarrow> - 1);
          t = (if state (tn_life t) = CF_CONNECT \<and> (ta_state ta = Some (ESP_TLS_HANDSHAKE (tk_tls codes)) \<or> rc = 1)
               then life_event CF_EVENT_CONNECTED t else t);
          deadline = (tu_now u \<ge> tn_deadline_ms t) in
      if rc < 0 \<or> (rc = 0 \<and> deadline) then
        let t = connect_diagnostic codes u (Some (ta_view ta)) (rc, ta_errno ta, ta_before ta, state_after, deadline) t in
        (False, say (str ''Connect failed at '' @ str (esp_cf_connect_stage_name (dg_stage (tn_last_connect t)))
          @ str ''; see structured connect diagnostics.'') t, None)
      else if rc = 0 then (True, t, None)
      else
        let t = connect_diagnostic codes u (Some (ta_view ta)) (rc, ta_errno ta, ta_before ta, state_after, False) t;
            (made, hp) = cf_h2_create True (tu_h2_room u) (tu_session u) (tc_application_streams cfg) CF_H2_NGHEAP_MAX in
        if made \<noteq> CF_OK then (False, say (str ''Not enough memory for HTTP/2.'') t, hp)
        else (True, say (str ''TLS verified. Waiting for the edge HTTP/2 control stream.'')
          ((life_event CF_EVENT_TLS_READY t)\<lparr>tn_deadline_ms := tu_now u + 30000\<rparr>), hp))"

section \<open>Exchange with the edge\<close>

text \<open>At most eight reads; \<open>Inl\<close> is the failure of \<open>communicate\<close>, \<open>Inr\<close> gives \<open>write_wait\<close>.\<close>

fun read_loop :: "('a, 'n) esp_cf_tunnel_config \<Rightarrow> 'n nghttp2 \<Rightarrow> task_codes \<Rightarrow> 'n turn \<Rightarrow> nat \<Rightarrow> nat \<Rightarrow> 'a esp_cf_tunnel \<times> 'n cf_h2
    \<Rightarrow> (('a esp_cf_tunnel \<times> 'n cf_h2) + bool \<times> 'a esp_cf_tunnel \<times> 'n cf_h2) option" where
  "read_loop cfg ng codes u i 0 st = Some (Inr (False, st))"
| "read_loop cfg ng codes u i (Suc k) (t, h) =
     (if tn_write_stalled_ms t \<noteq> 0 then Some (Inr (False, t, h))
      else let (n, buf) = tu_read u i in
      if n = tk_want_read codes \<or> n = tk_want_write codes then Some (Inr (n = tk_want_write codes, t, h))
      else if n \<le> 0 then Some (Inl (say (str ''Edge TLS read ended (code '' @ decimal n @ str '').'') t, h))
      else do {
        input \<leftarrow> load_n buf 0 (nat n);
        (rc, t, hp, consumed) \<leftarrow> cf_h2_receive (tunnel_callbacks cfg ng (tu_now u)) ng (tu_recv u) t (Some h) (Bytes input) (Some 0) (tu_now u);
        h \<leftarrow> hp;
        if rc \<noteq> CF_OK \<or> consumed \<noteq> Some (nat n) then Some (Inl (say (str ''HTTP/2 protocol or memory limit reached.'') t, h))
        else read_loop cfg ng codes u (i + 1) k (t, h)
      })"

text \<open>At most eight writes; \<open>Inr\<close> gives \<open>write_wait\<close> and \<open>write_needs_read\<close>.\<close>

fun write_loop :: "('a, 'n) esp_cf_tunnel_config \<Rightarrow> 'n nghttp2 \<Rightarrow> task_codes \<Rightarrow> 'n turn \<Rightarrow> bool \<Rightarrow> nat \<Rightarrow> nat \<Rightarrow> 'a esp_cf_tunnel \<times> 'n cf_h2
    \<Rightarrow> (('a esp_cf_tunnel \<times> 'n cf_h2) + (bool \<times> bool) \<times> 'a esp_cf_tunnel \<times> 'n cf_h2) option" where
  "write_loop cfg ng codes u write_wait i 0 st = Some (Inr ((write_wait, False), st))"
| "write_loop cfg ng codes u write_wait i (Suc k) (t, h) = do {
     (rc, t, hp, out) \<leftarrow> cf_h2_output (tunnel_callbacks cfg ng (tu_now u)) ng (tu_send u) t (Some h) (Some (Null_Bytes 0));
     h \<leftarrow> hp; out \<leftarrow> out;
     if rc \<noteq> CF_OK then Some (Inl (say (str ''Unable to encode the HTTP/2 response.'') t, h))
     else if bytes_list out = [] then Some (Inr ((write_wait, False), t, h))
     else let n = tu_write u i (take CF_H2_CHUNK (bytes_list out)) in
       if n = tk_want_read codes \<or> n = tk_want_write codes then
         let t = (if tn_write_stalled_ms t = 0 then t\<lparr>tn_write_stalled_ms := tu_now u\<rparr> else t) in
         if tu_now u - tn_write_stalled_ms t > 15000 then Some (Inl (say (str ''TLS output stalled.'') t, h))
         else Some (Inr ((n = tk_want_write codes, n = tk_want_read codes), t, h))
       else let (sent, hp) = cf_h2_sent (Some h) (nat n) in
         if n \<le> 0 \<or> sent \<noteq> CF_OK then Some (Inl (say (str ''TLS write failed (code '' @ decimal n @ str '').'') t, h))
         else do { h \<leftarrow> hp; write_loop cfg ng codes u write_wait (i + 1) k (t\<lparr>tn_write_stalled_ms := 0\<rparr>, h) }
   }"

definition goaway_message :: "cf_h2_stats \<Rightarrow> u8 list option" where
  "goaway_message s =
     (if \<not> local_goaway s then Some (str ''The edge requested a new connection (GOAWAY).'')
      else do {
        c \<leftarrow> load (local_goaway_reason s) 0;
        if c \<noteq> 0 then do { reason \<leftarrow> cstring (local_goaway_reason s); Some (str ''HTTP/2: '' @ reason) }
        else Some (str ''Local HTTP/2 ended the connection (GOAWAY).'')
      })"

text \<open>The middle part: the state of the session, the configuration, time-outs, and the end of a graceful stop.\<close>

definition communicate_state :: "('a, 'n) esp_cf_tunnel_config \<Rightarrow> 'n nghttp2 \<Rightarrow> cjson_parser \<Rightarrow> u64 \<Rightarrow> 'a esp_cf_tunnel \<times> 'n cf_h2
    \<Rightarrow> (('a esp_cf_tunnel \<times> 'n cf_h2) + 'a esp_cf_tunnel \<times> 'n cf_h2) option" where
  "communicate_state cfg ng parser now st = (case st of (t, h) \<Rightarrow>
     let s = h2_stats h;
         t = (if peer_settings s \<and> state (tn_life t) = CF_HTTP2 then life_event CF_EVENT_HTTP2_READY t else t) in
     if goaway s \<and> \<not> tn_stopping t then do { why \<leftarrow> goaway_message s; Some (Inl (say why t, h)) }
     else if tn_fault t then Some (Inl (t, h))
     else do {
       (t, h) \<leftarrow> apply_config cfg ng parser (t, h);
       hp \<leftarrow> cf_h2_tick ng (Some h) now;
       h \<leftarrow> hp;
       if tn_stopping t \<and> rpc_state (tn_rpc t) = CF_RPC_CLOSED \<and> tn_rpc_queued t = 0 \<and> \<not> tn_goaway_sent t
       then do { h \<leftarrow> snd (cf_h2_shutdown ng (Some h)); Some (Inr (t\<lparr>tn_goaway_sent := True\<rparr>, h)) }
       else Some (Inr (t, h))
     })"

text \<open>
  The whole exchange. The last part asks the engine for output once more before it waits in \<open>select\<close>,
  which changes no state.
\<close>

definition communicate_wait :: "('a, 'n) esp_cf_tunnel_config \<Rightarrow> 'n nghttp2 \<Rightarrow> 'n turn \<Rightarrow> 'a esp_cf_tunnel \<times> 'n cf_h2
    \<Rightarrow> (bool \<times> 'a esp_cf_tunnel \<times> 'n cf_h2) option" where
  "communicate_wait cfg ng u st = (case st of (t, h) \<Rightarrow>
     if \<not> registered (tn_life t) \<and> tu_now u \<ge> tn_deadline_ms t then Some (False, say (str ''Edge registration timed out.'') t, h)
     else if state (tn_life t) = CF_WAIT_CONFIG \<and> tu_now u \<ge> tn_deadline_ms t
     then Some (False, say (str ''No ingress configuration received. Check the tunnel public hostname.'') t, h)
     else if tu_fd u then do {
       (_, t, hp, _) \<leftarrow> cf_h2_output (tunnel_callbacks cfg ng (tu_now u)) ng (tu_send u) t (Some h) (Some (Null_Bytes 0));
       h \<leftarrow> hp;
       Some (True, t, h)
     } else Some (True, t, h))"

definition communicate :: "('a, 'n) esp_cf_tunnel_config \<Rightarrow> 'n nghttp2 \<Rightarrow> cjson_parser \<Rightarrow> task_codes \<Rightarrow> 'n turn \<Rightarrow> 'a esp_cf_tunnel \<times> 'n cf_h2
    \<Rightarrow> (bool \<times> 'a esp_cf_tunnel \<times> 'n cf_h2) option" where
  "communicate cfg ng parser codes u st = do {
     r \<leftarrow> read_loop cfg ng codes u 0 8 st;
     (case r of Inl st \<Rightarrow> Some (False, st) | Inr (write_wait, st) \<Rightarrow> do {
       r \<leftarrow> communicate_state cfg ng parser (tu_now u) st;
       (case r of Inl st \<Rightarrow> Some (False, st) | Inr st \<Rightarrow> do {
         r \<leftarrow> write_loop cfg ng codes u write_wait 0 8 st;
         (case r of Inl st \<Rightarrow> Some (False, st) | Inr (_, st) \<Rightarrow> communicate_wait cfg ng u st)
       })
     })
   }"

section \<open>The task\<close>

text \<open>The start of the life cycle, and a new start after a reload.\<close>

definition life_start :: "'a esp_cf_tunnel \<Rightarrow> 'a esp_cf_tunnel" where
  "life_start t = (case cf_lifecycle_start (Some (tn_life t)) of (_, Some l) \<Rightarrow> t\<lparr>tn_life := l\<rparr> | _ \<Rightarrow> t)"

definition life_stop :: "'a esp_cf_tunnel \<Rightarrow> 'a esp_cf_tunnel" where
  "life_stop t = (case cf_lifecycle_stop (Some (tn_life t)) of Some l \<Rightarrow> t\<lparr>tn_life := l\<rparr> | _ \<Rightarrow> t)"

definition task_reload :: "('a, 'n) esp_cf_tunnel_config \<Rightarrow> 'n nghttp2 \<Rightarrow> u64 \<Rightarrow> 'a esp_cf_tunnel \<times> 'n cf_h2 option
    \<Rightarrow> ('a esp_cf_tunnel \<times> 'n cf_h2 option) option" where
  "task_reload cfg ng now st = do {
     t \<leftarrow> close_connection cfg ng now (fst st) (snd st);
     Some ((life_start (life_stop t))\<lparr>tn_settings_ready := False, tn_stopping := False\<rparr>, None)
   }"

text \<open>A requested stop: \<open>None\<close> inside leaves the loop, otherwise the edge is told and two seconds are granted.\<close>

definition task_stop :: "'n nghttp2 \<Rightarrow> u64 \<Rightarrow> 'a esp_cf_tunnel \<times> 'n cf_h2 option \<Rightarrow> ('a esp_cf_tunnel \<times> 'n cf_h2) option option" where
  "task_stop ng now st = (case st of (t, hp) \<Rightarrow> (case hp of
     Some h \<Rightarrow>
       if rpc_state (tn_rpc t) \<noteq> CF_RPC_REGISTERED then Some None
       else do {
         (rc, rp, out, n) \<leftarrow> cf_rpc_unregister (Some (tn_rpc t)) (Some (replicate CF_RPC_TX_MAX 0)) CF_RPC_TX_MAX (Some 0);
         r \<leftarrow> rp; out \<leftarrow> out; n \<leftarrow> n;
         let t = t\<lparr>tn_rpc := r\<rparr>;
         (_, t, h) \<leftarrow> (if rc = CF_OK then append_rpc ng out n (t, h) else Some (CF_OK, t, h));
         Some (Some (t\<lparr>tn_stopping := True, tn_shutdown_ms := now + 2000, tn_life := (tn_life t)\<lparr>state := CF_STOPPING\<rparr>\<rparr>, h))
       }
   | None \<Rightarrow> Some None))"

text \<open>The work that belongs to the state of the life cycle; the first component is false to leave the loop.\<close>

definition task_work :: "('a, 'n) esp_cf_tunnel_config \<Rightarrow> 'n nghttp2 \<Rightarrow> cjson_parser \<Rightarrow> task_codes \<Rightarrow> 'n turn \<Rightarrow> 'a esp_cf_tunnel \<times> 'n cf_h2 option
    \<Rightarrow> (bool \<times> 'a esp_cf_tunnel \<times> 'n cf_h2 option) option" where
  "task_work cfg ng parser codes u st = (case st of (t, hp) \<Rightarrow>
     let failed = (\<lambda>t hp. do { t \<leftarrow> tunnel_retry cfg ng (tu_now u) (tu_backoff u) (tn_message t) t hp; Some (True, t, None) }) in
     if state (tn_life t) = CF_DISCOVERY then do {
       (good, t) \<leftarrow> discover cfg codes u t;
       if good then Some (True, t, hp) else failed t hp
     }
     else if state (tn_life t) = CF_CONNECT \<or> state (tn_life t) = CF_TLS then
       let (good, t, made) = connect_tls cfg codes u t; hp = (if made = None then hp else made) in
       if good then Some (True, t, hp) else failed t hp
     else (case hp of
       Some h \<Rightarrow> do {
         (good, t, h) \<leftarrow> communicate cfg ng parser codes u (t, h);
         if good then Some (True, t, Some h)
         else if tn_stopping t then Some (False, t, Some h)
         else failed t (Some h)
       }
     | None \<Rightarrow> Some (True, t, None)))"

text \<open>One turn of the loop: the requests, the environment, the work, the end of a graceful stop.\<close>

definition task_rest :: "('a, 'n) esp_cf_tunnel_config \<Rightarrow> 'n nghttp2 \<Rightarrow> cjson_parser \<Rightarrow> task_codes \<Rightarrow> 'n turn \<Rightarrow> 'a esp_cf_tunnel \<times> 'n cf_h2 option
    \<Rightarrow> (bool \<times> 'a esp_cf_tunnel \<times> 'n cf_h2 option) option" where
  "task_rest cfg ng parser codes u st = (case st of (t, hp) \<Rightarrow>
     let (env, a) = tc_environment cfg (tn_app t); t = t\<lparr>tn_app := a, tn_environment := env\<rparr>;
         up = (env_network_ready env \<and> env_time_valid env) in
     if \<not> up \<and> tn_stopping t then Some (False, t, hp)
     else do {
       (t, hp) \<leftarrow> (if \<not> up \<and> (tn_tls t \<or> tn_dns_socket t) then do { t \<leftarrow> close_connection cfg ng (tu_now u) t hp; Some (t, None) } else Some (t, hp));
       l \<leftarrow> cf_lifecycle_environment (Some (tn_life t)) (env_network_ready env) (env_time_valid env);
       l \<leftarrow> cf_lifecycle_tick (Some l) (tu_now u);
       (go, t, hp) \<leftarrow> task_work cfg ng parser codes u (t\<lparr>tn_life := l\<rparr>, hp);
       if \<not> go \<or> (tn_stopping t \<and> (tu_now u \<ge> tn_shutdown_ms t \<or> (tn_goaway_sent t \<and> tn_control_stream t = 0))) then Some (False, t, hp)
       else Some (True, publish (tu_stack u) t hp, hp)
     })"

definition task_turn :: "('a, 'n) esp_cf_tunnel_config \<Rightarrow> 'n nghttp2 \<Rightarrow> cjson_parser \<Rightarrow> task_codes \<Rightarrow> 'n turn \<Rightarrow> 'a esp_cf_tunnel \<times> 'n cf_h2 option
    \<Rightarrow> (bool \<times> 'a esp_cf_tunnel \<times> 'n cf_h2 option) option" where
  "task_turn cfg ng parser codes u st = do {
     let reload = tn_reload_requested (fst st);
     let st = ((fst st)\<lparr>tn_reload_requested := False\<rparr>, snd st);
     let stop = tn_stop_requested (fst st);
     st \<leftarrow> (if reload \<and> \<not> stop then task_reload cfg ng (tu_now u) st else Some st);
     if stop \<and> \<not> tn_stopping (fst st) then do {
       r \<leftarrow> task_stop ng (tu_now u) st;
       (case r of None \<Rightarrow> Some (False, st) | Some (t, h) \<Rightarrow> task_rest cfg ng parser codes u (t, Some h))
     } else task_rest cfg ng parser codes u st
   }"

text \<open>The end of the task.\<close>

definition task_end :: "('a, 'n) esp_cf_tunnel_config \<Rightarrow> 'n nghttp2 \<Rightarrow> 'n turn \<Rightarrow> 'a esp_cf_tunnel \<times> 'n cf_h2 option \<Rightarrow> 'a esp_cf_tunnel option" where
  "task_end cfg ng u st = do {
     t \<leftarrow> close_connection cfg ng (tu_now u) (fst st) (snd st);
     Some ((publish (tu_stack u) (say (str ''Tunnel stopped.'') (life_stop t)) (None :: 'n cf_h2 option))\<lparr>tn_task := False\<rparr>)
   }"

section \<open>Public operations\<close>

text \<open>\<open>created\<close> tells whether \<open>xTaskCreate\<close> succeeds; the new task starts with \<open>cf_lifecycle_start\<close>.\<close>

definition esp_cf_tunnel_start :: "bool \<Rightarrow> 'a esp_cf_tunnel option \<Rightarrow> esp_err \<times> 'a esp_cf_tunnel option" where
  "esp_cf_tunnel_start created tp = (case tp of None \<Rightarrow> (ESP_ERR_INVALID_ARG, None)
     | Some t \<Rightarrow> if tn_task t then (ESP_ERR_INVALID_STATE, Some t)
         else let t = t\<lparr>tn_stop_requested := False, tn_reload_requested := False, tn_stopping := False\<rparr> in
           if created then (ESP_OK, Some (t\<lparr>tn_task := True\<rparr>)) else (ESP_ERR_NO_MEM, Some t))"

definition esp_cf_tunnel_reload :: "'a esp_cf_tunnel option \<Rightarrow> 'a esp_cf_tunnel option" where
  "esp_cf_tunnel_reload tp = map_option (\<lambda>t. t\<lparr>tn_reload_requested := True\<rparr>) tp"

definition esp_cf_tunnel_stop :: "'a esp_cf_tunnel option \<Rightarrow> 'a esp_cf_tunnel option" where
  "esp_cf_tunnel_stop tp = map_option (\<lambda>t. t\<lparr>tn_stop_requested := True\<rparr>) tp"

text \<open>The object is erased and freed; the application's state is what remains.\<close>

definition esp_cf_tunnel_deinit :: "('a, 'n) esp_cf_tunnel_config \<Rightarrow> 'n nghttp2 \<Rightarrow> u64 \<Rightarrow> 'a esp_cf_tunnel option \<Rightarrow> 'n cf_h2 option
    \<Rightarrow> (esp_err \<times> ('a esp_cf_tunnel + 'a) option) option" where
  "esp_cf_tunnel_deinit cfg ng now tp hp = (case tp of None \<Rightarrow> Some (ESP_ERR_INVALID_ARG, None)
     | Some t \<Rightarrow> if tn_task t then Some (ESP_ERR_INVALID_STATE, Some (Inl t))
         else do { t \<leftarrow> close_connection cfg ng now t hp; Some (ESP_OK, Some (Inr (tn_app t))) })"

definition esp_cf_tunnel_get_snapshot :: "'a esp_cf_tunnel option \<Rightarrow> esp_cf_tunnel_snapshot option \<Rightarrow> esp_cf_tunnel_snapshot option" where
  "esp_cf_tunnel_get_snapshot tp out = (case (tp, out) of (Some t, Some _) \<Rightarrow> Some (tn_snapshot t) | _ \<Rightarrow> out)"

section \<open>The exchange keeps the session\<close>

text \<open>A consistent session with its engine.\<close>

definition live :: "('a \<Rightarrow> bool) \<Rightarrow> 'a esp_cf_tunnel \<times> 'n cf_h2 \<Rightarrow> bool" where
  "live ok st \<longleftrightarrow> session_ok (fst st) \<and> ok (tn_app (fst st)) \<and> h2_inv (snd st)"

text \<open>The application's lock keeps the application's own invariant.\<close>

definition lock_ok :: "('a, 'n) esp_cf_tunnel_config \<Rightarrow> ('a \<Rightarrow> bool) \<Rightarrow> bool" where
  "lock_ok cfg ok \<longleftrightarrow> (\<forall>a. ok a \<longrightarrow> ok (snd (tc_json_try_lock cfg a)) \<and> ok (tc_json_unlock cfg a))"

text \<open>
  What the connection and nghttp2 do in one exchange, along the states the exchange really meets: a read gives no
  more bytes than the buffer holds, and nghttp2 makes only callbacks that it may make in the state it is called in
  (\<open>events_ok\<close>). The conditions follow the two loops: each state is the result of the step before.
\<close>

fun read_link :: "('a, 'n) esp_cf_tunnel_config \<Rightarrow> 'n nghttp2 \<Rightarrow> task_codes \<Rightarrow> 'n turn \<Rightarrow> nat \<Rightarrow> nat \<Rightarrow> 'a esp_cf_tunnel \<times> 'n cf_h2 \<Rightarrow> bool" where
  "read_link cfg ng codes u i 0 st \<longleftrightarrow> True"
| "read_link cfg ng codes u i (Suc k) (t, h) \<longleftrightarrow> (let (n, buf) = tu_read u i; cbs = tunnel_callbacks cfg ng (tu_now u) in
     if tn_write_stalled_ms t \<noteq> 0 \<or> n = tk_want_read codes \<or> n = tk_want_write codes \<or> n \<le> 0 then True
     else nat n \<le> length buf \<and> events_ok cbs ng (fst (tu_recv u (h2_session h) (take (nat n) buf))) (t, h\<lparr>h2_now_ms := tu_now u\<rparr>)
       \<and> (case cf_h2_receive cbs ng (tu_recv u) t (Some h) (Bytes (take (nat n) buf)) (Some 0) (tu_now u) of
            Some (rc, t, Some h, consumed) \<Rightarrow> rc = CF_OK \<and> consumed = Some (nat n) \<longrightarrow> read_link cfg ng codes u (i + 1) k (t, h) | _ \<Rightarrow> True))"

fun write_link :: "('a, 'n) esp_cf_tunnel_config \<Rightarrow> 'n nghttp2 \<Rightarrow> task_codes \<Rightarrow> 'n turn \<Rightarrow> nat \<Rightarrow> nat \<Rightarrow> 'a esp_cf_tunnel \<times> 'n cf_h2 \<Rightarrow> bool" where
  "write_link cfg ng codes u i 0 st \<longleftrightarrow> True"
| "write_link cfg ng codes u i (Suc k) (t, h) \<longleftrightarrow> (let cbs = tunnel_callbacks cfg ng (tu_now u) in
     events_ok cbs ng (fst (tu_send u (h2_session h))) (t, h)
       \<and> (case cf_h2_output cbs ng (tu_send u) t (Some h) (Some (Null_Bytes 0)) of
            Some (rc, t, Some h, Some out) \<Rightarrow> (let n = tu_write u i (take CF_H2_CHUNK (bytes_list out)) in
              (case cf_h2_sent (Some h) (nat n) of
                 (src, Some h) \<Rightarrow> rc = CF_OK \<and> bytes_list out \<noteq> [] \<and> n \<noteq> tk_want_read codes \<and> n \<noteq> tk_want_write codes \<and> 0 < n \<and> src = CF_OK
                   \<longrightarrow> write_link cfg ng codes u (i + 1) k (t\<lparr>tn_write_stalled_ms := 0\<rparr>, h)
               | _ \<Rightarrow> True))
          | _ \<Rightarrow> True))"

definition link_ok :: "('a, 'n) esp_cf_tunnel_config \<Rightarrow> 'n nghttp2 \<Rightarrow> cjson_parser \<Rightarrow> task_codes \<Rightarrow> 'n turn \<Rightarrow> 'a esp_cf_tunnel \<times> 'n cf_h2 \<Rightarrow> bool" where
  "link_ok cfg ng parser codes u st \<longleftrightarrow> read_link cfg ng codes u 0 8 st
     \<and> (case read_loop cfg ng codes u 0 8 st of Some (Inr (w, st)) \<Rightarrow>
          (case communicate_state cfg ng parser (tu_now u) st of Some (Inr st) \<Rightarrow> write_link cfg ng codes u 0 8 st
             \<and> (case write_loop cfg ng codes u w 0 8 st of Some (Inr (_, t, h)) \<Rightarrow>
                  tu_fd u \<longrightarrow> events_ok (tunnel_callbacks cfg ng (tu_now u)) ng (fst (tu_send u (h2_session h))) (t, h)
                | _ \<Rightarrow> True)
           | _ \<Rightarrow> True)
        | _ \<Rightarrow> True)"

lemma live_fields [simp]:
  "live ok (say x t, h) = live ok (t, h)" "live ok (t\<lparr>tn_write_stalled_ms := n\<rparr>, h) = live ok (t, h)" "live ok (t\<lparr>tn_goaway_sent := b\<rparr>, h) = live ok (t, h)"
  by (simp_all add: live_def say_def session_parts)

lemma live_touch: "live ok (t, h) \<Longrightarrow> h2_touch h h' \<Longrightarrow> live ok (t, h')"
  by (auto simp: live_def intro: inv_touch)

lemma live_core: "live ok (t, h) \<Longrightarrow> h2_core h"
  by (simp add: live_def h2_inv_def)

lemma goaway_message_total:
  assumes "h2_inv h" shows "\<exists>why. goaway_message (h2_stats h) = Some why"
proof -
  have r: "reason_text (local_goaway_reason (h2_stats h))" using assms by (simp add: h2_inv_def h2_core_def h2_scratch_def)
  show ?thesis using r by (auto simp: goaway_message_def reason_text_def load_def cstring_def)
qed

lemma life_event_app: "tn_app (life_event e t) = tn_app t"
  by (simp add: life_event_eq del: exec_op.simps)

lemma apply_config_app:
  assumes "apply_config cfg ng parser (t, h) = Some (t', h')" "lock_ok cfg ok" "ok (tn_app t)" shows "ok (tn_app t')"
proof -
  let ?a = "snd (tc_json_try_lock cfg (tn_app t))"
  have l: "ok ?a" "ok (tc_json_unlock cfg ?a)" using assms(2,3) by (auto simp: lock_ok_def)
  have "tn_app t' = tn_app t \<or> tn_app t' = ?a \<or> tn_app t' = tc_json_unlock cfg ?a"
  proof (cases "tn_config_pending t \<and> fst (tc_json_try_lock cfg (tn_app t))")
    case True
    then have "tn_app t' = tc_json_unlock cfg ?a"
      using assms(1) unfolding apply_config_def by (clarsimp simp: Let_def case_prod_unfold bind_eq_Some_conv life_event_app)
    then show ?thesis by simp
  next
    case False
    then have "apply_config cfg ng parser (t, h) = Some (if tn_config_pending t then t\<lparr>tn_app := ?a\<rparr> else t, h)"
      by (auto simp: apply_config_def case_prod_unfold Let_def)
    then show ?thesis using assms(1) by (auto split: if_splits)
  qed
  then show ?thesis using l assms(3) by auto
qed

lemma communicate_state_live:
  assumes "parser_strings parser" "parser_numbers parser" "lock_ok cfg ok" "live ok (t, h)"
  shows "\<exists>r. communicate_state cfg ng parser now (t, h) = Some r \<and> (case r of Inl s \<Rightarrow> live ok s | Inr s \<Rightarrow> live ok s)"
proof -
  define t1 where "t1 = (if peer_settings (h2_stats h) \<and> state (tn_life t) = CF_HTTP2 then life_event CF_EVENT_HTTP2_READY t else t)"
  have l1: "live ok (t1, h)"
    using assms(4) life_event_session [of t CF_EVENT_HTTP2_READY] by (auto simp: t1_def live_def life_event_eq simp del: exec_op.simps)
  obtain why where why: "goaway_message (h2_stats h) = Some why" using goaway_message_total assms(4) by (auto simp: live_def)
  obtain t2 h2 where a: "apply_config cfg ng parser (t1, h) = Some (t2, h2)" "session_ok t2" "h2_touch h h2"
    using apply_config_session [OF assms(1,2) _ live_core [OF l1], of t1 cfg ng] l1 by (auto simp: live_def)
  have l2: "live ok (t2, h2)" using apply_config_app [OF a(1) assms(3)] l1 a(2,3) inv_touch by (auto simp: live_def)
  obtain h3 where h3: "cf_h2_tick ng (Some h2) now = Some (Some h3)" "h2_touch h2 h3" using tick_touch [OF live_core [OF l2]] by blast
  have l3: "live ok (t2, h3)" by (rule live_touch [OF l2 h3(2)])
  obtain rc h4 where h4: "cf_h2_shutdown ng (Some h3) = (rc, Some h4)" "h2_touch h3 h4" using shutdown_touch by blast
  have l4: "live ok (t2, h4)" by (rule live_touch [OF l3 h4(2)])
  show ?thesis using l1 l3 l4 a(1) why h3(1) h4(1)
    by (simp add: communicate_state_def Let_def t1_def [symmetric])
qed

context tunnel_host
begin

lemma receive_live:
  assumes "events_ok (tunnel_callbacks cfg ng now) ng (fst (recv (h2_session h) bs)) (t, h\<lparr>h2_now_ms := now\<rparr>)" "live ok (t, h)"
  shows "\<exists>rc t' h' n. cf_h2_receive (tunnel_callbacks cfg ng now) ng recv t (Some h) (Bytes bs) (Some 0) now = Some (rc, t', Some h', Some n) \<and> live ok (t', h')"
  using tunnel.receive_good [of t h "Bytes bs" recv now 0] assms by (auto simp: live_def)

lemma output_live:
  assumes "events_ok (tunnel_callbacks cfg ng now) ng (fst (send (h2_session h))) (t, h)" "live ok (t, h)"
  shows "\<exists>rc t' h' b. cf_h2_output (tunnel_callbacks cfg ng now) ng send t (Some h) (Some out) = Some (rc, t', Some h', Some b) \<and> live ok (t', h')"
  using tunnel.output_good [of t h send out] assms by (auto simp: live_def)

lemma read_loop_live:
  assumes "tu_now u = now"
  shows "live ok st \<Longrightarrow> read_link cfg ng codes u i k st \<Longrightarrow>
    \<exists>r. read_loop cfg ng codes u i k st = Some r \<and> (case r of Inl s \<Rightarrow> live ok s | Inr (w, s) \<Rightarrow> live ok s)"
proof (induction k arbitrary: i st)
  case (Suc k)
  obtain t h where st: "st = (t, h)" by fastforce
  obtain n buf where rd: "tu_read u i = (n, buf)" by fastforce
  let ?idle = "tn_write_stalled_ms t \<noteq> 0 \<or> n = tk_want_read codes \<or> n = tk_want_write codes \<or> n \<le> 0"
  show ?case
  proof (cases ?idle)
    case True
    then show ?thesis using Suc.prems(1) by (auto simp: st rd)
  next
    case False
    then have l: "nat n \<le> length buf" "events_ok (tunnel_callbacks cfg ng now) ng (fst (tu_recv u (h2_session h) (take (nat n) buf))) (t, h\<lparr>h2_now_ms := now\<rparr>)"
      using Suc.prems(2) by (simp_all add: st rd assms Let_def)
    then have ld: "load_n buf 0 (nat n) = Some (take (nat n) buf)" by (simp add: load_n_def)
    obtain rc t' h' m where r: "cf_h2_receive (tunnel_callbacks cfg ng now) ng (tu_recv u) t (Some h) (Bytes (take (nat n) buf)) (Some 0) now = Some (rc, t', Some h', Some m)"
        "live ok (t', h')" using receive_live [of "tu_recv u", OF l(2)] Suc.prems(1) st by blast
    have "rc = CF_OK \<Longrightarrow> m = nat n \<Longrightarrow> read_link cfg ng codes u (i + 1) k (t', h')"
      using Suc.prems(2) False r(1) by (simp add: st rd assms Let_def)
    then show ?thesis using Suc.IH [OF r(2), of "i + 1"] False r ld by (auto simp: st rd assms)
  qed
qed simp

lemma write_loop_live:
  assumes "tu_now u = now"
  shows "live ok st \<Longrightarrow> write_link cfg ng codes u i k st \<Longrightarrow>
    \<exists>r. write_loop cfg ng codes u w i k st = Some r \<and> (case r of Inl s \<Rightarrow> live ok s | Inr (w, s) \<Rightarrow> live ok s)"
proof (induction k arbitrary: i st)
  case (Suc k)
  obtain t h where st: "st = (t, h)" by fastforce
  have e: "events_ok (tunnel_callbacks cfg ng now) ng (fst (tu_send u (h2_session h))) (t, h)"
    using Suc.prems(2) by (simp add: st assms Let_def)
  obtain rc t' h' b where o: "cf_h2_output (tunnel_callbacks cfg ng now) ng (tu_send u) t (Some h) (Some (Null_Bytes 0)) = Some (rc, t', Some h', Some b)"
      "live ok (t', h')" using output_live [of "tu_send u", OF e] Suc.prems(1) st by blast
  let ?n = "tu_write u i (take CF_H2_CHUNK (bytes_list b))"
  obtain src h2 where s: "cf_h2_sent (Some h') (nat ?n) = (src, Some h2)" "h2_touch h' h2" using sent_touch by blast
  have l: "live ok (t'\<lparr>tn_write_stalled_ms := 0\<rparr>, h2)" using live_touch [OF o(2) s(2)] by simp
  have "rc = CF_OK \<Longrightarrow> bytes_list b \<noteq> [] \<Longrightarrow> ?n \<noteq> tk_want_read codes \<Longrightarrow> ?n \<noteq> tk_want_write codes \<Longrightarrow> 0 < ?n \<Longrightarrow> src = CF_OK
      \<Longrightarrow> write_link cfg ng codes u (i + 1) k (t'\<lparr>tn_write_stalled_ms := 0\<rparr>, h2)"
    using Suc.prems(2) o(1) s(1) by (simp add: st assms Let_def)
  then show ?case using Suc.IH [OF l, of "i + 1"] o s(1) by (auto simp: st assms Let_def)
qed simp

lemma communicate_wait_live:
  assumes "tu_now u = now" "live ok (t, h)"
    and "tu_fd u \<Longrightarrow> events_ok (tunnel_callbacks cfg ng now) ng (fst (tu_send u (h2_session h))) (t, h)"
  shows "\<exists>good s. communicate_wait cfg ng u (t, h) = Some (good, s) \<and> live ok s"
  using output_live [of "tu_send u" h t "Null_Bytes 0"] assms(2,3) by (cases "tu_fd u") (auto simp: communicate_wait_def assms(1))

lemma communicate_live:
  assumes "parser_strings parser" "parser_numbers parser" "lock_ok cfg ok" "link_ok cfg ng parser codes u st" "tu_now u = now" "live ok st"
  shows "\<exists>good st'. communicate cfg ng parser codes u st = Some (good, st') \<and> live ok st'"
proof -
  obtain r where r: "read_loop cfg ng codes u 0 8 st = Some r" "case r of Inl s \<Rightarrow> live ok s | Inr (w, s) \<Rightarrow> live ok s"
    using read_loop_live [OF assms(5,6)] assms(4) unfolding link_ok_def by blast
  show ?thesis
  proof (cases r)
    case (Inl s)
    then show ?thesis using r by (auto simp: communicate_def)
  next
    case (Inr p)
    then obtain w t h where p: "p = (w, t, h)" by (cases p) auto
    then have l: "live ok (t, h)" using r(2) Inr by simp
    obtain q where q: "communicate_state cfg ng parser (tu_now u) (t, h) = Some q" "case q of Inl s \<Rightarrow> live ok s | Inr s \<Rightarrow> live ok s"
      using communicate_state_live [OF assms(1-3) l] by blast
    show ?thesis
    proof (cases q)
      case (Inl s)
      then show ?thesis using r Inr p q by (auto simp: communicate_def)
    next
      case q': (Inr s)
      have wl: "write_link cfg ng codes u 0 8 s" using assms(4) r(1) Inr p q(1) q' by (simp add: link_ok_def)
      obtain x where x: "write_loop cfg ng codes u w 0 8 s = Some x" "case x of Inl s \<Rightarrow> live ok s | Inr (w, s) \<Rightarrow> live ok s"
        using write_loop_live [OF assms(5) _ wl, of w] q(2) q' by auto
      show ?thesis
      proof (cases x)
        case (Inl s')
        then show ?thesis using r Inr p q q' x by (auto simp: communicate_def)
      next
        case x': (Inr y)
        then obtain v t' h' where y: "y = (v, t', h')" by (cases y) auto
        have "tu_fd u \<Longrightarrow> events_ok (tunnel_callbacks cfg ng now) ng (fst (tu_send u (h2_session h'))) (t', h')"
          using assms(4,5) r(1) Inr p q(1) q' x(1) x' y by (simp add: link_ok_def)
        then show ?thesis using communicate_wait_live [OF assms(5), of t' h'] r Inr p q q' x x' y by (simp add: communicate_def)
      qed
    qed
  qed
qed

end

section \<open>Properties\<close>

text \<open>
  C4. One exchange of the task with the edge: whatever the connection delivers, requests that open a stream included, and
  however far writes get, from a consistent session the exchange runs to its end, through reads, the callbacks they cause, the configuration,
  time-outs and writes, and leaves session, application and engine consistent, also when it reports a failure.
\<close>

theorem communicate_safe:
  assumes "h2_application (tc_callbacks cfg) ok" "lock_ok cfg ok" "parser_strings parser" "parser_numbers parser"
    and "link_ok cfg ng parser codes u st" "live ok st"
  shows "\<exists>good st'. communicate cfg ng parser codes u st = Some (good, st') \<and> live ok st'"
  using tunnel_host.communicate_live [OF tunnel_host.intro [OF assms(1)] assms(3,4,2,5) refl assms(6)] .

definition sample_turn :: "unit turn" where
  "sample_turn = \<lparr>tu_now = 5, tu_utc = 0, tu_heap = (0, 0), tu_stack = 0, tu_pick = 0, tu_backoff = 0, tu_answer_room = True, tu_tls_room = True,
     tu_dns = \<lparr>io_socket = True, io_connected = True, io_random = 1, io_send = \<lambda>q. int (length q)\<rparr>, tu_input = Dns_Wait,
     tu_attempt = \<lparr>ta_before = 0, ta_rc = 0, ta_errno = 0, ta_state = None, ta_view = \<lparr>tv_ssl = None, tv_errors = None\<rparr>\<rparr>,
     tu_h2_room = True, tu_session = Some (), tu_read = \<lambda>i. if i = 0 then (3, [1, 2, 3]) else (- 26880, []), tu_write = \<lambda>i out. int (length out), tu_fd = True,
     tu_recv = \<lambda>_ bs. ([Begin_Headers 1 True, Frame_Received request_frame], Inr (length bs), \<lambda>n. n), tu_send = \<lambda>_. ([], \<lambda>n. (Inr [7], n))\<rparr>"

definition sample_codes :: task_codes where
  "sample_codes = \<lparr>tk_tls = \<lparr>ESP_TLS_HANDSHAKE = 2, ESP_ERR_MBEDTLS_SSL_HANDSHAKE_FAILED = 1, ESP_ERR_ESP_TLS_CANNOT_RESOLVE_HOSTNAME = 2,
       ESP_ERR_ESP_TLS_CONNECTION_TIMEOUT = 3\<rparr>, tk_want_read = - 26880, tk_want_write = - 26752, tk_no_mem = 257\<rparr>"

lemma sample_turn_silent: "tu_send sample_turn s = ([], \<lambda>n. (Inr [7], n))"
  by (simp add: sample_turn_def)

lemma silent_write_link: "write_link cfg ng codes sample_turn i k (t, h)"
  by (induction k arbitrary: i t h) (auto simp: Let_def sample_turn_silent split: option.split prod.split)

lemma sample_events:
  "events_ok (tunnel_callbacks sample_cfg willing 5) willing [Begin_Headers 1 True, Frame_Received request_frame] (sample_tunnel_state, (h2_new 2 8192 ())\<lparr>h2_now_ms := 5\<rparr>)"
  by (simp add: request_frame_def h2_new_def ids_def used_def zero_stream_def case_prod_unfold split: option.split)

lemma sample_wants: "tk_want_read sample_codes = - 26880" "tk_want_write sample_codes = - 26752"
  by (simp_all add: sample_codes_def)

lemma sample_link: "link_ok sample_cfg willing update_parser sample_codes sample_turn (sample_tunnel_state, h2_new 2 8192 ())"
proof -
  have rd: "tu_read sample_turn i = (if i = 0 then (3, [1, 2, 3]) else (- 26880, []))" "tu_now sample_turn = 5"
      "tu_recv sample_turn s bs = ([Begin_Headers 1 True, Frame_Received request_frame], Inr (length bs), \<lambda>n. n)" for i s bs
    by (simp_all add: sample_turn_def)
  have idle: "read_link sample_cfg willing sample_codes sample_turn (Suc i) k (t, h)" for i k t h
    by (cases k) (simp_all add: rd sample_wants)
  have "read_link sample_cfg willing sample_codes sample_turn 0 (Suc k) (sample_tunnel_state, h2_new 2 8192 ())" for k
    using sample_events idle by (auto simp: rd sample_wants Let_def split: option.split simp del: events_ok.simps)
  from this [of 7] have "read_link sample_cfg willing sample_codes sample_turn 0 8 (sample_tunnel_state, h2_new 2 8192 ())" by (simp del: read_link.simps)
  then show ?thesis
    by (simp add: link_ok_def silent_write_link sample_turn_silent split: option.split sum.split prod.split)
qed

theorem communicate_safe_witness:
  "\<exists>good st'. communicate sample_cfg willing update_parser sample_codes sample_turn (sample_tunnel_state, h2_new 2 8192 ()) = Some (good, st')
     \<and> live (\<lambda>_. True) st'"
proof -
  have app: "h2_application (tc_callbacks sample_cfg) (\<lambda>_. True)" using accepting_application by (simp add: sample_cfg_def)
  have lock: "lock_ok sample_cfg (\<lambda>_. True)" by (simp add: lock_ok_def)
  have l: "live (\<lambda>_. True) (sample_tunnel_state, h2_new 2 8192 ())" using sample_session new_inv [of 2 8192 "()"] by (simp add: live_def)
  show ?thesis by (rule communicate_safe [OF app lock update_parser_values sample_link l])
qed

end
