(* ===== verification/Mon_Ota.thy ===== *)
theory Mon_Ota
  imports CF_Base64 CF_Dns
begin

text \<open>
  The firmware update of the system monitor, \<^verbatim>\<open>examples/system_monitor/main/monitor_ota.c\<close>: an upload is announced with its
  size and digest, arrives in chunks, and is selected for the next boot only once it is complete and verified.
  The calls that reach the flash are kept in a log.
\<close>

section \<open>Data\<close>

definition MONITOR_OTA_CHUNK :: nat where "MONITOR_OTA_CHUNK = 1408"

text \<open>Texts are the contents of their arrays up to the NUL.\<close>

record monitor_ota_status =
  os_available :: bool
  os_active :: bool
  os_ready :: bool
  os_received :: nat
  os_total :: nat
  os_capacity :: nat
  os_running :: "u8 list"
  os_target :: "u8 list"
  os_version :: "u8 list"
  os_message :: "u8 list"

record partition =
  pa_address :: nat
  pa_size :: nat
  pa_label :: "u8 list"

text \<open>
  The log: the announcement of an upload with its size and digest, and the calls of the update functions of ESP-IDF.
\<close>

datatype ota_call = Ota_Announce nat "u8 list" | Ota_Begin partition | Ota_Write "u8 list" | Ota_End | Ota_Abort | Ota_Set_Boot partition

text \<open>
  The static record \<open>upload\<close>. \<open>up_hash\<close> is the message that the hash operation has been given so far, \<open>None\<close> when no
  operation is set up. \<open>up_log\<close> is the log of calls, the latest last.
\<close>

record ota_upload =
  up_status :: monitor_ota_status
  up_partition :: "partition option"
  up_open :: bool
  up_id :: mem
  up_expected :: mem
  up_hash :: "u8 list option"
  up_activity_ms :: u64
  up_log :: "ota_call list"

definition zero_status :: monitor_ota_status where
  "zero_status = \<lparr>os_available = False, os_active = False, os_ready = False, os_received = 0, os_total = 0, os_capacity = 0,
     os_running = [], os_target = [], os_version = [], os_message = []\<rparr>"

definition zero_upload :: ota_upload where
  "zero_upload = \<lparr>up_status = zero_status, up_partition = None, up_open = False, up_id = replicate 33 0, up_expected = replicate 32 0,
     up_hash = None, up_activity_ms = 0, up_log = []\<rparr>"

text \<open>
  What ESP-IDF answers during a call: the partitions, the clock, the random source, whether the crypto calls and the flash calls
  succeed, the digest function, and the layout of an image (the sizes of its headers, and the checks and texts of its fields).
\<close>

record ota_platform =
  op_running :: "partition option"
  op_next :: "partition option"
  op_now :: u64
  op_random16 :: "u8 list"
  op_hash_setup :: bool
  op_hash_update :: bool
  op_hash_finish :: bool
  op_sha256 :: "u8 list \<Rightarrow> u8 list"
  op_begin :: bool
  op_write :: bool
  op_end :: bool
  op_set_boot :: bool
  op_header_size :: nat
  op_segment_size :: nat
  op_app_size :: nat
  op_header_ok :: "u8 list \<Rightarrow> bool"
  op_app_ok :: "u8 list \<Rightarrow> bool"
  op_project :: "u8 list \<Rightarrow> u8 list"
  op_version_text :: "u8 list \<Rightarrow> u8 list"
  op_current_project :: "u8 list"

section \<open>Operations\<close>

text \<open>\<open>snprintf\<close> into an array of 112 characters.\<close>

definition ota_message :: "string \<Rightarrow> ota_upload \<Rightarrow> ota_upload" where
  "ota_message reason u = u\<lparr>up_status := (up_status u)\<lparr>os_message := take 111 (str reason)\<rparr>\<rparr>"

definition ota_fail :: "string \<Rightarrow> ota_upload \<Rightarrow> bool \<times> ota_upload" where
  "ota_fail reason u = (False, ota_message reason u)"

definition ota_release :: "ota_upload \<Rightarrow> ota_upload" where
  "ota_release u = u\<lparr>up_log := up_log u @ (if up_open u then [Ota_Abort] else []), up_open := False,
     up_status := (up_status u)\<lparr>os_active := False\<rparr>, up_hash := None, up_id := replicate (length (up_id u)) 0,
     up_expected := replicate (length (up_expected u)) 0\<rparr>"

text \<open>A C string of 32 characters that is the identifier of the active session.\<close>

definition ota_matches :: "u8 list option \<Rightarrow> ota_upload \<Rightarrow> bool" where
  "ota_matches sid u \<longleftrightarrow> os_active (up_status u) \<and> (case sid of None \<Rightarrow> False | Some s \<Rightarrow> length s = 32 \<and> s = take 32 (up_id u))"

definition ota_hex :: "u8 \<Rightarrow> int" where
  "ota_hex c =
     (if c \<ge> ch CHR ''0'' \<and> c \<le> ch CHR ''9'' then uint c - 48
      else if c \<ge> ch CHR ''a'' \<and> c \<le> ch CHR ''f'' then uint c - 97 + 10
      else if c \<ge> ch CHR ''A'' \<and> c \<le> ch CHR ''F'' then uint c - 65 + 10
      else - 1)"

definition monitor_ota_snapshot :: "ota_platform \<Rightarrow> ota_upload \<Rightarrow> monitor_ota_status" where
  "monitor_ota_snapshot p u =
     (let out = (up_status u)\<lparr>os_available := (case (op_next p, op_running p) of (Some n, Some r) \<Rightarrow> pa_address n \<noteq> pa_address r | _ \<Rightarrow> False),
            os_capacity := (case op_next p of Some n \<Rightarrow> pa_size n | None \<Rightarrow> 0),
            os_running := take 16 (case op_running p of Some r \<Rightarrow> pa_label r | None \<Rightarrow> str ''unknown'')\<rparr> in
      if os_message out = [] then out\<lparr>os_message := take 111 (if os_available out then str ''Ready for a firmware image.''
        else str ''Install the OTA partition layout over USB first.'')\<rparr> else out)"

text \<open>The loop over the digest's text; on the left it is invalid.\<close>

fun digest_loop :: "u8 list \<Rightarrow> nat \<Rightarrow> nat \<Rightarrow> mem \<Rightarrow> mem option option" where
  "digest_loop text64 i 0 out = Some (Some out)"
| "digest_loop text64 i (Suc k) out = do {
     a \<leftarrow> load text64 (2 * i); b \<leftarrow> load text64 (2 * i + 1);
     if ota_hex a < 0 \<or> ota_hex b < 0 then Some None
     else do { out \<leftarrow> store out i (word_of_int (ota_hex a * 16 + ota_hex b)); digest_loop text64 (i + 1) k out }
   }"

text \<open>\<open>%02x\<close>\<close>

definition hex_pair :: "u8 \<Rightarrow> u8 list" where
  "hex_pair b = (let d = (\<lambda>n. if n < 10 then word_of_nat (48 + n) else word_of_nat (87 + n)) in [d (unat b div 16), d (unat b mod 16)])"

definition hex_text :: "u8 list \<Rightarrow> u8 list" where
  "hex_text bs = concat (map hex_pair bs)"

text \<open>The record after a successful check of the arguments, up to the setup of the hash.\<close>

definition ota_new :: "ota_platform \<Rightarrow> nat \<Rightarrow> mem \<Rightarrow> ota_upload \<Rightarrow> ota_upload" where
  "ota_new p total_size expected u = zero_upload\<lparr>up_log := up_log u @ [Ota_Announce total_size expected], up_status := zero_status\<lparr>os_active := True, os_total := total_size,
       os_target := take 16 (case op_next p of Some n \<Rightarrow> pa_label n | None \<Rightarrow> [])\<rparr>,
     up_partition := op_next p, up_expected := expected, up_id := hex_text (op_random16 p) @ [0], up_activity_ms := op_now p, up_hash := Some []\<rparr>"

text \<open>The result, the identifier written to \<open>id\<close>, and the new record.\<close>

definition monitor_ota_start :: "ota_platform \<Rightarrow> nat \<Rightarrow> u8 list option \<Rightarrow> ota_upload \<Rightarrow> (bool \<times> mem option \<times> ota_upload) option" where
  "monitor_ota_start p total_size sha256 u =
     (let failed = (\<lambda>why. Some (False, None, ota_message why u)); status = monitor_ota_snapshot p u in
      if os_active (up_status u) \<or> os_ready (up_status u) then failed ''An update is already in progress or awaiting restart.''
      else if \<not> os_available status then failed ''OTA partitions unavailable. Install the OTA layout over USB first.''
      else if total_size < op_header_size p + op_segment_size p + op_app_size p \<or> total_size > os_capacity status
      then failed ''The firmware size is outside the inactive OTA slot capacity.''
      else (case sha256 of
          None \<Rightarrow> failed ''A 64-character SHA256 digest is required.''
        | Some s \<Rightarrow>
            if length s \<noteq> 64 then failed ''A 64-character SHA256 digest is required.''
            else do {
              d \<leftarrow> digest_loop s 0 32 (replicate 32 0);
              (case d of
                 None \<Rightarrow> failed ''Invalid SHA256 digest.''
               | Some expected \<Rightarrow>
                   let v = ota_new p total_size expected u in
                   if \<not> op_hash_setup p then Some (False, Some (up_id v), ota_message ''SHA256 initialization failed.'' (ota_release v))
                   else Some (True, Some (up_id v), ota_message ''Upload started.'' v))
            }))"

text \<open>
  The first chunk: its descriptor is checked and the slot is opened. \<open>Inl\<close> is a failure, \<open>Inr\<close> goes on.
\<close>

definition ota_open :: "ota_platform \<Rightarrow> u8 list \<Rightarrow> ota_upload \<Rightarrow> (bool \<times> ota_upload + ota_upload) option" where
  "ota_open p bytes u =
     (let prefix = op_header_size p + op_segment_size p in
      if length bytes < prefix + op_app_size p then Some (Inl (ota_fail ''The first chunk must include the firmware descriptor.'' u))
      else do {
        header \<leftarrow> load_n bytes 0 (op_header_size p);
        app \<leftarrow> load_n bytes prefix (op_app_size p);
        if \<not> op_header_ok p header \<or> \<not> op_app_ok p app \<or> op_project p app \<noteq> op_current_project p
        then Some (Inl (ota_fail ''Use an ESP32-S3 ESP Monitor application .bin, not a merged flash image.'' (ota_release u)))
        else do {
          part \<leftarrow> up_partition u;
          let u = u\<lparr>up_status := (up_status u)\<lparr>os_version := take 32 (op_version_text p app)\<rparr>\<rparr>;
          if \<not> op_begin p then Some (Inl (ota_fail ''Unable to open the inactive OTA slot.'' (ota_release u)))
          else Some (Inr (u\<lparr>up_open := True, up_log := up_log u @ [Ota_Begin part]\<rparr>))
        }
      })"

text \<open>A chunk is written and given to the hash.\<close>

definition ota_append :: "ota_platform \<Rightarrow> u8 list \<Rightarrow> ota_upload \<Rightarrow> bool \<times> ota_upload" where
  "ota_append p bs u =
     (let v = u\<lparr>up_log := up_log u @ [Ota_Write bs]\<rparr> in
      if \<not> op_write p \<or> \<not> op_hash_update p then ota_fail ''Firmware write failed; the running image is unchanged.'' (ota_release v)
      else (True, v\<lparr>up_hash := map_option (\<lambda>m. m @ bs) (up_hash v), up_activity_ms := op_now p,
        up_status := (up_status v)\<lparr>os_received := os_received (up_status v) + length bs\<rparr>\<rparr>))"

definition monitor_ota_write :: "ota_platform \<Rightarrow> u8 list option \<Rightarrow> nat \<Rightarrow> cf_bytes \<Rightarrow> ota_upload \<Rightarrow> (bool \<times> ota_upload) option" where
  "monitor_ota_write p sid offset bytes u =
     (let st = up_status u; bs = bytes_list bytes in
      if \<not> ota_matches sid u then Some (ota_fail ''The upload session is not active.'' u)
      else if offset \<noteq> os_received st \<or> bytes_null bytes \<or> bytes_len bytes = 0 \<or> bytes_len bytes > MONITOR_OTA_CHUNK
        \<or> bytes_len bytes > size_sub (os_total st) (os_received st)
      then Some (ota_fail ''Invalid chunk size or offset; upload was not advanced.'' u)
      else do {
        r \<leftarrow> (if up_open u then Some (Inr u) else ota_open p bs u);
        Some (case r of Inl out \<Rightarrow> out | Inr u \<Rightarrow> ota_append p bs u)
      })"

definition monitor_ota_finish :: "ota_platform \<Rightarrow> u8 list option \<Rightarrow> ota_upload \<Rightarrow> (bool \<times> ota_upload) option" where
  "monitor_ota_finish p sid u =
     (let st = up_status u in
      if \<not> ota_matches sid u \<or> \<not> up_open u \<or> os_received st \<noteq> os_total st then Some (ota_fail ''The firmware upload is incomplete.'' u)
      else do {
        msg \<leftarrow> up_hash u;
        let u = u\<lparr>up_hash := None\<rparr>;
        if \<not> op_hash_finish p \<or> length (op_sha256 p msg) \<noteq> 32 \<or> op_sha256 p msg \<noteq> up_expected u
        then Some (ota_fail ''SHA256 mismatch; the running image is unchanged.'' (ota_release u))
        else
          let u = u\<lparr>up_open := False, up_log := up_log u @ [Ota_End]\<rparr> in
          if \<not> op_end p then Some (ota_fail ''ESP image validation failed; the running image is unchanged.'' (ota_release u))
          else do {
            part \<leftarrow> up_partition u;
            let u = ota_release (u\<lparr>up_log := up_log u @ [Ota_Set_Boot part]\<rparr>);
            if \<not> op_set_boot p then Some (ota_fail ''Unable to select the verified image for the next boot.'' u)
            else Some (True, ota_message ''Firmware verified. Restarting into the updated image.'' (u\<lparr>up_status := (up_status u)\<lparr>os_ready := True\<rparr>\<rparr>))
          }
      })"

definition monitor_ota_abort :: "u8 list option \<Rightarrow> ota_upload \<Rightarrow> bool \<times> ota_upload" where
  "monitor_ota_abort sid u =
     (if \<not> ota_matches sid u then ota_fail ''The upload session is not active.'' u
      else (True, ota_message ''Upload cancelled; the running image is unchanged.'' (ota_release u)))"

definition monitor_ota_tick :: "u64 \<Rightarrow> ota_upload \<Rightarrow> ota_upload" where
  "monitor_ota_tick now u =
     (if os_active (up_status u) \<and> now - up_activity_ms u > 60000
      then ota_message ''Upload expired after 60 seconds without a chunk.'' (ota_release u) else u)"

text \<open>
  Whether the running image is marked valid after a boot: it is, when its state can be read and is \<open>PENDING_VERIFY\<close>.
\<close>

definition monitor_ota_confirm_boot :: "partition option \<Rightarrow> bool option \<Rightarrow> bool" where
  "monitor_ota_confirm_boot running pending \<longleftrightarrow> running \<noteq> None \<and> pending = Some True"

section \<open>Reachable states\<close>

text \<open>
  All states of a device whose running partition is \<open>boot\<close> and whose digest function is \<open>sha\<close>: any sequence of operations
  with any arguments, where the platform may answer differently each time.
\<close>

definition answers :: "partition \<Rightarrow> (u8 list \<Rightarrow> u8 list) \<Rightarrow> ota_platform \<Rightarrow> bool" where
  "answers boot sha p \<longleftrightarrow> op_running p = Some boot \<and> op_sha256 p = sha"

inductive ota_reach :: "partition \<Rightarrow> (u8 list \<Rightarrow> u8 list) \<Rightarrow> ota_upload \<Rightarrow> bool" for boot sha where
  init: "ota_reach boot sha zero_upload"
| start: "ota_reach boot sha u \<Longrightarrow> answers boot sha p \<Longrightarrow> monitor_ota_start p total_size digest u = Some (r, sid, u') \<Longrightarrow> ota_reach boot sha u'"
| chunk: "ota_reach boot sha u \<Longrightarrow> answers boot sha p \<Longrightarrow> monitor_ota_write p sid offset bytes u = Some (r, u') \<Longrightarrow> ota_reach boot sha u'"
| finish: "ota_reach boot sha u \<Longrightarrow> answers boot sha p \<Longrightarrow> monitor_ota_finish p sid u = Some (r, u') \<Longrightarrow> ota_reach boot sha u'"
| abort: "ota_reach boot sha u \<Longrightarrow> monitor_ota_abort sid u = (r, u') \<Longrightarrow> ota_reach boot sha u'"
| tick: "ota_reach boot sha u \<Longrightarrow> ota_reach boot sha (monitor_ota_tick now u)"

text \<open>The log of one upload that is being written, with the message given to the hash.\<close>

definition upload_log :: "nat \<Rightarrow> u8 list \<Rightarrow> partition \<Rightarrow> u8 list list \<Rightarrow> ota_call list" where
  "upload_log n d part chunks = Ota_Announce n d # Ota_Begin part # map Ota_Write chunks"

definition boots_justified :: "partition \<Rightarrow> (u8 list \<Rightarrow> u8 list) \<Rightarrow> ota_call list \<Rightarrow> bool" where
  "boots_justified boot sha log \<longleftrightarrow> (\<forall>pre part post. log = pre @ Ota_Set_Boot part # post \<longrightarrow>
     (\<exists>a chunks. pre = a @ upload_log (length (concat chunks)) (sha (concat chunks)) part chunks @ [Ota_End] \<and> pa_address part \<noteq> pa_address boot))"

text \<open>A session: inactive and closed, or active with a log that agrees with the hash and the counter.\<close>

definition session_log :: "partition \<Rightarrow> ota_upload \<Rightarrow> bool" where
  "session_log boot u \<longleftrightarrow> (let st = up_status u in if \<not> os_active st then \<not> up_open u
     else os_received st \<le> os_total st \<and> length (up_expected u) = 32 \<and> (\<exists>part fed. up_partition u = Some part
       \<and> pa_address part \<noteq> pa_address boot \<and> up_hash u = Some fed \<and> length fed = os_received st
       \<and> (if up_open u then \<exists>a chunks. up_log u = a @ upload_log (os_total st) (up_expected u) part chunks \<and> concat chunks = fed
          else fed = [] \<and> (\<exists>a. up_log u = a @ [Ota_Announce (os_total st) (up_expected u)]))))"

definition ota_inv :: "partition \<Rightarrow> (u8 list \<Rightarrow> u8 list) \<Rightarrow> ota_upload \<Rightarrow> bool" where
  "ota_inv boot sha u \<longleftrightarrow> boots_justified boot sha (up_log u) \<and> session_log boot u"

lemma boots_snoc:
  "boots_justified boot sha (log @ [c]) \<longleftrightarrow> boots_justified boot sha log \<and> (\<forall>part. c = Ota_Set_Boot part \<longrightarrow>
     (\<exists>a chunks. log = a @ upload_log (length (concat chunks)) (sha (concat chunks)) part chunks @ [Ota_End] \<and> pa_address part \<noteq> pa_address boot))"
  (is "?l \<longleftrightarrow> ?r")
proof
  assume l: ?l
  have "boots_justified boot sha log" unfolding boots_justified_def
  proof (intro allI impI)
    fix pre part post
    assume "log = pre @ Ota_Set_Boot part # post"
    then have "log @ [c] = pre @ Ota_Set_Boot part # (post @ [c])" by simp
    then show "\<exists>a chunks. pre = a @ upload_log (length (concat chunks)) (sha (concat chunks)) part chunks @ [Ota_End] \<and> pa_address part \<noteq> pa_address boot"
      using l unfolding boots_justified_def by blast
  qed
  then show ?r using l unfolding boots_justified_def by blast
next
  assume r: ?r
  show ?l unfolding boots_justified_def
  proof (intro allI impI)
    fix pre part post
    assume e: "log @ [c] = pre @ Ota_Set_Boot part # post"
    then show "\<exists>a chunks. pre = a @ upload_log (length (concat chunks)) (sha (concat chunks)) part chunks @ [Ota_End] \<and> pa_address part \<noteq> pa_address boot"
    proof (cases post rule: rev_cases)
      case Nil
      then show ?thesis using e r by auto
    next
      case (snoc ys y)
      then have "log = pre @ Ota_Set_Boot part # ys" using e by simp
      then show ?thesis using r unfolding boots_justified_def by blast
    qed
  qed
qed

lemma boots_Nil: "boots_justified boot sha []"
  by (simp add: boots_justified_def)

lemma boots_two: "boots_justified boot sha (log @ [c, d]) \<longleftrightarrow> boots_justified boot sha ((log @ [c]) @ [d])"
  by simp

lemma ota_message_fields [simp]:
  "up_log (ota_message w u) = up_log u" "up_open (ota_message w u) = up_open u" "os_active (up_status (ota_message w u)) = os_active (up_status u)"
  "up_hash (ota_message w u) = up_hash u" "session_log boot (ota_message w u) = session_log boot u"
  by (simp_all add: ota_message_def session_log_def Let_def)

lemma ota_inv_message [simp]: "ota_inv boot sha (ota_message w u) = ota_inv boot sha u"
  by (simp add: ota_inv_def)

lemma release_inv: "boots_justified boot sha (up_log u) \<Longrightarrow> ota_inv boot sha (ota_release u)"
  by (auto simp: ota_inv_def ota_release_def session_log_def boots_snoc)

lemma digest_loop_length: "digest_loop s i k out = Some (Some d) \<Longrightarrow> length d = length out"
  by (induction s i k out rule: digest_loop.induct) (auto simp: bind_eq_Some_conv store_def split: if_splits)

lemma length_hex_text: "length (hex_text bs) = 2 * length bs"
  by (induction bs) (auto simp: hex_text_def hex_pair_def Let_def)

lemma start_inv:
  assumes "ota_inv boot sha u" "answers boot sha p" "monitor_ota_start p total_size digest u = Some (r, sid, u')"
  shows "ota_inv boot sha u'"
proof -
  have new: "ota_inv boot sha (ota_new p total_size d u)" if av: "os_available (monitor_ota_snapshot p u)" "length d = 32" for d
  proof -
    obtain n where n: "op_next p = Some n" "pa_address n \<noteq> pa_address boot"
      using av(1) assms(2) by (auto simp: monitor_ota_snapshot_def answers_def Let_def split: option.splits if_splits)
    show ?thesis using assms(1) n av(2) by (simp add: ota_inv_def session_log_def ota_new_def zero_upload_def zero_status_def boots_snoc)
  qed
  have rel: "ota_inv boot sha (ota_release (ota_new p total_size d u))" for d
    using assms(1) by (intro release_inv) (simp add: ota_new_def ota_inv_def boots_snoc)
  show ?thesis using assms(1,3) new rel unfolding monitor_ota_start_def
    by (auto simp: Let_def bind_eq_Some_conv dest!: digest_loop_length split: if_splits option.splits)
qed

lemma open_inv:
  assumes "ota_inv boot sha u" "os_active (up_status u)" "\<not> up_open u"
  shows "ota_open p bs u = Some (Inl (r, u')) \<Longrightarrow> ota_inv boot sha u'"
    "ota_open p bs u = Some (Inr u') \<Longrightarrow> ota_inv boot sha u' \<and> up_open u' \<and> os_active (up_status u')
      \<and> os_received (up_status u') = os_received (up_status u) \<and> os_total (up_status u') = os_total (up_status u)"
proof -
  have b: "boots_justified boot sha (up_log u)" using assms(1) by (simp add: ota_inv_def)
  show "ota_open p bs u = Some (Inl (r, u')) \<Longrightarrow> ota_inv boot sha u'"
    using assms(1) release_inv [OF b] release_inv [of boot sha "u\<lparr>up_status := x\<rparr>" for x] b unfolding ota_open_def
    by (auto simp: Let_def bind_eq_Some_conv ota_fail_def split: if_splits)
  obtain part a where s: "up_partition u = Some part" "pa_address part \<noteq> pa_address boot" "up_hash u = Some []" "os_received (up_status u) = 0"
      "length (up_expected u) = 32" "up_log u = a @ [Ota_Announce (os_total (up_status u)) (up_expected u)]"
    using assms unfolding ota_inv_def session_log_def Let_def by auto
  let ?u = "\<lambda>v. u\<lparr>up_status := (up_status u)\<lparr>os_version := v\<rparr>, up_open := True, up_log := up_log u @ [Ota_Begin part]\<rparr>"
  have "ota_inv boot sha (?u v)" for v
  proof -
    have "session_log boot (?u v)" unfolding session_log_def Let_def using s assms(2)
      by (simp add: upload_log_def) (rule exI [of _ a], rule exI [of _ "[]"], simp)
    then show ?thesis using b by (simp add: ota_inv_def boots_snoc)
  qed
  then show "ota_open p bs u = Some (Inr u') \<Longrightarrow> ota_inv boot sha u' \<and> up_open u' \<and> os_active (up_status u')
      \<and> os_received (up_status u') = os_received (up_status u) \<and> os_total (up_status u') = os_total (up_status u)"
    using s(1) assms(2) unfolding ota_open_def by (auto simp: Let_def bind_eq_Some_conv split: if_splits)
qed

lemma append_inv:
  assumes "ota_inv boot sha u" "os_active (up_status u)" "up_open u" "os_received (up_status u) + length bs \<le> os_total (up_status u)"
  shows "ota_inv boot sha (u\<lparr>up_log := up_log u @ [Ota_Write bs], up_hash := map_option (\<lambda>m. m @ bs) (up_hash u), up_activity_ms := t,
               up_status := (up_status u)\<lparr>os_received := os_received (up_status u) + length bs\<rparr>\<rparr>)" (is "ota_inv _ _ ?u")
    "ota_inv boot sha (ota_release (u\<lparr>up_log := up_log u @ [Ota_Write bs]\<rparr>))"
proof -
  have b: "boots_justified boot sha (up_log u @ [Ota_Write bs])" using assms(1) by (simp add: ota_inv_def boots_snoc)
  then show "ota_inv boot sha (ota_release (u\<lparr>up_log := up_log u @ [Ota_Write bs]\<rparr>))" by (intro release_inv) simp
  obtain part a chunks where s: "up_partition u = Some part" "pa_address part \<noteq> pa_address boot" "up_hash u = Some (concat chunks)"
      "length (concat chunks) = os_received (up_status u)" "length (up_expected u) = 32"
      "up_log u = a @ upload_log (os_total (up_status u)) (up_expected u) part chunks"
    using assms(1-3) unfolding ota_inv_def session_log_def Let_def by auto
  have "up_log ?u = a @ upload_log (os_total (up_status u)) (up_expected u) part (chunks @ [bs])" "concat (chunks @ [bs]) = concat chunks @ bs"
    using s(6) by (simp_all add: upload_log_def)
  then have "\<exists>a' cs. up_log ?u = a' @ upload_log (os_total (up_status u)) (up_expected u) part cs \<and> concat cs = concat chunks @ bs" by blast
  then have "session_log boot ?u" unfolding session_log_def Let_def using s(1-5) assms(2-4) by simp
  then show "ota_inv boot sha ?u" using b by (simp add: ota_inv_def)
qed

lemma write_inv:
  assumes "ota_inv boot sha u" "monitor_ota_write p sid offset bytes u = Some (r, u')"
  shows "ota_inv boot sha u'"
proof (cases "ota_matches sid u \<and> offset = os_received (up_status u) \<and> \<not> bytes_null bytes \<and> bytes_len bytes \<noteq> 0
    \<and> bytes_len bytes \<le> MONITOR_OTA_CHUNK \<and> bytes_len bytes \<le> size_sub (os_total (up_status u)) (os_received (up_status u))")
  case False
  then show ?thesis using assms unfolding monitor_ota_write_def by (auto simp: Let_def ota_fail_def split: if_splits)
next
  case True
  have act: "os_active (up_status u)" using True by (simp add: ota_matches_def)
  then have le: "os_received (up_status u) \<le> os_total (up_status u)" using assms(1) by (simp add: ota_inv_def session_log_def Let_def)
  have len: "length (bytes_list bytes) = bytes_len bytes" using True by (cases bytes) auto
  have fit: "os_received (up_status u) + bytes_len bytes \<le> os_total (up_status u)" using True le by (auto simp: size_sub_def)
  obtain q where q: "(if up_open u then Some (Inr u) else ota_open p (bytes_list bytes) u) = Some q"
      "(case q of Inl out \<Rightarrow> out | Inr u \<Rightarrow> ota_append p (bytes_list bytes) u) = (r, u')"
    using assms(2) True unfolding monitor_ota_write_def Let_def by (cases "if up_open u then Some (Inr u) else ota_open p (bytes_list bytes) u") auto
  show ?thesis
  proof (cases q)
    case (Inl out)
    then show ?thesis using q open_inv(1) [OF assms(1) act, of p "bytes_list bytes"] by (auto split: if_splits)
  next
    case (Inr v)
    have v: "ota_inv boot sha v" "up_open v" "os_active (up_status v)" "os_received (up_status v) + length (bytes_list bytes) \<le> os_total (up_status v)"
      using q(1) Inr assms(1) act fit len open_inv(2) [OF assms(1) act, of p "bytes_list bytes" v] by (auto split: if_splits)
    show ?thesis using q(2) Inr append_inv(1) [OF v(1,3,2,4), of "op_now p"] append_inv(2) [OF v(1,3,2,4)] by (auto simp: ota_append_def Let_def ota_fail_def split: if_splits)
  qed
qed

lemma finish_inv:
  assumes "ota_inv boot sha u" "answers boot sha p" "monitor_ota_finish p sid u = Some (r, u')"
  shows "ota_inv boot sha u'"
proof (cases "ota_matches sid u \<and> up_open u \<and> os_received (up_status u) = os_total (up_status u)")
  case False
  then show ?thesis using assms unfolding monitor_ota_finish_def by (auto simp: Let_def ota_fail_def)
next
  case True
  then have act: "os_active (up_status u)" by (simp add: ota_matches_def)
  have b: "boots_justified boot sha (up_log u)" using assms(1) by (simp add: ota_inv_def)
  obtain part a chunks where s: "up_partition u = Some part" "pa_address part \<noteq> pa_address boot" "up_hash u = Some (concat chunks)"
      "length (concat chunks) = os_received (up_status u)" "length (up_expected u) = 32"
      "up_log u = a @ upload_log (os_total (up_status u)) (up_expected u) part chunks"
    using assms(1) act True unfolding ota_inv_def session_log_def Let_def by auto
  have e: "boots_justified boot sha (up_log u @ [Ota_End])" using b by (simp add: boots_snoc)
  have set: "boots_justified boot sha ((up_log u @ [Ota_End]) @ [Ota_Set_Boot part])" if "sha (concat chunks) = up_expected u"
  proof -
    have "up_log u @ [Ota_End] = a @ upload_log (length (concat chunks)) (sha (concat chunks)) part chunks @ [Ota_End]"
      using s(4,6) that True by simp
    then show ?thesis using e s(2) by (subst boots_snoc) blast
  qed
  have rel: "ota_inv boot sha (ota_release v)" if "up_log v = up_log u \<or> up_log v = up_log u @ [Ota_End]" for v
    using that b e by (intro release_inv) auto
  have rdy: "ota_inv boot sha (v\<lparr>up_status := (up_status v)\<lparr>os_ready := True\<rparr>\<rparr>) = ota_inv boot sha v" for v
    by (simp add: ota_inv_def session_log_def Let_def)
  have fin: "ota_inv boot sha (ota_release v)" if "up_log v = up_log u @ [Ota_End, Ota_Set_Boot part]" "sha (concat chunks) = up_expected u" for v
    using that set by (intro release_inv) simp
  have sha: "op_sha256 p = sha" using assms(2) by (simp add: answers_def)
  consider w v where "u' = ota_message w (ota_release v)" "up_log v = up_log u \<or> up_log v = up_log u @ [Ota_End]"
    | w v where "u' = ota_message w (ota_release v)" "up_log v = up_log u @ [Ota_End, Ota_Set_Boot part]" "sha (concat chunks) = up_expected u"
    | w v where "u' = ota_message w ((ota_release v)\<lparr>up_status := (up_status (ota_release v))\<lparr>os_ready := True\<rparr>\<rparr>)"
      "up_log v = up_log u @ [Ota_End, Ota_Set_Boot part]" "sha (concat chunks) = up_expected u"
    using assms(3) True s(1,3) sha unfolding monitor_ota_finish_def Let_def by (force simp: ota_fail_def split: if_splits)
  then show ?thesis using rel fin by cases (simp_all only: ota_inv_message rdy)
qed

lemma ota_reach_inv: "ota_reach boot sha u \<Longrightarrow> ota_inv boot sha u"
proof (induction rule: ota_reach.induct)
  case init
  then show ?case by (simp add: ota_inv_def session_log_def zero_upload_def zero_status_def boots_Nil)
next
  case (abort u sid r u')
  then show ?case using release_inv [of boot sha u] by (auto simp: monitor_ota_abort_def ota_fail_def ota_inv_def split: if_splits)
next
  case (tick u now)
  then show ?case using release_inv [of boot sha u] by (auto simp: monitor_ota_tick_def ota_inv_def split: if_splits)
qed (auto intro: start_inv write_inv finish_inv)

section \<open>Properties\<close>

text \<open>
  C17. Only verified firmware is booted. In the log of every run of the update functions, a partition is selected for the next boot
  only directly after an upload to that partition was announced with a size and a digest, opened, written in chunks and closed, where
  the chunks together have exactly the announced size and digest; and it is never the partition that is running.
\<close>

theorem ota_boot_verified:
  assumes "ota_reach boot sha u" "up_log u = pre @ Ota_Set_Boot part # post"
  shows "pa_address part \<noteq> pa_address boot \<and> (\<exists>a chunks. pre = a @ [Ota_Announce (length (concat chunks)) (sha (concat chunks)), Ota_Begin part]
    @ map Ota_Write chunks @ [Ota_End])"
  using ota_reach_inv [OF assms(1)] assms(2) unfolding ota_inv_def boots_justified_def upload_log_def by fastforce

definition sample_slot :: "nat \<Rightarrow> partition" where
  "sample_slot n = \<lparr>pa_address = n, pa_size = 100, pa_label = str ''ota''\<rparr>"

definition sample_platform :: ota_platform where
  "sample_platform = \<lparr>op_running = Some (sample_slot 3), op_next = Some (sample_slot 2), op_now = 5, op_random16 = replicate 16 7,
     op_hash_setup = True, op_hash_update = True, op_hash_finish = True, op_sha256 = \<lambda>m. replicate 32 (last m), op_begin = True, op_write = True,
     op_end = True, op_set_boot = True, op_header_size = 1, op_segment_size = 1, op_app_size = 1, op_header_ok = \<lambda>h. h = [1],
     op_app_ok = \<lambda>a. a = [3], op_project = \<lambda>_. [], op_version_text = \<lambda>_. [], op_current_project = []\<rparr>"

definition sample_upload :: "ota_upload option" where
  "sample_upload = do {
     (_, _, u) \<leftarrow> monitor_ota_start sample_platform 5 (Some (concat (replicate 32 (str ''05'')))) zero_upload;
     (_, u) \<leftarrow> monitor_ota_write sample_platform (Some (hex_text (replicate 16 7))) 0 (Bytes [1, 2, 3]) u;
     (_, u) \<leftarrow> monitor_ota_write sample_platform (Some (hex_text (replicate 16 7))) 3 (Bytes [4, 5]) u;
     (r, u) \<leftarrow> monitor_ota_finish sample_platform (Some (hex_text (replicate 16 7))) u;
     (if r then Some u else None)
   }"

lemma sample_upload_log: "map_option up_log sample_upload = Some [Ota_Announce 5 (replicate 32 5), Ota_Begin (sample_slot 2), Ota_Write [1, 2, 3],
    Ota_Write [4, 5], Ota_End, Ota_Set_Boot (sample_slot 2)]"
  by code_simp

theorem ota_boot_verified_witness:
  "\<exists>u a chunks. sample_upload = Some u \<and> up_log u = (a @ [Ota_Announce (length (concat chunks)) (op_sha256 sample_platform (concat chunks)), Ota_Begin (sample_slot 2)]
    @ map Ota_Write chunks @ [Ota_End]) @ [Ota_Set_Boot (sample_slot 2)]"
proof -
  let ?pre = "[Ota_Announce 5 (replicate 32 5), Ota_Begin (sample_slot 2), Ota_Write [1, 2, 3], Ota_Write [4, 5], Ota_End]"
  obtain u where u: "sample_upload = Some u" "up_log u = ?pre @ [Ota_Set_Boot (sample_slot 2)]"
    using sample_upload_log by (cases sample_upload) auto
  have a: "answers (sample_slot 3) (op_sha256 sample_platform) sample_platform" by (simp add: answers_def sample_platform_def)
  obtain r1 i1 u1 r2 u2 r3 u3 r4 where s: "monitor_ota_start sample_platform 5 (Some (concat (replicate 32 (str ''05'')))) zero_upload = Some (r1, i1, u1)"
      "monitor_ota_write sample_platform (Some (hex_text (replicate 16 7))) 0 (Bytes [1, 2, 3]) u1 = Some (r2, u2)"
      "monitor_ota_write sample_platform (Some (hex_text (replicate 16 7))) 3 (Bytes [4, 5]) u2 = Some (r3, u3)"
      "monitor_ota_finish sample_platform (Some (hex_text (replicate 16 7))) u3 = Some (r4, u)"
    using u(1) unfolding sample_upload_def by (auto simp: bind_eq_Some_conv split: if_splits)
  have "ota_reach (sample_slot 3) (op_sha256 sample_platform) u"
    by (rule ota_reach.finish [OF ota_reach.chunk [OF ota_reach.chunk [OF ota_reach.start [OF ota_reach.init a s(1)] a s(2)] a s(3)] a s(4)])
  from ota_boot_verified [OF this u(2)] obtain a chunks where "?pre = a @ [Ota_Announce (length (concat chunks)) (op_sha256 sample_platform (concat chunks)), Ota_Begin (sample_slot 2)]
    @ map Ota_Write chunks @ [Ota_End]" by blast
  then show ?thesis using u by metis
qed

end
