(* ===== verification/Mon_Board.thy ===== *)
theory Mon_Board
  imports CF_Json
begin

text \<open>
  The pins and the light of the system monitor, \<^verbatim>\<open>examples/system_monitor/main/monitor_io.c\<close> and \<^verbatim>\<open>monitor_led.c\<close>. The
  drivers' answers are arguments, the calls that drive a pin are part of the result.
\<close>

section \<open>Pins\<close>

definition MONITOR_GPIO_COUNT :: nat where "MONITOR_GPIO_COUNT = 4"

record monitor_gpio =
  gp_pin :: int
  gp_mode :: int
  gp_level :: int

definition pins_init :: "monitor_gpio list" where
  "pins_init = map (\<lambda>p. \<lparr>gp_pin = p, gp_mode = 0, gp_level = - 1\<rparr>) [4, 5, 6, 7]"

definition monitor_io_snapshot :: "(int \<Rightarrow> int) \<Rightarrow> monitor_gpio list \<Rightarrow> monitor_gpio list" where
  "monitor_io_snapshot read_level pins = map (\<lambda>p. if gp_mode p \<noteq> 0 then p\<lparr>gp_level := read_level (gp_pin p)\<rparr> else p) pins"

datatype gpio_mode = GPIO_MODE_DISABLE | GPIO_MODE_INPUT | GPIO_MODE_INPUT_OUTPUT

datatype gpio_call = Gpio_Set_Level int int | Gpio_Config int gpio_mode

text \<open>The answers of the driver: success of setting a level and of a configuration, and the levels read.\<close>

record gpio_driver =
  gd_set_level :: bool
  gd_config :: bool
  gd_read :: "int \<Rightarrow> int"

fun pin_index :: "int \<Rightarrow> nat \<Rightarrow> monitor_gpio list \<Rightarrow> nat" where
  "pin_index pin i [] = i"
| "pin_index pin i (p # ps) = (if gp_pin p \<noteq> pin then pin_index pin (i + 1) ps else i)"

text \<open>Whether the call succeeds, the calls of the driver, and the table.\<close>

definition monitor_io_set :: "gpio_driver \<Rightarrow> int \<Rightarrow> int \<Rightarrow> int \<Rightarrow> monitor_gpio list \<Rightarrow> bool \<times> gpio_call list \<times> monitor_gpio list" where
  "monitor_io_set d pin mode val pins =
     (if mode < 0 \<or> mode > 2 \<or> (val \<noteq> 0 \<and> val \<noteq> 1) then (False, [], pins)
      else let i = pin_index pin 0 pins in
      if i = length pins then (False, [], pins)
      else let level = (if mode = 2 then [Gpio_Set_Level pin val] else []) in
      if mode = 2 \<and> \<not> gd_set_level d then (False, level, pins)
      else let calls = level @ [Gpio_Config pin (if mode = 2 then GPIO_MODE_INPUT_OUTPUT else if mode = 1 then GPIO_MODE_INPUT else GPIO_MODE_DISABLE)] in
      if \<not> gd_config d then (False, calls, pins)
      else (True, calls, pins[i := (pins ! i)\<lparr>gp_mode := mode, gp_level := (if mode \<noteq> 0 then gd_read d pin else - 1)\<rparr>]))"

text \<open>Whether there is a sensor after the start: it could be installed and enabled. No pin is touched.\<close>

definition monitor_io_init :: "bool \<Rightarrow> bool \<Rightarrow> bool" where
  "monitor_io_init installed enabled = (if \<not> installed then False else if \<not> enabled then False else True)"

text \<open>The temperature, when there is a sensor and it answers.\<close>

definition monitor_temperature :: "cj_double option option \<Rightarrow> cj_double \<times> bool" where
  "monitor_temperature sensor = (case sensor of Some (Some v) \<Rightarrow> (v, True) | _ \<Rightarrow> (Finite 0 0, False))"

section \<open>Light\<close>

record monitor_rgb =
  rgb_available :: bool
  rgb_on :: bool
  rgb_red :: nat
  rgb_green :: nat
  rgb_blue :: nat
  rgb_brightness :: nat

definition led_start :: monitor_rgb where
  "led_start = \<lparr>rgb_available = False, rgb_on = False, rgb_red = 0, rgb_green = 128, rgb_blue = 255, rgb_brightness = 20\<rparr>"

text \<open>\<open>made\<close> and \<open>cleared\<close>: the driver is created and cleared. The handle exists afterwards exactly if both succeed.\<close>

definition monitor_led_init :: "bool \<Rightarrow> bool \<Rightarrow> monitor_rgb \<Rightarrow> bool \<times> monitor_rgb" where
  "monitor_led_init made cleared st = (if made \<and> cleared then (True, st\<lparr>rgb_available := True\<rparr>) else (False, st))"

text \<open>Success, the pixel that is set, if one is, and the state. \<open>pixel\<close> and \<open>refresh\<close> are the driver's answers.\<close>

definition monitor_led_set :: "bool \<Rightarrow> bool \<Rightarrow> bool \<Rightarrow> bool \<Rightarrow> nat \<Rightarrow> nat \<Rightarrow> nat \<Rightarrow> nat \<Rightarrow> monitor_rgb
    \<Rightarrow> bool \<times> (nat \<times> nat \<times> nat) option \<times> monitor_rgb" where
  "monitor_led_set led pixel refresh on red green blue brightness st =
     (if \<not> led then (False, None, st)
      else if red > 255 \<or> green > 255 \<or> blue > 255 \<or> brightness > 100 then (False, None, st)
      else
        let px = (if on then red * brightness div 100 else 0, if on then green * brightness div 100 else 0, if on then blue * brightness div 100 else 0) in
        if pixel \<and> refresh
        then (True, Some px, \<lparr>rgb_available = True, rgb_on = on, rgb_red = red, rgb_green = green, rgb_blue = blue, rgb_brightness = brightness\<rparr>)
        else (False, Some px, st))"

section \<open>Invariants\<close>

definition pins_ok :: "monitor_gpio list \<Rightarrow> bool" where
  "pins_ok pins \<longleftrightarrow> map gp_pin pins = [4, 5, 6, 7] \<and> list_all (\<lambda>p. 0 \<le> gp_mode p \<and> gp_mode p \<le> 2) pins"

fun call_pin :: "gpio_call \<Rightarrow> int" where
  "call_pin (Gpio_Set_Level p v) = p"
| "call_pin (Gpio_Config p m) = p"

lemma pin_index_found: "pin_index pin i ps \<noteq> i + length ps \<Longrightarrow> pin \<in> gp_pin ` set ps \<and> i \<le> pin_index pin i ps \<and> pin_index pin i ps < i + length ps
    \<and> gp_pin (ps ! (pin_index pin i ps - i)) = pin"
proof (induction ps arbitrary: i)
  case (Cons p ps)
  show ?case
  proof (cases "gp_pin p = pin")
    case False
    let ?j = "pin_index pin (Suc i) ps"
    have "pin \<in> gp_pin ` set ps" "Suc i \<le> ?j" "?j < Suc i + length ps" "gp_pin (ps ! (?j - Suc i)) = pin"
      using Cons.IH [of "Suc i"] Cons.prems False by auto
    moreover from this(2) have "?j - i = Suc (?j - Suc i)" by linarith
    ultimately show ?thesis using False by simp
  qed simp
qed simp

lemma pins_init_ok: "pins_ok pins_init"
  by (simp add: pins_ok_def pins_init_def)

lemma io_set_safe:
  assumes "pins_ok pins" "monitor_io_set d pin mode val pins = (good, calls, pins')"
  shows "call_pin ` set calls \<subseteq> {4, 5, 6, 7} \<and> (\<forall>p v. Gpio_Set_Level p v \<in> set calls \<longrightarrow> v = 0 \<or> v = 1) \<and> pins_ok pins' \<and> (\<not> good \<longrightarrow> pins' = pins)
    \<and> call_pin ` set calls \<subseteq> {pin} \<and> (\<forall>p v. Gpio_Set_Level p v \<in> set calls \<longrightarrow> mode = 2 \<and> v = val)
    \<and> (pin \<notin> {4, 5, 6, 7} \<or> mode \<notin> {0, 1, 2} \<or> val \<notin> {0, 1} \<longrightarrow> \<not> good \<and> calls = [])
    \<and> (good \<longrightarrow> (\<exists>i < length pins. gp_pin (pins ! i) = pin
         \<and> pins' = pins[i := (pins ! i)\<lparr>gp_mode := mode, gp_level := (if mode \<noteq> 0 then gd_read d pin else - 1)\<rparr>]))"
proof (cases "mode < 0 \<or> mode > 2 \<or> (val \<noteq> 0 \<and> val \<noteq> 1) \<or> pin_index pin 0 pins = length pins")
  case True
  then show ?thesis using assms by (auto simp: monitor_io_set_def Let_def split: if_splits)
next
  case False
  let ?i = "pin_index pin 0 pins"
  have f: "pin \<in> gp_pin ` set pins" "?i < length pins" "gp_pin (pins ! ?i) = pin" using pin_index_found [of pin 0 pins] False by auto
  then have p: "pin \<in> {4, 5, 6, 7}" using assms(1) by (metis image_set list.simps(15) empty_set pins_ok_def)
  have k: "pins_ok (pins[?i := (pins ! ?i)\<lparr>gp_mode := mode, gp_level := l\<rparr>])" for l
  proof -
    have "map gp_pin (pins[?i := (pins ! ?i)\<lparr>gp_mode := mode, gp_level := l\<rparr>]) = map gp_pin pins"
      using f(2) by (intro nth_equalityI) (auto simp: nth_list_update)
    then show ?thesis using assms(1) False by (auto simp: pins_ok_def list_all_iff dest!: set_update_subset_insert [THEN subsetD])
  qed
  have m: "mode \<in> {0, 1, 2}" "val \<in> {0, 1}" using False by auto
  consider "mode = 0" | "mode = 1" | "mode = 2" using m(1) by blast
  then have good: "(good \<longrightarrow> pins' = pins[?i := (pins ! ?i)\<lparr>gp_mode := mode, gp_level := (if mode \<noteq> 0 then gd_read d pin else - 1)\<rparr>]) \<and> (\<not> good \<longrightarrow> pins' = pins)"
    using assms(2) False by cases (auto simp: monitor_io_set_def Let_def split: if_splits)
  have k': "pins_ok pins'" using good k assms(1) by (cases good) auto
  have c: "call_pin ` set calls \<subseteq> {pin}" "\<forall>p v. Gpio_Set_Level p v \<in> set calls \<longrightarrow> mode = 2 \<and> v = val"
    using assms(2) False by (auto simp: monitor_io_set_def Let_def split: if_splits)
  show ?thesis
  proof (intro conjI k' c)
    show "call_pin ` set calls \<subseteq> {4, 5, 6, 7}" using c(1) p by blast
    show "\<forall>p v. Gpio_Set_Level p v \<in> set calls \<longrightarrow> v = 0 \<or> v = 1" using c(2) m(2) by auto
    show "\<not> good \<longrightarrow> pins' = pins" using good by blast
    show "pin \<notin> {4, 5, 6, 7} \<or> mode \<notin> {0, 1, 2} \<or> val \<notin> {0, 1} \<longrightarrow> \<not> good \<and> calls = []" using p m by simp
    show "good \<longrightarrow> (\<exists>i < length pins. gp_pin (pins ! i) = pin
         \<and> pins' = pins[i := (pins ! i)\<lparr>gp_mode := mode, gp_level := (if mode \<noteq> 0 then gd_read d pin else - 1)\<rparr>])" using good f(2,3) by blast
  qed
qed

lemma io_set_pins: "pins_ok pins \<Longrightarrow> monitor_io_set d pin mode val pins = (good, calls, pins') \<Longrightarrow> pins_ok pins'"
  using io_set_safe by blast

section \<open>Properties\<close>

text \<open>
  C21. Pins. Whatever pin, mode and level are asked for and however the driver answers, only the pin asked for is touched and
  only the pins 4, 5, 6 and 7 ever are; a level is set only for an output and only to the 0 or 1 asked for; a request for any
  other pin, mode or level is refused before the driver is called. A request that is refused, also one that the driver
  refuses after the level was set, leaves the table as it was; one that succeeds changes exactly the entry of its pin.
\<close>

theorem gpio_only_listed:
  assumes "pins_ok pins" "monitor_io_set d pin mode val pins = (good, calls, pins')"
  shows "call_pin ` set calls \<subseteq> {4, 5, 6, 7} \<and> (\<forall>p v. Gpio_Set_Level p v \<in> set calls \<longrightarrow> v = 0 \<or> v = 1) \<and> pins_ok pins' \<and> (\<not> good \<longrightarrow> pins' = pins)
    \<and> call_pin ` set calls \<subseteq> {pin} \<and> (\<forall>p v. Gpio_Set_Level p v \<in> set calls \<longrightarrow> mode = 2 \<and> v = val)
    \<and> (pin \<notin> {4, 5, 6, 7} \<or> mode \<notin> {0, 1, 2} \<or> val \<notin> {0, 1} \<longrightarrow> \<not> good \<and> calls = [])
    \<and> (good \<longrightarrow> (\<exists>i < length pins. gp_pin (pins ! i) = pin
         \<and> pins' = pins[i := (pins ! i)\<lparr>gp_mode := mode, gp_level := (if mode \<noteq> 0 then gd_read d pin else - 1)\<rparr>]))"
  using io_set_safe [OF assms] .

theorem gpio_only_listed_witness:
  "monitor_io_set \<lparr>gd_set_level = True, gd_config = True, gd_read = \<lambda>_. 1\<rparr> 5 2 1 pins_init
     = (True, [Gpio_Set_Level 5 1, Gpio_Config 5 GPIO_MODE_INPUT_OUTPUT], pins_init[1 := \<lparr>gp_pin = 5, gp_mode = 2, gp_level = 1\<rparr>])
   \<and> pins_ok (pins_init[1 := \<lparr>gp_pin = 5, gp_mode = 2, gp_level = 1\<rparr>])"
proof -
  let ?d = "\<lparr>gd_set_level = True, gd_config = True, gd_read = \<lambda>_. 1\<rparr> :: gpio_driver"
  have "monitor_io_set ?d 5 2 1 pins_init
     = (True, [Gpio_Set_Level 5 1, Gpio_Config 5 GPIO_MODE_INPUT_OUTPUT], pins_init[1 := \<lparr>gp_pin = 5, gp_mode = 2, gp_level = 1\<rparr>])"
    by (simp add: monitor_io_set_def pins_init_def Let_def)
  then show ?thesis using gpio_only_listed [OF pins_init_ok, of ?d 5 2 1] by blast
qed

text \<open>The pixel of the light never exceeds a byte per colour.\<close>

lemma led_pixel_bounded:
  "monitor_led_set led px rf on r g b br st = (good, Some (x, y, z), st') \<Longrightarrow> x \<le> 255 \<and> y \<le> 255 \<and> z \<le> 255"
proof -
  have m: "a * c div 100 \<le> 255" if "a \<le> 255" "c \<le> 100" for a c :: nat
    using mult_le_mono [OF that] by linarith
  assume "monitor_led_set led px rf on r g b br st = (good, Some (x, y, z), st')"
  then show ?thesis using m by (auto simp: monitor_led_set_def Let_def split: if_splits)
qed

end
