(* ===== verification/Mon_Store.thy ===== *)
theory Mon_Store
  imports CF_Credentials CF_Dns
begin

text \<open>
  The settings store of the system monitor, \<^verbatim>\<open>examples/system_monitor/main/monitor_store.c\<close>, over the non-volatile storage
  of ESP-IDF, whose functions are arguments.
\<close>

section \<open>Data\<close>

datatype store_err = STORE_OK | STORE_TIMEOUT | STORE_INVALID_SIZE | STORE_INVALID_ARG | STORE_NO_MEM | STORE_NVS int

text \<open>The functions of the storage on its state: 0 is success.\<close>

record 'w nvs_ops =
  ns_take :: "'w \<Rightarrow> bool"
  ns_open :: "bool \<Rightarrow> 'w \<Rightarrow> int"
  ns_set :: "string \<Rightarrow> u8 list \<Rightarrow> 'w \<Rightarrow> int \<times> 'w"
  ns_commit :: "'w \<Rightarrow> int \<times> 'w"
  ns_get :: "string \<Rightarrow> nat \<Rightarrow> 'w \<Rightarrow> int \<times> u8 list \<times> nat"
  ns_get_str :: "string \<Rightarrow> nat \<Rightarrow> 'w \<Rightarrow> int \<times> u8 list"

definition nvs_code :: "int \<Rightarrow> store_err" where
  "nvs_code n = (if n = 0 then STORE_OK else STORE_NVS n)"

record monitor_wifi_config =
  wc_ssid :: mem
  wc_password :: mem
  wc_open :: u8

record monitor_tunnel_config =
  mc_token :: mem
  mc_hostname :: mem

text \<open>The objects as bytes; neither has padding.\<close>

definition wifi_bytes :: "monitor_wifi_config \<Rightarrow> u8 list" where
  "wifi_bytes c = wc_ssid c @ wc_password c @ [wc_open c]"

definition wifi_object :: "u8 list \<Rightarrow> monitor_wifi_config" where
  "wifi_object bs = \<lparr>wc_ssid = take 33 bs, wc_password = take 64 (drop 33 bs), wc_open = bs ! 97\<rparr>"

definition tunnel_bytes :: "monitor_tunnel_config \<Rightarrow> u8 list" where
  "tunnel_bytes c = mc_token c @ mc_hostname c"

definition tunnel_object :: "u8 list \<Rightarrow> monitor_tunnel_config" where
  "tunnel_object bs = \<lparr>mc_token = take (CF_TOKEN_MAX + 1) bs, mc_hostname = drop (CF_TOKEN_MAX + 1) bs\<rparr>"

definition WIFI_SIZE :: nat where "WIFI_SIZE = 98"
definition TUNNEL_SIZE :: nat where "TUNNEL_SIZE = CF_TOKEN_MAX + 1 + 254"

section \<open>Operations\<close>

text \<open>\<open>lock\<close>, \<open>flash\<close> and \<open>part\<close>: the answers of the creation of the lock and of the two initialisations.\<close>

definition monitor_store_init :: "bool \<Rightarrow> int \<Rightarrow> int \<Rightarrow> store_err" where
  "monitor_store_init lock flash part = (if \<not> lock then STORE_NO_MEM else if flash \<noteq> 0 then STORE_NVS flash else nvs_code part)"

text \<open>\<open>blob\<close> with \<open>write\<close> set and not set; \<open>out\<close> is the object's memory, which a read may change also when it fails.\<close>

definition blob_write :: "'w nvs_ops \<Rightarrow> string \<Rightarrow> u8 list \<Rightarrow> 'w \<Rightarrow> store_err \<times> 'w" where
  "blob_write ops key val w =
     (if \<not> ns_take ops w then (STORE_TIMEOUT, w)
      else if ns_open ops True w \<noteq> 0 then (STORE_NVS (ns_open ops True w), w)
      else let (rc, w) = ns_set ops key val w in
      if rc \<noteq> 0 then (STORE_NVS rc, w)
      else let (rc, w) = ns_commit ops w in (nvs_code rc, w))"

definition blob_read :: "'w nvs_ops \<Rightarrow> string \<Rightarrow> mem \<Rightarrow> 'w \<Rightarrow> (store_err \<times> mem) option" where
  "blob_read ops key out w =
     (if \<not> ns_take ops w then Some (STORE_TIMEOUT, out)
      else if ns_open ops False w \<noteq> 0 then Some (STORE_NVS (ns_open ops False w), out)
      else do {
        let (rc, got, actual) = ns_get ops key (length out) w;
        out' \<leftarrow> store_n out 0 got;
        Some (if rc \<noteq> 0 then STORE_NVS rc else if actual \<noteq> length out then STORE_INVALID_SIZE else STORE_OK, out')
      })"

definition monitor_store_password :: "'w nvs_ops \<Rightarrow> mem option \<Rightarrow> nat \<Rightarrow> 'w \<Rightarrow> (store_err \<times> mem option) option" where
  "monitor_store_password ops outp cap w = (case outp of None \<Rightarrow> Some (STORE_INVALID_ARG, None) | Some out \<Rightarrow>
     if cap < 17 then Some (STORE_INVALID_ARG, outp)
     else do {
       out \<leftarrow> store_n out 0 (replicate cap 0);
       if \<not> ns_take ops w then Some (STORE_TIMEOUT, Some out)
       else if ns_open ops False w \<noteq> 0 then Some (STORE_NVS (ns_open ops False w), Some out)
       else do {
         let (rc, got) = ns_get_str ops ''setup_pass'' cap w;
         out \<leftarrow> store_n out 0 got;
         if rc \<noteq> 0 then Some (STORE_NVS rc, Some out)
         else do { s \<leftarrow> cstring out; Some (if length s < 12 then STORE_INVALID_SIZE else STORE_OK, Some out) }
       }
     })"

definition zero_wifi :: monitor_wifi_config where
  "zero_wifi = \<lparr>wc_ssid = replicate 33 0, wc_password = replicate 64 0, wc_open = 0\<rparr>"

definition zero_tunnel :: monitor_tunnel_config where
  "zero_tunnel = \<lparr>mc_token = replicate (CF_TOKEN_MAX + 1) 0, mc_hostname = replicate 254 0\<rparr>"

definition monitor_store_wifi :: "'w nvs_ops \<Rightarrow> 'w \<Rightarrow> (store_err \<times> monitor_wifi_config) option" where
  "monitor_store_wifi ops w = do {
     (rc, bs) \<leftarrow> blob_read ops ''wifi_v1'' (replicate WIFI_SIZE 0) w;
     let c = wifi_object bs;
     Some (if rc \<noteq> STORE_OK then (rc, zero_wifi)
       else if 0 \<notin> set (wc_ssid c) \<or> 0 \<notin> set (wc_password c) \<or> wc_open c > 1 then (STORE_INVALID_ARG, zero_wifi)
       else (STORE_OK, c))
   }"

definition monitor_save_wifi :: "'w nvs_ops \<Rightarrow> monitor_wifi_config \<Rightarrow> 'w \<Rightarrow> store_err \<times> 'w" where
  "monitor_save_wifi ops c w = blob_write ops ''wifi_v1'' (wifi_bytes c) w"

definition monitor_store_tunnel :: "'w nvs_ops \<Rightarrow> 'w \<Rightarrow> (store_err \<times> monitor_tunnel_config) option" where
  "monitor_store_tunnel ops w = do {
     (rc, bs) \<leftarrow> blob_read ops ''tunnel_v1'' (replicate TUNNEL_SIZE 0) w;
     let c = tunnel_object bs;
     Some (if rc \<noteq> STORE_OK then (rc, zero_tunnel)
       else if 0 \<notin> set (mc_token c) \<or> 0 \<notin> set (mc_hostname c) then (STORE_INVALID_ARG, zero_tunnel)
       else (STORE_OK, c))
   }"

definition monitor_save_tunnel :: "'w nvs_ops \<Rightarrow> monitor_tunnel_config \<Rightarrow> 'w \<Rightarrow> store_err \<times> 'w" where
  "monitor_save_tunnel ops c w = blob_write ops ''tunnel_v1'' (tunnel_bytes c) w"

text \<open>
  \<open>room\<close> tells whether \<open>calloc\<close> succeeds. The JSON module's allocator state is threaded through.
\<close>

definition monitor_credential_provider :: "'w nvs_ops \<Rightarrow> cjson_parser \<Rightarrow> bool \<Rightarrow> cf_credentials option \<Rightarrow> json_heap \<Rightarrow> 'w
    \<Rightarrow> (cf_result \<times> cf_credentials option \<times> json_heap) option" where
  "monitor_credential_provider ops parser room out heap w =
     (if out = None then Some (CF_ERR_ARGUMENT, None, heap)
      else if \<not> room then Some (CF_ERR_MEMORY, Some zero_credentials, heap)
      else do {
        (rc, c) \<leftarrow> monitor_store_tunnel ops w;
        token \<leftarrow> (if rc = STORE_OK then cstring (mc_token c) else Some []);
        if rc \<noteq> STORE_OK \<or> token = [] then Some (CF_ERR_STATE, Some zero_credentials, heap)
        else do {
          (rc, _, cred, _, heap) \<leftarrow> cf_credentials_parse parser (Bytes token) (Some (replicate (CF_TOKEN_JSON_MAX + 1) 0)) (CF_TOKEN_JSON_MAX + 1)
            (Some zero_credentials) heap;
          Some (rc, cred, heap)
        }
      })"

section \<open>Laws of the storage\<close>

text \<open>A read never gives more than it is asked for, and a text it gives is terminated.\<close>

definition nvs_fits :: "'w nvs_ops \<Rightarrow> bool" where
  "nvs_fits ops \<longleftrightarrow> (\<forall>key n w. length (fst (snd (ns_get ops key n w))) \<le> n)
     \<and> (\<forall>key n w. length (snd (ns_get_str ops key n w)) \<le> n \<and> (fst (ns_get_str ops key n w) = 0 \<longrightarrow> 0 \<in> set (snd (ns_get_str ops key n w))))"

text \<open>What was set and committed is read back.\<close>

definition nvs_keeps :: "'w nvs_ops \<Rightarrow> bool" where
  "nvs_keeps ops \<longleftrightarrow> (\<forall>key val w w1 w2. ns_set ops key val w = (0, w1) \<longrightarrow> ns_commit ops w1 = (0, w2)
     \<longrightarrow> ns_get ops key (length val) w2 = (0, val, length val))"

definition wifi_ok :: "monitor_wifi_config \<Rightarrow> bool" where
  "wifi_ok c \<longleftrightarrow> length (wc_ssid c) = 33 \<and> 0 \<in> set (wc_ssid c) \<and> length (wc_password c) = 64 \<and> 0 \<in> set (wc_password c) \<and> wc_open c \<le> 1"

definition tunnel_ok :: "monitor_tunnel_config \<Rightarrow> bool" where
  "tunnel_ok c \<longleftrightarrow> length (mc_token c) = CF_TOKEN_MAX + 1 \<and> 0 \<in> set (mc_token c) \<and> length (mc_hostname c) = 254 \<and> 0 \<in> set (mc_hostname c)"

lemma zero_ok: "wifi_ok zero_wifi" "tunnel_ok zero_tunnel"
  by (simp_all add: wifi_ok_def zero_wifi_def tunnel_ok_def zero_tunnel_def del: replicate.simps)

lemma objects:
  "wifi_ok c \<Longrightarrow> length (wifi_bytes c) = WIFI_SIZE \<and> wifi_object (wifi_bytes c) = c"
  "tunnel_ok d \<Longrightarrow> length (tunnel_bytes d) = TUNNEL_SIZE \<and> tunnel_object (tunnel_bytes d) = d"
  by (auto simp: wifi_ok_def wifi_bytes_def wifi_object_def WIFI_SIZE_def nth_append tunnel_ok_def tunnel_bytes_def tunnel_object_def TUNNEL_SIZE_def)

lemma blob_read_total:
  assumes "nvs_fits ops" shows "\<exists>rc bs. blob_read ops key out w = Some (rc, bs) \<and> length bs = length out"
proof -
  obtain rc got n where g: "ns_get ops key (length out) w = (rc, got, n)" using prod_cases3 by blast
  have "length got \<le> length out" using assms g unfolding nvs_fits_def by (metis fst_conv snd_conv)
  then show ?thesis using g by (auto simp: blob_read_def store_n_Some Let_def)
qed

lemma store_total:
  assumes "nvs_fits ops"
  shows "\<exists>rc c. monitor_store_wifi ops w = Some (rc, c) \<and> wifi_ok c \<and> (rc \<noteq> STORE_OK \<longrightarrow> c = zero_wifi)"
    "\<exists>rc d. monitor_store_tunnel ops w = Some (rc, d) \<and> tunnel_ok d \<and> (rc \<noteq> STORE_OK \<longrightarrow> d = zero_tunnel)"
proof -
  obtain rc bs where b: "blob_read ops ''wifi_v1'' (replicate WIFI_SIZE 0) w = Some (rc, bs)" "length bs = WIFI_SIZE"
    using blob_read_total [OF assms, of "''wifi_v1''" "replicate WIFI_SIZE 0" w] by auto
  show "\<exists>rc c. monitor_store_wifi ops w = Some (rc, c) \<and> wifi_ok c \<and> (rc \<noteq> STORE_OK \<longrightarrow> c = zero_wifi)"
    using b zero_ok by (auto simp: monitor_store_wifi_def Let_def wifi_ok_def wifi_object_def WIFI_SIZE_def not_less)
  obtain rc bs where b: "blob_read ops ''tunnel_v1'' (replicate TUNNEL_SIZE 0) w = Some (rc, bs)" "length bs = TUNNEL_SIZE"
    using blob_read_total [OF assms, of "''tunnel_v1''" "replicate TUNNEL_SIZE 0" w] by auto
  show "\<exists>rc d. monitor_store_tunnel ops w = Some (rc, d) \<and> tunnel_ok d \<and> (rc \<noteq> STORE_OK \<longrightarrow> d = zero_tunnel)"
    using b zero_ok by (auto simp: monitor_store_tunnel_def Let_def tunnel_ok_def tunnel_object_def TUNNEL_SIZE_def)
qed

lemma blob_write_read:
  assumes "nvs_keeps ops" "blob_write ops key val w = (STORE_OK, w')" "ns_take ops w'" "ns_open ops False w' = 0"
  shows "blob_read ops key (replicate (length val) 0) w' = Some (STORE_OK, val)"
proof -
  obtain w1 where s: "ns_set ops key val w = (0, w1)" "ns_commit ops w1 = (0, w')"
    using assms(2) by (auto simp: blob_write_def nvs_code_def Let_def case_prod_unfold prod_eq_iff split: if_splits)
  have "ns_get ops key (length val) w' = (0, val, length val)" using assms(1) s unfolding nvs_keeps_def by blast
  then show ?thesis using assms(3,4) by (simp add: blob_read_def store_n_Some splice_def)
qed

section \<open>Properties\<close>

text \<open>
  C20. Settings survive. Whatever valid Wi-Fi or tunnel settings are saved with success are what is loaded afterwards, byte by byte,
  as long as the storage can be opened; the encodings of the two objects are never confused or cut.
\<close>

theorem settings_roundtrip:
  assumes "nvs_keeps ops" "ns_take ops w'" "ns_open ops False w' = 0"
  shows "(wifi_ok c \<and> monitor_save_wifi ops c w = (STORE_OK, w') \<longrightarrow> monitor_store_wifi ops w' = Some (STORE_OK, c))
    \<and> (tunnel_ok d \<and> monitor_save_tunnel ops d w = (STORE_OK, w') \<longrightarrow> monitor_store_tunnel ops w' = Some (STORE_OK, d))"
proof (intro conjI impI; elim conjE)
  assume c: "wifi_ok c" and s: "monitor_save_wifi ops c w = (STORE_OK, w')"
  have "blob_read ops ''wifi_v1'' (replicate WIFI_SIZE 0) w' = Some (STORE_OK, wifi_bytes c)"
    using blob_write_read [OF assms(1) s [unfolded monitor_save_wifi_def] assms(2,3)] objects(1) [OF c] by simp
  then show "monitor_store_wifi ops w' = Some (STORE_OK, c)" using objects(1) [OF c] c by (simp add: monitor_store_wifi_def wifi_ok_def not_less)
next
  assume d: "tunnel_ok d" and s: "monitor_save_tunnel ops d w = (STORE_OK, w')"
  have "blob_read ops ''tunnel_v1'' (replicate TUNNEL_SIZE 0) w' = Some (STORE_OK, tunnel_bytes d)"
    using blob_write_read [OF assms(1) s [unfolded monitor_save_tunnel_def] assms(2,3)] objects(2) [OF d] by simp
  then show "monitor_store_tunnel ops w' = Some (STORE_OK, d)" using objects(2) [OF d] d by (simp add: monitor_store_tunnel_def tunnel_ok_def)
qed

text \<open>A storage in memory.\<close>

definition sample_nvs :: "(string \<times> u8 list) list nvs_ops" where
  "sample_nvs = \<lparr>ns_take = \<lambda>_. True, ns_open = \<lambda>_ _. 0, ns_set = \<lambda>key val w. (0, (key, val) # w), ns_commit = \<lambda>w. (0, w),
     ns_get = \<lambda>key n w. (case map_of w key of Some v \<Rightarrow> if length v \<le> n then (0, v, length v) else (4364, [], length v) | None \<Rightarrow> (4354, [], 0)),
     ns_get_str = \<lambda>key n w. (case map_of w key of Some v \<Rightarrow> if length v < n then (0, v @ [0]) else (4364, []) | None \<Rightarrow> (4354, []))\<rparr>"

lemma sample_nvs_laws: "nvs_keeps sample_nvs" "nvs_fits sample_nvs"
  by (auto simp: nvs_keeps_def nvs_fits_def sample_nvs_def split: option.split)

theorem settings_roundtrip_witness:
  "\<exists>w'. monitor_save_wifi sample_nvs zero_wifi [] = (STORE_OK, w') \<and> monitor_store_wifi sample_nvs w' = Some (STORE_OK, zero_wifi)"
proof -
  let ?w = "[(''wifi_v1'', wifi_bytes zero_wifi)]"
  have s: "monitor_save_wifi sample_nvs zero_wifi [] = (STORE_OK, ?w)"
    by (simp add: monitor_save_wifi_def blob_write_def sample_nvs_def nvs_code_def)
  have "ns_take sample_nvs ?w" "ns_open sample_nvs False ?w = 0" by (simp_all add: sample_nvs_def)
  from settings_roundtrip [OF sample_nvs_laws(1) this, of zero_wifi "[]" zero_tunnel] s zero_ok(1) show ?thesis by blast
qed

end
