(* ===== verification/Mon_Network.thy ===== *)
theory Mon_Network
  imports Mon_Store
begin

text \<open>
  The network task of the system monitor, \<^verbatim>\<open>examples/system_monitor/main/monitor_network.c\<close>: the events of the Wi-Fi driver,
  the requests of the other tasks and the periodic tick on one shared state. What the driver answers is an argument; the
  calls that change its mode or connection are kept in a log.
\<close>

section \<open>Data\<close>

definition MONITOR_SETUP_MS :: u64 where "MONITOR_SETUP_MS = 600 * 1000"

record monitor_network_snapshot =
  nt_connected :: bool
  nt_connecting :: bool
  nt_associated :: bool
  nt_ap_enabled :: bool
  nt_scanning :: bool
  nt_scan_ready :: bool
  nt_retries :: u32
  nt_disconnect_reason :: nat
  nt_ap_clients :: nat
  nt_ap_deadline_ms :: u64
  nt_sntp_sync_count :: u32
  nt_sntp_last_sync_utc :: int
  nt_ip :: "u8 list"
  nt_gateway :: "u8 list"
  nt_ssid :: mem
  nt_ap_ssid :: "u8 list"
  nt_rssi :: int
  nt_channel :: nat

record monitor_ap =
  ap_ssid :: mem
  ap_rssi :: int
  ap_secure :: bool
  ap_channel :: nat

datatype wifi_call = Wifi_Station mem mem bool | Wifi_Setup_Ap mem nat mem | Wifi_Disconnect | Wifi_Connect | Wifi_Mode_ApSta | Wifi_Mode_Sta | Wifi_Scan_Start | Sntp_Start

text \<open>The static variables of the file.\<close>

record network =
  nw_state :: monitor_network_snapshot
  nw_scan_list :: "monitor_ap list"
  nw_scan_count :: nat
  nw_reload_requested :: bool
  nw_scan_requested :: bool
  nw_scan_finished :: bool
  nw_clock_requested :: bool
  nw_has_credentials :: bool
  nw_next_retry :: u64
  nw_button_since :: u64
  nw_connection_deadline :: u64
  nw_button_handled :: bool
  nw_calls :: "wifi_call list"

definition zero_ap :: monitor_ap where
  "zero_ap = \<lparr>ap_ssid = replicate 33 0, ap_rssi = 0, ap_secure = False, ap_channel = 0\<rparr>"

definition zero_network :: network where
  "zero_network = \<lparr>nw_state = \<lparr>nt_connected = False, nt_connecting = False, nt_associated = False, nt_ap_enabled = False, nt_scanning = False,
       nt_scan_ready = False, nt_retries = 0, nt_disconnect_reason = 0, nt_ap_clients = 0, nt_ap_deadline_ms = 0, nt_sntp_sync_count = 0,
       nt_sntp_last_sync_utc = 0, nt_ip = [], nt_gateway = [], nt_ssid = replicate 33 0, nt_ap_ssid = [], nt_rssi = 0, nt_channel = 0\<rparr>,
     nw_scan_list = replicate 12 zero_ap, nw_scan_count = 0, nw_reload_requested = False, nw_scan_requested = False, nw_scan_finished = False,
     nw_clock_requested = False, nw_has_credentials = False, nw_next_retry = 0, nw_button_since = 0, nw_connection_deadline = 0,
     nw_button_handled = False, nw_calls = []\<rparr>"

definition upd :: "(monitor_network_snapshot \<Rightarrow> monitor_network_snapshot) \<Rightarrow> network \<Rightarrow> network" where
  "upd f n = n\<lparr>nw_state := f (nw_state n)\<rparr>"

definition called :: "wifi_call \<Rightarrow> network \<Rightarrow> network" where
  "called c n = n\<lparr>nw_calls := nw_calls n @ [c]\<rparr>"

section \<open>Events\<close>

definition clock_synced :: "int \<Rightarrow> network \<Rightarrow> network" where
  "clock_synced utc = upd (\<lambda>s. s\<lparr>nt_sntp_sync_count := nt_sntp_sync_count s + 1, nt_sntp_last_sync_utc := utc\<rparr>)"

datatype wifi_notice = Got_Ip "u8 list" "u8 list" | Sta_Connected | Sta_Disconnected nat u32 | Scan_Done | Other_Event

text \<open>The delay before the next attempt, in milliseconds, from the number of failures and the jitter.\<close>

definition retry_delay :: "u32 \<Rightarrow> u32 \<Rightarrow> u64" where
  "retry_delay retries jitter = ucast (push_bit (if retries > 5 then 5 else unat retries) (1000 :: u32)) + ucast jitter"

definition wifi_event :: "u64 \<Rightarrow> wifi_notice \<Rightarrow> network \<Rightarrow> network" where
  "wifi_event now e n = (case e of
     Got_Ip ip gw \<Rightarrow> upd (\<lambda>s. s\<lparr>nt_connected := True, nt_connecting := False, nt_retries := 0, nt_disconnect_reason := 0,
         nt_ip := take 15 ip, nt_gateway := take 15 gw, nt_ap_deadline_ms := (if nt_ap_enabled s then now + MONITOR_SETUP_MS else nt_ap_deadline_ms s)\<rparr>)
       (n\<lparr>nw_connection_deadline := 0, nw_clock_requested := True\<rparr>)
   | Sta_Connected \<Rightarrow> upd (\<lambda>s. s\<lparr>nt_associated := True, nt_connecting := True\<rparr>) (n\<lparr>nw_connection_deadline := now + 20000\<rparr>)
   | Sta_Disconnected reason random \<Rightarrow>
       let retries = (if nt_retries (nw_state n) < 1000000 then nt_retries (nw_state n) + 1 else nt_retries (nw_state n)) in
       upd (\<lambda>s. s\<lparr>nt_connected := False, nt_connecting := False, nt_associated := False, nt_ip := [], nt_gateway := [],
         nt_disconnect_reason := reason, nt_retries := retries, nt_ap_deadline_ms := 0\<rparr>)
       (n\<lparr>nw_connection_deadline := 0, nw_next_retry := now + retry_delay retries (random mod 1000)\<rparr>)
   | Scan_Done \<Rightarrow> n\<lparr>nw_scan_finished := True\<rparr>
   | Other_Event \<Rightarrow> n)"

section \<open>Requests\<close>

text \<open>
  The station's settings are loaded and applied; \<open>applied\<close> is the success of \<open>esp_wifi_set_config\<close>. Its configuration holds a
  name of 32 and a password of 64 bytes; a copy that does not fit is an error of the model.
\<close>

definition station_config :: "bool \<Rightarrow> monitor_wifi_config \<Rightarrow> wifi_call option" where
  "station_config available saved = (if \<not> available then Some (Wifi_Station (replicate 32 0) (replicate 64 0) False) else do {
     ssid \<leftarrow> cstring (wc_ssid saved);
     ssid \<leftarrow> store_n (replicate 32 0) 0 ssid;
     password \<leftarrow> cstring (wc_password saved);
     password \<leftarrow> store_n (replicate 64 0) 0 password;
     Some (Wifi_Station ssid password (wc_open saved = 0))
   })"

definition set_station :: "'w nvs_ops \<Rightarrow> 'w \<Rightarrow> bool \<Rightarrow> u64 \<Rightarrow> network \<Rightarrow> (bool \<times> network) option" where
  "set_station ops w applied now n = do {
     (rc, saved) \<leftarrow> monitor_store_wifi ops w;
     c \<leftarrow> load (wc_ssid saved) 0;
     let available = (rc = STORE_OK \<and> c \<noteq> 0);
     config \<leftarrow> station_config available saved;
     let n = called config n;
     Some (applied, upd (\<lambda>s. s\<lparr>nt_ssid := wc_ssid saved, nt_retries := 0\<rparr>)
       (n\<lparr>nw_has_credentials := (available \<and> applied), nw_next_retry := now + 1000\<rparr>))
   }"

definition setup_enable :: "bool \<Rightarrow> u64 \<Rightarrow> network \<Rightarrow> network" where
  "setup_enable mode now n = (let n = called Wifi_Mode_ApSta n in
     if \<not> mode then n
     else upd (\<lambda>s. s\<lparr>nt_ap_enabled := True, nt_ap_deadline_ms := (if nt_connected s then now + MONITOR_SETUP_MS else 0)\<rparr>) n)"

text \<open>
  The start of the network: \<open>made\<close> tells that the interfaces could be created, \<open>ap\<close> that the access point's configuration was accepted,
  \<open>mac\<close> is the station's address. The other calls of the driver abort the program when they fail.
\<close>

definition hex_upper :: "u8 \<Rightarrow> u8 list" where
  "hex_upper b = (let d = (\<lambda>n. if n < 10 then word_of_nat (48 + n) else word_of_nat (55 + n)) in [d (unat b div 16), d (unat b mod 16)])"

definition setup_name :: "u8 \<Rightarrow> u8 \<Rightarrow> u8 \<Rightarrow> u8 list" where
  "setup_name a b c = take 32 (str ''ESP-Monitor-'' @ hex_upper a @ hex_upper b @ hex_upper c)"

definition monitor_network_start :: "'w nvs_ops \<Rightarrow> 'w \<Rightarrow> bool \<Rightarrow> bool \<Rightarrow> bool \<Rightarrow> u8 list \<Rightarrow> u64 \<Rightarrow> network \<Rightarrow> (bool \<times> network) option" where
  "monitor_network_start ops w made ap applied mac now n = do {
     (rc, stored) \<leftarrow> monitor_store_password ops (Some (replicate 64 0)) 64 w;
     if rc \<noteq> STORE_OK \<or> \<not> made then Some (False, n)
     else do {
       a \<leftarrow> load mac 3; b \<leftarrow> load mac 4; c \<leftarrow> load mac 5;
       let n = upd (\<lambda>s. s\<lparr>nt_ap_ssid := setup_name a b c\<rparr>) n;
       ssid \<leftarrow> store_n (replicate 32 0) 0 (nt_ap_ssid (nw_state n));
       password \<leftarrow> (case stored of Some p \<Rightarrow> cstring p | None \<Rightarrow> None);
       password \<leftarrow> store_n (replicate 64 0) 0 password;
       let n = called (Wifi_Setup_Ap ssid (length (nt_ap_ssid (nw_state n))) password) n;
       if \<not> ap then Some (False, n)
       else do {
         (good, n) \<leftarrow> set_station ops w applied now n;
         if \<not> good then Some (False, n) else Some (True, upd (\<lambda>s. s\<lparr>nt_ap_enabled := True\<rparr>) n)
       }
     }
   }"

definition monitor_network_reload :: "network \<Rightarrow> network" where
  "monitor_network_reload n = n\<lparr>nw_reload_requested := True\<rparr>"

definition monitor_network_scan :: "network \<Rightarrow> bool \<times> network" where
  "monitor_network_scan n =
     (if nt_scanning (nw_state n) \<or> nt_connecting (nw_state n) then (False, n)
      else (True, upd (\<lambda>s. s\<lparr>nt_scanning := True, nt_scan_ready := False\<rparr>) (n\<lparr>nw_scan_requested := True\<rparr>)))"

definition monitor_network_scan_results :: "nat \<Rightarrow> network \<Rightarrow> (monitor_ap list \<times> bool) option" where
  "monitor_network_scan_results cap n = do {
     aps \<leftarrow> load_n (nw_scan_list n) 0 (if cap < nw_scan_count n then cap else nw_scan_count n);
     Some (aps, nt_scanning (nw_state n))
   }"

text \<open>\<open>info\<close> and \<open>clients\<close> are the answers of the driver, \<open>None\<close> when it fails.\<close>

definition monitor_network_snapshot_get :: "(int \<times> nat) option \<Rightarrow> nat option \<Rightarrow> network \<Rightarrow> monitor_network_snapshot" where
  "monitor_network_snapshot_get info clients n =
     (let out = nw_state n;
          out = (case info of Some (rssi, channel) \<Rightarrow> if nt_associated out then out\<lparr>nt_rssi := rssi, nt_channel := channel\<rparr> else out | None \<Rightarrow> out) in
      (case clients of Some c \<Rightarrow> if nt_ap_enabled out then out\<lparr>nt_ap_clients := c\<rparr> else out | None \<Rightarrow> out))"

text \<open>The local address of a socket: an IPv4 address, or an IPv6 address of which only mapped ones count.\<close>

datatype socket_address = Inet "u8 list" | Inet6 "u8 list" | Other_Family

definition monitor_request_local_ip :: "socket_address option \<Rightarrow> u8 list option" where
  "monitor_request_local_ip a = (case a of
     Some (Inet ip) \<Rightarrow> Some ip
   | Some (Inet6 ip) \<Rightarrow> if take 12 ip \<noteq> replicate 10 0 @ [255, 255] then None else Some (take 4 (drop 12 ip))
   | _ \<Rightarrow> None)"

definition monitor_request_on_setup :: "socket_address option \<Rightarrow> bool" where
  "monitor_request_on_setup a \<longleftrightarrow> monitor_request_local_ip a = Some [192, 168, 4, 1]"

section \<open>The tick\<close>

text \<open>
  The answers of the driver in a tick: to \<open>esp_wifi_set_config\<close>, to the (at most three) changes to the combined mode, to the change to the station
  mode, to the start of a scan, to a connection, the records of a finished scan (none when it fails), and the button.
\<close>

record wifi_answers =
  wa_applied :: bool
  wa_apsta :: "nat \<Rightarrow> bool"
  wa_sta :: bool
  wa_scan :: bool
  wa_connect :: bool
  wa_records :: "monitor_ap list option"
  wa_pressed :: bool

definition tick_timeout :: "u64 \<Rightarrow> network \<Rightarrow> bool" where
  "tick_timeout now n \<longleftrightarrow> nt_connecting (nw_state n) \<and> nw_connection_deadline n \<noteq> 0 \<and> now \<ge> nw_connection_deadline n"

definition tick_connect :: "u64 \<Rightarrow> network \<Rightarrow> bool" where
  "tick_connect now n \<longleftrightarrow> nw_has_credentials n \<and> \<not> nt_connected (nw_state n) \<and> \<not> nt_connecting (nw_state n) \<and> \<not> nt_scanning (nw_state n)
     \<and> now \<ge> nw_next_retry n"

definition ap_expired :: "u64 \<Rightarrow> network \<Rightarrow> bool" where
  "ap_expired now n \<longleftrightarrow> nt_ap_enabled (nw_state n) \<and> nt_connected (nw_state n) \<and> nt_ap_deadline_ms (nw_state n) \<noteq> 0 \<and> now \<ge> nt_ap_deadline_ms (nw_state n)"

text \<open>The first critical section: flags are taken, a connection that takes too long is given up.\<close>

definition tick_take :: "u64 \<Rightarrow> network \<Rightarrow> network" where
  "tick_take now n =
     (let m = n\<lparr>nw_reload_requested := False, nw_scan_requested := False, nw_scan_finished := False, nw_clock_requested := False\<rparr> in
      if tick_timeout now n then upd (\<lambda>s. s\<lparr>nt_connecting := False\<rparr>) (m\<lparr>nw_connection_deadline := 0, nw_next_retry := now + 5000\<rparr>) else m)"

definition tick_scan_done :: "monitor_ap list option \<Rightarrow> network \<Rightarrow> network option" where
  "tick_scan_done records n = do {
     let found = (case records of Some rs \<Rightarrow> map (\<lambda>r. r\<lparr>ap_ssid := take 32 (ap_ssid r) @ [0]\<rparr>) rs | None \<Rightarrow> []);
     l \<leftarrow> store_n (nw_scan_list n) 0 found;
     Some (upd (\<lambda>s. s\<lparr>nt_scanning := False, nt_scan_ready := (records \<noteq> None)\<rparr>) (n\<lparr>nw_scan_list := l, nw_scan_count := length found\<rparr>))
   }"

definition tick_button :: "wifi_answers \<Rightarrow> u64 \<Rightarrow> network \<Rightarrow> network" where
  "tick_button a now n =
     (if wa_pressed a then
        let n = (if nw_button_since n = 0 then n\<lparr>nw_button_since := now\<rparr> else n) in
        if \<not> nw_button_handled n \<and> now - nw_button_since n \<ge> 3000 then (setup_enable (wa_apsta a 2) now n)\<lparr>nw_button_handled := True\<rparr> else n
      else n\<lparr>nw_button_since := 0, nw_button_handled := False\<rparr>)"

text \<open>The settings are applied again.\<close>

definition tick_reload :: "'w nvs_ops \<Rightarrow> 'w \<Rightarrow> wifi_answers \<Rightarrow> u64 \<Rightarrow> bool \<Rightarrow> network \<Rightarrow> network option" where
  "tick_reload ops w a now wanted n = (if wanted then do {
             (_, n) \<leftarrow> set_station ops w (wa_applied a) now (called Wifi_Disconnect n);
             Some (setup_enable (wa_apsta a 0) now n)
           } else Some n)"

text \<open>The part behind the first critical section up to the scan, with the decisions taken there.\<close>

definition tick_modes :: "'w nvs_ops \<Rightarrow> 'w \<Rightarrow> wifi_answers \<Rightarrow> u64 \<Rightarrow> network \<Rightarrow> network \<Rightarrow> network option" where
  "tick_modes ops w a now was n = do {
     n \<leftarrow> tick_reload ops w a now (nw_reload_requested was) n;
     let n = (if nw_clock_requested was then called Sntp_Start n else n);
     let n = (if tick_timeout now was then called Wifi_Disconnect n else n);
     let n = (if \<not> nt_connected (nw_state was) \<and> \<not> nt_ap_enabled (nw_state was) then setup_enable (wa_apsta a 1) now n else n);
     Some (if ap_expired now was then
             let n = called Wifi_Mode_Sta n in if wa_sta a then upd (\<lambda>s. s\<lparr>nt_ap_enabled := False\<rparr>) n else n
           else n)
   }"

definition tick_tail :: "wifi_answers \<Rightarrow> u64 \<Rightarrow> network \<Rightarrow> network \<Rightarrow> network option" where
  "tick_tail a now was n = do {
     let n = (if nw_scan_requested was then
                let n = called Wifi_Scan_Start n in if wa_scan a then n else upd (\<lambda>s. s\<lparr>nt_scanning := False\<rparr>) n
              else n);
     n \<leftarrow> (if nw_scan_finished was then tick_scan_done (wa_records a) n else Some n);
     let n = (if tick_connect now was \<and> \<not> nw_reload_requested was \<and> \<not> tick_timeout now was then
                upd (\<lambda>s. s\<lparr>nt_connecting := wa_connect a\<rparr>)
                  ((called Wifi_Connect n)\<lparr>nw_connection_deadline := (if wa_connect a then now + 30000 else 0), nw_next_retry := now + 5000\<rparr>)
              else n);
     Some (tick_button a now n)
   }"

definition monitor_network_tick :: "'w nvs_ops \<Rightarrow> 'w \<Rightarrow> wifi_answers \<Rightarrow> u64 \<Rightarrow> network \<Rightarrow> network option" where
  "monitor_network_tick ops w a now n = do {
     m \<leftarrow> tick_modes ops w a now n (tick_take now n);
     tick_tail a now n m
   }"


section \<open>Lemmas\<close>

lemmas network_defs = upd_def called_def setup_enable_def tick_take_def tick_button_def Let_def

lemma upd_simps [simp]:
  "nw_state (upd f n) = f (nw_state n)" "nw_scan_list (upd f n) = nw_scan_list n" "nw_scan_count (upd f n) = nw_scan_count n"
  "nw_calls (upd f n) = nw_calls n"
  by (simp_all add: upd_def)

lemma called_simps [simp]:
  "nw_state (called c n) = nw_state n" "nw_scan_list (called c n) = nw_scan_list n" "nw_scan_count (called c n) = nw_scan_count n"
  "nw_calls (called c n) = nw_calls n @ [c]"
  by (simp_all add: called_def)

definition ap_ok :: "monitor_ap \<Rightarrow> bool" where
  "ap_ok r \<longleftrightarrow> length (ap_ssid r) = 33 \<and> 0 \<in> set (ap_ssid r)"

text \<open>Every text of the shared state is terminated within its array, the count of the scan stays within the list, and the addresses fit.\<close>

definition network_ok :: "network \<Rightarrow> bool" where
  "network_ok n \<longleftrightarrow> length (nw_scan_list n) = 12 \<and> nw_scan_count n \<le> 12 \<and> (\<forall>r \<in> set (nw_scan_list n). ap_ok r)
     \<and> length (nt_ssid (nw_state n)) = 33 \<and> 0 \<in> set (nt_ssid (nw_state n)) \<and> length (nt_ip (nw_state n)) \<le> 15 \<and> length (nt_gateway (nw_state n)) \<le> 15
     \<and> length (nt_ap_ssid (nw_state n)) \<le> 32"

text \<open>The driver gives at most the twelve records it is asked for, with names of 33 bytes.\<close>

definition records_ok :: "monitor_ap list option \<Rightarrow> bool" where
  "records_ok rs = (case rs of Some l \<Rightarrow> length l \<le> 12 \<and> (\<forall>r \<in> set l. length (ap_ssid r) = 33) | None \<Rightarrow> True)"

lemma cstring_within: "0 \<in> set m \<Longrightarrow> \<exists>s. cstring m = Some s \<and> length s < length m"
proof -
  assume z: "0 \<in> set m"
  then obtain a b where m: "m = a @ 0 # b" "0 \<notin> set a" by (meson split_list_first)
  then have "takeWhile (\<lambda>c. c \<noteq> 0) m = a" by (auto simp: takeWhile_append takeWhile_eq_all_conv)
  then show ?thesis using z m by (simp add: cstring_def)
qed

lemma station_config_total:
  assumes "wifi_ok c" shows "\<exists>x. station_config av c = Some x \<and> x \<noteq> Wifi_Connect"
proof -
  obtain s p where "cstring (wc_ssid c) = Some s" "length s < 33" "cstring (wc_password c) = Some p" "length p < 64"
    using assms cstring_within [of "wc_ssid c"] cstring_within [of "wc_password c"] by (auto simp: wifi_ok_def)
  then show ?thesis by (auto simp: station_config_def store_n_Some del: replicate.simps)
qed

text \<open>What an operation keeps of the calls: it adds some, and none of them is a connection.\<close>

definition quiet :: "network \<Rightarrow> network \<Rightarrow> bool" where
  "quiet n n' \<longleftrightarrow> (\<exists>cs. nw_calls n' = nw_calls n @ cs \<and> Wifi_Connect \<notin> set cs)"

lemma quiet_intros [intro]:
  "quiet n n" "quiet n m \<Longrightarrow> nw_calls m' = nw_calls m \<Longrightarrow> quiet n m'"
  "quiet n m \<Longrightarrow> c \<noteq> Wifi_Connect \<Longrightarrow> nw_calls m' = nw_calls m @ [c] \<Longrightarrow> quiet n m'"
  by (auto simp: quiet_def)

lemma set_station_total:
  assumes "nvs_fits ops" "network_ok n"
  shows "\<exists>n'. set_station ops w applied now n = Some (applied, n') \<and> network_ok n' \<and> quiet n n'
    \<and> nt_connected (nw_state n') = nt_connected (nw_state n) \<and> nt_ap_enabled (nw_state n') = nt_ap_enabled (nw_state n)"
proof -
  obtain rc c where s: "monitor_store_wifi ops w = Some (rc, c)" "wifi_ok c" using store_total(1) [OF assms(1)] by blast
  have l: "length (wc_ssid c) = 33" "0 \<in> set (wc_ssid c)" using s(2) by (auto simp: wifi_ok_def)
  then have "load (wc_ssid c) 0 = Some (wc_ssid c ! 0)" by (simp add: load_def)
  moreover obtain x where "station_config (rc = STORE_OK \<and> wc_ssid c ! 0 \<noteq> 0) c = Some x" "x \<noteq> Wifi_Connect"
    using station_config_total [OF s(2)] by blast
  ultimately show ?thesis using s(1) l assms(2) by (auto simp: set_station_def network_ok_def quiet_def)
qed

lemma setup_enable_ok:
  assumes "network_ok n"
  shows "network_ok (setup_enable m now n)" "quiet n (setup_enable m now n)"
    "nt_connected (nw_state (setup_enable m now n)) = nt_connected (nw_state n)"
    "nt_ap_enabled (nw_state (setup_enable m now n)) \<longleftrightarrow> m \<or> nt_ap_enabled (nw_state n)"
  using assms by (auto simp: setup_enable_def Let_def network_ok_def quiet_def)


lemma quiet_trans: "quiet n m \<Longrightarrow> quiet m k \<Longrightarrow> quiet n k"
  by (auto simp: quiet_def)

text \<open>What the parts of a tick keep: the invariant, no connection, the link, and a setup point that is there stays there unless it has expired.\<close>

definition keeps :: "network \<Rightarrow> network \<Rightarrow> bool" where
  "keeps n n' \<longleftrightarrow> network_ok n' \<and> quiet n n' \<and> nt_connected (nw_state n') = nt_connected (nw_state n)
     \<and> (nt_ap_enabled (nw_state n) \<longrightarrow> nt_ap_enabled (nw_state n'))"

lemma keeps_trans: "keeps n m \<Longrightarrow> keeps m k \<Longrightarrow> keeps n k"
  by (auto simp: keeps_def intro: quiet_trans)

lemma keeps_called: "network_ok n \<Longrightarrow> c \<noteq> Wifi_Connect \<Longrightarrow> keeps n (called c n)"
  by (auto simp: keeps_def quiet_def network_ok_def)

lemma keeps_setup: "network_ok n \<Longrightarrow> keeps n (setup_enable m now n)"
  using setup_enable_ok [of n] by (auto simp: keeps_def)

lemma keeps_refl: "network_ok n \<Longrightarrow> keeps n n"
  by (auto simp: keeps_def)

lemma tick_take_keeps: "network_ok n \<Longrightarrow> keeps n (tick_take now n)"
  by (auto simp: keeps_def tick_take_def Let_def network_ok_def quiet_def)

lemma tick_reload_keeps:
  assumes "nvs_fits ops" "network_ok n" shows "\<exists>n'. tick_reload ops w a now b n = Some n' \<and> keeps n n'"
proof -
  have k: "keeps n (called Wifi_Disconnect n)" using keeps_called [OF assms(2)] by simp
  obtain n' where s: "set_station ops w (wa_applied a) now (called Wifi_Disconnect n) = Some (wa_applied a, n')"
      "keeps (called Wifi_Disconnect n) n'"
    using set_station_total [OF assms(1), of "called Wifi_Disconnect n" w "wa_applied a" now] k by (auto simp: keeps_def)
  have "keeps n (setup_enable (wa_apsta a 0) now n')" using keeps_trans [OF keeps_trans [OF k s(2)] keeps_setup] s(2) by (auto simp: keeps_def)
  then show ?thesis using s(1) keeps_refl [OF assms(2)] by (auto simp: tick_reload_def)
qed

lemma tick_modes_ok:
  assumes f: "nvs_fits ops" and n: "network_ok n"
    and same: "nt_connected (nw_state n) = nt_connected (nw_state was)" "nt_ap_enabled (nw_state was) \<longrightarrow> nt_ap_enabled (nw_state n)"
  shows "\<exists>n'. tick_modes ops w a now was n = Some n' \<and> network_ok n' \<and> quiet n n' \<and> nt_connected (nw_state n') = nt_connected (nw_state was)
    \<and> (wa_apsta a 1 \<longrightarrow> nt_connected (nw_state n') \<or> nt_ap_enabled (nw_state n'))"
proof -
  obtain n1 where r: "tick_reload ops w a now (nw_reload_requested was) n = Some n1" and k1: "keeps n n1"
    using tick_reload_keeps [OF f n] by blast
  have call: "keeps m (if b then called c m else m)" if "network_ok m" "c \<noteq> Wifi_Connect" for m b c
    using that keeps_called keeps_refl by simp
  define n2 where "n2 = (if nw_clock_requested was then called Sntp_Start n1 else n1)"
  define n3 where "n3 = (if tick_timeout now was then called Wifi_Disconnect n2 else n2)"
  have k3: "keeps n n3" using keeps_trans [OF k1] keeps_trans call k1 unfolding n2_def n3_def by (metis keeps_def wifi_call.distinct)
  define n4 where "n4 = (if \<not> nt_connected (nw_state was) \<and> \<not> nt_ap_enabled (nw_state was) then setup_enable (wa_apsta a 1) now n3 else n3)"
  have o3: "network_ok n3" using k3 by (simp add: keeps_def)
  have k4: "keeps n n4" unfolding n4_def using keeps_trans [OF k3 keeps_setup [OF o3]] k3 by simp
  have ap4: "wa_apsta a 1 \<Longrightarrow> \<not> nt_connected (nw_state was) \<Longrightarrow> nt_ap_enabled (nw_state n4)"
    using setup_enable_ok(4) [OF o3, of "wa_apsta a 1" now] k3 same unfolding n4_def keeps_def by auto
  define n5 where "n5 = (if ap_expired now was then
             let n = called Wifi_Mode_Sta n4 in if wa_sta a then upd (\<lambda>s. s\<lparr>nt_ap_enabled := False\<rparr>) n else n
           else n4)"
  have "network_ok n5" "quiet n n5" "nt_connected (nw_state n5) = nt_connected (nw_state was)"
    using k4 same by (auto simp: n5_def keeps_def network_ok_def quiet_def Let_def)
  moreover have "wa_apsta a 1 \<Longrightarrow> nt_connected (nw_state n5) \<or> nt_ap_enabled (nw_state n5)"
    using ap4 k4 same by (auto simp: n5_def keeps_def ap_expired_def Let_def)
  moreover have "tick_modes ops w a now was n = Some n5"
    using r unfolding tick_modes_def n5_def n4_def n3_def n2_def by (simp add: Let_def)
  ultimately show ?thesis by blast
qed


lemma tick_scan_done_ok:
  assumes n: "network_ok n" and r: "records_ok rs" shows "\<exists>n'. tick_scan_done rs n = Some n' \<and> keeps n n'"
proof -
  define found where "found = (case rs of Some rs \<Rightarrow> map (\<lambda>r. r\<lparr>ap_ssid := take 32 (ap_ssid r) @ [0]\<rparr>) rs | None \<Rightarrow> [])"
  have f: "length found \<le> 12" "\<forall>r \<in> set found. ap_ok r" using r by (auto simp: found_def records_ok_def ap_ok_def split: option.splits)
  have l: "length (nw_scan_list n) = 12" using n by (simp add: network_ok_def)
  then have s: "store_n (nw_scan_list n) 0 found = Some (splice (nw_scan_list n) 0 found)" "length (splice (nw_scan_list n) 0 found) = 12"
    using f(1) by (simp_all add: store_n_Some)
  have "set (splice (nw_scan_list n) 0 found) \<subseteq> set found \<union> set (nw_scan_list n)" by (auto simp: splice_def dest: in_set_dropD)
  then have "\<forall>r \<in> set (splice (nw_scan_list n) 0 found). ap_ok r" using f(2) n by (auto simp: network_ok_def)
  then show ?thesis using s f(1) n unfolding tick_scan_done_def found_def [symmetric]
    by (auto simp: keeps_def network_ok_def quiet_def)
qed

definition connects :: "u64 \<Rightarrow> network \<Rightarrow> bool" where
  "connects now was \<longleftrightarrow> tick_connect now was \<and> \<not> nw_reload_requested was \<and> \<not> tick_timeout now was"

lemma tick_button_keeps: "network_ok n \<Longrightarrow> keeps n (tick_button a now n)"
proof -
  assume n: "network_ok n"
  have k: "keeps n (setup_enable m now (n\<lparr>nw_button_since := x\<rparr>))" for m x
    using keeps_setup [of "n\<lparr>nw_button_since := x\<rparr>" m now] n by (simp add: keeps_def network_ok_def quiet_def)
  have k2: "keeps n (setup_enable m now n)" for m using keeps_setup [OF n] .
  have e: "keeps n m \<Longrightarrow> keeps n (m\<lparr>nw_button_handled := b\<rparr>)" for m b by (simp add: keeps_def network_ok_def quiet_def)
  have s: "keeps n (n\<lparr>nw_button_since := x\<rparr>)" for x using n by (simp add: keeps_def network_ok_def quiet_def)
  show ?thesis using e [OF k] e [OF k2] e [OF s] s keeps_refl [OF n] by (simp add: tick_button_def Let_def)
qed

lemma tick_tail_ok:
  assumes n: "network_ok n" and r: "records_ok (wa_records a)"
  shows "\<exists>n' cs. tick_tail a now was n = Some n' \<and> network_ok n' \<and> nt_connected (nw_state n') = nt_connected (nw_state n)
    \<and> (nt_ap_enabled (nw_state n) \<longrightarrow> nt_ap_enabled (nw_state n')) \<and> nw_calls n' = nw_calls n @ cs \<and> (Wifi_Connect \<in> set cs \<longleftrightarrow> connects now was)"
proof -
  define n1 where "n1 = (if nw_scan_requested was then
                let n = called Wifi_Scan_Start n in if wa_scan a then n else upd (\<lambda>s. s\<lparr>nt_scanning := False\<rparr>) n
              else n)"
  have k1: "keeps n n1" using n by (auto simp: n1_def keeps_def network_ok_def quiet_def Let_def)
  have "\<exists>n2. (if nw_scan_finished was then tick_scan_done (wa_records a) n1 else Some n1) = Some n2 \<and> keeps n1 n2"
    using tick_scan_done_ok [OF _ r, of n1] k1 keeps_refl by (auto simp: keeps_def)
  then obtain n2 where s: "(if nw_scan_finished was then tick_scan_done (wa_records a) n1 else Some n1) = Some n2" and "keeps n1 n2" by blast
  then have k2: "keeps n n2" using keeps_trans [OF k1] by blast
  define n3 where "n3 = (if connects now was then
                upd (\<lambda>s. s\<lparr>nt_connecting := wa_connect a\<rparr>)
                  ((called Wifi_Connect n2)\<lparr>nw_connection_deadline := (if wa_connect a then now + 30000 else 0), nw_next_retry := now + 5000\<rparr>)
              else n2)"
  have o3: "network_ok n3" "nt_connected (nw_state n3) = nt_connected (nw_state n)" "nt_ap_enabled (nw_state n) \<Longrightarrow> nt_ap_enabled (nw_state n3)"
    using k2 by (auto simp: n3_def keeps_def network_ok_def)
  obtain cs where c: "nw_calls n2 = nw_calls n @ cs" "Wifi_Connect \<notin> set cs" using k2 by (auto simp: keeps_def quiet_def)
  have k4: "keeps n3 (tick_button a now n3)" using tick_button_keeps [OF o3(1)] .
  then obtain ds where d: "nw_calls (tick_button a now n3) = nw_calls n3 @ ds" "Wifi_Connect \<notin> set ds" by (auto simp: keeps_def quiet_def)
  have calls: "nw_calls (tick_button a now n3) = nw_calls n @ cs @ (if connects now was then [Wifi_Connect] else []) @ ds"
    using c d by (simp add: n3_def)
  have t: "tick_tail a now was n = Some (tick_button a now n3)"
    using s unfolding tick_tail_def n3_def n1_def connects_def by (simp add: Let_def split: if_splits)
  show ?thesis
    apply (rule exI [of _ "tick_button a now n3"], rule exI [of _ "cs @ (if connects now was then [Wifi_Connect] else []) @ ds"])
    using t calls k4 o3 c(2) d(2) by (auto simp: keeps_def)
qed

lemma monitor_network_tick_ok:
  assumes "nvs_fits ops" "network_ok n" "records_ok (wa_records a)"
  shows "\<exists>n' cs. monitor_network_tick ops w a now n = Some n' \<and> network_ok n' \<and> (wa_apsta a 1 \<longrightarrow> nt_connected (nw_state n') \<or> nt_ap_enabled (nw_state n'))
    \<and> nw_calls n' = nw_calls n @ cs \<and> (Wifi_Connect \<in> set cs \<longleftrightarrow> connects now n)"
proof -
  have k: "keeps n (tick_take now n)" using tick_take_keeps [OF assms(2)] .
  then have o: "network_ok (tick_take now n)" "nt_connected (nw_state (tick_take now n)) = nt_connected (nw_state n)"
      "nt_ap_enabled (nw_state n) \<longrightarrow> nt_ap_enabled (nw_state (tick_take now n))" by (auto simp: keeps_def)
  obtain m where m: "tick_modes ops w a now n (tick_take now n) = Some m" "network_ok m" "quiet (tick_take now n) m"
      "wa_apsta a 1 \<longrightarrow> nt_connected (nw_state m) \<or> nt_ap_enabled (nw_state m)"
    using tick_modes_ok [OF assms(1) o] by blast
  have "quiet n m" using k m(3) by (auto simp: keeps_def intro: quiet_trans)
  then obtain bs where b: "nw_calls m = nw_calls n @ bs" "Wifi_Connect \<notin> set bs" by (auto simp: quiet_def)
  obtain n' cs where t: "tick_tail a now n m = Some n'" "network_ok n'" "nt_connected (nw_state n') = nt_connected (nw_state m)"
      "nt_ap_enabled (nw_state m) \<longrightarrow> nt_ap_enabled (nw_state n')" "nw_calls n' = nw_calls m @ cs" "Wifi_Connect \<in> set cs \<longleftrightarrow> connects now n"
    using tick_tail_ok [OF m(2) assms(3)] by blast
  show ?thesis
    apply (rule exI [of _ n'], rule exI [of _ "bs @ cs"])
    using m(1,4) t b by (auto simp: monitor_network_tick_def)
qed


text \<open>The states the tasks of the device can bring about, with any answers of the driver and at any times.\<close>

inductive network_reach :: "'w nvs_ops \<Rightarrow> network \<Rightarrow> bool" for ops where
  boot: "network_reach ops zero_network"
| start: "network_reach ops n \<Longrightarrow> length mac = 6 \<Longrightarrow> monitor_network_start ops w made ap applied mac now n = Some (rc, n') \<Longrightarrow> network_reach ops n'"
| event: "network_reach ops n \<Longrightarrow> network_reach ops (wifi_event now e n)"
| sync: "network_reach ops n \<Longrightarrow> network_reach ops (clock_synced utc n)"
| reload: "network_reach ops n \<Longrightarrow> network_reach ops (monitor_network_reload n)"
| scan: "network_reach ops n \<Longrightarrow> monitor_network_scan n = (ok, n') \<Longrightarrow> network_reach ops n'"
| tick: "network_reach ops n \<Longrightarrow> records_ok (wa_records a) \<Longrightarrow> monitor_network_tick ops w a now n = Some n' \<Longrightarrow> network_reach ops n'"

lemma zero_network_ok: "network_ok zero_network"
  by (auto simp: network_ok_def zero_network_def zero_ap_def ap_ok_def simp del: replicate.simps)

lemma wifi_event_ok: "network_ok n \<Longrightarrow> network_ok (wifi_event now e n)"
  by (auto simp: wifi_event_def network_ok_def Let_def split: wifi_notice.split)

lemma password_total:
  assumes "nvs_fits ops"
  shows "\<exists>rc m. monitor_store_password ops (Some (replicate 64 0)) 64 w = Some (rc, Some m) \<and> length m = 64 \<and> (rc = STORE_OK \<longrightarrow> 0 \<in> set m)"
proof -
  obtain rc got where g: "ns_get_str ops ''setup_pass'' 64 w = (rc, got)" by fastforce
  have "length got \<le> 64 \<and> (rc = 0 \<longrightarrow> 0 \<in> set got)" using assms g unfolding nvs_fits_def by (metis fst_conv snd_conv)
  then show ?thesis using g by (auto simp: monitor_store_password_def store_n_Some splice_def cstring_def simp del: replicate.simps)
qed

lemma network_start_ok:
  assumes "nvs_fits ops" "network_ok n" "length mac = 6"
  shows "\<exists>rc n'. monitor_network_start ops w made ap applied mac now n = Some (rc, n') \<and> network_ok n'"
proof -
  obtain rc m where p: "monitor_store_password ops (Some (replicate 64 0)) 64 w = Some (rc, Some m)" "length m = 64" "rc = STORE_OK \<longrightarrow> 0 \<in> set m"
    using password_total [OF assms(1)] by blast
  define name where "name = setup_name (mac ! 3) (mac ! 4) (mac ! 5)"
  define n1 where "n1 = upd (\<lambda>s. s\<lparr>nt_ap_ssid := name\<rparr>) n"
  have l: "length name \<le> 32" by (simp add: name_def setup_name_def)
  have nm: "nt_ap_ssid (nw_state n1) = name" by (simp add: n1_def)
  have o1: "network_ok n1" using assms(2) l by (auto simp: n1_def network_ok_def)
  have m: "load mac 3 = Some (mac ! 3)" "load mac 4 = Some (mac ! 4)" "load mac 5 = Some (mac ! 5)" using assms(3) by (simp_all add: load_def)
  show ?thesis
  proof (cases "rc \<noteq> STORE_OK \<or> \<not> made")
    case True then show ?thesis using p(1) assms(2) by (auto simp: monitor_network_start_def)
  next
    case False
    then obtain pw where pw: "cstring m = Some pw" "length pw < 64" using p(2,3) cstring_within [of m] by auto
    define n2 where "n2 = called (Wifi_Setup_Ap (splice (replicate 32 0) 0 name) (length name) (splice (replicate 64 0) 0 pw)) n1"
    have o2: "network_ok n2" using o1 by (simp add: n2_def network_ok_def)
    obtain n3 where s: "set_station ops w applied now n2 = Some (applied, n3)" "network_ok n3" using set_station_total [OF assms(1) o2] by blast
    then have o3: "network_ok (upd (\<lambda>s. s\<lparr>nt_ap_enabled := True\<rparr>) n3)" by (simp add: network_ok_def)
    have "monitor_network_start ops w made ap applied mac now n
        = (if \<not> ap then Some (False, n2) else if \<not> applied then Some (False, n3) else Some (True, upd (\<lambda>s. s\<lparr>nt_ap_enabled := True\<rparr>) n3))"
      using False p(1) m pw s(1) l nm unfolding monitor_network_start_def
      by (simp add: store_n_Some Let_def n2_def [symmetric] n1_def [symmetric] name_def [symmetric] del: replicate.simps)
    then show ?thesis using o2 o3 s(2) by auto
  qed
qed

lemma network_reach_ok: "network_reach ops n \<Longrightarrow> nvs_fits ops \<Longrightarrow> network_ok n"
proof (induction rule: network_reach.induct)
  case boot then show ?case by (simp add: zero_network_ok)
next
  case (start n mac w made ap applied now rc n')
  then show ?case using network_start_ok [of ops n mac w made ap applied now] by auto
next
  case (tick n a w now n')
  then show ?case using monitor_network_tick_ok [of ops n a w now] by auto
qed (auto simp: wifi_event_ok, auto simp: network_ok_def clock_synced_def monitor_network_reload_def monitor_network_scan_def split: if_splits)

lemma retry_delay_bounds:
  assumes "0 < r" "j < 1000" shows "2000 \<le> unat (retry_delay r j)" "unat (retry_delay r j) < 33000"
proof -
  have j: "unat j < 1000" using assms(2) by (simp add: word_less_nat_alt)
  have "unat r = 1 \<or> unat r = 2 \<or> unat r = 3 \<or> unat r = 4 \<or> unat r = 5 \<or> r > 5" using assms(1) by (simp add: word_less_nat_alt) linarith
  then have "unat (push_bit (if r > 5 then 5 else unat r) (1000 :: u32)) \<in> {2000, 4000, 8000, 16000, 32000}"
    by (auto simp: push_bit_eq_mult)
  moreover have "unat (retry_delay r j) = unat (push_bit (if r > 5 then 5 else unat r) (1000 :: u32)) + unat j"
  proof -
    have "unat (ucast x :: u64) = unat x" for x :: u32 using u32_less [of x] by (simp add: unsigned_ucast_eq take_bit_nat_eq_self)
    then show ?thesis using calculation j unfolding retry_delay_def by (auto simp: unat_word_ariths)
  qed
  ultimately show "2000 \<le> unat (retry_delay r j)" "unat (retry_delay r j) < 33000" using j by auto
qed


text \<open>What decides about the next attempt to connect.\<close>

definition retry_of :: "network \<Rightarrow> bool \<times> bool \<times> bool \<times> u64 \<times> bool" where
  "retry_of n = (nt_connected (nw_state n), nt_connecting (nw_state n), nw_reload_requested n, nw_next_retry n, nw_has_credentials n)"

lemma retry_of_simps [simp]:
  "retry_of (called c n) = retry_of n" "retry_of (setup_enable b t n) = retry_of n" "retry_of (tick_button a t n) = retry_of n"
  "retry_of (upd (\<lambda>s. s\<lparr>nt_scanning := x\<rparr>) n) = retry_of n" "retry_of (upd (\<lambda>s. s\<lparr>nt_ap_enabled := x\<rparr>) n) = retry_of n"
  "nt_scanning (nw_state (setup_enable b t n)) = nt_scanning (nw_state n)" "nt_scanning (nw_state (tick_button a t n)) = nt_scanning (nw_state n)"
  by (simp_all add: retry_of_def setup_enable_def tick_button_def called_def upd_def Let_def)

lemma scan_done_retry: "tick_scan_done rs n = Some n' \<Longrightarrow> retry_of n' = retry_of n \<and> \<not> nt_scanning (nw_state n')"
  by (auto simp: tick_scan_done_def retry_of_def upd_def bind_eq_Some_conv Let_def)

text \<open>A tick of a station that is neither connected nor connecting, before its time, leaves that time and the credentials alone.\<close>

lemma tick_waits:
  assumes "monitor_network_tick ops w a now n = Some n'" "retry_of n = (False, False, False, next_try, creds)" "\<not> connects now n"
  shows "retry_of n' = retry_of n" "\<not> nt_scanning (nw_state n) \<Longrightarrow> \<not> nt_scanning (nw_state n')"
proof -
  have q: "\<not> nt_connected (nw_state n)" "\<not> nt_connecting (nw_state n)" "\<not> nw_reload_requested n" using assms(2) by (simp_all add: retry_of_def)
  then have f: "\<not> tick_timeout now n" "\<not> ap_expired now n" by (simp_all add: tick_timeout_def ap_expired_def)
  have t: "retry_of (tick_take now n) = retry_of n" "nt_scanning (nw_state (tick_take now n)) = nt_scanning (nw_state n)"
    using q f by (simp_all add: tick_take_def retry_of_def Let_def)
  define m0 where "m0 = (if nw_clock_requested n then called Sntp_Start (tick_take now n) else tick_take now n)"
  define m where "m = (if \<not> nt_ap_enabled (nw_state n) then setup_enable (wa_apsta a 1) now m0 else m0)"
  have m: "tick_modes ops w a now n (tick_take now n) = Some m" "retry_of m = retry_of n" "nt_scanning (nw_state m) = nt_scanning (nw_state n)"
    using q f t by (simp_all add: tick_modes_def tick_reload_def m_def m0_def Let_def)
  define m1 where "m1 = (if nw_scan_requested n then
      if wa_scan a then called Wifi_Scan_Start m else upd (\<lambda>s. s\<lparr>nt_scanning := False\<rparr>) (called Wifi_Scan_Start m) else m)"
  have m1: "retry_of m1 = retry_of n" "\<not> nt_scanning (nw_state n) \<Longrightarrow> \<not> nt_scanning (nw_state m1)" using m(2,3) by (simp_all add: m1_def)
  have "tick_tail a now n m = do { m2 \<leftarrow> (if nw_scan_finished n then tick_scan_done (wa_records a) m1 else Some m1); Some (tick_button a now m2) }"
    unfolding tick_tail_def Let_def m1_def [symmetric] if_not_P [OF assms(3) [unfolded connects_def]] ..
  then obtain m2 where m2: "(if nw_scan_finished n then tick_scan_done (wa_records a) m1 else Some m1) = Some m2" "n' = tick_button a now m2"
    using assms(1) m(1) by (auto simp: monitor_network_tick_def bind_eq_Some_conv)
  then show "retry_of n' = retry_of n" "\<not> nt_scanning (nw_state n) \<Longrightarrow> \<not> nt_scanning (nw_state n')"
    using m1 scan_done_retry [of "wa_records a" m1 m2] by (auto split: if_splits)
qed

text \<open>
  What may happen while the station waits: ticks, a scan that the user asks for and its end, and the synchronisation of the clock.
\<close>

datatype network_step = Net_Tick wifi_answers u64 | Net_Scan | Net_Scan_Done u64 | Net_Sync int

fun network_steps :: "'w nvs_ops \<Rightarrow> 'w \<Rightarrow> network_step list \<Rightarrow> network \<Rightarrow> network option" where
  "network_steps ops w [] n = Some n"
| "network_steps ops w (Net_Tick a now # xs) n = do { n \<leftarrow> monitor_network_tick ops w a now n; network_steps ops w xs n }"
| "network_steps ops w (Net_Scan # xs) n = network_steps ops w xs (snd (monitor_network_scan n))"
| "network_steps ops w (Net_Scan_Done now # xs) n = network_steps ops w xs (wifi_event now Scan_Done n)"
| "network_steps ops w (Net_Sync utc # xs) n = network_steps ops w xs (clock_synced utc n)"

fun step_records :: "network_step \<Rightarrow> bool" where
  "step_records (Net_Tick a now) = records_ok (wa_records a)"
| "step_records x = True"

fun step_before :: "nat \<Rightarrow> network_step \<Rightarrow> bool" where
  "step_before t (Net_Tick a now) = (unat now < t)"
| "step_before t x = True"

lemma side_step_ok:
  "network_ok n \<Longrightarrow> network_ok (snd (monitor_network_scan n))" "network_ok n \<Longrightarrow> network_ok (wifi_event now Scan_Done n)" "network_ok n \<Longrightarrow> network_ok (clock_synced utc n)"
  "nw_calls (snd (monitor_network_scan n)) = nw_calls n" "nw_calls (wifi_event now Scan_Done n) = nw_calls n" "nw_calls (clock_synced utc n) = nw_calls n"
  "retry_of (snd (monitor_network_scan n)) = retry_of n" "retry_of (wifi_event now Scan_Done n) = retry_of n" "retry_of (clock_synced utc n) = retry_of n"
  by (simp_all add: network_ok_def retry_of_def monitor_network_scan_def wifi_event_def clock_synced_def upd_def)

lemma steps_before_retry:
  assumes "nvs_fits ops"
  shows "network_ok n \<Longrightarrow> retry_of n = (False, False, False, next_try, creds) \<Longrightarrow> \<forall>x \<in> set xs. step_records x \<and> step_before (unat next_try) x \<Longrightarrow>
    \<exists>n' cs. network_steps ops w xs n = Some n' \<and> network_ok n' \<and> retry_of n' = retry_of n \<and> nw_calls n' = nw_calls n @ cs \<and> Wifi_Connect \<notin> set cs"
proof (induction xs arbitrary: n)
  case (Cons x xs)
  show ?case
  proof (cases x)
    case (Net_Tick a now)
    then have r: "records_ok (wa_records a)" "unat now < unat next_try" using Cons.prems(3) by auto
    have nc: "\<not> connects now n" using r(2) Cons.prems(2) by (auto simp: connects_def tick_connect_def retry_of_def word_le_nat_alt)
    obtain n1 cs1 where t: "monitor_network_tick ops w a now n = Some n1" "network_ok n1" "nw_calls n1 = nw_calls n @ cs1" "Wifi_Connect \<notin> set cs1"
      using monitor_network_tick_ok [OF assms Cons.prems(1) r(1), of w now] nc by blast
    have "retry_of n1 = retry_of n" using tick_waits(1) [OF t(1) Cons.prems(2) nc] .
    then obtain n2 cs2 where "network_steps ops w xs n1 = Some n2" "network_ok n2" "retry_of n2 = retry_of n" "nw_calls n2 = nw_calls n1 @ cs2" "Wifi_Connect \<notin> set cs2"
      using Cons.IH [OF t(2)] Cons.prems(2,3) by auto
    then show ?thesis using t Net_Tick by auto
  next
    case Net_Scan
    then show ?thesis using Cons.IH [OF side_step_ok(1) [OF Cons.prems(1)]] Cons.prems(2,3) by (simp add: side_step_ok)
  next
    case (Net_Scan_Done now)
    then show ?thesis using Cons.IH [OF side_step_ok(2) [OF Cons.prems(1)]] Cons.prems(2,3) by (simp add: side_step_ok)
  next
    case (Net_Sync utc)
    then show ?thesis using Cons.IH [OF side_step_ok(3) [OF Cons.prems(1)]] Cons.prems(2,3) by (simp add: side_step_ok)
  qed
qed simp

lemma ticks_connect:
  assumes "nvs_fits ops"
  shows "network_ok n \<Longrightarrow> \<forall>(a, now) \<in> set ts. records_ok (wa_records a) \<Longrightarrow>
    \<exists>n' cs. network_steps ops w (map (\<lambda>(a, now). Net_Tick a now) ts) n = Some n' \<and> network_ok n' \<and> nw_calls n' = nw_calls n @ cs
      \<and> (retry_of n = (False, False, False, next_try, True) \<and> \<not> nt_scanning (nw_state n) \<and> (\<exists>(a, now) \<in> set ts. next_try \<le> now) \<longrightarrow> Wifi_Connect \<in> set cs)"
proof (induction ts arbitrary: n)
  case (Cons x ts)
  obtain a now where x: "x = (a, now)" by fastforce
  then have r: "records_ok (wa_records a)" using Cons.prems(2) by simp
  obtain n1 cs1 where t: "monitor_network_tick ops w a now n = Some n1" "network_ok n1" "nw_calls n1 = nw_calls n @ cs1" "Wifi_Connect \<in> set cs1 \<longleftrightarrow> connects now n"
    using monitor_network_tick_ok [OF assms Cons.prems(1) r, of w now] by blast
  obtain n2 cs2 where u: "network_steps ops w (map (\<lambda>(a, now). Net_Tick a now) ts) n1 = Some n2" "network_ok n2" "nw_calls n2 = nw_calls n1 @ cs2"
      "retry_of n1 = (False, False, False, next_try, True) \<and> \<not> nt_scanning (nw_state n1) \<and> (\<exists>(a, now) \<in> set ts. next_try \<le> now) \<longrightarrow> Wifi_Connect \<in> set cs2"
    using Cons.IH [OF t(2)] Cons.prems(2) by auto
  have "Wifi_Connect \<in> set (cs1 @ cs2)"
    if w: "retry_of n = (False, False, False, next_try, True)" "\<not> nt_scanning (nw_state n)" "\<exists>(a, now) \<in> set (x # ts). next_try \<le> now"
  proof (cases "connects now n")
    case False
    then have "\<not> next_try \<le> now" using w(1,2) by (auto simp: connects_def tick_connect_def tick_timeout_def retry_of_def)
    then have "\<exists>(a, now) \<in> set ts. next_try \<le> now" using w(3) x by auto
    then show ?thesis using u(4) tick_waits [OF t(1) w(1) False] w(1,2) by auto
  qed (use t(4) in simp)
  then show ?case using t(1,3) u(1-3) x by auto
qed simp

section \<open>Properties\<close>

text \<open>
  C18. The network task always runs. In every state the tasks can bring about, with any settings in the storage and any answers of the driver, a tick
  stays within its arrays and keeps every text of the shared state terminated; afterwards the device has a connection or offers its setup access point
  (if the driver lets it), and the driver is told to connect exactly when the decision at the start of the tick asks for it: credentials, no connection
  or scan under way, the retry time come, no reload and no timeout.
\<close>

theorem network_always_reachable:
  assumes "nvs_fits ops" "network_reach ops n" "records_ok (wa_records a)"
  shows "\<exists>n' cs. monitor_network_tick ops w a now n = Some n' \<and> network_ok n'
    \<and> (wa_apsta a 1 \<longrightarrow> nt_connected (nw_state n') \<or> nt_ap_enabled (nw_state n'))
    \<and> nw_calls n' = nw_calls n @ cs
    \<and> (Wifi_Connect \<in> set cs \<longleftrightarrow> tick_connect now n \<and> \<not> nw_reload_requested n \<and> \<not> tick_timeout now n)"
  using monitor_network_tick_ok [OF assms(1) network_reach_ok [OF assms(2,1)] assms(3), unfolded connects_def] .

definition sample_answers :: wifi_answers where
  "sample_answers = \<lparr>wa_applied = True, wa_apsta = \<lambda>_. True, wa_sta = True, wa_scan = True, wa_connect = True, wa_records = Some [zero_ap], wa_pressed = False\<rparr>"

theorem network_always_reachable_witness:
  "\<exists>n' cs. monitor_network_tick sample_nvs [] sample_answers 5 zero_network = Some n' \<and> network_ok n' \<and> (nt_connected (nw_state n') \<or> nt_ap_enabled (nw_state n'))
    \<and> nw_calls n' = cs \<and> Wifi_Connect \<notin> set cs"
proof -
  have r: "records_ok (wa_records sample_answers)" by (simp add: records_ok_def sample_answers_def zero_ap_def)
  have "wa_apsta sample_answers 1" "nw_calls zero_network = []" "\<not> tick_connect 5 zero_network"
    by (simp_all add: sample_answers_def zero_network_def tick_connect_def)
  then show ?thesis using network_always_reachable [OF sample_nvs_laws(2) network_reach.boot r, of "[]" 5] by auto
qed

text \<open>
  C19. The retries back off and go on. After the station has lost its connection and while no reload of the settings is asked for, no tick of the next two seconds
  connects again, however many ticks there are, whatever scans and clock synchronisations fall between them, the number of earlier failures and the jitter. If there are
  credentials and no scan is under way then, any further series of ticks that lasts until 33 seconds after the loss connects at least once. All these ticks run to
  their end.
\<close>

theorem wifi_retry_window:
  assumes "nvs_fits ops" "network_reach ops n" "\<not> nw_reload_requested n" "unat now + 33000 < 2 ^ 64"
    and "\<forall>x \<in> set early. step_records x \<and> step_before (unat now + 2000) x" "\<forall>(a, t) \<in> set later. records_ok (wa_records a)"
  shows "\<exists>n1 n2 cs1 cs2. let m = wifi_event now (Sta_Disconnected reason random) n in
    network_steps ops w early m = Some n1 \<and> nw_calls n1 = nw_calls m @ cs1 \<and> Wifi_Connect \<notin> set cs1
    \<and> network_steps ops w (map (\<lambda>(a, t). Net_Tick a t) later) n1 = Some n2 \<and> nw_calls n2 = nw_calls n1 @ cs2
    \<and> (nw_has_credentials n \<and> \<not> nt_scanning (nw_state n1) \<and> (\<exists>(a, t) \<in> set later. unat now + 33000 \<le> unat t) \<longrightarrow> Wifi_Connect \<in> set cs2)"
proof -
  define m where "m = wifi_event now (Sta_Disconnected reason random) n"
  define r where "r = (if nt_retries (nw_state n) < 1000000 then nt_retries (nw_state n) + 1 else nt_retries (nw_state n))"
  have "0 < r" using word_less_nat_alt unfolding r_def by (auto simp: word_less_nat_alt unat_word_ariths)
  moreover have "random mod 1000 < 1000" by (simp add: word_less_nat_alt unat_mod)
  ultimately have d: "2000 \<le> unat (retry_delay r (random mod 1000))" "unat (retry_delay r (random mod 1000)) < 33000"
    using retry_delay_bounds by blast+
  define next_try where "next_try = now + retry_delay r (random mod 1000)"
  have u: "unat next_try = unat now + unat (retry_delay r (random mod 1000))"
    using d assms(4) unfolding next_try_def by (simp add: unat_word_ariths)
  have rm: "retry_of m = (False, False, False, next_try, nw_has_credentials n)"
    using assms(3) by (simp add: m_def next_try_def retry_of_def wifi_event_def Let_def r_def upd_def)
  have ok: "network_ok m" unfolding m_def by (rule network_reach_ok [OF network_reach.event [OF assms(2)] assms(1)])
  have "step_before (unat next_try) x" if "step_before (unat now + 2000) x" for x using that u d(1) by (cases x) auto
  then have "\<forall>x \<in> set early. step_records x \<and> step_before (unat next_try) x" using assms(5) by blast
  from steps_before_retry [OF assms(1) ok rm this] obtain n1 cs1 where one: "network_steps ops w early m = Some n1" "network_ok n1" "retry_of n1 = retry_of m"
      "nw_calls n1 = nw_calls m @ cs1" "Wifi_Connect \<notin> set cs1" by blast
  have due: "\<exists>(a, t) \<in> set later. next_try \<le> t" if late: "\<exists>(a, t) \<in> set later. unat now + 33000 \<le> unat t"
  proof -
    obtain a t where "(a, t) \<in> set later" "unat now + 33000 \<le> unat t" using late by blast
    then have "(a, t) \<in> set later" "next_try \<le> t" using u d(2) by (simp_all add: word_le_nat_alt)
    then show ?thesis by blast
  qed
  obtain n2 cs2 where two: "network_steps ops w (map (\<lambda>(a, t). Net_Tick a t) later) n1 = Some n2" "nw_calls n2 = nw_calls n1 @ cs2"
      "retry_of n1 = (False, False, False, next_try, True) \<and> \<not> nt_scanning (nw_state n1) \<and> (\<exists>(a, t) \<in> set later. next_try \<le> t) \<longrightarrow> Wifi_Connect \<in> set cs2"
    using ticks_connect [OF assms(1) one(2) assms(6)] by blast
  have go: "nw_has_credentials n \<and> \<not> nt_scanning (nw_state n1) \<and> (\<exists>(a, t) \<in> set later. unat now + 33000 \<le> unat t) \<longrightarrow> Wifi_Connect \<in> set cs2"
    using two(3) one(3) rm due by simp
  show ?thesis unfolding m_def [symmetric] Let_def
    by (rule exI [of _ n1], rule exI [of _ n2], rule exI [of _ cs1], rule exI [of _ cs2]) (intro conjI one(1,4,5) two(1,2) go)
qed

text \<open>
  A device started with a stored network loses its connection: two early ticks do not connect, the third, half a minute later, does.
\<close>

definition sample_store :: "(string \<times> u8 list) list" where
  "sample_store = snd (monitor_save_wifi sample_nvs \<lparr>wc_ssid = str ''home'' @ replicate 29 0, wc_password = str ''password'' @ replicate 56 0, wc_open = 0\<rparr>
     [(''setup_pass'', str ''correct horse battery'')])"

definition sample_station :: network where
  "sample_station = (case monitor_network_start sample_nvs sample_store True True True (replicate 6 1) 1 zero_network of Some (rc, n) \<Rightarrow> n | None \<Rightarrow> zero_network)"

definition sample_waiting :: "network_step list" where
  "sample_waiting = [Net_Tick sample_answers 900, Net_Sync 7, Net_Tick sample_answers 1900]"

lemma sample_station_facts:
  "map_option fst (monitor_network_start sample_nvs sample_store True True True (replicate 6 1) 1 zero_network) = Some True"
  "nw_has_credentials sample_station" "\<not> nw_reload_requested sample_station"
  "map_option (\<lambda>n. nt_scanning (nw_state n)) (network_steps sample_nvs sample_store sample_waiting (wifi_event 5 (Sta_Disconnected 8 77) sample_station)) = Some False"
  by code_simp+

theorem wifi_retry_window_witness:
  "\<exists>n1 n2 cs1 cs2. let m = wifi_event 5 (Sta_Disconnected 8 77) sample_station in
    network_steps sample_nvs sample_store sample_waiting m = Some n1 \<and> nw_calls n1 = nw_calls m @ cs1 \<and> Wifi_Connect \<notin> set cs1
    \<and> network_steps sample_nvs sample_store [Net_Tick sample_answers 34000] n1 = Some n2 \<and> nw_calls n2 = nw_calls n1 @ cs2 \<and> Wifi_Connect \<in> set cs2"
proof -
  have "network_reach sample_nvs sample_station"
    using sample_station_facts(1) network_reach.start [OF network_reach.boot, of "replicate 6 1"] unfolding sample_station_def by (fastforce split: option.split)
  moreover have "\<forall>x \<in> set sample_waiting. step_records x \<and> step_before (unat (5 :: u64) + 2000) x" "\<forall>(a, t) \<in> set [(sample_answers, 34000 :: u64)]. records_ok (wa_records a)"
    by (simp_all add: sample_waiting_def records_ok_def sample_answers_def zero_ap_def)
  ultimately obtain n1 n2 cs1 cs2 where r: "let m = wifi_event 5 (Sta_Disconnected 8 77) sample_station in
      network_steps sample_nvs sample_store sample_waiting m = Some n1 \<and> nw_calls n1 = nw_calls m @ cs1 \<and> Wifi_Connect \<notin> set cs1
      \<and> network_steps sample_nvs sample_store (map (\<lambda>(a, t). Net_Tick a t) [(sample_answers, 34000)]) n1 = Some n2 \<and> nw_calls n2 = nw_calls n1 @ cs2
      \<and> (nw_has_credentials sample_station \<and> \<not> nt_scanning (nw_state n1) \<and> (\<exists>(a, t) \<in> set [(sample_answers, 34000 :: u64)]. unat (5 :: u64) + 33000 \<le> unat t) \<longrightarrow> Wifi_Connect \<in> set cs2)"
    using wifi_retry_window [OF sample_nvs_laws(2) _ sample_station_facts(3), of 5 sample_waiting "[(sample_answers, 34000)]" 8 77 sample_store] by fastforce
  then have "\<not> nt_scanning (nw_state n1)" using sample_station_facts(4) by (simp add: Let_def)
  then show ?thesis using r sample_station_facts(2) by (auto simp: Let_def)
qed

end
