(* ===== verification/Mon_Remote.thy ===== *)
theory Mon_Remote
  imports CF_H2 CF_Dns
begin

text \<open>
  The request parser of the system monitor, \<^verbatim>\<open>examples/system_monitor/main/monitor_remote.c\<close>: it reduces the headers of a
  request of the edge, those in the serialised block included, to the few values the monitor's interface uses, and
  refuses ambiguous requests.
\<close>

section \<open>Definitions\<close>

definition MONITOR_BODY_MAX :: nat where "MONITOR_BODY_MAX = 2048"

text \<open>\<open>rh_path\<close> and \<open>rh_authorization\<close> are the character arrays of 128 and 80 bytes.\<close>

record monitor_remote_head =
  rh_path :: mem
  rh_authorization :: mem
  rh_post :: bool
  rh_head :: bool
  rh_json_content :: bool
  rh_origin_allowed :: bool
  rh_has_length :: bool
  rh_content_length :: nat

definition zero_head :: monitor_remote_head where
  "zero_head = \<lparr>rh_path = replicate 128 0, rh_authorization = replicate 80 0, rh_post = False, rh_head = False, rh_json_content = False,
     rh_origin_allowed = False, rh_has_length = False, rh_content_length = 0\<rparr>"

definition name_is :: "u8 list \<Rightarrow> string \<Rightarrow> bool" where
  "name_is b s \<longleftrightarrow> map lower b = str s"

definition copy_text :: "u8 list \<Rightarrow> mem \<Rightarrow> nat \<Rightarrow> (cf_result \<times> mem) option" where
  "copy_text b out cap =
     (if length b \<ge> cap \<or> 0 \<in> set b then Some (CF_ERR_LIMIT, out)
      else do { out \<leftarrow> store_n out 0 b; out \<leftarrow> store out (length b) 0; Some (CF_OK, out) })"

record remote_fields =
  rf_seen :: u32
  rf_origin :: mem
  rf_type :: mem
  rf_out :: monitor_remote_head

definition field_bit :: "u8 list \<Rightarrow> u32" where
  "field_bit name = (if name_is name ''authorization'' then 1 else if name_is name ''origin'' then 2
     else if name_is name ''content-type'' then 4 else if name_is name ''content-length'' then 8 else 0)"

definition field_refused :: "u8 list \<Rightarrow> u8 list \<Rightarrow> bool" where
  "field_refused name val \<longleftrightarrow> name_is name ''transfer-encoding'' \<or> (name_is name ''content-encoding'' \<and> val \<noteq> str ''identity'')
     \<or> (name_is name ''cf-cloudflared-proxy-src'' \<and> val \<noteq> [])"

text \<open>The digits of a length; \<open>Inl\<close> is the error.\<close>

fun length_digits :: "u8 list \<Rightarrow> nat \<Rightarrow> cf_result + nat" where
  "length_digits [] n = Inr n"
| "length_digits (c # cs) n =
     (if c < ch CHR ''0'' \<or> c > ch CHR ''9'' then Inl CF_ERR_FORMAT
      else let n = n * 10 + unat c - 48 in
      if n > MONITOR_BODY_MAX then Inl CF_ERR_LIMIT else length_digits cs n)"

definition field :: "remote_fields \<Rightarrow> u8 list \<times> u8 list \<Rightarrow> (cf_result \<times> remote_fields) option" where
  "field f h = (case h of (name, val) \<Rightarrow>
     let bit = field_bit name in
     if bit = 0 then Some (if field_refused name val then CF_ERR_UNSUPPORTED else CF_OK, f)
     else if rf_seen f AND bit \<noteq> 0 then Some (CF_ERR_FORMAT, f)
     else
       let f = f\<lparr>rf_seen := rf_seen f OR bit\<rparr> in
       if bit = 1 then do {
         (rc, m) \<leftarrow> copy_text val (rh_authorization (rf_out f)) 80;
         Some (rc, f\<lparr>rf_out := (rf_out f)\<lparr>rh_authorization := m\<rparr>\<rparr>)
       }
       else if bit = 2 then do { (rc, m) \<leftarrow> copy_text val (rf_origin f) 272; Some (rc, f\<lparr>rf_origin := m\<rparr>) }
       else if bit = 4 then do { (rc, m) \<leftarrow> copy_text val (rf_type f) 64; Some (rc, f\<lparr>rf_type := m\<rparr>) }
       else if val = [] then Some (CF_ERR_FORMAT, f)
       else (case length_digits val 0 of Inl rc \<Rightarrow> Some (rc, f)
         | Inr n \<Rightarrow> Some (CF_OK, f\<lparr>rf_out := (rf_out f)\<lparr>rh_has_length := True, rh_content_length := n\<rparr>\<rparr>)))"

fun fields_loop :: "remote_fields \<Rightarrow> (u8 list \<times> u8 list) list \<Rightarrow> (cf_result \<times> remote_fields) option" where
  "fields_loop f [] = Some (CF_OK, f)"
| "fields_loop f (h # hs) = do { (rc, f) \<leftarrow> field f h; if rc = CF_OK then fields_loop f hs else Some (rc, f) }"

text \<open>The loop over the request's own headers, with the serialised block set aside.\<close>

fun request_loop :: "remote_fields \<Rightarrow> u8 list option \<Rightarrow> (u8 list \<times> u8 list) list \<Rightarrow> (cf_result \<times> remote_fields \<times> u8 list option) option" where
  "request_loop f packed [] = Some (CF_OK, f, packed)"
| "request_loop f packed (h # hs) =
     (if name_is (fst h) ''cf-cloudflared-request-headers'' then
        if packed \<noteq> None then Some (CF_ERR_FORMAT, f, packed) else request_loop f (Some (snd h)) hs
      else do { (rc, f) \<leftarrow> field f h; if rc = CF_OK then request_loop f packed hs else Some (rc, f, packed) })"

fun span_texts :: "mem \<Rightarrow> header_span list \<Rightarrow> (u8 list \<times> u8 list) list option" where
  "span_texts arena [] = Some []"
| "span_texts arena (sp # sps) = do {
     n \<leftarrow> load_n arena (fst (sname sp)) (snd (sname sp));
     v \<leftarrow> load_n arena (fst (svalue sp)) (snd (svalue sp));
     rest \<leftarrow> span_texts arena sps;
     Some ((n, v) # rest)
   }"

text \<open>The headers in the block; \<open>room\<close> tells whether \<open>malloc\<close> succeeds.\<close>

definition packed_fields :: "bool \<Rightarrow> remote_fields \<Rightarrow> u8 list \<Rightarrow> (cf_result \<times> remote_fields) option" where
  "packed_fields room f packed =
     (if \<not> room then Some (CF_ERR_MEMORY, f)
      else do {
        (rc, count, arena, items) \<leftarrow> cf_headers_decode (Bytes packed) (Some (replicate CF_HEADER_COUNT_MAX \<lparr>sname = (0, 0), svalue = (0, 0)\<rparr>)) CF_HEADER_COUNT_MAX
          (Some (replicate CF_HEADER_DECODED_MAX 0)) CF_HEADER_DECODED_MAX (Some 0);
        count \<leftarrow> count; arena \<leftarrow> arena; items \<leftarrow> items;
        if rc \<noteq> CF_OK then Some (rc, f)
        else do { sps \<leftarrow> load_n items 0 count; hs \<leftarrow> span_texts arena sps; fields_loop f hs }
      })"

definition origin_matches :: "u8 list \<Rightarrow> u8 list \<Rightarrow> bool" where
  "origin_matches origin authority =
     (let expected = str ''https://'' @ takeWhile (\<lambda>c. c \<noteq> 0) authority; n = length expected in
      (n < 272 \<and> origin = expected) \<or> (n + 4 < 272 \<and> origin = expected @ str '':443''))"

definition json_type :: "u8 list \<Rightarrow> bool" where
  "json_type ty \<longleftrightarrow> take 16 ty = str ''application/json'' \<and> (length ty = 16 \<or> ty ! 16 = ch CHR '';'')"

text \<open>The last step: the origin and the content type are judged.\<close>

definition judge :: "remote_fields \<Rightarrow> u8 list \<Rightarrow> (cf_result \<times> remote_fields) option" where
  "judge f authority = do {
     origin \<leftarrow> cstring (rf_origin f);
     ty \<leftarrow> cstring (rf_type f);
     let out = (rf_out f)\<lparr>rh_origin_allowed := (rf_seen f AND 2 = 0 \<or> origin_matches origin authority), rh_json_content := json_type ty\<rparr>;
     Some (if \<not> rh_post out \<and> rh_content_length out \<noteq> 0 then CF_ERR_FORMAT else CF_OK, f\<lparr>rf_out := out\<rparr>)
   }"

definition remote_collect :: "bool \<Rightarrow> remote_fields \<Rightarrow> cf_h2_request \<Rightarrow> u8 list \<Rightarrow> (cf_result \<times> remote_fields) option" where
  "remote_collect room f r authority = do {
     (rc, f, packed) \<leftarrow> request_loop f None (rq_headers r);
     (rc, f) \<leftarrow> (case packed of Some b \<Rightarrow> if rc = CF_OK then packed_fields room f b else Some (rc, f) | None \<Rightarrow> Some (rc, f));
     if rc = CF_OK then judge f authority else Some (rc, f)
   }"

definition monitor_remote_parse :: "bool \<Rightarrow> cf_h2_request option \<Rightarrow> monitor_remote_head option \<Rightarrow> (cf_result \<times> monitor_remote_head option) option" where
  "monitor_remote_parse room rp outp = (case (rp, outp) of
     (Some r, Some _) \<Rightarrow>
       let m = bytes_list (cf_h2_header r (str '':method'')); path = bytes_list (cf_h2_header r (str '':path''));
           authority = bytes_list (cf_h2_header r (str '':authority''));
           out = zero_head\<lparr>rh_post := (m = str ''POST''), rh_head := (m = str ''HEAD'')\<rparr> in
       if \<not> rh_post out \<and> \<not> rh_head out \<and> m \<noteq> str ''GET'' then Some (CF_ERR_UNSUPPORTED, Some out)
       else if path = [] \<or> hd path \<noteq> ch CHR ''/'' \<or> authority = [] \<or> length authority > 253 then Some (CF_ERR_FORMAT, Some out)
       else do {
         (rc, text_out) \<leftarrow> copy_text (takeWhile (\<lambda>c. c \<noteq> ch CHR ''?'') path) (rh_path out) 128;
         let out = out\<lparr>rh_path := text_out\<rparr>;
         if rc \<noteq> CF_OK then Some (rc, Some out)
         else do {
           (rc, f) \<leftarrow> remote_collect room \<lparr>rf_seen = 0, rf_origin = replicate 272 0, rf_type = replicate 64 0, rf_out = out\<rparr> r authority;
           Some (rc, Some (if rc = CF_OK then rf_out f else zero_head))
         }
       }
   | _ \<Rightarrow> Some (CF_ERR_ARGUMENT, outp))"

section \<open>Safety\<close>

definition text_in :: "nat \<Rightarrow> mem \<Rightarrow> bool" where
  "text_in n m \<longleftrightarrow> length m = n \<and> 0 \<in> set m"

definition fields_ok :: "remote_fields \<Rightarrow> bool" where
  "fields_ok f \<longleftrightarrow> text_in 272 (rf_origin f) \<and> text_in 64 (rf_type f) \<and> text_in 80 (rh_authorization (rf_out f))
     \<and> rh_content_length (rf_out f) \<le> MONITOR_BODY_MAX"

text \<open>What the collection of headers never changes.\<close>

definition line_of :: "remote_fields \<Rightarrow> mem \<times> bool \<times> bool" where
  "line_of f = (rh_path (rf_out f), rh_post (rf_out f), rh_head (rf_out f))"

lemma copy_text_total:
  assumes "text_in n m" shows "\<exists>rc m'. copy_text b m n = Some (rc, m') \<and> text_in n m' \<and> (rc = CF_OK \<longrightarrow> 0 \<notin> set b \<and> cstring m' = Some b)"
proof (cases "length b \<ge> n \<or> 0 \<in> set b")
  case True
  then show ?thesis using assms by (auto simp: copy_text_def)
next
  case False
  then have len: "length b < length m" using assms by (simp add: text_in_def)
  let ?m = "(splice m 0 b)[length b := 0]"
  have eq: "copy_text b m n = Some (CF_OK, ?m)" using False len by (simp add: copy_text_def store_n_Some store_Some)
  have m: "?m = b @ 0 # drop (Suc (length b)) m" using len
    by (simp add: splice_def list_update_append Cons_nth_drop_Suc [symmetric])
  have "takeWhile (\<lambda>c. c \<noteq> 0) (b @ 0 # ys) = b" for ys :: "u8 list" using False by (induction b) auto
  then have "cstring ?m = Some b" unfolding m by (simp add: cstring_def)
  moreover have "text_in n ?m" unfolding m using assms len by (simp add: text_in_def)
  ultimately show ?thesis using eq False by auto
qed

lemma digits_bound: "n \<le> MONITOR_BODY_MAX \<Longrightarrow> length_digits cs n = Inr k \<Longrightarrow> k \<le> MONITOR_BODY_MAX"
  by (induction cs n rule: length_digits.induct) (auto simp: Let_def split: if_splits)

lemma field_total:
  assumes "fields_ok f" shows "\<exists>rc f'. field f h = Some (rc, f') \<and> fields_ok f' \<and> line_of f' = line_of f"
proof -
  obtain name v where h: "h = (name, v)" by fastforce
  have t: "text_in 80 (rh_authorization (rf_out f))" "text_in 272 (rf_origin f)" "text_in 64 (rf_type f)" using assms by (auto simp: fields_ok_def)
  obtain rc1 m1 where c1: "copy_text v (rh_authorization (rf_out f)) 80 = Some (rc1, m1)" "text_in 80 m1" using copy_text_total [OF t(1)] by blast
  obtain rc2 m2 where c2: "copy_text v (rf_origin f) 272 = Some (rc2, m2)" "text_in 272 m2" using copy_text_total [OF t(2)] by blast
  obtain rc3 m3 where c3: "copy_text v (rf_type f) 64 = Some (rc3, m3)" "text_in 64 m3" using copy_text_total [OF t(3)] by blast
  have d: "k \<le> MONITOR_BODY_MAX" if "length_digits v 0 = Inr k" for k by (rule digits_bound [OF _ that]) simp
  show ?thesis using assms c1 c2 c3 d
    by (auto simp: field_def h Let_def fields_ok_def line_of_def split: sum.split)
qed

lemma fields_loop_total:
  "fields_ok f \<Longrightarrow> \<exists>rc f'. fields_loop f hs = Some (rc, f') \<and> fields_ok f' \<and> line_of f' = line_of f"
proof (induction hs arbitrary: f)
  case (Cons h hs)
  obtain rc f1 where "field f h = Some (rc, f1)" "fields_ok f1" "line_of f1 = line_of f" using field_total [OF Cons.prems] by blast
  then show ?case using Cons.IH [of f1] by (cases "rc = CF_OK") auto
qed simp

lemma request_loop_total:
  "fields_ok f \<Longrightarrow> \<exists>rc f' p. request_loop f packed hs = Some (rc, f', p) \<and> fields_ok f' \<and> line_of f' = line_of f"
proof (induction hs arbitrary: f packed)
  case (Cons h hs)
  obtain rc f1 where "field f h = Some (rc, f1)" "fields_ok f1" "line_of f1 = line_of f" using field_total [OF Cons.prems] by blast
  then show ?case using Cons.IH [of f1 packed] Cons.IH [OF Cons.prems, of "Some (snd h)"] Cons.prems by (cases "rc = CF_OK") auto
qed simp

lemma span_texts_spans:
  assumes "at + hdr_size hs \<le> length arena"
  shows "span_texts (splice arena at (hdr_bytes hs)) (hdr_spans at hs) = Some hs"
  using assms
proof (induction hs arbitrary: at arena)
  case (Cons h hs)
  let ?m = "splice arena at (hdr_bytes (h # hs))"
  have m: "?m = splice (splice arena at (hdr_bytes [h])) (at + hdr_size [h]) (hdr_bytes hs)"
    using splice_splice [of at "hdr_bytes [h]" "hdr_bytes hs" arena] Cons.prems by (simp add: hdr_bytes_Cons [of h hs])
  have rest: "span_texts ?m (hdr_spans (at + hdr_size [h]) hs) = Some hs"
    unfolding m by (rule Cons.IH) (use Cons.prems in simp)
  have d: "drop at ?m = fst h @ snd h @ hdr_bytes hs @ drop (at + hdr_size (h # hs)) arena"
  proof -
    have "hdr_bytes (h # hs) = fst h @ snd h @ hdr_bytes hs" by (simp add: hdr_bytes_def)
    then show ?thesis using Cons.prems by (simp add: splice_def add.assoc)
  qed
  have l: "length ?m = length arena" using Cons.prems by simp
  have n: "load_n ?m at (length (fst h)) = Some (fst h)" "load_n ?m (at + length (fst h)) (length (snd h)) = Some (snd h)"
    using Cons.prems l d by (auto simp: load_n_def drop_drop [symmetric] add.commute [of at] simp del: drop_drop)
  show ?case using rest n by (simp add: add.assoc)
qed simp

lemma packed_fields_ok:
  assumes room "decodes_to b CF_HEADER_COUNT_MAX CF_HEADER_DECODED_MAX hs"
    and "cf_headers_decode (Bytes b) (Some (replicate CF_HEADER_COUNT_MAX \<lparr>sname = (0, 0), svalue = (0, 0)\<rparr>)) CF_HEADER_COUNT_MAX
      (Some (replicate CF_HEADER_DECODED_MAX 0)) CF_HEADER_DECODED_MAX (Some 0)
      = Some (CF_OK, Some (length hs), Some (splice (replicate CF_HEADER_DECODED_MAX 0) 0 (hdr_bytes hs)),
          Some (splice (replicate CF_HEADER_COUNT_MAX \<lparr>sname = (0, 0), svalue = (0, 0)\<rparr>) 0 (hdr_spans 0 hs)))"
  shows "packed_fields room f b = fields_loop f hs"
proof -
  let ?es = "replicate CF_HEADER_COUNT_MAX \<lparr>sname = (0, 0), svalue = (0, 0)\<rparr> :: header_span list"
  let ?a = "replicate CF_HEADER_DECODED_MAX 0 :: mem"
  have s: "hdr_size hs \<le> CF_HEADER_DECODED_MAX" "length hs \<le> CF_HEADER_COUNT_MAX" using assms(2) by (auto simp: decodes_to_def)
  have "load_n (splice ?es 0 (hdr_spans 0 hs)) 0 (length hs) = Some (hdr_spans 0 hs)" using s(2) by (simp add: load_n_def splice_def)
  moreover have "span_texts (splice ?a 0 (hdr_bytes hs)) (hdr_spans 0 hs) = Some hs" using span_texts_spans [of 0 hs ?a] s(1) by simp
  ultimately show ?thesis using assms(1,3) by (simp add: packed_fields_def)
qed

lemma packed_fields_total:
  assumes "fields_ok f" shows "\<exists>rc f'. packed_fields room f b = Some (rc, f') \<and> fields_ok f' \<and> line_of f' = line_of f"
proof (cases room)
  case True
  let ?es = "replicate CF_HEADER_COUNT_MAX \<lparr>sname = (0, 0), svalue = (0, 0)\<rparr> :: header_span list"
  let ?a = "replicate CF_HEADER_DECODED_MAX 0 :: mem"
  have nb: "\<not> bytes_bad (Bytes b)" "CF_HEADER_DECODED_MAX \<le> length ?a" "CF_HEADER_COUNT_MAX \<le> length ?es" by simp_all
  show ?thesis using nb
  proof (cases rule: headers_decode_cases [where k = 0])
    case (ok hs)
    then have "packed_fields room f b = fields_loop f hs" using packed_fields_ok [of room b hs f] True by simp
    then show ?thesis using fields_loop_total [OF assms, of hs] by simp
  next
    case (err rc ys zs)
    then show ?thesis using True assms by (auto simp: packed_fields_def)
  qed
qed (use assms in \<open>simp add: packed_fields_def\<close>)

lemma judge_total:
  assumes "fields_ok f" shows "\<exists>rc f'. judge f au = Some (rc, f') \<and> fields_ok f' \<and> line_of f' = line_of f
    \<and> (rc = CF_OK \<longrightarrow> rh_post (rf_out f') \<or> rh_content_length (rf_out f') = 0)"
  using assms by (auto simp: judge_def fields_ok_def text_in_def cstring_def line_of_def Let_def)

lemma collect_total:
  assumes "fields_ok f" shows "\<exists>rc f'. remote_collect room f r au = Some (rc, f') \<and> fields_ok f' \<and> line_of f' = line_of f
    \<and> (rc = CF_OK \<longrightarrow> rh_post (rf_out f') \<or> rh_content_length (rf_out f') = 0)"
proof -
  obtain rc1 f1 p where a: "request_loop f None (rq_headers r) = Some (rc1, f1, p)" "fields_ok f1" "line_of f1 = line_of f"
    using request_loop_total [OF assms] by blast
  obtain rc2 f2 where b: "(case p of Some b \<Rightarrow> if rc1 = CF_OK then packed_fields room f1 b else Some (rc1, f1) | None \<Rightarrow> Some (rc1, f1)) = Some (rc2, f2)"
      "fields_ok f2" "line_of f2 = line_of f"
    using packed_fields_total [OF a(2)] a(2,3) by (cases p; cases "rc1 = CF_OK") fastforce+
  show ?thesis using a(1) b judge_total [OF b(2), of au] by (cases "rc2 = CF_OK") (auto simp: remote_collect_def)
qed

section \<open>What an accepted request says\<close>

text \<open>The values of the headers of one name, in any case of letters, in order.\<close>

definition field_values :: "string \<Rightarrow> hdr list \<Rightarrow> u8 list list" where
  "field_values s hs = map snd (filter (\<lambda>h. name_is (fst h) s) hs)"

definition digits_value :: "u8 list \<Rightarrow> nat" where
  "digits_value v = foldl (\<lambda>n c. n * 10 + (unat c - 48)) 0 v"

text \<open>
  Headers that can be read in one way only: none of the four the monitor uses occurs twice, a length is a decimal number, and
  nothing changes how the body is to be read or tells of a proxy in between.
\<close>

definition unambiguous :: "hdr list \<Rightarrow> bool" where
  "unambiguous hs \<longleftrightarrow> length (field_values ''authorization'' hs) \<le> 1 \<and> length (field_values ''origin'' hs) \<le> 1
     \<and> length (field_values ''content-type'' hs) \<le> 1 \<and> length (field_values ''content-length'' hs) \<le> 1
     \<and> (\<forall>v \<in> set (field_values ''content-length'' hs). v \<noteq> [] \<and> (\<forall>c \<in> set v. ch CHR ''0'' \<le> c \<and> c \<le> ch CHR ''9''))
     \<and> field_values ''transfer-encoding'' hs = [] \<and> set (field_values ''content-encoding'' hs) \<subseteq> {str ''identity''}
     \<and> set (field_values ''cf-cloudflared-proxy-src'' hs) \<subseteq> {[]}"

text \<open>The headers of a request: its own, and those of the one serialised block it may carry.\<close>

definition request_fields :: "cf_h2_request \<Rightarrow> hdr list \<Rightarrow> bool" where
  "request_fields r hs \<longleftrightarrow> (\<exists>own packed. hs = own @ packed \<and> own = filter (\<lambda>h. \<not> name_is (fst h) ''cf-cloudflared-request-headers'') (rq_headers r)
     \<and> (case field_values ''cf-cloudflared-request-headers'' (rq_headers r) of [] \<Rightarrow> packed = []
        | [b] \<Rightarrow> decodes_to b CF_HEADER_COUNT_MAX CF_HEADER_DECODED_MAX packed | _ \<Rightarrow> False))"

text \<open>The state of the parser after the headers \<open>hs\<close>.\<close>

definition collected :: "remote_fields \<Rightarrow> hdr list \<Rightarrow> bool" where
  "collected f hs \<longleftrightarrow> unambiguous hs
     \<and> (rf_seen f AND 1 = 0 \<longleftrightarrow> field_values ''authorization'' hs = []) \<and> (rf_seen f AND 2 = 0 \<longleftrightarrow> field_values ''origin'' hs = [])
     \<and> (rf_seen f AND 4 = 0 \<longleftrightarrow> field_values ''content-type'' hs = []) \<and> (rf_seen f AND 8 = 0 \<longleftrightarrow> field_values ''content-length'' hs = [])
     \<and> cstring (rh_authorization (rf_out f)) = Some (concat (field_values ''authorization'' hs))
     \<and> cstring (rf_origin f) = Some (concat (field_values ''origin'' hs)) \<and> cstring (rf_type f) = Some (concat (field_values ''content-type'' hs))
     \<and> (rh_has_length (rf_out f) \<longleftrightarrow> field_values ''content-length'' hs \<noteq> [])
     \<and> rh_content_length (rf_out f) = digits_value (concat (field_values ''content-length'' hs))"

lemma field_values_simps:
  "field_values s [] = []" "field_values s (xs @ ys) = field_values s xs @ field_values s ys"
  "field_values s [h] = (if name_is (fst h) s then [snd h] else [])"
  by (simp_all add: field_values_def)

lemma name_is_only: "name_is n s \<Longrightarrow> name_is n s' \<longleftrightarrow> str s = str s'"
  by (auto simp: name_is_def)

lemma digits_exact:
  "length_digits v n = Inr k \<Longrightarrow> (\<forall>c \<in> set v. ch CHR ''0'' \<le> c \<and> c \<le> ch CHR ''9'') \<and> k = foldl (\<lambda>n c. n * 10 + (unat c - 48)) n v"
proof (induction v arbitrary: n)
  case (Cons c v)
  then have d: "ch CHR ''0'' \<le> c" "c \<le> ch CHR ''9''" "length_digits v (n * 10 + unat c - 48) = Inr k" by (auto simp: Let_def split: if_splits)
  from d(1) have "48 \<le> unat c" by (simp add: word_le_nat_alt of_char_def)
  then show ?case using Cons.IH [OF d(3)] d(1,2) by simp
qed simp

lemma digits_error: "length_digits v n \<noteq> Inl CF_OK"
  by (induction v arbitrary: n) (simp_all add: Let_def)

lemma field_other:
  assumes "field f (n, v) = Some (CF_OK, f')" "collected f hs" "field_bit n = 0" shows "f' = f \<and> collected f (hs @ [(n, v)])"
proof -
  have "\<not> field_refused n v" "f' = f" using assms(1,3) by (auto simp: field_def Let_def split: if_splits)
  moreover have "\<not> name_is n ''authorization''" "\<not> name_is n ''origin''" "\<not> name_is n ''content-type''" "\<not> name_is n ''content-length''"
    using assms(3) by (auto simp: field_bit_def split: if_splits)
  ultimately show ?thesis using assms(2) by (auto simp: collected_def unambiguous_def field_values_simps field_refused_def)
qed

lemma seen_bits:
  fixes s :: u32
  shows "(s OR 1) AND 1 \<noteq> 0" "(s OR 1) AND 2 = s AND 2" "(s OR 1) AND 4 = s AND 4" "(s OR 1) AND 8 = s AND 8"
    "(s OR 2) AND 1 = s AND 1" "(s OR 2) AND 2 \<noteq> 0" "(s OR 2) AND 4 = s AND 4" "(s OR 2) AND 8 = s AND 8"
    "(s OR 4) AND 1 = s AND 1" "(s OR 4) AND 2 = s AND 2" "(s OR 4) AND 4 \<noteq> 0" "(s OR 4) AND 8 = s AND 8"
    "(s OR 8) AND 1 = s AND 1" "(s OR 8) AND 2 = s AND 2" "(s OR 8) AND 4 = s AND 4" "(s OR 8) AND 8 \<noteq> 0"
  by (simp_all add: bit.conj_disj_distrib2 bit.conj_disj_distrib or_eq_0_iff)

lemma field_collected:
  assumes "field f h = Some (CF_OK, f')" "collected f hs" "fields_ok f" shows "collected f' (hs @ [h])"
proof -
  obtain n v where h: "h = (n, v)" by fastforce
  have t: "text_in 80 (rh_authorization (rf_out f))" "text_in 272 (rf_origin f)" "text_in 64 (rf_type f)" using assms(3) by (auto simp: fields_ok_def)
  consider (other) "field_bit n = 0" | (auth) "name_is n ''authorization''" | (origin) "name_is n ''origin''"
    | (type) "name_is n ''content-type''" | (len) "name_is n ''content-length''" by (metis field_bit_def)
  then show ?thesis
  proof cases
    case other
    then show ?thesis using field_other [of f n v f' hs] assms(1,2) h by auto
  next
    case auth
    note only = name_is_only [OF auth]
    obtain rc m where c: "copy_text v (rh_authorization (rf_out f)) 80 = Some (rc, m)" "rc = CF_OK \<longrightarrow> cstring m = Some v" using copy_text_total [OF t(1)] by blast
    have f: "rf_seen f AND 1 = 0" "cstring m = Some v" "f' = f\<lparr>rf_seen := rf_seen f OR 1, rf_out := (rf_out f)\<lparr>rh_authorization := m\<rparr>\<rparr>"
      using assms(1) c by (auto simp: h field_def field_bit_def only str_def Let_def split: if_splits)
    then show ?thesis using assms(2) by (auto simp: h collected_def unambiguous_def field_values_simps only str_def seen_bits)
  next
    case origin
    note only = name_is_only [OF origin]
    obtain rc m where c: "copy_text v (rf_origin f) 272 = Some (rc, m)" "rc = CF_OK \<longrightarrow> cstring m = Some v" using copy_text_total [OF t(2)] by blast
    have f: "rf_seen f AND 2 = 0" "cstring m = Some v" "f' = f\<lparr>rf_seen := rf_seen f OR 2, rf_origin := m\<rparr>"
      using assms(1) c by (auto simp: h field_def field_bit_def only str_def Let_def split: if_splits)
    then show ?thesis using assms(2) by (auto simp: h collected_def unambiguous_def field_values_simps only str_def seen_bits)
  next
    case type
    note only = name_is_only [OF type]
    obtain rc m where c: "copy_text v (rf_type f) 64 = Some (rc, m)" "rc = CF_OK \<longrightarrow> cstring m = Some v" using copy_text_total [OF t(3)] by blast
    have f: "rf_seen f AND 4 = 0" "cstring m = Some v" "f' = f\<lparr>rf_seen := rf_seen f OR 4, rf_type := m\<rparr>"
      using assms(1) c by (auto simp: h field_def field_bit_def only str_def Let_def split: if_splits)
    then show ?thesis using assms(2) by (auto simp: h collected_def unambiguous_def field_values_simps only str_def seen_bits)
  next
    case len
    note only = name_is_only [OF len]
    obtain k where k: "rf_seen f AND 8 = 0" "v \<noteq> []" "length_digits v 0 = Inr k"
        "f' = f\<lparr>rf_seen := rf_seen f OR 8, rf_out := (rf_out f)\<lparr>rh_has_length := True, rh_content_length := k\<rparr>\<rparr>"
      using assms(1) by (auto simp: h field_def field_bit_def only str_def Let_def digits_error split: if_splits sum.splits)
    then show ?thesis using assms(2) digits_exact [OF k(3)] by (auto simp: h collected_def unambiguous_def field_values_simps digits_value_def only str_def seen_bits)
  qed
qed

lemma fields_loop_collected:
  "fields_loop f hs2 = Some (CF_OK, f') \<Longrightarrow> collected f hs \<Longrightarrow> fields_ok f \<Longrightarrow> collected f' (hs @ hs2)"
proof (induction hs2 arbitrary: f hs)
  case (Cons h hs2)
  obtain rc f1 where f1: "field f h = Some (rc, f1)" "fields_ok f1" using field_total [OF Cons.prems(3)] by blast
  then have "rc = CF_OK" "fields_loop f1 hs2 = Some (CF_OK, f')" using Cons.prems(1) by (auto split: if_splits)
  then show ?case using Cons.IH [of f1 "hs @ [h]"] field_collected [of f h f1 hs] f1 Cons.prems(2,3) by simp
qed simp

lemma request_loop_collected:
  "request_loop f packed hs2 = Some (CF_OK, f', p) \<Longrightarrow> collected f hs \<Longrightarrow> fields_ok f \<Longrightarrow>
    collected f' (hs @ filter (\<lambda>h. \<not> name_is (fst h) ''cf-cloudflared-request-headers'') hs2)
    \<and> case_option [] (\<lambda>b. [b]) p = case_option [] (\<lambda>b. [b]) packed @ field_values ''cf-cloudflared-request-headers'' hs2"
proof (induction hs2 arbitrary: f packed hs)
  case (Cons h hs2)
  show ?case
  proof (cases "name_is (fst h) ''cf-cloudflared-request-headers''")
    case True
    then have "packed = None" "request_loop f (Some (snd h)) hs2 = Some (CF_OK, f', p)" using Cons.prems(1) by (auto split: if_splits)
    then show ?thesis using Cons.IH [OF _ Cons.prems(2,3)] True by (simp add: field_values_def)
  next
    case False
    obtain rc f1 where f1: "field f h = Some (rc, f1)" "fields_ok f1" using field_total [OF Cons.prems(3)] by blast
    then have "rc = CF_OK" "request_loop f1 packed hs2 = Some (CF_OK, f', p)" using Cons.prems(1) False by (auto split: if_splits)
    then show ?thesis using Cons.IH [of f1 packed "hs @ [h]"] field_collected [of f h f1 hs] f1 False Cons.prems(2,3) by (simp add: field_values_def)
  qed
qed (simp add: field_values_def)

lemma packed_fields_collected:
  assumes "packed_fields room f b = Some (CF_OK, f')" "collected f hs" "fields_ok f"
  shows "\<exists>ps. decodes_to b CF_HEADER_COUNT_MAX CF_HEADER_DECODED_MAX ps \<and> collected f' (hs @ ps)"
proof -
  let ?es = "replicate CF_HEADER_COUNT_MAX \<lparr>sname = (0, 0), svalue = (0, 0)\<rparr> :: header_span list"
  let ?a = "replicate CF_HEADER_DECODED_MAX 0 :: mem"
  have room: room using assms(1) by (auto simp: packed_fields_def split: if_splits)
  have nb: "\<not> bytes_bad (Bytes b)" "CF_HEADER_DECODED_MAX \<le> length ?a" "CF_HEADER_COUNT_MAX \<le> length ?es" by simp_all
  show ?thesis using nb
  proof (cases rule: headers_decode_cases [where k = 0])
    case (ok ps)
    then have d: "decodes_to b CF_HEADER_COUNT_MAX CF_HEADER_DECODED_MAX ps" by simp
    have "packed_fields room f b = fields_loop f ps" using packed_fields_ok [OF room d ok(3)] .
    then show ?thesis using fields_loop_collected [of f ps f' hs] assms d by auto
  next
    case (err rc ys zs)
    then show ?thesis using room assms(1) by (auto simp: packed_fields_def)
  qed
qed

lemma collect_meaning:
  assumes "remote_collect room f r au = Some (CF_OK, f')" "collected f []" "fields_ok f"
  shows "\<exists>hs. request_fields r hs \<and> collected f' hs
    \<and> (rh_origin_allowed (rf_out f') \<longleftrightarrow> field_values ''origin'' hs = [] \<or> origin_matches (concat (field_values ''origin'' hs)) au)
    \<and> (rh_json_content (rf_out f') \<longleftrightarrow> json_type (concat (field_values ''content-type'' hs)))"
proof -
  let ?own = "filter (\<lambda>h. \<not> name_is (fst h) ''cf-cloudflared-request-headers'') (rq_headers r)"
  obtain rc1 f1 p where a: "request_loop f None (rq_headers r) = Some (rc1, f1, p)" "fields_ok f1" using request_loop_total [OF assms(3)] by blast
  obtain f2 where b: "(case p of Some b \<Rightarrow> if rc1 = CF_OK then packed_fields room f1 b else Some (rc1, f1) | None \<Rightarrow> Some (rc1, f1)) = Some (CF_OK, f2)"
      "judge f2 au = Some (CF_OK, f')"
    using assms(1) a(1) by (auto simp: remote_collect_def bind_eq_Some_conv split: if_splits)
  then have ok: "rc1 = CF_OK" by (auto split: option.splits if_splits)
  then have c: "collected f1 ?own" "case_option [] (\<lambda>b. [b]) p = field_values ''cf-cloudflared-request-headers'' (rq_headers r)"
    using request_loop_collected [of f None "rq_headers r" f1 p "[]"] a(1) assms(2,3) by auto
  have "\<exists>hs. request_fields r hs \<and> collected f2 hs"
  proof (cases p)
    case None
    then have "request_fields r ?own" using c(2) by (auto simp: request_fields_def dest: sym)
    then show ?thesis using b(1) c(1) None by auto
  next
    case (Some blk)
    then obtain ps where "decodes_to blk CF_HEADER_COUNT_MAX CF_HEADER_DECODED_MAX ps" "collected f2 (?own @ ps)"
      using packed_fields_collected [of room f1 blk f2 ?own] b(1) ok c(1) a(2) by auto
    moreover from this have "request_fields r (?own @ ps)" using c(2) Some unfolding request_fields_def by (metis list.simps(4) list.simps(5) option.simps(5))
    ultimately show ?thesis by blast
  qed
  then obtain hs where hs: "request_fields r hs" "collected f2 hs" by blast
  obtain org ty where j: "cstring (rf_origin f2) = Some org" "cstring (rf_type f2) = Some ty" "rf_seen f2 AND 2 = 0 \<longleftrightarrow> field_values ''origin'' hs = []"
      "org = concat (field_values ''origin'' hs)" "ty = concat (field_values ''content-type'' hs)" using hs(2) by (auto simp: collected_def)
  have f': "f' = f2\<lparr>rf_out := (rf_out f2)\<lparr>rh_origin_allowed := (rf_seen f2 AND 2 = 0 \<or> origin_matches org au), rh_json_content := json_type ty\<rparr>\<rparr>"
    using b(2) by (simp add: judge_def j(1,2) Let_def split: if_splits)
  have "collected f' hs \<and> (rh_origin_allowed (rf_out f') \<longleftrightarrow> field_values ''origin'' hs = [] \<or> origin_matches (concat (field_values ''origin'' hs)) au)
    \<and> (rh_json_content (rf_out f') \<longleftrightarrow> json_type (concat (field_values ''content-type'' hs)))"
    using hs(2) j(3-5) unfolding f' collected_def by simp
  then show ?thesis using hs(1) by blast
qed

lemma fresh_collected:
  "collected \<lparr>rf_seen = 0, rf_origin = replicate 272 0, rf_type = replicate 64 0, rf_out = zero_head\<lparr>rh_post := a, rh_head := b, rh_path := m\<rparr>\<rparr> []"
  by (simp add: collected_def unambiguous_def field_values_def digits_value_def zero_head_def cstring_def del: replicate.simps)

text \<open>For an authority of at most 253 bytes the comparison is never cut off.\<close>

lemma origin_allowed_iff:
  assumes "length au \<le> 253" "collected f hs"
  shows "field_values ''origin'' hs = [] \<or> origin_matches (concat (field_values ''origin'' hs)) au \<longleftrightarrow>
    field_values ''origin'' hs = [] \<or> (let web = str ''https://'' @ takeWhile (\<lambda>c. c \<noteq> 0) au in
      field_values ''origin'' hs = [web] \<or> field_values ''origin'' hs = [web @ str '':443''])"
proof -
  have "length (field_values ''origin'' hs) \<le> 1" using assms(2) by (simp add: collected_def unambiguous_def)
  then obtain w where o: "field_values ''origin'' hs = [] \<or> field_values ''origin'' hs = [w]" by (cases "field_values ''origin'' hs") auto
  have "length (takeWhile (\<lambda>c. c \<noteq> 0) au) \<le> 253" using assms(1) length_takeWhile_le le_trans by blast
  then show ?thesis using o by (auto simp: origin_matches_def Let_def str_def)
qed

section \<open>Properties\<close>

text \<open>
  C10. The request parser returns on every request without leaving one of its arrays. A request it accepts is a GET, HEAD or
  POST with a path that starts with a slash, without its query and shorter than 128 bytes, a credential text shorter than
  80 bytes, a body length of at most 2048 and, unless it is a POST, no body. Its headers, those of its one serialised
  block included, can be read in one way only: no credential, origin, content type or length occurs twice, no header
  changes the coding of the body, and the result holds exactly their values; the origin is allowed when there is none
  or when it is \<open>https://\<close> with the request's authority, alone or with port 443. A request it refuses
  leaves no credential behind.
\<close>

theorem remote_parse_safe:
  "\<exists>rc out. monitor_remote_parse room (Some r) (Some h0) = Some (rc, Some out)
     \<and> (rc = CF_OK \<longrightarrow> cstring (rh_path out) = Some (takeWhile (\<lambda>c. c \<noteq> ch CHR ''?'') (bytes_list (cf_h2_header r (str '':path''))))
          \<and> (\<exists>p. cstring (rh_path out) = Some (ch CHR ''/'' # p) \<and> length p < 127)
          \<and> (\<exists>a. cstring (rh_authorization out) = Some a \<and> length a < 80)
          \<and> rh_content_length out \<le> MONITOR_BODY_MAX \<and> (rh_post out \<or> rh_content_length out = 0)
          \<and> bytes_list (cf_h2_header r (str '':method'')) = (if rh_post out then str ''POST'' else if rh_head out then str ''HEAD'' else str ''GET'')
          \<and> (\<exists>hs. request_fields r hs \<and> unambiguous hs
               \<and> cstring (rh_authorization out) = Some (concat (field_values ''authorization'' hs))
               \<and> (rh_has_length out \<longleftrightarrow> field_values ''content-length'' hs \<noteq> [])
               \<and> rh_content_length out = digits_value (concat (field_values ''content-length'' hs))
               \<and> (rh_json_content out \<longleftrightarrow> json_type (concat (field_values ''content-type'' hs)))
               \<and> (rh_origin_allowed out \<longleftrightarrow> field_values ''origin'' hs = []
                    \<or> (let web = str ''https://'' @ takeWhile (\<lambda>c. c \<noteq> 0) (bytes_list (cf_h2_header r (str '':authority''))) in
                       field_values ''origin'' hs = [web] \<or> field_values ''origin'' hs = [web @ str '':443'']))))
     \<and> (rc \<noteq> CF_OK \<longrightarrow> rh_authorization out = replicate 80 0)"
proof -
  let ?p = "bytes_list (cf_h2_header r (str '':path''))" let ?q = "takeWhile (\<lambda>c. c \<noteq> ch CHR ''?'') ?p"
  let ?au = "bytes_list (cf_h2_header r (str '':authority''))" let ?m = "bytes_list (cf_h2_header r (str '':method''))"
  define out where "out = zero_head\<lparr>rh_post := (?m = str ''POST''), rh_head := (?m = str ''HEAD'')\<rparr>"
  have z: "text_in 128 (rh_path out)" "rh_authorization out = replicate 80 0" "text_in 80 (replicate 80 0)" "text_in 272 (replicate 272 0)" "text_in 64 (replicate 64 0)"
    by (simp_all add: out_def zero_head_def text_in_def del: replicate.simps)
  obtain rc1 m where c: "copy_text ?q (rh_path out) 128 = Some (rc1, m)" "text_in 128 m" "rc1 = CF_OK \<longrightarrow> cstring m = Some ?q"
    using copy_text_total [OF z(1)] by blast
  define f where "f = \<lparr>rf_seen = 0, rf_origin = replicate 272 0, rf_type = replicate 64 0, rf_out = out\<lparr>rh_path := m\<rparr>\<rparr>"
  have f: "fields_ok f" using z by (simp add: fields_ok_def f_def out_def zero_head_def del: replicate.simps)
  obtain rc f' where g: "remote_collect room f r ?au = Some (rc, f')" "fields_ok f'" "line_of f' = line_of f"
      "rc = CF_OK \<longrightarrow> rh_post (rf_out f') \<or> rh_content_length (rf_out f') = 0"
    using collect_total [OF f] by blast
  have fresh: "collected f []" by (simp add: f_def out_def fresh_collected)
  have path: "rh_path (rf_out f') = m" using g(3) by (simp add: line_of_def f_def)
  have txt_len: "\<exists>a. cstring x = Some a \<and> length a < n" if tx: "text_in n x" for n x
  proof -
    obtain y z where x: "x = y @ 0 # z" using tx split_list [of 0 x] unfolding text_in_def by blast
    have "length (takeWhile (\<lambda>c. c \<noteq> 0) x) \<le> length y" unfolding x by (induction y) auto
    then show ?thesis using tx x by (auto simp: text_in_def cstring_def)
  qed
  define good where "good \<longleftrightarrow> (rh_post out \<or> rh_head out \<or> ?m = str ''GET'') \<and> \<not> (?p = [] \<or> hd ?p \<noteq> ch CHR ''/'' \<or> ?au = [] \<or> length ?au > 253)"
  have run: "monitor_remote_parse room (Some r) (Some h0) = (if \<not> good then Some (if rh_post out \<or> rh_head out \<or> ?m = str ''GET'' then CF_ERR_FORMAT else CF_ERR_UNSUPPORTED, Some out)
      else if rc1 \<noteq> CF_OK then Some (rc1, Some (out\<lparr>rh_path := m\<rparr>))
      else Some (rc, Some (if rc = CF_OK then rf_out f' else zero_head)))"
    using c(1) g(1) unfolding f_def out_def good_def monitor_remote_parse_def Let_def
    by (cases "?m = str ''POST'' \<or> ?m = str ''HEAD'' \<or> ?m = str ''GET''"; cases "?p = [] \<or> hd ?p \<noteq> ch CHR ''/'' \<or> ?au = [] \<or> length ?au > 253") (simp_all, blast)
  show ?thesis
  proof (cases "good \<and> rc1 = CF_OK \<and> rc = CF_OK")
    case True
    have q: "?q = ch CHR ''/'' # tl ?q" using True by (cases ?p) (auto simp: good_def of_char_def)
    have cm: "cstring m = Some ?q" using True c(3) by blast
    then have "length (tl ?q) < 127" using txt_len [OF c(2)] by auto
    then have slash: "\<exists>p. cstring (rh_path (rf_out f')) = Some (ch CHR ''/'' # p) \<and> length p < 127" using q cm path by metis
    have "length ?au \<le> 253" using True by (simp add: good_def)
    then obtain hs where hs: "request_fields r hs" "collected f' hs" "rh_json_content (rf_out f') \<longleftrightarrow> json_type (concat (field_values ''content-type'' hs))"
        "rh_origin_allowed (rf_out f') \<longleftrightarrow> field_values ''origin'' hs = [] \<or> (let web = str ''https://'' @ takeWhile (\<lambda>c. c \<noteq> 0) ?au in
           field_values ''origin'' hs = [web] \<or> field_values ''origin'' hs = [web @ str '':443''])"
      using collect_meaning [OF _ fresh f, of room r ?au f'] g(1) True origin_allowed_iff by blast
    have met: "?m = (if rh_post (rf_out f') then str ''POST'' else if rh_head (rf_out f') then str ''HEAD'' else str ''GET'')"
      using g(3) True by (auto simp: line_of_def f_def out_def good_def)
    have col: "unambiguous hs" "cstring (rh_authorization (rf_out f')) = Some (concat (field_values ''authorization'' hs))"
        "rh_has_length (rf_out f') \<longleftrightarrow> field_values ''content-length'' hs \<noteq> []"
        "rh_content_length (rf_out f') = digits_value (concat (field_values ''content-length'' hs))" using hs(2) by (simp_all add: collected_def)
    have fin: "rh_content_length (rf_out f') \<le> MONITOR_BODY_MAX" "rh_post (rf_out f') \<or> rh_content_length (rf_out f') = 0"
        "\<exists>a. cstring (rh_authorization (rf_out f')) = Some a \<and> length a < 80" "cstring (rh_path (rf_out f')) = Some ?q"
      using g(2,4) True txt_len [of 80] cm path by (simp_all add: fields_ok_def)
    have ok: "monitor_remote_parse room (Some r) (Some h0) = Some (CF_OK, Some (rf_out f'))" using run True by simp
    have tail: "\<exists>hs. request_fields r hs \<and> unambiguous hs \<and> cstring (rh_authorization (rf_out f')) = Some (concat (field_values ''authorization'' hs))
        \<and> (rh_has_length (rf_out f') \<longleftrightarrow> field_values ''content-length'' hs \<noteq> []) \<and> rh_content_length (rf_out f') = digits_value (concat (field_values ''content-length'' hs))
        \<and> (rh_json_content (rf_out f') \<longleftrightarrow> json_type (concat (field_values ''content-type'' hs)))
        \<and> (rh_origin_allowed (rf_out f') \<longleftrightarrow> field_values ''origin'' hs = [] \<or> (let web = str ''https://'' @ takeWhile (\<lambda>c. c \<noteq> 0) ?au in
             field_values ''origin'' hs = [web] \<or> field_values ''origin'' hs = [web @ str '':443'']))"
      by (intro exI [of _ hs] conjI) (rule hs(1,3,4) col)+
    show ?thesis
      by (intro exI [of _ CF_OK] exI [of _ "rf_out f'"] conjI impI) (rule ok fin slash met tail | simp)+
  qed (use run z(2) in \<open>auto simp: zero_head_def\<close>)
qed

definition sample_get :: cf_h2_request where
  "sample_get = \<lparr>rq_stream = 1, rq_kind = CF_H2_HTTP, rq_headers = [(str '':method'', str ''GET''), (str '':path'', str ''/a?b''),
     (str '':authority'', str ''x.y''), (str ''Origin'', str ''https://x.y'')], rq_end_stream = True\<rparr>"

theorem remote_parse_safe_witness:
  "\<exists>out. monitor_remote_parse True (Some sample_get) (Some zero_head) = Some (CF_OK, Some out) \<and> cstring (rh_path out) = Some (str ''/a'')
     \<and> (rh_post out \<or> rh_content_length out = 0)"
proof -
  have ok: "map_option fst (monitor_remote_parse True (Some sample_get) (Some zero_head)) = Some CF_OK" by code_simp
  have q: "takeWhile (\<lambda>c. c \<noteq> ch CHR ''?'') (bytes_list (cf_h2_header sample_get (str '':path''))) = str ''/a''" by code_simp
  from remote_parse_safe [of True sample_get zero_head] ok show ?thesis unfolding q by auto
qed

end
