(* ===== verification/Mon_Api.thy ===== *)
theory Mon_Api
  imports Mon_Ota Mon_Board Mon_Network Mon_Remote CF_Task
begin

text \<open>
  The JSON interface of the system monitor, \<^verbatim>\<open>examples/system_monitor/main/monitor_api.c\<close>: sessions, the requests that read the
  device's state and those that change it. The rest of the device is the state of the other theories; what the platform answers
  during a request is an argument.
\<close>

section \<open>Data\<close>

definition MONITOR_REPLY_MAX :: nat where "MONITOR_REPLY_MAX = 6144"

definition MONITOR_EFFECT_WIFI :: u32 where "MONITOR_EFFECT_WIFI = 1"
definition MONITOR_EFFECT_TUNNEL :: u32 where "MONITOR_EFFECT_TUNNEL = 2"
definition MONITOR_EFFECT_REBOOT :: u32 where "MONITOR_EFFECT_REBOOT = 4"
definition MONITOR_EFFECT_TUNNEL_RESTART :: u32 where "MONITOR_EFFECT_TUNNEL_RESTART = 8"

record monitor_api_request =
  aq_path :: "u8 list"
  aq_authorization :: "u8 list option"
  aq_body :: cf_bytes
  aq_post :: bool
  aq_json_content :: bool
  aq_origin_allowed :: bool
  aq_setup_access :: bool
  aq_remote_access :: bool

record monitor_api_reply =
  ar_status :: nat
  ar_effects :: u32
  ar_length :: nat
  ar_body :: mem

definition new_reply :: monitor_api_reply where
  "new_reply = \<lparr>ar_status = 0, ar_effects = 0, ar_length = 0, ar_body = replicate MONITOR_REPLY_MAX 0\<rparr>"

text \<open>The static variables of the file, and the state of the modules it calls. The settings in flash have the type \<open>'w\<close>.\<close>

record 'w device =
  dv_session :: mem
  dv_session_until :: u64
  dv_failure_window :: u64
  dv_failures :: u32
  dv_pending_effects :: u32
  dv_effects_after :: u64
  dv_heap :: json_heap
  dv_ota :: ota_upload
  dv_pins :: "monitor_gpio list"
  dv_gpio_calls :: "gpio_call list"
  dv_led :: bool
  dv_rgb :: monitor_rgb
  dv_network :: network
  dv_nvs :: 'w

text \<open>The figures of the platform that the status reports.\<close>

record telemetry =
  tm_revision :: int
  tm_cores :: int
  tm_cpu_mhz :: int
  tm_heap_free :: int
  tm_heap_min :: int
  tm_heap_largest :: int
  tm_psram_total :: int
  tm_psram_free :: int
  tm_flash :: int
  tm_tasks :: int
  tm_reset_reason :: int
  tm_sensor :: "cj_double option option"
  tm_time :: int
  tm_station :: "(int \<times> nat) option"
  tm_clients :: "nat option"
  tm_tunnel :: esp_cf_tunnel_snapshot

text \<open>
  What the platform answers during one request: the clock, 32 random bytes, the storage, cJSON's parser and printer (success and the bytes
  written to a buffer of a size), whether all allocations for the answer's tree and the one of a settings object succeed, the update and pin
  functions, the light, and \<open>mbedtls_base64_decode\<close> into a buffer of a size.
\<close>

record 'w api_env =
  ae_now :: u64
  ae_random :: "u8 list"
  ae_nvs :: "'w nvs_ops"
  ae_parser :: cjson_parser
  ae_print :: "cJSON \<Rightarrow> nat \<Rightarrow> bool \<times> u8 list"
  ae_tree :: bool
  ae_calloc :: bool
  ae_ota :: ota_platform
  ae_gpio :: gpio_driver
  ae_pixel :: bool
  ae_refresh :: bool
  ae_base64 :: "u8 list \<Rightarrow> nat \<Rightarrow> u8 list option"
  ae_telemetry :: telemetry

section \<open>Replies\<close>

text \<open>\<open>{"error":"..."}\<close> and \<open>{"ok":true}\<close>\<close>

definition error_text :: "u8 list \<Rightarrow> u8 list" where
  "error_text why = [ch CHR ''{'', 34] @ str ''error'' @ [34, ch CHR '':'', 34] @ why @ [34, ch CHR ''}'']"

definition ok_text :: "u8 list" where
  "ok_text = [ch CHR ''{'', 34] @ str ''ok'' @ [34] @ str '':true}''"

definition api_error :: "nat \<Rightarrow> u8 list \<Rightarrow> monitor_api_reply \<Rightarrow> monitor_api_reply option" where
  "api_error status why r = do {
     let t = error_text why;
     body \<leftarrow> store_n (ar_body r) 0 (take (MONITOR_REPLY_MAX - 1) t @ [0]);
     Some (r\<lparr>ar_status := status, ar_body := body, ar_length := (if length t < MONITOR_REPLY_MAX then length t else 0)\<rparr>)
   }"

definition api_ok :: "monitor_api_reply \<Rightarrow> monitor_api_reply option" where
  "api_ok r = do {
     body \<leftarrow> store_n (ar_body r) 0 (ok_text @ [0]);
     Some (r\<lparr>ar_status := 200, ar_body := body, ar_length := length ok_text\<rparr>)
   }"

text \<open>\<open>None\<close> is a tree that could not be built.\<close>

definition send_json :: "'w api_env \<Rightarrow> cJSON option \<Rightarrow> monitor_api_reply \<Rightarrow> monitor_api_reply option" where
  "send_json e jp r = (case jp of
     None \<Rightarrow> api_error 503 (str ''Not enough memory for this response.'') r
   | Some j \<Rightarrow>
       if \<not> ae_tree e then api_error 503 (str ''Not enough memory for this response.'') r
       else do {
         let (good, written) = ae_print e j (length (ar_body r));
         body \<leftarrow> store_n (ar_body r) 0 written;
         let r = r\<lparr>ar_body := body\<rparr>;
         if \<not> good then api_error 503 (str ''Not enough memory for this response.'') r
         else do { t \<leftarrow> cstring body; Some (r\<lparr>ar_status := 200, ar_length := length t\<rparr>) }
       })"

section \<open>Sessions\<close>

fun secret_loop :: "u8 list \<Rightarrow> u8 list \<Rightarrow> nat \<Rightarrow> nat \<Rightarrow> u32 \<Rightarrow> u32" where
  "secret_loop a b i 0 diff = diff"
| "secret_loop a b i (Suc n) diff = secret_loop a b (i + 1) n (or diff (ucast (xor (if i < length a then a ! i else 0) (if i < length b then b ! i else 0))))"

definition equal_secret :: "u8 list \<Rightarrow> u8 list \<Rightarrow> nat \<Rightarrow> bool" where
  "equal_secret a b m \<longleftrightarrow> secret_loop a b 0 m (word_of_nat (xor (length a) (length b))) = 0"

definition authorized :: "'w api_env \<Rightarrow> monitor_api_request \<Rightarrow> 'w device \<Rightarrow> bool option" where
  "authorized e q d =
     (if \<not> aq_origin_allowed q then Some False
      else do {
        c \<leftarrow> load (dv_session d) 0;
        if c = 0 \<or> \<not> ae_now e < dv_session_until d then Some False
        else (case aq_authorization q of None \<Rightarrow> Some False | Some auth \<Rightarrow>
          if take 7 auth \<noteq> str ''Bearer '' then Some False
          else do { s \<leftarrow> cstring (dv_session d); Some (equal_secret (drop 7 auth) s 64) })
      })"

definition body :: "'w api_env \<Rightarrow> monitor_api_request \<Rightarrow> 'w device \<Rightarrow> (cJSON option \<times> 'w device) option" where
  "body e q d =
     (if aq_json_content q \<and> bytes_len (aq_body q) \<noteq> 0 \<and> bytes_len (aq_body q) \<le> MONITOR_BODY_MAX
      then do { (j, h) \<leftarrow> cf_json_parse (ae_parser e) (aq_body q) (dv_heap d); Some (j, d\<lparr>dv_heap := h\<rparr>) }
      else Some (None, d))"

definition json_string :: "cJSON option \<Rightarrow> string \<Rightarrow> u8 list option" where
  "json_string j key = (let v = cf_cJSON_GetObjectItemCaseSensitive j (str key) in
     case v of Some x \<Rightarrow> if cf_cJSON_Is CJ_String v then cj_valuestring x else None | None \<Rightarrow> None)"

text \<open>The members of an answer. A number beyond \<open>2 ^ 53\<close> would be rounded; none of the counters gets there.\<close>

definition json_s :: "string \<Rightarrow> u8 list \<Rightarrow> cJSON" where
  "json_s k v = CJ CJ_String (Some (str k)) (Some v) (Finite 0 0) []"

definition json_n :: "string \<Rightarrow> int \<Rightarrow> cJSON" where
  "json_n k v = CJ CJ_Number (Some (str k)) None (Finite v 0) []"

definition json_b :: "string \<Rightarrow> bool \<Rightarrow> cJSON" where
  "json_b k v = CJ (if v then CJ_True else CJ_False) (Some (str k)) None (Finite 0 0) []"

definition json_o :: "string option \<Rightarrow> cJSON list \<Rightarrow> cJSON" where
  "json_o k kids = CJ CJ_Object (map_option str k) None (Finite 0 0) kids"

definition json_a :: "string \<Rightarrow> cJSON list \<Rightarrow> cJSON" where
  "json_a k kids = CJ CJ_Array (Some (str k)) None (Finite 0 0) kids"

text \<open>cJSON's \<open>valueint\<close> of a number: the double cut to the range of an \<open>int\<close>; and the check that the number is that integer.\<close>

definition cj_valueint :: "cj_double \<Rightarrow> int" where
  "cj_valueint v = (case v of
     Finite m k \<Rightarrow> if m \<ge> 2147483647 * 2 ^ k then 2147483647 else if m \<le> - 2147483648 * 2 ^ k then - 2147483648
       else if m < 0 then - (- m div 2 ^ k) else m div 2 ^ k
   | Infinite \<Rightarrow> 2147483647 | _ \<Rightarrow> - 2147483648)"

definition is_int :: "cJSON option \<Rightarrow> bool" where
  "is_int item = (case item of None \<Rightarrow> False | Some x \<Rightarrow> cf_cJSON_Is CJ_Number item
     \<and> (case cj_valuedouble x of Finite m k \<Rightarrow> m = cj_valueint (Finite m k) * 2 ^ k | _ \<Rightarrow> False))"

definition valueint :: "cJSON option \<Rightarrow> int" where
  "valueint item = (case item of None \<Rightarrow> 0 | Some x \<Rightarrow> cj_valueint (cj_valuedouble x))"

definition json_bool :: "cJSON option \<Rightarrow> bool" where
  "json_bool item \<longleftrightarrow> cf_cJSON_Is CJ_True item \<or> cf_cJSON_Is CJ_False item"


section \<open>The status\<close>

definition connect_status :: "string \<Rightarrow> esp_cf_connect_diagnostic \<Rightarrow> cJSON" where
  "connect_status key g = json_o (Some key) (json_b ''valid'' (dg_valid g) # (if \<not> dg_valid g then [] else
     [json_s ''stage'' (str (esp_cf_connect_stage_name (dg_stage g))), json_b ''errors_available'' (dg_errors_available g),
      json_n ''rc'' (dg_rc g), json_n ''state_before'' (dg_state_before g), json_n ''state_after'' (dg_state_after g),
      json_n ''esp_error'' (dg_esp_error g), json_n ''tls_error'' (dg_tls_error g), json_n ''verify_flags'' (dg_verify_flags g),
      json_n ''system_error'' (dg_system_error g), json_n ''errno_context'' (dg_errno_context g),
      json_n ''tls_alert'' (dg_tls_alert g), json_n ''tls_version'' (dg_tls_version g),
      json_n ''elapsed_ms'' (uint (dg_elapsed_ms g)), json_n ''at_ms'' (uint (dg_at_ms g)), json_n ''utc_s'' (dg_utc_s g),
      json_n ''attempt'' (uint (dg_attempt g)), json_s ''edge_ip'' (dg_edge_ip g), json_n ''edge_port'' (uint (dg_edge_port g)),
      json_n ''heap_free'' (uint (dg_heap_free g)), json_n ''heap_largest'' (uint (dg_heap_largest g))]))"

text \<open>The members in groups, in the order of the source.\<close>

definition board_members :: "u64 \<Rightarrow> telemetry \<Rightarrow> cJSON list" where
  "board_members now t =
     [json_s ''version'' (str ''0.4.0-dev''), json_s ''chip'' (str ''ESP32-S3''), json_n ''revision'' (tm_revision t), json_n ''cores'' (tm_cores t),
      json_n ''cpu_mhz'' (tm_cpu_mhz t), json_n ''uptime_ms'' (uint now),
      json_n ''heap_free'' (tm_heap_free t), json_n ''heap_min'' (tm_heap_min t), json_n ''heap_largest'' (tm_heap_largest t),
      json_n ''psram_total'' (tm_psram_total t), json_n ''psram_free'' (tm_psram_free t),
      json_n ''flash_bytes'' (tm_flash t), json_n ''tasks'' (tm_tasks t), json_n ''reset_reason'' (tm_reset_reason t),
      (case monitor_temperature (tm_sensor t) of
         (Finite m k, True) \<Rightarrow> CJ CJ_Number (Some (str ''temperature_c'')) None (Finite m k) []
       | _ \<Rightarrow> CJ CJ_Null (Some (str ''temperature_c'')) None (Finite 0 0) [])]"

definition network_members :: "u64 \<Rightarrow> bool \<Rightarrow> bool \<Rightarrow> bool \<Rightarrow> telemetry \<Rightarrow> monitor_network_snapshot \<Rightarrow> u8 list \<Rightarrow> cJSON list" where
  "network_members now setup admin remote t net ssid =
     [json_b ''wifi_connected'' (nt_connected net), json_b ''wifi_connecting'' (nt_connecting net), json_s ''ssid'' ssid,
      json_b ''wifi_associated'' (nt_associated net),
      json_s ''ip'' (nt_ip net), json_s ''gateway'' (nt_gateway net), json_n ''rssi'' (nt_rssi net), json_n ''channel'' (int (nt_channel net)),
      json_n ''retries'' (uint (nt_retries net)), json_n ''disconnect_reason'' (int (nt_disconnect_reason net)),
      json_b ''ap_enabled'' (nt_ap_enabled net), json_s ''ap_ssid'' (nt_ap_ssid net), json_s ''ap_ip'' (str ''192.168.4.1''),
      json_n ''ap_clients'' (int (nt_ap_clients net)),
      json_n ''ap_remaining_s'' (if nt_ap_deadline_ms net > now then uint ((nt_ap_deadline_ms net - now) div 1000) else 0),
      json_b ''setup_access'' setup, json_b ''admin_access'' admin, json_b ''remote_access'' remote,
      json_b ''clock_valid'' (tm_time t > 1704067200), json_s ''internet'' (str ''Not checked''),
      json_n ''utc_s'' (tm_time t), json_n ''sntp_sync_count'' (uint (nt_sntp_sync_count net)),
      json_n ''sntp_last_sync_utc'' (nt_sntp_last_sync_utc net)]"

definition tunnel_members :: "u64 \<Rightarrow> esp_cf_tunnel_snapshot \<Rightarrow> cJSON list" where
  "tunnel_members now c =
     (let h2 = (\<lambda>f. case sn_http2 c of Some st \<Rightarrow> f st | None \<Rightarrow> 0) in
     [json_s ''tunnel_state'' (str (esp_cf_tunnel_state_name (sn_state c))),
      json_s ''tunnel_message'' (sn_message c), json_s ''edge_ip'' (sn_edge_ip c), json_s ''edge_location'' (sn_location c),
      json_b ''tunnel_registered'' (sn_registered c), json_b ''tunnel_configured'' (sn_configured c),
      json_n ''config_version'' (sn_config_version c), json_n ''tunnel_attempts'' (uint (sn_attempts c)),
      json_n ''tunnel_retry_s'' (if sn_retry_at_ms c > now then uint ((sn_retry_at_ms c - now + 999) div 1000) else 0),
      json_n ''tunnel_h2_heap'' (h2 (\<lambda>st. int (ngheap_current st))), json_n ''tunnel_h2_peak'' (h2 (\<lambda>st. int (ngheap_peak st))),
      json_n ''tunnel_streams'' (h2 (\<lambda>st. uint (active_streams st))), json_n ''tunnel_stack_min'' (uint (sn_task_stack_min c)),
      json_s ''tunnel_last_failure'' (sn_last_failure c), json_n ''tunnel_failures'' (uint (sn_failures c)),
      json_n ''tunnel_last_failure_ms'' (uint (sn_last_failure_ms c)), json_n ''tunnel_rejected_streams'' (h2 (\<lambda>st. uint (rejected_streams st))),
      connect_status ''tunnel_connect'' (sn_last_connect c),
      connect_status ''tunnel_connect_failure'' (sn_last_connect_failure c)])"

definition ota_members :: "monitor_ota_status \<Rightarrow> cJSON list" where
  "ota_members u = [json_b ''available'' (os_available u), json_b ''active'' (os_active u), json_b ''ready'' (os_ready u),
     json_n ''received'' (int (os_received u)), json_n ''total'' (int (os_total u)), json_n ''capacity'' (int (os_capacity u)),
     json_s ''running'' (os_running u), json_s ''target'' (os_target u), json_s ''version'' (os_version u), json_s ''message'' (os_message u)]"

definition gpio_member :: "monitor_gpio \<Rightarrow> cJSON" where
  "gpio_member p = json_o None [json_n ''pin'' (gp_pin p), json_n ''mode'' (gp_mode p), json_n ''level'' (gp_level p)]"

definition rgb_members :: "monitor_rgb \<Rightarrow> cJSON list" where
  "rgb_members c = [json_b ''available'' (rgb_available c), json_b ''on'' (rgb_on c), json_n ''pin'' 48, json_n ''red'' (int (rgb_red c)),
     json_n ''green'' (int (rgb_green c)), json_n ''blue'' (int (rgb_blue c)), json_n ''brightness'' (int (rgb_brightness c))]"

definition status_object :: "'w api_env \<Rightarrow> bool \<Rightarrow> bool \<Rightarrow> bool \<Rightarrow> 'w device \<Rightarrow> cJSON option option" where
  "status_object e setup admin remote d =
     (let t = ae_telemetry e; net = monitor_network_snapshot_get (tm_station t) (tm_clients t) (dv_network d) in
      if \<not> ae_calloc e then Some None
      else do {
        (_, c) \<leftarrow> monitor_store_tunnel (ae_nvs e) (dv_nvs d);
        ssid \<leftarrow> cstring (nt_ssid net);
        first \<leftarrow> load (mc_token c) 0;
        hostname \<leftarrow> cstring (mc_hostname c);
        Some (Some (json_o None (board_members (ae_now e) t @ network_members (ae_now e) setup admin remote t net ssid
          @ tunnel_members (ae_now e) (tm_tunnel t)
          @ [json_o (Some ''ota'') (ota_members (monitor_ota_snapshot (ae_ota e) (dv_ota d))),
             json_b ''token_stored'' (first \<noteq> 0), json_s ''hostname'' hostname,
             json_a ''gpio'' (map gpio_member (monitor_io_snapshot (gd_read (ae_gpio e)) (dv_pins d))),
             json_o (Some ''rgb'') (rgb_members (dv_rgb d))])))
      })"

section \<open>Requests\<close>

text \<open>A request's answer and the device after it.\<close>

type_synonym 'w answered = "(monitor_api_reply \<times> 'w device) option"

definition refuse :: "nat \<Rightarrow> string \<Rightarrow> monitor_api_reply \<Rightarrow> 'w device \<Rightarrow> 'w answered" where
  "refuse status why r d = map_option (\<lambda>r. (r, d)) (api_error status (str why) r)"

definition accept :: "monitor_api_reply \<Rightarrow> 'w device \<Rightarrow> 'w answered" where
  "accept r d = map_option (\<lambda>r. (r, d)) (api_ok r)"

definition status_get :: "'w api_env \<Rightarrow> monitor_api_request \<Rightarrow> monitor_api_reply \<Rightarrow> 'w device \<Rightarrow> 'w answered" where
  "status_get e q r d = do {
     j \<leftarrow> status_object e (aq_setup_access q) (aq_origin_allowed q) (aq_remote_access q) d;
     r \<leftarrow> send_json e j r;
     Some (r, d)
   }"

text \<open>The check of a password, with the device's JSON allocator.\<close>

definition login_valid :: "'w api_env \<Rightarrow> monitor_api_request \<Rightarrow> 'w device \<Rightarrow> (bool \<times> 'w device) option" where
  "login_valid e q d = do {
     (j, d) \<leftarrow> body e q d;
     (case json_string j ''password'' of
        None \<Rightarrow> Some (False, d)
      | Some password \<Rightarrow>
          if j = None \<or> \<not> cf_json_keys j [str ''password''] \<or> length password > 63 then Some (False, d)
          else do {
            (rc, expected) \<leftarrow> monitor_store_password (ae_nvs e) (Some (replicate 64 0)) 64 (dv_nvs d);
            if rc \<noteq> STORE_OK then Some (False, d)
            else do { m \<leftarrow> expected; s \<leftarrow> cstring m; Some (equal_secret password s 63, d) }
          })
   }"

definition login_window :: "u64 \<Rightarrow> 'w device \<Rightarrow> 'w device" where
  "login_window now d = (if now - dv_failure_window d \<ge> 60000 then d\<lparr>dv_failures := 0, dv_failure_window := now\<rparr> else d)"

definition login_post :: "'w api_env \<Rightarrow> monitor_api_request \<Rightarrow> monitor_api_reply \<Rightarrow> 'w device \<Rightarrow> 'w answered" where
  "login_post e q r d =
     (if \<not> aq_origin_allowed q then refuse 403 ''The request origin does not match this device.'' r d
      else let d = login_window (ae_now e) d in
      if dv_failures d \<ge> 5 then refuse 429 ''Too many attempts. Try again in one minute.'' r d
      else do {
        (valid, d) \<leftarrow> login_valid e q (d\<lparr>dv_failures := dv_failures d + 1\<rparr>);
        if \<not> valid then refuse 401 ''Incorrect device password or invalid request.'' r d
        else do {
          session \<leftarrow> store_n (dv_session d) 0 (hex_text (ae_random e) @ [0]);
          let d = d\<lparr>dv_session := session, dv_session_until := ae_now e + 600000, dv_failures := 0\<rparr>;
          s \<leftarrow> cstring session;
          r \<leftarrow> send_json e (Some (json_o None [json_s ''session'' s, json_n ''expires_in'' 600])) r;
          Some (r, d)
        }
      })"

definition wifi_keys :: "u8 list list" where "wifi_keys = [str ''ssid'', str ''password'', str ''open'']"

text \<open>The password to store for a secured network: an empty one keeps the stored one of the same network.\<close>

definition wifi_password :: "u8 list \<Rightarrow> u8 list \<Rightarrow> monitor_wifi_config \<Rightarrow> mem option" where
  "wifi_password ssid pass saved = do {
     known \<leftarrow> cstring (wc_ssid saved);
     if pass = [] \<and> known = ssid \<and> wc_open saved = 0 then Some (wc_password saved) else store_n (replicate 64 0) 0 pass
   }"

definition wifi_post :: "'w api_env \<Rightarrow> cJSON option \<Rightarrow> monitor_api_reply \<Rightarrow> 'w device \<Rightarrow> 'w answered" where
  "wifi_post e j r d =
     (let bad = refuse 400 ''Use a network name of 1-32 bytes and a password of up to 63 bytes.'' r d;
          open = cf_cJSON_GetObjectItemCaseSensitive j (str ''open'') in
      case (json_string j ''ssid'', json_string j ''password'') of
        (Some ssid, Some pass) \<Rightarrow>
          if \<not> cf_json_keys j wifi_keys \<or> ssid = [] \<or> length ssid > 32 \<or> length pass > 63 \<or> \<not> json_bool open then bad
          else do {
            (_, saved) \<leftarrow> monitor_store_wifi (ae_nvs e) (dv_nvs d);
            name \<leftarrow> store_n (replicate 33 0) 0 ssid;
            let is_open = cf_cJSON_Is CJ_True open;
            password \<leftarrow> (if is_open then Some (replicate 64 0) else wifi_password ssid pass saved);
            p \<leftarrow> cstring password;
            if \<not> is_open \<and> length p < 8 then refuse 400 ''A secured network requires a password of 8-63 bytes.'' r d
            else
              let (rc, w) = monitor_save_wifi (ae_nvs e) \<lparr>wc_ssid = name, wc_password = password, wc_open = (if is_open then 1 else 0)\<rparr> (dv_nvs d);
                  d = d\<lparr>dv_nvs := w\<rparr> in
              if rc \<noteq> STORE_OK then refuse 500 ''Unable to save Wi-Fi settings.'' r d
              else accept (r\<lparr>ar_effects := or (ar_effects r) MONITOR_EFFECT_WIFI\<rparr>) d
          }
      | _ \<Rightarrow> bad)"


definition host_letter :: "u8 \<Rightarrow> bool" where
  "host_letter c \<longleftrightarrow> (c \<ge> ch CHR ''a'' \<and> c \<le> ch CHR ''z'') \<or> (c \<ge> ch CHR ''A'' \<and> c \<le> ch CHR ''Z'') \<or> (c \<ge> ch CHR ''0'' \<and> c \<le> ch CHR ''9'') \<or> c = ch CHR ''-''"

text \<open>The loop over the name from position \<open>i\<close> with the length of the current label; on the right the length of the last label.\<close>

fun host_loop :: "u8 list \<Rightarrow> nat \<Rightarrow> nat \<Rightarrow> nat \<Rightarrow> nat option option" where
  "host_loop name i 0 label = Some (Some label)"
| "host_loop name i (Suc n) label = do {
     c \<leftarrow> load name i;
     if c = ch CHR ''.'' then
       if label = 0 then Some None
       else do { prev \<leftarrow> load name (i - 1); if prev = ch CHR ''-'' then Some None else host_loop name (i + 1) n 0 }
     else if \<not> host_letter c \<or> (label = 0 \<and> c = ch CHR ''-'') \<or> label + 1 > 63 then Some None
     else host_loop name (i + 1) n (label + 1)
   }"

definition monitor_hostname_valid :: "u8 list \<Rightarrow> bool option" where
  "monitor_hostname_valid name =
     (if length name = 0 then Some True
      else if length name > 253 then Some False
      else do {
        lst \<leftarrow> load name (length name - 1);
        if lst = ch CHR ''.'' then Some False
        else do { r \<leftarrow> host_loop name 0 (length name) 0; Some (case r of None \<Rightarrow> False | Some label \<Rightarrow> label \<noteq> 0 \<and> lst \<noteq> ch CHR ''-'') }
      })"

definition tunnel_keys :: "u8 list list" where "tunnel_keys = [str ''token'', str ''hostname'', str ''clear'']"

text \<open>The settings are stored, with the token replaced, erased or kept.\<close>

definition tunnel_save :: "'w api_env \<Rightarrow> u8 list \<Rightarrow> u8 list \<Rightarrow> bool \<Rightarrow> monitor_api_reply \<Rightarrow> 'w device \<Rightarrow> 'w answered" where
  "tunnel_save e token host clear r d =
     (if \<not> ae_calloc e then refuse 503 ''Not enough memory.'' r d
      else do {
        (_, saved) \<leftarrow> monitor_store_tunnel (ae_nvs e) (dv_nvs d);
        t \<leftarrow> (if clear then Some (replicate (CF_TOKEN_MAX + 1) 0)
              else if token \<noteq> [] then store_n (replicate (CF_TOKEN_MAX + 1) 0) 0 token else Some (mc_token saved));
        h \<leftarrow> store_n (replicate 254 0) 0 host;
        let (rc, w) = monitor_save_tunnel (ae_nvs e) \<lparr>mc_token = t, mc_hostname = h\<rparr> (dv_nvs d);
        let d = d\<lparr>dv_nvs := w\<rparr>;
        if rc = STORE_OK then accept (r\<lparr>ar_effects := or (ar_effects r) MONITOR_EFFECT_TUNNEL\<rparr>) d
        else refuse 500 ''Unable to save tunnel settings.'' r d
      })"

definition tunnel_post :: "'w api_env \<Rightarrow> cJSON option \<Rightarrow> monitor_api_reply \<Rightarrow> 'w device \<Rightarrow> 'w answered" where
  "tunnel_post e j r d =
     (let bad = refuse 400 ''Use a valid hostname and either a tunnel token or Clear stored token.'' r d;
          clear = cf_cJSON_GetObjectItemCaseSensitive j (str ''clear'') in
      case (json_string j ''token'', json_string j ''hostname'') of
        (Some token, Some host) \<Rightarrow>
          if \<not> cf_json_keys j tunnel_keys \<or> \<not> json_bool clear \<or> length token > CF_TOKEN_MAX then bad
          else do {
            named \<leftarrow> monitor_hostname_valid host;
            if \<not> named \<or> (cf_cJSON_Is CJ_True clear \<and> token \<noteq> []) then bad
            else if token \<noteq> [] then do {
              (rc, _, _, diagnostic, h) \<leftarrow> cf_credentials_parse_ex (ae_parser e) (Bytes token) (Some (replicate (CF_TOKEN_JSON_MAX + 1) 0)) (CF_TOKEN_JSON_MAX + 1)
                (Some zero_credentials) (Some CF_TOKEN_FIELDS) (dv_heap d);
              let d = d\<lparr>dv_heap := h\<rparr>;
              if rc \<noteq> CF_OK then do { why \<leftarrow> diagnostic; refuse (if rc = CF_ERR_MEMORY then 503 else 400) (cf_token_diagnostic_message why) r d }
              else tunnel_save e token host (cf_cJSON_Is CJ_True clear) r d
            }
            else tunnel_save e token host (cf_cJSON_Is CJ_True clear) r d
          }
      | _ \<Rightarrow> bad)"

definition gpio_post :: "'w api_env \<Rightarrow> cJSON option \<Rightarrow> monitor_api_reply \<Rightarrow> 'w device \<Rightarrow> 'w answered" where
  "gpio_post e j r d =
     (let item = (\<lambda>k. cf_cJSON_GetObjectItemCaseSensitive j (str k));
          bad = refuse 400 ''Allowed pins: 4, 5, 6, 7. Mode: 0 disabled, 1 input, 2 output. Value: 0 or 1.'' r in
      if \<not> cf_json_keys j [str ''pin'', str ''mode'', str ''value''] \<or> \<not> is_int (item ''pin'') \<or> \<not> is_int (item ''mode'') \<or> \<not> is_int (item ''value'') then bad d
      else let (good, calls, pins) = monitor_io_set (ae_gpio e) (valueint (item ''pin'')) (valueint (item ''mode'')) (valueint (item ''value'')) (dv_pins d);
               d = d\<lparr>dv_pins := pins, dv_gpio_calls := dv_gpio_calls d @ calls\<rparr> in
      if \<not> good then bad d else accept r d)"

text \<open>The end of every update request: the answer with the progress.\<close>

definition ota_answer :: "'w api_env \<Rightarrow> bool \<Rightarrow> mem option \<Rightarrow> monitor_api_reply \<Rightarrow> 'w device \<Rightarrow> 'w answered" where
  "ota_answer e success started r d =
     (let st = monitor_ota_snapshot (ae_ota e) (dv_ota d) in
      if \<not> success then map_option (\<lambda>r. (r, d)) (api_error 400 (os_message st) r)
      else do {
        sid \<leftarrow> (case started of None \<Rightarrow> Some [] | Some m \<Rightarrow> do { s \<leftarrow> cstring m; Some [json_s ''id'' s] });
        r \<leftarrow> send_json e (Some (json_o None ([json_b ''ok'' True, json_n ''received'' (int (os_received st)), json_n ''chunk_size'' (int MONITOR_OTA_CHUNK)] @ sid))) r;
        Some (r, d)
      })"

definition ota_start_post :: "'w api_env \<Rightarrow> cJSON option \<Rightarrow> monitor_api_reply \<Rightarrow> 'w device \<Rightarrow> 'w answered" where
  "ota_start_post e j r d =
     (let sz = cf_cJSON_GetObjectItemCaseSensitive j (str ''size'') in
      if \<not> cf_json_keys j [str ''size'', str ''sha256''] \<or> \<not> is_int sz \<or> valueint sz \<le> 0
      then refuse 400 ''Provide the firmware size and SHA256 digest.'' r d
      else do {
        (success, sid, u) \<leftarrow> monitor_ota_start (ae_ota e) (nat (valueint sz)) (json_string j ''sha256'') (dv_ota d);
        ota_answer e success sid r (d\<lparr>dv_ota := u\<rparr>)
      })"

definition ota_chunk_post :: "'w api_env \<Rightarrow> cJSON option \<Rightarrow> monitor_api_reply \<Rightarrow> 'w device \<Rightarrow> 'w answered" where
  "ota_chunk_post e j r d =
     (let offset = cf_cJSON_GetObjectItemCaseSensitive j (str ''offset''); bad = refuse 400 ''Invalid upload chunk.'' r d in
      if \<not> cf_json_keys j [str ''id'', str ''offset'', str ''data''] \<or> \<not> is_int offset \<or> valueint offset < 0 then bad
      else (case json_string j ''data'' of None \<Rightarrow> bad | Some data \<Rightarrow>
        if length data > (MONITOR_OTA_CHUNK + 2) div 3 * 4 then bad
        else (case ae_base64 e data MONITOR_OTA_CHUNK of None \<Rightarrow> bad | Some bytes \<Rightarrow> do {
          (success, u) \<leftarrow> monitor_ota_write (ae_ota e) (json_string j ''id'') (nat (valueint offset)) (Bytes bytes) (dv_ota d);
          ota_answer e success None r (d\<lparr>dv_ota := u\<rparr>)
        })))"

definition ota_post :: "'w api_env \<Rightarrow> u8 list \<Rightarrow> cJSON option \<Rightarrow> monitor_api_reply \<Rightarrow> 'w device \<Rightarrow> 'w answered" where
  "ota_post e uri j r d =
     (if uri = str ''/api/ota/start'' then ota_start_post e j r d
      else if uri = str ''/api/ota/chunk'' then ota_chunk_post e j r d
      else if \<not> cf_json_keys j [str ''id''] then refuse 400 ''Provide an upload session id.'' r d
      else if uri = str ''/api/ota/finish'' then do {
        (success, u) \<leftarrow> monitor_ota_finish (ae_ota e) (json_string j ''id'') (dv_ota d);
        ota_answer e success None (if success then r\<lparr>ar_effects := or (ar_effects r) MONITOR_EFFECT_REBOOT\<rparr> else r) (d\<lparr>dv_ota := u\<rparr>)
      }
      else if uri = str ''/api/ota/abort'' then
        let (success, u) = monitor_ota_abort (json_string j ''id'') (dv_ota d) in ota_answer e success None r (d\<lparr>dv_ota := u\<rparr>)
      else refuse 404 ''OTA operation not found.'' r d)"

text \<open>A colour or brightness of a request.\<close>

definition rgb_ok :: "cJSON option \<Rightarrow> int \<Rightarrow> bool" where
  "rgb_ok v limit \<longleftrightarrow> is_int v \<and> valueint v \<ge> 0 \<and> valueint v \<le> limit"

definition rgb_post :: "'w api_env \<Rightarrow> cJSON option \<Rightarrow> monitor_api_reply \<Rightarrow> 'w device \<Rightarrow> 'w answered" where
  "rgb_post e j r d =
     (let item = (\<lambda>k. cf_cJSON_GetObjectItemCaseSensitive j (str k)) in
      if \<not> cf_json_keys j [str ''on'', str ''red'', str ''green'', str ''blue'', str ''brightness''] \<or> \<not> json_bool (item ''on'')
        \<or> \<not> rgb_ok (item ''red'') 255 \<or> \<not> rgb_ok (item ''green'') 255 \<or> \<not> rgb_ok (item ''blue'') 255 \<or> \<not> rgb_ok (item ''brightness'') 100
      then refuse 400 ''RGB values must be integers 0-255; brightness 0-100; on must be true or false.'' r d
      else let (good, _, rgb) = monitor_led_set (dv_led d) (ae_pixel e) (ae_refresh e) (cf_cJSON_Is CJ_True (item ''on''))
                 (nat (valueint (item ''red''))) (nat (valueint (item ''green''))) (nat (valueint (item ''blue''))) (nat (valueint (item ''brightness''))) (dv_rgb d);
               d = d\<lparr>dv_rgb := rgb\<rparr> in
      if \<not> good then refuse 503 ''The built-in RGB LED driver is unavailable.'' r d else accept r d)"

definition scan_post :: "monitor_api_reply \<Rightarrow> 'w device \<Rightarrow> 'w answered" where
  "scan_post r d = (let (good, n) = monitor_network_scan (dv_network d); d = d\<lparr>dv_network := n\<rparr> in
     if good then accept r d else refuse 409 ''Wi-Fi is busy. Wait for the current connection or scan to finish.'' r d)"

definition change_request :: "'w api_env \<Rightarrow> u8 list \<Rightarrow> cJSON option \<Rightarrow> monitor_api_reply \<Rightarrow> 'w device \<Rightarrow> 'w answered" where
  "change_request e uri j r d =
     (if uri = str ''/api/wifi'' then wifi_post e j r d
      else if uri = str ''/api/tunnel'' then tunnel_post e j r d
      else if take 9 uri = str ''/api/ota/'' then ota_post e uri j r d
      else if uri = str ''/api/tunnel/restart'' \<and> cf_json_keys j [] then accept (r\<lparr>ar_effects := or (ar_effects r) MONITOR_EFFECT_TUNNEL_RESTART\<rparr>) d
      else if uri = str ''/api/gpio'' then gpio_post e j r d
      else if uri = str ''/api/rgb'' then rgb_post e j r d
      else if uri = str ''/api/logout'' then accept r (d\<lparr>dv_session := replicate (length (dv_session d)) 0, dv_session_until := 0\<rparr>)
      else if uri = str ''/api/scan'' \<and> cf_json_keys j [] then scan_post r d
      else refuse 400 ''Invalid operation.'' r d)"

definition change_post :: "'w api_env \<Rightarrow> monitor_api_request \<Rightarrow> monitor_api_reply \<Rightarrow> 'w device \<Rightarrow> 'w answered" where
  "change_post e q r d = do {
     allowed \<leftarrow> authorized e q d;
     if \<not> allowed then refuse 401 ''Unlock Settings with the device password. Sessions expire after 10 minutes.'' r d
     else do {
       (j, d) \<leftarrow> body e q d;
       if j = None then refuse 400 ''Send a JSON object of at most 2048 bytes.'' r d
       else change_request e (aq_path q) j r d
     }
   }"

definition ap_member :: "monitor_ap \<Rightarrow> cJSON option" where
  "ap_member a = do {
     ssid \<leftarrow> cstring (ap_ssid a);
     Some (json_o None [json_s ''ssid'' ssid, json_n ''rssi'' (ap_rssi a), json_b ''secure'' (ap_secure a), json_n ''channel'' (int (ap_channel a))])
   }"

fun ap_members :: "monitor_ap list \<Rightarrow> cJSON list option" where
  "ap_members [] = Some []"
| "ap_members (a # as) = do { m \<leftarrow> ap_member a; ms \<leftarrow> ap_members as; Some (m # ms) }"

definition scan_get :: "'w api_env \<Rightarrow> monitor_api_request \<Rightarrow> monitor_api_reply \<Rightarrow> 'w device \<Rightarrow> 'w answered" where
  "scan_get e q r d = do {
     allowed \<leftarrow> authorized e q d;
     if \<not> allowed then refuse 401 ''Unlock Settings with the device password.'' r d
     else do {
       (aps, busy) \<leftarrow> monitor_network_scan_results 12 (dv_network d);
       ms \<leftarrow> ap_members aps;
       r \<leftarrow> send_json e (Some (json_o None [json_b ''busy'' busy, json_a ''networks'' ms])) r;
       Some (r, d)
     }
   }"

definition monitor_api_dispatch :: "'w api_env \<Rightarrow> monitor_api_request \<Rightarrow> 'w device \<Rightarrow> 'w answered" where
  "monitor_api_dispatch e q d =
     (if \<not> aq_post q then
        if aq_path q = str ''/api/status'' then status_get e q new_reply d
        else if aq_path q = str ''/api/scan'' then scan_get e q new_reply d
        else refuse 404 ''API endpoint not found.'' new_reply d
      else if aq_path q = str ''/api/login'' then login_post e q new_reply d
      else change_post e q new_reply d)"

definition monitor_api_schedule_effects :: "u64 \<Rightarrow> u32 \<Rightarrow> 'w device \<Rightarrow> 'w device" where
  "monitor_api_schedule_effects now effects d =
     (if effects \<noteq> 0 then d\<lparr>dv_pending_effects := or (dv_pending_effects d) effects, dv_effects_after := now + 1000\<rparr> else d)"


section \<open>Replies stay in their array\<close>

definition reply_ok :: "monitor_api_reply \<Rightarrow> bool" where
  "reply_ok r \<longleftrightarrow> length (ar_body r) = MONITOR_REPLY_MAX \<and> ar_length r < MONITOR_REPLY_MAX"

lemma new_reply_ok: "reply_ok new_reply" "ar_effects new_reply = 0"
  by (simp_all add: reply_ok_def new_reply_def MONITOR_REPLY_MAX_def del: replicate.simps)

lemma reply_effects: "reply_ok (r\<lparr>ar_effects := x\<rparr>) = reply_ok r"
  by (simp add: reply_ok_def)

text \<open>The printer of cJSON stays in its buffer and terminates what it prints.\<close>

definition print_fits :: "(cJSON \<Rightarrow> nat \<Rightarrow> bool \<times> u8 list) \<Rightarrow> bool" where
  "print_fits f \<longleftrightarrow> (\<forall>j n. length (snd (f j n)) \<le> n \<and> (fst (f j n) \<longrightarrow> 0 \<in> set (snd (f j n))))"

lemma api_error_ok: "reply_ok r \<Longrightarrow> yields (api_error status why r) (\<lambda>r'. reply_ok r' \<and> ar_effects r' = ar_effects r)"
  by (auto simp: api_error_def yields_def reply_ok_def store_n_Some Let_def MONITOR_REPLY_MAX_def)

lemma ok_text_length: "length ok_text = 11"
  by (simp add: ok_text_def str_def)

lemma api_ok_ok: "reply_ok r \<Longrightarrow> yields (api_ok r) (\<lambda>r'. reply_ok r' \<and> ar_effects r' = ar_effects r)"
  by (simp add: api_ok_def yields_def reply_ok_def store_n_Some ok_text_length MONITOR_REPLY_MAX_def)

lemma refuse_ok: "reply_ok r \<Longrightarrow> yields (refuse status why r d) (\<lambda>(r', d'). reply_ok r' \<and> ar_effects r' = ar_effects r \<and> d' = d)"
  using api_error_ok [of r status "str why"] by (auto simp: refuse_def yields_def split: option.splits)

lemma accept_ok: "reply_ok r \<Longrightarrow> yields (accept r d) (\<lambda>(r', d'). reply_ok r' \<and> ar_effects r' = ar_effects r \<and> d' = d)"
  using api_ok_ok [of r] by (auto simp: accept_def yields_def split: option.splits)

lemma send_json_ok:
  assumes r: "reply_ok r" and p: "print_fits (ae_print e)"
  shows "yields (send_json e jp r) (\<lambda>r'. reply_ok r' \<and> ar_effects r' = ar_effects r)"
proof (cases "jp = None \<or> \<not> ae_tree e")
  case True
  then show ?thesis using api_error_ok [OF r] by (auto simp: send_json_def split: option.split)
next
  case False
  then obtain j where j: "jp = Some j" and t: "ae_tree e" by auto
  obtain good out where out: "ae_print e j (length (ar_body r)) = (good, out)" by fastforce
  have l: "length out \<le> length (ar_body r)" "good \<longrightarrow> 0 \<in> set out" using p out unfolding print_fits_def by (metis fst_conv snd_conv)+
  let ?b = "splice (ar_body r) 0 out"
  have s: "store_n (ar_body r) 0 out = Some ?b" "length ?b = length (ar_body r)" using l(1) by (simp_all add: store_n_Some)
  have ok: "reply_ok (r\<lparr>ar_body := ?b\<rparr>)" using r s(2) by (simp add: reply_ok_def)
  show ?thesis
  proof (cases good)
    case True
    then have "0 \<in> set ?b" using l(2) by (simp add: splice_def)
    then obtain t where "cstring ?b = Some t" "length t < length ?b" using cstring_within by blast
    then show ?thesis using True j t out s r by (simp add: send_json_def yields_def reply_ok_def)
  next
    case False
    then show ?thesis using api_error_ok [OF ok] j t out s(1) by (simp add: send_json_def)
  qed
qed

section \<open>Secrets\<close>

lemma or_zero_u32: "or (x :: u32) y = 0 \<longleftrightarrow> x = 0 \<and> y = 0"
  by (auto simp: bit_eq_iff bit_or_iff)

lemma xor_zero_iff: "xor x y = (0 :: u8) \<longleftrightarrow> x = y"
  by (auto simp: bit_eq_iff bit_xor_iff)

lemma ucast_zero_u8: "(ucast (x :: u8) :: u32) = 0 \<longleftrightarrow> x = 0"
proof -
  have "unat (ucast x :: u32) = unat x" using u8_less [of x] by (simp add: unsigned_ucast_eq take_bit_nat_eq_self)
  then show ?thesis by (metis unsigned_0 word_eq_iff_unsigned)
qed

definition byte_at :: "u8 list \<Rightarrow> nat \<Rightarrow> u8" where
  "byte_at a i = (if i < length a then a ! i else 0)"

lemma secret_loop_zero: "secret_loop a b i n diff = 0 \<longleftrightarrow> diff = 0 \<and> (\<forall>k < n. byte_at a (i + k) = byte_at b (i + k))"
proof (induction n arbitrary: i diff)
  case (Suc n)
  have "(\<forall>k < Suc n. byte_at a (i + k) = byte_at b (i + k))
      \<longleftrightarrow> byte_at a i = byte_at b i \<and> (\<forall>k < n. byte_at a (Suc i + k) = byte_at b (Suc i + k))"
    by (simp add: All_less_Suc2)
  then show ?case by (simp add: Suc or_zero_u32 ucast_zero_u8 xor_zero_iff byte_at_def)
qed simp

lemma length_xor_zero:
  assumes "m < 2 ^ 32" "n < 2 ^ 32" shows "(word_of_nat (xor m n) :: u32) = 0 \<longleftrightarrow> m = n"
proof -
  have "take_bit 32 (xor m n) = xor m n" using assms by (simp add: take_bit_nat_eq_self)
  then have "(word_of_nat (xor m n) :: u32) = 0 \<longleftrightarrow> xor m n = 0" 
    using take_bit_eq_0_iff [of 32 "xor m n"] word_of_nat_eq_0_iff [where 'a = 32, of "xor m n"] by simp
  also have "\<dots> \<longleftrightarrow> m = n" by (auto simp: bit_eq_iff bit_xor_iff)
  finally show ?thesis .
qed

text \<open>The comparison without early exit is equality.\<close>

lemma equal_secret_iff:
  assumes "length b \<le> m" "length a < 2 ^ 32" "length b < 2 ^ 32"
  shows "equal_secret a b m \<longleftrightarrow> a = b"
proof
  assume "equal_secret a b m"
  then have l: "length a = length b" and k: "\<forall>k < m. byte_at a k = byte_at b k"
    using length_xor_zero [OF assms(2,3)] by (auto simp: equal_secret_def secret_loop_zero)
  show "a = b" using l k assms(1) unfolding byte_at_def by (metis nth_equalityI order_less_le_trans)
qed (simp add: equal_secret_def secret_loop_zero)


section \<open>The update functions return\<close>

definition ota_safe :: "ota_upload \<Rightarrow> bool" where
  "ota_safe u \<longleftrightarrow> (os_active (up_status u) \<longrightarrow> up_partition u \<noteq> None \<and> up_hash u \<noteq> None)"

lemma ota_safe_simps [simp]: "ota_safe (ota_message w u) = ota_safe u" "ota_safe (ota_release u)" "ota_safe zero_upload"
  by (simp_all add: ota_safe_def ota_message_def ota_release_def zero_upload_def zero_status_def)

lemma digest_loop_total: "2 * (i + k) \<le> length t \<Longrightarrow> i + k \<le> length out \<Longrightarrow> \<exists>r. digest_loop t i k out = Some r"
  by (induction k arbitrary: i out) (auto simp: load_def store_def)

lemma ota_start_ok:
  assumes "ota_safe u"
  shows "yields (monitor_ota_start p n sha u) (\<lambda>(good, sid, u'). ota_safe u' \<and> (\<forall>m. sid = Some m \<longrightarrow> 0 \<in> set m))"
proof (cases "\<exists>t. sha = Some t \<and> length t = 64")
  case False
  then show ?thesis using assms by (auto simp: monitor_ota_start_def yields_def Let_def split: option.splits)
next
  case True
  then obtain t where t: "sha = Some t" "length t = 64" by blast
  then obtain r where r: "digest_loop t 0 32 (replicate 32 0) = Some r" using digest_loop_total [of 0 32 t "replicate 32 0"] by auto
  have new: "ota_safe (ota_new p n x u)" if "os_available (monitor_ota_snapshot p u)" for x
    using that by (auto simp: ota_safe_def ota_new_def monitor_ota_snapshot_def Let_def split: option.splits if_splits)
  have sid: "0 \<in> set (up_id (ota_new p n x u))" for x by (simp add: ota_new_def)
  show ?thesis using t r assms new sid by (auto simp: monitor_ota_start_def yields_def Let_def split: option.splits simp del: replicate.simps)
qed

lemma ota_open_ok:
  assumes "ota_safe u" "os_active (up_status u)"
  shows "yields (ota_open p bs u) (\<lambda>x. case x of Inl (g, u') \<Rightarrow> ota_safe u' | Inr u' \<Rightarrow> ota_safe u')"
  using assms by (auto simp: ota_open_def yields_def Let_def load_n_def ota_fail_def ota_safe_def ota_message_def ota_release_def)

lemma ota_append_ok: "ota_safe u \<Longrightarrow> ota_safe (snd (ota_append p bs u))"
  by (auto simp: ota_append_def ota_fail_def Let_def ota_safe_def ota_message_def ota_release_def)

lemma ota_write_ok:
  assumes "ota_safe u" shows "yields (monitor_ota_write p sid off bs u) (\<lambda>(g, u'). ota_safe u')"
proof -
  let ?first = "if up_open u then Some (Inr u) else ota_open p (bytes_list bs) u"
  have f: "yields ?first (\<lambda>x. case x of Inl (g, u') \<Rightarrow> ota_safe u' | Inr u' \<Rightarrow> ota_safe u')" if "os_active (up_status u)"
    using ota_open_ok [OF assms that] assms by (auto simp: yields_def)
  have g: "yields (Some (case x of Inl out \<Rightarrow> out | Inr u \<Rightarrow> ota_append p (bytes_list bs) u)) (\<lambda>(g, u'). ota_safe u')"
    if "case x of Inl (g, u') \<Rightarrow> ota_safe u' | Inr u' \<Rightarrow> ota_safe u'" for x
    using that ota_append_ok by (cases x) (auto simp: yields_def case_prod_unfold)
  have "yields (do { r \<leftarrow> ?first; Some (case r of Inl out \<Rightarrow> out | Inr u \<Rightarrow> ota_append p (bytes_list bs) u) }) (\<lambda>(g, u'). ota_safe u')"
    if "os_active (up_status u)" using yields_bind [OF f [OF that] g] .
  moreover have "yields (Some (ota_fail why u)) (\<lambda>(g, u'). ota_safe u')" for why using assms by (simp add: yields_def ota_fail_def)
  moreover have "ota_matches sid u \<Longrightarrow> os_active (up_status u)" by (simp add: ota_matches_def)
  ultimately show ?thesis unfolding monitor_ota_write_def Let_def by (intro yields_if) blast+
qed

lemma ota_finish_ok:
  assumes "ota_safe u" shows "yields (monitor_ota_finish p sid u) (\<lambda>(g, u'). ota_safe u')"
  using assms by (auto simp: monitor_ota_finish_def Let_def ota_matches_def ota_fail_def yields_def ota_safe_def ota_message_def ota_release_def)

lemma ota_abort_ok: "ota_safe u \<Longrightarrow> ota_safe (snd (monitor_ota_abort sid u))"
  by (auto simp: monitor_ota_abort_def ota_fail_def)

section \<open>The device stays well formed\<close>

definition device_ok :: "'w device \<Rightarrow> bool" where
  "device_ok d \<longleftrightarrow> length (dv_session d) = 65 \<and> 0 \<in> set (dv_session d) \<and> network_ok (dv_network d) \<and> pins_ok (dv_pins d) \<and> ota_safe (dv_ota d)"

definition env_ok :: "'w api_env \<Rightarrow> bool" where
  "env_ok e \<longleftrightarrow> nvs_fits (ae_nvs e) \<and> print_fits (ae_print e) \<and> parser_strings (ae_parser e) \<and> length (ae_random e) = 32"

lemma env_storage: "env_ok e \<Longrightarrow> nvs_fits (ae_nvs e)"
  by (simp add: env_ok_def)

text \<open>An answer in its array and a device that is well formed.\<close>

definition fine :: "'w answered \<Rightarrow> bool" where
  "fine m \<longleftrightarrow> yields m (\<lambda>(r, d). reply_ok r \<and> device_ok d)"

lemma fine_refuse: "reply_ok r \<Longrightarrow> device_ok d \<Longrightarrow> fine (refuse status why r d)"
  unfolding fine_def by (rule yields_weaken [OF refuse_ok]) auto

lemma fine_accept: "reply_ok r \<Longrightarrow> device_ok d \<Longrightarrow> fine (accept r d)"
  unfolding fine_def by (rule yields_weaken [OF accept_ok]) auto

lemma fine_send: "env_ok e \<Longrightarrow> reply_ok r \<Longrightarrow> device_ok d \<Longrightarrow> fine (send_json e j r \<bind> (\<lambda>r. Some (r, d)))"
  unfolding fine_def env_ok_def by (rule yields_bind [OF send_json_ok]) (auto simp: yields_def)

lemma fine_bind: "yields m P \<Longrightarrow> (\<And>x. P x \<Longrightarrow> fine (f x)) \<Longrightarrow> fine (m \<bind> f)"
  unfolding fine_def by (rule yields_bind)

lemma device_ok_updates [simp]:
  "device_ok (d\<lparr>dv_heap := h\<rparr>) = device_ok d" "device_ok (d\<lparr>dv_nvs := w\<rparr>) = device_ok d" "device_ok (d\<lparr>dv_failures := n\<rparr>) = device_ok d"
  "device_ok (d\<lparr>dv_failure_window := t\<rparr>) = device_ok d" "device_ok (d\<lparr>dv_rgb := c\<rparr>) = device_ok d" "device_ok (d\<lparr>dv_session_until := t\<rparr>) = device_ok d"
  "device_ok (d\<lparr>dv_gpio_calls := g\<rparr>) = device_ok d"
  by (simp_all add: device_ok_def)

lemma body_ok: "device_ok d \<Longrightarrow> yields (body e q d) (\<lambda>(j, d'). device_ok d' \<and> d' = d\<lparr>dv_heap := dv_heap d'\<rparr>)"
proof -
  assume d: "device_ok d"
  obtain j h where "cf_json_parse (ae_parser e) (aq_body q) (dv_heap d) = Some (j, h)"
    using cf_json_parse_yields [of "ae_parser e" "aq_body q" "dv_heap d"] by (auto simp: yields_def)
  then show ?thesis using d unfolding body_def by (auto simp: yields_def)
qed

lemma store_wifi_yields: "nvs_fits ops \<Longrightarrow> yields (monitor_store_wifi ops w) (\<lambda>(rc, c). wifi_ok c)"
  using store_total(1) by (fastforce simp: yields_def)

lemma store_tunnel_yields: "nvs_fits ops \<Longrightarrow> yields (monitor_store_tunnel ops w) (\<lambda>(rc, c). tunnel_ok c)"
  using store_total(2) by (fastforce simp: yields_def)

lemma cstring_yields: "0 \<in> set m \<Longrightarrow> yields (cstring m) (\<lambda>s. length s < length m)"
  using cstring_within by (fastforce simp: yields_def)

lemma load_yields: "i < length m \<Longrightarrow> yields (load m i) (\<lambda>_. True)"
  by (simp add: load_def yields_def)

lemma authorized_total: "device_ok d \<Longrightarrow> yields (authorized e q d) (\<lambda>_. True)"
  using cstring_within [of "dv_session d"] by (auto simp: device_ok_def authorized_def load_def yields_def split: option.split)


lemma status_get_fine:
  assumes e: "env_ok e" and d: "device_ok d" and r: "reply_ok r" shows "fine (status_get e q r d)"
proof -
  let ?net = "monitor_network_snapshot_get (tm_station (ae_telemetry e)) (tm_clients (ae_telemetry e)) (dv_network d)"
  have n: "nt_ssid ?net = nt_ssid (nw_state (dv_network d))" by (auto simp: monitor_network_snapshot_get_def Let_def split: option.split)
  obtain s where s: "cstring (nt_ssid ?net) = Some s" using d cstring_within unfolding n device_ok_def network_ok_def by blast
  obtain rc c where c: "monitor_store_tunnel (ae_nvs e) (dv_nvs d) = Some (rc, c)" "tunnel_ok c" using store_tunnel_yields [OF env_storage [OF e], of "dv_nvs d"] by (auto simp: yields_def)
  obtain h where h: "cstring (mc_hostname c) = Some h" using c(2) cstring_within unfolding tunnel_ok_def by blast
  have l: "load (mc_token c) 0 = Some (mc_token c ! 0)" using c(2) by (simp add: tunnel_ok_def load_def)
  obtain j where "status_object e (aq_setup_access q) (aq_origin_allowed q) (aq_remote_access q) d = Some j"
    using s c(1) h l unfolding status_object_def Let_def by (cases "ae_calloc e") auto
  then show ?thesis using fine_send [OF e r d] by (simp add: status_get_def)
qed

lemma login_valid_ok:
  assumes e: "env_ok e" and d: "device_ok d"
  shows "yields (login_valid e q d) (\<lambda>(v, d'). device_ok d' \<and> d' = d\<lparr>dv_heap := dv_heap d'\<rparr>)"
proof -
  obtain j h where b: "body e q d = Some (j, d\<lparr>dv_heap := h\<rparr>)" 
  proof -
    obtain j d' where "body e q d = Some (j, d')" "d' = d\<lparr>dv_heap := dv_heap d'\<rparr>" using body_ok [OF d, of e q] by (auto simp: yields_def)
    then have "body e q d = Some (j, d\<lparr>dv_heap := dv_heap d'\<rparr>)" by argo
    then show ?thesis using that by blast
  qed
  obtain rc m where p: "monitor_store_password (ae_nvs e) (Some (replicate 64 0)) 64 (dv_nvs d) = Some (rc, Some m)" "rc = STORE_OK \<longrightarrow> 0 \<in> set m"
    using password_total [OF env_storage [OF e], of "dv_nvs d"] by metis
  then have "rc = STORE_OK \<Longrightarrow> \<exists>s. cstring m = Some s" using cstring_within by blast
  then show ?thesis using b p(1) d by (auto simp: login_valid_def yields_def split: option.split)
qed

lemma login_post_fine:
  assumes e: "env_ok e" and d: "device_ok d" and r: "reply_ok r" shows "fine (login_post e q r d)"
proof -
  define d1 where "d1 = login_window (ae_now e) d"
  have d1: "device_ok d1" "device_ok (d1\<lparr>dv_failures := dv_failures d1 + 1\<rparr>)" using d by (simp_all add: d1_def login_window_def)
  obtain v d2 where v: "login_valid e q (d1\<lparr>dv_failures := dv_failures d1 + 1\<rparr>) = Some (v, d2)" "device_ok d2"
    using login_valid_ok [OF e d1(2), of q] by (auto simp: yields_def)
  let ?s = "hex_text (ae_random e) @ [0]"
  have l: "length ?s = 65" using e by (simp add: env_ok_def length_hex_text)
  then have st: "store_n (dv_session d2) 0 ?s = Some ?s" using v(2) by (simp add: device_ok_def store_n_Some splice_def)
  obtain t where t: "cstring ?s = Some t" using cstring_within [of ?s] by auto
  have d3: "device_ok (d2\<lparr>dv_session := ?s, dv_session_until := ae_now e + 600000, dv_failures := 0\<rparr>)" using v(2) l by (simp add: device_ok_def)
  have f: "fine (do {
        (valid, d) \<leftarrow> login_valid e q (d1\<lparr>dv_failures := dv_failures d1 + 1\<rparr>);
        if \<not> valid then refuse 401 ''Incorrect device password or invalid request.'' r d
        else do {
          session \<leftarrow> store_n (dv_session d) 0 (hex_text (ae_random e) @ [0]);
          let d = d\<lparr>dv_session := session, dv_session_until := ae_now e + 600000, dv_failures := 0\<rparr>;
          s \<leftarrow> cstring session;
          r \<leftarrow> send_json e (Some (json_o None [json_s ''session'' s, json_n ''expires_in'' 600])) r;
          Some (r, d)
        }
      })"
    using v(1) fine_refuse [OF r v(2)] fine_send [OF e r d3] by (simp add: st t)
  then show ?thesis unfolding login_post_def d1_def [symmetric] Let_def
    using fine_refuse [OF r d] fine_refuse [OF r d1(1)] by simp
qed

lemma wifi_password_ok:
  "wifi_ok saved \<Longrightarrow> length pass \<le> 63 \<Longrightarrow> yields (wifi_password ssid pass saved) (\<lambda>p. length p = 64 \<and> 0 \<in> set p)"
  using cstring_within [of "wc_ssid saved"]
  by (auto simp: wifi_password_def yields_def wifi_ok_def store_n_Some splice_def simp del: replicate.simps)

lemma wifi_post_fine:
  assumes e: "env_ok e" and d: "device_ok d" and r: "reply_ok r" shows "fine (wifi_post e j r d)"
proof (cases "json_string j ''ssid'' = None \<or> json_string j ''password'' = None")
  case True
  then show ?thesis using fine_refuse [OF r d] by (auto simp: wifi_post_def Let_def split: option.split)
next
  case False
  then obtain ssid pass where s: "json_string j ''ssid'' = Some ssid" "json_string j ''password'' = Some pass" by auto
  let ?open = "cf_cJSON_GetObjectItemCaseSensitive j (str ''open'')" let ?t = "cf_cJSON_Is CJ_True ?open"
  obtain rc saved where c: "monitor_store_wifi (ae_nvs e) (dv_nvs d) = Some (rc, saved)" "wifi_ok saved" using store_wifi_yields [OF env_storage [OF e], of "dv_nvs d"] by (auto simp: yields_def)
  show ?thesis
  proof (cases "\<not> cf_json_keys j wifi_keys \<or> ssid = [] \<or> length ssid > 32 \<or> length pass > 63 \<or> \<not> json_bool ?open")
    case True
    then show ?thesis using fine_refuse [OF r d] s by (simp add: wifi_post_def)
  next
    case False
    then have "yields (if ?t then Some (replicate 64 0) else wifi_password ssid pass saved) (\<lambda>p. length p = 64 \<and> 0 \<in> set p)"
      using wifi_password_ok [OF c(2), of pass ssid] by (auto simp: yields_def simp del: replicate.simps)
    then obtain pw where p: "(if ?t then Some (replicate 64 0) else wifi_password ssid pass saved) = Some pw" "0 \<in> set pw" by (auto simp: yields_def)
    obtain t where t: "cstring pw = Some t" using cstring_within p(2) by blast
    have n: "store_n (replicate 33 0) 0 ssid = Some (splice (replicate 33 0) 0 ssid)" using False by (simp add: store_n_Some del: replicate.simps)
    obtain rc2 w where w: "monitor_save_wifi (ae_nvs e) \<lparr>wc_ssid = splice (replicate 33 0) 0 ssid, wc_password = pw, wc_open = (if ?t then 1 else 0)\<rparr> (dv_nvs d) = (rc2, w)"
      by fastforce
    have "wifi_post e j r d = (if \<not> ?t \<and> length t < 8 then refuse 400 ''A secured network requires a password of 8-63 bytes.'' r d
        else if rc2 \<noteq> STORE_OK then refuse 500 ''Unable to save Wi-Fi settings.'' r (d\<lparr>dv_nvs := w\<rparr>)
        else accept (r\<lparr>ar_effects := or (ar_effects r) MONITOR_EFFECT_WIFI\<rparr>) (d\<lparr>dv_nvs := w\<rparr>))"
      using False s c(1) p(1) t n w unfolding wifi_post_def Let_def by (cases ?t) (simp_all del: replicate.simps)
    then show ?thesis using d r by (simp add: reply_effects fine_refuse fine_accept)
  qed
qed


lemma host_loop_total: "i + n \<le> length name \<Longrightarrow> label \<le> i \<Longrightarrow> \<exists>r. host_loop name i n label = Some r"
  by (induction n arbitrary: i label) (auto simp: load_def)

lemma monitor_hostname_total: "\<exists>b. monitor_hostname_valid name = Some b \<and> (b \<longrightarrow> length name \<le> 253)"
proof (cases "name = [] \<or> length name > 253")
  case True then show ?thesis by (auto simp: monitor_hostname_valid_def)
next
  case False
  then have "load name (length name - 1) = Some (last name)" by (simp add: load_def last_conv_nth)
  moreover obtain x where "host_loop name 0 (length name) 0 = Some x" using host_loop_total [of 0 "length name" name 0] by auto
  ultimately show ?thesis using False by (auto simp: monitor_hostname_valid_def)
qed

lemma tunnel_save_fine:
  assumes e: "env_ok e" and d: "device_ok d" and r: "reply_ok r" and l: "length token \<le> CF_TOKEN_MAX" "length host \<le> 253"
  shows "fine (tunnel_save e token host clear r d)"
proof -
  obtain rc saved where c: "monitor_store_tunnel (ae_nvs e) (dv_nvs d) = Some (rc, saved)" using store_tunnel_yields [OF env_storage [OF e], of "dv_nvs d"] by (auto simp: yields_def)
  obtain t where t: "(if clear then Some (replicate (CF_TOKEN_MAX + 1) 0)
              else if token \<noteq> [] then store_n (replicate (CF_TOKEN_MAX + 1) 0) 0 token else Some (mc_token saved)) = Some t"
    using l(1) by (cases clear; cases "token = []") (simp_all add: store_n_Some del: replicate.simps)
  have h: "store_n (replicate 254 0) 0 host = Some (splice (replicate 254 0) 0 host)" using l(2) by (simp add: store_n_Some del: replicate.simps)
  obtain rc2 w where w: "monitor_save_tunnel (ae_nvs e) \<lparr>mc_token = t, mc_hostname = splice (replicate 254 0) 0 host\<rparr> (dv_nvs d) = (rc2, w)" by fastforce
  have "tunnel_save e token host clear r d = (if \<not> ae_calloc e then refuse 503 ''Not enough memory.'' r d
      else if rc2 = STORE_OK then accept (r\<lparr>ar_effects := or (ar_effects r) MONITOR_EFFECT_TUNNEL\<rparr>) (d\<lparr>dv_nvs := w\<rparr>)
      else refuse 500 ''Unable to save tunnel settings.'' r (d\<lparr>dv_nvs := w\<rparr>))"
    unfolding tunnel_save_def c h Let_def by (cases clear; cases "token = []") (use t w in simp_all)
  then show ?thesis using d r by (simp add: reply_effects fine_refuse fine_accept)
qed

lemma token_parse_total:
  assumes "parser_strings parser"
  shows "\<exists>rc b c dg h'. cf_credentials_parse_ex parser (Bytes token) (Some (replicate (CF_TOKEN_JSON_MAX + 1) 0)) (CF_TOKEN_JSON_MAX + 1)
    (Some zero_credentials) (Some CF_TOKEN_FIELDS) h = Some (rc, b, c, Some dg, h')"
  using parse_yields [OF assms, of "CF_TOKEN_JSON_MAX + 1" "replicate (CF_TOKEN_JSON_MAX + 1) 0" "Bytes token" zero_credentials "Some CF_TOKEN_FIELDS" h]
  by (auto simp: yields_def simp del: replicate.simps)

lemma tunnel_post_fine:
  assumes e: "env_ok e" and d: "device_ok d" and r: "reply_ok r" shows "fine (tunnel_post e j r d)"
proof (cases "json_string j ''token'' = None \<or> json_string j ''hostname'' = None")
  case True
  then show ?thesis using fine_refuse [OF r d] by (auto simp: tunnel_post_def Let_def split: option.split)
next
  case False
  then obtain token host where s: "json_string j ''token'' = Some token" "json_string j ''hostname'' = Some host" by auto
  let ?clear = "cf_cJSON_GetObjectItemCaseSensitive j (str ''clear'')"
  obtain b where b: "monitor_hostname_valid host = Some b" "b \<longrightarrow> length host \<le> 253" using monitor_hostname_total by blast
  let ?bad = "refuse 400 ''Use a valid hostname and either a tunnel token or Clear stored token.'' r d"
  define rest where "rest = (if token \<noteq> [] then do {
              (rc, _, _, diagnostic, h) \<leftarrow> cf_credentials_parse_ex (ae_parser e) (Bytes token) (Some (replicate (CF_TOKEN_JSON_MAX + 1) 0)) (CF_TOKEN_JSON_MAX + 1)
                (Some zero_credentials) (Some CF_TOKEN_FIELDS) (dv_heap d);
              let d = d\<lparr>dv_heap := h\<rparr>;
              if rc \<noteq> CF_OK then do { why \<leftarrow> diagnostic; refuse (if rc = CF_ERR_MEMORY then 503 else 400) (cf_token_diagnostic_message why) r d }
              else tunnel_save e token host (cf_cJSON_Is CJ_True ?clear) r d
            }
            else tunnel_save e token host (cf_cJSON_Is CJ_True ?clear) r d)"
  have run: "tunnel_post e j r d = (if \<not> cf_json_keys j tunnel_keys \<or> \<not> json_bool ?clear \<or> length token > CF_TOKEN_MAX then ?bad
      else if \<not> b \<or> (cf_cJSON_Is CJ_True ?clear \<and> token \<noteq> []) then ?bad else rest)"
    unfolding tunnel_post_def Let_def s rest_def by (simp add: b(1))
  have "fine rest" if l: "length token \<le> CF_TOKEN_MAX" "b"
  proof -
    have save: "fine (tunnel_save e token host c r d')" if "device_ok d'" for c d'
      using tunnel_save_fine [OF e that r l(1)] b(2) l(2) by blast
    obtain rc b1 c1 dg h1 where p: "cf_credentials_parse_ex (ae_parser e) (Bytes token) (Some (replicate (CF_TOKEN_JSON_MAX + 1) 0)) (CF_TOKEN_JSON_MAX + 1)
        (Some zero_credentials) (Some CF_TOKEN_FIELDS) (dv_heap d) = Some (rc, b1, c1, Some dg, h1)"
      using token_parse_total e unfolding env_ok_def by blast
    show ?thesis unfolding rest_def p using save d r by (cases "token = []") (auto simp: Let_def fine_refuse)
  qed
  then show ?thesis using run fine_refuse [OF r d] b(2) by simp
qed


lemma gpio_post_fine:
  assumes d: "device_ok d" and r: "reply_ok r" shows "fine (gpio_post e j r d)"
proof -
  let ?i = "\<lambda>k. cf_cJSON_GetObjectItemCaseSensitive j (str k)"
  obtain good calls pins where s: "monitor_io_set (ae_gpio e) (valueint (?i ''pin'')) (valueint (?i ''mode'')) (valueint (?i ''value'')) (dv_pins d) = (good, calls, pins)"
    using prod_cases3 by blast
  have "pins_ok pins" using io_set_pins [OF _ s] d by (simp add: device_ok_def)
  then have "device_ok (d\<lparr>dv_pins := pins, dv_gpio_calls := dv_gpio_calls d @ calls\<rparr>)" using d by (simp add: device_ok_def)
  then show ?thesis unfolding gpio_post_def Let_def using r d by (simp add: s fine_refuse fine_accept)
qed

lemma ota_answer_fine:
  assumes e: "env_ok e" and d: "device_ok d" and r: "reply_ok r" and m: "\<forall>m. sid = Some m \<longrightarrow> 0 \<in> set m"
  shows "fine (ota_answer e success sid r d)"
proof (cases success)
  case False
  then show ?thesis using api_error_ok [OF r] d unfolding ota_answer_def fine_def by (fastforce simp: yields_def Let_def)
next
  case True
  have "\<exists>x. (case sid of None \<Rightarrow> Some [] | Some m \<Rightarrow> do { s \<leftarrow> cstring m; Some [json_s ''id'' s] }) = Some x"
    using m cstring_within by (cases sid) fastforce+
  then show ?thesis using True fine_send [OF e r d] by (auto simp: ota_answer_def Let_def)
qed

lemma device_ok_ota: "device_ok d \<Longrightarrow> ota_safe u \<Longrightarrow> device_ok (d\<lparr>dv_ota := u\<rparr>)"
  by (simp add: device_ok_def)

lemma ota_post_fine:
  assumes e: "env_ok e" and d: "device_ok d" and r: "reply_ok r" shows "fine (ota_post e uri j r d)"
proof -
  have u: "ota_safe (dv_ota d)" using d by (simp add: device_ok_def)
  note bad = fine_refuse [OF r d]
  have "fine (ota_start_post e j r d)" unfolding ota_start_post_def Let_def
  proof (rule if_split [THEN iffD2, rule_format], intro conjI impI)
    show "fine (do { (success, sid, u) \<leftarrow> monitor_ota_start (ae_ota e) n (json_string j ''sha256'') (dv_ota d); ota_answer e success sid r (d\<lparr>dv_ota := u\<rparr>) })" for n
      by (rule fine_bind [OF ota_start_ok [OF u]]) (auto intro!: ota_answer_fine e r device_ok_ota d)
  qed (rule bad)
  moreover have "fine (ota_chunk_post e j r d)"
  proof -
    have "fine (do { (success, u) \<leftarrow> monitor_ota_write (ae_ota e) sid off bs (dv_ota d); ota_answer e success None r (d\<lparr>dv_ota := u\<rparr>) })" for sid off bs
      by (rule fine_bind [OF ota_write_ok [OF u]]) (auto intro!: ota_answer_fine e r device_ok_ota d)
    then show ?thesis using bad by (simp add: ota_chunk_post_def Let_def split: option.split)
  qed
  moreover have "fine (do {
        (success, u) \<leftarrow> monitor_ota_finish (ae_ota e) sid (dv_ota d);
        ota_answer e success None (if success then r\<lparr>ar_effects := or (ar_effects r) MONITOR_EFFECT_REBOOT\<rparr> else r) (d\<lparr>dv_ota := u\<rparr>)
      })" for sid
    by (rule fine_bind [OF ota_finish_ok [OF u]]) (auto intro!: ota_answer_fine e r device_ok_ota d simp: reply_effects)
  moreover have "fine (let (success, u) = monitor_ota_abort sid (dv_ota d) in ota_answer e success None r (d\<lparr>dv_ota := u\<rparr>))" for sid
    using ota_abort_ok [OF u, of sid] by (auto intro!: ota_answer_fine e r device_ok_ota d simp: case_prod_unfold Let_def)
  ultimately show ?thesis unfolding ota_post_def using bad by simp
qed


lemma rgb_post_fine: "device_ok d \<Longrightarrow> reply_ok r \<Longrightarrow> fine (rgb_post e j r d)"
  unfolding rgb_post_def Let_def case_prod_unfold by (simp add: fine_refuse fine_accept)

lemma scan_post_fine:
  assumes "device_ok d" "reply_ok r" shows "fine (scan_post r d)"
proof -
  have "network_ok (snd (monitor_network_scan (dv_network d)))" using assms(1) by (auto simp: device_ok_def monitor_network_scan_def network_ok_def)
  then have "device_ok (d\<lparr>dv_network := snd (monitor_network_scan (dv_network d))\<rparr>)" using assms(1) by (simp add: device_ok_def)
  then show ?thesis using assms(2) unfolding scan_post_def Let_def case_prod_unfold by (simp add: fine_refuse fine_accept)
qed

lemma change_request_fine:
  assumes e: "env_ok e" and d: "device_ok d" and r: "reply_ok r" shows "fine (change_request e uri j r d)"
proof -
  have "device_ok (d\<lparr>dv_session := replicate (length (dv_session d)) 0, dv_session_until := 0\<rparr>)"
    using d by (simp add: device_ok_def del: replicate.simps)
  then have "fine (accept r (d\<lparr>dv_session := replicate (length (dv_session d)) 0, dv_session_until := 0\<rparr>))" using r fine_accept by blast
  moreover have "fine (accept (r\<lparr>ar_effects := x\<rparr>) d)" for x using fine_accept d r by (simp add: reply_effects fine_accept)
  ultimately show ?thesis unfolding change_request_def
    using wifi_post_fine [OF e d r] tunnel_post_fine [OF e d r] ota_post_fine [OF e d r] gpio_post_fine [OF d r] rgb_post_fine [OF d r]
      scan_post_fine [OF d r] fine_refuse [OF r d] by simp
qed

lemma change_post_fine:
  assumes e: "env_ok e" and d: "device_ok d" and r: "reply_ok r" shows "fine (change_post e q r d)"
  unfolding change_post_def
proof (rule fine_bind [OF authorized_total [OF d]])
  fix b show "fine (if \<not> b then refuse 401 ''Unlock Settings with the device password. Sessions expire after 10 minutes.'' r d
     else do {
       (j, d) \<leftarrow> body e q d;
       if j = None then refuse 400 ''Send a JSON object of at most 2048 bytes.'' r d
       else change_request e (aq_path q) j r d
     })"
    using fine_refuse [OF r d] fine_bind [OF body_ok [OF d]] fine_refuse [OF r] change_request_fine [OF e _ r]
    by (cases b) (auto intro!: fine_bind [OF body_ok [OF d]] simp: fine_refuse r)
qed

lemma ap_members_total: "\<forall>a \<in> set as. ap_ok a \<Longrightarrow> \<exists>ms. ap_members as = Some ms"
proof (induction as)
  case (Cons a as)
  obtain s where "cstring (ap_ssid a) = Some s" using Cons.prems cstring_within [of "ap_ssid a"] by (auto simp: ap_ok_def)
  then show ?case using Cons by (auto simp: ap_member_def)
qed simp

lemma scan_get_fine:
  assumes e: "env_ok e" and d: "device_ok d" and r: "reply_ok r" shows "fine (scan_get e q r d)"
proof -
  let ?n = "dv_network d"
  have n: "network_ok ?n" using d by (simp add: device_ok_def)
  have s: "monitor_network_scan_results 12 ?n = Some (take (nw_scan_count ?n) (nw_scan_list ?n), nt_scanning (nw_state ?n))"
    using n by (auto simp: monitor_network_scan_results_def load_n_def network_ok_def)
  obtain ms where m: "ap_members (take (nw_scan_count ?n) (nw_scan_list ?n)) = Some ms"
    using ap_members_total [of "take (nw_scan_count ?n) (nw_scan_list ?n)"] n by (auto simp: network_ok_def dest: in_set_takeD)
  show ?thesis unfolding scan_get_def
    by (rule fine_bind [OF authorized_total [OF d]]) (simp add: s m fine_refuse r d fine_send [OF e r d])
qed

lemma dispatch_fine: "env_ok e \<Longrightarrow> device_ok d \<Longrightarrow> fine (monitor_api_dispatch e q d)"
  using new_reply_ok(1) by (simp add: monitor_api_dispatch_def status_get_fine scan_get_fine login_post_fine change_post_fine fine_refuse)

section \<open>What a request may change\<close>

text \<open>The state of the device behind the interface, without sessions and the counters of log-ins.\<close>

definition core :: "'w device \<Rightarrow> u32 \<times> u64 \<times> ota_upload \<times> monitor_gpio list \<times> gpio_call list \<times> bool \<times> monitor_rgb \<times> network \<times> 'w" where
  "core d = (dv_pending_effects d, dv_effects_after d, dv_ota d, dv_pins d, dv_gpio_calls d, dv_led d, dv_rgb d, dv_network d, dv_nvs d)"

lemma core_updates [simp]:
  "core (d\<lparr>dv_heap := h\<rparr>) = core d" "core (d\<lparr>dv_failures := n\<rparr>) = core d" "core (d\<lparr>dv_failure_window := t\<rparr>) = core d"
  "core (d\<lparr>dv_session := s\<rparr>) = core d" "core (d\<lparr>dv_session_until := t\<rparr>) = core d"
  by (simp_all add: core_def)

lemma api_error_effects: "api_error status why r = Some r' \<Longrightarrow> ar_effects r' = ar_effects r \<and> ar_status r' = status"
  by (auto simp: api_error_def Let_def bind_eq_Some_conv)

lemma refuse_keeps: "refuse status why r d = Some (r', d') \<Longrightarrow> d' = d \<and> ar_effects r' = ar_effects r \<and> ar_status r' = status"
  by (auto simp: refuse_def dest: api_error_effects)

lemma send_json_effects: "send_json e j r = Some r' \<Longrightarrow> ar_effects r' = ar_effects r"
  by (auto simp: send_json_def Let_def case_prod_unfold bind_eq_Some_conv dest!: api_error_effects split: option.splits if_splits)

lemma body_keeps: "body e q d = Some (j, d') \<Longrightarrow> d' = d\<lparr>dv_heap := dv_heap d'\<rparr>"
  by (auto simp: body_def bind_eq_Some_conv split: if_splits)

lemma body_session: "body e q d = Some (j, d') \<Longrightarrow> dv_session d' = dv_session d"
  by (auto simp: body_def bind_eq_Some_conv split: if_splits)

lemma login_valid_keeps: "login_valid e q d = Some (v, d') \<Longrightarrow> d' = d\<lparr>dv_heap := dv_heap d'\<rparr>"
  by (auto simp: login_valid_def bind_eq_Some_conv dest!: body_keeps split: option.splits if_splits)

lemma authorized_iff:
  assumes "authorized e q d = Some True" "length (dv_session d) = 65" "\<forall>a. aq_authorization q = Some a \<longrightarrow> length a < 2 ^ 32"
  shows "aq_origin_allowed q \<and> ae_now e < dv_session_until d \<and> (\<exists>s. cstring (dv_session d) = Some s \<and> s \<noteq> [] \<and> aq_authorization q = Some (str ''Bearer '' @ s))"
proof -
  obtain auth s where a: "aq_origin_allowed q" "ae_now e < dv_session_until d" "aq_authorization q = Some auth" "take 7 auth = str ''Bearer ''"
      "cstring (dv_session d) = Some s" "equal_secret (drop 7 auth) s 64" "load (dv_session d) 0 \<noteq> Some 0"
    using assms(1) by (auto simp: authorized_def bind_eq_Some_conv split: if_splits option.splits)
  have z: "0 \<in> set (dv_session d)" "s = takeWhile (\<lambda>c. c \<noteq> 0) (dv_session d)" using a(5) by (auto simp: cstring_def split: if_splits)
  then have l: "length s < 65" using assms(2) cstring_within [OF z(1)] a(5) by auto
  have "drop 7 auth = s" using equal_secret_iff [of s 64 "drop 7 auth"] l a(3,6) assms(3) by auto
  then have "auth = str ''Bearer '' @ s" using a(4) by (metis append_take_drop_id)
  moreover have "s \<noteq> []" using a(7) z assms(2) by (cases "dv_session d") (auto simp: load_def)
  ultimately show ?thesis using a by blast
qed


lemma accept_keeps: "accept r d = Some (r', d') \<Longrightarrow> d' = d \<and> ar_effects r' = ar_effects r \<and> ar_status r' = 200"
  by (auto simp: accept_def api_ok_def bind_eq_Some_conv)

lemma send_json_status: "send_json e j r = Some r' \<Longrightarrow> ar_status r' = 200 \<or> ar_status r' = 503"
  by (auto simp: send_json_def Let_def case_prod_unfold bind_eq_Some_conv dest!: api_error_effects split: option.splits if_splits)

text \<open>A log-in touches no more than the session and the counters, and the session only with the right password.\<close>

lemma login_post_keeps:
  assumes "login_post e q r d = Some (r', d')"
  shows "core d' = core d \<and> ar_effects r' = ar_effects r"
    and "dv_session d' \<noteq> dv_session d \<Longrightarrow> aq_origin_allowed q \<and> (\<exists>d1 d2. core d1 = core d \<and> login_valid e q d1 = Some (True, d2))"
    and "ae_now e - dv_failure_window d < 60000 \<Longrightarrow> dv_failure_window d' = dv_failure_window d
      \<and> (ar_status r' = 401 \<and> dv_failures d < 5 \<and> dv_failures d' = dv_failures d + 1
        \<or> ar_status r' \<in> {403, 429} \<and> dv_failures d' = dv_failures d \<or> ar_status r' \<in> {200, 503} \<and> dv_failures d' = 0)"
proof -
  define d1 where "d1 = login_window (ae_now e) d"
  have w: "core d1 = core d" "dv_session d1 = dv_session d" "ae_now e - dv_failure_window d < 60000 \<Longrightarrow> d1 = d"
    by (auto simp: d1_def login_window_def)
  consider (forbidden) "r' = r' \<and> d' = d \<and> ar_effects r' = ar_effects r \<and> ar_status r' = 403"
    | (locked) "d' = d1 \<and> ar_effects r' = ar_effects r \<and> ar_status r' = 429"
    | (wrong) d2 where "login_valid e q (d1\<lparr>dv_failures := dv_failures d1 + 1\<rparr>) = Some (False, d2)" "d' = d2" "dv_failures d1 < 5"
        "ar_effects r' = ar_effects r" "ar_status r' = 401"
    | (right) d2 s where "login_valid e q (d1\<lparr>dv_failures := dv_failures d1 + 1\<rparr>) = Some (True, d2)" "aq_origin_allowed q"
        "d' = d2\<lparr>dv_session := s, dv_session_until := ae_now e + 600000, dv_failures := 0\<rparr>" "ar_effects r' = ar_effects r" "ar_status r' \<in> {200, 503}"
    using assms unfolding login_post_def d1_def [symmetric] Let_def
    by (auto simp: bind_eq_Some_conv not_le dest!: refuse_keeps dest: send_json_effects send_json_status split: if_splits)
  note cases = this
  have v: "core d2 = core d \<and> dv_session d2 = dv_session d \<and> dv_failures d2 = dv_failures d1 + 1 \<and> dv_failure_window d2 = dv_failure_window d1"
    if "login_valid e q (d1\<lparr>dv_failures := dv_failures d1 + 1\<rparr>) = Some (b, d2)" for b d2
  proof -
    have "d2 = d1\<lparr>dv_failures := dv_failures d1 + 1, dv_heap := dv_heap d2\<rparr>" using login_valid_keeps [OF that] by simp
    then show ?thesis using w by (metis core_updates(1,2) device.select_convs(1) device.simps device.surjective)
  qed
  show "core d' = core d \<and> ar_effects r' = ar_effects r" using cases by cases (auto simp: w dest!: v)
  show "aq_origin_allowed q \<and> (\<exists>d1 d2. core d1 = core d \<and> login_valid e q d1 = Some (True, d2))" if "dv_session d' \<noteq> dv_session d"
    using cases
  proof cases
    case right
    then show ?thesis using w by (metis core_updates(2))
  next
    case forbidden then show ?thesis using that by simp
  next
    case locked then show ?thesis using that w(2) by simp
  next
    case wrong then show ?thesis using that v [OF wrong(1)] by simp
  qed
  show "dv_failure_window d' = dv_failure_window d
      \<and> (ar_status r' = 401 \<and> dv_failures d < 5 \<and> dv_failures d' = dv_failures d + 1
        \<or> ar_status r' \<in> {403, 429} \<and> dv_failures d' = dv_failures d \<or> ar_status r' \<in> {200, 503} \<and> dv_failures d' = 0)"
    if "ae_now e - dv_failure_window d < 60000"
    using cases
  proof cases
    case wrong then show ?thesis using v [OF wrong(1)] w(3) [OF that] by simp
  next
    case right then show ?thesis using v [OF right(1)] w(3) [OF that] by simp
  qed (use w(3) [OF that] in auto)
qed


text \<open>The password check compares with the stored text.\<close>

lemma login_valid_password:
  assumes "login_valid e q d = Some (True, d')" "nvs_fits (ae_nvs e)"
  shows "\<exists>j d1 m pw. body e q d = Some (j, d1) \<and> json_string j ''password'' = Some pw
    \<and> monitor_store_password (ae_nvs e) (Some (replicate 64 0)) 64 (dv_nvs d) = Some (STORE_OK, Some m) \<and> cstring m = Some pw \<and> 12 \<le> length pw"
proof -
  obtain j d1 pw m s where b: "body e q d = Some (j, d1)" "json_string j ''password'' = Some pw" "length pw \<le> 63"
      "monitor_store_password (ae_nvs e) (Some (replicate 64 0)) 64 (dv_nvs d1) = Some (STORE_OK, Some m)" "cstring m = Some s" "equal_secret pw s 63"
    using assms(1) by (auto simp: login_valid_def bind_eq_Some_conv split: option.splits if_splits)
  have n: "dv_nvs d1 = dv_nvs d" using body_keeps [OF b(1)] by (metis device.select_convs(14) device.simps device.surjective)
  obtain rc m' where "monitor_store_password (ae_nvs e) (Some (replicate 64 0)) 64 (dv_nvs d) = Some (rc, Some m')" "length m' = 64"
    using password_total [OF assms(2), of "dv_nvs d"] by metis
  then have m: "length m = 64" "0 \<in> set m" using b(4,5) n by (auto simp: cstring_def split: if_splits)
  then have "length s < 64" using cstring_within [OF m(2)] b(5) by auto
  then have e: "pw = s" using equal_secret_iff [of s 63 pw] b(3,6) by auto
  have "12 \<le> length s" using b(4,5) unfolding monitor_store_password_def
    by (auto simp: bind_eq_Some_conv case_prod_unfold Let_def split: if_splits)
  then show ?thesis using b(1,2) b(4) [unfolded n] b(5) unfolding e by blast
qed

text \<open>Requests whose answer leaves a session alone.\<close>

definition with_session :: "mem \<Rightarrow> 'w answered \<Rightarrow> bool" where
  "with_session s m \<longleftrightarrow> (\<forall>r d. m = Some (r, d) \<longrightarrow> dv_session d = s)"

lemma session_rules:
  "dv_session d = s \<Longrightarrow> with_session s (refuse status why r d)"
  "dv_session d = s \<Longrightarrow> with_session s (accept r d)"
  "dv_session d = s \<Longrightarrow> with_session s (Some (r, d))"
  "dv_session d = s \<Longrightarrow> with_session s (map_option (\<lambda>r. (r, d)) x)"
  "(\<And>y. with_session s (f y)) \<Longrightarrow> with_session s (z \<bind> f)"
  "(c \<Longrightarrow> with_session s m) \<Longrightarrow> (\<not> c \<Longrightarrow> with_session s m') \<Longrightarrow> with_session s (if c then m else m')"
  "(\<And>a b. with_session s (g a b)) \<Longrightarrow> with_session s (case p of (a, b) \<Rightarrow> g a b)"
  "with_session s n \<Longrightarrow> (\<And>a. with_session s (k a)) \<Longrightarrow> with_session s (case o' of None \<Rightarrow> n | Some a \<Rightarrow> k a)"
  by (auto simp: with_session_def bind_eq_Some_conv dest!: refuse_keeps accept_keeps split: prod.splits option.splits)

lemma change_sessions:
  "with_session (dv_session d) (wifi_post e j r d)" "with_session (dv_session d) (tunnel_save e t h c r d)"
  "with_session (dv_session d) (ota_answer e ok sid r d)" "with_session (dv_session d) (gpio_post e j r d)"
  "with_session (dv_session d) (rgb_post e j r d)" "with_session (dv_session d) (scan_post r d)"
  unfolding wifi_post_def tunnel_save_def ota_answer_def gpio_post_def rgb_post_def scan_post_def Let_def
  by (intro session_rules; simp)+

lemma session_moved:
  "dv_session d = s \<Longrightarrow> with_session s (tunnel_save e t h c r d)" "dv_session d = s \<Longrightarrow> with_session s (ota_answer e ok sid r d)"
  using change_sessions(2,3) by blast+

lemma tunnel_session: "with_session (dv_session d) (tunnel_post e j r d)"
  unfolding tunnel_post_def Let_def by (intro session_rules session_moved; simp)

lemma ota_sessions: "with_session (dv_session d) (ota_start_post e j r d)" "with_session (dv_session d) (ota_chunk_post e j r d)"
  unfolding ota_start_post_def ota_chunk_post_def Let_def by (intro session_rules session_moved; simp)+

lemma ota_session: "with_session (dv_session d) (ota_post e uri j r d)"
  unfolding ota_post_def Let_def by (intro session_rules session_moved ota_sessions; simp)

lemma change_request_session:
  assumes "change_request e uri j r d = Some (r', d')"
  shows "dv_session d' = dv_session d \<or> (uri = str ''/api/logout'' \<and> dv_session d' = replicate (length (dv_session d)) 0)"
proof (cases "uri = str ''/api/logout''")
  case True
  then have "change_request e uri j r d = accept r (d\<lparr>dv_session := replicate (length (dv_session d)) 0, dv_session_until := 0\<rparr>)"
    unfolding change_request_def by (simp add: str_def del: replicate.simps)
  then show ?thesis using assms True by (auto dest!: accept_keeps simp del: replicate.simps)
next
  case False
  then have "with_session (dv_session d) (change_request e uri j r d)"
    unfolding change_request_def by (intro session_rules change_sessions tunnel_session ota_session; simp)
  then show ?thesis using assms by (auto simp: with_session_def)
qed

lemma status_scan_keep:
  "status_get e q r d = Some (r', d') \<Longrightarrow> d' = d \<and> ar_effects r' = ar_effects r"
  "scan_get e q r d = Some (r', d') \<Longrightarrow> d' = d \<and> ar_effects r' = ar_effects r"
  by (auto simp: status_get_def scan_get_def bind_eq_Some_conv dest!: send_json_effects refuse_keeps split: if_splits)

lemma dispatch_needs_session:
  assumes "monitor_api_dispatch e q d = Some (r, d')" "core d' \<noteq> core d \<or> ar_effects r \<noteq> 0" "length (dv_session d) = 65"
    "\<forall>a. aq_authorization q = Some a \<longrightarrow> length a < 2 ^ 32"
  shows "aq_post q \<and> aq_origin_allowed q \<and> ae_now e < dv_session_until d
    \<and> (\<exists>s. cstring (dv_session d) = Some s \<and> s \<noteq> [] \<and> aq_authorization q = Some (str ''Bearer '' @ s))"
proof -
  have "aq_post q \<and> aq_path q \<noteq> str ''/api/login'' \<and> change_post e q new_reply d = Some (r, d')"
    using assms(1,2) new_reply_ok(2) unfolding monitor_api_dispatch_def
    by (auto dest!: status_scan_keep refuse_keeps login_post_keeps(1) split: if_splits)
  moreover from this have "authorized e q d = Some True"
    using assms(2) new_reply_ok(2) by (auto simp: change_post_def bind_eq_Some_conv dest!: refuse_keeps split: if_splits)
  ultimately show ?thesis using authorized_iff [OF _ assms(3,4)] by blast
qed

section \<open>Properties\<close>

text \<open>
  C15. The interface is memory safe and keeps the device well formed. Every request, with any path, headers and body, is answered within the
  reply array, and the session array, the network task's state, the pin table and the update session keep their well-formedness.
\<close>

theorem api_device_wellformed:
  assumes "env_ok e" "device_ok d"
  shows "\<exists>r d'. monitor_api_dispatch e q d = Some (r, d') \<and> device_ok d' \<and> length (ar_body r) = MONITOR_REPLY_MAX \<and> ar_length r < MONITOR_REPLY_MAX"
  using dispatch_fine [OF assms, of q] by (auto simp: fine_def yields_def reply_ok_def)

text \<open>
  C12. Only a session changes the device. If a request changes settings in flash, pins, light, the update, the network task or asks for a delayed effect
  (a reload, a tunnel restart, a reboot), then it is a POST from an allowed origin that carries exactly the token of the session, and the session
  exists and has not expired.
\<close>

theorem api_changes_need_session:
  assumes "monitor_api_dispatch e q d = Some (r, d')" "core d' \<noteq> core d \<or> ar_effects r \<noteq> 0" "length (dv_session d) = 65"
    "\<forall>a. aq_authorization q = Some a \<longrightarrow> length a < 2 ^ 32"
  shows "aq_post q \<and> aq_origin_allowed q \<and> ae_now e < dv_session_until d
    \<and> (\<exists>s. cstring (dv_session d) = Some s \<and> s \<noteq> [] \<and> aq_authorization q = Some (str ''Bearer '' @ s))"
  using dispatch_needs_session [OF assms] .

text \<open>
  C14. Only the device password opens a session. If a request changes the session, it is either a log-out with that session, which erases it, or a log-in from
  an allowed origin whose JSON body holds exactly the password in flash, of at least twelve characters.
\<close>

theorem api_session_needs_password:
  assumes "monitor_api_dispatch e q d = Some (r, d')" "dv_session d' \<noteq> dv_session d" "nvs_fits (ae_nvs e)"
  shows "(aq_path q = str ''/api/logout'' \<and> authorized e q d = Some True \<and> dv_session d' = replicate (length (dv_session d)) 0)
    \<or> (aq_path q = str ''/api/login'' \<and> aq_post q \<and> aq_origin_allowed q
       \<and> (\<exists>j m pw. json_string j ''password'' = Some pw \<and> (\<exists>d1 d2. body e q d1 = Some (j, d2))
         \<and> monitor_store_password (ae_nvs e) (Some (replicate 64 0)) 64 (dv_nvs d) = Some (STORE_OK, Some m) \<and> cstring m = Some pw \<and> 12 \<le> length pw))"
proof (cases "aq_post q \<and> aq_path q = str ''/api/login''")
  case True
  then have l: "login_post e q new_reply d = Some (r, d')" using assms(1) by (simp add: monitor_api_dispatch_def)
  obtain d1 d2 where v: "aq_origin_allowed q" "core d1 = core d" "login_valid e q d1 = Some (True, d2)" using login_post_keeps(2) [OF l assms(2)] by blast
  then show ?thesis using login_valid_password [OF v(3) assms(3)] True by (auto simp: core_def)
next
  case False
  then have "change_post e q new_reply d = Some (r, d')"
    using assms(1,2) unfolding monitor_api_dispatch_def by (auto dest!: status_scan_keep refuse_keeps split: if_splits)
  then obtain j d1 where c: "authorized e q d = Some True" "body e q d = Some (j, d1)" "change_request e (aq_path q) j new_reply d1 = Some (r, d')"
    using assms(2) by (auto simp: change_post_def bind_eq_Some_conv dest!: refuse_keeps dest: body_session split: if_splits)
  have s: "dv_session d1 = dv_session d" using body_session [OF c(2)] .
  show ?thesis using change_request_session [OF c(3)] c(1) s assms(2) by auto
qed


text \<open>A sequence of log-ins, with the status of each answer.\<close>

fun logins :: "('w api_env \<times> monitor_api_request) list \<Rightarrow> 'w device \<Rightarrow> (nat list \<times> 'w device) option" where
  "logins [] d = Some ([], d)"
| "logins ((e, q) # rest) d = do { (r, d) \<leftarrow> login_post e q new_reply d; (rs, d) \<leftarrow> logins rest d; Some (ar_status r # rs, d) }"

lemma failures_step: "dv_failures d < 5 \<Longrightarrow> dv_failures d' = dv_failures d + 1 \<Longrightarrow> Suc (5 - unat (dv_failures d')) = 5 - unat (dv_failures d)"
  by (auto simp: word_less_nat_alt unat_word_ariths)

text \<open>
  C16. Guessing is slow. In any sequence of log-ins within one window of a minute, the wrong ones that were examined (401) are at most five, fewer if some attempts
  of the window are already used, and five more for every log-in of the sequence that succeeded (200, or 503 when its answer could not be built), since a success, which
  needs the password, clears the counter. Whoever does not know the password therefore has at most five guesses in a minute.
\<close>

theorem login_lockout:
  assumes "logins qs d = Some (rs, d')" "\<forall>(e, q) \<in> set qs. ae_now e - dv_failure_window d < 60000"
  shows "set rs \<subseteq> {200, 401, 403, 429, 503}
    \<and> count_list rs 401 \<le> 5 - unat (dv_failures d) + 5 * length (filter (\<lambda>s. s = 200 \<or> s = 503) rs)"
  using assms
proof (induction qs arbitrary: d rs)
  case (Cons x qs)
  obtain e q where x: "x = (e, q)" by fastforce
  obtain r d1 rs1 where s: "login_post e q new_reply d = Some (r, d1)" "logins qs d1 = Some (rs1, d')" "rs = ar_status r # rs1"
    using Cons.prems(1) x by (auto simp: bind_eq_Some_conv)
  have k: "dv_failure_window d1 = dv_failure_window d" "ar_status r = 401 \<and> dv_failures d < 5 \<and> dv_failures d1 = dv_failures d + 1
        \<or> ar_status r \<in> {403, 429} \<and> dv_failures d1 = dv_failures d \<or> ar_status r \<in> {200, 503} \<and> dv_failures d1 = 0"
    using login_post_keeps(3) [OF s(1)] Cons.prems(2) x by auto
  have ih: "set rs1 \<subseteq> {200, 401, 403, 429, 503}" "count_list rs1 401 \<le> 5 - unat (dv_failures d1) + 5 * length (filter (\<lambda>s. s = 200 \<or> s = 503) rs1)"
    using Cons.IH [OF s(2)] Cons.prems(2) k(1) by auto
  then show ?case using s(3) k(2) failures_step [of d d1] by auto
qed simp

section \<open>A device\<close>

definition sample_telemetry :: telemetry where
  "sample_telemetry = \<lparr>tm_revision = 2, tm_cores = 2, tm_cpu_mhz = 160, tm_heap_free = 100000, tm_heap_min = 90000, tm_heap_largest = 50000, tm_psram_total = 0,
     tm_psram_free = 0, tm_flash = 16777216, tm_tasks = 12, tm_reset_reason = 1, tm_sensor = None, tm_time = 0, tm_station = None, tm_clients = None,
     tm_tunnel = zero_snapshot\<rparr>"

definition bare_object :: cJSON where
  "bare_object = CJ CJ_Object None None (Finite 0 0) []"

definition sample_env :: "(string \<times> u8 list) list api_env" where
  "sample_env = \<lparr>ae_now = 1000, ae_random = replicate 32 171, ae_nvs = sample_nvs, ae_parser = \<lambda>_. (Some (bare_object, 2), False),
     ae_print = \<lambda>_ _. (False, []), ae_tree = True, ae_calloc = True, ae_ota = sample_platform,
     ae_gpio = \<lparr>gd_set_level = True, gd_config = True, gd_read = \<lambda>_. 0\<rparr>, ae_pixel = True, ae_refresh = True, ae_base64 = \<lambda>_ _. None,
     ae_telemetry = sample_telemetry\<rparr>"

definition sample_session :: "u8 list" where "sample_session = replicate 64 97"

definition sample_device :: "(string \<times> u8 list) list device" where
  "sample_device = \<lparr>dv_session = sample_session @ [0], dv_session_until = 5000, dv_failure_window = 0, dv_failures = 0, dv_pending_effects = 0,
     dv_effects_after = 0, dv_heap = \<lparr>json_live_bytes = 0, json_allocation_failed = False\<rparr>, dv_ota = zero_upload, dv_pins = pins_init, dv_gpio_calls = [],
     dv_led = True, dv_rgb = led_start, dv_network = zero_network, dv_nvs = []\<rparr>"

definition sample_post :: "string \<Rightarrow> monitor_api_request" where
  "sample_post path = \<lparr>aq_path = str path, aq_authorization = Some (str ''Bearer '' @ sample_session), aq_body = Bytes [123, 125], aq_post = True, aq_json_content = True,
     aq_origin_allowed = True, aq_setup_access = False, aq_remote_access = True\<rparr>"

lemma sample_env_ok: "env_ok sample_env" "nvs_fits (ae_nvs sample_env)"
  by (simp_all add: env_ok_def sample_env_def sample_nvs_laws print_fits_def parser_strings_def bare_object_def del: replicate.simps)

lemma sample_device_ok: "device_ok sample_device" "length (dv_session sample_device) = 65"
  by (simp_all add: device_ok_def sample_device_def sample_session_def zero_network_ok pins_init_ok del: replicate.simps)

lemma sample_authorized: "authorized sample_env (sample_post path) sample_device = Some True"
proof -
  have c: "cstring (sample_session @ [0]) = Some sample_session"
  proof -
    have "takeWhile (\<lambda>c. c \<noteq> 0) (sample_session @ [0]) = sample_session @ takeWhile (\<lambda>c. c \<noteq> 0) [0]"
      by (rule takeWhile_append2) (simp add: sample_session_def del: replicate.simps)
    then show ?thesis by (simp add: cstring_def)
  qed
  have "equal_secret sample_session sample_session 64" by (rule equal_secret_iff [THEN iffD2]) (simp_all add: sample_session_def del: replicate.simps)
  then show ?thesis using c by (simp add: authorized_def sample_post_def sample_device_def sample_env_def load_def nth_append sample_session_def str_def
        del: replicate.simps)
qed

lemma sample_body_at: "body sample_env (sample_post path) (sample_device\<lparr>dv_failures := n\<rparr>) = Some (Some bare_object, sample_device\<lparr>dv_failures := n\<rparr>)"
proof -
  have "valid_lexemes [123, 125] = Some True" by code_simp
  moreover have "nul_free [123, 125]" by code_simp
  moreover have "skip_space [123, 125] 2 = 2" by (simp add: skip_space_def)
  ultimately show ?thesis by (simp add: body_def cf_json_parse_def sample_post_def sample_device_def sample_env_def MONITOR_BODY_MAX_def Let_def)
qed

lemma sample_body: "body sample_env (sample_post path) sample_device = Some (Some bare_object, sample_device)"
  using sample_body_at [of path 0] by (simp add: sample_device_def)

theorem api_device_wellformed_witness:
  "\<exists>r d'. monitor_api_dispatch sample_env (sample_post ''/api/unknown'') sample_device = Some (r, d') \<and> device_ok d' \<and> length (ar_body r) = MONITOR_REPLY_MAX"
  using api_device_wellformed [OF sample_env_ok(1) sample_device_ok(1), of "sample_post ''/api/unknown''"] by blast

lemma sample_access:
  "authorized e (q\<lparr>aq_setup_access := a, aq_remote_access := b\<rparr>) d = authorized e q d" "body e (q\<lparr>aq_setup_access := a, aq_remote_access := b\<rparr>) d = body e q d"
  by (simp_all add: authorized_def body_def cong: if_cong)

text \<open>A restart of the tunnel, asked for with the session, locally or through the tunnel.\<close>

lemma sample_restart:
  "\<exists>r. monitor_api_dispatch sample_env ((sample_post ''/api/tunnel/restart'')\<lparr>aq_setup_access := a, aq_remote_access := b\<rparr>) sample_device = Some (r, sample_device)
     \<and> ar_effects r = 8"
proof -
  let ?p = "sample_post ''/api/tunnel/restart''" let ?q = "?p\<lparr>aq_setup_access := a, aq_remote_access := b\<rparr>"
  have k: "cf_json_keys (Some bare_object) []" by (simp add: cf_json_keys_def cf_cJSON_Is_def bare_object_def)
  obtain r where a: "accept (new_reply\<lparr>ar_effects := or 0 MONITOR_EFFECT_TUNNEL_RESTART\<rparr>) sample_device = Some (r, sample_device)" "ar_effects r = 8"
    using accept_ok [of "new_reply\<lparr>ar_effects := or 0 MONITOR_EFFECT_TUNNEL_RESTART\<rparr>" sample_device] new_reply_ok
    by (auto simp: yields_def reply_effects MONITOR_EFFECT_TUNNEL_RESTART_def)
  have "change_request sample_env (aq_path ?q) (Some bare_object) new_reply sample_device = Some (r, sample_device)"
    using a(1) k new_reply_ok(2) by (simp add: change_request_def sample_post_def str_def)
  moreover have "authorized sample_env ?q sample_device = Some True" "body sample_env ?q sample_device = Some (Some bare_object, sample_device)"
    unfolding sample_access by (rule sample_authorized sample_body)+
  ultimately have "monitor_api_dispatch sample_env ?q sample_device = Some (r, sample_device)"
    by (simp add: monitor_api_dispatch_def change_post_def) (simp add: sample_post_def str_def)
  then show ?thesis using a(2) by blast
qed

theorem api_changes_need_session_witness:
  "\<exists>r d'. monitor_api_dispatch sample_env (sample_post ''/api/tunnel/restart'') sample_device = Some (r, d') \<and> ar_effects r = 8
     \<and> ae_now sample_env < dv_session_until sample_device"
proof -
  let ?q = "sample_post ''/api/tunnel/restart''"
  have "?q\<lparr>aq_setup_access := False, aq_remote_access := True\<rparr> = ?q" by (simp add: sample_post_def)
  then obtain r where d: "monitor_api_dispatch sample_env ?q sample_device = Some (r, sample_device)" "ar_effects r = 8"
    using sample_restart [where a = False and b = True] by auto
  have "\<forall>x. aq_authorization ?q = Some x \<longrightarrow> length x < 2 ^ 32" by (simp add: sample_post_def sample_session_def str_def del: replicate.simps)
  from api_changes_need_session [OF d(1) _ sample_device_ok(2) this] d show ?thesis by auto
qed

theorem api_session_needs_password_witness:
  "\<exists>r d'. monitor_api_dispatch sample_env (sample_post ''/api/logout'') sample_device = Some (r, d') \<and> dv_session d' = replicate 65 0
     \<and> authorized sample_env (sample_post ''/api/logout'') sample_device = Some True"
proof -
  let ?q = "sample_post ''/api/logout''" let ?d = "sample_device\<lparr>dv_session := replicate 65 0, dv_session_until := 0\<rparr>"
  obtain r where a: "accept new_reply ?d = Some (r, ?d)" using accept_ok [OF new_reply_ok(1), of ?d] by (auto simp: yields_def)
  then have "change_request sample_env (aq_path ?q) (Some bare_object) new_reply sample_device = Some (r, ?d)"
    using sample_device_ok(2) by (simp add: change_request_def sample_post_def str_def del: replicate.simps)
  then have d: "monitor_api_dispatch sample_env ?q sample_device = Some (r, ?d)"
    using sample_authorized sample_body by (simp add: monitor_api_dispatch_def change_post_def del: replicate.simps) (simp add: sample_post_def str_def)
  have "dv_session ?d \<noteq> dv_session sample_device"
  proof
    assume "dv_session ?d = dv_session sample_device"
    then have "replicate 65 0 ! 0 = (sample_session @ [0]) ! 0" by (simp add: sample_device_def)
    then show False by (simp add: sample_session_def nth_append)
  qed
  from api_session_needs_password [OF d this sample_env_ok(2)] have "authorized sample_env ?q sample_device = Some True
      \<and> dv_session ?d = replicate (length (dv_session sample_device)) 0"
  proof
    have "aq_path ?q \<noteq> str ''/api/login''" by (simp add: sample_post_def str_def)
    moreover assume "aq_path ?q = str ''/api/login'' \<and> aq_post ?q \<and> aq_origin_allowed ?q
       \<and> (\<exists>j m pw. json_string j ''password'' = Some pw \<and> (\<exists>d1 d2. body sample_env ?q d1 = Some (j, d2))
         \<and> monitor_store_password (ae_nvs sample_env) (Some (replicate 64 0)) 64 (dv_nvs sample_device) = Some (STORE_OK, Some m) \<and> cstring m = Some pw \<and> 12 \<le> length pw)"
    ultimately show ?thesis by blast
  qed blast
  then show ?thesis using d sample_device_ok(2) by (metis)
qed

theorem login_lockout_witness:
  "\<exists>rs d'. logins [(sample_env, sample_post ''/api/login''), (sample_env, sample_post ''/api/login'')] sample_device = Some (rs, d') \<and> count_list rs 401 = 2 \<and> count_list rs 401 \<le> 5"
proof -
  let ?q = "sample_post ''/api/login''"
  have j: "json_string (Some bare_object) k = None" for k
    by (simp add: json_string_def cf_cJSON_GetObjectItemCaseSensitive_def bare_object_def)
  have l: "\<exists>r. login_post sample_env ?q new_reply d = Some (r, d\<lparr>dv_failures := dv_failures d + 1\<rparr>) \<and> ar_status r = 401"
    if "d = sample_device\<lparr>dv_failures := n\<rparr>" "n < 5" for d n
  proof -
    have "body sample_env ?q (d\<lparr>dv_failures := dv_failures d + 1\<rparr>) = Some (Some bare_object, d\<lparr>dv_failures := dv_failures d + 1\<rparr>)"
      using sample_body_at [of "''/api/login''" "n + 1"] that(1) by simp
    then have "login_valid sample_env ?q (d\<lparr>dv_failures := dv_failures d + 1\<rparr>) = Some (False, d\<lparr>dv_failures := dv_failures d + 1\<rparr>)"
      by (simp add: login_valid_def j)
    moreover have "login_window (ae_now sample_env) d = d" using that(1) by (simp add: login_window_def sample_env_def sample_device_def)
    moreover obtain r where "refuse 401 ''Incorrect device password or invalid request.'' new_reply (d\<lparr>dv_failures := dv_failures d + 1\<rparr>) = Some (r, d\<lparr>dv_failures := dv_failures d + 1\<rparr>)"
        "ar_status r = 401"
      using refuse_ok [OF new_reply_ok(1), of 401 "''Incorrect device password or invalid request.''" "d\<lparr>dv_failures := dv_failures d + 1\<rparr>"] refuse_keeps
      by (fastforce simp: yields_def)
    moreover have "aq_origin_allowed ?q" "\<not> dv_failures d \<ge> 5" using that by (simp_all add: sample_post_def not_le)
    ultimately show ?thesis by (simp add: login_post_def Let_def)
  qed
  have s: "sample_device = sample_device\<lparr>dv_failures := 0\<rparr>" by (simp add: sample_device_def)
  obtain r1 where one: "login_post sample_env ?q new_reply sample_device = Some (r1, sample_device\<lparr>dv_failures := 1\<rparr>)" "ar_status r1 = 401"
    using l [OF s] by (auto simp: sample_device_def)
  obtain r2 where two: "login_post sample_env ?q new_reply (sample_device\<lparr>dv_failures := 1\<rparr>) = Some (r2, sample_device\<lparr>dv_failures := 2\<rparr>)" "ar_status r2 = 401"
    using l [OF refl, of 1] by auto
  have run: "logins [(sample_env, ?q), (sample_env, ?q)] sample_device = Some ([401, 401], sample_device\<lparr>dv_failures := 2\<rparr>)" using one two by simp
  have "\<forall>(e, q) \<in> set [(sample_env, ?q), (sample_env, ?q)]. ae_now e - dv_failure_window sample_device < 60000" by (simp add: sample_env_def sample_device_def)
  from login_lockout [OF run this] have "count_list [401, 401 :: nat] 401 \<le> 5" by (simp add: sample_device_def)
  then show ?thesis using run by (auto simp: sample_device_def)
qed

end
