(* ===== verification/Mon_Tunnel.thy ===== *)
theory Mon_Tunnel
  imports Mon_Api
begin

text \<open>
  The stream callbacks of the system monitor, \<^verbatim>\<open>examples/system_monitor/main/monitor_tunnel.c\<close>: a slot per stream of the
  edge that collects a request body, has the request executed once it is complete, and hands out the response.
\<close>

section \<open>Definitions\<close>

text \<open>\<open>rs_data\<close> is the memory the slot's \<open>data\<close> pointer gives access to.\<close>

record response =
  rs_id :: int
  rs_data :: mem
  rs_length :: nat
  rs_sent :: nat
  rs_owned :: "monitor_api_reply option"
  rs_input :: "mem option"
  rs_input_used :: nat
  rs_request :: monitor_remote_head
  rs_head :: bool
  rs_api :: bool
  rs_complete :: bool

definition zero_response :: response where
  "zero_response = \<lparr>rs_id = 0, rs_data = [], rs_length = 0, rs_sent = 0, rs_owned = None, rs_input = None, rs_input_used = 0,
     rs_request = zero_head, rs_head = False, rs_api = False, rs_complete = False\<rparr>"

text \<open>
  What the callbacks use of the rest of the device, whose state is \<open>'w\<close>: whether \<open>malloc\<close> of a size succeeds, the lock around
  JSON, the dispatcher of the interface with its delayed effects, and the pages (address, contents, type).
\<close>

record 'w monitor_services =
  ms_room :: "'w \<Rightarrow> nat \<Rightarrow> bool"
  ms_json_lock :: "'w \<Rightarrow> bool \<times> 'w"
  ms_json_unlock :: "'w \<Rightarrow> 'w"
  ms_dispatch :: "monitor_api_request \<Rightarrow> 'w \<Rightarrow> (monitor_api_reply \<times> 'w) option"
  ms_effects :: "u32 \<Rightarrow> 'w \<Rightarrow> 'w"
  ms_assets :: "(u8 list \<times> u8 list \<times> u8 list) list"

record 'w monitor_state =
  mt_responses :: "response list"
  mt_world :: 'w

fun slot_index :: "int \<Rightarrow> nat \<Rightarrow> response list \<Rightarrow> nat option" where
  "slot_index sid i [] = None"
| "slot_index sid i (s # ss) = (if rs_id s = sid then Some i else slot_index sid (i + 1) ss)"

definition put_slot :: "nat \<Rightarrow> response \<Rightarrow> 'w monitor_state \<Rightarrow> 'w monitor_state" where
  "put_slot i s c = c\<lparr>mt_responses := (mt_responses c)[i := s]\<rparr>"

definition text_header :: "u8 list \<Rightarrow> u8 list \<Rightarrow> cf_header" where
  "text_header name val = \<lparr>hname = Bytes name, hvalue = Bytes val\<rparr>"

definition quoted :: "string \<Rightarrow> u8 list" where
  "quoted s = [39] @ str s @ [39]"

definition security_policy :: "u8 list" where
  "security_policy = str ''default-src '' @ quoted ''self'' @ str ''; script-src '' @ quoted ''self'' @ str ''; style-src '' @ quoted ''self''
     @ str ''; img-src '' @ quoted ''self'' @ str ''; connect-src '' @ quoted ''self'' @ str ''; frame-ancestors '' @ quoted ''none''
     @ str ''; base-uri '' @ quoted ''none'' @ str ''; form-action '' @ quoted ''self''"

definition respond :: "'n nghttp2 \<Rightarrow> nat \<Rightarrow> response \<Rightarrow> nat \<Rightarrow> u8 list \<Rightarrow> 'w monitor_state \<times> 'n cf_h2 \<Rightarrow> (cf_result \<times> 'w monitor_state \<times> 'n cf_h2) option" where
  "respond ng i s status type st = do {
     let s = s\<lparr>rs_complete := True\<rparr>;
     let headers = [text_header (str ''content-type'') type, text_header (str ''content-length'') (decimal (int (rs_length s))),
       text_header (str ''Cache-Control'') (str ''no-store''), text_header (str ''X-Content-Type-Options'') (str ''nosniff''),
       text_header (str ''Referrer-Policy'') (str ''no-referrer''), text_header (str ''Content-Security-Policy'') security_policy];
     (rc, hp) \<leftarrow> cf_h2_respond ng (Some (snd st)) (rs_id s) status (Headers headers) True;
     h \<leftarrow> hp;
     Some (rc, put_slot i s (fst st), h)
   }"

definition fail_response :: "'n nghttp2 \<Rightarrow> nat \<Rightarrow> response \<Rightarrow> nat \<Rightarrow> string \<Rightarrow> 'w monitor_state \<times> 'n cf_h2 \<Rightarrow> (cf_result \<times> 'w monitor_state \<times> 'n cf_h2) option" where
  "fail_response ng i s status why st =
     respond ng i (s\<lparr>rs_data := error_text (str why), rs_length := length (error_text (str why))\<rparr>) status (str ''application/json'') st"

text \<open>The page at a path.\<close>

definition page :: "'w monitor_services \<Rightarrow> u8 list \<Rightarrow> (u8 list \<times> u8 list) option" where
  "page svc path = map_option snd (find (\<lambda>a. fst a = path) (ms_assets svc))"

definition monitor_request :: "'w monitor_services \<Rightarrow> 'n nghttp2 \<Rightarrow> 'w monitor_state \<times> 'n cf_h2 \<Rightarrow> cf_h2_request \<Rightarrow> (cf_result \<times> 'w monitor_state \<times> 'n cf_h2) option" where
  "monitor_request svc ng st r = (case slot_index 0 0 (mt_responses (fst st)) of
     None \<Rightarrow> Some (CF_ERR_LIMIT, st)
   | Some i \<Rightarrow> do {
       s \<leftarrow> load (mt_responses (fst st)) i;
       let room = ms_room svc (mt_world (fst st));
       (rc, hd) \<leftarrow> monitor_remote_parse (room 4608) (Some r) (Some (rs_request s));
       hd \<leftarrow> hd;
       let s = s\<lparr>rs_id := rq_stream r, rs_request := hd\<rparr>;
       if rc \<noteq> CF_OK
       then fail_response ng i s (if rc = CF_ERR_UNSUPPORTED then 405 else 400) ''Unsupported method, body size or ambiguous request headers.'' st
       else do {
         path \<leftarrow> cstring (rh_path hd);
         let s = s\<lparr>rs_head := rh_head hd, rs_api := (take 5 path = str ''/api/'')\<rparr>;
         if rs_api s then
           if rh_post hd then
             if \<not> room MONITOR_BODY_MAX then fail_response ng i (s\<lparr>rs_input := None\<rparr>) 503 ''Not enough memory for this request.'' st
             else Some (CF_OK, put_slot i (s\<lparr>rs_input := Some (replicate MONITOR_BODY_MAX 0)\<rparr>) (fst st), snd st)
           else Some (CF_OK, put_slot i s (fst st), snd st)
         else if rh_post hd then fail_response ng i s 405 ''This page supports GET and HEAD.'' st
         else (case page svc path of
             Some (contents, type) \<Rightarrow> respond ng i (s\<lparr>rs_data := contents, rs_length := length contents\<rparr>) 200 type st
           | None \<Rightarrow> fail_response ng i s 404 ''Page not found.'' st)
       }
     })"

text \<open>The execution of a complete request, with the lock held.\<close>

definition execute :: "'w monitor_services \<Rightarrow> response \<Rightarrow> 'w \<Rightarrow> (monitor_api_reply \<times> 'w) option" where
  "execute svc s w = do {
     path \<leftarrow> cstring (rh_path (rs_request s));
     auth \<leftarrow> cstring (rh_authorization (rs_request s));
     input \<leftarrow> load_n (case rs_input s of Some m \<Rightarrow> m | None \<Rightarrow> []) 0 (rs_input_used s);
     (reply, w) \<leftarrow> ms_dispatch svc \<lparr>aq_path = path, aq_authorization = Some auth, aq_body = Bytes input, aq_post = rh_post (rs_request s),
       aq_json_content = rh_json_content (rs_request s), aq_origin_allowed = rh_origin_allowed (rs_request s),
       aq_setup_access = False, aq_remote_access = True\<rparr> w;
     Some (reply, ms_json_unlock svc (ms_effects svc (ar_effects reply) w))
   }"

definition finish_request :: "'w monitor_services \<Rightarrow> 'n nghttp2 \<Rightarrow> nat \<Rightarrow> response \<Rightarrow> 'w monitor_state \<times> 'n cf_h2 \<Rightarrow> (cf_result \<times> 'w monitor_state \<times> 'n cf_h2) option" where
  "finish_request svc ng i s st =
     (if rh_has_length (rs_request s) \<and> rh_content_length (rs_request s) \<noteq> rs_input_used s
      then fail_response ng i s 400 ''Request body length mismatch.'' st
      else if \<not> ms_room svc (mt_world (fst st)) (MONITOR_REPLY_MAX + 12) then fail_response ng i s 503 ''Not enough memory for this response.'' st
      else let s = s\<lparr>rs_owned := Some new_reply\<rparr>; (locked, w) = ms_json_lock svc (mt_world (fst st)); st = ((fst st)\<lparr>mt_world := w\<rparr>, snd st) in
      if \<not> locked then fail_response ng i s 503 ''The device is busy. Please retry.'' st
      else do {
        (reply, w) \<leftarrow> execute svc s w;
        let s = s\<lparr>rs_owned := Some reply, rs_input := None, rs_request := (rs_request s)\<lparr>rh_authorization := replicate 80 0\<rparr>,
          rs_data := ar_body reply, rs_length := ar_length reply\<rparr>;
        respond ng i s (ar_status reply) (str ''application/json'') ((fst st)\<lparr>mt_world := w\<rparr>, snd st)
      })"

definition monitor_data :: "'w monitor_services \<Rightarrow> 'n nghttp2 \<Rightarrow> 'w monitor_state \<times> 'n cf_h2 \<Rightarrow> int \<Rightarrow> cf_bytes \<Rightarrow> bool \<Rightarrow> (cf_result \<times> 'w monitor_state \<times> 'n cf_h2) option" where
  "monitor_data svc ng st sid bytes fin = (case slot_index sid 0 (mt_responses (fst st)) of
     None \<Rightarrow> Some (CF_ERR_STATE, st)
   | Some i \<Rightarrow> do {
       s \<leftarrow> load (mt_responses (fst st)) i;
       if rs_complete s then Some (CF_OK, st)
       else if bytes_len bytes \<noteq> 0 \<and> (rs_input s = None \<or> bytes_len bytes > size_sub MONITOR_BODY_MAX (rs_input_used s))
       then fail_response ng i s 400 ''Send a JSON object of at most 2048 bytes.'' st
       else do {
         s \<leftarrow> (if bytes_len bytes = 0 then Some s
               else do { m \<leftarrow> rs_input s; m \<leftarrow> store_n m (rs_input_used s) (bytes_list bytes);
                 Some (s\<lparr>rs_input := Some m, rs_input_used := rs_input_used s + bytes_len bytes\<rparr>) });
         if \<not> fin then Some (CF_OK, put_slot i s (fst st), snd st)
         else finish_request svc ng i s st
       }
     })"

definition monitor_read_response :: "'w monitor_state \<times> 'n cf_h2 \<Rightarrow> int \<Rightarrow> nat \<Rightarrow> (cf_result \<times> u8 list \<times> bool \<times> 'w monitor_state \<times> 'n cf_h2) option" where
  "monitor_read_response st sid cap = (case slot_index sid 0 (mt_responses (fst st)) of
     None \<Rightarrow> Some (CF_ERR_STATE, [], False, st)
   | Some i \<Rightarrow> do {
       s \<leftarrow> load (mt_responses (fst st)) i;
       let n = (if rs_head s then 0 else size_sub (rs_length s) (rs_sent s));
       let n = (if n > cap then cap else n);
       out \<leftarrow> load_n (rs_data s) (rs_sent s) n;
       let s = s\<lparr>rs_sent := rs_sent s + n\<rparr>;
       Some (CF_OK, out, rs_head s \<or> rs_sent s = rs_length s, put_slot i s (fst st), snd st)
     })"

definition monitor_closed :: "'w monitor_state \<times> 'n cf_h2 \<Rightarrow> int \<Rightarrow> u32 \<Rightarrow> ('w monitor_state \<times> 'n cf_h2) option" where
  "monitor_closed st sid error = (case slot_index sid 0 (mt_responses (fst st)) of
     None \<Rightarrow> Some st | Some i \<Rightarrow> Some (put_slot i zero_response (fst st), snd st))"

definition monitor_callbacks :: "'w monitor_services \<Rightarrow> 'n nghttp2 \<Rightarrow> ('w monitor_state, 'n) cf_h2_callbacks" where
  "monitor_callbacks svc ng = \<lparr>cb_request = monitor_request svc ng, cb_data = monitor_data svc ng,
     cb_read_response = monitor_read_response, cb_closed = monitor_closed\<rparr>"

text \<open>The services of the device itself during one call: the dispatcher and the delayed effects of the interface.\<close>

definition device_services :: "'w api_env \<Rightarrow> (nat \<Rightarrow> bool) \<Rightarrow> bool \<Rightarrow> (u8 list \<times> u8 list \<times> u8 list) list \<Rightarrow> 'w device monitor_services" where
  "device_services e room lock assets = \<lparr>ms_room = \<lambda>_. room, ms_json_lock = \<lambda>w. (lock, w), ms_json_unlock = \<lambda>w. w,
     ms_dispatch = monitor_api_dispatch e, ms_effects = monitor_api_schedule_effects (ae_now e), ms_assets = assets\<rparr>"

text \<open>
  The other callbacks. \<open>pton\<close> is \<open>inet_pton\<close> for IPv4, \<open>dns\<close> the station's IPv4 name server, if it has one.
\<close>

definition monitor_environment :: "telemetry \<Rightarrow> (u8 list \<Rightarrow> u8 list option) \<Rightarrow> u8 list option \<Rightarrow> 'w device \<Rightarrow> esp_cf_environment" where
  "monitor_environment t pton dns d =
     (let net = monitor_network_snapshot_get (tm_station t) (tm_clients t) (dv_network d) in
      \<lparr>env_network_ready = nt_connected net, env_time_valid = (tm_time t > 1704067200),
       env_local_ip = (case pton (nt_ip net) of Some ip \<Rightarrow> ip | None \<Rightarrow> replicate 4 0),
       env_dns_ip = (case dns of Some ip \<Rightarrow> ip | None \<Rightarrow> replicate 4 0)\<rparr>)"

definition monitor_credentials :: "'w api_env \<Rightarrow> mem \<Rightarrow> 'w device \<Rightarrow> (cf_result \<times> cf_credentials \<times> mem \<times> 'w device) option" where
  "monitor_credentials e hostname d = do {
     hostname \<leftarrow> store hostname 0 0;
     if \<not> ae_calloc e then Some (CF_ERR_MEMORY, zero_credentials, hostname, d)
     else do {
       (rc, c) \<leftarrow> monitor_store_tunnel (ae_nvs e) (dv_nvs d);
       h0 \<leftarrow> load (mc_hostname c) 0;
       t0 \<leftarrow> load (mc_token c) 0;
       if rc = STORE_OK \<and> h0 \<noteq> 0 \<and> t0 \<noteq> 0 then do {
         token \<leftarrow> cstring (mc_token c);
         (rc, _, cred, _, heap) \<leftarrow> cf_credentials_parse (ae_parser e) (Bytes token) (Some (replicate (CF_TOKEN_JSON_MAX + 1) 0)) (CF_TOKEN_JSON_MAX + 1)
           (Some zero_credentials) (dv_heap d);
         cred \<leftarrow> cred;
         name \<leftarrow> cstring (mc_hostname c);
         hostname \<leftarrow> (if rc = CF_OK then store_n hostname 0 (name @ [0]) else Some hostname);
         Some (rc, cred, hostname, d\<lparr>dv_heap := heap\<rparr>)
       } else Some (CF_ERR_STATE, zero_credentials, hostname, d)
     }
   }"

text \<open>
  The configuration of the tunnel. A run of the credentials callback that leaves an array has no result; \<open>credentials_return\<close> shows that there is none.
\<close>

definition monitor_config :: "'w api_env \<Rightarrow> (nat \<Rightarrow> bool) \<Rightarrow> bool \<Rightarrow> (u8 list \<times> u8 list \<times> u8 list) list \<Rightarrow> (u8 list \<Rightarrow> u8 list option) \<Rightarrow> u8 list option
    \<Rightarrow> 'n nghttp2 \<Rightarrow> ('w device monitor_state, 'n) esp_cf_tunnel_config" where
  "monitor_config e room lock assets pton dns ng = \<lparr>tc_environment = \<lambda>a. (monitor_environment (ae_telemetry e) pton dns (mt_world a), a),
     tc_credentials = \<lambda>a out hostname. (case monitor_credentials e hostname (mt_world a) of
         Some (rc, cred, hostname, d) \<Rightarrow> (rc, cred, hostname, a\<lparr>mt_world := d\<rparr>) | None \<Rightarrow> (CF_ERR_STATE, zero_credentials, hostname, a)),
     tc_json_try_lock = \<lambda>a. (lock, a), tc_json_unlock = \<lambda>a. a, tc_callbacks = monitor_callbacks (device_services e room lock assets) ng,
     tc_version = str ''esp-monitor/0.4.0-dev'', tc_arch = str ''esp32s3-espidf6.1'', tc_service = str ''http://localhost:80'', tc_application_streams = 4\<rparr>"

text \<open>The tunnel object, or the application's state alone while there is none, and the request for a restart.\<close>

record 'a monitor_tunnel =
  mu_tunnel :: "'a esp_cf_tunnel + 'a"
  mu_restarting :: bool

definition monitor_tunnel_start :: "('a, 'n) esp_cf_tunnel_config \<Rightarrow> bool \<Rightarrow> bool \<Rightarrow> u8 list \<Rightarrow> json_heap \<Rightarrow> 'a \<Rightarrow> 'a monitor_tunnel \<Rightarrow> esp_err \<times> 'a monitor_tunnel" where
  "monitor_tunnel_start cfg room created rnd json a m =
     (case esp_cf_tunnel_init True room cfg rnd json a of
        (rc, Some t) \<Rightarrow> if rc \<noteq> ESP_OK then (rc, m\<lparr>mu_tunnel := Inr a\<rparr>)
          else (case esp_cf_tunnel_start created (Some t) of (rc, Some t) \<Rightarrow> (rc, m\<lparr>mu_tunnel := Inl t\<rparr>) | (rc, None) \<Rightarrow> (rc, m\<lparr>mu_tunnel := Inr a\<rparr>))
      | (rc, None) \<Rightarrow> (rc, m\<lparr>mu_tunnel := Inr a\<rparr>))"

definition monitor_tunnel_reload :: "'a monitor_tunnel \<Rightarrow> 'a monitor_tunnel" where
  "monitor_tunnel_reload m = (case mu_tunnel m of Inl t \<Rightarrow> (case esp_cf_tunnel_reload (Some t) of Some t \<Rightarrow> m\<lparr>mu_tunnel := Inl t\<rparr> | None \<Rightarrow> m) | Inr _ \<Rightarrow> m)"

definition monitor_tunnel_restart :: "'a monitor_tunnel \<Rightarrow> 'a monitor_tunnel" where
  "monitor_tunnel_restart m = (case mu_tunnel m of
     Inl t \<Rightarrow> (case esp_cf_tunnel_stop (Some t) of Some t \<Rightarrow> m\<lparr>mu_tunnel := Inl t, mu_restarting := True\<rparr> | None \<Rightarrow> m) | Inr _ \<Rightarrow> m)"

definition monitor_tunnel_tick :: "('a, 'n) esp_cf_tunnel_config \<Rightarrow> 'n nghttp2 \<Rightarrow> u64 \<Rightarrow> 'n cf_h2 option \<Rightarrow> bool \<Rightarrow> bool \<Rightarrow> u8 list \<Rightarrow> json_heap
    \<Rightarrow> 'a monitor_tunnel \<Rightarrow> 'a monitor_tunnel option" where
  "monitor_tunnel_tick cfg ng now hp room created rnd json m = (case mu_tunnel m of
     Inr _ \<Rightarrow> Some m
   | Inl t \<Rightarrow> if \<not> mu_restarting m then Some m
       else do {
         (rc, left) \<leftarrow> esp_cf_tunnel_deinit cfg ng now (Some t) hp;
         (case left of
            Some (Inr a) \<Rightarrow> if rc \<noteq> ESP_OK then Some m
              else Some (snd (monitor_tunnel_start cfg room created rnd json a (m\<lparr>mu_tunnel := Inr a, mu_restarting := False\<rparr>)))
          | _ \<Rightarrow> Some m)
       })"

definition monitor_tunnel_snapshot :: "'a monitor_tunnel \<Rightarrow> esp_cf_tunnel_snapshot" where
  "monitor_tunnel_snapshot m = (case mu_tunnel m of Inl t \<Rightarrow> tn_snapshot t | Inr _ \<Rightarrow> zero_snapshot\<lparr>sn_config_version := - 1\<rparr>)"

section \<open>Execution\<close>

lemma respond_world:
  "respond ng i s status type st = Some (rc, st', h') \<Longrightarrow> mt_world st' = mt_world (fst st) \<and> mt_responses st' = (mt_responses (fst st))[i := s\<lparr>rs_complete := True\<rparr>]"
  by (auto simp: respond_def put_slot_def bind_eq_Some_conv Let_def)

lemma fail_world:
  "fail_response ng i s status why st = Some (rc, st', h') \<Longrightarrow> mt_world st' = mt_world (fst st)
    \<and> mt_responses st' = (mt_responses (fst st))[i := s\<lparr>rs_data := error_text (str why), rs_length := length (error_text (str why)), rs_complete := True\<rparr>]"
  unfolding fail_response_def by (drule respond_world) simp

lemma finish_world:
  assumes "finish_request svc ng i s st = Some (rc, st', h')"
  shows "(\<exists>s'. mt_responses st' = (mt_responses (fst st))[i := s'] \<and> rs_complete s' \<and> rs_id s' = rs_id s)
    \<and> (mt_world st' \<noteq> mt_world (fst st) \<longrightarrow> (rh_has_length (rs_request s) \<longrightarrow> rh_content_length (rs_request s) = rs_input_used s))"
  using assms unfolding finish_request_def
  by (auto simp: Let_def case_prod_unfold bind_eq_Some_conv dest!: fail_world respond_world split: if_splits)

lemma slot_index_bound: "slot_index sid i ss = Some j \<Longrightarrow> i \<le> j \<and> j < i + length ss \<and> rs_id (ss ! (j - i)) = sid"
proof (induction ss arbitrary: i)
  case (Cons s ss)
  show ?case
  proof (cases "rs_id s = sid")
    case False
    then have "Suc i \<le> j \<and> j < Suc i + length ss \<and> rs_id (ss ! (j - Suc i)) = sid" using Cons.IH [of "Suc i"] Cons.prems by simp
    moreover from this have "j - i = Suc (j - Suc i)" by linarith
    ultimately show ?thesis by simp
  qed (use Cons.prems in auto)
qed simp

section \<open>The contract of an application\<close>

text \<open>
  A slot: free and zero, or with terminated texts, an input array that holds what was received, and, once it is answered, a response inside its memory.
\<close>

definition slot_ok :: "response \<Rightarrow> bool" where
  "slot_ok s \<longleftrightarrow> (rs_id s = 0 \<longrightarrow> s = zero_response) \<and> 0 \<in> set (rh_path (rs_request s)) \<and> 0 \<in> set (rh_authorization (rs_request s))
     \<and> (\<forall>m. rs_input s = Some m \<longrightarrow> length m = MONITOR_BODY_MAX) \<and> rs_input_used s \<le> MONITOR_BODY_MAX
     \<and> rs_sent s \<le> rs_length s \<and> rs_length s \<le> length (rs_data s)
     \<and> (\<not> rs_complete s \<longrightarrow> rs_length s = 0 \<and> (rs_input s = None \<longrightarrow> rs_input_used s = 0))"

definition monitor_ok :: "('w \<Rightarrow> bool) \<Rightarrow> 'w monitor_state \<Rightarrow> bool" where
  "monitor_ok wok c \<longleftrightarrow> wok (mt_world c) \<and> (\<forall>s \<in> set (mt_responses c). slot_ok s)"

text \<open>What the callbacks need of the device: its operations return and keep its invariant, and a reply lies in its array.\<close>

definition services_ok :: "'w monitor_services \<Rightarrow> ('w \<Rightarrow> bool) \<Rightarrow> bool" where
  "services_ok svc wok \<longleftrightarrow> (\<forall>w. wok w \<longrightarrow> wok (snd (ms_json_lock svc w)) \<and> wok (ms_json_unlock svc w) \<and> (\<forall>n. wok (ms_effects svc n w))
     \<and> (\<forall>q. \<exists>r w'. ms_dispatch svc q w = Some (r, w') \<and> wok w' \<and> ar_length r \<le> length (ar_body r)))"

lemma zero_slot_ok: "slot_ok zero_response"
  by (simp add: slot_ok_def zero_response_def zero_head_def del: replicate.simps)

lemma put_slot_ok: "monitor_ok wok c \<Longrightarrow> slot_ok s \<Longrightarrow> monitor_ok wok (put_slot i s c)"
  by (auto simp: monitor_ok_def put_slot_def dest!: set_update_subset_insert [THEN subsetD])

text \<open>The outcome of a callback.\<close>

definition acted :: "('w \<Rightarrow> bool) \<Rightarrow> 'n cf_h2 \<Rightarrow> (cf_result \<times> 'w monitor_state \<times> 'n cf_h2) option \<Rightarrow> bool" where
  "acted wok h m \<longleftrightarrow> (\<exists>rc c' h'. m = Some (rc, c', h') \<and> monitor_ok wok c' \<and> h2_touch h h')"

lemma respond_acted:
  assumes "h2_core h" "monitor_ok wok c" "slot_ok (s\<lparr>rs_complete := True\<rparr>)"
  shows "acted wok h (respond ng i s status type (c, h))"
proof -
  obtain rc h' where "cf_h2_respond ng (Some h) (rs_id s) status
      (Headers [text_header (str ''content-type'') type, text_header (str ''content-length'') (decimal (int (rs_length s))),
       text_header (str ''Cache-Control'') (str ''no-store''), text_header (str ''X-Content-Type-Options'') (str ''nosniff''),
       text_header (str ''Referrer-Policy'') (str ''no-referrer''), text_header (str ''Content-Security-Policy'') security_policy]) True = Some (rc, Some h')" "h2_touch h h'"
    using respond_touch [OF assms(1)] by blast
  then show ?thesis using put_slot_ok [OF assms(2,3), of i] by (auto simp: acted_def respond_def Let_def)
qed

lemma fail_acted:
  assumes "h2_core h" "monitor_ok wok c" "slot_ok s" "\<not> rs_complete s" "rs_id s \<noteq> 0"
  shows "acted wok h (fail_response ng i s status why (c, h))"
  unfolding fail_response_def by (rule respond_acted [OF assms(1,2)]) (use assms(3-5) in \<open>auto simp: slot_ok_def\<close>)

lemma remote_parse_texts:
  "\<exists>rc hd. monitor_remote_parse room (Some r) (Some h0) = Some (rc, Some hd) \<and> 0 \<in> set (rh_path hd) \<and> 0 \<in> set (rh_authorization hd)"
proof -
  let ?m = "bytes_list (cf_h2_header r (str '':method''))" let ?p = "bytes_list (cf_h2_header r (str '':path''))"
  let ?au = "bytes_list (cf_h2_header r (str '':authority''))" let ?q = "takeWhile (\<lambda>c. c \<noteq> ch CHR ''?'') ?p"
  define out where "out = zero_head\<lparr>rh_post := (?m = str ''POST''), rh_head := (?m = str ''HEAD'')\<rparr>"
  have z: "text_in 128 (rh_path out)" "text_in 80 (rh_authorization out)" "text_in 272 (replicate 272 0)" "text_in 64 (replicate 64 0)" "0 \<in> set (rh_path zero_head)" "0 \<in> set (rh_authorization zero_head)"
    by (simp_all add: out_def zero_head_def text_in_def del: replicate.simps)
  obtain rc1 m where c: "copy_text ?q (rh_path out) 128 = Some (rc1, m)" "text_in 128 m" using copy_text_total [OF z(1)] by blast
  define f where "f = \<lparr>rf_seen = 0, rf_origin = replicate 272 0, rf_type = replicate 64 0, rf_out = out\<lparr>rh_path := m\<rparr>\<rparr>"
  have "fields_ok f" using z by (simp add: fields_ok_def f_def out_def zero_head_def del: replicate.simps)
  then obtain rc f' where g: "remote_collect room f r ?au = Some (rc, f')" "fields_ok f'" "line_of f' = line_of f" using collect_total by blast
  have path: "rh_path (rf_out f') = m" using g(3) by (simp add: line_of_def f_def)
  have t: "0 \<in> set (rh_path (rf_out f'))" "0 \<in> set (rh_authorization (rf_out f'))" "0 \<in> set m" "0 \<in> set (rh_path out)" "0 \<in> set (rh_authorization out)"
    using path c(2) g(2) z by (auto simp: fields_ok_def text_in_def)
  have "\<exists>rc hd. x = Some (rc, Some hd) \<and> 0 \<in> set (rh_path hd) \<and> 0 \<in> set (rh_authorization hd)"
    if "x = (if b then Some (r1, Some out) else if b' then Some (r2, Some out) else if rc1 \<noteq> CF_OK then Some (rc1, Some (out\<lparr>rh_path := m\<rparr>))
      else Some (rc, Some (if rc = CF_OK then rf_out f' else zero_head)))" for x b b' r1 r2
    using that t z(5,6) by (cases b; cases b'; cases "rc1 = CF_OK"; cases "rc = CF_OK") auto
  moreover have "monitor_remote_parse room (Some r) (Some h0) = (if \<not> rh_post out \<and> \<not> rh_head out \<and> ?m \<noteq> str ''GET'' then Some (CF_ERR_UNSUPPORTED, Some out)
      else if ?p = [] \<or> hd ?p \<noteq> ch CHR ''/'' \<or> ?au = [] \<or> length ?au > 253 then Some (CF_ERR_FORMAT, Some out)
      else if rc1 \<noteq> CF_OK then Some (rc1, Some (out\<lparr>rh_path := m\<rparr>)) else Some (rc, Some (if rc = CF_OK then rf_out f' else zero_head)))"
    using c(1) g(1) unfolding f_def out_def monitor_remote_parse_def Let_def
    by (cases "?m = str ''POST'' \<or> ?m = str ''HEAD'' \<or> ?m = str ''GET''"; cases "?p = [] \<or> hd ?p \<noteq> ch CHR ''/'' \<or> ?au = [] \<or> length ?au > 253")
      (simp_all del: replicate.simps, blast)
  ultimately show ?thesis by blast
qed

lemma request_acted:
  assumes c: "monitor_ok wok c" and h: "h2_core h" and r: "rq_stream r \<noteq> 0"
  shows "acted wok h (monitor_request svc ng (c, h) r)"
proof (cases "slot_index 0 0 (mt_responses c)")
  case None
  then show ?thesis using c by (auto simp: monitor_request_def acted_def)
next
  case (Some i)
  note b = slot_index_bound [OF Some]
  have s: "load (mt_responses c) i = Some zero_response"
    using b c nth_mem [of i "mt_responses c"] by (auto simp: load_def monitor_ok_def slot_ok_def)
  define room where "room = ms_room svc (mt_world c)"
  obtain rc hd where p: "monitor_remote_parse (room 4608) (Some r) (Some (rs_request zero_response)) = Some (rc, Some hd)"
      "0 \<in> set (rh_path hd)" "0 \<in> set (rh_authorization hd)" using remote_parse_texts by blast
  obtain path where path: "cstring (rh_path hd) = Some path" using p(2) by (simp add: cstring_def)
  define s1 where "s1 = zero_response\<lparr>rs_id := rq_stream r, rs_request := hd\<rparr>"
  define s2 where "s2 = s1\<lparr>rs_head := rh_head hd, rs_api := (take 5 path = str ''/api/'')\<rparr>"
  have ok: "slot_ok s1" "slot_ok s2" "\<not> rs_complete s1" "\<not> rs_complete s2" "rs_id s1 \<noteq> 0" "rs_id s2 \<noteq> 0"
      "slot_ok (s2\<lparr>rs_input := Some (replicate MONITOR_BODY_MAX 0)\<rparr>)" "s2\<lparr>rs_input := None\<rparr> = s2"
      "slot_ok (s2\<lparr>rs_data := d, rs_length := length d, rs_complete := True\<rparr>)" for d
    using p(2,3) r by (simp_all add: s1_def s2_def slot_ok_def zero_response_def del: replicate.simps)
  have put: "acted wok h (Some (CF_OK, put_slot i s c, h))" if "slot_ok s" for s using put_slot_ok [OF c that] by (auto simp: acted_def)
  have page: "acted wok h (respond ng i (s2\<lparr>rs_data := d, rs_length := length d\<rparr>) 200 ty (c, h))" for d ty
    by (rule respond_acted [OF h c]) (use ok(9) in simp)
  have "monitor_request svc ng (c, h) r = (if rc \<noteq> CF_OK
       then fail_response ng i s1 (if rc = CF_ERR_UNSUPPORTED then 405 else 400) ''Unsupported method, body size or ambiguous request headers.'' (c, h)
       else if rs_api s2 then
           if rh_post hd then
             if \<not> room MONITOR_BODY_MAX then fail_response ng i (s2\<lparr>rs_input := None\<rparr>) 503 ''Not enough memory for this request.'' (c, h)
             else Some (CF_OK, put_slot i (s2\<lparr>rs_input := Some (replicate MONITOR_BODY_MAX 0)\<rparr>) c, h)
           else Some (CF_OK, put_slot i s2 c, h)
         else if rh_post hd then fail_response ng i s2 405 ''This page supports GET and HEAD.'' (c, h)
         else (case page svc path of
             Some (contents, type) \<Rightarrow> respond ng i (s2\<lparr>rs_data := contents, rs_length := length contents\<rparr>) 200 type (c, h)
           | None \<Rightarrow> fail_response ng i s2 404 ''Page not found.'' (c, h)))"
    using Some s p(1) path unfolding monitor_request_def room_def s1_def s2_def by (simp add: Let_def del: replicate.simps)
  then show ?thesis using fail_acted [OF h c ok(1,3,5)] fail_acted [OF h c ok(2,4,6)] put [OF ok(7)] put [OF ok(2)] page ok(8)
    by (simp split: option.split del: replicate.simps)
qed


lemma finish_acted:
  assumes v: "services_ok svc wok" and c: "monitor_ok wok c" and h: "h2_core h" and s: "slot_ok s" "\<not> rs_complete s" "rs_id s \<noteq> 0"
  shows "acted wok h (finish_request svc ng i s (c, h))"
proof -
  have w: "wok (mt_world c)" using c by (simp add: monitor_ok_def)
  obtain locked w1 where lock: "ms_json_lock svc (mt_world c) = (locked, w1)" by fastforce
  have w1: "wok w1" using v w lock unfolding services_ok_def by (metis snd_conv)
  let ?s = "s\<lparr>rs_owned := Some new_reply\<rparr>"
  have ok: "slot_ok ?s" "\<not> rs_complete ?s" "rs_id ?s \<noteq> 0" using s by (simp_all add: slot_ok_def)
  have c1: "monitor_ok wok (c\<lparr>mt_world := x\<rparr>)" if "wok x" for x using c that by (simp add: monitor_ok_def)
  obtain path auth where t: "cstring (rh_path (rs_request ?s)) = Some path" "cstring (rh_authorization (rs_request ?s)) = Some auth"
    using s(1) by (auto simp: slot_ok_def cstring_def)
  have "rs_input_used ?s \<le> length (case rs_input ?s of Some m \<Rightarrow> m | None \<Rightarrow> [])" using s(1,2) by (auto simp: slot_ok_def split: option.split)
  then obtain bs where bs: "load_n (case rs_input ?s of Some m \<Rightarrow> m | None \<Rightarrow> []) 0 (rs_input_used ?s) = Some bs" by (simp add: load_n_def)
  obtain r w2 where d: "ms_dispatch svc \<lparr>aq_path = path, aq_authorization = Some auth, aq_body = Bytes bs, aq_post = rh_post (rs_request ?s),
       aq_json_content = rh_json_content (rs_request ?s), aq_origin_allowed = rh_origin_allowed (rs_request ?s),
       aq_setup_access = False, aq_remote_access = True\<rparr> w1 = Some (r, w2)" "wok w2" "ar_length r \<le> length (ar_body r)"
    using v w1 unfolding services_ok_def by blast
  define w3 where "w3 = ms_json_unlock svc (ms_effects svc (ar_effects r) w2)"
  have w3: "wok w3" using v d(2) unfolding services_ok_def w3_def by blast
  have e: "execute svc ?s w1 = Some (r, w3)" unfolding execute_def t bs by (simp add: d(1) [simplified] w3_def)
  define s2 where "s2 = ?s\<lparr>rs_owned := Some r, rs_input := None, rs_request := (rs_request s)\<lparr>rh_authorization := replicate 80 0\<rparr>,
          rs_data := ar_body r, rs_length := ar_length r\<rparr>"
  have "slot_ok (s2\<lparr>rs_complete := True\<rparr>)" using s d(3) by (auto simp: slot_ok_def s2_def simp del: replicate.simps)
  then have answer: "acted wok h (respond ng i s2 (ar_status r) (str ''application/json'') (c\<lparr>mt_world := w3\<rparr>, h))"
    using respond_acted [OF h c1 [OF w3]] by blast
  have "finish_request svc ng i s (c, h) =
     (if rh_has_length (rs_request s) \<and> rh_content_length (rs_request s) \<noteq> rs_input_used s then fail_response ng i s 400 ''Request body length mismatch.'' (c, h)
      else if \<not> ms_room svc (mt_world c) (MONITOR_REPLY_MAX + 12) then fail_response ng i s 503 ''Not enough memory for this response.'' (c, h)
      else if \<not> locked then fail_response ng i ?s 503 ''The device is busy. Please retry.'' (c\<lparr>mt_world := w1\<rparr>, h)
      else respond ng i s2 (ar_status r) (str ''application/json'') (c\<lparr>mt_world := w3\<rparr>, h))"
    unfolding finish_request_def Let_def fst_conv snd_conv lock prod.case e s2_def by (simp del: replicate.simps)
  then show ?thesis using fail_acted [OF h c s] fail_acted [OF h c1 [OF w1] ok] answer by simp
qed

lemma data_acted:
  assumes v: "services_ok svc wok" and c: "monitor_ok wok c" and h: "h2_core h" and b: "\<not> bytes_bad bytes" and sid: "sid \<noteq> 0"
  shows "acted wok h (monitor_data svc ng (c, h) sid bytes fin)"
proof (cases "slot_index sid 0 (mt_responses c)")
  case None
  then show ?thesis using c by (auto simp: monitor_data_def acted_def)
next
  case (Some i)
  define s where "s = mt_responses c ! i"
  have i: "i < length (mt_responses c)" "rs_id s \<noteq> 0" using slot_index_bound [OF Some] sid by (auto simp: s_def)
  have s: "slot_ok s" using c i(1) by (simp add: monitor_ok_def s_def)
  have ld: "load (mt_responses c) i = Some s" using i(1) by (simp add: load_Some s_def)
  show ?thesis
  proof (cases "rs_complete s \<or> (bytes_len bytes \<noteq> 0 \<and> (rs_input s = None \<or> bytes_len bytes > size_sub MONITOR_BODY_MAX (rs_input_used s)))")
    case True
    then show ?thesis using Some ld c fail_acted [OF h c s _ i(2)] by (cases "rs_complete s") (auto simp: monitor_data_def acted_def)
  next
    case False
    have nc: "\<not> rs_complete s" using False by blast
    have nb: "\<not> (bytes_len bytes \<noteq> 0 \<and> (rs_input s = None \<or> bytes_len bytes > size_sub MONITOR_BODY_MAX (rs_input_used s)))" using False by blast
    have "\<exists>s1. (if bytes_len bytes = 0 then Some s
         else do { m \<leftarrow> rs_input s; m \<leftarrow> store_n m (rs_input_used s) (bytes_list bytes);
                 Some (s\<lparr>rs_input := Some m, rs_input_used := rs_input_used s + bytes_len bytes\<rparr>) }) = Some s1 \<and> slot_ok s1 \<and> \<not> rs_complete s1 \<and> rs_id s1 \<noteq> 0"
    proof (cases "bytes_len bytes = 0")
      case True then show ?thesis using s nc i(2) by simp
    next
      case nz: False
      then obtain m where m: "rs_input s = Some m" "bytes_len bytes \<le> size_sub MONITOR_BODY_MAX (rs_input_used s)" using False by auto
      have l: "length m = MONITOR_BODY_MAX" "rs_input_used s \<le> MONITOR_BODY_MAX" using s m(1) by (auto simp: slot_ok_def)
      have fit: "rs_input_used s + bytes_len bytes \<le> MONITOR_BODY_MAX" using m(2) l(2) by (simp add: size_sub_def MONITOR_BODY_MAX_def split: if_splits)
      have bl: "length (bytes_list bytes) = bytes_len bytes" using b by (simp add: bytes_list_len)
      then show ?thesis using m(1) l fit s nc i(2) by (auto simp: store_n_Some slot_ok_def)
    qed
    then obtain s1 where s1: "(if bytes_len bytes = 0 then Some s
         else do { m \<leftarrow> rs_input s; m \<leftarrow> store_n m (rs_input_used s) (bytes_list bytes);
                 Some (s\<lparr>rs_input := Some m, rs_input_used := rs_input_used s + bytes_len bytes\<rparr>) }) = Some s1" "slot_ok s1" "\<not> rs_complete s1" "rs_id s1 \<noteq> 0" by blast
    have "monitor_data svc ng (c, h) sid bytes fin = (if \<not> fin then Some (CF_OK, put_slot i s1 c, h) else finish_request svc ng i s1 (c, h))"
      unfolding monitor_data_def fst_conv snd_conv Some option.case ld by (simp only: bind.bind_lunit if_not_P [OF nc] if_not_P [OF nb] s1(1))
    then show ?thesis using put_slot_ok [OF c s1(2), of i] finish_acted [OF v c h s1(2-4)] by (auto simp: acted_def)
  qed
qed

lemma read_total:
  assumes c: "monitor_ok wok c"
  shows "\<exists>rc bytes eof c'. monitor_read_response (c, h) sid cap = Some (rc, bytes, eof, c', h) \<and> monitor_ok wok c'"
proof (cases "slot_index sid 0 (mt_responses c)")
  case None
  then show ?thesis using c by (auto simp: monitor_read_response_def)
next
  case (Some i)
  define s where "s = mt_responses c ! i"
  have i: "i < length (mt_responses c)" using slot_index_bound [OF Some] by simp
  have s: "slot_ok s" using c i by (simp add: monitor_ok_def s_def)
  define n where "n = (let n = (if rs_head s then 0 else size_sub (rs_length s) (rs_sent s)) in if n > cap then cap else n)"
  have n: "rs_sent s + n \<le> rs_length s" using s by (auto simp: n_def slot_ok_def size_sub_def Let_def)
  then have "load_n (rs_data s) (rs_sent s) n = Some (take n (drop (rs_sent s) (rs_data s)))" using s by (simp add: load_n_Some slot_ok_def)
  moreover have "slot_ok (s\<lparr>rs_sent := rs_sent s + n\<rparr>)" using s n by (auto simp: slot_ok_def zero_response_def)
  ultimately show ?thesis using Some i put_slot_ok [OF c, of "s\<lparr>rs_sent := rs_sent s + n\<rparr>" i]
    by (auto simp: monitor_read_response_def load_Some s_def [symmetric] n_def Let_def)
qed

text \<open>The callbacks meet the contract of the HTTP/2 engine, whatever device is behind them.\<close>

lemma monitor_application:
  assumes "services_ok svc wok" shows "h2_application (monitor_callbacks svc ng) (monitor_ok wok)"
proof
  fix c :: "'a monitor_state" and h :: "'b cf_h2"
  assume c: "monitor_ok wok c" and h: "h2_core h"
  have t: "h2_touch h h" by simp
  show "\<exists>rc c' h'. cb_request (monitor_callbacks svc ng) (c, h) r = Some (rc, c', h') \<and> monitor_ok wok c' \<and> h2_touch h h'" if "rq_stream r \<noteq> 0" for r
    using request_acted [OF c h that, of svc ng] by (simp add: monitor_callbacks_def acted_def)
  show "\<exists>rc c' h'. cb_data (monitor_callbacks svc ng) (c, h) sid b fin = Some (rc, c', h') \<and> monitor_ok wok c' \<and> h2_touch h h'"
    if "\<not> bytes_bad b" "sid \<noteq> 0" for b sid fin using data_acted [OF assms c h that, of ng fin] by (simp add: monitor_callbacks_def acted_def)
  show "\<exists>rc bytes eof c' h'. cb_read_response (monitor_callbacks svc ng) (c, h) sid cap = Some (rc, bytes, eof, c', h') \<and> monitor_ok wok c' \<and> h2_touch h h'" for sid cap
    using read_total [OF c, of h sid cap] t by (auto simp: monitor_callbacks_def)
  show "\<exists>c' h'. cb_closed (monitor_callbacks svc ng) (c, h) sid e = Some (c', h') \<and> monitor_ok wok c' \<and> h2_touch h h'" for sid e
    using put_slot_ok [OF c zero_slot_ok] c t by (auto simp: monitor_callbacks_def monitor_closed_def split: option.split)
qed

lemma device_services_ok:
  fixes e :: "'w api_env"
  assumes "env_ok e" shows "services_ok (device_services e room lock assets) device_ok"
proof -
  have d: "\<exists>r w'. monitor_api_dispatch e q w = Some (r, w') \<and> device_ok w' \<and> ar_length r \<le> length (ar_body r)" if "device_ok w" for q w
    using dispatch_fine [OF assms that, of q] by (auto simp: fine_def yields_def reply_ok_def)
  have "device_ok (monitor_api_schedule_effects now n w) = device_ok w" for now n and w :: "'w device" by (simp add: monitor_api_schedule_effects_def device_ok_def)
  then show ?thesis using d by (simp add: services_ok_def device_services_def)
qed

lemma credentials_return:
  assumes e: "env_ok e" and l: "length hostname = 254"
  shows "yields (monitor_credentials e hostname d) (\<lambda>(rc, cred, hostname', d'). length hostname' = 254 \<and> (device_ok d \<longrightarrow> device_ok d'))"
proof -
  obtain rc c where c: "monitor_store_tunnel (ae_nvs e) (dv_nvs d) = Some (rc, c)" "tunnel_ok c"
    using store_tunnel_yields [OF env_storage [OF e], of "dv_nvs d"] by (auto simp: yields_def)
  obtain token name where t: "cstring (mc_token c) = Some token" "cstring (mc_hostname c) = Some name" "length name < 254"
    using c(2) cstring_within [of "mc_token c"] cstring_within [of "mc_hostname c"] by (auto simp: tunnel_ok_def)
  obtain rc2 b cred dg h where p: "cf_credentials_parse (ae_parser e) (Bytes token) (Some (replicate (CF_TOKEN_JSON_MAX + 1) 0)) (CF_TOKEN_JSON_MAX + 1)
      (Some zero_credentials) (dv_heap d) = Some (rc2, b, Some cred, dg, h)"
    using parse_yields [of "ae_parser e" "CF_TOKEN_JSON_MAX + 1" "replicate (CF_TOKEN_JSON_MAX + 1) 0" "Bytes token" zero_credentials None "dv_heap d"] e
    unfolding cf_credentials_parse_def env_ok_def by (auto simp: yields_def simp del: replicate.simps split: if_splits)
  have s: "store hostname 0 0 = Some (hostname[0 := 0])" "load (mc_hostname c) 0 = Some (mc_hostname c ! 0)" "load (mc_token c) 0 = Some (mc_token c ! 0)"
      "store_n (hostname[0 := 0]) 0 (name @ [0]) = Some (splice (hostname[0 := 0]) 0 (name @ [0]))" "length (splice (hostname[0 := 0]) 0 (name @ [0])) = 254"
    using l c(2) t(3) by (auto simp: store_def load_def tunnel_ok_def store_n_Some)
  show ?thesis using c(1) t(1,2) p s l by (auto simp: monitor_credentials_def yields_def simp del: replicate.simps)
qed

interpretation monitor: h2_application "monitor_callbacks (device_services sample_env (\<lambda>_. True) True []) willing" willing "monitor_ok device_ok"
  by (rule monitor_application [OF device_services_ok [OF sample_env_ok(1)]])

section \<open>Properties\<close>

text \<open>
  C11. Execution of a request of the edge. A call with body data acts on the device only when it ends the stream, the slot
  has not been answered, and the body received is as long as announced; and then the slot is answered, so that no later data
  of that stream acts again.
\<close>

theorem monitor_executes_once:
  assumes "monitor_data svc ng (c, h) sid bytes fin = Some (rc, c', h')" "mt_world c' \<noteq> mt_world c"
  shows "\<exists>i. slot_index sid 0 (mt_responses c) = Some i \<and> i < length (mt_responses c) \<and> fin
    \<and> \<not> rs_complete (mt_responses c ! i) \<and> rs_complete (mt_responses c' ! i) \<and> rs_id (mt_responses c' ! i) = sid
    \<and> (rh_has_length (rs_request (mt_responses c ! i))
        \<longrightarrow> rh_content_length (rs_request (mt_responses c ! i)) = rs_input_used (mt_responses c ! i) + bytes_len bytes)"
proof -
  obtain i where i: "slot_index sid 0 (mt_responses c) = Some i"
    using assms by (cases "slot_index sid 0 (mt_responses c)") (auto simp: monitor_data_def)
  define s where "s = mt_responses c ! i"
  have b: "i < length (mt_responses c)" "rs_id s = sid" using slot_index_bound [OF i] by (auto simp: s_def)
  have ld: "load (mt_responses c) i = Some s" using b(1) by (simp add: load_Some s_def)
  define big where "big \<longleftrightarrow> bytes_len bytes \<noteq> 0 \<and> (rs_input s = None \<or> bytes_len bytes > size_sub MONITOR_BODY_MAX (rs_input_used s))"
  define fill where "fill = (if bytes_len bytes = 0 then Some s
         else do { m \<leftarrow> rs_input s; m \<leftarrow> store_n m (rs_input_used s) (bytes_list bytes);
                 Some (s\<lparr>rs_input := Some m, rs_input_used := rs_input_used s + bytes_len bytes\<rparr>) })"
  have run: "monitor_data svc ng (c, h) sid bytes fin = (if rs_complete s then Some (CF_OK, c, h)
      else if big then fail_response ng i s 400 ''Send a JSON object of at most 2048 bytes.'' (c, h)
      else do { s1 \<leftarrow> fill; if \<not> fin then Some (CF_OK, put_slot i s1 c, h) else finish_request svc ng i s1 (c, h) })"
    using i ld by (simp add: monitor_data_def big_def fill_def)
  have nc: "\<not> rs_complete s" using assms run by auto
  have nb: "\<not> big" using assms run nc fail_world [of ng i s 400 _ "(c, h)" rc c' h'] by auto
  obtain s1 where s1: "fill = Some s1"
      "(if \<not> fin then Some (CF_OK, put_slot i s1 c, h) else finish_request svc ng i s1 (c, h)) = Some (rc, c', h')"
    using assms(1) run nc nb by (auto simp: bind_eq_Some_conv)
  have f: "rs_request s1 = rs_request s" "rs_id s1 = rs_id s" "rs_input_used s1 = rs_input_used s + bytes_len bytes"
    using s1(1) by (auto simp: fill_def bind_eq_Some_conv split: if_splits)
  have fin: "fin" using s1(2) assms(2) by (auto simp: put_slot_def split: if_splits)
  with s1(2) have "finish_request svc ng i s1 (c, h) = Some (rc, c', h')" by simp
  from finish_world [OF this] assms(2) obtain s' where s': "mt_responses c' = (mt_responses c)[i := s']" "rs_complete s'" "rs_id s' = rs_id s1"
      "rh_has_length (rs_request s1) \<longrightarrow> rh_content_length (rs_request s1) = rs_input_used s1" by auto
  show ?thesis using i b fin nc s' f by (simp add: s_def)
qed

definition sample_services :: "nat monitor_services" where
  "sample_services = \<lparr>ms_room = \<lambda>_ _. True, ms_json_lock = \<lambda>w. (True, w), ms_json_unlock = \<lambda>w. w,
     ms_dispatch = \<lambda>r w. Some (new_reply\<lparr>ar_status := 200\<rparr>, w + 1), ms_effects = \<lambda>_ w. w, ms_assets = []\<rparr>"

definition sample_monitor :: "nat monitor_state" where
  "sample_monitor = \<lparr>mt_responses = [zero_response\<lparr>rs_id := 5, rs_api := True\<rparr>, zero_response], mt_world = 0\<rparr>"

theorem monitor_executes_once_witness:
  "\<exists>rc c' h'. monitor_data sample_services willing (sample_monitor, h2_new 2 8192 ()) 5 (Null_Bytes 0) True = Some (rc, c', h')
     \<and> mt_world c' = 1 \<and> rs_complete (mt_responses c' ! 0)"
proof -
  let ?H = "h2_new 2 8192 ()" let ?d = "monitor_data sample_services willing (sample_monitor, ?H) 5 (Null_Bytes 0) True"
  have none: "find_index P i ss = None" if "\<And>x. x \<in> set ss \<Longrightarrow> \<not> P x" for P i ss using that by (induction ss arbitrary: i) auto
  have "find_stream ?H 5 = None" unfolding find_stream_def by (rule none) (auto simp: h2_new_def zero_stream_def)
  then have r: "respond willing i s 200 ty (c, ?H) = Some (CF_ERR_STATE, put_slot i (s\<lparr>rs_complete := True\<rparr>) c, ?H)"
    if "rs_id s = 5" for i s ty and c :: "nat monitor_state" using that by (simp add: respond_def cf_h2_respond_def)
  let ?s = "zero_response\<lparr>rs_id := 5, rs_api := True\<rparr>"
  have e: "execute sample_services (?s\<lparr>rs_owned := Some new_reply\<rparr>) w = Some (new_reply\<lparr>ar_status := 200\<rparr>, w + 1)" for w
    by (simp add: execute_def sample_services_def zero_response_def zero_head_def cstring_def load_n_def del: replicate.simps)
  have sv: "ms_room sample_services w n" "ms_json_lock sample_services w = (True, w)" for w n by (simp_all add: sample_services_def)
  have "?d = finish_request sample_services willing 0 ?s (sample_monitor, ?H)"
    by (simp add: monitor_data_def sample_monitor_def load_def zero_response_def)
  also have "\<exists>c'. \<dots> = Some (CF_ERR_STATE, c', ?H) \<and> mt_world c' = 1"
    using e [of 0] r by (simp add: finish_request_def sv sample_monitor_def zero_response_def zero_head_def put_slot_def new_reply_def del: replicate.simps)
  finally obtain rc c' h' where d: "?d = Some (rc, c', h')" "mt_world c' = 1" by blast
  have w: "mt_world c' \<noteq> mt_world sample_monitor" using d(2) by (simp add: sample_monitor_def)
  from monitor_executes_once [OF d(1) w] have "rs_complete (mt_responses c' ! 0)" by (auto simp: sample_monitor_def zero_response_def)
  then show ?thesis using d by blast
qed


text \<open>
  C5. The whole device behind the edge. With the monitor as the tunnel's application, over its real interface, settings, update and network state: whatever
  the edge sends over HTTP/2, in whatever sequence of callbacks, everything returns without leaving an array, and session, engine, response slots and
  device are well formed again.
\<close>

theorem monitor_device_safe:
  assumes "env_ok e" "cfg = monitor_config e room lock assets pton dns ng" "session_ok t" "monitor_ok device_ok (tn_app t)" "h2_inv h"
    and "events_ok (tunnel_callbacks cfg ng now) ng es (t, h)"
  shows "\<exists>t' h'. h2_events (tunnel_callbacks cfg ng now) ng es (t, h) = Some (t', h') \<and> session_ok t' \<and> monitor_ok device_ok (tn_app t') \<and> h2_inv h'"
proof -
  have "h2_application (tc_callbacks cfg) (monitor_ok device_ok)"
    using monitor_application [OF device_services_ok [OF assms(1)]] by (simp add: assms(2) monitor_config_def)
  then have host: "tunnel_host cfg (monitor_ok device_ok)" by (rule tunnel_host.intro)
  show ?thesis using tunnel_host.session_events [OF host assms(3-6)] .
qed

definition sample_monitor_cfg :: "((string \<times> u8 list) list device monitor_state, unit) esp_cf_tunnel_config" where
  "sample_monitor_cfg = monitor_config sample_env (\<lambda>_. True) True [] (\<lambda>_. None) None willing"

definition sample_monitor_tunnel :: "(string \<times> u8 list) list device monitor_state esp_cf_tunnel" where
  "sample_monitor_tunnel = new_tunnel sample_monitor_cfg (replicate 16 7) \<lparr>json_live_bytes = 0, json_allocation_failed = False\<rparr>
     \<lparr>mt_responses = replicate 4 zero_response, mt_world = sample_device\<rparr>"

theorem monitor_device_safe_witness:
  "\<exists>t' h'. h2_events (tunnel_callbacks sample_monitor_cfg willing 5) willing [Begin_Headers 1 True, Frame_Received request_frame] (sample_monitor_tunnel, h2_new 4 8192 ())
     = Some (t', h') \<and> session_ok t' \<and> monitor_ok device_ok (tn_app t') \<and> h2_inv h'"
proof -
  have s: "session_ok sample_monitor_tunnel" by (simp add: sample_monitor_tunnel_def new_session)
  have m: "monitor_ok device_ok (tn_app sample_monitor_tunnel)"
    using sample_device_ok(1) zero_slot_ok by (simp add: sample_monitor_tunnel_def new_tunnel_def monitor_ok_def)
  have e: "events_ok (tunnel_callbacks sample_monitor_cfg willing 5) willing [Begin_Headers 1 True, Frame_Received request_frame] (sample_monitor_tunnel, h2_new 4 8192 ())"
    by (simp add: request_frame_def h2_new_def ids_def used_def zero_stream_def case_prod_unfold split: option.split)
  show ?thesis using monitor_device_safe [OF sample_env_ok(1) sample_monitor_cfg_def s m new_inv e] .
qed

end
