(* ===== verification/Mon_Main.thy ===== *)
theory Mon_Main
  imports Mon_Tunnel
begin

text \<open>
  The system monitor as a whole: its local HTTP server, \<^verbatim>\<open>examples/system_monitor/main/monitor_http.c\<close>, the delayed effects of
  \<^verbatim>\<open>monitor_api.c\<close>, and the start and the loop of \<^verbatim>\<open>main.c\<close>.
\<close>

section \<open>The local server\<close>

text \<open>A request as ESP-IDF's server gives it: the headers by name, the socket's local address, and what successive reads of the body return.\<close>

record http_request =
  hq_uri :: "u8 list"
  hq_post :: bool
  hq_header :: "string \<Rightarrow> u8 list option"
  hq_content_len :: nat
  hq_socket :: "socket_address option"
  hq_reads :: "u8 list list"

record http_reply =
  hr_status :: "u8 list"
  hr_type :: "u8 list"
  hr_body :: "u8 list"
  hr_failed :: bool

text \<open>\<open>httpd_req_get_hdr_value_str\<close> with a buffer of a size, and \<open>httpd_req_get_hdr_value_len\<close>.\<close>

definition header_value :: "http_request \<Rightarrow> string \<Rightarrow> nat \<Rightarrow> u8 list option" where
  "header_value r name cap = (case hq_header r name of Some v \<Rightarrow> if length v < cap then Some v else None | None \<Rightarrow> None)"

definition header_len :: "http_request \<Rightarrow> string \<Rightarrow> nat" where
  "header_len r name = (case hq_header r name of Some v \<Rightarrow> length v | None \<Rightarrow> 0)"

definition http_error :: "string \<Rightarrow> string \<Rightarrow> http_reply" where
  "http_error status why = \<lparr>hr_status = str status, hr_type = str ''application/json'', hr_body = take 239 (error_text (str why)), hr_failed = True\<rparr>"

text \<open>The dotted text of an IPv4 address.\<close>

definition ip_text :: "u8 list \<Rightarrow> u8 list" where
  "ip_text ip = concat (map (\<lambda>i. (if i = 0 then [] else [46]) @ decimal (uint (ip ! i))) [0, 1, 2, 3])"

definition local_origin :: "http_request \<Rightarrow> bool" where
  "local_origin r = (case monitor_request_local_ip (hq_socket r) of None \<Rightarrow> False | Some ip \<Rightarrow>
     let address = ip_text ip; with_port = take 23 (address @ str '':80'') in
     (case header_value r ''Host'' 64 of None \<Rightarrow> False | Some host \<Rightarrow>
        if host \<noteq> address \<and> host \<noteq> with_port then False
        else if header_len r ''Origin'' = 0 then True
        else let expected = take 39 (str ''http://'' @ address @ (if host \<noteq> address then str '':80'' else [])) in
          header_value r ''Origin'' 96 = Some expected))"

text \<open>The reads of the body into the array, until it is full or a read fails; a read gives no more than it is asked for.\<close>

fun recv_loop :: "u8 list list \<Rightarrow> mem \<Rightarrow> nat \<Rightarrow> (mem \<times> nat) option" where
  "recv_loop [] input filled = Some (input, filled)"
| "recv_loop (bs # rest) input filled =
     (if filled < length input then
        let got = take (length input - filled) bs in
        if got = [] then Some (input, filled)
        else do { input \<leftarrow> store_n input filled got; recv_loop rest input (filled + length got) }
      else Some (input, filled))"

definition http_json :: "http_request \<Rightarrow> bool" where
  "http_json r = (case header_value r ''Content-Type'' 64 of None \<Rightarrow> False
     | Some ty \<Rightarrow> take 16 ty = str ''application/json'' \<and> (length ty = 16 \<or> ty ! 16 = ch CHR '';''))"

text \<open>The request handed to the dispatcher, or the refusal. \<open>room\<close> tells whether the input can be allocated.\<close>

definition http_collect :: "(nat \<Rightarrow> bool) \<Rightarrow> http_request \<Rightarrow> (http_reply + monitor_api_request) option" where
  "http_collect room r =
     (if header_len r ''Authorization'' \<noteq> 0 \<and> header_value r ''Authorization'' 80 = None
      then Some (Inl (http_error ''400 Bad Request'' ''Invalid authorization header.''))
      else
        let auth = (case header_value r ''Authorization'' 80 of Some v \<Rightarrow> v | None \<Rightarrow> []);
            q = \<lparr>aq_path = hq_uri r, aq_authorization = Some auth, aq_body = Null_Bytes 0, aq_post = hq_post r, aq_json_content = False,
              aq_origin_allowed = local_origin r, aq_setup_access = monitor_request_on_setup (hq_socket r), aq_remote_access = False\<rparr> in
        if \<not> hq_post r then Some (Inr q)
        else if hq_content_len r = 0 \<or> hq_content_len r > MONITOR_BODY_MAX
        then Some (Inl (http_error ''400 Bad Request'' ''Send a JSON object of at most 2048 bytes.''))
        else if \<not> room (hq_content_len r) then Some (Inl (http_error ''503 Service Unavailable'' ''Not enough memory.''))
        else do {
          (input, filled) \<leftarrow> recv_loop (hq_reads r) (replicate (hq_content_len r) 0) 0;
          Some (Inr (q\<lparr>aq_json_content := http_json r, aq_body := Bytes (if filled = hq_content_len r then input else [])\<rparr>))
        })"

definition api_handler :: "'w api_env \<Rightarrow> (nat \<Rightarrow> bool) \<Rightarrow> bool \<Rightarrow> http_request \<Rightarrow> 'w device \<Rightarrow> (http_reply \<times> 'w device) option" where
  "api_handler e room lock r d = do {
     x \<leftarrow> http_collect room r;
     (case x of
        Inl refusal \<Rightarrow> Some (refusal, d)
      | Inr q \<Rightarrow>
          if \<not> room (MONITOR_REPLY_MAX + 12) \<or> \<not> lock then Some (http_error ''503 Service Unavailable'' ''The device is busy. Please retry.'', d)
          else do {
            (reply, d) \<leftarrow> monitor_api_dispatch e q d;
            let d = monitor_api_schedule_effects (ae_now e) (ar_effects reply) d;
            out \<leftarrow> load_n (ar_body reply) 0 (ar_length reply);
            Some (\<lparr>hr_status = take 39 (decimal (int (ar_status reply)) @ str (if ar_status reply = 200 then '' OK'' else '' Error'')),
                hr_type = str ''application/json'', hr_body = out, hr_failed = False\<rparr>, d)
          })
   }"

definition asset_get :: "(u8 list \<times> u8 list \<times> u8 list) list \<Rightarrow> http_request \<Rightarrow> http_reply" where
  "asset_get assets r = (case find (\<lambda>a. fst a = hq_uri r) assets of
     Some (_, contents, type) \<Rightarrow> \<lparr>hr_status = str ''200 OK'', hr_type = type, hr_body = contents, hr_failed = False\<rparr>
   | None \<Rightarrow> http_error ''404 Not Found'' ''Page not found. Open http://192.168.4.1 on the setup Wi-Fi.'')"

text \<open>The start of the server: \<open>lock\<close>, \<open>started\<close> and \<open>routes\<close> are the answers to the creation of the lock, the start and the registration of the routes.\<close>

definition monitor_http_start :: "cjson_parser \<Rightarrow> bool \<Rightarrow> bool \<Rightarrow> bool list \<Rightarrow> json_heap \<Rightarrow> (bool \<times> json_heap) option" where
  "monitor_http_start parser lock started routes heap =
     (if \<not> lock then Some (False, heap)
      else do {
        (_, heap) \<leftarrow> cf_json_parse parser (Bytes [123, 125]) heap;
        Some (started \<and> list_all (\<lambda>b. b) routes, heap)
      })"

section \<open>Delayed effects and the loop\<close>

definition device_of :: "'w device monitor_state monitor_tunnel \<Rightarrow> 'w device" where
  "device_of m = mt_world (case mu_tunnel m of Inl t \<Rightarrow> tn_app t | Inr a \<Rightarrow> a)"

definition on_device :: "('w device \<Rightarrow> 'w device) \<Rightarrow> 'w device monitor_state monitor_tunnel \<Rightarrow> 'w device monitor_state monitor_tunnel" where
  "on_device f m = (let g = (\<lambda>a. a\<lparr>mt_world := f (mt_world a)\<rparr>) in
     m\<lparr>mu_tunnel := (case mu_tunnel m of Inl t \<Rightarrow> Inl (t\<lparr>tn_app := g (tn_app t)\<rparr>) | Inr a \<Rightarrow> Inr (g a))\<rparr>)"

text \<open>The effects that are due are run; the first component tells that the device restarts.\<close>

definition run_effects :: "u32 \<Rightarrow> 'w device monitor_state monitor_tunnel \<Rightarrow> bool \<times> 'w device monitor_state monitor_tunnel" where
  "run_effects effects m =
     (let m = (if effects AND MONITOR_EFFECT_WIFI \<noteq> 0 then on_device (\<lambda>d. d\<lparr>dv_network := monitor_network_reload (dv_network d)\<rparr>) m else m);
          m = (if effects AND MONITOR_EFFECT_TUNNEL \<noteq> 0 then monitor_tunnel_reload m else m);
          m = (if effects AND MONITOR_EFFECT_TUNNEL_RESTART \<noteq> 0 then monitor_tunnel_restart m else m) in
      (effects AND MONITOR_EFFECT_REBOOT \<noteq> 0, m))"

definition take_effects :: "u64 \<Rightarrow> 'w device \<Rightarrow> u32 \<times> 'w device" where
  "take_effects now d = (if dv_pending_effects d \<noteq> 0 \<and> now \<ge> dv_effects_after d then (dv_pending_effects d, d\<lparr>dv_pending_effects := 0\<rparr>) else (0, d))"

definition monitor_api_tick :: "bool \<Rightarrow> u64 \<Rightarrow> ('w device monitor_state monitor_tunnel \<Rightarrow> 'w device monitor_state monitor_tunnel option)
    \<Rightarrow> 'w device monitor_state monitor_tunnel \<Rightarrow> (bool \<times> 'w device monitor_state monitor_tunnel) option" where
  "monitor_api_tick lock now tunnel_tick m =
     (if \<not> lock then Some (False, m)
      else do {
        m \<leftarrow> tunnel_tick (on_device (\<lambda>d. d\<lparr>dv_ota := monitor_ota_tick now (dv_ota d)\<rparr>) m);
        Some (run_effects (fst (take_effects now (device_of m))) (on_device (\<lambda>d. snd (take_effects now d)) m))
      })"


text \<open>One turn of the loop of \<open>app_main\<close>; a restart does not return.\<close>

definition main_turn :: "bool \<Rightarrow> u64 \<Rightarrow> ('w device monitor_state monitor_tunnel \<Rightarrow> 'w device monitor_state monitor_tunnel option) \<Rightarrow> 'w nvs_ops \<Rightarrow> wifi_answers
    \<Rightarrow> 'w device monitor_state monitor_tunnel \<Rightarrow> (bool \<times> 'w device monitor_state monitor_tunnel) option" where
  "main_turn lock now tunnel_tick ops a m = do {
     (reboot, m) \<leftarrow> monitor_api_tick lock now tunnel_tick m;
     if reboot then Some (True, m)
     else do {
       n \<leftarrow> monitor_network_tick ops (dv_nvs (device_of m)) a now (dv_network (device_of m));
       Some (False, on_device (\<lambda>d. d\<lparr>dv_network := n\<rparr>) m)
     }
   }"

section \<open>Properties\<close>

lemma recv_loop_total:
  "filled \<le> length input \<Longrightarrow> \<exists>input' filled'. recv_loop bss input filled = Some (input', filled') \<and> length input' = length input \<and> filled' \<le> length input"
proof (induction bss arbitrary: input filled)
  case (Cons bs rest)
  let ?got = "take (length input - filled) bs"
  have fit: "filled + length ?got \<le> length input" using Cons.prems by simp
  then have st: "store_n input filled ?got = Some (splice input filled ?got)" "length (splice input filled ?got) = length input" by (simp_all add: store_n_Some)
  show ?case
  proof (cases "filled < length input \<and> ?got \<noteq> []")
    case True
    then show ?thesis using Cons.IH [of "filled + length ?got" "splice input filled ?got"] fit st by (simp add: Let_def)
  next
    case False
    then show ?thesis using Cons.prems by (auto simp: Let_def)
  qed
qed simp

lemma http_collect_total:
  "\<exists>x. http_collect room r = Some x \<and> (\<forall>q. x = Inr q \<longrightarrow> aq_post q = hq_post r \<and> aq_origin_allowed q = local_origin r
     \<and> aq_authorization q = Some (case header_value r ''Authorization'' 80 of Some v \<Rightarrow> v | None \<Rightarrow> []))"
proof -
  obtain i n where "recv_loop (hq_reads r) (replicate (hq_content_len r) 0) 0 = Some (i, n)" using recv_loop_total [of 0 "replicate (hq_content_len r) 0" "hq_reads r"] by auto
  then show ?thesis unfolding http_collect_def Let_def by (auto simp del: replicate.simps)
qed

lemma header_short: "length (case header_value r name n of Some v \<Rightarrow> v | None \<Rightarrow> []) \<le> n"
  by (auto simp: header_value_def split: option.splits)

text \<open>The text of an address has at most 15 characters, so that no text of the comparison is cut off.\<close>

lemma ip_text_length: "length (ip_text ip) \<le> 15"
proof -
  have d: "length (decimal (uint b)) \<le> 3" for b :: u8
    using decimal_nat_length [of "nat (uint b)" 2] u8_less [of b] by (simp add: decimal_def)
  show ?thesis using d [of "ip ! 0"] d [of "ip ! 1"] d [of "ip ! 2"] d [of "ip ! 3"] by (simp add: ip_text_def numeral_2_eq_2 numeral_3_eq_3)
qed

text \<open>The address of the device on a connection, of IPv4 or mapped into IPv6.\<close>

definition device_address :: "socket_address option \<Rightarrow> u8 list \<Rightarrow> bool" where
  "device_address a ip \<longleftrightarrow> a = Some (Inet ip) \<or> (\<exists>rest. a = Some (Inet6 (replicate 10 0 @ [255, 255] @ ip @ rest)) \<and> length ip \<le> 4)"

lemma local_ip_address: "monitor_request_local_ip a = Some ip \<Longrightarrow> device_address a ip"
proof -
  assume l: "monitor_request_local_ip a = Some ip"
  then consider "a = Some (Inet ip)" | ip6 where "a = Some (Inet6 ip6)" "take 12 ip6 = replicate 10 0 @ [255, 255]" "ip = take 4 (drop 12 ip6)"
    by (auto simp: monitor_request_local_ip_def split: option.splits socket_address.splits if_splits)
  then show ?thesis
  proof cases
    case 2
    have "ip6 = take 12 ip6 @ take 4 (drop 12 ip6) @ drop 4 (drop 12 ip6)" by (metis append_take_drop_id)
    then have "ip6 = replicate 10 0 @ [255, 255] @ ip @ drop 4 (drop 12 ip6)" unfolding 2(2) 2(3) [symmetric] by (simp del: replicate.simps)
    then show ?thesis using 2(1,3) unfolding device_address_def by auto
  qed (simp add: device_address_def)
qed

lemma local_origin_host:
  assumes "local_origin r"
  shows "\<exists>ip port. device_address (hq_socket r) ip \<and> port \<in> {'''', '':80''} \<and> hq_header r ''Host'' = Some (ip_text ip @ str port)
    \<and> (hq_header r ''Origin'' = None \<or> hq_header r ''Origin'' = Some [] \<or> hq_header r ''Origin'' = Some (str ''http://'' @ ip_text ip @ str port))"
proof -
  obtain ip where ip: "monitor_request_local_ip (hq_socket r) = Some ip" using assms by (auto simp: local_origin_def split: option.splits)
  let ?a = "ip_text ip"
  have cut: "take 23 (?a @ str '':80'') = ?a @ str '':80''" "take 39 (str ''http://'' @ ?a @ str '':80'') = str ''http://'' @ ?a @ str '':80''"
      "take 39 (str ''http://'' @ ?a) = str ''http://'' @ ?a" using ip_text_length [of ip] by (simp_all add: str_def)
  obtain host where h: "header_value r ''Host'' 64 = Some host" "host = ?a \<or> host = ?a @ str '':80''"
      "header_len r ''Origin'' = 0 \<or> header_value r ''Origin'' 96 = Some (take 39 (str ''http://'' @ ?a @ (if host \<noteq> ?a then str '':80'' else [])))"
    using assms unfolding local_origin_def ip option.case Let_def cut(1) by (auto split: option.splits if_splits)
  define port where "port = (if host = ?a then '''' else '':80'')"
  have e: "str '''' = []" by (simp add: str_def)
  have host: "host = ?a @ str port" using h(2) by (auto simp: port_def e)
  have exp: "take 39 (str ''http://'' @ ?a @ (if host \<noteq> ?a then str '':80'' else [])) = str ''http://'' @ ?a @ str port"
    using cut(2,3) by (simp add: port_def e)
  have "hq_header r ''Host'' = Some (?a @ str port)" using h(1) host by (auto simp: header_value_def split: option.splits if_splits)
  moreover have "hq_header r ''Origin'' = None \<or> hq_header r ''Origin'' = Some [] \<or> hq_header r ''Origin'' = Some (str ''http://'' @ ?a @ str port)"
    using h(3) unfolding exp by (auto simp: header_value_def header_len_def split: option.splits if_splits)
  moreover have "port \<in> {'''', '':80''}" by (simp add: port_def)
  ultimately show ?thesis using local_ip_address [OF ip] by blast
qed

text \<open>
  C13. The local server. Every local request is answered, whatever its headers and however its body arrives, and the device stays well formed. A request changes the device
  only if it is a POST that carries exactly the token of an unexpired session, whose \<open>Host\<close> is the text of the address the connection was made to, alone or with port 80,
  and whose \<open>Origin\<close>, if it has one, is \<open>http://\<close> with that very host: a page of another site cannot use the session, nor can one that
  reaches the device under another name.
\<close>

theorem http_changes_need_session:
  assumes "env_ok e" "device_ok d"
  shows "\<exists>rep d'. api_handler e room lock r d = Some (rep, d') \<and> device_ok d'
    \<and> (core d' \<noteq> core d \<longrightarrow> hq_post r \<and> ae_now e < dv_session_until d
        \<and> (\<exists>s. cstring (dv_session d) = Some s \<and> s \<noteq> [] \<and> header_value r ''Authorization'' 80 = Some (str ''Bearer '' @ s))
        \<and> (\<exists>ip port. device_address (hq_socket r) ip \<and> port \<in> {'''', '':80''} \<and> hq_header r ''Host'' = Some (ip_text ip @ str port)
             \<and> (hq_header r ''Origin'' = None \<or> hq_header r ''Origin'' = Some [] \<or> hq_header r ''Origin'' = Some (str ''http://'' @ ip_text ip @ str port))))"
proof -
  obtain x where x: "http_collect room r = Some x" and q: "\<And>q. x = Inr q \<Longrightarrow> aq_post q = hq_post r \<and> aq_origin_allowed q = local_origin r
      \<and> aq_authorization q = Some (case header_value r ''Authorization'' 80 of Some v \<Rightarrow> v | None \<Rightarrow> [])"
    using http_collect_total by blast
  show ?thesis
  proof (cases "\<exists>q. x = Inr q \<and> room (MONITOR_REPLY_MAX + 12) \<and> lock")
    case False
    then show ?thesis using x assms(2) by (cases x) (auto simp: api_handler_def)
  next
    case True
    then obtain qq where qq: "x = Inr qq" "room (MONITOR_REPLY_MAX + 12)" "lock" by blast
    obtain reply d1 where d1: "monitor_api_dispatch e qq d = Some (reply, d1)" "device_ok d1" "reply_ok reply"
      using dispatch_fine [OF assms, of qq] by (auto simp: fine_def yields_def)
    let ?d = "monitor_api_schedule_effects (ae_now e) (ar_effects reply) d1"
    have ld: "load_n (ar_body reply) 0 (ar_length reply) = Some (take (ar_length reply) (ar_body reply))"
      using d1(3) by (simp add: load_n_def reply_ok_def)
    have dk: "device_ok ?d" using d1(2) by (simp add: monitor_api_schedule_effects_def device_ok_def)
    have "core d1 \<noteq> core d \<or> ar_effects reply \<noteq> 0" if "core ?d \<noteq> core d" using that by (auto simp: monitor_api_schedule_effects_def split: if_splits)
    moreover have len: "length (dv_session d) = 65" using assms(2) by (simp add: device_ok_def)
    moreover have "\<forall>a. aq_authorization qq = Some a \<longrightarrow> length a < 2 ^ 32" using q [OF qq(1)] header_short [of r "''Authorization''" 80] by auto
    ultimately have need: "aq_post qq \<and> aq_origin_allowed qq \<and> ae_now e < dv_session_until d
        \<and> (\<exists>s. cstring (dv_session d) = Some s \<and> s \<noteq> [] \<and> aq_authorization qq = Some (str ''Bearer '' @ s))" if "core ?d \<noteq> core d"
      using dispatch_needs_session [OF d1(1)] that by blast
    have "header_value r ''Authorization'' 80 = Some (str ''Bearer '' @ s)" if "aq_authorization qq = Some (str ''Bearer '' @ s)" for s
      using that q [OF qq(1)] by (cases "header_value r ''Authorization'' 80") (auto simp: str_def)
    then have safe: "core ?d \<noteq> core d \<longrightarrow> hq_post r \<and> ae_now e < dv_session_until d
        \<and> (\<exists>s. cstring (dv_session d) = Some s \<and> s \<noteq> [] \<and> header_value r ''Authorization'' 80 = Some (str ''Bearer '' @ s))
        \<and> local_origin r" using need q [OF qq(1)] by blast
    show ?thesis using x qq d1(1) ld dk safe local_origin_host [of r] by (auto simp: api_handler_def)
  qed
qed

text \<open>A restart of the tunnel asked for over the setup network, with the session and the device's own page as origin: it does change the device.\<close>

definition sample_http :: http_request where
  "sample_http = \<lparr>hq_uri = str ''/api/tunnel/restart'', hq_post = True,
     hq_header = map_of [(''Host'', str ''192.168.4.1''), (''Origin'', str ''http://192.168.4.1''), (''Content-Type'', str ''application/json''),
       (''Authorization'', str ''Bearer '' @ sample_session)],
     hq_content_len = 2, hq_socket = Some (Inet [192, 168, 4, 1]), hq_reads = [[123], [125]]\<rparr>"

lemma sample_http_facts:
  "local_origin sample_http" "http_json sample_http" "monitor_request_on_setup (hq_socket sample_http)" "header_len sample_http ''Authorization'' \<noteq> 0"
  "header_value sample_http ''Authorization'' 80 = Some (str ''Bearer '' @ sample_session)"
  "recv_loop (hq_reads sample_http) (replicate (hq_content_len sample_http) 0) 0 = Some ([123, 125], 2)"
  by code_simp+

lemma sample_http_collect:
  "http_collect (\<lambda>_. True) sample_http = Some (Inr ((sample_post ''/api/tunnel/restart'')\<lparr>aq_setup_access := True, aq_remote_access := False\<rparr>))"
proof -
  have f: "hq_post sample_http" "hq_content_len sample_http = 2" "hq_uri sample_http = str ''/api/tunnel/restart''" by (simp_all add: sample_http_def)
  show ?thesis unfolding http_collect_def sample_http_facts(5,6) by (simp add: f sample_http_facts(1-4) MONITOR_BODY_MAX_def sample_post_def)
qed

theorem http_changes_need_session_witness:
  "\<exists>rep d'. api_handler sample_env (\<lambda>_. True) True sample_http sample_device = Some (rep, d') \<and> dv_pending_effects d' = 8 \<and> device_ok d'
     \<and> (\<exists>ip port. device_address (hq_socket sample_http) ip \<and> hq_header sample_http ''Host'' = Some (ip_text ip @ str port))"
proof -
  let ?q = "(sample_post ''/api/tunnel/restart'')\<lparr>aq_setup_access := True, aq_remote_access := False\<rparr>"
  obtain r where r: "monitor_api_dispatch sample_env ?q sample_device = Some (r, sample_device)" "ar_effects r = 8"
    using sample_restart [where a = True and b = False] by blast
  obtain rep d' where a: "api_handler sample_env (\<lambda>_. True) True sample_http sample_device = Some (rep, d')" "device_ok d'"
      "core d' \<noteq> core sample_device \<longrightarrow> (\<exists>ip port. device_address (hq_socket sample_http) ip \<and> hq_header sample_http ''Host'' = Some (ip_text ip @ str port))"
    using http_changes_need_session [OF sample_env_ok(1) sample_device_ok(1), of "\<lambda>_. True" True sample_http] by blast
  have "d' = monitor_api_schedule_effects (ae_now sample_env) 8 sample_device"
    using a(1) r by (auto simp: api_handler_def sample_http_collect bind_eq_Some_conv Let_def)
  then have "dv_pending_effects d' = 8" by (simp add: monitor_api_schedule_effects_def sample_device_def)
  moreover from this have "core d' \<noteq> core sample_device" by (simp add: core_def sample_device_def)
  ultimately show ?thesis using a by blast
qed

lemma on_device_simps [simp]:
  "device_of (on_device f m) = f (device_of m)" "mu_restarting (on_device f m) = mu_restarting m" "on_device f (on_device g m) = on_device (\<lambda>d. f (g d)) m"
  "on_device (\<lambda>d. d) m = m"
  by (auto simp: on_device_def device_of_def Let_def split: sum.split)

lemma on_device_cong: "f (device_of m) = g (device_of m) \<Longrightarrow> on_device f m = on_device g m"
  by (auto simp: on_device_def device_of_def Let_def split: sum.split)

lemma tunnel_tick_idle: "\<not> mu_restarting m \<Longrightarrow> monitor_tunnel_tick cfg ng t hp room created rnd json m = Some m"
  by (simp add: monitor_tunnel_tick_def split: sum.split)

lemma run_no_effects: "run_effects 0 m = (False, m)"
  by (simp add: run_effects_def)

text \<open>Successive ticks, each with the success of taking the lock and its time, until the device restarts.\<close>

fun api_ticks :: "(u64 \<Rightarrow> 'w device monitor_state monitor_tunnel \<Rightarrow> 'w device monitor_state monitor_tunnel option) \<Rightarrow> (bool \<times> u64) list
    \<Rightarrow> 'w device monitor_state monitor_tunnel \<Rightarrow> (bool \<times> 'w device monitor_state monitor_tunnel) option" where
  "api_ticks tick [] m = Some (False, m)"
| "api_ticks tick ((lock, t) # ts) m = do {
     (reboot, m) \<leftarrow> monitor_api_tick lock t (tick t) m;
     if reboot then Some (True, m) else api_ticks tick ts m
   }"

lemma idle_tick:
  assumes "\<not> mu_restarting m" "dv_pending_effects (device_of m) = 0 \<or> t < dv_effects_after (device_of m)"
  shows "\<exists>u. monitor_api_tick lock t (monitor_tunnel_tick cfg ng t hp room created rnd json) m = Some (False, on_device (\<lambda>d. d\<lparr>dv_ota := u\<rparr>) m)"
proof (cases lock)
  case True
  let ?u = "monitor_ota_tick t (dv_ota (device_of m))"
  have c: "on_device (\<lambda>d. d\<lparr>dv_ota := monitor_ota_tick t (dv_ota d)\<rparr>) m = on_device (\<lambda>d. d\<lparr>dv_ota := ?u\<rparr>) m" by (rule on_device_cong) simp
  have e: "take_effects t (d\<lparr>dv_ota := ?u\<rparr>) = (0, d\<lparr>dv_ota := ?u\<rparr>)" if "d = device_of m" for d
    using assms(2) that by (auto simp: take_effects_def)
  have "on_device (\<lambda>d. snd (take_effects t (d\<lparr>dv_ota := ?u\<rparr>))) m = on_device (\<lambda>d. d\<lparr>dv_ota := ?u\<rparr>) m" by (rule on_device_cong) (simp add: e)
  then show ?thesis using True assms(1) e by (auto simp: monitor_api_tick_def c tunnel_tick_idle run_no_effects)
next
  case False
  have "m = on_device (\<lambda>d. d\<lparr>dv_ota := dv_ota (device_of m)\<rparr>) m" by (subst on_device_cong [where g = "\<lambda>d. d"]) simp_all
  then show ?thesis using False by (auto simp: monitor_api_tick_def)
qed

lemma idle_ticks:
  "\<not> mu_restarting m \<Longrightarrow> dv_pending_effects (device_of m) = 0 \<or> (\<forall>(lock, t) \<in> set ts. t < dv_effects_after (device_of m)) \<Longrightarrow>
    \<exists>u. api_ticks (\<lambda>t. monitor_tunnel_tick cfg ng t (hp t) room created rnd json) ts m = Some (False, on_device (\<lambda>d. d\<lparr>dv_ota := u\<rparr>) m)"
proof (induction ts arbitrary: m)
  case Nil
  have "m = on_device (\<lambda>d. d\<lparr>dv_ota := dv_ota (device_of m)\<rparr>) m" by (subst on_device_cong [where g = "\<lambda>d. d"]) simp_all
  then show ?case by auto
next
  case (Cons x ts)
  obtain lock t where x: "x = (lock, t)" by fastforce
  obtain u where u: "monitor_api_tick lock t (monitor_tunnel_tick cfg ng t (hp t) room created rnd json) m = Some (False, on_device (\<lambda>d. d\<lparr>dv_ota := u\<rparr>) m)"
    using idle_tick [OF Cons.prems(1), of t lock cfg ng "hp t" room created rnd json] Cons.prems(2) x by auto
  show ?case using Cons.IH [of "on_device (\<lambda>d. d\<lparr>dv_ota := u\<rparr>) m"] Cons.prems u x by auto
qed

text \<open>What a set of effects leaves behind: the flags that start the work, each set exactly when its bit is.\<close>

definition effects_started :: "u32 \<Rightarrow> 'w device monitor_state monitor_tunnel \<Rightarrow> 'w device monitor_state monitor_tunnel \<Rightarrow> bool" where
  "effects_started e m m' \<longleftrightarrow>
     nw_reload_requested (dv_network (device_of m')) = (nw_reload_requested (dv_network (device_of m)) \<or> e AND MONITOR_EFFECT_WIFI \<noteq> 0)
     \<and> (case mu_tunnel m of
          Inl t \<Rightarrow> (\<exists>t'. mu_tunnel m' = Inl t' \<and> tn_reload_requested t' = (tn_reload_requested t \<or> e AND MONITOR_EFFECT_TUNNEL \<noteq> 0)
            \<and> tn_stop_requested t' = (tn_stop_requested t \<or> e AND MONITOR_EFFECT_TUNNEL_RESTART \<noteq> 0)
            \<and> mu_restarting m' = (mu_restarting m \<or> e AND MONITOR_EFFECT_TUNNEL_RESTART \<noteq> 0))
        | Inr _ \<Rightarrow> (\<exists>a. mu_tunnel m' = Inr a) \<and> mu_restarting m' = mu_restarting m)"

lemma run_effects_started:
  "run_effects e m = (reboot, m') \<Longrightarrow> reboot = (e AND MONITOR_EFFECT_REBOOT \<noteq> 0) \<and> effects_started e m m'
    \<and> dv_pending_effects (device_of m') = dv_pending_effects (device_of m)"
  unfolding run_effects_def
  by (cases "mu_tunnel m"; cases "e AND MONITOR_EFFECT_WIFI = 0"; cases "e AND MONITOR_EFFECT_TUNNEL = 0"; cases "e AND MONITOR_EFFECT_TUNNEL_RESTART = 0")
    (auto simp: effects_started_def monitor_tunnel_reload_def monitor_tunnel_restart_def esp_cf_tunnel_reload_def esp_cf_tunnel_stop_def monitor_network_reload_def
      on_device_def device_of_def)

lemma effects_started_from:
  "effects_started e (on_device f m) m' \<Longrightarrow> dv_network (f (device_of m)) = dv_network (device_of m) \<Longrightarrow> effects_started e m m'"
  by (cases "mu_tunnel m") (auto simp: effects_started_def on_device_def device_of_def Let_def)


definition sample_machine :: "(string \<times> u8 list) list device monitor_state monitor_tunnel" where
  "sample_machine = \<lparr>mu_tunnel = Inl sample_monitor_tunnel, mu_restarting = False\<rparr>"


end
