(* ===== verification/Spec2Isabelle.thy ===== *)
theory Spec2Isabelle
  imports CF_Headers CF_Lifecycle CF_Rpc CF_Dns CF_Config CF_Tunnel CF_Task Mon_Main
begin

text \<open>
  Verification of esp-cf-tunnel, an ESP32 component that keeps a Cloudflare Tunnel connection.

  \<^bold>\<open>The program.\<close> A task of the component (\<^verbatim>\<open>src/components/esp_cf_tunnel\<close>) finds an edge server by DNS, connects
  to it by TLS, speaks HTTP/2 in the server role over that connection, registers the tunnel by a Cap'n Proto RPC
  on a control stream, receives a routing configuration in JSON on a configuration stream, and from then on hands the
  requests of the edge to the application. Everything that comes from the edge is parsed in fixed buffers; secrets are
  erased after use. A lifecycle record decides which step is next and how long to back off after a failure.

  \<^bold>\<open>How it is modelled.\<close> C functions are HOL functions on explicit state. Arrays are lists, and every access goes
  through \<open>load\<close>, \<open>store\<close>, \<open>load_n\<close> and \<open>store_n\<close> of \<open>CF_Prelude\<close>, whose result outside the array is \<open>None\<close>; so
  \<open>None\<close> is undefined behaviour and a theorem that a call returns \<open>Some\<close> is memory safety. Pointers that may
  be NULL are options, \<open>size_t\<close> arithmetic is on numbers with the wrap-around at 32 bits written out (\<open>size_wrap\<close>,
  \<open>size_sub\<close>), other machine integers are words, results are the values of \<open>cf_result\<close>. Loops are structural recursion or
  functions with a termination proof; no fuel is used. Code outside the repository (the cJSON parser, nghttp2, esp-tls,
  sockets, the clock, \<open>malloc\<close>, the random source) and the application's callbacks are arguments of the definitions that use them.

  \<^bold>\<open>The theories.\<close>
  \<^item> \<open>CF_Prelude\<close>: results, bytes, bounds-checked memory, the predicate \<open>yields\<close> (a call returns and satisfies a
    postcondition) with its composition rules, word lemmas. \<open>CF_Bytes\<close>: little-endian loads and stores.
  \<^item> \<open>CF_Base64\<close> (\<^verbatim>\<open>protocol/cf_base64.c\<close>, \<^verbatim>\<open>cf_secure_zero\<close>): the codec equals the reference text, accepts exactly the
    canonical texts, round trips, stays in bounds.
  \<^item> \<open>CF_Headers\<close> (\<^verbatim>\<open>protocol/cf_headers.c\<close>): the serialised header blocks of the edge; acceptance is exact, encoding is
    exact, decoding inverts encoding.
  \<^item> \<open>CF_Json\<close> (\<^verbatim>\<open>protocol/cf_json.c\<close>): the lexical filter in front of cJSON equals a grammar of lexemes, the heap quota of its
    allocator, the name check, the erasure. cJSON's parser is an argument; what is relied on is that it accepts only texts of its
    grammar and gives strings and numbers their values (\<open>parser_strings\<close>, \<open>parser_numbers\<close>).
  \<^item> \<open>CF_Credentials\<close> (\<^verbatim>\<open>protocol/cf_credentials.c\<close>): the token parser accepts exactly the denoted tokens and erases its scratch area.
  \<^item> \<open>CF_Config\<close> (\<^verbatim>\<open>protocol/cf_config.c\<close>): an update is applied as a whole or not at all, versions never go back, the answer's text.
  \<^item> \<open>CF_Dns\<close> (\<^verbatim>\<open>protocol/cf_dns.c\<close>): queries are written exactly, any packet is parsed without leaving it, names round trip.
  \<^item> \<open>CF_Framing\<close>, \<open>CF_Capnp\<close>, \<open>CF_Build\<close> (\<^verbatim>\<open>protocol/cf_capnp_framing.c\<close>, \<^verbatim>\<open>protocol/cf_capnp.c\<close>): the framer (locale
    \<open>frame_sink\<close> for its consumer), the reader and the builder of messages; both are safe on every input, what is built is read back.
  \<^item> \<open>CF_Rpc\<close> (\<^verbatim>\<open>protocol/cf_rpc.c\<close>): the registration client; every frame has a result, and the state is justified by the calls made.
  \<^item> \<open>CF_Lifecycle\<close> (\<^verbatim>\<open>cf_lifecycle.c\<close>): the connection's state machine, its invariant, back-off, recovery.
  \<^item> \<open>CF_H2\<close>, \<open>CF_H2_Owner\<close> (\<^verbatim>\<open>transport/cf_h2.c\<close>): the HTTP/2 engine over nghttp2. nghttp2 is a record of functions and
    the sequence of callbacks it makes, constrained only by \<open>event_ok\<close> (a new request has a new nonzero id). The locale
    \<open>h2_application\<close> is the contract of the engine's owner: callbacks return and change the engine only through its operations
    (\<open>h2_touch\<close>). \<open>h2_step\<close> is the step relation of all operations; admission, memory safety, time-outs and the heap quota
    are proved over it.
  \<^item> \<open>CF_TlsDiag\<close> (\<^verbatim>\<open>transport/cf_tls_diag.c\<close>): the classification of connect outcomes.
  \<^item> \<open>CF_Tunnel\<close> (\<^verbatim>\<open>transport/esp_cf_tunnel.c\<close>): the tunnel object and its session. The queue of the control stream is an
    interpretation of the locale \<open>byte_queue\<close>, \<open>rpc_message\<close> one of \<open>frame_sink\<close>, and the tunnel's callbacks meet
    \<open>h2_application\<close> as soon as the application does (\<open>tunnel_host\<close>); so the engine's theorems hold of the whole session.
  \<^item> \<open>CF_Srv\<close>, \<open>CF_Task\<close> (the same file): the choice of an edge server, discovery, the connection, the exchange of bytes, one
    turn of the task's loop and its end, and the public operations. The record \<open>turn\<close> holds what the world answers in a turn; the
    clock is read once per turn. The choice is fair to priorities and weights, and the exchange is total and keeps the session,
    provided nghttp2 makes only callbacks it may make in the states the exchange meets (\<open>link_ok\<close>, which follows the loops).
  \<^item> \<open>Mon_Remote\<close>, \<open>Mon_Tunnel\<close> (\<^verbatim>\<open>examples/system_monitor/main\<close>: \<^verbatim>\<open>monitor_remote.c\<close>, the stream callbacks of
    \<^verbatim>\<open>monitor_tunnel.c\<close>): the parser of requests is total and what it accepts is bounded and can be read in one way only (\<open>unambiguous\<close>); a request acts on the device once, when its
    body is complete. The callbacks run over the dispatcher of \<open>Mon_Api\<close> (\<open>device_services\<close>) and meet \<open>h2_application\<close>, so that the theorems of the
    tunnel hold of the whole device.
  \<^item> \<open>Mon_Api\<close> (\<^verbatim>\<open>monitor_api.c\<close>): the JSON interface over the state of the whole device, the record \<open>device\<close>. Every request is answered within its
    array and keeps \<open>device_ok\<close>; what lies behind the interface (\<open>core\<close>) changes only with the token of an unexpired session, a session opens only with
    the device password, and at most five wrong log-ins a minute are examined, five more after each right one.
  \<^item> \<open>Mon_Ota\<close> (\<^verbatim>\<open>monitor_ota.c\<close>): the firmware update; its log of flash operations justifies every selection of a boot partition by an
    announced, complete image with the announced digest.
  \<^item> \<open>Mon_Store\<close>, \<open>Mon_Network\<close>, \<open>Mon_Board\<close> (\<^verbatim>\<open>monitor_store.c\<close>, \<^verbatim>\<open>monitor_network.c\<close>, \<^verbatim>\<open>monitor_io.c\<close>, \<^verbatim>\<open>monitor_led.c\<close>): settings
    survive a save, the network task is total over all events, always leaves a way to reach the device and retries with a back-off, only the listed pins are driven.
  \<^item> \<open>Mon_Main\<close> (\<^verbatim>\<open>monitor_http.c\<close>, the tick of \<^verbatim>\<open>monitor_api.c\<close>, the loop of \<^verbatim>\<open>main.c\<close>): the local server, which hands on a request as changing only
    with its own host and origin, and the delayed effects: no tick of the second after a request runs them, the next one runs each exactly once.

  \<^bold>\<open>Bounds.\<close> The arrays have the sizes of the source: 4096 queued RPC bytes, 16384 bytes of one RPC frame, 8192 of a configuration,
  8192 of request headers, 6 stream slots, 65536 bytes of nghttp2 heap at most, 32768 bytes of JSON heap. Times are 64-bit milliseconds.

  \<^bold>\<open>Not modelled.\<close> nghttp2 and the cJSON parser are third-party; the contents of sockets and TLS, FreeRTOS scheduling and
  critical sections, and log output are input and output. Of the example application (\<^verbatim>\<open>src/examples\<close>) the start-up
  calls of \<^verbatim>\<open>main.c\<close> and the smoke test of the protocol functions are not modelled; there are no theorems on a whole run of the task; tests and tools are not part of the program.
\<close>

end
